(* ===== verification/Prelude.thy ===== *)
theory Prelude
  imports Complex_Main
begin

text \<open>
  Shared vocabulary of the development.  JavaScript's insertion-ordered \<open>Set\<close> is a
  list without repetitions, its insertion-ordered \<open>Map\<close> an association list with
  distinct keys; the operations below are \<open>Set.add\<close>, \<open>Set.delete\<close>, \<open>Map.set\<close>,
  \<open>Map.get\<close> and \<open>Map.delete\<close>.  The lemmas about them are what the component
  theories share; \<open>js\<close> collects the rewriting rules.
\<close>

named_theorems js "rewriting rules for the insertion-ordered Set and Map"

type_synonym id = int

section \<open>Insertion-ordered sets\<close>

definition js_set_add :: "'a \<Rightarrow> 'a list \<Rightarrow> 'a list" where
  "js_set_add x xs = (if x \<in> set xs then xs else xs @ [x])"

definition js_set_delete :: "'a \<Rightarrow> 'a list \<Rightarrow> 'a list" where
  "js_set_delete x xs = filter (\<lambda>y. y \<noteq> x) xs"

definition js_set_of :: "'a list \<Rightarrow> 'a list" where
  "js_set_of xs = foldl (\<lambda>acc x. js_set_add x acc) [] xs"

lemma set_js_set_add [simp, js]: "set (js_set_add x xs) = insert x (set xs)"
  by (auto simp: js_set_add_def)

lemma distinct_js_set_add [simp]: "distinct xs \<Longrightarrow> distinct (js_set_add x xs)"
  by (simp add: js_set_add_def)

lemma set_js_set_delete [simp, js]: "set (js_set_delete x xs) = set xs - {x}"
  by (auto simp: js_set_delete_def)

lemma distinct_js_set_delete [simp]: "distinct xs \<Longrightarrow> distinct (js_set_delete x xs)"
  by (simp add: js_set_delete_def)

lemma js_set_delete_Cons_fresh: "x \<notin> set xs \<Longrightarrow> js_set_delete x (x # xs) = xs"
  by (simp add: js_set_delete_def filter_id_conv) blast

lemma js_set_delete_fresh: "x \<notin> set xs \<Longrightarrow> js_set_delete x xs = xs"
  by (simp add: js_set_delete_def filter_id_conv) blast

lemma set_foldl_js_set_add:
  "set (foldl (\<lambda>acc x. js_set_add x acc) acc xs) = set acc \<union> set xs"
  by (induction xs arbitrary: acc) auto

lemma distinct_foldl_js_set_add:
  "distinct acc \<Longrightarrow> distinct (foldl (\<lambda>acc x. js_set_add x acc) acc xs)"
  by (induction xs arbitrary: acc) auto

lemma set_js_set_of [simp, js]: "set (js_set_of xs) = set xs"
  by (simp add: js_set_of_def set_foldl_js_set_add)

lemma distinct_js_set_of [simp]: "distinct (js_set_of xs)"
  by (simp add: js_set_of_def distinct_foldl_js_set_add)

section \<open>Insertion-ordered maps\<close>

type_synonym ('k, 'v) jsmap = "('k \<times> 'v) list"

abbreviation js_get :: "('k, 'v) jsmap \<Rightarrow> 'k \<Rightarrow> 'v option" where
  "js_get m k \<equiv> map_of m k"

definition js_has :: "('k, 'v) jsmap \<Rightarrow> 'k \<Rightarrow> bool" where
  "js_has m k \<longleftrightarrow> map_of m k \<noteq> None"

text \<open>\<open>Map.set\<close> keeps the position of a key that is already there and appends a new one.\<close>

fun js_put :: "'k \<Rightarrow> 'v \<Rightarrow> ('k, 'v) jsmap \<Rightarrow> ('k, 'v) jsmap" where
  "js_put k v [] = [(k, v)]"
| "js_put k v ((k', v') # m) = (if k = k' then (k, v) # m else (k', v') # js_put k v m)"

definition js_del :: "'k \<Rightarrow> ('k, 'v) jsmap \<Rightarrow> ('k, 'v) jsmap" where
  "js_del k m = filter (\<lambda>p. fst p \<noteq> k) m"

definition js_keys :: "('k, 'v) jsmap \<Rightarrow> 'k list" where
  "js_keys m = map fst m"

definition js_wf :: "('k, 'v) jsmap \<Rightarrow> bool" where
  "js_wf m \<longleftrightarrow> distinct (map fst m)"

lemma js_get_put [simp, js]: "js_get (js_put k v m) = (js_get m)(k \<mapsto> v)"
  by (induction k v m rule: js_put.induct) (auto simp: fun_eq_iff)

lemma js_get_del [simp, js]: "js_get (js_del k m) = (js_get m)(k := None)"
  by (induction m) (auto simp: js_del_def fun_eq_iff)

lemma js_has_iff [js]: "js_has m k \<longleftrightarrow> k \<in> fst ` set m"
  by (simp add: js_has_def map_of_eq_None_iff)

lemma keys_js_put: "fst ` set (js_put k v m) = insert k (fst ` set m)"
  by (induction k v m rule: js_put.induct) auto

lemma keys_js_del: "fst ` set (js_del k m) = fst ` set m - {k}"
  by (auto simp: js_del_def)

lemma js_wf_Nil [simp]: "js_wf []"
  by (simp add: js_wf_def)

lemma js_wf_put [simp]: "js_wf m \<Longrightarrow> js_wf (js_put k v m)"
  by (induction k v m rule: js_put.induct)
    (auto simp: js_wf_def keys_js_put simp flip: set_map simp del: set_map, auto simp: keys_js_put)

lemma js_wf_del [simp]: "js_wf m \<Longrightarrow> js_wf (js_del k m)"
  by (induction m) (auto simp: js_wf_def js_del_def)

lemma js_del_fresh: "js_get m k = None \<Longrightarrow> js_del k m = m"
  by (auto simp: js_del_def filter_id_conv map_of_eq_None_iff)

lemma length_js_put:
  "length (js_put k v m) = (if js_has m k then length m else Suc (length m))"
  by (induction k v m rule: js_put.induct) (auto simp: js_has_def)

lemma length_js_del_le: "length (js_del k m) \<le> length m"
  by (simp add: js_del_def)

lemma length_js_del_less: "js_has m k \<Longrightarrow> length (js_del k m) < length m"
  unfolding js_del_def by (auto simp: js_has_iff intro: length_filter_less)

section \<open>Results\<close>

text \<open>A thrown error is \<open>Inl\<close>, a returned value \<open>Inr\<close>.\<close>

fun bind_result :: "'e + 'a \<Rightarrow> ('a \<Rightarrow> 'e + 'b) \<Rightarrow> 'e + 'b" where
  "bind_result (Inl e) f = Inl e"
| "bind_result (Inr x) f = f x"

lemma bind_result_Inr_iff:
  "bind_result r f = Inr y \<longleftrightarrow> (\<exists>x. r = Inr x \<and> f x = Inr y)"
  by (cases r) auto

section \<open>Strings\<close>

text \<open>
  Strings are lists of characters.  \<open>toLowerCase\<close> and \<open>trim\<close> are modelled on the ASCII
  letters and ASCII white space, which is what the keywords and identifiers they are
  compared with consist of.
\<close>

definition char_lower :: "char \<Rightarrow> char" where
  "char_lower c = (let n = of_char c :: nat in if 65 \<le> n \<and> n \<le> 90 then char_of (n + 32) else c)"

definition to_lower :: "string \<Rightarrow> string" where
  "to_lower s = map char_lower s"

definition is_space :: "char \<Rightarrow> bool" where
  "is_space c = (let n = of_char c :: nat in n = 32 \<or> (9 \<le> n \<and> n \<le> 13))"

definition trim :: "string \<Rightarrow> string" where
  "trim s = rev (dropWhile is_space (rev (dropWhile is_space s)))"

definition starts_with :: "string \<Rightarrow> string \<Rightarrow> bool" where
  "starts_with p s \<longleftrightarrow> take (length p) s = p"

fun str_includes :: "string \<Rightarrow> string \<Rightarrow> bool" where
  "str_includes [] k \<longleftrightarrow> k = []"
| "str_includes (c # s) k \<longleftrightarrow> starts_with k (c # s) \<or> str_includes s k"

lemma starts_with_iff: "starts_with p s \<longleftrightarrow> (\<exists>t. s = p @ t)"
  by (metis append_eq_conv_conj append_take_drop_id starts_with_def)

lemma str_includes_iff: "str_includes s k \<longleftrightarrow> (\<exists>a b. s = a @ k @ b)"
proof (induction s)
  case Nil
  then show ?case by auto
next
  case (Cons c s)
  have "(\<exists>a b. c # s = a @ k @ b) \<longleftrightarrow> (\<exists>b. c # s = k @ b) \<or> (\<exists>a b. s = a @ k @ b)"
    by (metis append_Cons append_Nil list.exhaust list.inject)
  with Cons show ?case by (simp add: starts_with_iff)
qed

text \<open>\<open>s.split(c)\<close> and \<open>ss.join(c)\<close> for a separator of one character or code point.\<close>

fun split_on :: "'a \<Rightarrow> 'a list \<Rightarrow> 'a list list" where
  "split_on c [] = [[]]"
| "split_on c (x # xs) =
     (if x = c then [] # split_on c xs
      else case split_on c xs of [] \<Rightarrow> [[x]] | w # ws \<Rightarrow> (x # w) # ws)"

fun join_with :: "'a \<Rightarrow> 'a list list \<Rightarrow> 'a list" where
  "join_with c [] = []"
| "join_with c [s] = s"
| "join_with c (s # t # ss) = s @ c # join_with c (t # ss)"

lemma split_on_nonempty [simp]: "split_on c s \<noteq> []"
  by (cases s) (auto split: list.split)

lemma split_on_append: "split_on c (a @ c # b) = split_on c a @ split_on c b"
  by (induction a) (auto split: list.split)

lemma split_on_join: "ts \<noteq> [] \<Longrightarrow> split_on c (join_with c ts) = concat (map (split_on c) ts)"
  by (induction c ts rule: join_with.induct) (simp_all add: split_on_append)

lemma split_on_free: "c \<notin> set s \<Longrightarrow> split_on c s = [s]"
  by (induction s) auto

lemma length_split_on: "length (split_on c s) = Suc (count_list s c)"
  by (induction s) (auto split: list.split)

text \<open>\<open>String(n)\<close> for an integer.\<close>

fun digits_of :: "nat \<Rightarrow> string" where
  "digits_of n = (if n < 10 then [char_of (48 + n)] else digits_of (n div 10) @ [char_of (48 + n mod 10)])"

declare digits_of.simps [simp del]

definition string_of_int :: "int \<Rightarrow> string" where
  "string_of_int i = (if i < 0 then CHR ''-'' # digits_of (nat (- i)) else digits_of (nat i))"

section \<open>Sorting\<close>

text \<open>
  \<open>Array.prototype.sort\<close> is stable: an element moves in front of another one only when the
  comparator puts it strictly before.  On a comparator that is a total preorder of the
  elements the result is determined, whatever algorithm the engine uses; here it is insertion.
\<close>

fun insert_by :: "('a \<Rightarrow> 'a \<Rightarrow> 'n::linordered_idom) \<Rightarrow> 'a \<Rightarrow> 'a list \<Rightarrow> 'a list" where
  "insert_by cmp x [] = [x]"
| "insert_by cmp x (y # ys) = (if cmp x y \<le> 0 then x # y # ys else y # insert_by cmp x ys)"

definition js_sort :: "('a \<Rightarrow> 'a \<Rightarrow> 'n::linordered_idom) \<Rightarrow> 'a list \<Rightarrow> 'a list" where
  "js_sort cmp xs = foldr (insert_by cmp) xs []"

lemma js_sort_simps [simp]:
  "js_sort cmp [] = []"
  "js_sort cmp (x # xs) = insert_by cmp x (js_sort cmp xs)"
  by (simp_all add: js_sort_def)

lemma set_insert_by [simp]: "set (insert_by cmp x xs) = insert x (set xs)"
  by (induction xs) auto

lemma length_insert_by [simp]: "length (insert_by cmp x xs) = Suc (length xs)"
  by (induction xs) auto

lemma distinct_insert_by [simp]: "distinct (insert_by cmp x xs) \<longleftrightarrow> x \<notin> set xs \<and> distinct xs"
  by (induction xs) auto

lemma set_js_sort [simp]: "set (js_sort cmp xs) = set xs"
  by (induction xs) auto

lemma length_js_sort [simp]: "length (js_sort cmp xs) = length xs"
  by (induction xs) auto

lemma distinct_js_sort [simp]: "distinct (js_sort cmp xs) = distinct xs"
  by (induction xs) auto

lemma insort_key_map: "insort_key f (g x) (map g xs) = map g (insort_key (f \<circ> g) x xs)"
  by (induction xs) auto

lemma sort_key_map: "sort_key f (map g xs) = map g (sort_key (f \<circ> g) xs)"
  by (induction xs) (simp_all add: insort_key_map comp_def)

lemma insort_key_cong: "(\<And>y. y \<in> insert x (set xs) \<Longrightarrow> f y = h y) \<Longrightarrow> insort_key f x xs = insort_key h x xs"
  by (induction xs) auto

lemma sort_key_cong: "(\<And>y. y \<in> set xs \<Longrightarrow> f y = h y) \<Longrightarrow> sort_key f xs = sort_key h xs"
proof (induction xs)
  case (Cons x xs)
  then show ?case using insort_key_cong [of x "sort_key h xs" f h] by simp
qed simp

text \<open>What a comparator promises on the elements \<open>A\<close> it is used on.\<close>

locale js_comparator =
  fixes cmp :: "'a \<Rightarrow> 'a \<Rightarrow> 'n::linordered_idom" and A :: "'a set"
  assumes cmp_total: "a \<in> A \<Longrightarrow> b \<in> A \<Longrightarrow> cmp a b \<le> 0 \<or> cmp b a \<le> 0"
    and cmp_trans: "a \<in> A \<Longrightarrow> b \<in> A \<Longrightarrow> c \<in> A \<Longrightarrow> cmp a b \<le> 0 \<Longrightarrow> cmp b c \<le> 0 \<Longrightarrow> cmp a c \<le> 0"
begin

lemma insert_by_sorted:
  "x \<in> A \<Longrightarrow> set xs \<subseteq> A \<Longrightarrow> sorted_wrt (\<lambda>a b. cmp a b \<le> 0) xs \<Longrightarrow>
     sorted_wrt (\<lambda>a b. cmp a b \<le> 0) (insert_by cmp x xs)"
proof (induction xs)
  case (Cons y ys)
  show ?case
  proof (cases "cmp x y \<le> 0")
    case True
    have "cmp x z \<le> 0" if "z \<in> set ys" for z
    proof (rule cmp_trans [of x y z])
      show "x \<in> A" "y \<in> A" "z \<in> A" "cmp x y \<le> 0" "cmp y z \<le> 0" using Cons.prems True that by auto
    qed
    with True Cons.prems show ?thesis by simp
  next
    case False
    then have "cmp y x \<le> 0" using Cons.prems cmp_total by auto
    with False Cons show ?thesis by simp
  qed
qed simp

lemma js_sort_sorted: "set xs \<subseteq> A \<Longrightarrow> sorted_wrt (\<lambda>a b. cmp a b \<le> 0) (js_sort cmp xs)"
proof (induction xs)
  case (Cons x xs)
  then have "sorted_wrt (\<lambda>a b. cmp a b \<le> 0) (insert_by cmp x (js_sort cmp xs))"
    by (intro insert_by_sorted) auto
  then show ?case by simp
qed simp

text \<open>The first element of a sorted array is a least one.\<close>

lemma js_sort_hd: "set xs \<subseteq> A \<Longrightarrow> js_sort cmp xs = y # ys \<Longrightarrow> z \<in> set xs \<Longrightarrow> cmp y z \<le> 0 \<or> z = y"
  using js_sort_sorted [of xs] by (metis set_ConsD set_js_sort sorted_wrt.simps(2))

end

end
