(* ===== verification/Graph_Contracts.thy ===== *)
theory Graph_Contracts
  imports Prelude
begin

text \<open>
  The interfaces between the graph components.  \<open>cycle_oracle\<close> is what the dependency
  service and the topology classifier require of a cycle check; \<open>topology_classifier\<close> is what
  a labelling of a project graph as FLAT, DAG or DAG_CYCLIC promises.  Two classifiers that
  keep the contract agree on every project.
\<close>

type_synonym edge = "id \<times> id"

datatype topology = FLAT | DAG | DAG_CYCLIC

lemma acyclic_empty_rel [simp]: "acyclic ({} :: ('a \<times> 'a) set)"
  by (simp add: acyclic_def)

section \<open>Cycle checks\<close>

locale cycle_oracle =
  fixes closes :: "edge list \<Rightarrow> id \<Rightarrow> id \<Rightarrow> bool"
  assumes closes_iff: "closes es u v \<longleftrightarrow> \<not> acyclic (insert (u, v) (set es))"
begin

lemma accepted_keeps_acyclic: "\<not> closes es u v \<Longrightarrow> acyclic (set (es @ [(u, v)]))"
  by (simp add: closes_iff)

lemma closes_iff_path:
  "acyclic (set es) \<Longrightarrow> closes es u v \<longleftrightarrow> (v, u) \<in> (set es)\<^sup>*"
  by (simp add: closes_iff acyclic_insert)

lemma self_closes: "closes es u u"
  by (auto simp: closes_iff acyclic_def)

text \<open>Probing one edge against the others decides whether the whole graph is acyclic.\<close>

lemma probe_edge:
  "i < length es \<Longrightarrow>
    closes (take i es @ drop (Suc i) es) (fst (es ! i)) (snd (es ! i)) \<longleftrightarrow> \<not> acyclic (set es)"
proof -
  assume i: "i < length es"
  have "insert (es ! i) (set (take i es @ drop (Suc i) es)) = set (take i es @ es ! i # drop (Suc i) es)"
    by simp
  also have "\<dots> = set es" using i by (simp only: id_take_nth_drop [symmetric])
  finally show ?thesis by (simp only: closes_iff prod.collapse)
qed

end

section \<open>Classifiers\<close>

definition classified :: "edge list \<Rightarrow> topology" where
  "classified es = (if es = [] then FLAT else if acyclic (set es) then DAG else DAG_CYCLIC)"

locale topology_classifier =
  fixes classify :: "id list \<Rightarrow> edge list \<Rightarrow> topology"
  assumes classify_spec:
    "distinct ns \<Longrightarrow> set es \<subseteq> set ns \<times> set ns \<Longrightarrow> classify ns es = classified es"
begin

lemma cyclic_iff:
  "distinct ns \<Longrightarrow> set es \<subseteq> set ns \<times> set ns \<Longrightarrow> classify ns es = DAG_CYCLIC \<longleftrightarrow> \<not> acyclic (set es)"
  by (auto simp: classify_spec classified_def)

lemma node_order_irrelevant:
  "distinct ns \<Longrightarrow> distinct ms \<Longrightarrow> set ns = set ms \<Longrightarrow> set es \<subseteq> set ns \<times> set ns \<Longrightarrow>
    classify ns es = classify ms es"
  by (simp add: classify_spec)

end

text \<open>Two implementations of the contract side by side.\<close>

locale two_classifiers = A: topology_classifier f + B: topology_classifier g
  for f g :: "id list \<Rightarrow> edge list \<Rightarrow> topology"
begin

lemma agree:
  "distinct ns \<Longrightarrow> set es \<subseteq> set ns \<times> set ns \<Longrightarrow> f ns es = g ns es"
  by (simp add: A.classify_spec B.classify_spec)

end

end
