(* ===== verification/Cycle_Detector.thy ===== *)
theory Cycle_Detector
  imports Graph_Contracts
begin

text \<open>
  Models \<open>src/utils/cycle-detector.ts\<close>: the adjacency list the constructor builds, the
  depth-first search with its visited set and recursion stack (both mutated in place by
  the source, so both are returned), and \<open>wouldCreateCycle\<close>, which adds an edge for the
  time of the search and takes it out again.  The result is that the search answers
  exactly whether the graph with the extra edge has a cycle.
\<close>

type_synonym adjacency = "(id, id list) jsmap"

section \<open>The adjacency list\<close>

definition adj_add :: "adjacency \<Rightarrow> id \<Rightarrow> id \<Rightarrow> adjacency" where
  "adj_add A u v =
     (let A1 = (if js_has A u then A else js_put u [] A)
      in js_put u (js_set_add v (the (js_get A1 u))) A1)"

definition cd_new :: "edge list \<Rightarrow> adjacency" where
  "cd_new es = foldl (\<lambda>A e. adj_add A (fst e) (snd e)) [] es"

definition neighbors :: "adjacency \<Rightarrow> id \<Rightarrow> id list" where
  "neighbors A u = (case js_get A u of None \<Rightarrow> [] | Some vs \<Rightarrow> vs)"

definition all_nodes :: "adjacency \<Rightarrow> id list" where
  "all_nodes A =
     foldl (\<lambda>acc p. foldl (\<lambda>acc v. js_set_add v acc) (js_set_add (fst p) acc) (snd p)) [] A"

definition adj_rel :: "adjacency \<Rightarrow> (id \<times> id) set" where
  "adj_rel A = {(u, v). v \<in> set (neighbors A u)}"

lemma adj_add_get:
  "js_get (adj_add A u v) = (js_get A)(u \<mapsto> js_set_add v (neighbors A u))"
  by (auto simp: adj_add_def Let_def neighbors_def js_has_def fun_eq_iff split: option.splits)

lemma neighbors_adj_add:
  "neighbors (adj_add A u v) w = (if w = u then js_set_add v (neighbors A u) else neighbors A w)"
  by (simp add: neighbors_def adj_add_get)

lemma adj_rel_add [simp]: "adj_rel (adj_add A u v) = insert (u, v) (adj_rel A)"
  by (auto simp: adj_rel_def neighbors_adj_add split: if_splits)

lemma adj_rel_foldl:
  "adj_rel (foldl (\<lambda>A e. adj_add A (fst e) (snd e)) A es) = adj_rel A \<union> set es"
  by (induction es arbitrary: A) auto

lemma adj_rel_cd_new [simp]: "adj_rel (cd_new es) = set es"
  by (simp add: cd_new_def adj_rel_foldl) (simp add: adj_rel_def neighbors_def)

lemma js_wf_adj_add [simp]: "js_wf A \<Longrightarrow> js_wf (adj_add A u v)"
  by (simp add: adj_add_def Let_def)

lemma js_wf_cd_new [simp]: "js_wf (cd_new es)"
proof -
  have "js_wf A \<Longrightarrow> js_wf (foldl (\<lambda>A e. adj_add A (fst e) (snd e)) A es)" for A
    by (induction es arbitrary: A) auto
  then show ?thesis by (simp add: cd_new_def)
qed

lemma set_all_nodes: "set (all_nodes A) = (\<Union>p\<in>set A. insert (fst p) (set (snd p)))"
proof -
  have "set (foldl (\<lambda>acc p. foldl (\<lambda>acc v. js_set_add v acc) (js_set_add (fst p) acc) (snd p)) acc A)
      = set acc \<union> (\<Union>p\<in>set A. insert (fst p) (set (snd p)))" for acc
    by (induction A arbitrary: acc) (auto simp: set_foldl_js_set_add)
  then show ?thesis by (simp add: all_nodes_def)
qed

lemma neighbors_all_nodes: "v \<in> set (neighbors A u) \<Longrightarrow> u \<in> set (all_nodes A) \<and> v \<in> set (all_nodes A)"
proof -
  assume v: "v \<in> set (neighbors A u)"
  then obtain vs where "js_get A u = Some vs" and "v \<in> set vs"
    unfolding neighbors_def by (cases "js_get A u") auto
  then have "(u, vs) \<in> set A" by (simp add: map_of_SomeD)
  with \<open>v \<in> set vs\<close> show ?thesis by (force simp: set_all_nodes)
qed

lemma Field_adj_rel: "(u, v) \<in> adj_rel A \<Longrightarrow> u \<in> set (all_nodes A) \<and> v \<in> set (all_nodes A)"
  by (simp add: adj_rel_def neighbors_all_nodes)

section \<open>The depth-first search\<close>

text \<open>
  \<open>dfs_loop A ns V R\<close> is the \<open>for\<close> loop over the neighbours \<open>ns\<close> of one call of
  \<open>dfs\<close>, with the recursive call unfolded: \<open>V\<close> is \<open>visited\<close>, \<open>R\<close> is \<open>recStack\<close>
  (newest first).  The recursive call on an unvisited neighbour adds it to both sets,
  runs its own loop and, when no back edge was found, removes it from \<open>recStack\<close>.
\<close>

function dfs_loop :: "adjacency \<Rightarrow> id list \<Rightarrow> id list \<Rightarrow> id list \<Rightarrow> bool \<times> id list \<times> id list" where
  "dfs_loop A [] V R = (False, V, R)"
| "dfs_loop A (n # ns) V R =
     (if n \<in> set R then (True, V, R)
      else if n \<in> set V then dfs_loop A ns V R
      else case dfs_loop A (neighbors A n) (n # V) (n # R) of
             (found, V', R') \<Rightarrow>
               if found then (True, V', R')
               else dfs_loop A ns V' (js_set_delete n R'))"
  by pat_completeness auto

lemma dfs_loop_visited_grows:
  "dfs_loop_dom (A, ns, V, R) \<Longrightarrow> set V \<subseteq> set (fst (snd (dfs_loop A ns V R)))"
  by (induction A ns V R rule: dfs_loop.pinduct)
    (force simp: dfs_loop.psimps split: prod.splits)+

termination dfs_loop
proof (relation "inv_image (finite_psubset <*lex*> less_than)
    (\<lambda>(A, ns, V, R). (set (all_nodes A) - set V, length ns))", goal_cases)
  case 1
  show ?case by (simp add: wf_finite_psubset wf_lex_prod)
next
  case (2 A n ns V R)
  then show ?case by simp
next
  case (3 A n ns V R)
  show ?case
  proof (cases "n \<in> set (all_nodes A)")
    case True
    with 3 show ?thesis by (auto simp: finite_psubset_def)
  next
    case False
    then have "neighbors A n = []"
      by (metis list.set_intros(1) neighbors_all_nodes neq_Nil_conv)
    with False show ?thesis by simp
  qed
next
  case (4 A n ns V R found q V' R')
  then have "set (n # V) \<subseteq> set V'"
    using dfs_loop_visited_grows [of A "neighbors A n" "n # V" "n # R"]
    by (metis fst_conv snd_conv)
  then have "set (all_nodes A) - set V' \<subseteq> set (all_nodes A) - set V" by auto
  then show ?case by (auto simp: finite_psubset_def)
qed

definition dfs :: "adjacency \<Rightarrow> id \<Rightarrow> id list \<Rightarrow> id list \<Rightarrow> bool \<times> id list \<times> id list" where
  "dfs A n V R =
     (case dfs_loop A (neighbors A n) (n # V) (n # R) of
        (found, V', R') \<Rightarrow> (found, V', if found then R' else js_set_delete n R'))"

fun detect_loop :: "adjacency \<Rightarrow> id list \<Rightarrow> id list \<Rightarrow> id list \<Rightarrow> bool" where
  "detect_loop A [] V R = False"
| "detect_loop A (n # ns) V R =
     (if n \<in> set V then detect_loop A ns V R
      else case dfs A n V R of
             (found, V', R') \<Rightarrow> if found then True else detect_loop A ns V' R')"

definition detect_cycle :: "adjacency \<Rightarrow> bool" where
  "detect_cycle A = detect_loop A (all_nodes A) [] []"

definition would_create_cycle :: "adjacency \<Rightarrow> id \<Rightarrow> id \<Rightarrow> bool \<times> adjacency" where
  "would_create_cycle A u v =
     (let A1 = adj_add A u v;
          hasCycle = detect_cycle A1;
          rest = js_set_delete v (neighbors A1 u);
          A2 = js_put u rest A1
      in (hasCycle, if rest = [] then js_del u A2 else A2))"

section \<open>Correctness of the search\<close>

text \<open>
  A set of finished nodes is \<open>settled\<close> when every edge out of it stays inside and no
  node of it lies on a cycle.
\<close>

definition settled :: "(id \<times> id) set \<Rightarrow> id set \<Rightarrow> bool" where
  "settled E B \<longleftrightarrow> E `` B \<subseteq> B \<and> (\<forall>x\<in>B. (x, x) \<notin> E\<^sup>+)"

lemma settled_empty [simp]: "settled E {}"
  by (simp add: settled_def)

lemma trancl_stays: "(x, y) \<in> E\<^sup>+ \<Longrightarrow> E `` B \<subseteq> B \<Longrightarrow> x \<in> B \<Longrightarrow> y \<in> B"
  by (induction rule: trancl_induct) auto

lemma settled_insert:
  assumes "settled E B" and "E `` {n} \<subseteq> B" and "n \<notin> B"
  shows "settled E (insert n B)"
proof -
  from assms(1) have closed: "E `` B \<subseteq> B" by (simp add: settled_def)
  have "(n, n) \<notin> E\<^sup>+"
  proof
    assume "(n, n) \<in> E\<^sup>+"
    then obtain m where "(n, m) \<in> E" and m: "(m, n) \<in> E\<^sup>*" by (meson tranclD)
    with assms(2) have "m \<in> B" by auto
    with m closed assms(3) show False
      by (metis rtranclD trancl_stays)
  qed
  with assms show ?thesis by (auto simp: settled_def)
qed

lemma dfs_loop_frame:
  assumes "dfs_loop A ns V R = (False, V', R')" and "set R \<subseteq> set V"
  shows "R' = R \<and> set V \<subseteq> set V'"
  using assms
proof (induction A ns V R arbitrary: V' R' rule: dfs_loop.induct)
  case (1 A V R)
  then show ?case by simp
next
  case (2 A n ns V R)
  show ?case
  proof (cases "n \<in> set R \<or> n \<in> set V")
    case True
    with "2" show ?thesis by (auto split: if_splits)
  next
    case False
    then obtain V1 R1 where call: "dfs_loop A (neighbors A n) (n # V) (n # R) = (False, V1, R1)"
      and rest: "dfs_loop A ns V1 (js_set_delete n R1) = (False, V', R')"
      using "2.prems"(1) by (auto split: prod.splits if_splits)
    have one: "R1 = n # R \<and> set (n # V) \<subseteq> set V1"
      using False "2.prems"(2) by (intro "2.IH"(2) call) auto
    then have del: "js_set_delete n R1 = R" using False by (simp add: js_set_delete_Cons_fresh)
    have "set R \<subseteq> set V1 \<longrightarrow> R' = R \<and> set V1 \<subseteq> set V'"
      using "2.IH"(3)[OF _ _ call[symmetric] refl] False rest by (simp add: del)
    with one "2.prems"(2) show ?thesis by auto
  qed
qed

lemma dfs_loop_frame_call:
  assumes "dfs_loop A ms (n # V) (n # R) = (False, V1, R1)" and "set R \<subseteq> set V" and "n \<notin> set V"
  shows "R1 = n # R" and "js_set_delete n R1 = R" and "insert n (set V) \<subseteq> set V1"
proof -
  have frame: "R1 = n # R \<and> set (n # V) \<subseteq> set V1"
    using assms by (intro dfs_loop_frame) auto
  have "n \<notin> set R" using assms by auto
  with frame show "R1 = n # R" and "js_set_delete n R1 = R" and "insert n (set V) \<subseteq> set V1"
    by (simp_all add: js_set_delete_Cons_fresh)
qed

text \<open>Induction over the loop, with the frame of the recursive call already applied.\<close>

lemma dfs_loop_induct [consumes 1, case_names Nil Back Seen Found Rest]:
  assumes "set R \<subseteq> set V"
    and Nil: "\<And>V R. P [] V R (False, V, R)"
    and Back: "\<And>n ns V R. set R \<subseteq> set V \<Longrightarrow> n \<in> set R \<Longrightarrow> P (n # ns) V R (True, V, R)"
    and Seen: "\<And>n ns V R r. set R \<subseteq> set V \<Longrightarrow> n \<notin> set R \<Longrightarrow> n \<in> set V \<Longrightarrow> P ns V R r \<Longrightarrow> P (n # ns) V R r"
    and Found: "\<And>n ns V R V1 R1. set R \<subseteq> set V \<Longrightarrow> n \<notin> set V \<Longrightarrow>
        P (neighbors A n) (n # V) (n # R) (True, V1, R1) \<Longrightarrow> P (n # ns) V R (True, V1, R1)"
    and Rest: "\<And>n ns V R V1 r. set R \<subseteq> set V \<Longrightarrow> n \<notin> set V \<Longrightarrow> insert n (set V) \<subseteq> set V1 \<Longrightarrow>
        P (neighbors A n) (n # V) (n # R) (False, V1, n # R) \<Longrightarrow> P ns V1 R r \<Longrightarrow> P (n # ns) V R r"
  shows "P ns V R (dfs_loop A ns V R)"
proof -
  have "A' = A \<longrightarrow> set R \<subseteq> set V \<longrightarrow> P ns V R (dfs_loop A' ns V R)" for A'
  proof (induction A' ns V R rule: dfs_loop.induct)
    case (1 A' V R)
    show ?case by (simp add: Nil)
  next
    case (2 A' n ns V R)
    show ?case
    proof (intro impI)
      assume A: "A' = A" and sub: "set R \<subseteq> set V"
      consider "n \<in> set R" | "n \<notin> set R" "n \<in> set V" | (new) "n \<notin> set V" by blast
      then show "P (n # ns) V R (dfs_loop A' (n # ns) V R)"
      proof cases
        case new
        with sub have nR: "n \<notin> set R" by auto
        obtain found V1 R1 where call: "dfs_loop A (neighbors A n) (n # V) (n # R) = (found, V1, R1)"
          by (metis prod_cases3)
        have inner: "P (neighbors A n) (n # V) (n # R) (found, V1, R1)"
          using "2.IH"(2) A sub new nR call by auto
        show ?thesis
        proof (cases found)
          case True
          with inner call A new nR show ?thesis by (auto intro: Found [OF sub new])
        next
          case False
          with call have call': "dfs_loop A (neighbors A n) (n # V) (n # R) = (False, V1, R1)"
            by simp
          note fr = dfs_loop_frame_call [OF call' sub new]
          have "P ns V1 R (dfs_loop A ns V1 R)"
            using "2.IH"(3)[OF nR new _ refl, of False V1 R1] A call' fr sub by auto
          then have "P (n # ns) V R (dfs_loop A ns V1 R)"
            using Rest [OF sub new fr(3)] inner False fr(1) by simp
          with call' A new nR fr(2) show ?thesis by simp
        qed
      qed (use 2 A sub Back Seen in auto)
    qed
  qed
  with assms(1) show ?thesis by blast
qed

lemma dfs_loop_clean:
  assumes "dfs_loop A ns V R = (False, V', R')"
    and "set R \<subseteq> set V" and "settled (adj_rel A) (set V - set R)"
  shows "set ns \<subseteq> set V' - set R \<and> settled (adj_rel A) (set V' - set R)"
proof -
  let ?P = "\<lambda>ns V R r. settled (adj_rel A) (set V - set R) \<longrightarrow> \<not> fst r \<longrightarrow>
      set V \<subseteq> set (fst (snd r)) \<and> set ns \<subseteq> set (fst (snd r)) - set R \<and>
      settled (adj_rel A) (set (fst (snd r)) - set R)"
  have "?P ns V R (dfs_loop A ns V R)"
  proof (rule dfs_loop_induct [where P = ?P, OF assms(2)], goal_cases)
    case (5 n ns V R V1 r)
    have diff: "set (n # V) - set (n # R) = set V - set R" using 5(1,2) by auto
    have eq: "set V1 - set R = insert n (set V1 - set (n # R))" using 5(1-3) by auto
    show ?case
    proof (intro impI)
      assume st: "settled (adj_rel A) (set V - set R)" and nf: "\<not> fst r"
      have one: "set (neighbors A n) \<subseteq> set V1 - set (n # R) \<and>
          settled (adj_rel A) (set V1 - set (n # R))"
        using 5(4) st unfolding diff by simp
      then have "settled (adj_rel A) (set V1 - set R)"
        unfolding eq by (intro settled_insert) (auto simp: adj_rel_def)
      with 5(5) nf 5(1-3) show "set V \<subseteq> set (fst (snd r)) \<and>
          set (n # ns) \<subseteq> set (fst (snd r)) - set R \<and> settled (adj_rel A) (set (fst (snd r)) - set R)"
        by auto
    qed
  qed auto
  with assms show ?thesis by simp
qed

lemma dfs_loop_found:
  assumes "fst (dfs_loop A ns V R)" and "set R \<subseteq> set V"
    and "\<forall>r\<in>set R. (r, u) \<in> (adj_rel A)\<^sup>*" and "set ns \<subseteq> set (neighbors A u)"
  shows "\<exists>x. (x, x) \<in> (adj_rel A)\<^sup>+"
proof -
  let ?P = "\<lambda>ns V R r. \<forall>u. fst r \<longrightarrow> (\<forall>r\<in>set R. (r, u) \<in> (adj_rel A)\<^sup>*) \<longrightarrow>
      set ns \<subseteq> set (neighbors A u) \<longrightarrow> (\<exists>x. (x, x) \<in> (adj_rel A)\<^sup>+)"
  have "?P ns V R (dfs_loop A ns V R)"
  proof (rule dfs_loop_induct [where P = ?P, OF assms(2)], goal_cases)
    case (2 n ns V R)
    then show ?case by (auto simp: adj_rel_def intro: rtrancl_into_trancl1)
  next
    case (4 n ns V R V1 R1)
    show ?case
    proof (intro allI impI)
      fix u
      assume reach: "\<forall>r\<in>set R. (r, u) \<in> (adj_rel A)\<^sup>*" and "set (n # ns) \<subseteq> set (neighbors A u)"
      then have "(u, n) \<in> adj_rel A" by (simp add: adj_rel_def)
      with reach have "\<forall>r\<in>set (n # R). (r, n) \<in> (adj_rel A)\<^sup>*"
        by (auto intro: rtrancl_into_rtrancl)
      with 4(3) show "\<exists>x. (x, x) \<in> (adj_rel A)\<^sup>+" by (auto dest!: spec[of _ n])
    qed
  qed auto
  with assms show ?thesis by blast
qed

text \<open>One call of \<open>dfs\<close> from the outer loop, where the recursion stack is empty.\<close>

lemma dfs_root:
  assumes "settled (adj_rel A) (set V)" and "n \<notin> set V"
  obtains (cyclic) V' R' x where "dfs A n V [] = (True, V', R')" and "(x, x) \<in> (adj_rel A)\<^sup>+"
  | (clean) V' where "dfs A n V [] = (False, V', [])" and "insert n (set V) \<subseteq> set V'"
      and "settled (adj_rel A) (set V')"
proof -
  obtain found V1 R1 where call: "dfs_loop A (neighbors A n) (n # V) [n] = (found, V1, R1)"
    by (metis prod_cases3)
  show ?thesis
  proof (cases found)
    case True
    with call dfs_loop_found [of A "neighbors A n" "n # V" "[n]" n]
    obtain x where "(x, x) \<in> (adj_rel A)\<^sup>+" by auto
    with call True show ?thesis by (intro cyclic) (auto simp: dfs_def)
  next
    case False
    with call have call': "dfs_loop A (neighbors A n) (n # V) [n] = (False, V1, R1)" by simp
    note fr = dfs_loop_frame_call [OF call' _ assms(2), simplified]
    have "set (n # V) - set [n] = set V" using assms(2) by auto
    then have cl: "set (neighbors A n) \<subseteq> set V1 - set [n] \<and> settled (adj_rel A) (set V1 - set [n])"
      using dfs_loop_clean [OF call'] assms(1) by auto
    have "set V1 = insert n (set V1 - set [n])" using fr by auto
    moreover have "settled (adj_rel A) (insert n (set V1 - set [n]))"
      using cl by (intro settled_insert) (auto simp: adj_rel_def)
    ultimately have "settled (adj_rel A) (set V1)" by simp
    with call' fr show ?thesis by (intro clean) (auto simp: dfs_def)
  qed
qed

lemma detect_loop_iff:
  "settled (adj_rel A) (set V) \<Longrightarrow>
    (detect_loop A ns V [] \<longrightarrow> (\<exists>x. (x, x) \<in> (adj_rel A)\<^sup>+)) \<and>
    (\<not> detect_loop A ns V [] \<longrightarrow> (\<forall>x\<in>set V \<union> set ns. (x, x) \<notin> (adj_rel A)\<^sup>+))"
proof (induction ns arbitrary: V)
  case Nil
  then show ?case by (simp add: settled_def)
next
  case (Cons n ns)
  show ?case
  proof (cases "n \<in> set V")
    case True
    with Cons.IH [OF Cons.prems] show ?thesis by (auto simp: settled_def)
  next
    case False
    from Cons.prems False show ?thesis
    proof (cases rule: dfs_root)
      case (cyclic V' R' x)
      with False show ?thesis by auto
    next
      case (clean V')
      from Cons.IH [OF clean(3)] clean(1,2) False show ?thesis by auto
    qed
  qed
qed

lemma detect_cycle_iff: "detect_cycle A \<longleftrightarrow> \<not> acyclic (adj_rel A)"
proof -
  have "x \<in> set (all_nodes A)" if "(x, x) \<in> (adj_rel A)\<^sup>+" for x
    using that by (metis Field_adj_rel tranclD)
  then show ?thesis
    using detect_loop_iff [of A "[]" "all_nodes A"] by (auto simp: detect_cycle_def acyclic_def)
qed

lemma would_create_cycle_adj:
  "fst (would_create_cycle A u v) \<longleftrightarrow> \<not> acyclic (insert (u, v) (adj_rel A))"
  by (simp add: would_create_cycle_def Let_def detect_cycle_iff)

text \<open>
  C9.  For any list of dependency edges, the detector built from it answers that adding
  the edge from \<open>u\<close> to \<open>v\<close> creates a cycle exactly when the graph of these edges together
  with the new one has a directed cycle (a self-loop included).  The depth-first search
  that computes the answer is a total function.
\<close>

theorem would_create_cycle_correct:
  "fst (would_create_cycle (cd_new es) u v) \<longleftrightarrow> \<not> acyclic (insert (u, v) (set es))"
  by (simp add: would_create_cycle_adj)

text \<open>The detector built from an edge list is a cycle check in the sense of the contract.\<close>

definition detector_closes :: "edge list \<Rightarrow> id \<Rightarrow> id \<Rightarrow> bool" where
  "detector_closes es u v = fst (would_create_cycle (cd_new es) u v)"

interpretation detector: cycle_oracle detector_closes
  by unfold_locales (simp add: detector_closes_def would_create_cycle_adj)

text \<open>The temporary edge is removed again when it was not there before.\<close>

lemma would_create_cycle_restores:
  assumes "(u, v) \<notin> adj_rel A"
  shows "adj_rel (snd (would_create_cycle A u v)) = adj_rel A"
proof -
  have "js_set_delete v (js_set_add v (neighbors A u)) = neighbors A u"
    using assms by (simp add: adj_rel_def js_set_add_def js_set_delete_def filter_id_conv) blast
  then show ?thesis
    by (auto simp: would_create_cycle_def Let_def adj_rel_def neighbors_adj_add)
      (auto simp: neighbors_def adj_add_get split: if_splits option.splits)
qed

end
