(* ===== verification/Task_Types.thy ===== *)
theory Task_Types
  imports Prelude
begin

text \<open>
  The data of \<open>src/types/task.ts\<close> and \<open>src/types/wsjf.ts\<close>: the closed enumerations,
  the Fibonacci tiers, the per-component metadata of a WSJF score, the task row with its
  columns, and the partial-update objects whose keys are absent, null or set.
  Timestamps are milliseconds since the epoch; \<open>sql_now\<close> is SQLite's
  \<open>datetime('now')\<close>, which drops the milliseconds.
\<close>

type_synonym stamp = int

definition sql_now :: "stamp \<Rightarrow> stamp" where
  "sql_now now = (now div 1000) * 1000"

section \<open>Enumerations\<close>

datatype status = Open | In_progress | Done | Closed | Blocked | Backlogged

datatype priority = Low | Medium | High | Urgent

fun valid_status_transitions :: "status \<Rightarrow> status list" where
  "valid_status_transitions Open = [In_progress, Blocked, Closed, Backlogged]"
| "valid_status_transitions In_progress = [Done, Blocked, Open]"
| "valid_status_transitions Blocked = [Open, In_progress]"
| "valid_status_transitions Done = [Closed, Open]"
| "valid_status_transitions Closed = [Open]"
| "valid_status_transitions Backlogged = [Open]"

section \<open>Fibonacci tiers\<close>

datatype fib = F1 | F2 | F3 | F5 | F8 | F13

fun fib_val :: "fib \<Rightarrow> int" where
  "fib_val F1 = 1"
| "fib_val F2 = 2"
| "fib_val F3 = 3"
| "fib_val F5 = 5"
| "fib_val F8 = 8"
| "fib_val F13 = 13"

definition FIB :: "fib list" where
  "FIB = [F1, F2, F3, F5, F8, F13]"

lemma fib_val_inject [simp]: "fib_val a = fib_val b \<longleftrightarrow> a = b"
  by (cases a; cases b) auto

lemma fib_val_pos [simp]: "0 < fib_val a" "1 \<le> fib_val a" "fib_val a \<le> 13" "0 \<le> fib_val a"
  by (cases a; simp)+

lemma set_FIB [simp]: "a \<in> set FIB"
  by (cases a) (auto simp: FIB_def)

text \<open>Tiers compare by their numeric value, as the source's numbers do.\<close>

instantiation fib :: linorder
begin

definition less_eq_fib :: "fib \<Rightarrow> fib \<Rightarrow> bool" where
  "a \<le> b \<longleftrightarrow> fib_val a \<le> fib_val b"

definition less_fib :: "fib \<Rightarrow> fib \<Rightarrow> bool" where
  "a < b \<longleftrightarrow> fib_val a < fib_val b"

instance
  by standard (auto simp: less_eq_fib_def less_fib_def)

end

section \<open>WSJF metadata\<close>

datatype alignment_class = Align_none | Align_weak | Align_direct | Align_core
datatype severity_class = Sev_none | Sev_tech_debt | Sev_security | Sev_data_loss | Sev_compliance
datatype decay_class = Flat | Slow | Fast
datatype source_tag = Auto | Manual

datatype wsjf_trigger =
    Tr_create | Tr_update | Tr_decompose | Tr_single_create | Tr_rescore | Tr_manual
  | Tr_propagation | Tr_auto_size | Tr_boot_sweep

text \<open>\<open>Record<WsjfComponentKey, 'a>\<close>: one value for each of the four component keys.\<close>

record 'a per_component =
  c_value :: 'a
  c_time :: 'a
  c_risk :: 'a
  c_job :: 'a

type_synonym components = "fib per_component"
type_synonym wsjf_evidence = "string per_component"
type_synonym wsjf_source = "source_tag per_component"
type_synonym wsjf_locks = "bool per_component"

datatype component_key = K_value | K_time | K_risk | K_job

fun comp_get :: "component_key \<Rightarrow> 'a per_component \<Rightarrow> 'a" where
  "comp_get K_value c = c_value c"
| "comp_get K_time c = c_time c"
| "comp_get K_risk c = c_risk c"
| "comp_get K_job c = c_job c"

record classification =
  theme_name :: "string option"
  alignment :: alignment_class
  severity :: severity_class
  decay :: "decay_class option"
  job_size_tier :: fib
  cl_evidence :: wsjf_evidence

record features =
  deadline_date :: "string option"
  days_until_deadline :: "int option"
  transitive_dependents :: int
  files_touched :: "int option"
  charter_version :: "int option"

record wsjf_write =
  w_components :: components
  w_evidence :: "wsjf_evidence option"
  w_locked :: "wsjf_locks option"
  w_source :: "wsjf_source option"
  w_classifications :: "classification option"
  w_features :: "features option"
  w_manual :: "bool option"
  w_trigger :: "wsjf_trigger option"

section \<open>Verification evidence\<close>

datatype verdict = PASS | FAIL | PARTIAL | NOT_VERIFIED
datatype check_status = Check_pass | Check_fail | Check_skip

record verification_check =
  check_name :: string
  check_result :: check_status
  evidence_text :: string

record verification_evidence =
  verdict :: verdict
  checks :: "verification_check list option"
  verifier_session_id :: "string option"
  verifier_request_id :: "string option"
  verified_at :: "stamp option"

section \<open>The task row\<close>

text \<open>
  One row of \<open>tasks\<close> with its \<open>task_tags\<close>.  A nullable column is an option.  The nine
  \<open>wsjf_*\<close> columns are the four component columns and the five JSON columns.
\<close>

record task =
  task_id :: id
  title :: string
  description :: "string option"
  status :: status
  priority :: priority
  project_id :: id
  parent_task_id :: "id option"
  estimated_minutes :: "int option"
  assignee :: "string option"
  created_by :: string
  due_date :: "stamp option"
  created_at :: stamp
  updated_at :: stamp
  version :: int
  claimed_at :: "stamp option"
  completed_at :: "stamp option"
  acceptance_criteria :: "string option"
  evidence :: "verification_evidence option"
  created_by_user_id :: "id option"
  assignee_user_id :: "id option"
  wsjf_value :: "fib option"
  wsjf_time_criticality :: "fib option"
  wsjf_risk_opportunity :: "fib option"
  wsjf_job_size :: "fib option"
  wsjf_evidence_col :: "wsjf_evidence option"
  wsjf_locked_col :: "wsjf_locks option"
  wsjf_source_col :: "wsjf_source option"
  wsjf_classifications_col :: "classification option"
  wsjf_features_col :: "features option"
  tags :: "string list"

section \<open>Partial updates\<close>

text \<open>A key that is absent, explicitly null, or set to a value.\<close>

datatype 'a patch = Absent | Clear | Put 'a

fun patch_nullable :: "'a patch \<Rightarrow> 'a option \<Rightarrow> 'a option" where
  "patch_nullable Absent old = old"
| "patch_nullable Clear old = None"
| "patch_nullable (Put v) old = Some v"

record create_dto =
  d_title :: string
  d_description :: "string option"
  d_status :: status
  d_priority :: priority
  d_project_id :: id
  d_parent_task_id :: "id option"
  d_estimated_minutes :: "int option"
  d_assignee :: "string option"
  d_created_by :: string
  d_due_date :: "stamp option"
  d_tags :: "string list"
  d_acceptance_criteria :: "string option"
  d_created_by_user_id :: "id option"
  d_assignee_user_id :: "id option"
  d_wsjf :: "wsjf_write option"

text \<open>
  The object \<open>UpdateTaskSchema\<close> accepts.  A key whose schema has no \<open>nullable()\<close> is an
  option (absent or set), a nullable key a \<open>patch\<close>.
\<close>

record update_dto =
  u_title :: "string option"
  u_description :: "string patch"
  u_status :: "status option"
  u_priority :: "priority option"
  u_parent_task_id :: "id patch"
  u_estimated_minutes :: "int patch"
  u_assignee :: "string patch"
  u_due_date :: "stamp patch"
  u_tags :: "string list option"
  u_assignee_user_id :: "id patch"
  u_acceptance_criteria :: "string patch"
  u_evidence :: "verification_evidence patch"
  u_wsjf :: "wsjf_write patch"
  u_blocked_by :: "id list option"

definition empty_update :: update_dto where
  "empty_update = \<lparr>u_title = None, u_description = Absent, u_status = None, u_priority = None,
     u_parent_task_id = Absent, u_estimated_minutes = Absent, u_assignee = Absent,
     u_due_date = Absent, u_tags = None, u_assignee_user_id = Absent,
     u_acceptance_criteria = Absent, u_evidence = Absent, u_wsjf = Absent, u_blocked_by = None\<rparr>"

end
