(* ===== verification/Task_Store.thy ===== *)
theory Task_Store
  imports Task_Types "HOL-Library.List_Lexorder" "HOL-Library.Char_ord"
begin

text \<open>
  The tables behind \<open>src/repositories/task.repository.ts\<close> and
  \<open>src/repositories/dependency.repository.ts\<close>, and the repositories' operations as state
  passing over them.  The schema's constraints are part of the operations: AUTOINCREMENT
  ids, UNIQUE(task_id, tag), UNIQUE(task_id, blocks_task_id), CHECK(task_id <> blocks_task_id),
  the foreign keys and ON DELETE CASCADE.  A violated constraint is an error value.  The
  users table is not modelled, so the two user columns carry no foreign key here.
\<close>

record project_row =
  pr_id :: id
  pr_name :: string

record dep =
  dep_id :: id
  dep_task :: id
  dep_blocks :: id
  dep_created_at :: stamp

record history_row =
  h_task_id :: id
  h_project_id :: id
  h_trigger :: wsjf_trigger
  h_components :: "fib option per_component"
  h_score :: "rat option"
  h_prev_score :: "rat option"
  h_classifications :: "classification option"
  h_features :: "features option"
  h_evidence :: "wsjf_evidence option"
  h_source :: "wsjf_source option"
  h_locked :: "wsjf_locks option"
  h_actor_type :: "string option"
  h_actor_id :: "string option"
  h_charter_version :: "int option"
  h_rescore_run_id :: "id option"

record db =
  tasks :: "task list"
  next_task_id :: id
  projects :: "project_row list"
  deps :: "dep list"
  next_dep_id :: id
  history :: "history_row list"

datatype db_error = Unique_violation | Fk_violation | Check_violation | Row_missing id

section \<open>Rows\<close>

definition row :: "db \<Rightarrow> id \<Rightarrow> task option" where
  "row db i = find (\<lambda>t. task_id t = i) (tasks db)"

definition modify_row :: "id \<Rightarrow> (task \<Rightarrow> task) \<Rightarrow> db \<Rightarrow> db" where
  "modify_row i f db = db\<lparr>tasks := map (\<lambda>t. if task_id t = i then f t else t) (tasks db)\<rparr>"

text \<open>Reading a row orders its tags; everything else is returned as stored.\<close>

definition read_row :: "task \<Rightarrow> task" where
  "read_row t = t\<lparr>tags := sort (tags t)\<rparr>"

text \<open>
  The queries that return lists fetch the tags of a row as one text, joined with commas by
  \<open>GROUP_CONCAT\<close>, and split it again.
\<close>

definition csv_tags :: "string list \<Rightarrow> string list" where
  "csv_tags ts = (if ts = [] then [] else sort (split_on CHR '','' (join_with CHR '','' ts)))"

definition list_row :: "task \<Rightarrow> task" where
  "list_row t = t\<lparr>tags := csv_tags (tags t)\<rparr>"

definition find_by_id :: "db \<Rightarrow> id \<Rightarrow> task option" where
  "find_by_id db i = map_option read_row (row db i)"

definition find_project :: "db \<Rightarrow> id \<Rightarrow> project_row option" where
  "find_project db i = find (\<lambda>p. pr_id p = i) (projects db)"

section \<open>Pagination\<close>

definition DEFAULT_PAGE_LIMIT :: int where "DEFAULT_PAGE_LIMIT = 50"
definition DEFAULT_PAGE_OFFSET :: int where "DEFAULT_PAGE_OFFSET = 0"
definition MAX_PAGE_LIMIT :: int where "MAX_PAGE_LIMIT = 500"

definition resolve_pagination :: "int option \<Rightarrow> int option \<Rightarrow> int \<times> int" where
  "resolve_pagination rawLimit rawOffset =
     (let l = (case rawLimit of None \<Rightarrow> DEFAULT_PAGE_LIMIT | Some l \<Rightarrow> l);
          off = (case rawOffset of None \<Rightarrow> DEFAULT_PAGE_OFFSET | Some off \<Rightarrow> off)
      in (if l > 0 then min l MAX_PAGE_LIMIT else DEFAULT_PAGE_LIMIT,
          if off \<ge> 0 then off else DEFAULT_PAGE_OFFSET))"

definition page :: "int \<times> int \<Rightarrow> 'a list \<Rightarrow> 'a list" where
  "page p xs = take (nat (fst p)) (drop (nat (snd p)) xs)"

section \<open>Writing the wsjf columns\<close>

definition set_wsjf :: "wsjf_write option \<Rightarrow> task \<Rightarrow> task" where
  "set_wsjf w t =
     t\<lparr>wsjf_value := map_option (\<lambda>w. c_value (w_components w)) w,
       wsjf_time_criticality := map_option (\<lambda>w. c_time (w_components w)) w,
       wsjf_risk_opportunity := map_option (\<lambda>w. c_risk (w_components w)) w,
       wsjf_job_size := map_option (\<lambda>w. c_job (w_components w)) w,
       wsjf_evidence_col := Option.bind w w_evidence,
       wsjf_locked_col := Option.bind w w_locked,
       wsjf_source_col := Option.bind w w_source,
       wsjf_classifications_col := Option.bind w w_classifications,
       wsjf_features_col := Option.bind w w_features\<rparr>"

section \<open>create\<close>

text \<open>\<open>x || null\<close> for an optional string and an optional id.\<close>

definition or_null_text :: "string option \<Rightarrow> string option" where
  "or_null_text s = (case s of Some x \<Rightarrow> if x = [] then None else Some x | None \<Rightarrow> None)"

definition or_null_id :: "id option \<Rightarrow> id option" where
  "or_null_id i = (case i of Some x \<Rightarrow> if x = 0 then None else Some x | None \<Rightarrow> None)"

definition new_row :: "stamp \<Rightarrow> id \<Rightarrow> create_dto \<Rightarrow> task" where
  "new_row now i d = set_wsjf (d_wsjf d)
     \<lparr>task_id = i, title = d_title d, description = or_null_text (d_description d),
      status = d_status d, priority = d_priority d, project_id = d_project_id d,
      parent_task_id = or_null_id (d_parent_task_id d),
      estimated_minutes = d_estimated_minutes d, assignee = or_null_text (d_assignee d),
      created_by = d_created_by d, due_date = d_due_date d, created_at = now, updated_at = now,
      version = 1, claimed_at = None, completed_at = None,
      acceptance_criteria = d_acceptance_criteria d, evidence = None,
      created_by_user_id = d_created_by_user_id d, assignee_user_id = d_assignee_user_id d,
      wsjf_value = None, wsjf_time_criticality = None, wsjf_risk_opportunity = None,
      wsjf_job_size = None, wsjf_evidence_col = None, wsjf_locked_col = None,
      wsjf_source_col = None, wsjf_classifications_col = None, wsjf_features_col = None,
      tags = d_tags d\<rparr>"

definition repo_create :: "stamp \<Rightarrow> create_dto \<Rightarrow> db \<Rightarrow> db_error + task \<times> db" where
  "repo_create now d db =
     (if find_project db (d_project_id d) = None then Inl Fk_violation
      else if (case or_null_id (d_parent_task_id d) of None \<Rightarrow> False | Some p \<Rightarrow> row db p = None)
      then Inl Fk_violation
      else if \<not> distinct (d_tags d) then Inl Unique_violation
      else let t = new_row now (next_task_id db) d
           in Inr (read_row t, db\<lparr>tasks := tasks db @ [t], next_task_id := next_task_id db + 1\<rparr>))"

section \<open>update\<close>

definition completed_after :: "stamp \<Rightarrow> status option \<Rightarrow> task \<Rightarrow> stamp option" where
  "completed_after now st t =
     (case st of None \<Rightarrow> completed_at t
      | Some s \<Rightarrow>
          if s = Done \<and> status t \<noteq> Done then Some (sql_now now)
          else if status t = Done \<and> s \<noteq> Done then None
          else completed_at t)"

definition update_wsjf :: "wsjf_write patch \<Rightarrow> task \<Rightarrow> task" where
  "update_wsjf p t = (case p of Absent \<Rightarrow> t | Clear \<Rightarrow> set_wsjf None t | Put w \<Rightarrow> set_wsjf (Some w) t)"

definition or_else :: "'a option \<Rightarrow> 'a \<Rightarrow> 'a" where
  "or_else v old = (case v of None \<Rightarrow> old | Some x \<Rightarrow> x)"

definition update_row :: "stamp \<Rightarrow> update_dto \<Rightarrow> task \<Rightarrow> task" where
  "update_row now u t = update_wsjf (u_wsjf u)
     (t\<lparr>title := or_else (u_title u) (title t),
        description := patch_nullable (u_description u) (description t),
        status := or_else (u_status u) (status t),
        completed_at := completed_after now (u_status u) t,
        priority := or_else (u_priority u) (priority t),
        assignee := patch_nullable (u_assignee u) (assignee t),
        assignee_user_id := patch_nullable (u_assignee_user_id u) (assignee_user_id t),
        due_date := patch_nullable (u_due_date u) (due_date t),
        parent_task_id := patch_nullable (u_parent_task_id u) (parent_task_id t),
        estimated_minutes := patch_nullable (u_estimated_minutes u) (estimated_minutes t),
        acceptance_criteria := patch_nullable (u_acceptance_criteria u) (acceptance_criteria t),
        evidence := patch_nullable (u_evidence u) (evidence t),
        updated_at := sql_now now,
        tags := or_else (u_tags u) (tags t)\<rparr>)"

definition repo_update :: "stamp \<Rightarrow> id \<Rightarrow> update_dto \<Rightarrow> db \<Rightarrow> db_error + task \<times> db" where
  "repo_update now i u db =
     (case row db i of None \<Rightarrow> Inl (Row_missing i)
      | Some t \<Rightarrow>
          if (case u_parent_task_id u of Put p \<Rightarrow> row db p = None | _ \<Rightarrow> False) then Inl Fk_violation
          else if (case u_tags u of Some ts \<Rightarrow> \<not> distinct ts | None \<Rightarrow> False) then Inl Unique_violation
          else Inr (read_row (update_row now u t), modify_row i (update_row now u) db))"

definition auto_source :: wsjf_source where
  "auto_source = \<lparr>c_value = Auto, c_time = Auto, c_risk = Auto, c_job = Auto\<rparr>"

definition size_row :: "stamp \<Rightarrow> fib \<Rightarrow> wsjf_source \<Rightarrow> task \<Rightarrow> task" where
  "size_row now sz src t =
     t\<lparr>wsjf_job_size := Some sz, wsjf_source_col := Some src, updated_at := sql_now now\<rparr>"

definition write_auto_job_size ::
    "stamp \<Rightarrow> id \<Rightarrow> fib \<Rightarrow> wsjf_source \<Rightarrow> db \<Rightarrow> db_error + task \<times> db" where
  "write_auto_job_size now i sz src db =
     (case row db i of None \<Rightarrow> Inl (Row_missing i)
      | Some t \<Rightarrow> Inr (read_row (size_row now sz src t), modify_row i (size_row now sz src) db))"

definition find_ids_with_null_job_size :: "db \<Rightarrow> (id \<times> int option) list" where
  "find_ids_with_null_job_size db =
     map (\<lambda>t. (task_id t, estimated_minutes t))
       (sort_key task_id
         (filter (\<lambda>t. wsjf_job_size t = None \<and> status t \<notin> {Done, Closed}) (tasks db)))"

definition find_resolver_facts :: "db \<Rightarrow> id \<Rightarrow> (id \<times> fib option) option" where
  "find_resolver_facts db i = map_option (\<lambda>t. (project_id t, wsjf_job_size t)) (row db i)"

section \<open>delete\<close>

text \<open>
  ON DELETE CASCADE on \<open>parent_task_id\<close>, on both ends of a dependency and on the history's
  task: the ids removed with a task are those reached from
  it over children; one round per row of the table is enough to reach them all.
\<close>

fun cascade_ids :: "nat \<Rightarrow> task list \<Rightarrow> id list \<Rightarrow> id list" where
  "cascade_ids 0 ts ids = ids"
| "cascade_ids (Suc n) ts ids =
     cascade_ids n ts (ids @ map task_id (filter (\<lambda>t. task_id t \<notin> set ids \<and>
       (case parent_task_id t of None \<Rightarrow> False | Some p \<Rightarrow> p \<in> set ids)) ts))"

definition repo_delete :: "id \<Rightarrow> db \<Rightarrow> db" where
  "repo_delete i db =
     (if row db i = None then db
      else let gone = cascade_ids (length (tasks db)) (tasks db) [i]
           in db\<lparr>tasks := filter (\<lambda>t. task_id t \<notin> set gone) (tasks db),
                 deps := filter (\<lambda>d. dep_task d \<notin> set gone \<and> dep_blocks d \<notin> set gone) (deps db),
                 history := filter (\<lambda>h. h_task_id h \<notin> set gone) (history db)\<rparr>)"

section \<open>Queries\<close>

record filters =
  f_project_id :: "id option"
  f_status :: "status option"
  f_assignee :: "string option"
  f_tags :: "string list option"
  f_due_before :: "stamp option"
  f_due_after :: "stamp option"
  f_updated_before :: "stamp option"
  f_updated_after :: "stamp option"
  f_search :: "string option"
  f_verified :: "bool option"
  f_limit :: "int option"
  f_offset :: "int option"
  f_include_tags :: "bool option"

definition no_filters :: filters where
  "no_filters = \<lparr>f_project_id = None, f_status = None, f_assignee = None, f_tags = None,
     f_due_before = None, f_due_after = None, f_updated_before = None, f_updated_after = None,
     f_search = None, f_verified = None, f_limit = None, f_offset = None, f_include_tags = None\<rparr>"

text \<open>A comparison with NULL is not true; \<open>datetime(\<dots>)\<close> compares whole seconds.\<close>

definition opt_all :: "'a option \<Rightarrow> ('a \<Rightarrow> bool) \<Rightarrow> bool" where
  "opt_all v P = (case v of None \<Rightarrow> True | Some x \<Rightarrow> P x)"

definition opt_any :: "'a option \<Rightarrow> ('a \<Rightarrow> bool) \<Rightarrow> bool" where
  "opt_any v P = (case v of None \<Rightarrow> False | Some x \<Rightarrow> P x)"

definition where_clause :: "(task \<Rightarrow> bool) \<Rightarrow> filters \<Rightarrow> task \<Rightarrow> bool" where
  "where_clause fts f t \<longleftrightarrow>
     opt_all (f_project_id f) (\<lambda>p. project_id t = p) \<and>
     opt_all (f_status f) (\<lambda>s. status t = s) \<and>
     opt_all (f_assignee f) (\<lambda>a. assignee t = Some a) \<and>
     opt_all (f_due_before f) (\<lambda>d. opt_any (due_date t) (\<lambda>x. x \<le> d)) \<and>
     opt_all (f_due_after f) (\<lambda>d. opt_any (due_date t) (\<lambda>x. d \<le> x)) \<and>
     opt_all (f_updated_before f) (\<lambda>d. updated_at t div 1000 \<le> d div 1000) \<and>
     opt_all (f_updated_after f) (\<lambda>d. d div 1000 \<le> updated_at t div 1000) \<and>
     opt_all (f_tags f) (\<lambda>ts. ts = [] \<or> list_ex (\<lambda>x. x \<in> set (tags t)) ts) \<and>
     (f_search f = None \<or> fts t) \<and>
     opt_all (f_verified f) (\<lambda>v.
       if v then opt_any (evidence t) (\<lambda>e. verdict e \<in> {PASS, PARTIAL})
       else opt_all (evidence t) (\<lambda>e. verdict e \<in> {NOT_VERIFIED, FAIL}))"

text \<open>
  \<open>fts\<close> is SQLite's full-text match: \<open>None\<close> for an expression that does not parse, else the
  predicate it denotes.  Malformed syntax is the only error a query can raise.
\<close>

type_synonym fts_engine = "string \<Rightarrow> (task \<Rightarrow> bool) option"

definition fts_for :: "fts_engine \<Rightarrow> filters \<Rightarrow> (task \<Rightarrow> bool) option" where
  "fts_for fts f = (case f_search f of None \<Rightarrow> Some (\<lambda>_. True) | Some q \<Rightarrow> fts q)"

datatype query_error = Fts_syntax_error

definition matching :: "(task \<Rightarrow> bool) \<Rightarrow> filters \<Rightarrow> db \<Rightarrow> task list" where
  "matching fts f db = sort_key (\<lambda>t. - created_at t) (filter (where_clause fts f) (tasks db))"

definition find_by_filters :: "fts_engine \<Rightarrow> filters \<Rightarrow> db \<Rightarrow> query_error + task list" where
  "find_by_filters fts f db =
     (case fts_for fts f of None \<Rightarrow> Inl Fts_syntax_error
      | Some m \<Rightarrow>
          let rows = page (resolve_pagination (f_limit f) (f_offset f)) (matching m f db)
          in Inr (if f_include_tags f \<noteq> Some False then map list_row rows
                  else map (\<lambda>t. t\<lparr>tags := []\<rparr>) rows))"

definition count_tasks :: "fts_engine \<Rightarrow> filters \<Rightarrow> db \<Rightarrow> query_error + int" where
  "count_tasks fts f db =
     (case fts_for fts f of None \<Rightarrow> Inl Fts_syntax_error
      | Some m \<Rightarrow> Inr (int (length (filter (where_clause m f) (tasks db)))))"

definition find_children :: "id \<Rightarrow> int option \<Rightarrow> int option \<Rightarrow> db \<Rightarrow> task list" where
  "find_children parent lmt off db =
     map list_row (page (resolve_pagination lmt off)
       (sort_key created_at (filter (\<lambda>t. parent_task_id t = Some parent) (tasks db))))"

definition count_children :: "id \<Rightarrow> db \<Rightarrow> int" where
  "count_children parent db = int (length (filter (\<lambda>t. parent_task_id t = Some parent) (tasks db)))"

definition find_completed_in_range ::
    "stamp \<Rightarrow> stamp \<Rightarrow> id option \<Rightarrow> string option \<Rightarrow> db \<Rightarrow> task list" where
  "find_completed_in_range start stop proj asg db =
     map list_row (sort_key (\<lambda>t. or_else (completed_at t) 0) (filter (\<lambda>t. status t = Done \<and>
       opt_any (completed_at t) (\<lambda>c. start div 1000 \<le> c div 1000 \<and> c div 1000 \<le> stop div 1000) \<and>
       opt_all proj (\<lambda>p. project_id t = p) \<and> opt_all asg (\<lambda>a. assignee t = Some a)) (tasks db)))"

section \<open>Claims\<close>

definition claim_row :: "stamp \<Rightarrow> string \<Rightarrow> id option \<Rightarrow> task \<Rightarrow> task" where
  "claim_row now who uid t =
     t\<lparr>assignee := Some who, assignee_user_id := uid, status := In_progress,
       version := version t + 1, claimed_at := Some (sql_now now), updated_at := sql_now now\<rparr>"

definition repo_claim :: "stamp \<Rightarrow> id \<Rightarrow> string \<Rightarrow> id option \<Rightarrow> db \<Rightarrow> task option \<times> db" where
  "repo_claim now i who uid db =
     (case row db i of None \<Rightarrow> (None, db)
      | Some t \<Rightarrow>
          if assignee t = None \<and> status t = Open
          then (Some (read_row (claim_row now who uid t)), modify_row i (claim_row now who uid) db)
          else (None, db))"

definition renew_row :: "stamp \<Rightarrow> task \<Rightarrow> task" where
  "renew_row now t =
     t\<lparr>claimed_at := Some (sql_now now), updated_at := sql_now now, version := version t + 1\<rparr>"

definition repo_renew_claim :: "stamp \<Rightarrow> id \<Rightarrow> string \<Rightarrow> db \<Rightarrow> task option \<times> db" where
  "repo_renew_claim now i who db =
     (case row db i of None \<Rightarrow> (None, db)
      | Some t \<Rightarrow>
          if assignee t = Some who \<and> status t = In_progress
          then (Some (read_row (renew_row now t)), modify_row i (renew_row now) db)
          else (None, db))"

section \<open>Dependency rows\<close>

definition edges :: "db \<Rightarrow> (id \<times> id) list" where
  "edges db = map (\<lambda>d. (dep_task d, dep_blocks d)) (deps db)"

definition dep_create :: "stamp \<Rightarrow> id \<Rightarrow> id \<Rightarrow> db \<Rightarrow> db_error + dep \<times> db" where
  "dep_create now u v db =
     (if u = v then Inl Check_violation
      else if row db u = None \<or> row db v = None then Inl Fk_violation
      else if (u, v) \<in> set (edges db) then Inl Unique_violation
      else let d = \<lparr>dep_id = next_dep_id db, dep_task = u, dep_blocks = v, dep_created_at = now\<rparr>
           in Inr (d, db\<lparr>deps := deps db @ [d], next_dep_id := next_dep_id db + 1\<rparr>))"

definition dep_find_by_task :: "id \<Rightarrow> db \<Rightarrow> dep list" where
  "dep_find_by_task i db = filter (\<lambda>d. dep_task d = i) (deps db)"

definition dep_find_blocking :: "id \<Rightarrow> db \<Rightarrow> dep list" where
  "dep_find_blocking i db = filter (\<lambda>d. dep_blocks d = i) (deps db)"

definition dep_delete :: "id \<Rightarrow> id \<Rightarrow> db \<Rightarrow> bool \<times> db" where
  "dep_delete u v db =
     (let rest = filter (\<lambda>d. \<not> (dep_task d = u \<and> dep_blocks d = v)) (deps db)
      in (length rest < length (deps db), db\<lparr>deps := rest\<rparr>))"

end
