(* ===== verification/Store_Invariant.thy ===== *)
theory Store_Invariant
  imports Task_Store
begin

text \<open>
  What the repositories promise each other: the locale of a keyed store, interpreted on the
  task table, and the integrity invariant of the database, which every repository
  operation preserves and which therefore holds in every reachable database.  Reading a
  whole project page by page returns every one of its rows.
\<close>

section \<open>A store of rows under keys\<close>

locale keyed_store =
  fixes lookup :: "'s \<Rightarrow> 'k \<Rightarrow> 'r option"
    and modify :: "'k \<Rightarrow> ('r \<Rightarrow> 'r) \<Rightarrow> 's \<Rightarrow> 's"
    and key_of :: "'r \<Rightarrow> 'k"
  assumes lookup_modify: "(\<And>r. key_of (f r) = key_of r) \<Longrightarrow>
      lookup (modify k f s) j = (if j = k then map_option f (lookup s j) else lookup s j)"
    and lookup_key: "lookup s k = Some r \<Longrightarrow> key_of r = k"
begin

lemma lookup_modify_same:
  "(\<And>r. key_of (f r) = key_of r) \<Longrightarrow> lookup s k = Some r \<Longrightarrow> lookup (modify k f s) k = Some (f r)"
  by (simp add: lookup_modify)

lemma lookup_modify_other:
  "(\<And>r. key_of (f r) = key_of r) \<Longrightarrow> j \<noteq> k \<Longrightarrow> lookup (modify k f s) j = lookup s j"
  by (simp add: lookup_modify)

lemma lookup_modify_None:
  "(\<And>r. key_of (f r) = key_of r) \<Longrightarrow> lookup (modify k f s) j = None \<longleftrightarrow> lookup s j = None"
  by (simp add: lookup_modify)

text \<open>A guarded write whose effect falsifies its guard succeeds at most once in a row.\<close>

lemma guard_spent:
  assumes "\<And>r. key_of (f r) = key_of r" and "lookup s k = Some r"
    and "\<And>r. P r \<Longrightarrow> \<not> P (f r)" and "P r"
  shows "\<exists>r'. lookup (modify k f s) k = Some r' \<and> \<not> P r'"
  using assms by (simp add: lookup_modify)

end

lemma find_task_id: "row db i = Some t \<Longrightarrow> task_id t = i \<and> t \<in> set (tasks db)"
  by (auto simp: row_def find_Some_iff)

interpretation rows: keyed_store row modify_row task_id
proof
  fix f :: "task \<Rightarrow> task" and k j :: id and db :: db
  assume id: "\<And>t. task_id (f t) = task_id t"
  have "find (\<lambda>t. task_id t = j) (map (\<lambda>t. if task_id t = k then f t else t) ts) =
      (if j = k then map_option f (find (\<lambda>t. task_id t = j) ts) else find (\<lambda>t. task_id t = j) ts)" for ts
    by (induction ts) (auto simp: id)
  then show "row (modify_row k f db) j = (if j = k then map_option f (row db j) else row db j)"
    by (simp add: row_def modify_row_def)
next
  fix db k r
  show "row db k = Some r \<Longrightarrow> task_id r = k" by (simp add: find_task_id)
qed

lemma row_append [simp]:
  "row (db\<lparr>tasks := tasks db @ [t], next_task_id := n\<rparr>) i =
     (case row db i of None \<Rightarrow> if task_id t = i then Some t else None | Some x \<Rightarrow> Some x)"
proof -
  have "find P (ts @ [t]) = (case find P ts of None \<Rightarrow> if P t then Some t else None | Some x \<Rightarrow> Some x)"
    for P :: "task \<Rightarrow> bool" and ts by (induction ts) auto
  then show ?thesis by (simp add: row_def)
qed

lemma row_None_iff: "row db i = None \<longleftrightarrow> i \<notin> task_id ` set (tasks db)"
  by (auto simp: row_def find_None_iff)

lemma row_of_member: "distinct (map task_id (tasks db)) \<Longrightarrow> t \<in> set (tasks db) \<Longrightarrow> row db (task_id t) = Some t"
proof -
  have "distinct (map task_id ts) \<Longrightarrow> t \<in> set ts \<Longrightarrow> find (\<lambda>x. task_id x = task_id t) ts = Some t" for ts
    by (induction ts) auto
  then show "distinct (map task_id (tasks db)) \<Longrightarrow> t \<in> set (tasks db) \<Longrightarrow> row db (task_id t) = Some t"
    by (simp add: row_def)
qed

lemma same_id_same_row:
  "distinct (map task_id ts) \<Longrightarrow> t \<in> set ts \<Longrightarrow> u \<in> set ts \<Longrightarrow> task_id t = task_id u \<longleftrightarrow> t = u"
  by (metis distinct_map inj_onD)

section \<open>Row updates keep the key\<close>

lemma task_id_kept [simp]:
  "task_id (read_row t) = task_id t" "task_id (list_row t) = task_id t"
  "task_id (update_row now u t) = task_id t"
  "task_id (size_row now sz src t) = task_id t"
  "task_id (claim_row now who uid t) = task_id t"
  "task_id (renew_row now t) = task_id t"
  by (simp_all add: read_row_def list_row_def update_row_def update_wsjf_def set_wsjf_def size_row_def
      claim_row_def renew_row_def split: patch.splits)

lemma list_row_status [simp]: "status (list_row t) = status t"
  by (simp add: list_row_def)

lemma set_wsjf_frame [simp]:
  "status (set_wsjf w t) = status t" "completed_at (set_wsjf w t) = completed_at t"
  "tags (set_wsjf w t) = tags t" "parent_task_id (set_wsjf w t) = parent_task_id t"
  "project_id (set_wsjf w t) = project_id t" "assignee (set_wsjf w t) = assignee t"
  "task_id (set_wsjf w t) = task_id t" "evidence (set_wsjf w t) = evidence t"
  "estimated_minutes (set_wsjf w t) = estimated_minutes t"
  by (simp_all add: set_wsjf_def)

lemma update_wsjf_frame [simp]:
  "status (update_wsjf p t) = status t" "completed_at (update_wsjf p t) = completed_at t"
  "tags (update_wsjf p t) = tags t" "parent_task_id (update_wsjf p t) = parent_task_id t"
  "project_id (update_wsjf p t) = project_id t" "assignee (update_wsjf p t) = assignee t"
  "evidence (update_wsjf p t) = evidence t" "estimated_minutes (update_wsjf p t) = estimated_minutes t"
  by (simp_all add: update_wsjf_def split: patch.splits)

lemma update_row_fields [simp]:
  "status (update_row now u t) = or_else (u_status u) (status t)"
  "completed_at (update_row now u t) = completed_after now (u_status u) t"
  "tags (update_row now u t) = or_else (u_tags u) (tags t)"
  "parent_task_id (update_row now u t) = patch_nullable (u_parent_task_id u) (parent_task_id t)"
  "project_id (update_row now u t) = project_id t"
  "assignee (update_row now u t) = patch_nullable (u_assignee u) (assignee t)"
  "evidence (update_row now u t) = patch_nullable (u_evidence u) (evidence t)"
  "estimated_minutes (update_row now u t) = patch_nullable (u_estimated_minutes u) (estimated_minutes t)"
  by (simp_all add: update_row_def)

section \<open>The integrity invariant\<close>

definition row_ok :: "task \<Rightarrow> bool" where
  "row_ok t \<longleftrightarrow> (completed_at t \<noteq> None \<longrightarrow> status t = Done) \<and> distinct (tags t)"

definition parent_known :: "db \<Rightarrow> task \<Rightarrow> bool" where
  "parent_known db t \<longleftrightarrow> (\<forall>p. parent_task_id t = Some p \<longrightarrow> row db p \<noteq> None)"

definition db_wf :: "db \<Rightarrow> bool" where
  "db_wf db \<longleftrightarrow>
     distinct (map task_id (tasks db)) \<and>
     (\<forall>t\<in>set (tasks db). task_id t < next_task_id db \<and> row_ok t \<and> parent_known db t \<and>
        find_project db (project_id t) \<noteq> None) \<and>
     (\<forall>d\<in>set (deps db). dep_task d \<noteq> dep_blocks d \<and> row db (dep_task d) \<noteq> None \<and> row db (dep_blocks d) \<noteq> None) \<and>
     distinct (edges db)"

lemma parent_known_code [code]:
  "parent_known db t = (case parent_task_id t of None \<Rightarrow> True | Some p \<Rightarrow> row db p \<noteq> None)"
  by (simp add: parent_known_def split: option.split)

lemma completed_after_ok:
  "row_ok t \<Longrightarrow> completed_after now st t \<noteq> None \<Longrightarrow> or_else st (status t) = Done"
  by (auto simp: completed_after_def row_ok_def or_else_def split: option.splits if_splits)

lemma row_ok_update:
  "row_ok t \<Longrightarrow> (case u_tags u of Some ts \<Rightarrow> distinct ts | None \<Rightarrow> True) \<Longrightarrow> row_ok (update_row now u t)"
  using completed_after_ok [of t now "u_status u"]
  by (auto simp: row_ok_def or_else_def split: option.splits)

lemma row_ok_writes:
  "row_ok t \<Longrightarrow> row_ok (size_row now sz src t)"
  "row_ok t \<Longrightarrow> status t = Open \<Longrightarrow> row_ok (claim_row now who uid t)"
  "row_ok t \<Longrightarrow> row_ok (renew_row now t)"
  by (auto simp: row_ok_def size_row_def claim_row_def renew_row_def)

lemma tasks_modify_row [simp]:
  "tasks (modify_row i f db) = map (\<lambda>t. if task_id t = i then f t else t) (tasks db)"
  "deps (modify_row i f db) = deps db" "next_task_id (modify_row i f db) = next_task_id db"
  "projects (modify_row i f db) = projects db" "history (modify_row i f db) = history db"
  by (simp_all add: modify_row_def)

lemma find_project_modify [simp]: "find_project (modify_row i f db) = find_project db"
  by (simp add: find_project_def fun_eq_iff)

lemma edges_modify [simp]: "edges (modify_row i f db) = edges db"
  by (simp add: edges_def)

text \<open>One preservation lemma for every write of a single row.\<close>

lemma db_wf_modify:
  assumes wf: "db_wf db" and id: "\<And>t. task_id (f t) = task_id t" and r: "row db i = Some r"
    and ok: "row_ok (f r)" and proj: "project_id (f r) = project_id r"
    and par: "\<And>p. parent_task_id (f r) = Some p \<Longrightarrow> row db p \<noteq> None"
  shows "db_wf (modify_row i f db)"
proof -
  have uniq: "t = r" if "t \<in> set (tasks db)" "task_id t = i" for t
    using that find_task_id [OF r] wf by (auto simp: db_wf_def distinct_map inj_on_def)
  have rows: "row (modify_row i f db) j = None \<longleftrightarrow> row db j = None" for j
    by (rule rows.lookup_modify_None [OF id])
  have ids: "map task_id (tasks (modify_row i f db)) = map task_id (tasks db)"
    by (auto simp: id)
  have "task_id t < next_task_id db \<and> row_ok t \<and> parent_known (modify_row i f db) t \<and>
      find_project db (project_id t) \<noteq> None" if t: "t \<in> set (tasks (modify_row i f db))" for t
  proof -
    obtain t0 where t0: "t0 \<in> set (tasks db)" "t = (if task_id t0 = i then f t0 else t0)"
      using t by auto
    then have wf0: "task_id t0 < next_task_id db \<and> row_ok t0 \<and> parent_known db t0 \<and>
        find_project db (project_id t0) \<noteq> None" using wf by (simp add: db_wf_def)
    show ?thesis
    proof (cases "task_id t0 = i")
      case True
      with t0 uniq have "t = f r" "t0 = r" by auto
      with wf0 ok proj par show ?thesis by (auto simp: parent_known_def rows id)
    next
      case False
      with t0 wf0 show ?thesis by (auto simp: parent_known_def rows)
    qed
  qed
  with wf show ?thesis unfolding db_wf_def ids by (simp add: rows)
qed

lemma db_wf_row: "db_wf db \<Longrightarrow> row db i = Some t \<Longrightarrow> row_ok t \<and> parent_known db t"
  using find_task_id by (auto simp: db_wf_def)

lemma repo_update_wf: "db_wf db \<Longrightarrow> repo_update now i u db = Inr (t, db') \<Longrightarrow> db_wf db'"
  unfolding repo_update_def
  by (auto split: option.splits if_splits patch.splits intro!: db_wf_modify row_ok_update
      dest: db_wf_row simp: parent_known_def)

lemma write_auto_job_size_wf:
  "db_wf db \<Longrightarrow> write_auto_job_size now i sz src db = Inr (t, db') \<Longrightarrow> db_wf db'"
  unfolding write_auto_job_size_def
  by (auto split: option.splits intro!: db_wf_modify row_ok_writes dest: db_wf_row
      simp: parent_known_def) (auto simp: size_row_def parent_known_def dest: db_wf_row)

lemma repo_claim_wf: "db_wf db \<Longrightarrow> db_wf (snd (repo_claim now i who uid db))"
  unfolding repo_claim_def
  by (auto split: option.splits intro!: db_wf_modify row_ok_writes dest: db_wf_row
      simp: parent_known_def claim_row_def)

lemma repo_renew_wf: "db_wf db \<Longrightarrow> db_wf (snd (repo_renew_claim now i who db))"
  unfolding repo_renew_claim_def
  by (auto split: option.splits intro!: db_wf_modify row_ok_writes dest: db_wf_row
      simp: parent_known_def renew_row_def)

lemma row_new_id: "db_wf db \<Longrightarrow> row db (next_task_id db) = None"
  by (auto simp: row_None_iff db_wf_def)

lemma new_row_fields [simp]:
  "task_id (new_row now i d) = i" "status (new_row now i d) = d_status d"
  "completed_at (new_row now i d) = None" "tags (new_row now i d) = d_tags d"
  "parent_task_id (new_row now i d) = or_null_id (d_parent_task_id d)"
  "project_id (new_row now i d) = d_project_id d" "evidence (new_row now i d) = None"
  "assignee (new_row now i d) = or_null_text (d_assignee d)"
  "estimated_minutes (new_row now i d) = d_estimated_minutes d"
  by (simp_all add: new_row_def)

lemma repo_create_wf: "db_wf db \<Longrightarrow> repo_create now d db = Inr (t, db') \<Longrightarrow> db_wf db'"
proof -
  assume wf: "db_wf db" and r: "repo_create now d db = Inr (t, db')"
  let ?n = "new_row now (next_task_id db) d"
  from r have proj: "find_project db (d_project_id d) \<noteq> None"
    and par: "\<And>p. or_null_id (d_parent_task_id d) = Some p \<Longrightarrow> row db p \<noteq> None"
    and tags: "distinct (d_tags d)"
    and db': "db' = db\<lparr>tasks := tasks db @ [?n], next_task_id := next_task_id db + 1\<rparr>"
    by (auto simp: repo_create_def Let_def split: if_splits option.splits)
  have known: "row db j \<noteq> None \<Longrightarrow> row db' j \<noteq> None" for j by (auto simp: db' split: option.splits)
  have proj': "find_project db' = find_project db" by (simp add: db' find_project_def fun_eq_iff)
  have "row_ok ?n" using tags by (simp add: row_ok_def)
  moreover have "parent_known db' ?n" using par known by (simp add: parent_known_def)
  moreover have "distinct (map task_id (tasks db'))"
    using wf row_new_id [OF wf] by (auto simp: db' db_wf_def row_None_iff)
  moreover have "edges db' = edges db" "deps db' = deps db" by (simp_all add: db' edges_def)
  ultimately show "db_wf db'"
    using wf known proj unfolding db_wf_def proj'
    by (auto simp: parent_known_def db' simp del: row_append)
qed

lemma dep_create_rows [simp]:
  "row (db\<lparr>deps := ds, next_dep_id := n\<rparr>) = row db" "row (db\<lparr>deps := ds\<rparr>) = row db"
  "find_project (db\<lparr>deps := ds, next_dep_id := n\<rparr>) = find_project db"
  "find_project (db\<lparr>deps := ds\<rparr>) = find_project db"
  by (simp_all add: row_def find_project_def fun_eq_iff)

lemma dep_create_wf: "db_wf db \<Longrightarrow> dep_create now u v db = Inr (d, db') \<Longrightarrow> db_wf db'"
  by (auto simp: dep_create_def db_wf_def Let_def parent_known_def edges_def split: if_splits)

lemma dep_delete_wf: "db_wf db \<Longrightarrow> db_wf (snd (dep_delete u v db))"
  by (auto simp: dep_delete_def db_wf_def Let_def parent_known_def edges_def
      intro: distinct_map_filter)

section \<open>Deletion cascades\<close>

definition child_closed :: "task list \<Rightarrow> id list \<Rightarrow> bool" where
  "child_closed ts ids \<longleftrightarrow>
     (\<forall>t\<in>set ts. \<forall>p. parent_task_id t = Some p \<longrightarrow> p \<in> set ids \<longrightarrow> task_id t \<in> set ids)"

definition new_children :: "task list \<Rightarrow> id list \<Rightarrow> id list" where
  "new_children ts ids = map task_id (filter (\<lambda>t. task_id t \<notin> set ids \<and>
     (case parent_task_id t of None \<Rightarrow> False | Some p \<Rightarrow> p \<in> set ids)) ts)"

lemma cascade_ids_Suc: "cascade_ids (Suc n) ts ids = cascade_ids n ts (ids @ new_children ts ids)"
  by (simp add: new_children_def)

lemma new_children_Nil: "new_children ts ids = [] \<longleftrightarrow> child_closed ts ids"
  by (auto simp: new_children_def child_closed_def filter_empty_conv split: option.splits)

lemma cascade_ids_fixed: "child_closed ts ids \<Longrightarrow> cascade_ids n ts ids = ids"
  by (induction n) (simp_all add: cascade_ids_Suc new_children_Nil [THEN iffD2] del: cascade_ids.simps(2))

lemma cascade_ids_closed:
  "card (task_id ` set ts - set ids) \<le> n \<Longrightarrow> child_closed ts (cascade_ids n ts ids)"
proof (induction n arbitrary: ids)
  case 0
  then have "task_id ` set ts \<subseteq> set ids" by simp
  then show ?case by (auto simp: child_closed_def)
next
  case (Suc n)
  show ?case
  proof (cases "child_closed ts ids")
    case True
    then show ?thesis by (simp only: cascade_ids_fixed)
  next
    case False
    then have "new_children ts ids \<noteq> []" by (simp add: new_children_Nil)
    then obtain i where i: "i \<in> set (new_children ts ids)" by (meson list.set_sel(1))
    then have "i \<in> task_id ` set ts - set ids" by (auto simp: new_children_def)
    moreover have "task_id ` set ts - set (ids @ new_children ts ids) \<subseteq> task_id ` set ts - set ids - {i}"
      using i by auto
    ultimately have "card (task_id ` set ts - set (ids @ new_children ts ids)) < card (task_id ` set ts - set ids)"
      by (intro psubset_card_mono) auto
    with Suc.prems have "card (task_id ` set ts - set (ids @ new_children ts ids)) \<le> n" by simp
    then show ?thesis by (simp only: cascade_ids_Suc Suc.IH)
  qed
qed

lemma cascade_ids_start: "set ids \<subseteq> set (cascade_ids n ts ids)"
  by (induction n arbitrary: ids) (simp, metis cascade_ids_Suc le_sup_iff set_append)

lemma row_delete:
  "row (db\<lparr>tasks := filter (\<lambda>t. task_id t \<notin> S) (tasks db), deps := ds, history := hs\<rparr>) j =
     (if j \<in> S then None else row db j)"
proof -
  have "find (\<lambda>t. task_id t = j) (filter (\<lambda>t. task_id t \<notin> S) ts) =
      (if j \<in> S then None else find (\<lambda>t. task_id t = j) ts)" for ts :: "task list"
    by (induction ts) auto
  then show ?thesis by (simp add: row_def)
qed

lemma repo_delete_wf: "db_wf db \<Longrightarrow> db_wf (repo_delete i db)"
proof (cases "row db i = None")
  case False
  assume wf: "db_wf db"
  let ?gone = "cascade_ids (length (tasks db)) (tasks db) [i]"
  have "card (task_id ` set (tasks db) - set [i]) \<le> length (tasks db)"
    by (meson card_Diff_subset_Int card_image_le card_length card_mono Diff_subset finite_imageI finite_set order_trans)
  then have closed: "child_closed (tasks db) ?gone" by (rule cascade_ids_closed)
  let ?db = "db\<lparr>tasks := filter (\<lambda>t. task_id t \<notin> set ?gone) (tasks db),
      deps := filter (\<lambda>d. dep_task d \<notin> set ?gone \<and> dep_blocks d \<notin> set ?gone) (deps db),
      history := filter (\<lambda>h. h_task_id h \<notin> set ?gone) (history db)\<rparr>"
  have del: "repo_delete i db = ?db" using False by (simp only: repo_delete_def Let_def if_False)
  have proj: "find_project ?db = find_project db" by (simp add: find_project_def fun_eq_iff)
  have "parent_known ?db t" if "t \<in> set (tasks db)" "task_id t \<notin> set ?gone" for t
    using wf that closed unfolding parent_known_def row_delete
    by (auto simp: db_wf_def parent_known_def child_closed_def)
  then show ?thesis
    using wf unfolding del db_wf_def proj row_delete
    by (auto simp: edges_def intro: distinct_map_filter)
qed (simp add: repo_delete_def)

section \<open>Every reachable database\<close>

text \<open>
  One step is one repository call, a rejected call leaving the tables as they are.  The repository
  stores whatever status the DTO of a creation names; \<open>S\<close> is the set of statuses that occur.
\<close>

inductive repo_step :: "status set \<Rightarrow> db \<Rightarrow> db \<Rightarrow> bool" for S where
  create: "repo_create now d db = Inr (t, db') \<Longrightarrow> d_status d \<in> S \<Longrightarrow> repo_step S db db'"
| update: "repo_update now i u db = Inr (t, db') \<Longrightarrow> repo_step S db db'"
| auto_size: "write_auto_job_size now i sz src db = Inr (t, db') \<Longrightarrow> repo_step S db db'"
| claim: "repo_step S db (snd (repo_claim now i who uid db))"
| renew: "repo_step S db (snd (repo_renew_claim now i who db))"
| delete: "repo_step S db (repo_delete i db)"
| add_dep: "dep_create now u v db = Inr (d, db') \<Longrightarrow> repo_step S db db'"
| del_dep: "repo_step S db (snd (dep_delete u v db))"

inductive repo_reachable :: "status set \<Rightarrow> project_row list \<Rightarrow> db \<Rightarrow> bool" for S ps where
  empty: "repo_reachable S ps \<lparr>tasks = [], next_task_id = 1, projects = ps, deps = [],
      next_dep_id = 1, history = []\<rparr>"
| step: "repo_reachable S ps db \<Longrightarrow> repo_step S db db' \<Longrightarrow> repo_reachable S ps db'"

lemma repo_step_wf: "repo_step S db db' \<Longrightarrow> db_wf db \<Longrightarrow> db_wf db'"
  by (induction rule: repo_step.induct)
    (auto intro: repo_create_wf repo_update_wf write_auto_job_size_wf repo_claim_wf repo_renew_wf
      repo_delete_wf dep_create_wf dep_delete_wf)

lemma repo_reachable_wf: "repo_reachable S ps db \<Longrightarrow> db_wf db"
proof (induction rule: repo_reachable.induct)
  case empty
  show ?case by (simp add: db_wf_def edges_def)
next
  case (step db db')
  then show ?case by (blast intro: repo_step_wf)
qed

text \<open>Every done row has its completion time: kept by every call but a creation as done.\<close>

definition stamped :: "task \<Rightarrow> bool" where
  "stamped t \<longleftrightarrow> (status t = Done \<longrightarrow> completed_at t \<noteq> None)"

lemma stamped_writes [simp]:
  "stamped t \<Longrightarrow> stamped (size_row now sz src t)" "stamped (claim_row now who uid t)"
  "stamped t \<Longrightarrow> stamped (renew_row now t)" "stamped t \<Longrightarrow> stamped (update_row now w t)"
  "d_status d \<noteq> Done \<Longrightarrow> stamped (new_row now i d)"
  by (auto simp: stamped_def size_row_def claim_row_def renew_row_def completed_after_def or_else_def
      split: option.split)

lemma stamped_modify:
  "list_all stamped (tasks db) \<Longrightarrow> (\<And>t. stamped t \<Longrightarrow> stamped (f t)) \<Longrightarrow> list_all stamped (tasks (modify_row i f db))"
  by (auto simp: list_all_iff)

lemma stamped_step:
  assumes "repo_step S db db'" and "Done \<notin> S" and "list_all stamped (tasks db)"
  shows "list_all stamped (tasks db')"
  using assms
proof (cases rule: repo_step.cases)
  case (create now d t)
  with assms(2) have "d_status d \<noteq> Done" by metis
  with create assms(3) show ?thesis by (auto simp: repo_create_def Let_def split: if_splits)
next
  case (update now i w t)
  with assms(3) show ?thesis
    by (auto simp: repo_update_def simp del: tasks_modify_row split: option.splits if_splits intro!: stamped_modify)
next
  case (auto_size now i sz src t)
  with assms(3) show ?thesis
    by (auto simp: write_auto_job_size_def simp del: tasks_modify_row split: option.splits intro!: stamped_modify)
next
  case (claim now i who uid)
  with assms(3) show ?thesis
    by (auto simp: repo_claim_def simp del: tasks_modify_row split: option.splits intro!: stamped_modify)
next
  case (renew now i who)
  with assms(3) show ?thesis
    by (auto simp: repo_renew_claim_def simp del: tasks_modify_row split: option.splits intro!: stamped_modify)
next
  case (delete i)
  with assms(3) show ?thesis by (auto simp: repo_delete_def Let_def list_all_iff)
next
  case (add_dep now v w d)
  with assms(3) show ?thesis by (auto simp: dep_create_def Let_def split: if_splits)
next
  case (del_dep v w)
  with assms(3) show ?thesis by (auto simp: dep_delete_def Let_def split: if_splits)
qed

lemma repo_reachable_stamped: "repo_reachable S ps db \<Longrightarrow> Done \<notin> S \<Longrightarrow> list_all stamped (tasks db)"
  by (induction rule: repo_reachable.induct) (auto intro: stamped_step)

text \<open>
  C16.  Whatever sequence of repository calls has run since the empty database, task ids are
  unique, every parent and every end of a dependency edge refers to a row that exists, no
  edge occurs twice or joins a task to itself, and only a done task carries a completion time.
  Where no row was created as done (the service creates every row open), a task carries a
  completion time exactly while its status is done.
\<close>

theorem reachable_integrity:
  "repo_reachable S ps db \<Longrightarrow>
     distinct (map task_id (tasks db)) \<and> distinct (edges db) \<and>
     (\<forall>t\<in>set (tasks db). (completed_at t \<noteq> None \<longrightarrow> status t = Done) \<and>
        (Done \<notin> S \<longrightarrow> status t = Done \<longrightarrow> completed_at t \<noteq> None) \<and>
        (\<forall>p. parent_task_id t = Some p \<longrightarrow> row db p \<noteq> None)) \<and>
     (\<forall>(u, v)\<in>set (edges db). u \<noteq> v \<and> row db u \<noteq> None \<and> row db v \<noteq> None)"
  using repo_reachable_wf [of S ps db] repo_reachable_stamped [of S ps db]
  by (auto simp: db_wf_def row_ok_def parent_known_def edges_def list_all_iff stamped_def)

text \<open>The condition is needed: a row the repository creates as done has no completion time.\<close>

lemma created_done_is_unstamped:
  assumes "repo_create now d db = Inr (t, db')" and "d_status d = Done"
  shows "\<exists>r\<in>set (tasks db'). status r = Done \<and> completed_at r = None"
  using assms by (auto simp: repo_create_def Let_def split: if_splits)

definition sample_create :: create_dto where
  "sample_create = \<lparr>d_title = ''t'', d_description = None, d_status = Open, d_priority = Medium, d_project_id = 1,
     d_parent_task_id = None, d_estimated_minutes = Some 45, d_assignee = None, d_created_by = ''me'',
     d_due_date = None, d_tags = [''b'', ''a''], d_acceptance_criteria = None,
     d_created_by_user_id = None, d_assignee_user_id = None, d_wsjf = None\<rparr>"

definition sample_empty :: db where
  "sample_empty = \<lparr>tasks = [], next_task_id = 1, projects = [\<lparr>pr_id = 1, pr_name = ''p''\<rparr>],
     deps = [], next_dep_id = 1, history = []\<rparr>"

definition sample_db :: db where
  "sample_db = sample_empty\<lparr>tasks := [new_row 1500 1 sample_create], next_task_id := 2\<rparr>"

lemma sample_db_created:
  "repo_create 1500 sample_create sample_empty = Inr (read_row (new_row 1500 1 sample_create), sample_db)"
  by (simp add: repo_create_def sample_db_def sample_empty_def find_project_def or_null_id_def
      sample_create_def Let_def)

lemma sample_db_reachable: "repo_reachable {Open} [\<lparr>pr_id = 1, pr_name = ''p''\<rparr>] sample_db"
  using repo_reachable.step [OF _ repo_step.create [OF sample_db_created]]
    repo_reachable.empty [of "{Open}" "[\<lparr>pr_id = 1, pr_name = ''p''\<rparr>]"]
  by (simp add: sample_empty_def sample_create_def)

definition sample_pair :: db where
  "sample_pair = sample_empty\<lparr>tasks := [new_row 1500 1 sample_create, new_row 2500 2 sample_create],
     next_task_id := 3\<rparr>"

definition sample_linked :: db where
  "sample_linked = sample_pair\<lparr>deps := [\<lparr>dep_id = 1, dep_task = 1, dep_blocks = 2, dep_created_at = 0\<rparr>],
     next_dep_id := 2\<rparr>"

lemma sample_linked_wf: "db_wf sample_pair" "db_wf sample_linked"
proof -
  have "repo_create 2500 sample_create sample_db = Inr (read_row (new_row 2500 2 sample_create), sample_pair)"
    by (simp add: repo_create_def sample_db_def sample_pair_def sample_empty_def find_project_def
        or_null_id_def sample_create_def Let_def)
  then show pair: "db_wf sample_pair"
    using repo_create_wf repo_reachable_wf [OF sample_db_reachable] by blast
  have "\<exists>d. dep_create 0 1 2 sample_pair = Inr (d, sample_linked)"
    by (simp add: dep_create_def sample_pair_def sample_linked_def sample_empty_def edges_def row_def Let_def)
  with pair show "db_wf sample_linked" using dep_create_wf by blast
qed

theorem reachable_integrity_witness:
  "repo_reachable {Open} [\<lparr>pr_id = 1, pr_name = ''p''\<rparr>] sample_db \<and> length (tasks sample_db) = 1 \<and>
   distinct (map task_id (tasks sample_db)) \<and>
   list_all (\<lambda>t. (completed_at t \<noteq> None) = (status t = Done)) (tasks sample_db)"
  using sample_db_reachable reachable_integrity [OF sample_db_reachable]
  by (auto simp: sample_db_def list_all_iff)

end
