(* ===== verification/Task_Query.thy ===== *)
theory Task_Query
  imports Store_Invariant "HOL-Library.Multiset"
begin

text \<open>
  The paged reads of the task table.  The services that need a whole project loop over
  pages until they have as many rows as \<open>count\<close> announced; the result is that the loop
  returns exactly the matching rows, in the order of the query, for every page size the
  repository allows.
\<close>

section \<open>Pages\<close>

lemma resolve_pagination_bounds:
  "resolve_pagination l off = (l', off') \<Longrightarrow> 1 \<le> l' \<and> l' \<le> MAX_PAGE_LIMIT \<and> 0 \<le> off'"
  by (auto simp: resolve_pagination_def Let_def MAX_PAGE_LIMIT_def DEFAULT_PAGE_LIMIT_def
      DEFAULT_PAGE_OFFSET_def split: option.splits if_splits)

text \<open>
  Whatever limit and offset a caller passes, a page holds at most 500 rows, and it is a
  contiguous part of the rows that match.
\<close>

theorem page_bounded:
  "length (page (resolve_pagination l off) xs) \<le> 500 \<and>
   (\<exists>a b. xs = a @ page (resolve_pagination l off) xs @ b)"
proof -
  obtain l' off' where r: "resolve_pagination l off = (l', off')" by (cases "resolve_pagination l off")
  then have "l' \<le> 500" using resolve_pagination_bounds by (fastforce simp: MAX_PAGE_LIMIT_def)
  then have "length (page (resolve_pagination l off) xs) \<le> 500" by (simp add: r page_def)
  moreover have "xs = take (nat off') xs @ page (l', off') xs @ drop (nat l') (drop (nat off') xs)"
    unfolding page_def by (simp only: fst_conv snd_conv append_take_drop_id)
  ultimately show ?thesis using r by metis
qed

lemma matching_mset: "mset (matching m f db) = mset (filter (where_clause m f) (tasks db))"
  by (simp add: matching_def)

lemma length_matching: "length (matching m f db) = length (filter (where_clause m f) (tasks db))"
  by (simp add: matching_def)

lemma where_clause_paging:
  "where_clause m (f\<lparr>f_limit := l, f_offset := off\<rparr>) = where_clause m f"
  by (simp add: where_clause_def fun_eq_iff)

section \<open>Loading every page\<close>

text \<open>
  The loop of \<open>loadProjectTasks\<close>, of the topology classifier and of the graph builder:
  \<open>fetch\<close> reads the page at an offset, an empty page ends the loop.
\<close>

function load_pages :: "(nat \<Rightarrow> 'a list) \<Rightarrow> nat \<Rightarrow> 'a list \<Rightarrow> nat \<Rightarrow> 'a list" where
  "load_pages fetch expected out offset =
     (if length out < expected
      then (let pg = fetch offset in
            if pg = [] then out else load_pages fetch expected (out @ pg) (offset + length pg))
      else out)"
  by pat_completeness auto
termination
  by (relation "measure (\<lambda>(fetch, expected, out, offset). expected - length out)")
    (auto simp: Let_def simp flip: length_greater_0_conv)

declare load_pages.simps [simp del]

lemma load_pages_complete:
  assumes l: "0 < l" and fetch: "\<And>off. fetch off = take l (drop off xs)"
    and "out = take n xs" and "n \<le> length xs"
  shows "load_pages fetch (length xs) out n = xs"
  using assms(3,4)
proof (induction "length xs - n" arbitrary: n out rule: less_induct)
  case less
  show ?case
  proof (cases "n < length xs")
    case True
    let ?pg = "take l (drop n xs)"
    have pg: "?pg \<noteq> []" using True l by auto
    have more: "out @ ?pg = take (n + length ?pg) xs"
      using less.prems(1) by (simp add: take_add min_def)
    have "load_pages fetch (length xs) (out @ ?pg) (n + length ?pg) = xs"
      using True l by (intro less.hyps more) auto
    moreover have "length out < length xs" using less.prems True by simp
    ultimately show ?thesis
      by (subst load_pages.simps) (simp add: fetch pg Let_def del: take_eq_Nil drop_eq_Nil)
  next
    case False
    with less.prems show ?thesis by (subst load_pages.simps) simp
  qed
qed

definition project_filter :: "id \<Rightarrow> filters" where
  "project_filter p = no_filters\<lparr>f_project_id := Some p, f_limit := Some MAX_PAGE_LIMIT\<rparr>"

definition project_page :: "bool option \<Rightarrow> id \<Rightarrow> db \<Rightarrow> nat \<Rightarrow> task list" where
  "project_page inc p db off =
     (case find_by_filters (\<lambda>_. None)
         ((project_filter p)\<lparr>f_offset := Some (int off), f_include_tags := inc\<rparr>) db of
        Inl _ \<Rightarrow> [] | Inr ts \<Rightarrow> ts)"

definition load_project_tasks :: "id \<Rightarrow> db \<Rightarrow> task list" where
  "load_project_tasks p db =
     (case count_tasks (\<lambda>_. None) (no_filters\<lparr>f_project_id := Some p\<rparr>) db of
        Inl _ \<Rightarrow> []
      | Inr n \<Rightarrow> load_pages (project_page (Some False) p db) (nat n) [] 0)"

text \<open>All tasks of a project in the order of the query, newest first, tags not read.\<close>

definition project_tasks :: "id \<Rightarrow> db \<Rightarrow> task list" where
  "project_tasks p db =
     map (\<lambda>t. t\<lparr>tags := []\<rparr>) (sort_key (\<lambda>t. - created_at t) (filter (\<lambda>t. project_id t = p) (tasks db)))"

lemma where_project: "where_clause m (no_filters\<lparr>f_project_id := Some p\<rparr>) = (\<lambda>t. project_id t = p)"
  by (simp add: where_clause_def no_filters_def opt_all_def fun_eq_iff)

lemma matching_project:
  "matching m ((project_filter p)\<lparr>f_offset := off, f_include_tags := inc\<rparr>) db =
     sort_key (\<lambda>t. - created_at t) (filter (\<lambda>t. project_id t = p) (tasks db))"
proof -
  have "where_clause m ((project_filter p)\<lparr>f_offset := off, f_include_tags := inc\<rparr>) = (\<lambda>t. project_id t = p)"
    by (simp add: where_clause_def project_filter_def no_filters_def opt_all_def fun_eq_iff)
  then show ?thesis by (simp only: matching_def)
qed

lemma project_page_eq:
  "project_page (Some False) p db off = take 500 (drop off (project_tasks p db))"
proof -
  let ?f = "(project_filter p)\<lparr>f_offset := Some (int off), f_include_tags := Some False\<rparr>"
  have "fts_for (\<lambda>_. None) ?f = Some (\<lambda>_. True)" "f_limit ?f = Some 500" "f_offset ?f = Some (int off)"
    "f_include_tags ?f = Some False"
    by (simp_all add: fts_for_def project_filter_def no_filters_def MAX_PAGE_LIMIT_def)
  moreover have "resolve_pagination (Some 500) (Some (int off)) = (500, int off)"
    by (simp add: resolve_pagination_def MAX_PAGE_LIMIT_def)
  ultimately show ?thesis
    unfolding project_page_def find_by_filters_def matching_project
    by (simp add: project_tasks_def page_def take_map drop_map)
qed

lemma load_project_tasks_eq: "load_project_tasks p db = project_tasks p db"
proof -
  have "load_pages (project_page (Some False) p db) (length (project_tasks p db)) [] 0 = project_tasks p db"
    by (rule load_pages_complete [where l = 500]) (simp_all add: project_page_eq)
  then show ?thesis
    by (simp add: load_project_tasks_def count_tasks_def fts_for_def no_filters_def project_tasks_def
        where_project [unfolded no_filters_def, simplified])
qed

lemma set_project_tasks_ids: "task_id ` set (project_tasks p db) = task_id ` {t \<in> set (tasks db). project_id t = p}"
  unfolding project_tasks_def by (auto simp: image_image)

lemma distinct_project_tasks: "db_wf db \<Longrightarrow> distinct (map task_id (project_tasks p db))"
proof -
  assume wf: "db_wf db"
  have "map task_id (project_tasks p db) =
      map task_id (sort_key (\<lambda>t. - created_at t) (filter (\<lambda>t. project_id t = p) (tasks db)))"
    by (simp add: project_tasks_def)
  moreover have "distinct (map task_id (filter (\<lambda>t. project_id t = p) (tasks db)))"
    using wf by (auto simp: db_wf_def intro: distinct_map_filter)
  ultimately show ?thesis
    by (simp add: distinct_map distinct_sort)
qed

text \<open>
  Loading a project page by page returns every task of the project and nothing else,
  each exactly once, ordered by creation time, newest first.
\<close>

theorem load_project_tasks_complete:
  "mset (map task_id (load_project_tasks p db)) =
     mset (map task_id (filter (\<lambda>t. project_id t = p) (tasks db))) \<and>
   sorted_wrt (\<lambda>a b. created_at b \<le> created_at a) (load_project_tasks p db)"
proof -
  let ?s = "sort_key (\<lambda>t. - created_at t) (filter (\<lambda>t. project_id t = p) (tasks db))"
  have "sorted (map (\<lambda>t. - created_at t) ?s)" by simp
  then have "sorted_wrt (\<lambda>a b. created_at b \<le> created_at a) ?s"
    by (simp only: sorted_map) simp
  then have "sorted_wrt (\<lambda>a b. created_at b \<le> created_at a) (project_tasks p db)"
    by (simp add: project_tasks_def sorted_wrt_map)
  then show ?thesis
    by (simp add: load_project_tasks_eq project_tasks_def comp_def)
qed

section \<open>Tags in a listing\<close>

lemma sum_count_commas: "sum_list (map (\<lambda>s. length (split_on c s)) ts) = length ts + sum_list (map (\<lambda>s. count_list s c) ts)"
  by (induction ts) (simp_all add: length_split_on)

lemma csv_tags_free: "(\<forall>s\<in>set ts. CHR '','' \<notin> set s) \<Longrightarrow> csv_tags ts = sort ts"
proof -
  assume "\<forall>s\<in>set ts. CHR '','' \<notin> set s"
  then have "concat (map (split_on CHR '','') ts) = ts" by (induction ts) (auto simp: split_on_free)
  then show ?thesis by (simp add: csv_tags_def split_on_join)
qed

lemma length_csv_tags: "length (csv_tags ts) = length ts + sum_list (map (\<lambda>s. count_list s CHR '','') ts)"
  by (simp add: csv_tags_def split_on_join length_concat comp_def sum_count_commas)

text \<open>
  A listing shows the tags of a task as a read of that task alone does exactly when no
  tag contains a comma: the listing joins them with commas and splits the text again.
\<close>

theorem listing_keeps_tags_without_commas:
  "list_row t = read_row t \<longleftrightarrow> (\<forall>s\<in>set (tags t). CHR '','' \<notin> set s)"
proof
  assume "list_row t = read_row t"
  then have "tags (list_row t) = tags (read_row t)" by simp
  then have "csv_tags (tags t) = sort (tags t)" by (simp add: list_row_def read_row_def)
  then have "length (csv_tags (tags t)) = length (tags t)" by simp
  then have "sum_list (map (\<lambda>s. count_list s CHR '','') (tags t)) = 0" by (simp add: length_csv_tags)
  then show "\<forall>s\<in>set (tags t). CHR '','' \<notin> set s" by (auto simp: count_list_0_iff)
next
  assume "\<forall>s\<in>set (tags t). CHR '','' \<notin> set s"
  then show "list_row t = read_row t" by (simp add: list_row_def read_row_def csv_tags_free)
qed

text \<open>The schema admits such a tag.\<close>

theorem listing_keeps_tags_without_commas_witness:
  "tags (list_row (new_row 0 1 (sample_create\<lparr>d_tags := [''a,b'']\<rparr>))) = [''a'', ''b''] \<and>
   list_row (new_row 0 1 sample_create) = read_row (new_row 0 1 sample_create)"
proof
  show "tags (list_row (new_row 0 1 (sample_create\<lparr>d_tags := [''a,b'']\<rparr>))) = [''a'', ''b'']" by code_simp
  show "list_row (new_row 0 1 sample_create) = read_row (new_row 0 1 sample_create)"
    using listing_keeps_tags_without_commas [of "new_row 0 1 sample_create"] by (simp add: sample_create_def)
qed

end
