(* ===== verification/Topology.thy ===== *)
theory Topology
  imports Cycle_Detector Task_Query "HOL-Library.Product_Lexorder"
begin

text \<open>
  The topology classifier of \<open>src/services/topology.service.ts\<close>: the node set is loaded page by
  page, edges with an end outside the project are dropped, roots and leaves come from
  degree tables, and the graph is cyclic when one of its edges closes a cycle over the
  others.
\<close>

datatype advisory = Run_loop | Run_loop_dag | Refuse

record topology_report =
  t_topology :: topology
  t_edges :: "edge list"
  t_roots :: "id list"
  t_leaves :: "id list"
  t_advisory :: advisory

section \<open>Loading the node set\<close>

text \<open>
  The loop compares the size of the \<open>Set\<close> of ids with the count; \<open>rows\<close> are the rows of the
  query, of which each round reads the page of 500 at the offset.
\<close>

function load_id_set :: "id list \<Rightarrow> nat \<Rightarrow> id list \<Rightarrow> nat \<Rightarrow> id list" where
  "load_id_set rows expected ids offset =
     (if length ids < expected
      then (let pg = page (MAX_PAGE_LIMIT, int offset) rows in
            if pg = [] then ids
            else load_id_set rows expected (foldl (\<lambda>acc i. js_set_add i acc) ids pg) (offset + length pg))
      else ids)"
  by pat_completeness auto
termination
  by (relation "measure (\<lambda>(rows, expected, ids, offset). length rows - offset)")
    (auto simp: page_def MAX_PAGE_LIMIT_def Let_def)

declare load_id_set.simps [simp del]

definition project_id_set :: "id \<Rightarrow> db \<Rightarrow> id list" where
  "project_id_set p db =
     (let rows = matching (\<lambda>_. True) (project_filter p) db
      in load_id_set (map task_id rows) (length (filter (\<lambda>t. project_id t = p) (tasks db))) [] 0)"

definition in_project_edges :: "id list \<Rightarrow> edge list \<Rightarrow> edge list" where
  "in_project_edges ids es = filter (\<lambda>e. fst e \<in> set ids \<and> snd e \<in> set ids) es"

section \<open>Degree tables and the cycle probe\<close>

definition bump_degree :: "id \<Rightarrow> (id, nat) jsmap \<Rightarrow> (id, nat) jsmap" where
  "bump_degree i m = js_put i (Suc (or_else (js_get m i) 0)) m"

definition zero_degrees :: "id list \<Rightarrow> (id, nat) jsmap" where
  "zero_degrees ids = foldl (\<lambda>m i. js_put i 0 m) [] ids"

definition in_degrees :: "id list \<Rightarrow> edge list \<Rightarrow> (id, nat) jsmap" where
  "in_degrees ids es = foldl (\<lambda>m e. bump_degree (snd e) m) (zero_degrees ids) es"

definition out_degrees :: "id list \<Rightarrow> edge list \<Rightarrow> (id, nat) jsmap" where
  "out_degrees ids es = foldl (\<lambda>m e. bump_degree (fst e) m) (zero_degrees ids) es"

definition has_cycle :: "edge list \<Rightarrow> bool" where
  "has_cycle es =
     list_ex (\<lambda>i. detector_closes (take i es @ drop (Suc i) es) (fst (es ! i)) (snd (es ! i)))
       [0..<length es]"

definition degree_zero :: "(id, nat) jsmap \<Rightarrow> id list \<Rightarrow> id list" where
  "degree_zero m ids = filter (\<lambda>i. or_else (js_get m i) 0 = 0) (sort ids)"

definition classify_graph :: "id list \<Rightarrow> edge list \<Rightarrow> topology_report" where
  "classify_graph ids es =
     (if es = [] then
        \<lparr>t_topology = FLAT, t_edges = [], t_roots = sort ids, t_leaves = sort ids, t_advisory = Run_loop\<rparr>
      else
        let roots = degree_zero (in_degrees ids es) ids;
            leaves = degree_zero (out_degrees ids es) ids
        in if has_cycle es then
             \<lparr>t_topology = DAG_CYCLIC, t_edges = sort es, t_roots = roots, t_leaves = leaves, t_advisory = Refuse\<rparr>
           else
             \<lparr>t_topology = DAG, t_edges = sort es, t_roots = roots, t_leaves = leaves, t_advisory = Run_loop_dag\<rparr>)"

definition classify :: "id \<Rightarrow> db \<Rightarrow> topology_report" where
  "classify p db =
     (let ids = project_id_set p db in classify_graph ids (in_project_edges ids (edges db)))"

section \<open>Correctness of the node set\<close>

lemma foldl_js_set_add_distinct:
  "distinct (ids @ pg) \<Longrightarrow> foldl (\<lambda>acc i. js_set_add i acc) ids pg = ids @ pg"
  by (induction pg arbitrary: ids) (auto simp: js_set_add_def)

lemma load_id_set_complete:
  assumes "distinct rows" and "ids = take n rows" and "n \<le> length rows"
  shows "load_id_set rows (length rows) ids n = rows"
  using assms(2,3)
proof (induction "length rows - n" arbitrary: n ids rule: less_induct)
  case less
  show ?case
  proof (cases "n < length rows")
    case True
    let ?pg = "take 500 (drop n rows)"
    have pg: "page (MAX_PAGE_LIMIT, int n) rows = ?pg" by (simp add: page_def MAX_PAGE_LIMIT_def)
    have ne: "?pg \<noteq> []" using True by simp
    have app: "ids @ ?pg = take (n + length ?pg) rows"
      using less.prems(1) by (simp add: take_add min_def)
    then have "distinct (ids @ ?pg)" using assms(1) by (simp only: distinct_take)
    then have add: "foldl (\<lambda>acc i. js_set_add i acc) ids ?pg = ids @ ?pg"
      by (rule foldl_js_set_add_distinct)
    have "load_id_set rows (length rows) (ids @ ?pg) (n + length ?pg) = rows"
      using True by (intro less.hyps app) auto
    moreover have "length ids < length rows" using less.prems True by simp
    ultimately show ?thesis
      by (subst load_id_set.simps) (simp add: pg ne add Let_def del: take_eq_Nil drop_eq_Nil)
  next
    case False
    with less.prems show ?thesis by (subst load_id_set.simps) simp
  qed
qed

lemma project_id_set_eq:
  assumes "db_wf db"
  shows "distinct (project_id_set p db)"
    and "set (project_id_set p db) = task_id ` {t \<in> set (tasks db). project_id t = p}"
proof -
  let ?ids = "map task_id (matching (\<lambda>_. True) (project_filter p) db)"
  have m: "matching (\<lambda>_. True) (project_filter p) db =
      sort_key (\<lambda>t. - created_at t) (filter (\<lambda>t. project_id t = p) (tasks db))"
    using matching_project [where m = "\<lambda>_. True" and p = p and off = None and inc = None and db = db]
    by (simp add: project_filter_def no_filters_def)
  have d: "distinct ?ids"
    using distinct_project_tasks [OF assms, of p] by (simp add: m project_tasks_def comp_def)
  have len: "length ?ids = length (filter (\<lambda>t. project_id t = p) (tasks db))" by (simp add: m)
  have "project_id_set p db = ?ids"
    using load_id_set_complete [OF d, of "[]" 0] unfolding project_id_set_def Let_def len by simp
  with d show "distinct (project_id_set p db)"
    and "set (project_id_set p db) = task_id ` {t \<in> set (tasks db). project_id t = p}"
    by (auto simp: m)
qed

lemma set_in_project_edges:
  "set (in_project_edges ids es) = set es \<inter> set ids \<times> set ids"
  by (auto simp: in_project_edges_def)

section \<open>Correctness of the degree tables\<close>

lemma zero_degrees_get: "js_get (zero_degrees ids) i = (if i \<in> set ids then Some 0 else None)"
proof -
  have "js_get (foldl (\<lambda>m i. js_put i 0 m) m ids) i = (if i \<in> set ids then Some 0 else js_get m i)"
    for m :: "(id, nat) jsmap"
    by (induction ids arbitrary: m) auto
  then show ?thesis by (simp add: zero_degrees_def)
qed

lemma bump_degree_get:
  "or_else (js_get (bump_degree i m) j) 0 = or_else (js_get m j) 0 + (if i = j then 1 else 0)"
  by (auto simp: bump_degree_def or_else_def)

lemma foldl_bump_get:
  "or_else (js_get (foldl (\<lambda>m e. bump_degree (f e) m) m es) j) 0 =
     or_else (js_get m j) 0 + length (filter (\<lambda>e. f e = j) es)"
  by (induction es arbitrary: m) (auto simp: bump_degree_get)

lemma in_degrees_get: "or_else (js_get (in_degrees ids es) j) 0 = length (filter (\<lambda>e. snd e = j) es)"
  and out_degrees_get: "or_else (js_get (out_degrees ids es) j) 0 = length (filter (\<lambda>e. fst e = j) es)"
  unfolding in_degrees_def out_degrees_def foldl_bump_get zero_degrees_get
  by (simp_all add: or_else_def)

lemma has_cycle_iff: "has_cycle es \<longleftrightarrow> \<not> acyclic (set es)"
proof (cases es)
  case (Cons e es')
  have "has_cycle es \<longleftrightarrow> (\<exists>i < length es. \<not> acyclic (set es))"
    using detector.probe_edge [of _ es] by (auto simp: has_cycle_def list_ex_iff)
  with Cons show ?thesis by auto
qed (simp add: has_cycle_def)

definition dfs_classifier :: "id list \<Rightarrow> edge list \<Rightarrow> topology" where
  "dfs_classifier ids es = t_topology (classify_graph ids es)"

interpretation dfs_topology: topology_classifier dfs_classifier
  by unfold_locales (simp add: dfs_classifier_def classify_graph_def classified_def Let_def has_cycle_iff)

text \<open>
  On a well-formed database the report of a project has exactly the edges between its
  own tasks, in ascending order; it is FLAT without such edges, DAG when they are acyclic
  and DAG_CYCLIC otherwise; its roots are, in ascending order, the tasks no edge enters,
  its leaves the tasks no edge leaves; and it advises a runner to refuse exactly the
  cyclic graphs.
\<close>

theorem classify_correct:
  assumes "db_wf db"
  shows "let ids = task_id ` {t \<in> set (tasks db). project_id t = p};
             es = set (edges db) \<inter> ids \<times> ids;
             r = classify p db
         in set (t_edges r) = es \<and> sorted (t_edges r) \<and>
            t_topology r = (if es = {} then FLAT else if acyclic es then DAG else DAG_CYCLIC) \<and>
            sorted (t_roots r) \<and> set (t_roots r) = ids - snd ` es \<and>
            sorted (t_leaves r) \<and> set (t_leaves r) = ids - fst ` es \<and>
            (t_advisory r = Refuse) = (\<not> acyclic es)"
proof -
  let ?l = "project_id_set p db"
  let ?e = "in_project_edges ?l (edges db)"
  have ids: "set ?l = task_id ` {t \<in> set (tasks db). project_id t = p}"
    by (rule project_id_set_eq [OF assms])
  have es: "set ?e = set (edges db) \<inter> set ?l \<times> set ?l" by (rule set_in_project_edges)
  have zero: "length (filter P xs) = 0 \<longleftrightarrow> (\<forall>x\<in>set xs. \<not> P x)" for P :: "edge \<Rightarrow> bool" and xs
    by (simp add: filter_empty_conv)
  have roots: "set (degree_zero (in_degrees ?l ?e) ?l) = set ?l - snd ` set ?e"
    unfolding degree_zero_def in_degrees_get zero by auto
  have leaves: "set (degree_zero (out_degrees ?l ?e) ?l) = set ?l - fst ` set ?e"
    unfolding degree_zero_def out_degrees_get zero by auto
  have sorted: "sorted (degree_zero m xs)" for m xs
    by (simp add: degree_zero_def sorted_filter [where f = id, simplified] sorted_wrt_filter)
  show ?thesis
    unfolding Let_def ids [symmetric] es [symmetric]
    by (simp add: classify_def classify_graph_def Let_def has_cycle_iff roots leaves sorted)
qed

theorem classify_correct_witness:
  "db_wf sample_linked \<and> set (t_edges (classify 1 sample_linked)) = {(1, 2)} \<and>
   t_topology (classify 1 sample_linked) = DAG \<and> set (t_roots (classify 1 sample_linked)) = {1} \<and>
   set (t_leaves (classify 1 sample_linked)) = {2} \<and> t_advisory (classify 1 sample_linked) \<noteq> Refuse"
proof -
  have tasks: "tasks sample_linked = [new_row 1500 1 sample_create, new_row 2500 2 sample_create]"
    by (simp add: sample_linked_def sample_pair_def)
  have ids: "task_id ` {t \<in> set (tasks sample_linked). project_id t = 1} = {1, 2}"
  proof -
    have new: "project_id (new_row n i sample_create) = 1" "task_id (new_row n i sample_create) = i" for n i
      by (simp_all add: new_row_def sample_create_def set_wsjf_def)
    have "{t \<in> set (tasks sample_linked). project_id t = 1} = set (tasks sample_linked)"
      unfolding tasks using new by auto
    then show ?thesis by (simp add: tasks new)
  qed
  have es: "set (edges sample_linked) = {(1, 2)}" by (simp add: sample_linked_def edges_def)
  have "acyclic {(1::id, 2::id)}" by (simp add: acyclic_insert)
  then show ?thesis
    using classify_correct [OF sample_linked_wf(2), of 1] sample_linked_wf(2)
    unfolding Let_def ids es by auto
qed

end
