(* ===== verification/Kahn.thy ===== *)
theory Kahn
  imports Topology
begin

text \<open>
  The inline classifier of \<open>src/services/dependency-graph.service.ts\<close>: Kahn's algorithm over an
  in-degree map and a stack of ready nodes, counting the nodes it drains.  It labels every
  project graph as the depth-first classifier of the topology service does.
\<close>

definition adjacency_lists :: "id list \<Rightarrow> edge list \<Rightarrow> (id, id list) jsmap" where
  "adjacency_lists ids es =
     foldl (\<lambda>m e. case js_get m (fst e) of None \<Rightarrow> m | Some vs \<Rightarrow> js_put (fst e) (vs @ [snd e]) m)
       (foldl (\<lambda>m i. js_put i [] m) [] ids) es"

definition bump_int :: "id \<Rightarrow> (id, int) jsmap \<Rightarrow> (id, int) jsmap" where
  "bump_int i m = js_put i (or_else (js_get m i) 0 + 1) m"

definition int_degrees :: "id list \<Rightarrow> edge list \<Rightarrow> (id, int) jsmap" where
  "int_degrees ids es =
     foldl (\<lambda>m e. bump_int (snd e) m) (foldl (\<lambda>m i. js_put i 0 m) [] ids) es"

text \<open>One round drains a node: every edge out of it lowers a degree, a degree that reaches 0 is pushed.\<close>

fun relax :: "id list \<Rightarrow> (id, int) jsmap \<Rightarrow> id list \<Rightarrow> (id, int) jsmap \<times> id list" where
  "relax [] m frontier = (m, frontier)"
| "relax (nxt # rest) m frontier =
     (let left = or_else (js_get m nxt) 0 - 1
      in relax rest (js_put nxt left m) (if left = 0 then frontier @ [nxt] else frontier))"

definition positive :: "(id, int) jsmap \<Rightarrow> nat" where
  "positive m = length (filter (\<lambda>p. snd p > 0) m)"

lemma positive_put:
  "positive (js_put k (or_else (js_get m k) 0 - 1) m) + (if or_else (js_get m k) 0 = 1 then 1 else 0)
     \<le> positive m"
  by (induction m rule: list.induct) (auto simp: positive_def or_else_def)

lemma relax_measure:
  "relax ns m fr = (m', fr') \<Longrightarrow> positive m' + length fr' \<le> positive m + length fr"
proof (induction ns m fr rule: relax.induct)
  case (2 nxt rest m fr)
  let ?l = "or_else (js_get m nxt) 0 - 1"
  have "positive (js_put nxt ?l m) + (if ?l = 0 then 1 else 0) \<le> positive m"
    using positive_put [of nxt m] by auto
  with 2 show ?case by (auto simp: Let_def split: if_splits)
qed simp

function kahn_loop :: "(id, id list) jsmap \<Rightarrow> (id, int) jsmap \<Rightarrow> id list \<Rightarrow> nat \<Rightarrow> nat" where
  "kahn_loop adj m frontier drained =
     (if frontier = [] then drained
      else case relax (or_else (js_get adj (last frontier)) []) m (butlast frontier) of
             (m', frontier') \<Rightarrow> kahn_loop adj m' frontier' (Suc drained))"
  by pat_completeness auto
termination
proof (relation "measure (\<lambda>(adj, m, frontier, drained). positive m + length frontier)", goal_cases)
  case (2 adj m frontier drained m' frontier')
  then have "positive m' + length frontier' \<le> positive m + length (butlast frontier)"
    by (metis relax_measure)
  with 2 show ?case by (cases frontier rule: rev_cases) auto
qed simp

declare kahn_loop.simps [simp del]

definition classify_from_in_degree :: "id list \<Rightarrow> edge list \<Rightarrow> (id, int) jsmap \<Rightarrow> topology" where
  "classify_from_in_degree ids es inDegree =
     (if es = [] then FLAT
      else let frontier = map fst (filter (\<lambda>p. snd p = 0) inDegree);
               drained = kahn_loop (adjacency_lists ids es) inDegree frontier 0
           in if drained = length ids then DAG else DAG_CYCLIC)"

definition classify_topology_inline :: "id list \<Rightarrow> edge list \<Rightarrow> topology" where
  "classify_topology_inline ids es =
     (if es = [] then FLAT else classify_from_in_degree ids es (int_degrees ids es))"

section \<open>The tables\<close>

definition succs :: "edge list \<Rightarrow> id \<Rightarrow> id list" where
  "succs es u = map snd (filter (\<lambda>e. fst e = u) es)"

lemma set_succs: "v \<in> set (succs es u) \<longleftrightarrow> (u, v) \<in> set es"
  by (force simp: succs_def)

lemma adjacency_lists_get:
  "js_get (adjacency_lists ids es) u = (if u \<in> set ids then Some (succs es u) else None)"
proof -
  have init: "js_get (foldl (\<lambda>m i. js_put i [] m) m ids) u = (if u \<in> set ids then Some [] else js_get m u)"
    for m :: "(id, id list) jsmap"
    by (induction ids arbitrary: m) auto
  have "js_get (foldl (\<lambda>m e. case js_get m (fst e) of None \<Rightarrow> m | Some vs \<Rightarrow> js_put (fst e) (vs @ [snd e]) m) m es) u
      = map_option (\<lambda>vs. vs @ succs es u) (js_get m u)" for m :: "(id, id list) jsmap"
    by (induction es arbitrary: m) (auto simp: succs_def option.map_comp comp_def option.map_ident split: option.splits)
  then show ?thesis by (simp add: adjacency_lists_def init)
qed

lemma int_degrees_get:
  "or_else (js_get (int_degrees ids es) v) 0 = int (length (filter (\<lambda>e. snd e = v) es))"
proof -
  have init: "or_else (js_get (foldl (\<lambda>m i. js_put i 0 m) m ids) v) 0 = (if v \<in> set ids then 0 else or_else (js_get m v) 0)"
    for m :: "(id, int) jsmap"
    by (induction ids arbitrary: m) (auto simp: or_else_def)
  have "or_else (js_get (foldl (\<lambda>m e. bump_int (snd e) m) m es) v) 0
      = or_else (js_get m v) 0 + int (length (filter (\<lambda>e. snd e = v) es))" for m :: "(id, int) jsmap"
    by (induction es arbitrary: m) (auto simp: bump_int_def or_else_def)
  then show ?thesis by (simp add: int_degrees_def init) (simp add: or_else_def)
qed

lemma js_keys_put_known: "k \<in> fst ` set m \<Longrightarrow> map fst (js_put k v m) = map fst m"
  by (induction k v m rule: js_put.induct) auto

lemma int_degrees_keys:
  assumes "distinct ids" and "set es \<subseteq> set ids \<times> set ids"
  shows "map fst (int_degrees ids es) = ids"
proof -
  have put_new: "k \<notin> fst ` set m \<Longrightarrow> js_put k v m = m @ [(k, v)]" for k v and m :: "(id, int) jsmap"
    by (induction k v m rule: js_put.induct) auto
  have init: "map fst (foldl (\<lambda>m i. js_put i 0 m) m ids) = map fst m @ ids"
    if "distinct (map fst m @ ids)" for m :: "(id, int) jsmap"
    using that by (induction ids arbitrary: m) (auto simp: put_new)
  have "map fst (foldl (\<lambda>m e. bump_int (snd e) m) m es) = map fst m"
    if "snd ` set es \<subseteq> fst ` set m" for m :: "(id, int) jsmap"
    using that
  proof (induction es arbitrary: m)
    case (Cons e es)
    then have k: "map fst (bump_int (snd e) m) = map fst m"
      by (simp add: bump_int_def js_keys_put_known)
    then have "fst ` set (bump_int (snd e) m) = fst ` set m" by (metis set_map)
    with Cons k show ?case by simp
  qed simp
  moreover have keys: "map fst (foldl (\<lambda>m i. js_put i (0::int) m) [] ids) = ids"
    using init [of "[]"] assms(1) by simp
  moreover have "fst ` set (foldl (\<lambda>m i. js_put i (0::int) m) [] ids) = set ids"
    using keys by (metis set_map)
  ultimately show ?thesis using assms(2) by (force simp: int_degrees_def)
qed

section \<open>Invariant of the drain\<close>

text \<open>
  \<open>D\<close> is the list of nodes drained so far.  The degree of a node counts its edges from nodes
  outside \<open>D\<close>; the nodes of degree 0 are those drained or waiting.  Against the direction of
  the edges the drained nodes are settled: every predecessor of a drained node was drained
  before it.
\<close>

definition pending :: "edge list \<Rightarrow> id list \<Rightarrow> id \<Rightarrow> int" where
  "pending es D v = int (length (filter (\<lambda>e. snd e = v \<and> fst e \<notin> set D) es))"

definition kahn_inv :: "id list \<Rightarrow> edge list \<Rightarrow> (id, int) jsmap \<Rightarrow> id list \<Rightarrow> id list \<Rightarrow> bool" where
  "kahn_inv ids es m frontier D \<longleftrightarrow>
     distinct (D @ frontier) \<and> set (D @ frontier) \<subseteq> set ids \<and>
     (\<forall>v\<in>set ids. or_else (js_get m v) 0 = pending es D v) \<and>
     (\<forall>v\<in>set ids. pending es D v = 0 \<longleftrightarrow> v \<in> set (D @ frontier)) \<and>
     settled ((set es)\<inverse>) (set D)"

lemma pending_nonneg [simp]: "0 \<le> pending es D v"
  by (simp add: pending_def)

lemma pending_drain:
  assumes "u \<notin> set D"
  shows "pending es (D @ [u]) v = pending es D v - int (length (filter (\<lambda>x. x = v) (succs es u)))"
proof -
  have "length (filter (\<lambda>e. snd e = v \<and> fst e \<notin> set D) es) =
      length (filter (\<lambda>e. snd e = v \<and> fst e \<notin> set (D @ [u])) es) + length (filter (\<lambda>x. x = v) (succs es u))"
    using assms by (induction es) (auto simp: succs_def)
  then show ?thesis by (simp add: pending_def)
qed

lemma relax_spec:
  assumes "relax ns m fr = (m', fr')"
    and "\<forall>v. int (length (filter (\<lambda>x. x = v) ns)) \<le> or_else (js_get m v) 0 \<or> v \<notin> set ns"
  shows "(\<forall>v. or_else (js_get m' v) 0 = or_else (js_get m v) 0 - int (length (filter (\<lambda>x. x = v) ns))) \<and>
    (\<exists>new. fr' = fr @ new \<and> distinct new \<and>
      set new = {v \<in> set ns. or_else (js_get m v) 0 = int (length (filter (\<lambda>x. x = v) ns))})"
  using assms
proof (induction ns m fr arbitrary: m' fr' rule: relax.induct)
  case (1 m fr)
  then show ?case by simp
next
  case (2 n ns m fr)
  let ?l = "or_else (js_get m n) 0 - 1"
  let ?m = "js_put n ?l m"
  let ?fr = "if ?l = 0 then fr @ [n] else fr"
  let ?c = "\<lambda>v ns. int (length (filter (\<lambda>x. x = v) ns))"
  have get: "or_else (js_get ?m v) 0 = or_else (js_get m v) 0 - (if v = n then 1 else 0)" for v
    by (simp add: or_else_def)
  have count: "?c v (n # ns) = ?c v ns + (if v = n then 1 else 0)" for v by simp
  have pre: "\<forall>v. ?c v ns \<le> or_else (js_get ?m v) 0 \<or> v \<notin> set ns"
    using "2.prems"(2) unfolding get count by (metis add_le_cancel_right diff_add_cancel diff_zero add.right_neutral list.set_intros(2))
  have run: "relax ns ?m ?fr = (m', fr')" using "2.prems"(1) by (simp add: Let_def)
  obtain new where IH: "\<forall>v. or_else (js_get m' v) 0 = or_else (js_get ?m v) 0 - ?c v ns"
    "fr' = ?fr @ new" "distinct new" "set new = {v \<in> set ns. or_else (js_get ?m v) 0 = ?c v ns}"
    using "2.IH" [OF refl run pre] by blast
  have c0: "?c v ns = 0 \<longleftrightarrow> v \<notin> set ns" for v by (simp add: filter_empty_conv) blast
  have c1: "v \<in> set ns \<Longrightarrow> 1 \<le> ?c v ns" for v using c0 [of v] by linarith
  have "\<exists>new'. fr' = fr @ new' \<and> distinct new' \<and>
      set new' = {v \<in> set (n # ns). or_else (js_get m v) 0 = ?c v (n # ns)}"
  proof (cases "?l = 0")
    case True
    have n: "n \<notin> set ns"
    proof
      assume "n \<in> set ns"
      with pre have "?c n ns \<le> or_else (js_get ?m n) 0" by blast
      moreover have "or_else (js_get ?m n) 0 = 0" using get [of n] True by simp
      ultimately show False using c1 [OF \<open>n \<in> set ns\<close>] by linarith
    qed
    have "v \<in> set (n # new) \<longleftrightarrow> v \<in> set (n # ns) \<and> or_else (js_get m v) 0 = ?c v (n # ns)" for v
    proof (cases "v = n")
      case v: True
      have "?c n ns = 0" using n c0 by blast
      then have "or_else (js_get m n) 0 = ?c n (n # ns)" using True by simp
      with v show ?thesis by simp
    next
      case False
      then show ?thesis using IH(4) get [of v] count [of v] by simp
    qed
    then have "set (n # new) = {v \<in> set (n # ns). or_else (js_get m v) 0 = ?c v (n # ns)}" by blast
    moreover have "distinct (n # new)" using IH(3,4) n by auto
    moreover have "fr' = fr @ n # new" using IH(2) True by simp
    ultimately show ?thesis by blast
  next
    case False
    have "v \<in> set new \<longleftrightarrow> v \<in> set (n # ns) \<and> or_else (js_get m v) 0 = ?c v (n # ns)" for v
    proof (cases "v = n")
      case v: True
      have "n \<in> set ns" if "or_else (js_get m n) 0 = ?c n (n # ns)"
        using that False c0 [of n] by (metis add.left_neutral add_diff_cancel_left' count diff_self)
      then show ?thesis using IH(4) get [of v] count [of v] v by auto
    next
      case False
      then show ?thesis using IH(4) get [of v] count [of v] by simp
    qed
    then have "set new = {v \<in> set (n # ns). or_else (js_get m v) 0 = ?c v (n # ns)}" by blast
    with IH(2,3) False show ?thesis by auto
  qed
  then show ?case using IH(1) unfolding get count by auto
qed

lemma kahn_inv_step:
  assumes inv: "kahn_inv ids es m (fr @ [u]) D" and E: "set es \<subseteq> set ids \<times> set ids"
    and run: "relax (succs es u) m fr = (m', fr')"
  shows "kahn_inv ids es m' fr' (D @ [u])"
proof -
  let ?c = "\<lambda>v. int (length (filter (\<lambda>x. x = v) (succs es u)))"
  from inv have d: "distinct (D @ fr @ [u])" and sub: "set (D @ fr @ [u]) \<subseteq> set ids"
    and deg: "\<forall>v\<in>set ids. or_else (js_get m v) 0 = pending es D v"
    and zero: "\<forall>v\<in>set ids. pending es D v = 0 \<longleftrightarrow> v \<in> set (D @ fr @ [u])"
    and st: "settled ((set es)\<inverse>) (set D)" by (simp_all add: kahn_inv_def)
  have u: "u \<notin> set D" "u \<in> set ids" using d sub by auto
  note drain = pending_drain [OF u(1)]
  have sids: "set (succs es u) \<subseteq> set ids" using E by (auto simp: succs_def)
  have le: "?c v \<le> pending es D v" for v using drain [of es v] pending_nonneg [of es "D @ [u]" v] by linarith
  have pre: "\<forall>v. ?c v \<le> or_else (js_get m v) 0 \<or> v \<notin> set (succs es u)"
    using deg sids le by fastforce
  obtain new where get: "\<forall>v. or_else (js_get m' v) 0 = or_else (js_get m v) 0 - ?c v"
    and fr': "fr' = fr @ new" and dn: "distinct new"
    and new: "set new = {v \<in> set (succs es u). or_else (js_get m v) 0 = ?c v}"
    using relax_spec [OF run pre] by blast
  have c0: "?c v = 0 \<longleftrightarrow> v \<notin> set (succs es u)" for v by (simp add: filter_empty_conv) blast
  have new': "v \<in> set new \<longleftrightarrow> pending es D v \<noteq> 0 \<and> pending es (D @ [u]) v = 0" if "v \<in> set ids" for v
    using new deg that c0 [of v] drain [of es v] by auto
  have nsub: "set new \<subseteq> set ids" using new sids by auto
  have "set new \<inter> set (D @ fr @ [u]) = {}" using new' nsub zero by fastforce
  then have dist: "distinct ((D @ [u]) @ fr')" using d dn fr' by auto
  have deg': "\<forall>v\<in>set ids. or_else (js_get m' v) 0 = pending es (D @ [u]) v"
    using get deg drain by simp
  have "pending es (D @ [u]) v = 0 \<longleftrightarrow> v \<in> set ((D @ [u]) @ fr')" if v: "v \<in> set ids" for v
  proof (cases "pending es D v = 0")
    case True
    then have "pending es (D @ [u]) v = 0" using drain [of es v] pending_nonneg [of es "D @ [u]" v] by linarith
    with True zero v show ?thesis by (auto simp: fr')
  next
    case False
    with zero v have "v \<notin> set (D @ fr @ [u])" by blast
    with new' [OF v] False show ?thesis by (auto simp: fr')
  qed
  moreover have "settled ((set es)\<inverse>) (set (D @ [u]))"
  proof -
    have "pending es D u = 0" using zero u by simp
    then have "(set es)\<inverse> `` {u} \<subseteq> set D" by (auto simp: pending_def filter_empty_conv)
    with settled_insert [OF st _ u(1)] show ?thesis by simp
  qed
  ultimately show ?thesis
    using dist sub nsub deg' unfolding kahn_inv_def by (auto simp: fr')
qed

lemma kahn_loop_drains:
  assumes "set es \<subseteq> set ids \<times> set ids"
  shows "kahn_inv ids es m frontier D \<Longrightarrow> adj = adjacency_lists ids es \<Longrightarrow> k = length D \<Longrightarrow>
    \<exists>D' m'. kahn_inv ids es m' [] D' \<and> kahn_loop adj m frontier k = length D'"
proof (induction adj m frontier k arbitrary: D rule: kahn_loop.induct)
  case (1 adj m frontier k)
  show ?case
  proof (cases frontier rule: rev_cases)
    case Nil
    with "1.prems" show ?thesis by (subst kahn_loop.simps) auto
  next
    case (snoc fr u)
    obtain m' fr' where run: "relax (succs es u) m fr = (m', fr')" by fastforce
    have "u \<in> set ids" using "1.prems"(1) snoc by (simp add: kahn_inv_def)
    then have adj: "or_else (js_get adj u) [] = succs es u"
      by (simp add: "1.prems"(2) adjacency_lists_get or_else_def)
    have inv: "kahn_inv ids es m' fr' (D @ [u])"
      using kahn_inv_step [OF _ assms run] "1.prems"(1) snoc by simp
    have run': "(m', fr') = relax (or_else (js_get adj (last frontier)) []) m (butlast frontier)"
      using run adj snoc by simp
    have "frontier \<noteq> []" and "Suc k = length (D @ [u])" using snoc "1.prems"(3) by simp_all
    then have "\<exists>D' m0. kahn_inv ids es m0 [] D' \<and> kahn_loop adj m' fr' (Suc k) = length D'"
      using "1.IH" [OF _ run' inv "1.prems"(2)] by blast
    then show ?thesis
      using snoc run adj by (subst kahn_loop.simps) simp
  qed
qed

lemma no_source_cyclic:
  assumes "finite E" and "x \<in> S" and "\<forall>x\<in>S. \<exists>y\<in>S. (y, x) \<in> E"
  shows "\<not> acyclic E"
proof
  assume "acyclic E"
  then have "wf E" using assms(1) by (intro finite_acyclic_wf)
  with assms(2) obtain z where "z \<in> S" and "\<And>y. (y, z) \<in> E \<Longrightarrow> y \<notin> S" by (metis wfE_min)
  with assms(3) show False by blast
qed

lemma kahn_final:
  assumes inv: "kahn_inv ids es m [] D" and "distinct ids" and E: "set es \<subseteq> set ids \<times> set ids"
  shows "length D = length ids \<longleftrightarrow> acyclic (set es)"
proof -
  from inv have D: "distinct D" "set D \<subseteq> set ids"
    and zero: "\<forall>v\<in>set ids. pending es D v = 0 \<longleftrightarrow> v \<in> set D"
    and st: "settled ((set es)\<inverse>) (set D)" by (simp_all add: kahn_inv_def)
  have len: "length D = length ids \<longleftrightarrow> set D = set ids"
    using D assms(2) by (metis card_subset_eq distinct_card finite_set)
  show ?thesis
  proof (cases "set D = set ids")
    case True
    have "(x, x) \<notin> (set es)\<^sup>+" for x
    proof
      assume c: "(x, x) \<in> (set es)\<^sup>+"
      then have "x \<in> set D" using E True by (metis mem_Sigma_iff subsetD tranclD)
      with st have "(x, x) \<notin> ((set es)\<inverse>)\<^sup>+" by (simp add: settled_def)
      with c show False by (simp add: trancl_converse)
    qed
    with True len show ?thesis by (simp add: acyclic_def)
  next
    case False
    with D obtain x where x: "x \<in> set ids - set D" by blast
    have "\<exists>y\<in>set ids - set D. (y, v) \<in> set es" if "v \<in> set ids - set D" for v
    proof -
      have "filter (\<lambda>e. snd e = v \<and> fst e \<notin> set D) es \<noteq> []"
        using zero that by (auto simp: pending_def)
      then obtain e where "e \<in> set es" "snd e = v" "fst e \<notin> set D"
        by (auto simp: filter_empty_conv)
      with E show ?thesis by (metis Diff_iff SigmaD1 prod.collapse subsetD)
    qed
    with x have "\<not> acyclic (set es)"
      by (intro no_source_cyclic [where S = "set ids - set D"]) auto
    with False len show ?thesis by simp
  qed
qed

lemma kahn_inv_init:
  assumes "distinct ids" and "set es \<subseteq> set ids \<times> set ids"
  shows "kahn_inv ids es (int_degrees ids es) (map fst (filter (\<lambda>p. snd p = 0) (int_degrees ids es))) []"
proof -
  let ?m = "int_degrees ids es"
  have keys: "map fst ?m = ids" by (rule int_degrees_keys [OF assms])
  have get: "or_else (js_get ?m v) 0 = pending es [] v" for v by (simp add: int_degrees_get pending_def)
  have dm: "distinct (map fst ?m)" using keys assms(1) by simp
  have some: "(v, d) \<in> set ?m \<longleftrightarrow> js_get ?m v = Some d" for v d
    using dm by (simp add: map_of_eq_Some_iff)
  have front: "set (map fst (filter (\<lambda>p. snd p = 0) ?m)) = {v \<in> set ids. pending es [] v = 0}"
  proof -
    have "v \<in> set (map fst (filter (\<lambda>p. snd p = 0) ?m)) \<longleftrightarrow> js_get ?m v = Some 0" for v
      by (force simp flip: some)
    moreover have "js_get ?m v = Some 0 \<longleftrightarrow> v \<in> set ids \<and> pending es [] v = 0" for v
    proof -
      have "js_get ?m v \<noteq> None \<longleftrightarrow> v \<in> set ids"
        using keys by (metis map_of_eq_None_iff set_map)
      then show ?thesis using get [of v] by (cases "js_get ?m v") (auto simp: or_else_def)
    qed
    ultimately show ?thesis by blast
  qed
  show ?thesis
    using assms(1) dm front get
    by (auto simp: kahn_inv_def intro: distinct_map_filter)
qed

lemma classify_from_in_degree_spec:
  assumes "distinct ids" and "set es \<subseteq> set ids \<times> set ids"
  shows "classify_from_in_degree ids es (int_degrees ids es) = classified es"
proof -
  obtain D m where "kahn_inv ids es m [] D" and "kahn_loop (adjacency_lists ids es) (int_degrees ids es)
      (map fst (filter (\<lambda>p. snd p = 0) (int_degrees ids es))) 0 = length D"
    using kahn_loop_drains [OF assms(2) kahn_inv_init [OF assms] refl, of 0] by auto
  then show ?thesis
    using kahn_final [OF _ assms] by (simp add: classify_from_in_degree_def classified_def Let_def)
qed

interpretation kahn_topology: topology_classifier classify_topology_inline
  by unfold_locales (simp add: classify_topology_inline_def classify_from_in_degree_spec classified_def)

interpretation both_topologies: two_classifiers dfs_classifier classify_topology_inline
  by unfold_locales

text \<open>
  C30.  The two classifiers of the program agree: over any project's tasks and edges, Kahn's
  drain of the dependency-graph endpoint and the depth-first probe of the topology service
  give the same label.
\<close>

theorem classifiers_agree:
  assumes "distinct ids" and "set es \<subseteq> set ids \<times> set ids"
  shows "classify_topology_inline ids es = t_topology (classify_graph ids es)"
  using both_topologies.agree [OF assms] by (simp add: dfs_classifier_def)

theorem classifiers_agree_witness:
  "classify_topology_inline [1, 2, 3] [(1, 2), (2, 3), (3, 1)] =
     t_topology (classify_graph [1, 2, 3] [(1, 2), (2, 3), (3, 1)]) \<and>
   classify_topology_inline [1, 2, 3] [(1, 2), (2, 3), (1, 3)] = DAG"
proof -
  have "classify_topology_inline [1, 2, 3] [(1, 2), (2, 3), (1, 3)] = DAG" by code_simp
  with classifiers_agree [of "[1, 2, 3]" "[(1, 2), (2, 3), (3, 1)]"] show ?thesis by simp
qed

end
