(* ===== verification/Evidence_Validation.thy ===== *)
theory Evidence_Validation
  imports Task_Types
begin

text \<open>
  The anti-fabrication validation of \<open>src/services/evidence-validation.ts\<close>: every
  violation is reported, as one constructor per message.  An identity is a string or a
  number; comparisons go through the trimmed, lower-cased text.
\<close>

datatype ident = Id_text string | Id_num int

fun ident_text :: "ident \<Rightarrow> string" where
  "ident_text (Id_text s) = s"
| "ident_text (Id_num n) = string_of_int n"

record evidence_context =
  ctx_assignee :: "string option"
  ctx_assignee_user_id :: "ident option"
  ctx_caller_id :: "ident option"

datatype violation =
    Session_missing
  | Session_self_grading string
  | Session_is_assignee string
  | Session_is_assignee_user string
  | Session_is_caller string
  | Check_evidence_empty "string + nat"
  | Check_evidence_placeholder "string + nat" string
  | Pass_without_checks

definition self_grading_prefixes :: "string list" where
  "self_grading_prefixes = [''orchestrator'', ''self'', ''main-loop'']"

definition is_self_grading :: "string \<Rightarrow> bool" where
  "is_self_grading s \<longleftrightarrow> list_ex (\<lambda>p. starts_with p (to_lower s)) self_grading_prefixes"

definition placeholder_evidence_denylist :: "string list" where
  "placeholder_evidence_denylist = [''ok'', ''pass'', ''done'', ''n/a'', ''na'', ''tbd'']"

definition normalize_id :: "ident option \<Rightarrow> string option" where
  "normalize_id value =
     (case value of None \<Rightarrow> None
      | Some v \<Rightarrow> let s = trim (ident_text v) in if s = [] then None else Some s)"

definition session_violations :: "verification_evidence \<Rightarrow> evidence_context \<Rightarrow> violation list" where
  "session_violations e ctx =
     (let sessionId = (case verifier_session_id e of None \<Rightarrow> [] | Some s \<Rightarrow> trim s)
      in if sessionId = [] then [Session_missing]
         else
           let taskAssignee = normalize_id (map_option Id_text (ctx_assignee ctx));
               taskAssigneeUserId = normalize_id (ctx_assignee_user_id ctx);
               callerId = normalize_id (ctx_caller_id ctx);
               sessionKey = to_lower sessionId;
               equals = (\<lambda>i. case i of None \<Rightarrow> False | Some x \<Rightarrow> sessionKey = to_lower x)
           in (if is_self_grading sessionId then [Session_self_grading sessionId] else [])
              @ (if equals taskAssignee then [Session_is_assignee sessionId] else [])
              @ (if equals taskAssigneeUserId then [Session_is_assignee_user sessionId] else [])
              @ (if equals callerId then [Session_is_caller sessionId] else []))"

definition check_violations :: "nat \<Rightarrow> verification_check \<Rightarrow> violation list" where
  "check_violations idx c =
     (let text = trim (evidence_text c);
          label = (if check_name c \<noteq> [] then Inl (check_name c) else Inr idx)
      in if text = [] then [Check_evidence_empty label]
         else if to_lower text \<in> set placeholder_evidence_denylist
              then [Check_evidence_placeholder label text]
         else [])"

definition validate_verification_evidence ::
    "verification_evidence \<Rightarrow> evidence_context \<Rightarrow> violation list" where
  "validate_verification_evidence e ctx =
     session_violations e ctx
     @ (case checks e of None \<Rightarrow> []
        | Some cs \<Rightarrow> concat (map (\<lambda>(i, c). check_violations i c) (enumerate 0 cs)))
     @ (if verdict e = PASS \<and> (case checks e of None \<Rightarrow> True | Some cs \<Rightarrow> cs = [])
        then [Pass_without_checks] else [])"

section \<open>What an accepted envelope satisfies\<close>

text \<open>
  Two identities are the same principal when their trimmed texts agree up to letter case.
\<close>

definition same_principal :: "string \<Rightarrow> string \<Rightarrow> bool" where
  "same_principal a b \<longleftrightarrow> to_lower (trim a) = to_lower (trim b)"

definition concrete_evidence :: "verification_check \<Rightarrow> bool" where
  "concrete_evidence c \<longleftrightarrow>
     trim (evidence_text c) \<noteq> [] \<and> to_lower (trim (evidence_text c)) \<notin> set placeholder_evidence_denylist"

lemma normalize_id_matches:
  "x \<noteq> [] \<Longrightarrow> (case normalize_id i of None \<Rightarrow> False | Some y \<Rightarrow> to_lower x = to_lower y)
    \<longleftrightarrow> (\<exists>v. i = Some v \<and> to_lower x = to_lower (trim (ident_text v)))"
  by (auto simp: normalize_id_def Let_def to_lower_def split: option.splits)

lemma check_violations_Nil: "check_violations i c = [] \<longleftrightarrow> concrete_evidence c"
  by (simp add: check_violations_def concrete_evidence_def Let_def)

lemma session_violations_Nil:
  "session_violations e ctx = [] \<longleftrightarrow>
     (\<exists>s. verifier_session_id e = Some s \<and> trim s \<noteq> [] \<and> \<not> is_self_grading (trim s) \<and>
       (\<forall>a. ctx_assignee ctx = Some a \<longrightarrow> \<not> same_principal s a) \<and>
       (\<forall>i. ctx_assignee_user_id ctx = Some i \<longrightarrow> \<not> same_principal s (ident_text i)) \<and>
       (\<forall>i. ctx_caller_id ctx = Some i \<longrightarrow> \<not> same_principal s (ident_text i)))"
proof (cases "verifier_session_id e")
  case None
  then show ?thesis by (simp add: session_violations_def Let_def)
next
  case (Some s)
  show ?thesis
  proof (cases "trim s = []")
    case True
    with Some show ?thesis by (simp add: session_violations_def Let_def)
  next
    case False
    with Some show ?thesis
      by (auto simp: session_violations_def Let_def normalize_id_matches [OF False] same_principal_def)
  qed
qed

text \<open>
  The strict gate accepts an envelope exactly when a verifier session is named that does
  not look like the loop grading itself and is neither the assignee, nor the assignee's
  user id, nor the caller (trimmed, case-insensitive), every check carries concrete
  evidence, and a PASS has at least one check.
\<close>

theorem validate_verification_evidence_iff:
  "validate_verification_evidence e ctx = [] \<longleftrightarrow>
     (\<exists>s. verifier_session_id e = Some s \<and> trim s \<noteq> [] \<and> \<not> is_self_grading (trim s) \<and>
       (\<forall>a. ctx_assignee ctx = Some a \<longrightarrow> \<not> same_principal s a) \<and>
       (\<forall>i. ctx_assignee_user_id ctx = Some i \<longrightarrow> \<not> same_principal s (ident_text i)) \<and>
       (\<forall>i. ctx_caller_id ctx = Some i \<longrightarrow> \<not> same_principal s (ident_text i))) \<and>
     (\<forall>cs. checks e = Some cs \<longrightarrow> list_all concrete_evidence cs) \<and>
     (verdict e = PASS \<longrightarrow> (\<exists>c cs. checks e = Some (c # cs)))"
proof -
  have enum: "concat (map (\<lambda>(i, c). check_violations i c) (enumerate n cs)) = []
      \<longleftrightarrow> list_all concrete_evidence cs" for n cs
    by (induction cs arbitrary: n) (auto simp: check_violations_Nil)
  have pass: "(case checks e of None \<Rightarrow> True | Some cs \<Rightarrow> cs = []) \<longleftrightarrow> \<not> (\<exists>c cs. checks e = Some (c # cs))"
    by (auto split: option.splits) (metis neq_Nil_conv)
  have each: "(case checks e of None \<Rightarrow> []
        | Some cs \<Rightarrow> concat (map (\<lambda>(i, c). check_violations i c) (enumerate 0 cs))) = []
      \<longleftrightarrow> (\<forall>cs. checks e = Some cs \<longrightarrow> list_all concrete_evidence cs)"
    by (cases "checks e") (simp_all only: option.case enum, simp_all)
  have verdict: "(if verdict e = PASS \<and> b then [Pass_without_checks] else []) = [] \<longleftrightarrow>
      (verdict e = PASS \<longrightarrow> \<not> b)" for b by simp
  show ?thesis
    unfolding validate_verification_evidence_def append_is_Nil_conv session_violations_Nil
      pass each verdict by blast
qed

theorem validate_verification_evidence_iff_witness:
  "validate_verification_evidence
     \<lparr>verdict = PASS, checks = Some [\<lparr>check_name = ''unit'', check_result = Check_pass, evidence_text = ''12 tests''\<rparr>],
      verifier_session_id = Some '' verifier-9'', verifier_request_id = None, verified_at = None\<rparr>
     \<lparr>ctx_assignee = Some ''alice'', ctx_assignee_user_id = Some (Id_num 7), ctx_caller_id = None\<rparr> = []
   \<and> \<not> same_principal '' verifier-9'' ''alice''"
proof -
  let ?e = "\<lparr>verdict = PASS, checks = Some [\<lparr>check_name = ''unit'', check_result = Check_pass, evidence_text = ''12 tests''\<rparr>],
      verifier_session_id = Some '' verifier-9'', verifier_request_id = None, verified_at = None\<rparr>"
  let ?ctx = "\<lparr>ctx_assignee = Some ''alice'', ctx_assignee_user_id = Some (Id_num 7), ctx_caller_id = None\<rparr>"
  have ok: "validate_verification_evidence ?e ?ctx = []" by code_simp
  with validate_verification_evidence_iff [of ?e ?ctx] show ?thesis by simp
qed

end
