(* ===== verification/Wsjf_Score.thy ===== *)
theory Wsjf_Score
  imports Task_Types
begin

text \<open>
  The deterministic scoring functions of \<open>src/services/wsjf.service.ts\<close>: the piecewise
  maps into Fibonacci tiers, the WSJF ratio, the gate every submitted or manual score
  passes, and the redundant scoring with its ordinal median.  The ratio is an exact
  rational here; the source's double rounds it.
\<close>

section \<open>Piecewise maps into tiers\<close>

fun first_tier :: "rat \<Rightarrow> fib list \<Rightarrow> fib" where
  "first_tier n [] = F13"
| "first_tier n (t # ts) = (if n \<le> of_int (fib_val t) then t else first_tier n ts)"

definition fib_clamp :: "rat \<Rightarrow> fib" where
  "fib_clamp n = first_tier n FIB"

definition tc_from_days_until :: "int \<Rightarrow> fib" where
  "tc_from_days_until days =
     (if days \<le> 0 then F13 else if days \<le> 7 then F8 else if days \<le> 90 then F5
      else if days \<le> 180 then F3 else if days \<le> 365 then F2 else F1)"

fun tc_from_decay_class :: "decay_class \<Rightarrow> fib" where
  "tc_from_decay_class Flat = F1"
| "tc_from_decay_class Slow = F3"
| "tc_from_decay_class Fast = F5"

definition rr_from_fanout :: "int \<Rightarrow> fib" where
  "rr_from_fanout n =
     (if n \<le> 0 then F1 else if n = 1 then F3 else if n \<le> 3 then F5
      else if n \<le> 7 then F8 else F13)"

fun rr_from_severity :: "severity_class \<Rightarrow> fib" where
  "rr_from_severity Sev_none = F1"
| "rr_from_severity Sev_tech_debt = F3"
| "rr_from_severity Sev_security = F8"
| "rr_from_severity Sev_data_loss = F8"
| "rr_from_severity Sev_compliance = F8"

fun minutes_to_tier :: "int option \<Rightarrow> fib" where
  "minutes_to_tier None = F3"
| "minutes_to_tier (Some minutes) =
     (if minutes \<le> 15 then F1 else if minutes \<le> 30 then F2 else if minutes \<le> 60 then F3
      else if minutes \<le> 240 then F5 else if minutes \<le> 960 then F8 else F13)"

definition typo_keywords :: "string list" where
  "typo_keywords = [''typo'', ''config'', ''copy'']"

definition heavy_keywords :: "string list" where
  "heavy_keywords = [''refactor'', ''migrate'', ''rewrite'', ''new subsystem'']"

definition job_size_band :: "int option \<Rightarrow> string \<Rightarrow> fib \<times> fib" where
  "job_size_band filesTouched text =
     (case filesTouched of
        Some f \<Rightarrow> if f \<le> 1 then (F1, F2) else if f \<le> 3 then (F2, F5)
                 else if f \<le> 8 then (F5, F8) else (F8, F13)
      | None \<Rightarrow>
          let lower = to_lower text
          in if list_ex (str_includes lower) typo_keywords then (F1, F3)
             else if list_ex (str_includes lower) heavy_keywords then (F8, F13)
             else (F1, F13))"

fun index_of :: "'a \<Rightarrow> 'a list \<Rightarrow> int" where
  "index_of x [] = -1"
| "index_of x (y # ys) =
     (if x = y then 0 else let i = index_of x ys in if i < 0 then -1 else i + 1)"

definition fib_ordinal :: "fib \<Rightarrow> int" where
  "fib_ordinal f = index_of f FIB"

definition fib_at :: "int \<Rightarrow> fib option" where
  "fib_at i = (if 0 \<le> i \<and> i < int (length FIB) then Some (FIB ! nat i) else None)"

definition one_step_down :: "fib \<Rightarrow> fib" where
  "one_step_down weight =
     (let idx = fib_ordinal weight
      in if idx \<le> 0 then F1
         else case fib_at (idx - 1) of None \<Rightarrow> F1 | Some lower \<Rightarrow> lower)"

fun ubv_from_theme_alignment :: "fib \<Rightarrow> alignment_class \<Rightarrow> fib" where
  "ubv_from_theme_alignment weight Align_core = weight"
| "ubv_from_theme_alignment weight Align_direct = one_step_down weight"
| "ubv_from_theme_alignment weight Align_weak = one_step_down (one_step_down weight)"
| "ubv_from_theme_alignment weight Align_none = F1"

section \<open>The ratio\<close>

definition compute_wsjf :: "components \<Rightarrow> rat" where
  "compute_wsjf c =
     (let denominator = max (fib_val (c_job c)) 1
      in of_int (fib_val (c_value c) + fib_val (c_time c) + fib_val (c_risk c)) / of_int denominator)"

fun priority_fallback_score :: "priority \<Rightarrow> rat" where
  "priority_fallback_score Urgent = 9"
| "priority_fallback_score High = 6"
| "priority_fallback_score Medium = 3"
| "priority_fallback_score Low = 1"

section \<open>The submission gate\<close>

text \<open>A charter's themes carry a name, a description and a weight.\<close>

record theme =
  th_name :: string
  th_description :: string
  th_weight :: fib

record charter =
  mission :: string
  time_context :: string
  risk_posture :: string
  value_themes :: "theme list"

datatype score_error =
    Theme_without_charter string
  | Theme_missing
  | Theme_unknown string
  | Span_not_verbatim component_key
  | Tier_outside_band fib fib fib
  | Contradiction
  | Batch_no_anchor component_key
  | Batch_low_variance component_key

record validate_context =
  ctx_charter :: "charter option"
  ctx_source_text :: "string option"
  ctx_batch :: "components list option"

definition check_component_contradictions :: "components \<Rightarrow> score_error list" where
  "check_component_contradictions c =
     (if c_job c = F1 \<and> c_value c = F13 then [Contradiction] else [])"

text \<open>
  \<open>validateManualScore\<close> on an input whose four components passed the schema; the type
  \<^typ>\<open>components\<close> is the schema's range.
\<close>

definition validate_manual_score :: "components \<Rightarrow> score_error list + components" where
  "validate_manual_score c =
     (let errors = check_component_contradictions c
      in if errors \<noteq> [] then Inl errors else Inr c)"

definition cod_columns :: "component_key list" where
  "cod_columns = [K_value, K_time, K_risk]"

definition variance_floor :: rat where
  "variance_floor = 1 / 2"

definition population_variance :: "rat list \<Rightarrow> rat" where
  "population_variance xs =
     (if xs = [] then 0
      else let mean = sum_list xs / of_nat (length xs)
           in sum_list (map (\<lambda>b. (b - mean) * (b - mean)) xs) / of_nat (length xs))"

definition ubv_for :: "classification \<Rightarrow> charter option \<Rightarrow> fib" where
  "ubv_for cl ch =
     (let weight = (case ch of
            None \<Rightarrow> F1
          | Some c \<Rightarrow> (case theme_name cl of
                None \<Rightarrow> F1
              | Some nm \<Rightarrow> (case find (\<lambda>t. th_name t = nm) (value_themes c) of
                    None \<Rightarrow> F1
                  | Some t \<Rightarrow> th_weight t)))
      in ubv_from_theme_alignment weight (alignment cl))"

definition theme_errors :: "classification \<Rightarrow> charter option \<Rightarrow> score_error list" where
  "theme_errors cl ch =
     (case ch of
        None \<Rightarrow> (case theme_name cl of None \<Rightarrow> [] | Some nm \<Rightarrow> [Theme_without_charter nm])
      | Some c \<Rightarrow> (case theme_name cl of
            None \<Rightarrow> [Theme_missing]
          | Some nm \<Rightarrow> if list_ex (\<lambda>t. th_name t = nm) (value_themes c) then []
                       else [Theme_unknown nm]))"

definition newline :: string where
  "newline = [CHR 0x0A]"

fun join_with :: "string \<Rightarrow> string list \<Rightarrow> string" where
  "join_with sep [] = []"
| "join_with sep [s] = s"
| "join_with sep (s # t # ts) = s @ sep @ join_with sep (t # ts)"

definition charter_text :: "charter option \<Rightarrow> string" where
  "charter_text ch =
     (case ch of None \<Rightarrow> ''''
      | Some c \<Rightarrow> join_with newline
          ([mission c, time_context c, risk_posture c] @
           concat (map (\<lambda>t. [th_name t, th_description t]) (value_themes c))))"

definition evidence_errors :: "classification \<Rightarrow> string \<Rightarrow> score_error list" where
  "evidence_errors cl source =
     map Span_not_verbatim
       (filter (\<lambda>k. \<not> str_includes source (comp_get k (cl_evidence cl))) [K_value, K_time, K_risk, K_job])"

definition band_errors :: "classification \<Rightarrow> features \<Rightarrow> string \<Rightarrow> score_error list" where
  "band_errors cl ft text =
     (case job_size_band (files_touched ft) text of
        (low, high) \<Rightarrow>
          if job_size_tier cl < low \<or> high < job_size_tier cl
          then [Tier_outside_band (job_size_tier cl) low high] else [])"

definition server_components :: "classification \<Rightarrow> features \<Rightarrow> charter option \<Rightarrow> components" where
  "server_components cl ft ch =
     \<lparr>c_value = ubv_for cl ch,
      c_time = (case days_until_deadline ft of
                  Some d \<Rightarrow> tc_from_days_until d
                | None \<Rightarrow> tc_from_decay_class (case decay cl of None \<Rightarrow> Flat | Some d \<Rightarrow> d)),
      c_risk = max (rr_from_fanout (transitive_dependents ft)) (rr_from_severity (severity cl)),
      c_job = job_size_tier cl\<rparr>"

definition batch_errors :: "components list option \<Rightarrow> score_error list" where
  "batch_errors batch =
     (case batch of None \<Rightarrow> []
      | Some cs \<Rightarrow> concat (map (\<lambda>col.
          let vals = map (comp_get col) cs
          in (if F1 \<in> set vals then [] else [Batch_no_anchor col]) @
             (if population_variance (map (\<lambda>f. of_int (fib_val f)) vals) < variance_floor
              then [Batch_low_variance col] else [])) cod_columns))"

text \<open>\<open>validateScoreSubmission\<close> after the structural parse of the submission.\<close>

definition validate_score_submission ::
    "classification \<Rightarrow> features \<Rightarrow> validate_context \<Rightarrow> score_error list + components" where
  "validate_score_submission cl ft ctx =
     (let text = (case ctx_source_text ctx of None \<Rightarrow> '''' | Some s \<Rightarrow> s);
          source = text @ newline @ charter_text (ctx_charter ctx);
          cs = server_components cl ft (ctx_charter ctx);
          errors = theme_errors cl (ctx_charter ctx)
                 @ evidence_errors cl source
                 @ band_errors cl ft text
                 @ check_component_contradictions cs
                 @ batch_errors (ctx_batch ctx)
      in if errors \<noteq> [] then Inl errors else Inr cs)"

section \<open>Redundant scoring\<close>

definition component_keys :: "component_key list" where
  "component_keys = [K_value, K_time, K_risk, K_job]"

datatype median_error = Empty_sample | Ordinal_outside

definition fib_median_bucket :: "fib list \<Rightarrow> median_error + fib" where
  "fib_median_bucket samples =
     (if samples = [] then Inl Empty_sample
      else let ordinals = sort (map fib_ordinal samples);
               mid = (length ordinals - 1) div 2
           in case fib_at (ordinals ! mid) of None \<Rightarrow> Inl Ordinal_outside | Some t \<Rightarrow> Inr t)"

definition aggregate_samples :: "components list \<Rightarrow> median_error + components" where
  "aggregate_samples samples =
     (if samples = [] then Inl Empty_sample
      else bind_result (fib_median_bucket (map c_value samples)) (\<lambda>v.
           bind_result (fib_median_bucket (map c_time samples)) (\<lambda>t.
           bind_result (fib_median_bucket (map c_risk samples)) (\<lambda>r.
           bind_result (fib_median_bucket (map c_job samples)) (\<lambda>j.
             Inr \<lparr>c_value = v, c_time = t, c_risk = r, c_job = j\<rparr>)))))"

definition component_spread :: "components list \<Rightarrow> component_key \<Rightarrow> int" where
  "component_spread samples k =
     (if samples = [] then 0
      else let ords = map (\<lambda>s. fib_ordinal (comp_get k s)) samples
           in foldl max (hd ords) (tl ords) - foldl min (hd ords) (tl ords))"

definition disagreeing_components :: "components list \<Rightarrow> int \<Rightarrow> component_key list" where
  "disagreeing_components samples tol =
     filter (\<lambda>k. component_spread samples k > tol) component_keys"

definition is_high_stakes :: "bool \<Rightarrow> bool \<Rightarrow> bool" where
  "is_high_stakes topOfFrontier undecided \<longleftrightarrow> topOfFrontier \<or> undecided"

record redundant_result =
  r_components :: components
  r_escalated :: bool
  r_low_confidence :: "component_key list"
  r_samples :: "components list"

text \<open>
  \<open>redundantScore\<close>: the sampler is the stream of the components its calls return, of
  which the first \<open>max 1 n\<close> are taken; the verifier is the components its one call
  returns, or \<open>None\<close> when no verifier is wired.
\<close>

definition redundant_score ::
    "(nat \<Rightarrow> components) \<Rightarrow> components option \<Rightarrow> nat \<Rightarrow> int \<Rightarrow> median_error + redundant_result" where
  "redundant_score sampler verify n tol =
     (let samples = map sampler [0..<max 1 n]
      in bind_result (aggregate_samples samples) (\<lambda>aggregate.
        let disagree = disagreeing_components samples tol;
            contra = check_component_contradictions aggregate \<noteq> []
        in if \<not> (disagree \<noteq> [] \<or> contra)
           then Inr \<lparr>r_components = aggregate, r_escalated = False, r_low_confidence = [], r_samples = samples\<rparr>
           else case verify of
             None \<Rightarrow> Inr \<lparr>r_components = aggregate, r_escalated = False,
                          r_low_confidence = disagree, r_samples = samples\<rparr>
           | Some v \<Rightarrow>
               let underReview = (if contra then component_keys else disagree);
                   low = filter (\<lambda>k. \<bar>fib_ordinal (comp_get k v) - fib_ordinal (comp_get k aggregate)\<bar> > tol)
                           underReview;
                   low = sort_key (\<lambda>k. index_of k component_keys) low
               in Inr \<lparr>r_components = aggregate, r_escalated = True,
                       r_low_confidence = low, r_samples = samples\<rparr>))"

section \<open>Propagation of a value prior\<close>

record value_prior =
  vp_value :: fib
  vp_theme_name :: "string option"
  vp_human_anchored :: bool

definition derive_propagated_value_prior :: "task \<Rightarrow> value_prior option" where
  "derive_propagated_value_prior parent =
     (case wsjf_value parent of
        None \<Rightarrow> None
      | Some v \<Rightarrow> Some
          \<lparr>vp_value = v,
           vp_theme_name = (case wsjf_classifications_col parent of None \<Rightarrow> None | Some cl \<Rightarrow> theme_name cl),
           vp_human_anchored = (case wsjf_source_col parent of None \<Rightarrow> False | Some s \<Rightarrow> c_value s = Manual)\<rparr>)"

section \<open>Tiers and ordinals\<close>

lemma fib_le_iff [simp]:
  "F1 \<le> f" "f \<le> F13"
  by (cases f; simp add: less_eq_fib_def)+

lemma fib_ordinal_simps [simp]:
  "fib_ordinal F1 = 0" "fib_ordinal F2 = 1" "fib_ordinal F3 = 2"
  "fib_ordinal F5 = 3" "fib_ordinal F8 = 4" "fib_ordinal F13 = 5"
  by (simp_all add: fib_ordinal_def FIB_def Let_def)

lemma fib_ordinal_range: "0 \<le> fib_ordinal f \<and> fib_ordinal f < 6"
  by (cases f) auto

lemma fib_at_ordinal [simp]: "fib_at (fib_ordinal f) = Some f"
  by (cases f) (auto simp: fib_at_def FIB_def)

lemma fib_ordinal_mono: "fib_ordinal a \<le> fib_ordinal b \<longleftrightarrow> a \<le> b"
  by (cases a; cases b) (auto simp: less_eq_fib_def)

lemma first_tier_least:
  "sorted ts \<Longrightarrow> t \<in> set ts \<Longrightarrow> n \<le> of_int (fib_val t) \<Longrightarrow>
    n \<le> of_int (fib_val (first_tier n ts)) \<and> first_tier n ts \<le> t"
  by (induction n ts rule: first_tier.induct) auto

lemma sorted_FIB [simp]: "sorted FIB"
  by (simp add: FIB_def less_eq_fib_def)

text \<open>
  \<open>fibClamp\<close> rounds up: for a number that is at most some tier, the result is the
  least tier not below it; for a number above every tier it is 13.
\<close>

theorem fib_clamp_rounds_up:
  "(n \<le> of_int (fib_val t) \<longrightarrow> n \<le> of_int (fib_val (fib_clamp n)) \<and> fib_clamp n \<le> t) \<and>
   (13 < n \<longrightarrow> fib_clamp n = F13)"
proof -
  have "13 < n \<longrightarrow> fib_clamp n = F13" by (simp add: fib_clamp_def FIB_def)
  with first_tier_least [of FIB t n] show ?thesis by (simp add: fib_clamp_def)
qed

theorem fib_clamp_rounds_up_witness:
  "(4::rat) \<le> of_int (fib_val F8) \<and> fib_clamp 4 = F5 \<and> fib_clamp 4 \<le> F8 \<and> fib_clamp 20 = F13"
  using fib_clamp_rounds_up [of 4 F8] fib_clamp_rounds_up [of 20 F8]
  by (simp add: fib_clamp_def FIB_def)

lemma one_step_down_le: "one_step_down f \<le> f"
  by (cases f) (auto simp: one_step_down_def fib_at_def FIB_def less_eq_fib_def)

lemma one_step_down_mono: "a \<le> b \<Longrightarrow> one_step_down a \<le> one_step_down b"
  by (cases a; cases b) (auto simp: one_step_down_def fib_at_def FIB_def less_eq_fib_def)

lemma ubv_le_weight: "ubv_from_theme_alignment w a \<le> w"
  by (cases a) (auto intro: one_step_down_le order_trans [OF one_step_down_le])

lemma minutes_to_tier_mono: "a \<le> b \<Longrightarrow> minutes_to_tier (Some a) \<le> minutes_to_tier (Some b)"
  by (auto simp: less_eq_fib_def)

lemma job_size_band_ordered: "fst (job_size_band ft text) \<le> snd (job_size_band ft text)"
  by (auto simp: job_size_band_def Let_def less_eq_fib_def split: option.splits)

section \<open>The ratio\<close>

text \<open>
  A WSJF ratio is between 3/13 and 39, whatever the four tiers are, and one tier more
  in a numerator component never lowers it, one tier more of job size never raises it.
\<close>

theorem compute_wsjf_bounds:
  "3 / 13 \<le> compute_wsjf c \<and> compute_wsjf c \<le> 39 \<and>
   (c_value c \<le> v \<longrightarrow> compute_wsjf c \<le> compute_wsjf (c\<lparr>c_value := v\<rparr>)) \<and>
   (c_job c \<le> j \<longrightarrow> compute_wsjf (c\<lparr>c_job := j\<rparr>) \<le> compute_wsjf c)"
proof -
  let ?num = "of_int (fib_val (c_value c) + fib_val (c_time c) + fib_val (c_risk c)) :: rat"
  have num: "3 \<le> ?num" "?num \<le> 39"
    using fib_val_pos [of "c_value c"] fib_val_pos [of "c_time c"] fib_val_pos [of "c_risk c"]
    by linarith+
  have den: "max (fib_val f) 1 = fib_val f" "(0::rat) < of_int (fib_val f)" "(1::rat) \<le> of_int (fib_val f)"
    "of_int (fib_val f) \<le> (13::rat)" for f
    using fib_val_pos [of f] by (simp_all add: of_int_le_numeral_iff)
  have wsjf: "compute_wsjf d = of_int (fib_val (c_value d) + fib_val (c_time d) + fib_val (c_risk d)) / of_int (fib_val (c_job d))" for d
    by (simp add: compute_wsjf_def den(1))
  have "3 / 13 \<le> compute_wsjf c"
    unfolding wsjf using num den(2-4)[of "c_job c"] by (intro frac_le) auto
  moreover have "compute_wsjf c \<le> 39"
    unfolding wsjf using num den(2-4)[of "c_job c"] frac_le [of 39 ?num 1 "of_int (fib_val (c_job c))"] by simp
  moreover have "c_value c \<le> v \<longrightarrow> compute_wsjf c \<le> compute_wsjf (c\<lparr>c_value := v\<rparr>)"
    unfolding wsjf using den(2)[of "c_job c"]
    by (auto simp: less_eq_fib_def intro!: divide_right_mono)
  moreover have "c_job c \<le> j \<longrightarrow> compute_wsjf (c\<lparr>c_job := j\<rparr>) \<le> compute_wsjf c"
    unfolding wsjf using num den(2)[of "c_job c"] den(2)[of j]
    by (auto simp: less_eq_fib_def intro!: divide_left_mono)
  ultimately show ?thesis by blast
qed

theorem compute_wsjf_bounds_witness:
  "let c = \<lparr>c_value = F5, c_time = F3, c_risk = F2, c_job = F5\<rparr> in
   compute_wsjf c = 2 \<and> compute_wsjf c \<le> compute_wsjf (c\<lparr>c_value := F8\<rparr>) \<and>
   compute_wsjf (c\<lparr>c_job := F13\<rparr>) \<le> compute_wsjf c"
  using compute_wsjf_bounds [of "\<lparr>c_value = F5, c_time = F3, c_risk = F2, c_job = F5\<rparr>" F8 F13]
  by (simp add: compute_wsjf_def less_eq_fib_def)

section \<open>The gate\<close>

definition theme_admissible :: "classification \<Rightarrow> charter option \<Rightarrow> bool" where
  "theme_admissible cl ch \<longleftrightarrow>
     (case ch of None \<Rightarrow> theme_name cl = None
      | Some c \<Rightarrow> \<exists>t\<in>set (value_themes c). theme_name cl = Some (th_name t))"

definition batch_anchored :: "components list option \<Rightarrow> bool" where
  "batch_anchored batch \<longleftrightarrow>
     (\<forall>cs col. batch = Some cs \<longrightarrow> col \<in> {K_value, K_time, K_risk} \<longrightarrow>
        (\<exists>c\<in>set cs. comp_get col c = F1) \<and>
        1 / 2 \<le> population_variance (map (\<lambda>c. of_int (fib_val (comp_get col c))) cs))"

lemma theme_errors_Nil: "theme_errors cl ch = [] \<longleftrightarrow> theme_admissible cl ch"
  by (auto simp: theme_errors_def theme_admissible_def list_ex_iff split: option.splits)

lemma evidence_errors_Nil:
  "evidence_errors cl source = [] \<longleftrightarrow> (\<forall>k. \<exists>a b. source = a @ comp_get k (cl_evidence cl) @ b)"
proof -
  have keys: "k \<in> set [K_value, K_time, K_risk, K_job]" for k by (cases k) auto
  show ?thesis
    unfolding evidence_errors_def map_is_Nil_conv filter_empty_conv str_includes_iff
    using keys by blast
qed

lemma band_errors_Nil:
  "band_errors cl ft text = [] \<longleftrightarrow>
     fst (job_size_band (files_touched ft) text) \<le> job_size_tier cl \<and>
     job_size_tier cl \<le> snd (job_size_band (files_touched ft) text)"
  by (auto simp: band_errors_def not_less split: prod.splits)

lemma batch_errors_Nil: "batch_errors batch = [] \<longleftrightarrow> batch_anchored batch"
proof (cases batch)
  case None
  then show ?thesis by (simp add: batch_errors_def batch_anchored_def)
next
  case (Some cs)
  have "batch_errors batch = [] \<longleftrightarrow> (\<forall>col\<in>{K_value, K_time, K_risk}.
      F1 \<in> set (map (comp_get col) cs) \<and>
      \<not> population_variance (map (\<lambda>f. of_int (fib_val f)) (map (comp_get col) cs)) < variance_floor)"
    by (simp add: Some batch_errors_def cod_columns_def Let_def)
  moreover have "F1 \<in> set (map f cs) \<longleftrightarrow> (\<exists>c\<in>set cs. f c = F1)" for f
    unfolding set_map image_iff by metis
  moreover have "batch_anchored batch \<longleftrightarrow> (\<forall>col\<in>{K_value, K_time, K_risk}.
      (\<exists>c\<in>set cs. comp_get col c = F1) \<and>
      1 / 2 \<le> population_variance (map (\<lambda>c. of_int (fib_val (comp_get col c))) cs))"
    unfolding batch_anchored_def Some by blast
  ultimately show ?thesis
    by (simp only: map_map comp_def not_less variance_floor_def)
qed

lemma contradictions_Nil:
  "check_component_contradictions c = [] \<longleftrightarrow> \<not> (c_job c = F1 \<and> c_value c = F13)"
  by (simp add: check_component_contradictions_def)

text \<open>
  The gate accepts a submission exactly when its theme is one of the charter's (or
  null without a charter), each of its four evidence spans is a contiguous part of the
  source and charter text, its job size lies in the deterministic band, the recomputed
  components do not contradict each other, and a batch, when there is one, has in every
  cost-of-delay column a tier-1 anchor and a variance of at least 1/2.  What it returns
  are the components the server computes, never numbers of the client.
\<close>

theorem validate_score_submission_iff:
  "validate_score_submission cl ft ctx = Inr cs \<longleftrightarrow>
     (let text = (case ctx_source_text ctx of None \<Rightarrow> '''' | Some s \<Rightarrow> s);
          source = text @ newline @ charter_text (ctx_charter ctx)
      in cs = server_components cl ft (ctx_charter ctx) \<and>
         theme_admissible cl (ctx_charter ctx) \<and>
         (\<forall>k. \<exists>a b. source = a @ comp_get k (cl_evidence cl) @ b) \<and>
         fst (job_size_band (files_touched ft) text) \<le> job_size_tier cl \<and>
         job_size_tier cl \<le> snd (job_size_band (files_touched ft) text) \<and>
         \<not> (c_job cs = F1 \<and> c_value cs = F13) \<and>
         batch_anchored (ctx_batch ctx))"
proof -
  have accept: "(if e \<noteq> [] then Inl e else Inr x) = Inr y \<longleftrightarrow> e = [] \<and> y = x"
    for e :: "score_error list" and x y :: components by auto
  show ?thesis
    unfolding validate_score_submission_def Let_def accept
    unfolding append_is_Nil_conv
      theme_errors_Nil evidence_errors_Nil band_errors_Nil batch_errors_Nil contradictions_Nil
    by blast
qed

definition sample_submission :: classification where
  "sample_submission =
     \<lparr>theme_name = Some ''speed'', alignment = Align_core, severity = Sev_security, decay = None,
      job_size_tier = F2, cl_evidence = \<lparr>c_value = ''fast'', c_time = ''now'', c_risk = ''a'', c_job = ''''\<rparr>\<rparr>"

definition sample_features :: features where
  "sample_features =
     \<lparr>deadline_date = None, days_until_deadline = Some 3, transitive_dependents = 2,
      files_touched = Some 1, charter_version = None\<rparr>"

definition sample_context :: validate_context where
  "sample_context =
     \<lparr>ctx_charter = Some \<lparr>mission = ''m'', time_context = '''', risk_posture = '''',
        value_themes = [\<lparr>th_name = ''speed'', th_description = ''d'', th_weight = F8\<rparr>]\<rparr>,
      ctx_source_text = Some ''a fast fix now'', ctx_batch = None\<rparr>"

lemma sample_submission_accepted:
  "validate_score_submission sample_submission sample_features sample_context =
     Inr \<lparr>c_value = F8, c_time = F8, c_risk = F8, c_job = F2\<rparr>"
  by code_simp

section \<open>The ordinal median\<close>

lemma sorted_nth_counts:
  assumes "sorted xs" and "m < length xs"
  shows "Suc m \<le> length (filter (\<lambda>x. x \<le> xs ! m) xs)"
    and "length xs - m \<le> length (filter (\<lambda>x. xs ! m \<le> x) xs)"
proof -
  have "filter (\<lambda>x. x \<le> xs ! m) (take (Suc m) xs) = take (Suc m) xs"
  proof (intro filter_True ballI)
    fix x
    assume "x \<in> set (take (Suc m) xs)"
    then obtain i where "i \<le> m" and "x = xs ! i"
      by (auto simp: in_set_conv_nth less_Suc_eq_le)
    with assms show "x \<le> xs ! m" by (simp add: sorted_nth_mono)
  qed
  then have "length (filter (\<lambda>x. x \<le> xs ! m) xs) = Suc m + length (filter (\<lambda>x. x \<le> xs ! m) (drop (Suc m) xs))"
    using assms(2) by (metis append_take_drop_id filter_append length_append length_take min_absorb2 Suc_leI)
  then show "Suc m \<le> length (filter (\<lambda>x. x \<le> xs ! m) xs)" by simp
  have "filter (\<lambda>x. xs ! m \<le> x) (drop m xs) = drop m xs"
  proof (intro filter_True ballI)
    fix x
    assume "x \<in> set (drop m xs)"
    then obtain i where "m + i < length xs" and "x = xs ! (m + i)"
      by (force simp: in_set_conv_nth less_diff_conv add.commute)
    with assms show "xs ! m \<le> x" by (simp add: sorted_nth_mono)
  qed
  then have "length (filter (\<lambda>x. xs ! m \<le> x) xs) = length (filter (\<lambda>x. xs ! m \<le> x) (take m xs)) + (length xs - m)"
    by (metis append_take_drop_id filter_append length_append length_drop)
  then show "length xs - m \<le> length (filter (\<lambda>x. xs ! m \<le> x) xs)" by simp
qed

lemma length_filter_sort_map:
  "length (filter P (sort (map f xs))) = length (filter (\<lambda>x. P (f x)) xs)"
  by (simp add: filter_sort filter_map comp_def)

lemma fib_median_bucket_member:
  assumes "samples \<noteq> []"
  obtains t where "fib_median_bucket samples = Inr t" and "t \<in> set samples"
    and "sort (map fib_ordinal samples) ! ((length samples - 1) div 2) = fib_ordinal t"
    and "(length samples - 1) div 2 < length (sort (map fib_ordinal samples))"
proof -
  let ?ords = "sort (map fib_ordinal samples)" and ?m = "(length samples - 1) div 2"
  have "0 < length samples" using assms by simp
  then have "?m < length samples" by linarith
  then have m: "?m < length ?ords" by simp
  then have "?ords ! ?m \<in> set ?ords" by (rule nth_mem)
  then obtain t where t: "t \<in> set samples" "?ords ! ?m = fib_ordinal t" by auto
  then have "fib_median_bucket samples = Inr t"
    using assms by (simp add: fib_median_bucket_def)
  with t m show ?thesis by (intro that)
qed

text \<open>
  On a non-empty sample the median never invents a tier: it returns one of the sampled
  tiers, with at least half of the sample at or below it and at least half at or above it.
\<close>

theorem fib_median_bucket_correct:
  "samples \<noteq> [] \<Longrightarrow> \<exists>t. fib_median_bucket samples = Inr t \<and> t \<in> set samples \<and>
     length samples \<le> 2 * length (filter (\<lambda>s. s \<le> t) samples) \<and>
     length samples \<le> 2 * length (filter (\<lambda>s. t \<le> s) samples)"
proof -
  assume "samples \<noteq> []"
  then obtain t where t: "fib_median_bucket samples = Inr t" "t \<in> set samples"
    "sort (map fib_ordinal samples) ! ((length samples - 1) div 2) = fib_ordinal t"
    "(length samples - 1) div 2 < length (sort (map fib_ordinal samples))"
    by (rule fib_median_bucket_member)
  note counts = sorted_nth_counts [OF sorted_sort t(4), unfolded length_filter_sort_map t(3) fib_ordinal_mono]
  then have "length samples \<le> 2 * length (filter (\<lambda>s. s \<le> t) samples)"
    and "length samples \<le> 2 * length (filter (\<lambda>s. t \<le> s) samples)" by simp_all
  with t(1,2) show ?thesis by blast
qed

theorem fib_median_bucket_correct_witness:
  "[F5, F13, F2, F8] \<noteq> [] \<and> fib_median_bucket [F5, F13, F2, F8] = Inr F5"
  using fib_median_bucket_correct [of "[F5, F13, F2, F8]"]
  by (auto simp: fib_median_bucket_def Let_def fib_at_def FIB_def)

lemma aggregate_samples_total: "samples \<noteq> [] \<Longrightarrow> \<exists>c. aggregate_samples samples = Inr c"
proof -
  assume ne: "samples \<noteq> []"
  have "\<exists>t. fib_median_bucket (map f samples) = Inr t" for f
    using fib_median_bucket_member [of "map f samples"] ne by (metis map_is_Nil_conv)
  then obtain v t r j where "fib_median_bucket (map c_value samples) = Inr v"
    "fib_median_bucket (map c_time samples) = Inr t" "fib_median_bucket (map c_risk samples) = Inr r"
    "fib_median_bucket (map c_job samples) = Inr j" by meson
  with ne show ?thesis by (simp add: aggregate_samples_def)
qed

text \<open>
  Redundant scoring always returns a result for its non-empty sample: the aggregate of
  the first \<open>max 1 n\<close> samples.  It escalates exactly when a verifier is wired and the samples
  spread beyond the tolerance on some component or the aggregate contradicts itself, and a
  component is marked low-confidence only if it was under review.
\<close>

theorem redundant_score_total:
  "\<exists>res. redundant_score sampler verify n tol = Inr res \<and>
     r_samples res = map sampler [0..<max 1 n] \<and>
     aggregate_samples (r_samples res) = Inr (r_components res) \<and>
     r_escalated res = (verify \<noteq> None \<and>
       ((\<exists>k. component_spread (r_samples res) k > tol) \<or>
        c_job (r_components res) = F1 \<and> c_value (r_components res) = F13)) \<and>
     (\<forall>k\<in>set (r_low_confidence res).
        component_spread (r_samples res) k > tol \<or>
        c_job (r_components res) = F1 \<and> c_value (r_components res) = F13)"
proof -
  let ?s = "map sampler [0..<max 1 n]"
  have ne: "?s \<noteq> []" by simp
  obtain a where a: "aggregate_samples ?s = Inr a"
    using aggregate_samples_total [OF ne] by blast
  have keys: "k \<in> set component_keys" for k by (cases k) (auto simp: component_keys_def)
  have dis: "k \<in> set (disagreeing_components ?s tol) \<longleftrightarrow> component_spread ?s k > tol" for k
    using keys by (simp add: disagreeing_components_def)
  then have dis_ne: "disagreeing_components ?s tol \<noteq> [] \<longleftrightarrow> (\<exists>k. component_spread ?s k > tol)"
    by (metis all_not_in_conv set_empty)
  show ?thesis
    unfolding redundant_score_def Let_def a bind_result.simps contradictions_Nil not_not dis_ne
    using a dis by (cases verify) auto
qed

theorem redundant_score_total_witness:
  "let c = \<lparr>c_value = F13, c_time = F3, c_risk = F2, c_job = F1\<rparr> in
   \<exists>res. redundant_score (\<lambda>_. c) None 3 1 = Inr res \<and> \<not> r_escalated res"
  using redundant_score_total [of "\<lambda>_. \<lparr>c_value = F13, c_time = F3, c_risk = F2, c_job = F1\<rparr>" None 3 1]
  by (auto simp: Let_def)

theorem validate_score_submission_iff_witness:
  "validate_score_submission sample_submission sample_features sample_context =
     Inr \<lparr>c_value = F8, c_time = F8, c_risk = F8, c_job = F2\<rparr> \<and>
   theme_admissible sample_submission (ctx_charter sample_context)"
  using validate_score_submission_iff [of sample_submission sample_features sample_context
      "\<lparr>c_value = F8, c_time = F8, c_risk = F8, c_job = F2\<rparr>"] sample_submission_accepted
  by (simp add: Let_def)

end
