(* ===== verification/Service_Errors.thy ===== *)
theory Service_Errors
  imports Evidence_Validation Wsjf_Score Task_Store
begin

text \<open>
  The errors of \<open>src/services/errors.ts\<close> with one constructor for each message the services
  raise: a \<open>ValidationError\<close> with its field errors, a \<open>BusinessError\<close>, a \<open>NotFoundError\<close>, and
  the database errors that pass through.
\<close>

datatype entity = Task_entity | Project_entity | Dependency_entity

datatype validation_error =
    Schema_rejected
  | Self_dependency
  | Blocked_by_without_status
  | Evidence_rejected "violation list"
  | Decompose_unsized string
  | Minutes_conflict int fib fib
  | Manual_rejected "score_error list"
  | Search_syntax

datatype business_error =
    No_project id
  | No_parent id
  | Parent_other_project
  | Bad_transition status status
  | Would_cycle id id
  | Blocked_by_unwired
  | Not_claimable id status
  | Already_claimed id string
  | Concurrent_claim id
  | Renew_failed id
  | Cyclic_project id

datatype service_error =
    Validation_failed validation_error
  | Business_failed business_error
  | Not_found entity id
  | Db_failed db_error

fun lift_db :: "db_error + 'a \<Rightarrow> service_error + 'a" where
  "lift_db (Inl e) = Inl (Db_failed e)"
| "lift_db (Inr x) = Inr x"

lemma lift_db_Inr [simp]: "lift_db r = Inr x \<longleftrightarrow> r = Inr x"
  by (cases r) auto

end
