(* ===== verification/Dependency_Graph.thy ===== *)
theory Dependency_Graph
  imports Kahn Service_Errors
begin

text \<open>
  The dependency-graph endpoint of \<open>src/services/dependency-graph.service.ts\<close>: the tree of a
  project's tasks under their blockers, with a visited set per branch against cycles and a
  node counter against the blow-up of shared subtrees, and the same walk as box-drawing
  text.  A line of text is the list of its UTF-8 bytes.
\<close>

definition MAX_TREE_NODES :: nat where "MAX_TREE_NODES = 1000"

fun PRIORITY_WEIGHT :: "priority \<Rightarrow> int" where
  "PRIORITY_WEIGHT Urgent = 4"
| "PRIORITY_WEIGHT High = 3"
| "PRIORITY_WEIGHT Medium = 2"
| "PRIORITY_WEIGHT Low = 1"

fun STATUS_GLYPH :: "status \<Rightarrow> string" where
  "STATUS_GLYPH Open = [CHR 0xE2, CHR 0x97, CHR 0x8B]"
| "STATUS_GLYPH In_progress = [CHR 0xE2, CHR 0x97, CHR 0x90]"
| "STATUS_GLYPH Done = [CHR 0xE2, CHR 0x9C, CHR 0x93]"
| "STATUS_GLYPH Closed = [CHR 0xE2, CHR 0x9C, CHR 0x93]"
| "STATUS_GLYPH Blocked = [CHR 0xE2, CHR 0x9C, CHR 0x97]"
| "STATUS_GLYPH Backlogged = [CHR 0xE2, CHR 0x97, CHR 0x8B]"

fun priority_name :: "priority \<Rightarrow> string" where
  "priority_name Urgent = ''urgent''"
| "priority_name High = ''high''"
| "priority_name Medium = ''medium''"
| "priority_name Low = ''low''"

record tree_counter =
  tc_count :: nat
  tc_truncated :: bool

datatype tree_node =
  Tree_node (n_id: id) (n_title: string) (n_status: status) (n_priority: priority) (n_depth: nat)
    (n_blocked_by: int) (n_children: "tree_node list")

record tree_context =
  x_children :: "(id, id list) jsmap"
  x_tasks :: "(id, task) jsmap"
  x_in_degree :: "(id, int) jsmap"

section \<open>The order of siblings\<close>

definition compare_tasks :: "(id, task) jsmap \<Rightarrow> id \<Rightarrow> id \<Rightarrow> int" where
  "compare_tasks m i j =
     (case (js_get m i, js_get m j) of
        (Some a, Some b) \<Rightarrow>
          (let wa = PRIORITY_WEIGHT (priority a); wb = PRIORITY_WEIGHT (priority b)
           in if wa \<noteq> wb then wb - wa
              else if created_at a \<noteq> created_at b then (if created_at a < created_at b then 1 else -1)
              else task_id a - task_id b)
      | _ \<Rightarrow> i - j)"

interpretation sibling_order: js_comparator "compare_tasks m" "fst ` set m" for m
proof
  fix a b c
  assume ab: "a \<in> fst ` set m" "b \<in> fst ` set m"
  then obtain s t where st: "js_get m a = Some s" "js_get m b = Some t"
    by (metis map_of_eq_None_iff not_None_eq)
  then show "compare_tasks m a b \<le> 0 \<or> compare_tasks m b a \<le> 0"
    by (auto simp: compare_tasks_def Let_def)
  assume c: "c \<in> fst ` set m" and le: "compare_tasks m a b \<le> 0" "compare_tasks m b c \<le> 0"
  from c obtain u where "js_get m c = Some u" by (metis map_of_eq_None_iff not_None_eq)
  with st le show "compare_tasks m a c \<le> 0"
    by (auto simp: compare_tasks_def Let_def split: if_splits)
qed

section \<open>The tree\<close>

text \<open>
  The two functions are \<open>buildTreeNode\<close> and its loop over the children.  The recursion ends
  because a node is only expanded when its task is known and not yet on the branch.
\<close>

function build_tree_node ::
    "tree_context \<Rightarrow> id \<Rightarrow> nat \<Rightarrow> id list \<Rightarrow> tree_counter \<Rightarrow> tree_node \<times> tree_counter"
  and build_children ::
    "tree_context \<Rightarrow> id list \<Rightarrow> nat \<Rightarrow> id list \<Rightarrow> tree_counter \<Rightarrow> tree_node list \<times> tree_counter" where
  "build_tree_node x i depth visited k =
     (let k1 = k\<lparr>tc_count := Suc (tc_count k)\<rparr> in
      case js_get (x_tasks x) i of
        None \<Rightarrow> (Tree_node i (''[missing task #'' @ string_of_int i @ '']'') Open Low depth 0 [], k1)
      | Some t \<Rightarrow>
          let mk = Tree_node i (title t) (status t) (priority t) depth
                (or_else (js_get (x_in_degree x) i) 0)
          in if i \<in> set visited then (mk [], k1)
             else if tc_count k1 \<ge> MAX_TREE_NODES then (mk [], k1\<lparr>tc_truncated := True\<rparr>)
             else case build_children x (or_else (js_get (x_children x) i) []) (Suc depth)
                    (js_set_add i visited) k1 of (cs, k2) \<Rightarrow> (mk cs, k2))"
| "build_children x [] depth visited k = ([], k)"
| "build_children x (c # cs) depth visited k =
     (if tc_count k \<ge> MAX_TREE_NODES then ([], k\<lparr>tc_truncated := True\<rparr>)
      else case build_tree_node x c depth visited k of (n, k1) \<Rightarrow>
           case build_children x cs depth visited k1 of (ns, k2) \<Rightarrow> (n # ns, k2))"
  by pat_completeness auto
termination
proof (relation "measures
    [\<lambda>a. case a of Inl (x, i, d, v, k) \<Rightarrow> card (fst ` set (x_tasks x) - set v)
               | Inr (x, cs, d, v, k) \<Rightarrow> card (fst ` set (x_tasks x) - set v),
     \<lambda>a. case a of Inl (x, i, d, v, k) \<Rightarrow> 0 | Inr (x, cs, d, v, k) \<Rightarrow> Suc (length cs)]", goal_cases)
  case (2 x i depth visited k k1 t mk)
  then have "i \<in> fst ` set (x_tasks x) - set visited" by (force dest: map_of_SomeD)
  then have "card (fst ` set (x_tasks x) - insert i (set visited)) < card (fst ` set (x_tasks x) - set visited)"
    by (intro psubset_card_mono) auto
  then show ?case by simp
qed auto

declare build_tree_node.simps [simp del] build_children.simps(2) [simp del]

fun build_roots :: "tree_context \<Rightarrow> id list \<Rightarrow> tree_counter \<Rightarrow> tree_node list \<times> tree_counter" where
  "build_roots x [] k = ([], k)"
| "build_roots x (i # is) k =
     (if tc_count k \<ge> MAX_TREE_NODES then ([], k\<lparr>tc_truncated := True\<rparr>)
      else case build_tree_node x i 0 [] k of (n, k1) \<Rightarrow>
           case build_roots x is k1 of (ns, k2) \<Rightarrow> (n # ns, k2))"

section \<open>The text\<close>

definition task_line :: "id \<Rightarrow> task \<Rightarrow> string" where
  "task_line i t = CHR ''#'' # string_of_int i @ '' '' @ STATUS_GLYPH (status t) @ '' '' @ title t @
     '' ('' @ priority_name (priority t) @ '')''"

definition box_dash :: string where
  "box_dash = [CHR 0xE2, CHR 0x94, CHR 0x80]"

definition connector :: "bool \<Rightarrow> string" where
  "connector isLast =
     (if isLast then [CHR 0xE2, CHR 0x94, CHR 0x94] else [CHR 0xE2, CHR 0x94, CHR 0x9C]) @ box_dash @ box_dash"

definition child_prefix :: "string \<Rightarrow> bool \<Rightarrow> bool \<Rightarrow> string" where
  "child_prefix pre isLast isRoot =
     (if isRoot then [] else pre @ (if isLast then ''    '' else [CHR 0xE2, CHR 0x94, CHR 0x82] @ ''   ''))"

function walk ::
    "tree_context \<Rightarrow> id \<Rightarrow> string \<Rightarrow> bool \<Rightarrow> bool \<Rightarrow> id list \<Rightarrow> tree_counter \<Rightarrow> string list \<times> tree_counter"
  and walk_children ::
    "tree_context \<Rightarrow> id list \<Rightarrow> string \<Rightarrow> id list \<Rightarrow> tree_counter \<Rightarrow> string list \<times> tree_counter" where
  "walk x i pre isLast isRoot visited k =
     (if tc_count k \<ge> MAX_TREE_NODES then ([], k\<lparr>tc_truncated := True\<rparr>)
      else case js_get (x_tasks x) i of
        None \<Rightarrow> ([], k)
      | Some t \<Rightarrow>
          let k1 = k\<lparr>tc_count := Suc (tc_count k)\<rparr>;
              line = (if isRoot then task_line i t else pre @ connector isLast @ '' '' @ task_line i t)
          in if i \<in> set visited then ([line], k1)
             else case walk_children x (or_else (js_get (x_children x) i) []) (child_prefix pre isLast isRoot)
                    (js_set_add i visited) k1 of (ls, k2) \<Rightarrow> (line # ls, k2))"
| "walk_children x [] pre visited k = ([], k)"
| "walk_children x (c # cs) pre visited k =
     (if tc_count k \<ge> MAX_TREE_NODES then ([], k\<lparr>tc_truncated := True\<rparr>)
      else case walk x c pre (cs = []) False visited k of (ls, k1) \<Rightarrow>
           case walk_children x cs pre visited k1 of (ls', k2) \<Rightarrow> (ls @ ls', k2))"
  by pat_completeness auto
termination
proof (relation "measures
    [\<lambda>a. case a of Inl (x, i, p, l, r, v, k) \<Rightarrow> card (fst ` set (x_tasks x) - set v)
               | Inr (x, cs, p, v, k) \<Rightarrow> card (fst ` set (x_tasks x) - set v),
     \<lambda>a. case a of Inl (x, i, p, l, r, v, k) \<Rightarrow> 0 | Inr (x, cs, p, v, k) \<Rightarrow> Suc (length cs)]", goal_cases)
  case (2 x i pre isLast isRoot visited k t k1 line)
  then have "i \<in> fst ` set (x_tasks x) - set visited" by (force dest: map_of_SomeD)
  then have "card (fst ` set (x_tasks x) - insert i (set visited)) < card (fst ` set (x_tasks x) - set visited)"
    by (intro psubset_card_mono) auto
  then show ?case by simp
qed auto

declare walk.simps [simp del] walk_children.simps(2) [simp del]

fun walk_roots :: "tree_context \<Rightarrow> id list \<Rightarrow> tree_counter \<Rightarrow> string list \<times> tree_counter" where
  "walk_roots x [] k = ([], k)"
| "walk_roots x (i # is) k =
     (if tc_count k \<ge> MAX_TREE_NODES then ([], k\<lparr>tc_truncated := True\<rparr>)
      else case walk x i [] True True [] k of (ls, k1) \<Rightarrow>
           case walk_roots x is k1 of (ls', k2) \<Rightarrow> (ls @ ls', k2))"

section \<open>The three shapes\<close>

datatype graph_format = Format_tree | Format_graph | Format_text

record graph_node =
  g_id :: id
  g_title :: string
  g_status :: status
  g_priority :: priority

datatype graph_shape =
    Tree_shape "tree_node list" bool
  | Graph_shape "graph_node list" "edge list"
  | Text_shape "string list" bool

record graph_result =
  gr_shape :: graph_shape
  gr_topology :: topology
  gr_total_tasks :: nat
  gr_total_edges :: nat

definition tasks_by_id :: "task list \<Rightarrow> (id, task) jsmap" where
  "tasks_by_id ts = foldl (\<lambda>m t. js_put (task_id t) t m) [] ts"

definition tree_context_of :: "task list \<Rightarrow> edge list \<Rightarrow> tree_context" where
  "tree_context_of ts es =
     (let m = tasks_by_id ts; ids = map task_id ts
      in \<lparr>x_children = map (\<lambda>(i, cs). (i, js_sort (compare_tasks m) cs)) (adjacency_lists ids es),
          x_tasks = m, x_in_degree = int_degrees ids es\<rparr>)"

definition root_ids :: "tree_context \<Rightarrow> task list \<Rightarrow> id list" where
  "root_ids x ts =
     (let roots = js_sort (compare_tasks (x_tasks x))
            (map task_id (filter (\<lambda>t. or_else (js_get (x_in_degree x) (task_id t)) 0 = 0) ts))
      in if roots = [] \<and> ts \<noteq> []
         then (case js_sort (compare_tasks (x_tasks x)) (map task_id ts) of [] \<Rightarrow> [] | s # _ \<Rightarrow> [s])
         else roots)"

definition counter0 :: tree_counter where
  "counter0 = \<lparr>tc_count = 0, tc_truncated = False\<rparr>"

definition graph_of :: "task list \<Rightarrow> edge list \<Rightarrow> graph_format \<Rightarrow> graph_result" where
  "graph_of ts es fmt =
     (let x = tree_context_of ts es; ids = map task_id ts in
      case fmt of
        Format_graph \<Rightarrow>
          \<lparr>gr_shape = Graph_shape
             (map (\<lambda>t. \<lparr>g_id = task_id t, g_title = title t, g_status = status t, g_priority = priority t\<rparr>)
               (sort_key task_id ts)) (sort es),
           gr_topology = classify_topology_inline ids es, gr_total_tasks = length ts, gr_total_edges = length es\<rparr>
      | Format_text \<Rightarrow>
          (case walk_roots x (root_ids x ts) counter0 of (ls, k) \<Rightarrow>
            \<lparr>gr_shape = Text_shape ls (tc_truncated k),
             gr_topology = classify_from_in_degree ids es (x_in_degree x),
             gr_total_tasks = length ts, gr_total_edges = length es\<rparr>)
      | Format_tree \<Rightarrow>
          (case build_roots x (root_ids x ts) counter0 of (ns, k) \<Rightarrow>
            \<lparr>gr_shape = Tree_shape ns (tc_truncated k),
             gr_topology = classify_from_in_degree ids es (x_in_degree x),
             gr_total_tasks = length ts, gr_total_edges = length es\<rparr>))"

definition build_dependency_graph :: "id \<Rightarrow> graph_format \<Rightarrow> db \<Rightarrow> service_error + graph_result" where
  "build_dependency_graph p fmt db =
     (if find_project db p = None then Inl (Not_found Project_entity p)
      else let ts = load_project_tasks p db;
               es = in_project_edges (js_set_of (map task_id ts)) (edges db)
           in Inr (graph_of ts es fmt))"

section \<open>The cap on nodes\<close>

fun count_nodes :: "tree_node \<Rightarrow> nat" where
  "count_nodes (Tree_node i ti st pr d b cs) = Suc (sum_list (map count_nodes cs))"

fun tree_ids :: "tree_node \<Rightarrow> id set" where
  "tree_ids (Tree_node i ti st pr d b cs) = insert i (\<Union> (tree_ids ` set cs))"

text \<open>The counter counts the nodes that are emitted and never passes the cap.\<close>

lemma build_count:
  "build_tree_node x i depth visited k = (n, k') \<Longrightarrow> tc_count k < MAX_TREE_NODES \<Longrightarrow>
     tc_count k' = tc_count k + count_nodes n \<and> tc_count k' \<le> MAX_TREE_NODES"
  "build_children x cs depth visited k = (ns, k') \<Longrightarrow> tc_count k \<le> MAX_TREE_NODES \<Longrightarrow>
     tc_count k' = tc_count k + sum_list (map count_nodes ns) \<and> tc_count k' \<le> MAX_TREE_NODES"
proof (induction x i depth visited k and x cs depth visited k arbitrary: n k' and ns k'
    rule: build_tree_node_build_children.induct)
  case (1 x i depth visited k)
  let ?k1 = "k\<lparr>tc_count := Suc (tc_count k)\<rparr>"
  consider (leaf) "js_get (x_tasks x) i = None \<or> i \<in> set visited \<or> MAX_TREE_NODES \<le> tc_count ?k1"
    | (node) t where "js_get (x_tasks x) i = Some t" "i \<notin> set visited" "\<not> MAX_TREE_NODES \<le> tc_count ?k1"
    by (cases "js_get (x_tasks x) i") auto
  then show ?case
  proof cases
    case leaf
    with "1.prems" show ?thesis
      by (simp add: build_tree_node.simps Let_def split: option.splits if_splits) auto
  next
    case (node t)
    obtain cs k2 where run: "build_children x (or_else (js_get (x_children x) i) []) (Suc depth)
        (js_set_add i visited) ?k1 = (cs, k2)" by fastforce
    have "tc_count k2 = tc_count ?k1 + sum_list (map count_nodes cs) \<and> tc_count k2 \<le> MAX_TREE_NODES"
      by (rule "1.IH" [OF refl node(1) refl node(2,3) run]) (use node in simp)
    with node run "1.prems" show ?thesis by (auto simp: build_tree_node.simps Let_def)
  qed
next
  case (3 x c cs depth visited k)
  show ?case
  proof (cases "MAX_TREE_NODES \<le> tc_count k")
    case True
    with "3.prems" show ?thesis by (auto simp: build_children.simps)
  next
    case False
    obtain n0 k1 where r1: "build_tree_node x c depth visited k = (n0, k1)" by fastforce
    obtain ns0 k2 where r2: "build_children x cs depth visited k1 = (ns0, k2)" by fastforce
    have i1: "tc_count k1 = tc_count k + count_nodes n0 \<and> tc_count k1 \<le> MAX_TREE_NODES"
      by (rule "3.IH"(1) [OF False r1]) (use False in simp)
    have "tc_count k2 = tc_count k1 + sum_list (map count_nodes ns0) \<and> tc_count k2 \<le> MAX_TREE_NODES"
      by (rule "3.IH"(2) [OF False r1 [symmetric] r2]) (use i1 in simp)
    with i1 False r1 r2 "3.prems"(1) show ?thesis by (auto simp: build_children.simps)
  qed
qed simp

lemma build_roots_count:
  "build_roots x is k = (ns, k') \<Longrightarrow> tc_count k \<le> MAX_TREE_NODES \<Longrightarrow>
     tc_count k' = tc_count k + sum_list (map count_nodes ns) \<and> tc_count k' \<le> MAX_TREE_NODES"
proof (induction "is" arbitrary: k ns k')
  case (Cons i "is")
  then show ?case
    using build_count(1) by (fastforce split: if_splits prod.splits)
qed simp

lemma walk_count:
  "walk x i pre isLast isRoot visited k = (ls, k') \<Longrightarrow> tc_count k \<le> MAX_TREE_NODES \<Longrightarrow>
     tc_count k' = tc_count k + length ls \<and> tc_count k' \<le> MAX_TREE_NODES"
  "walk_children x cs pre visited k = (ls, k') \<Longrightarrow> tc_count k \<le> MAX_TREE_NODES \<Longrightarrow>
     tc_count k' = tc_count k + length ls \<and> tc_count k' \<le> MAX_TREE_NODES"
proof (induction x i pre isLast isRoot visited k and x cs pre visited k arbitrary: ls k' and ls k'
    rule: walk_walk_children.induct)
  case (1 x i pre isLast isRoot visited k)
  let ?k1 = "k\<lparr>tc_count := Suc (tc_count k)\<rparr>"
  consider (leaf) "js_get (x_tasks x) i = None \<or> i \<in> set visited \<or> MAX_TREE_NODES \<le> tc_count k"
    | (node) t where "js_get (x_tasks x) i = Some t" "i \<notin> set visited" "\<not> MAX_TREE_NODES \<le> tc_count k"
    by (cases "js_get (x_tasks x) i") auto
  then show ?case
  proof cases
    case leaf
    with "1.prems" show ?thesis
      by (simp add: walk.simps Let_def split: option.splits if_splits) auto
  next
    case (node t)
    obtain cs k2 where run: "walk_children x (or_else (js_get (x_children x) i) []) (child_prefix pre isLast isRoot)
        (js_set_add i visited) ?k1 = (cs, k2)" by fastforce
    have "tc_count k2 = tc_count ?k1 + length cs \<and> tc_count k2 \<le> MAX_TREE_NODES"
      by (rule "1.IH" [OF node(3,1) refl refl node(2) run]) (use node in simp)
    with node run "1.prems" show ?thesis by (auto simp: walk.simps Let_def)
  qed
next
  case (3 x c cs pre visited k)
  show ?case
  proof (cases "MAX_TREE_NODES \<le> tc_count k")
    case True
    with "3.prems" show ?thesis by (auto simp: walk_children.simps)
  next
    case False
    obtain n0 k1 where r1: "walk x c pre (cs = []) False visited k = (n0, k1)" by fastforce
    obtain ns0 k2 where r2: "walk_children x cs pre visited k1 = (ns0, k2)" by fastforce
    have i1: "tc_count k1 = tc_count k + length n0 \<and> tc_count k1 \<le> MAX_TREE_NODES"
      by (rule "3.IH"(1) [OF False r1]) (use False in simp)
    have "tc_count k2 = tc_count k1 + length ns0 \<and> tc_count k2 \<le> MAX_TREE_NODES"
      by (rule "3.IH"(2) [OF False r1 [symmetric] r2]) (use i1 in simp)
    with i1 False r1 r2 "3.prems"(1) show ?thesis by (auto simp: walk_children.simps)
  qed
qed simp

lemma walk_roots_count:
  "walk_roots x is k = (ls, k') \<Longrightarrow> tc_count k \<le> MAX_TREE_NODES \<Longrightarrow>
     tc_count k' = tc_count k + length ls \<and> tc_count k' \<le> MAX_TREE_NODES"
proof (induction "is" arbitrary: k ls k')
  case (Cons i "is")
  then show ?case
    using walk_count(1) by (fastforce split: if_splits prod.splits)
qed simp

text \<open>
  Whatever the tasks and edges, cycles included, a dependency graph has a tree of at
  most 1000 nodes and a text of at most 1000 lines.
\<close>

theorem graph_nodes_bounded:
  "case gr_shape (graph_of ts es fmt) of
     Tree_shape ns _ \<Rightarrow> sum_list (map count_nodes ns) \<le> 1000
   | Text_shape ls _ \<Rightarrow> length ls \<le> 1000
   | Graph_shape ns es' \<Rightarrow> length ns = length ts \<and> length es' = length es"
proof (cases fmt)
  case Format_tree
  obtain ns k where r: "build_roots (tree_context_of ts es) (root_ids (tree_context_of ts es) ts) counter0 = (ns, k)"
    by fastforce
  then have "sum_list (map count_nodes ns) \<le> 1000"
    using build_roots_count [OF r] by (simp add: counter0_def MAX_TREE_NODES_def)
  with r Format_tree show ?thesis by (simp add: graph_of_def Let_def)
next
  case Format_text
  obtain ls k where r: "walk_roots (tree_context_of ts es) (root_ids (tree_context_of ts es) ts) counter0 = (ls, k)"
    by fastforce
  then have "length ls \<le> 1000"
    using walk_roots_count [OF r] by (simp add: counter0_def MAX_TREE_NODES_def)
  with r Format_text show ?thesis by (simp add: graph_of_def Let_def)
qed (simp add: graph_of_def Let_def)

section \<open>What the tree shows\<close>

definition child_ids :: "tree_context \<Rightarrow> id \<Rightarrow> id list" where
  "child_ids x i = or_else (js_get (x_children x) i) []"

definition child_rel :: "tree_context \<Rightarrow> (id \<times> id) set" where
  "child_rel x = {(i, j). j \<in> set (child_ids x i)}"

text \<open>On an acyclic graph a walk that is not truncated visits everything below its start.\<close>

lemma build_covers:
  assumes acyc: "acyclic (child_rel x)"
    and closed: "\<And>i. i \<in> fst ` set (x_tasks x) \<Longrightarrow> set (child_ids x i) \<subseteq> fst ` set (x_tasks x)"
  shows "build_tree_node x i depth visited k = (n, k') \<Longrightarrow> \<not> tc_truncated k' \<Longrightarrow>
      i \<in> fst ` set (x_tasks x) \<Longrightarrow> \<forall>y\<in>set visited. (y, i) \<in> (child_rel x)\<^sup>+ \<Longrightarrow>
      \<not> tc_truncated k \<and> (child_rel x)\<^sup>* `` {i} \<subseteq> tree_ids n"
    and "build_children x cs depth visited k = (ns, k') \<Longrightarrow> \<not> tc_truncated k' \<Longrightarrow>
      set cs \<subseteq> fst ` set (x_tasks x) \<Longrightarrow> \<forall>c\<in>set cs. \<forall>y\<in>set visited. (y, c) \<in> (child_rel x)\<^sup>+ \<Longrightarrow>
      \<not> tc_truncated k \<and> (child_rel x)\<^sup>* `` set cs \<subseteq> \<Union> (tree_ids ` set ns)"
  using assms
proof (induction x i depth visited k and x cs depth visited k arbitrary: n k' and ns k'
    rule: build_tree_node_build_children.induct)
  case (1 x i depth visited k)
  let ?k1 = "k\<lparr>tc_count := Suc (tc_count k)\<rparr>"
  obtain t where t: "js_get (x_tasks x) i = Some t"
    using "1.prems"(3) by (metis map_of_eq_None_iff not_None_eq)
  have fresh: "i \<notin> set visited" using "1.prems"(4,5) by (auto simp: acyclic_def)
  have low: "\<not> MAX_TREE_NODES \<le> tc_count ?k1"
    using "1.prems"(1,2) t fresh by (auto simp: build_tree_node.simps Let_def)
  obtain cs k2 where run: "build_children x (or_else (js_get (x_children x) i) []) (Suc depth)
      (js_set_add i visited) ?k1 = (cs, k2)" by fastforce
  have n: "n = Tree_node i (title t) (status t) (priority t) depth (or_else (js_get (x_in_degree x) i) 0) cs"
    and k': "k' = k2"
    using "1.prems"(1) t fresh low run by (auto simp: build_tree_node.simps Let_def)
  have kids: "set (or_else (js_get (x_children x) i) []) = child_rel x `` {i}"
    by (auto simp: child_rel_def child_ids_def)
  have "\<not> tc_truncated ?k1 \<and> (child_rel x)\<^sup>* `` set (or_else (js_get (x_children x) i) []) \<subseteq> \<Union> (tree_ids ` set cs)"
  proof (rule "1.IH" [OF refl t refl fresh low run])
    show "\<not> tc_truncated k2" using "1.prems"(2) k' by simp
    show "set (or_else (js_get (x_children x) i) []) \<subseteq> fst ` set (x_tasks x)"
      using "1.prems"(6) [OF "1.prems"(3)] by (simp add: child_ids_def)
    show "\<forall>c\<in>set (or_else (js_get (x_children x) i) []). \<forall>y\<in>set (js_set_add i visited). (y, c) \<in> (child_rel x)\<^sup>+"
      using "1.prems"(4) unfolding kids by (auto intro: trancl_into_trancl)
  qed (fact "1.prems"(5), fact "1.prems"(6))
  then have "\<not> tc_truncated k" and below: "(child_rel x)\<^sup>* `` (child_rel x `` {i}) \<subseteq> \<Union> (tree_ids ` set cs)"
    unfolding kids by simp_all
  have "(child_rel x)\<^sup>* `` {i} \<subseteq> insert i ((child_rel x)\<^sup>* `` (child_rel x `` {i}))"
    by (blast elim: converse_rtranclE)
  then have "(child_rel x)\<^sup>* `` {i} \<subseteq> insert i (\<Union> (tree_ids ` set cs))"
    using insert_mono [OF below] by (rule order_trans)
  with \<open>\<not> tc_truncated k\<close> show ?case by (simp only: n tree_ids.simps simp_thms)
next
  case (2 x depth visited k)
  then show ?case by simp
next
  case (3 x c cs depth visited k)
  have low: "\<not> MAX_TREE_NODES \<le> tc_count k"
    using "3.prems"(1,2) by (auto simp: build_children.simps)
  obtain n0 k1 where r1: "build_tree_node x c depth visited k = (n0, k1)" by fastforce
  obtain ns0 k2 where r2: "build_children x cs depth visited k1 = (ns0, k2)" by fastforce
  have eq: "ns = n0 # ns0" "k' = k2"
    using "3.prems"(1) low r1 r2 by (auto simp: build_children.simps)
  have i2: "\<not> tc_truncated k1 \<and> (child_rel x)\<^sup>* `` set cs \<subseteq> \<Union> (tree_ids ` set ns0)"
    by (rule "3.IH"(2) [OF low r1 [symmetric] r2]) (use "3.prems" eq in auto)
  have "\<not> tc_truncated k \<and> (child_rel x)\<^sup>* `` {c} \<subseteq> tree_ids n0"
    by (rule "3.IH"(1) [OF low r1]) (use "3.prems" i2 in auto)
  with i2 show ?case by (auto simp: eq)
qed

lemma build_roots_covers:
  assumes acyc: "acyclic (child_rel x)"
    and closed: "\<And>i. i \<in> fst ` set (x_tasks x) \<Longrightarrow> set (child_ids x i) \<subseteq> fst ` set (x_tasks x)"
  shows "build_roots x is k = (ns, k') \<Longrightarrow> \<not> tc_truncated k' \<Longrightarrow> set is \<subseteq> fst ` set (x_tasks x) \<Longrightarrow>
      \<not> tc_truncated k \<and> (child_rel x)\<^sup>* `` set is \<subseteq> \<Union> (tree_ids ` set ns)"
proof (induction "is" arbitrary: k ns k')
  case (Cons i "is")
  have low: "\<not> MAX_TREE_NODES \<le> tc_count k" using Cons.prems by auto
  obtain n0 k1 where r1: "build_tree_node x i 0 [] k = (n0, k1)" by fastforce
  obtain ns0 k2 where r2: "build_roots x is k1 = (ns0, k2)" by fastforce
  have eq: "ns = n0 # ns0" "k' = k2" using Cons.prems(1) low r1 r2 by auto
  have i2: "\<not> tc_truncated k1 \<and> (child_rel x)\<^sup>* `` set is \<subseteq> \<Union> (tree_ids ` set ns0)"
    by (rule Cons.IH [OF r2]) (use Cons.prems eq in auto)
  have "\<not> tc_truncated k \<and> (child_rel x)\<^sup>* `` {i} \<subseteq> tree_ids n0"
    by (rule build_covers(1) [OF acyc closed r1]) (use Cons.prems i2 in auto)
  with i2 show ?case by (auto simp: eq)
qed simp

text \<open>Nothing is shown that is not below the roots.\<close>

lemma build_within:
  assumes "\<And>i. i \<in> C \<Longrightarrow> set (child_ids x i) \<subseteq> C"
  shows "build_tree_node x i depth visited k = (n, k') \<Longrightarrow> i \<in> C \<Longrightarrow> tree_ids n \<subseteq> C"
    and "build_children x cs depth visited k = (ns, k') \<Longrightarrow> set cs \<subseteq> C \<Longrightarrow> \<Union> (tree_ids ` set ns) \<subseteq> C"
  using assms
proof (induction x i depth visited k and x cs depth visited k arbitrary: n k' and ns k'
    rule: build_tree_node_build_children.induct)
  case (1 x i depth visited k)
  let ?k1 = "k\<lparr>tc_count := Suc (tc_count k)\<rparr>"
  consider (leaf) "js_get (x_tasks x) i = None \<or> i \<in> set visited \<or> MAX_TREE_NODES \<le> tc_count ?k1"
    | (node) t where "js_get (x_tasks x) i = Some t" "i \<notin> set visited" "\<not> MAX_TREE_NODES \<le> tc_count ?k1"
    by (cases "js_get (x_tasks x) i") auto
  then show ?case
  proof cases
    case leaf
    with "1.prems"(1,2) show ?thesis
      by (simp add: build_tree_node.simps Let_def split: option.splits if_splits) auto
  next
    case (node t)
    obtain cs k2 where run: "build_children x (or_else (js_get (x_children x) i) []) (Suc depth)
        (js_set_add i visited) ?k1 = (cs, k2)" by fastforce
    have "\<Union> (tree_ids ` set cs) \<subseteq> C"
      by (rule "1.IH" [OF refl node(1) refl node(2,3) run])
        (use "1.prems"(2,3) in \<open>auto simp: child_ids_def\<close>)
    moreover have "tree_ids n = insert i (\<Union> (tree_ids ` set cs))"
      using node run "1.prems"(1) by (auto simp: build_tree_node.simps Let_def)
    ultimately show ?thesis using "1.prems"(2) by (simp only: insert_subset simp_thms)
  qed
next
  case (2 x depth visited k)
  then show ?case by simp
next
  case (3 x c cs depth visited k)
  show ?case
  proof (cases "MAX_TREE_NODES \<le> tc_count k")
    case True
    with "3.prems"(1) show ?thesis by (auto simp: build_children.simps)
  next
    case low: False
    obtain n0 k1 where r1: "build_tree_node x c depth visited k = (n0, k1)" by fastforce
    obtain ns0 k2 where r2: "build_children x cs depth visited k1 = (ns0, k2)" by fastforce
    have eq: "ns = n0 # ns0"
      using "3.prems"(1) low r1 r2 by (auto simp: build_children.simps)
    have "\<Union> (tree_ids ` set ns0) \<subseteq> C"
      by (rule "3.IH"(2) [OF low r1 [symmetric] r2 _ "3.prems"(3)]) (use "3.prems"(2) in auto)
    moreover have "tree_ids n0 \<subseteq> C"
      by (rule "3.IH"(1) [OF low r1 _ "3.prems"(3)]) (use "3.prems"(2) in auto)
    ultimately show ?thesis by (simp add: eq)
  qed
qed

lemma build_roots_within:
  assumes "\<And>i. i \<in> C \<Longrightarrow> set (child_ids x i) \<subseteq> C"
  shows "build_roots x is k = (ns, k') \<Longrightarrow> set is \<subseteq> C \<Longrightarrow> \<Union> (tree_ids ` set ns) \<subseteq> C"
proof (induction "is" arbitrary: k ns k')
  case (Cons i "is")
  obtain n0 k1 where r1: "build_tree_node x i 0 [] k = (n0, k1)" by fastforce
  obtain ns0 k2 where r2: "build_roots x is k1 = (ns0, k2)" by fastforce
  have "\<Union> (tree_ids ` set ns0) \<subseteq> C" using Cons.IH [OF r2] Cons.prems by simp
  moreover have "tree_ids n0 \<subseteq> C" using build_within(1) [OF assms r1] Cons.prems by simp
  moreover have "ns = [] \<or> ns = n0 # ns0" using Cons.prems(1) r1 r2 by (auto split: if_splits)
  ultimately show ?case by (elim disjE) simp_all
qed simp

section \<open>The context of a project\<close>

lemma tasks_by_id_keys: "fst ` set (tasks_by_id ts) = task_id ` set ts"
proof -
  have "fst ` set (foldl (\<lambda>m t. js_put (task_id t) t m) m ts) = fst ` set m \<union> task_id ` set ts"
    for m :: "(id, task) jsmap"
    by (induction ts arbitrary: m) (auto simp: keys_js_put)
  then show ?thesis by (simp add: tasks_by_id_def)
qed

lemma context_child_ids:
  "set (child_ids (tree_context_of ts es) i) = (if i \<in> task_id ` set ts then set (succs es i) else {})"
proof -
  have "child_ids (tree_context_of ts es) i = or_else (map_option (js_sort (compare_tasks (tasks_by_id ts)))
      (js_get (adjacency_lists (map task_id ts) es) i)) []"
    by (simp add: child_ids_def tree_context_of_def Let_def map_of_map)
  then show ?thesis by (simp add: adjacency_lists_get or_else_def)
qed

lemma context_child_rel:
  assumes "set es \<subseteq> set (map task_id ts) \<times> set (map task_id ts)"
  shows "child_rel (tree_context_of ts es) = set es"
proof -
  have "(i, j) \<in> child_rel (tree_context_of ts es) \<longleftrightarrow> i \<in> set (map task_id ts) \<and> (i, j) \<in> set es" for i j
    unfolding child_rel_def context_child_ids by (simp add: set_succs)
  moreover have "(i, j) \<in> set es \<Longrightarrow> i \<in> set (map task_id ts)" for i j using assms by blast
  ultimately show ?thesis by auto
qed

lemma set_root_ids:
  "{i \<in> set (map task_id ts). i \<notin> snd ` set es} \<subseteq> set (root_ids (tree_context_of ts es) ts)"
  "set (root_ids (tree_context_of ts es) ts) \<subseteq> set (map task_id ts)"
proof -
  let ?x = "tree_context_of ts es"
  let ?src = "map task_id (filter (\<lambda>t. or_else (js_get (x_in_degree ?x) (task_id t)) 0 = 0) ts)"
  have deg: "or_else (js_get (x_in_degree ?x) i) 0 = 0 \<longleftrightarrow> i \<notin> snd ` set es" for i
    by (auto simp: tree_context_of_def Let_def int_degrees_get filter_empty_conv image_iff)
  have src: "set ?src = {i \<in> set (map task_id ts). i \<notin> snd ` set es}"
    using deg by auto
  have "set (root_ids ?x ts) = set ?src \<or> (set ?src = {} \<and> set (root_ids ?x ts) \<subseteq> set (map task_id ts))"
  proof (cases "js_sort (compare_tasks (x_tasks ?x)) ?src = [] \<and> ts \<noteq> []")
    case True
    then have "set ?src = {}" by (metis set_js_sort list.set(1))
    moreover have "set (root_ids ?x ts) \<subseteq> set (map task_id ts)"
    proof (cases "js_sort (compare_tasks (x_tasks ?x)) (map task_id ts)")
      case (Cons s rest)
      then have "s \<in> set (map task_id ts)" by (metis list.set_intros(1) set_js_sort)
      with True Cons show ?thesis by (simp add: root_ids_def Let_def)
    qed (use True in \<open>simp add: root_ids_def Let_def\<close>)
    ultimately show ?thesis by blast
  next
    case False
    then have "root_ids ?x ts = js_sort (compare_tasks (x_tasks ?x)) ?src"
      unfolding root_ids_def Let_def by (simp only: if_False)
    then show ?thesis by (intro disjI1) (simp only: set_js_sort)
  qed
  then show "{i \<in> set (map task_id ts). i \<notin> snd ` set es} \<subseteq> set (root_ids ?x ts)"
    and "set (root_ids ?x ts) \<subseteq> set (map task_id ts)"
    unfolding src by blast+
qed

lemma below_a_source:
  assumes "acyclic E" and "finite E" and "j \<in> A" and "E \<subseteq> A \<times> A"
  shows "\<exists>i\<in>A. i \<notin> snd ` E \<and> (i, j) \<in> E\<^sup>*"
proof -
  have "wf E" using assms(1,2) by (intro finite_acyclic_wf)
  then show ?thesis using assms(3)
  proof (induction j rule: wf_induct_rule)
    case (less j)
    show ?case
    proof (cases "j \<in> snd ` E")
      case True
      then obtain h where h: "(h, j) \<in> E" by auto
      then obtain i where "i \<in> A" "i \<notin> snd ` E" "(i, h) \<in> E\<^sup>*" using less.IH assms(4) by blast
      with h show ?thesis by (meson rtrancl.rtrancl_into_rtrancl)
    qed (use less.prems in blast)
  qed
qed

text \<open>
  When a project's edges are acyclic and its tree is not truncated, the tree shows
  exactly the project's tasks: every task appears under some root and nothing else does.
\<close>

theorem tree_shows_every_task:
  assumes E: "set es \<subseteq> set (map task_id ts) \<times> set (map task_id ts)"
    and acyc: "acyclic (set es)"
    and tree: "gr_shape (graph_of ts es Format_tree) = Tree_shape ns False"
  shows "\<Union> (tree_ids ` set ns) = set (map task_id ts)"
proof -
  let ?x = "tree_context_of ts es" and ?ids = "set (map task_id ts)"
  obtain k where run: "build_roots ?x (root_ids ?x ts) counter0 = (ns, k)" and k: "\<not> tc_truncated k"
    using tree by (auto simp: graph_of_def Let_def split: prod.splits)
  have keys: "fst ` set (x_tasks ?x) = ?ids"
    by (simp add: tree_context_of_def Let_def tasks_by_id_keys)
  have rel: "child_rel ?x = set es" by (rule context_child_rel [OF E])
  have closed: "i \<in> ?ids \<Longrightarrow> set (child_ids ?x i) \<subseteq> ?ids" for i
    using E by (auto simp: context_child_ids set_succs)
  have covers: "(set es)\<^sup>* `` set (root_ids ?x ts) \<subseteq> \<Union> (tree_ids ` set ns)"
    by (rule build_roots_covers [of ?x, unfolded rel keys, OF acyc closed run k set_root_ids(2), THEN conjunct2])
  show ?thesis
  proof
    show "\<Union> (tree_ids ` set ns) \<subseteq> ?ids"
      by (rule build_roots_within [OF closed run set_root_ids(2)])
    show "?ids \<subseteq> \<Union> (tree_ids ` set ns)"
    proof
      fix j assume "j \<in> ?ids"
      from below_a_source [OF acyc finite_set this E]
      obtain i where i: "i \<in> ?ids" "i \<notin> snd ` set es" and path: "(i, j) \<in> (set es)\<^sup>*" by (elim bexE conjE)
      from i have "i \<in> set (root_ids ?x ts)" by (intro subsetD [OF set_root_ids(1)] CollectI conjI)
      with path have "j \<in> (set es)\<^sup>* `` set (root_ids ?x ts)" by (rule ImageI)
      with covers show "j \<in> \<Union> (tree_ids ` set ns)" by (rule subsetD)
    qed
  qed
qed

definition sample_tasks :: "task list" where
  "sample_tasks = map (\<lambda>i. new_row (1000 * i) i sample_create) [1, 2, 3]"

definition tree_shape_ids :: "graph_shape \<Rightarrow> id set" where
  "tree_shape_ids s = (case s of Tree_shape ns _ \<Rightarrow> \<Union> (tree_ids ` set ns) | _ \<Rightarrow> {})"

lemma sample_tasks_ids: "map task_id sample_tasks = [1, 2, 3]"
  by (simp add: sample_tasks_def new_row_def set_wsjf_def)

fun untruncated :: "graph_shape \<Rightarrow> bool" where
  "untruncated (Tree_shape _ b) \<longleftrightarrow> \<not> b"
| "untruncated _ \<longleftrightarrow> False"

lemma untruncated_iff: "untruncated s \<longleftrightarrow> (\<exists>ns. s = Tree_shape ns False)"
  by (cases s) auto

theorem tree_shows_every_task_witness:
  "acyclic (set [(1::id, 2::id), (1, 3)]) \<and>
   tree_shape_ids (gr_shape (graph_of sample_tasks [(1, 2), (1, 3)] Format_tree)) = {1, 2, 3}"
proof -
  have acyc: "acyclic (set [(1::id, 2::id), (1, 3)])" by (simp add: acyclic_insert rtrancl_insert)
  have "untruncated (gr_shape (graph_of sample_tasks [(1, 2), (1, 3)] Format_tree))" by code_simp
  then obtain ns where "gr_shape (graph_of sample_tasks [(1, 2), (1, 3)] Format_tree) = Tree_shape ns False"
    by (auto simp: untruncated_iff)
  with tree_shows_every_task [OF _ acyc this] acyc show ?thesis
    by (simp add: sample_tasks_ids tree_shape_ids_def)
qed

text \<open>
  Beside a task that nothing blocks, a cycle of other tasks is not reachable from any root:
  the tree leaves it out and does not say so.
\<close>

lemma mixed_cycle_hidden:
  "untruncated (gr_shape (graph_of sample_tasks [(2, 3), (3, 2)] Format_tree))"
  "tree_shape_ids (gr_shape (graph_of sample_tasks [(2, 3), (3, 2)] Format_tree)) = {1}"
  by code_simp+

section \<open>The order of the tree\<close>

text \<open>Higher priority first, then the newer task, then the smaller id.\<close>

definition shown_before :: "task \<Rightarrow> task \<Rightarrow> bool" where
  "shown_before a b \<longleftrightarrow>
     PRIORITY_WEIGHT (priority a) > PRIORITY_WEIGHT (priority b) \<or>
     PRIORITY_WEIGHT (priority a) = PRIORITY_WEIGHT (priority b) \<and>
       (created_at a > created_at b \<or> created_at a = created_at b \<and> task_id a \<le> task_id b)"

definition ids_ordered :: "(id, task) jsmap \<Rightarrow> id list \<Rightarrow> bool" where
  "ids_ordered m is = sorted_wrt (\<lambda>i j. case (js_get m i, js_get m j) of
     (Some a, Some b) \<Rightarrow> shown_before a b | _ \<Rightarrow> False) is"

lemma compare_tasks_le:
  "js_get m i = Some a \<Longrightarrow> js_get m j = Some b \<Longrightarrow> compare_tasks m i j \<le> 0 \<Longrightarrow> shown_before a b"
  by (auto simp: compare_tasks_def shown_before_def Let_def split: if_splits)

lemma js_sort_ordered:
  assumes "set is \<subseteq> fst ` set m"
  shows "ids_ordered m (js_sort (compare_tasks m) is)"
proof -
  have "sorted_wrt (\<lambda>i j. compare_tasks m i j \<le> 0) (js_sort (compare_tasks m) is)"
    by (rule sibling_order.js_sort_sorted [OF assms])
  then show ?thesis unfolding ids_ordered_def
  proof (rule sorted_wrt_mono_rel [rotated])
    fix i j assume "i \<in> set (js_sort (compare_tasks m) is)" "j \<in> set (js_sort (compare_tasks m) is)"
      and le: "compare_tasks m i j \<le> 0"
    then have "js_get m i \<noteq> None" "js_get m j \<noteq> None"
      using assms unfolding set_js_sort map_of_eq_None_iff by blast+
    with le show "case (js_get m i, js_get m j) of (Some a, Some b) \<Rightarrow> shown_before a b | _ \<Rightarrow> False"
      using compare_tasks_le by (fastforce split: option.splits)
  qed
qed

text \<open>
  Roots and children are listed by priority, highest first, then by age, newest first,
  then by id, in every project.
\<close>

theorem siblings_ordered:
  assumes E: "set es \<subseteq> set (map task_id ts) \<times> set (map task_id ts)"
  shows "ids_ordered (tasks_by_id ts) (root_ids (tree_context_of ts es) ts) \<and>
    (\<forall>i\<in>task_id ` set ts. ids_ordered (tasks_by_id ts) (child_ids (tree_context_of ts es) i))"
proof
  let ?x = "tree_context_of ts es" and ?m = "tasks_by_id ts"
  have m: "x_tasks ?x = ?m" by (simp add: tree_context_of_def Let_def)
  have keys: "fst ` set ?m = set (map task_id ts)" by (simp add: tasks_by_id_keys)
  have one: "ids_ordered ?m [i]" for i by (simp add: ids_ordered_def)
  have none: "ids_ordered ?m []" by (simp add: ids_ordered_def)
  show "ids_ordered ?m (root_ids ?x ts)"
  proof -
    have sub: "set (map task_id (filter P ts)) \<subseteq> fst ` set ?m" for P unfolding keys by auto
    show ?thesis
      unfolding root_ids_def m Let_def
      by (auto simp: one none split: list.splits simp del: set_map intro!: js_sort_ordered [OF sub])
  qed
  show "\<forall>i\<in>task_id ` set ts. ids_ordered ?m (child_ids ?x i)"
  proof
    fix i assume "i \<in> task_id ` set ts"
    then have "child_ids ?x i = js_sort (compare_tasks ?m) (succs es i)"
      by (simp add: child_ids_def tree_context_of_def Let_def map_of_map adjacency_lists_get or_else_def)
    moreover have "set (succs es i) \<subseteq> fst ` set ?m" using E unfolding keys by (auto simp: set_succs)
    ultimately show "ids_ordered ?m (child_ids ?x i)" using js_sort_ordered by simp
  qed
qed

theorem siblings_ordered_witness:
  "root_ids (tree_context_of sample_tasks [(1, 2), (1, 3)]) sample_tasks = [1] \<and>
   child_ids (tree_context_of sample_tasks [(1, 2), (1, 3)]) 1 = [3, 2] \<and>
   ids_ordered (tasks_by_id sample_tasks) [3, 2]"
proof -
  have "root_ids (tree_context_of sample_tasks [(1, 2), (1, 3)]) sample_tasks = [1]"
    "child_ids (tree_context_of sample_tasks [(1, 2), (1, 3)]) 1 = [3, 2]" by code_simp+
  moreover have "1 \<in> task_id ` set sample_tasks" using sample_tasks_ids by (metis list.set_intros(1) set_map)
  ultimately show ?thesis
    using siblings_ordered [of "[(1, 2), (1, 3)]" sample_tasks] unfolding sample_tasks_ids by force
qed

end
