(* ===== verification/Wsjf_Rank.thy ===== *)
theory Wsjf_Rank
  imports Kahn Service_Errors
begin

text \<open>
  The ranking of \<open>rankFrontier\<close> in \<open>src/services/wsjf.service.ts\<close>: a breadth-first closure of each
  scored task's dependents, the decayed and capped propagation of their cost of delay, the
  filter for ready tasks and the final order.  Scores are exact rationals where the source
  computes in binary floating point.
\<close>

definition PROPAGATION_GAMMA :: rat where "PROPAGATION_GAMMA = 1 / 2"
definition PROPAGATION_CAP :: rat where "PROPAGATION_CAP = 3"

section \<open>Breadth-first distances\<close>

text \<open>The loop over the successors of a node at distance \<open>d\<close>: the first visit fixes the distance.\<close>

fun bfs_visit :: "nat \<Rightarrow> id list \<Rightarrow> (id, nat) jsmap \<Rightarrow> id list \<Rightarrow> (id, nat) jsmap \<times> id list" where
  "bfs_visit d [] dists queue = (dists, queue)"
| "bfs_visit d (n # ns) dists queue =
     (if js_has dists n then bfs_visit d ns dists queue
      else bfs_visit d ns (js_put n (Suc d) dists) (queue @ [n]))"

lemma bfs_visit_keys:
  "bfs_visit d ns dists q = (dists', q') \<Longrightarrow>
     \<exists>new. q' = q @ new \<and> distinct new \<and> set new = set ns - fst ` set dists \<and>
       fst ` set dists' = fst ` set dists \<union> set ns \<and>
       (\<forall>v. js_get dists' v = (if v \<in> set new then Some (Suc d) else js_get dists v))"
proof (induction d ns dists q arbitrary: dists' q' rule: bfs_visit.induct)
  case (1 d dists q)
  then show ?case by (intro exI [of _ "[]"]) simp
next
  case (2 d n ns dists q)
  show ?case
  proof (cases "js_has dists n")
    case True
    then have n: "n \<in> fst ` set dists" by (simp add: js_has_iff)
    obtain new where "q' = q @ new" "distinct new" "set new = set ns - fst ` set dists"
      "fst ` set dists' = fst ` set dists \<union> set ns"
      "\<forall>v. js_get dists' v = (if v \<in> set new then Some (Suc d) else js_get dists v)"
      using "2.IH"(1) [OF True, of dists' q'] "2.prems" True by auto
    with n show ?thesis by (intro exI [of _ new]) auto
  next
    case False
    then have n: "n \<notin> fst ` set dists" by (simp add: js_has_iff)
    obtain new where new: "q' = (q @ [n]) @ new" "distinct new"
      "set new = set ns - fst ` set (js_put n (Suc d) dists)"
      "fst ` set dists' = fst ` set (js_put n (Suc d) dists) \<union> set ns"
      "\<forall>v. js_get dists' v = (if v \<in> set new then Some (Suc d) else js_get (js_put n (Suc d) dists) v)"
      using "2.IH"(2) [OF False, of dists' q'] "2.prems" False by auto
    with n show ?thesis by (intro exI [of _ "n # new"]) (auto simp: keys_js_put)
  qed
qed

text \<open>The queue with the cursor at its head.  \<open>None\<close> stands for the two throws on a missing entry.\<close>

definition adjacent_values :: "(id, id list) jsmap \<Rightarrow> id set" where
  "adjacent_values adj = \<Union> (set ` snd ` set adj)"

lemma finite_adjacent_values [simp]: "finite (adjacent_values adj)"
  by (simp add: adjacent_values_def)

lemma adjacent_value_in: "v \<in> set (or_else (js_get adj u) []) \<Longrightarrow> v \<in> adjacent_values adj"
  by (cases "js_get adj u") (force simp: or_else_def adjacent_values_def dest: map_of_SomeD)+

function bfs :: "(id, id list) jsmap \<Rightarrow> (id, nat) jsmap \<Rightarrow> id list \<Rightarrow> (id, nat) jsmap option" where
  "bfs adj dists [] = Some dists"
| "bfs adj dists (cur # rest) =
     (case js_get dists cur of
        None \<Rightarrow> None
      | Some d \<Rightarrow> (case bfs_visit d (or_else (js_get adj cur) []) dists rest of
          (dists', queue') \<Rightarrow> bfs adj dists' queue'))"
  by pat_completeness auto
termination
proof (relation "measure (\<lambda>(adj, dists, queue).
    card (adjacent_values adj - fst ` set dists) + length queue)", goal_cases)
  case (2 adj dists cur rest d dists' queue')
  let ?U = "adjacent_values adj"
  obtain new where new: "queue' = rest @ new" "distinct new"
    "set new = set (or_else (js_get adj cur) []) - fst ` set dists"
    "fst ` set dists' = fst ` set dists \<union> set (or_else (js_get adj cur) [])"
    using bfs_visit_keys [OF 2(2) [symmetric]] by blast
  have "set (or_else (js_get adj cur) []) \<subseteq> ?U" using adjacent_value_in by (intro subsetI)
  then have sub: "set new \<subseteq> ?U - fst ` set dists" unfolding new(3) by (rule Diff_mono) simp
  have "card (?U - fst ` set dists') \<le> card ((?U - fst ` set dists) - set new)"
    unfolding new(3,4) by (rule card_mono) (simp, blast)
  also have "\<dots> = card (?U - fst ` set dists) - length new"
    using sub new(2) by (simp add: card_Diff_subset distinct_card)
  finally have "card (?U - fst ` set dists') \<le> card (?U - fst ` set dists) - length new" .
  moreover have "length new \<le> card (?U - fst ` set dists)"
    using card_mono [OF _ sub] new(2) by (simp add: distinct_card)
  ultimately have "card (?U - fst ` set dists') + length new \<le> card (?U - fst ` set dists)" by linarith
  then show ?case using new(1) by simp
qed simp

definition dependents_of :: "(id, id list) jsmap \<Rightarrow> id \<Rightarrow> (id, nat) jsmap" where
  "dependents_of adj i = or_else (bfs adj [(i, 0)] [i]) []"

section \<open>Propagation\<close>

definition components_of :: "task \<Rightarrow> components option" where
  "components_of t =
     (case (wsjf_value t, wsjf_time_criticality t, wsjf_risk_opportunity t, wsjf_job_size t) of
        (Some v, Some tc, Some r, Some j) \<Rightarrow> Some \<lparr>c_value = v, c_time = tc, c_risk = r, c_job = j\<rparr>
      | _ \<Rightarrow> None)"

definition has_components :: "task \<Rightarrow> bool" where
  "has_components t \<longleftrightarrow> wsjf_value t \<noteq> None \<and> wsjf_time_criticality t \<noteq> None \<and>
     wsjf_risk_opportunity t \<noteq> None \<and> wsjf_job_size t \<noteq> None"

definition cod :: "components \<Rightarrow> rat" where
  "cod c = of_int (fib_val (c_value c) + fib_val (c_time c) + fib_val (c_risk c))"

definition base_cod_map :: "task list \<Rightarrow> (id, rat) jsmap" where
  "base_cod_map ts =
     foldl (\<lambda>m t. case components_of t of None \<Rightarrow> m | Some c \<Rightarrow> js_put (task_id t) (cod c) m) [] ts"

definition contributions :: "(id, rat) jsmap \<Rightarrow> id \<Rightarrow> (id, nat) jsmap \<Rightarrow> (id \<times> rat) list" where
  "contributions base i dists =
     filter (\<lambda>p. snd p \<noteq> 0)
       (List.map_filter (\<lambda>j. case (js_get base j, js_get dists j) of
            (Some b, Some d) \<Rightarrow> Some (j, b * PROPAGATION_GAMMA ^ (d - 1))
          | _ \<Rightarrow> None)
         (sort (filter (\<lambda>j. j \<noteq> i) (js_keys dists))))"

definition effective_cod :: "rat \<Rightarrow> (id \<times> rat) list \<Rightarrow> rat" where
  "effective_cod base contribs = min (base + sum_list (map snd contribs)) (base * PROPAGATION_CAP)"

section \<open>Readiness and the ranked rows\<close>

datatype scope = Scope_frontier | Scope_all

record ranked =
  rk_task :: id
  rk_scored :: bool
  rk_base :: "rat option"
  rk_effective :: rat
  rk_components :: "components option"
  rk_propagation :: "(id \<times> rat) list"
  rk_evidence :: "wsjf_evidence option"

definition by_id :: "task list \<Rightarrow> (id, task) jsmap" where
  "by_id ts = foldl (\<lambda>m t. js_put (task_id t) t m) [] ts"

definition blockers_map :: "id list \<Rightarrow> edge list \<Rightarrow> (id, id list) jsmap" where
  "blockers_map ids es = adjacency_lists ids (map prod.swap es)"

definition is_ready :: "(id, task) jsmap \<Rightarrow> (id, id list) jsmap \<Rightarrow> task \<Rightarrow> bool" where
  "is_ready m blockersOf t \<longleftrightarrow>
     status t \<noteq> Blocked \<and>
     list_all (\<lambda>b. case js_get m b of None \<Rightarrow> True | Some u \<Rightarrow> status u \<in> {Done, Closed})
       (or_else (js_get blockersOf (task_id t)) [])"

definition rank_row :: "(id, rat) jsmap \<Rightarrow> (id, id list) jsmap \<Rightarrow> task \<Rightarrow> ranked" where
  "rank_row base downstream t =
     (case components_of t of
        Some c \<Rightarrow>
          (let contribs = contributions base (task_id t) (dependents_of downstream (task_id t))
           in \<lparr>rk_task = task_id t, rk_scored = True, rk_base = Some (compute_wsjf c),
               rk_effective = effective_cod (cod c) contribs / of_int (max (fib_val (c_job c)) 1),
               rk_components = Some c, rk_propagation = contribs, rk_evidence = wsjf_evidence_col t\<rparr>)
      | None \<Rightarrow>
          \<lparr>rk_task = task_id t, rk_scored = False, rk_base = None,
           rk_effective = priority_fallback_score (priority t), rk_components = None,
           rk_propagation = [], rk_evidence = None\<rparr>)"

definition compare_ranked :: "(id, task) jsmap \<Rightarrow> ranked \<Rightarrow> ranked \<Rightarrow> rat" where
  "compare_ranked m a b =
     (if rk_effective b \<noteq> rk_effective a then rk_effective b - rk_effective a
      else case (js_get m (rk_task a), js_get m (rk_task b)) of
        (Some ta, Some tb) \<Rightarrow>
          if created_at ta \<noteq> created_at tb then (if created_at ta < created_at tb then -1 else 1)
          else of_int (rk_task a - rk_task b)
      | _ \<Rightarrow> of_int (rk_task a - rk_task b))"

definition rank_tasks :: "task list \<Rightarrow> edge list \<Rightarrow> scope \<Rightarrow> ranked list" where
  "rank_tasks ts es sc =
     (let m = by_id ts; ids = map task_id ts;
          downstream = adjacency_lists ids es; blockersOf = blockers_map ids es;
          scoped = (case sc of Scope_frontier \<Rightarrow> filter (is_ready m blockersOf) ts | Scope_all \<Rightarrow> ts)
      in js_sort (compare_ranked m) (map (rank_row (base_cod_map ts) downstream) scoped))"

definition rank_frontier :: "id \<Rightarrow> scope \<Rightarrow> db \<Rightarrow> service_error + ranked list" where
  "rank_frontier p sc db =
     (let report = classify p db
      in if t_topology report = DAG_CYCLIC then Inl (Business_failed (Cyclic_project p))
         else Inr (rank_tasks (load_project_tasks p db) (t_edges report) sc))"

section \<open>The distances are the shortest ones\<close>

definition succ_rel :: "(id, id list) jsmap \<Rightarrow> (id \<times> id) set" where
  "succ_rel adj = {(u, v). v \<in> set (or_else (js_get adj u) [])}"

text \<open>
  The queue is ordered by distance and holds at most two consecutive distances; every node
  that left it has all its successors within one step.
\<close>

definition not_later :: "(id, nat) jsmap \<Rightarrow> id \<Rightarrow> id \<Rightarrow> bool" where
  "not_later dists a b \<longleftrightarrow>
     (\<forall>da db. js_get dists a = Some da \<longrightarrow> js_get dists b = Some db \<longrightarrow> da \<le> db)"

definition bfs_inv :: "(id \<times> id) set \<Rightarrow> id \<Rightarrow> (id, nat) jsmap \<Rightarrow> id list \<Rightarrow> bool" where
  "bfs_inv E s dists queue \<longleftrightarrow>
     js_get dists s = Some 0 \<and>
     (\<forall>v d. js_get dists v = Some d \<longrightarrow> (s, v) \<in> E ^^ d) \<and>
     (\<forall>q\<in>set queue. js_get dists q \<noteq> None) \<and>
     sorted_wrt (not_later dists) queue \<and>
     (queue \<noteq> [] \<longrightarrow> (\<forall>v d dq. js_get dists v = Some d \<longrightarrow> js_get dists (hd queue) = Some dq \<longrightarrow> d \<le> Suc dq)) \<and>
     (\<forall>u du v. js_get dists u = Some du \<longrightarrow> u \<notin> set queue \<longrightarrow> (u, v) \<in> E \<longrightarrow>
        (\<exists>dv. js_get dists v = Some dv \<and> dv \<le> Suc du))"

lemma bfs_inv_step:
  assumes inv: "bfs_inv (succ_rel adj) s dists (cur # rest)" and d: "js_get dists cur = Some d"
    and run: "bfs_visit d (or_else (js_get adj cur) []) dists rest = (dists', queue')"
  shows "bfs_inv (succ_rel adj) s dists' queue'"
proof -
  let ?E = "succ_rel adj" and ?ns = "or_else (js_get adj cur) []"
  obtain new where q': "queue' = rest @ new" and new: "set new = set ?ns - fst ` set dists"
    and get: "\<And>v. js_get dists' v = (if v \<in> set new then Some (Suc d) else js_get dists v)"
    using bfs_visit_keys [OF run] by blast
  from inv have i1: "js_get dists s = Some 0"
    and i2: "\<And>v d. js_get dists v = Some d \<Longrightarrow> (s, v) \<in> ?E ^^ d"
    and i3: "\<And>q. q \<in> set rest \<Longrightarrow> js_get dists q \<noteq> None"
    and i4: "\<And>q dq. q \<in> set rest \<Longrightarrow> js_get dists q = Some dq \<Longrightarrow> d \<le> dq"
    and i4': "sorted_wrt (not_later dists) rest"
    and i5: "\<And>v dv. js_get dists v = Some dv \<Longrightarrow> dv \<le> Suc d"
    and i6: "\<And>u du v. js_get dists u = Some du \<Longrightarrow> u \<notin> set (cur # rest) \<Longrightarrow> (u, v) \<in> ?E \<Longrightarrow>
        \<exists>dv. js_get dists v = Some dv \<and> dv \<le> Suc du"
    using d unfolding bfs_inv_def not_later_def by simp_all
  have fresh: "v \<in> set new \<Longrightarrow> js_get dists v = None" for v
    using new by (simp add: map_of_eq_None_iff)
  have mono: "js_get dists v = Some dv \<Longrightarrow> js_get dists' v = Some dv" for v dv
    using fresh get by (metis option.distinct(1))
  have old: "js_get dists' v = Some dv \<Longrightarrow> v \<notin> set new \<Longrightarrow> js_get dists v = Some dv" for v dv
    using get [of v] by simp
  have rest_old: "q \<in> set rest \<Longrightarrow> q \<notin> set new" for q using i3 fresh by blast
  have all: "js_get dists' v = Some dv \<Longrightarrow> dv \<le> Suc d" for v dv
    using get [of v] i5 by (auto split: if_splits)
  have "(s, v) \<in> ?E ^^ dv" if "js_get dists' v = Some dv" for v dv
  proof (cases "v \<in> set new")
    case True
    then have "(cur, v) \<in> ?E" using new by (auto simp: succ_rel_def)
    moreover have "dv = Suc d" using that get [of v] True by simp
    ultimately show ?thesis using i2 [OF d] by auto
  next
    case False
    with that get [of v] i2 show ?thesis by simp
  qed
  moreover have "sorted_wrt (not_later dists') (rest @ new)"
    unfolding sorted_wrt_append
  proof (intro conjI ballI)
    show "sorted_wrt (not_later dists') rest"
    proof (rule sorted_wrt_mono_rel [OF _ i4'])
      fix a b assume "a \<in> set rest" "b \<in> set rest" "not_later dists a b"
      then show "not_later dists' a b" using rest_old get [of a] get [of b] by (simp add: not_later_def)
    qed
    show "sorted_wrt (not_later dists') new"
      unfolding sorted_wrt_iff_nth_less not_later_def using get by simp
    show "not_later dists' a b" if "a \<in> set rest" "b \<in> set new" for a b
      using that get [of b] all by (simp add: not_later_def)
  qed
  moreover have "dv \<le> Suc dq"
    if "rest @ new \<noteq> []" "js_get dists' v = Some dv" "js_get dists' (hd (rest @ new)) = Some dq" for v dv dq
  proof -
    have "d \<le> dq"
    proof (cases "hd (rest @ new) \<in> set new")
      case True
      then show ?thesis using that(3) get by simp
    next
      case False
      then have "hd (rest @ new) \<in> set rest" using that(1) by (metis Un_iff hd_in_set set_append)
      then show ?thesis using that(3) old [OF _ False] i4 by blast
    qed
    with all [OF that(2)] show ?thesis by linarith
  qed
  moreover have "\<exists>dv. js_get dists' v = Some dv \<and> dv \<le> Suc du"
    if u: "js_get dists' u = Some du" and out: "u \<notin> set (rest @ new)" and uv: "(u, v) \<in> ?E" for u du v
  proof (cases "u = cur")
    case True
    then have "v \<in> set ?ns" "du = d" using uv u mono [OF d] by (auto simp: succ_rel_def)
    then have "js_get dists' v \<noteq> None" using new get [of v] by (cases "js_get dists v") (auto simp: map_of_eq_None_iff)
    with all \<open>du = d\<close> show ?thesis by auto
  next
    case False
    with out u old have "js_get dists u = Some du" "u \<notin> set (cur # rest)" by auto
    with i6 uv mono show ?thesis by blast
  qed
  moreover have "js_get dists' q \<noteq> None" if "q \<in> set (rest @ new)" for q
    using that get i3 by auto
  ultimately show ?thesis
    unfolding bfs_inv_def q' using mono [OF i1] by blast
qed

lemma bfs_result:
  "bfs_inv (succ_rel adj) s dists queue \<Longrightarrow> \<exists>D. bfs adj dists queue = Some D \<and> bfs_inv (succ_rel adj) s D []"
proof (induction adj dists queue rule: bfs.induct)
  case (2 adj dists cur rest)
  obtain d where d: "js_get dists cur = Some d"
    using "2.prems" by (auto simp: bfs_inv_def)
  obtain dists' queue' where run: "bfs_visit d (or_else (js_get adj cur) []) dists rest = (dists', queue')"
    by fastforce
  have "\<exists>D. bfs adj dists' queue' = Some D \<and> bfs_inv (succ_rel adj) s D []"
    by (rule "2.IH" [OF d run [symmetric]]) (rule bfs_inv_step [OF "2.prems" d run])
  with d run show ?case by simp
qed simp

lemma bfs_inv_within:
  assumes inv: "bfs_inv E s D []"
  shows "(s, v) \<in> E ^^ k \<Longrightarrow> \<exists>dv. js_get D v = Some dv \<and> dv \<le> k"
proof (induction k arbitrary: v)
  case 0
  then show ?case using inv by (simp add: bfs_inv_def)
next
  case (Suc k)
  then obtain u where u: "(s, u) \<in> E ^^ k" "(u, v) \<in> E" by auto
  from Suc.IH [OF u(1)] obtain du where du: "js_get D u = Some du" "du \<le> k" by blast
  have "\<exists>dv. js_get D v = Some dv \<and> dv \<le> Suc du" using inv du(1) u(2) by (simp add: bfs_inv_def)
  with du(2) show ?case by fastforce
qed

lemma bfs_inv_shortest:
  assumes inv: "bfs_inv E s D []"
  shows "js_get D v = Some d \<longleftrightarrow> (s, v) \<in> E ^^ d \<and> (\<forall>k<d. (s, v) \<notin> E ^^ k)"
proof
  assume d: "js_get D v = Some d"
  then have "(s, v) \<in> E ^^ d" using inv by (simp add: bfs_inv_def)
  moreover have "(s, v) \<notin> E ^^ k" if "k < d" for k
    using bfs_inv_within [OF inv, of v k] d that by auto
  ultimately show "(s, v) \<in> E ^^ d \<and> (\<forall>k<d. (s, v) \<notin> E ^^ k)" by blast
next
  assume path: "(s, v) \<in> E ^^ d \<and> (\<forall>k<d. (s, v) \<notin> E ^^ k)"
  then obtain dv where dv: "js_get D v = Some dv" "dv \<le> d" using bfs_inv_within [OF inv] by blast
  then have "(s, v) \<in> E ^^ dv" using inv by (simp add: bfs_inv_def)
  with path dv show "js_get D v = Some d" by (metis le_neq_implies_less)
qed

lemma dependents_of_inv: "bfs_inv (succ_rel adj) s (dependents_of adj s) []"
proof -
  have "bfs_inv (succ_rel adj) s [(s, 0)] [s]" by (simp add: bfs_inv_def not_later_def)
  then show ?thesis using bfs_result by (fastforce simp: dependents_of_def or_else_def)
qed

lemma succ_rel_adjacency:
  assumes "set es \<subseteq> set ids \<times> set ids"
  shows "succ_rel (adjacency_lists ids es) = set es"
proof -
  have "(u, v) \<in> succ_rel (adjacency_lists ids es) \<longleftrightarrow> u \<in> set ids \<and> (u, v) \<in> set es" for u v
    by (simp add: succ_rel_def adjacency_lists_get or_else_def set_succs)
  with assms show ?thesis by auto
qed

text \<open>
  The closure records, for each task, exactly the tasks that depend on it directly or
  indirectly, each once, at the length of a shortest chain of edges between them; the loop
  never hits its two internal errors.
\<close>

theorem dependents_shortest:
  assumes "set es \<subseteq> set ids \<times> set ids"
  shows "bfs (adjacency_lists ids es) [(i, 0)] [i] = Some (dependents_of (adjacency_lists ids es) i) \<and>
    (js_get (dependents_of (adjacency_lists ids es) i) j = Some d \<longleftrightarrow>
       (i, j) \<in> set es ^^ d \<and> (\<forall>k<d. (i, j) \<notin> set es ^^ k))"
proof
  have "bfs_inv (succ_rel (adjacency_lists ids es)) i [(i, 0)] [i]" by (simp add: bfs_inv_def not_later_def)
  from bfs_result [OF this]
  show "bfs (adjacency_lists ids es) [(i, 0)] [i] = Some (dependents_of (adjacency_lists ids es) i)"
    by (auto simp: dependents_of_def or_else_def)
  show "js_get (dependents_of (adjacency_lists ids es) i) j = Some d \<longleftrightarrow>
       (i, j) \<in> set es ^^ d \<and> (\<forall>k<d. (i, j) \<notin> set es ^^ k)"
    using bfs_inv_shortest [OF dependents_of_inv [of "adjacency_lists ids es" i]]
    unfolding succ_rel_adjacency [OF assms] .
qed

theorem dependents_shortest_witness:
  "dependents_of (adjacency_lists [1, 2, 3, 4] [(1, 2), (1, 3), (2, 4), (3, 4)]) 1 = [(1, 0), (2, 1), (3, 1), (4, 2)] \<and>
   (1, 4) \<in> set [(1::id, 2::id), (1, 3), (2, 4), (3, 4)] ^^ 2"
proof -
  have eq: "dependents_of (adjacency_lists [1, 2, 3, 4] [(1, 2), (1, 3), (2, 4), (3, 4)]) 1 =
      [(1, 0), (2, 1), (3, 1), (4, 2)]" by code_simp
  then show ?thesis
    using dependents_shortest [of "[(1, 2), (1, 3), (2, 4), (3, 4)]" "[1, 2, 3, 4]" 1 4 2] by simp
qed

section \<open>The ranking\<close>

lemma gamma_power [simp]: "0 \<le> PROPAGATION_GAMMA ^ n"
  by (simp add: PROPAGATION_GAMMA_def)

lemma cod_pos: "3 \<le> cod c"
proof -
  have "3 \<le> fib_val (c_value c) + fib_val (c_time c) + fib_val (c_risk c)"
    using fib_val_pos [of "c_value c"] fib_val_pos [of "c_time c"] fib_val_pos [of "c_risk c"] by linarith
  then show ?thesis unfolding cod_def by (simp only: of_int_le_iff [symmetric, where ?'a = rat] of_int_numeral)
qed

definition nonneg_map :: "(id, rat) jsmap \<Rightarrow> bool" where
  "nonneg_map m \<longleftrightarrow> (\<forall>j b. js_get m j = Some b \<longrightarrow> 0 \<le> b)"

lemma base_cod_nonneg: "js_get (base_cod_map ts) j = Some b \<Longrightarrow> 0 \<le> b"
proof -
  let ?f = "\<lambda>m t. case components_of t of None \<Rightarrow> m | Some c \<Rightarrow> js_put (task_id t) (cod c) m"
  have step: "nonneg_map m \<Longrightarrow> nonneg_map (?f m t)" for m t
    using cod_pos [of "the (components_of t)"] by (auto simp: nonneg_map_def split: option.splits)
  have "nonneg_map m \<Longrightarrow> nonneg_map (foldl ?f m ts)" for m
    by (induction ts arbitrary: m) (simp_all add: step)
  moreover have "nonneg_map []" by (simp add: nonneg_map_def)
  ultimately have "nonneg_map (base_cod_map ts)" unfolding base_cod_map_def .
  then show "js_get (base_cod_map ts) j = Some b \<Longrightarrow> 0 \<le> b" by (simp add: nonneg_map_def)
qed

lemma contributions_nonneg: "0 \<le> sum_list (map snd (contributions (base_cod_map ts) i D))"
proof (rule sum_list_nonneg)
  fix x assume "x \<in> set (map snd (contributions (base_cod_map ts) i D))"
  then show "0 \<le> x"
    by (auto simp: contributions_def map_filter_def base_cod_nonneg split: option.splits prod.splits)
qed

lemma effective_cod_bounds:
  "0 \<le> base \<Longrightarrow> 0 \<le> sum_list (map snd cs) \<Longrightarrow>
     base \<le> effective_cod base cs \<and> effective_cod base cs \<le> 3 * base"
  by (auto simp: effective_cod_def PROPAGATION_CAP_def)

text \<open>
  Propagation only ever raises a score and never beyond three times its base: every
  scored row of a ranking has an effective score between its own score and three times it;
  an unscored row has the score of its priority.
\<close>

theorem rank_bounds:
  "\<forall>r\<in>set (rank_tasks ts es sc).
     case rk_base r of
       Some b \<Rightarrow> 0 < b \<and> b \<le> rk_effective r \<and> rk_effective r \<le> 3 * b
     | None \<Rightarrow> rk_effective r \<in> {1, 3, 6, 9}"
proof
  fix r assume "r \<in> set (rank_tasks ts es sc)"
  then obtain t where r: "r = rank_row (base_cod_map ts) (adjacency_lists (map task_id ts) es) t"
    by (auto simp: rank_tasks_def Let_def split: scope.splits)
  show "case rk_base r of
       Some b \<Rightarrow> 0 < b \<and> b \<le> rk_effective r \<and> rk_effective r \<le> 3 * b
     | None \<Rightarrow> rk_effective r \<in> {1, 3, 6, 9}"
  proof (cases "components_of t")
    case None
    then show ?thesis by (cases "priority t") (simp_all add: r rank_row_def)
  next
    case (Some c)
    let ?j = "of_int (max (fib_val (c_job c)) 1) :: rat"
    let ?cs = "contributions (base_cod_map ts) (task_id t)
      (dependents_of (adjacency_lists (map task_id ts) es) (task_id t))"
    have j: "0 < ?j" by simp
    have b: "compute_wsjf c = cod c / ?j" by (simp add: compute_wsjf_def cod_def)
    have "cod c \<le> effective_cod (cod c) ?cs" "effective_cod (cod c) ?cs \<le> 3 * cod c"
      using effective_cod_bounds [OF _ contributions_nonneg] cod_pos [of c] by auto
    then have "cod c / ?j \<le> effective_cod (cod c) ?cs / ?j" "effective_cod (cod c) ?cs / ?j \<le> 3 * (cod c / ?j)"
      using j by (simp_all only: divide_right_mono times_divide_eq_right less_imp_le)
    moreover have "0 < cod c / ?j" using cod_pos [of c] j by (intro divide_pos_pos) linarith+
    ultimately show ?thesis
      using Some by (simp add: r rank_row_def Let_def b)
  qed
qed

theorem rank_bounds_witness:
  "list_all (\<lambda>r. rk_effective r \<in> {1, 3, 6, 9}) (rank_tasks [new_row 0 1 sample_create] [] Scope_all)"
proof -
  have "rank_tasks [new_row 0 1 sample_create] [] Scope_all =
     [\<lparr>rk_task = 1, rk_scored = False, rk_base = None, rk_effective = 3, rk_components = None,
       rk_propagation = [], rk_evidence = None\<rparr>]"
    by (simp add: rank_tasks_def Let_def rank_row_def components_of_def new_row_def sample_create_def
        set_wsjf_def)
  with rank_bounds [of "[new_row 0 1 sample_create]" "[]" Scope_all] show ?thesis by simp
qed

section \<open>Who is ranked, and in which order\<close>

lemma by_id_get:
  assumes "distinct (map task_id ts)"
  shows "js_get (by_id ts) i = find (\<lambda>t. task_id t = i) ts"
proof -
  have "js_get (foldl (\<lambda>m t. js_put (task_id t) t m) m ts) i =
      (case find (\<lambda>t. task_id t = i) ts of None \<Rightarrow> js_get m i | Some t \<Rightarrow> Some t)"
    if "distinct (map task_id ts)" for m :: "(id, task) jsmap"
    using that
  proof (induction ts arbitrary: m)
    case (Cons t ts)
    then have "task_id t \<notin> task_id ` set ts" by simp
    then have "find (\<lambda>u. task_id u = task_id t) ts = None" unfolding find_None_iff by (metis imageI)
    with Cons show ?case by (auto split: option.splits)
  qed simp
  from this [OF assms, of "[]"] show ?thesis by (simp add: by_id_def split: option.splits)
qed

lemma find_id_iff:
  "distinct (map task_id ts) \<Longrightarrow> find (\<lambda>t. task_id t = i) ts = Some t \<longleftrightarrow> t \<in> set ts \<and> task_id t = i"
  by (induction ts) auto

lemma is_ready_iff:
  assumes "distinct (map task_id ts)" and "set es \<subseteq> set (map task_id ts) \<times> set (map task_id ts)"
    and "t \<in> set ts"
  shows "is_ready (by_id ts) (blockers_map (map task_id ts) es) t \<longleftrightarrow>
    status t \<noteq> Blocked \<and>
    (\<forall>u\<in>set ts. (task_id u, task_id t) \<in> set es \<longrightarrow> status u = Done \<or> status u = Closed)"
proof -
  have "set (or_else (js_get (blockers_map (map task_id ts) es) (task_id t)) []) = {b. (b, task_id t) \<in> set es}"
    using assms(3) by (force simp: blockers_map_def adjacency_lists_get or_else_def set_succs image_iff)
  then have "is_ready (by_id ts) (blockers_map (map task_id ts) es) t \<longleftrightarrow> status t \<noteq> Blocked \<and>
      (\<forall>b. (b, task_id t) \<in> set es \<longrightarrow> (\<forall>u. js_get (by_id ts) b = Some u \<longrightarrow> status u \<in> {Done, Closed}))"
    by (auto simp: is_ready_def list_all_iff split: option.splits)
  then show ?thesis by (auto simp: by_id_get [OF assms(1)] find_id_iff [OF assms(1)])
qed

lemma rank_row_task [simp]: "rk_task (rank_row base adj t) = task_id t"
  by (simp add: rank_row_def Let_def split: option.splits)

lemma rank_tasks_ids:
  "rk_task ` set (rank_tasks ts es sc) =
     task_id ` {t \<in> set ts. sc = Scope_all \<or> is_ready (by_id ts) (blockers_map (map task_id ts) es) t}"
  by (cases sc) (auto simp: rank_tasks_def Let_def image_image)

interpretation rank_order: js_comparator "compare_ranked m" "{r. js_get m (rk_task r) \<noteq> None}" for m
proof
  fix a b c :: ranked
  assume ab: "a \<in> {r. js_get m (rk_task r) \<noteq> None}" "b \<in> {r. js_get m (rk_task r) \<noteq> None}"
  then show "compare_ranked m a b \<le> 0 \<or> compare_ranked m b a \<le> 0"
    by (auto simp: compare_ranked_def split: if_splits)
  assume c: "c \<in> {r. js_get m (rk_task r) \<noteq> None}"
    and le: "compare_ranked m a b \<le> 0" "compare_ranked m b c \<le> 0"
  with ab show "compare_ranked m a c \<le> 0"
    by (auto simp: compare_ranked_def split: if_splits)
qed

text \<open>The order of the rows: better score first, then the older task, then the smaller id.\<close>

definition ranked_before :: "(id, task) jsmap \<Rightarrow> ranked \<Rightarrow> ranked \<Rightarrow> bool" where
  "ranked_before m a b \<longleftrightarrow>
     rk_effective b < rk_effective a \<or> rk_effective a = rk_effective b \<and>
       (case (js_get m (rk_task a), js_get m (rk_task b)) of
          (Some s, Some t) \<Rightarrow> created_at s < created_at t \<or> created_at s = created_at t \<and> rk_task a \<le> rk_task b
        | _ \<Rightarrow> False)"

lemma compare_ranked_le:
  "js_get m (rk_task a) \<noteq> None \<Longrightarrow> js_get m (rk_task b) \<noteq> None \<Longrightarrow> compare_ranked m a b \<le> 0 \<Longrightarrow>
     ranked_before m a b"
  by (auto simp: compare_ranked_def ranked_before_def split: if_splits)

lemma rank_tasks_sorted: "sorted_wrt (ranked_before (by_id ts)) (rank_tasks ts es sc)"
proof -
  have keys: "t \<in> set ts \<Longrightarrow> js_get (by_id ts) (task_id t) \<noteq> None" for t
  proof -
    have "js_get m i \<noteq> None \<or> i \<in> task_id ` set ts \<Longrightarrow>
        js_get (foldl (\<lambda>m t. js_put (task_id t) t m) m ts) i \<noteq> None" for m :: "(id, task) jsmap" and i
      by (induction ts arbitrary: m) auto
    then show "t \<in> set ts \<Longrightarrow> js_get (by_id ts) (task_id t) \<noteq> None" by (simp add: by_id_def)
  qed
  obtain rows where rank: "rank_tasks ts es sc = js_sort (compare_ranked (by_id ts)) rows"
    and rows: "\<forall>r\<in>set rows. js_get (by_id ts) (rk_task r) \<noteq> None"
  proof
    show "rank_tasks ts es sc = js_sort (compare_ranked (by_id ts))
        (map (rank_row (base_cod_map ts) (adjacency_lists (map task_id ts) es))
          (case sc of Scope_frontier \<Rightarrow> filter (is_ready (by_id ts) (blockers_map (map task_id ts) es)) ts
            | Scope_all \<Rightarrow> ts))"
      by (simp add: rank_tasks_def Let_def)
  qed (use keys in \<open>auto split: scope.splits\<close>)
  have "sorted_wrt (\<lambda>a b. compare_ranked (by_id ts) a b \<le> 0) (rank_tasks ts es sc)"
    unfolding rank by (rule rank_order.js_sort_sorted) (use rows in blast)
  then show ?thesis
    by (rule sorted_wrt_mono_rel [rotated]) (use rows compare_ranked_le in \<open>simp add: rank\<close>)
qed

lemma insert_by_mset: "mset (insert_by cmp x xs) = add_mset x (mset xs)"
  by (induction xs) auto

lemma js_sort_mset: "mset (js_sort cmp xs) = mset xs"
  by (induction xs) (auto simp: insert_by_mset)

lemma rank_tasks_distinct: "distinct (map task_id ts) \<Longrightarrow> distinct (map rk_task (rank_tasks ts es sc))"
proof -
  assume d: "distinct (map task_id ts)"
  let ?scoped = "case sc of
      Scope_frontier \<Rightarrow> filter (is_ready (by_id ts) (blockers_map (map task_id ts) es)) ts | Scope_all \<Rightarrow> ts"
  have "mset (map rk_task (rank_tasks ts es sc)) = mset (map task_id ?scoped)"
    by (simp add: rank_tasks_def Let_def js_sort_mset image_mset.compositionality comp_def)
  moreover have "distinct (map task_id ?scoped)"
    using d by (auto split: scope.splits intro: distinct_map_filter)
  ultimately show ?thesis by (metis mset_eq_imp_distinct_iff)
qed

text \<open>The project's rows, the edges between them and the report of the classifier.\<close>

definition in_project :: "id \<Rightarrow> db \<Rightarrow> task \<Rightarrow> bool" where
  "in_project p db t \<longleftrightarrow> t \<in> set (tasks db) \<and> project_id t = p"

definition ready :: "id \<Rightarrow> db \<Rightarrow> task \<Rightarrow> bool" where
  "ready p db t \<longleftrightarrow> status t \<noteq> Blocked \<and>
     (\<forall>u. in_project p db u \<longrightarrow> (task_id u, task_id t) \<in> set (edges db) \<longrightarrow>
        status u = Done \<or> status u = Closed)"

lemma classify_edges: "set (t_edges (classify p db)) =
    set (in_project_edges (project_id_set p db) (edges db))"
  by (simp add: classify_def classify_graph_def Let_def)

text \<open>The dependency edges between two tasks of the project.\<close>

definition project_edges :: "id \<Rightarrow> db \<Rightarrow> (id \<times> id) set" where
  "project_edges p db = set (edges db) \<inter> set (project_id_set p db) \<times> set (project_id_set p db)"

lemma classify_cyclic_iff: "t_topology (classify p db) = DAG_CYCLIC \<longleftrightarrow> \<not> acyclic (project_edges p db)"
  unfolding project_edges_def set_in_project_edges [symmetric]
  by (auto simp: classify_def classify_graph_def Let_def has_cycle_iff split: if_splits)

lemma rank_frontier_set:
  assumes wf: "db_wf db" and rank: "rank_frontier p Scope_frontier db = Inr rs"
  shows "rk_task ` set rs = task_id ` {t. in_project p db t \<and> ready p db t}"
proof -
  let ?ts = "project_tasks p db" and ?es = "t_edges (classify p db)"
  let ?strip = "\<lambda>t. t\<lparr>tags := []\<rparr>"
  have rs: "rs = rank_tasks ?ts ?es Scope_frontier"
    using rank by (simp add: rank_frontier_def load_project_tasks_eq Let_def split: if_splits)
  have d: "distinct (map task_id ?ts)" by (rule distinct_project_tasks [OF wf])
  have ids: "set (project_id_set p db) = set (map task_id ?ts)"
    by (simp add: project_id_set_eq(2) [OF wf] set_project_tasks_ids)
  have es: "set ?es = set (edges db) \<inter> set (map task_id ?ts) \<times> set (map task_id ?ts)"
    by (simp only: classify_edges set_in_project_edges ids)
  have ts: "set ?ts = ?strip ` {t. in_project p db t}"
    by (simp add: project_tasks_def in_project_def)
  have ready: "is_ready (by_id ?ts) (blockers_map (map task_id ?ts) ?es) (?strip t) \<longleftrightarrow> ready p db t"
    if t: "in_project p db t" for t
  proof -
    have "?strip t \<in> set ?ts" using ts t by blast
    moreover have "set ?es \<subseteq> set (map task_id ?ts) \<times> set (map task_id ?ts)" unfolding es by (rule Int_lower2)
    moreover have "(\<forall>u\<in>set ?ts. (task_id u, task_id t) \<in> R \<longrightarrow> status u = Done \<or> status u = Closed) \<longleftrightarrow>
        (\<forall>u. in_project p db u \<longrightarrow> (task_id u, task_id t) \<in> R \<longrightarrow> status u = Done \<or> status u = Closed)"
      for R unfolding ts by simp
    ultimately have "is_ready (by_id ?ts) (blockers_map (map task_id ?ts) ?es) (?strip t) \<longleftrightarrow>
        status t \<noteq> Blocked \<and> (\<forall>u. in_project p db u \<longrightarrow> (task_id u, task_id t) \<in> set ?es \<longrightarrow>
          status u = Done \<or> status u = Closed)"
      using is_ready_iff [OF d, of ?es "?strip t"] by simp
    also have "\<dots> \<longleftrightarrow> ready p db t"
    proof -
      have "(task_id u, task_id t) \<in> set ?es \<longleftrightarrow> (task_id u, task_id t) \<in> set (edges db)"
        if u: "in_project p db u" for u
      proof -
        have mem: "task_id v \<in> set (map task_id ?ts)" if "in_project p db v" for v
        proof -
          have "?strip v \<in> set ?ts" unfolding ts using that by (intro imageI CollectI)
          then have "task_id (?strip v) \<in> set (map task_id ?ts)" unfolding set_map by (rule imageI)
          then show ?thesis by simp
        qed
        show ?thesis unfolding es using mem [OF t] mem [OF u] by simp
      qed
      then show ?thesis unfolding ready_def by blast
    qed
    finally show ?thesis .
  qed
  have "rk_task ` set rs = task_id ` {t \<in> set ?ts. is_ready (by_id ?ts) (blockers_map (map task_id ?ts) ?es) t}"
    unfolding rs rank_tasks_ids by simp
  also have "\<dots> = task_id ` ?strip ` {t. in_project p db t \<and> ready p db t}"
    unfolding ts using ready by blast
  finally show ?thesis by (simp add: image_image)
qed

text \<open>
  C25.  A frontier ranking succeeds exactly on projects whose edges are acyclic: on a cyclic one
  it is refused, with the error that names the project.  Where it succeeds it lists exactly the
  project's ready tasks: those that are not blocked and whose blockers inside the project are
  all done or closed.
\<close>

theorem frontier_is_the_ready_set:
  assumes "db_wf db"
  shows "case rank_frontier p Scope_frontier db of
      Inr rs \<Rightarrow> acyclic (project_edges p db) \<and>
        rk_task ` set rs = task_id ` {t. in_project p db t \<and> ready p db t}
    | Inl e \<Rightarrow> \<not> acyclic (project_edges p db) \<and> e = Business_failed (Cyclic_project p)"
proof (cases "rank_frontier p Scope_frontier db")
  case (Inl e)
  then have "e = Business_failed (Cyclic_project p)" "t_topology (classify p db) = DAG_CYCLIC"
    by (auto simp: rank_frontier_def Let_def split: if_splits)
  then show ?thesis by (simp add: Inl classify_cyclic_iff)
next
  case (Inr rs)
  then have "t_topology (classify p db) \<noteq> DAG_CYCLIC" by (auto simp: rank_frontier_def Let_def)
  then show ?thesis using rank_frontier_set [OF assms Inr] by (simp add: Inr classify_cyclic_iff)
qed

text \<open>
  Every ranking is in order: a higher effective score first, on a tie the task that was
  created first, then the smaller id; and no task is listed twice.
\<close>

theorem ranking_sorted:
  assumes "db_wf db" and "rank_frontier p sc db = Inr rs"
  shows "sorted_wrt (ranked_before (by_id (load_project_tasks p db))) rs \<and> distinct (map rk_task rs)"
proof
  have rs: "rs = rank_tasks (load_project_tasks p db) (t_edges (classify p db)) sc"
    using assms(2) by (simp add: rank_frontier_def Let_def split: if_splits)
  show "sorted_wrt (ranked_before (by_id (load_project_tasks p db))) rs"
    unfolding rs by (rule rank_tasks_sorted)
  show "distinct (map rk_task rs)"
    unfolding rs by (rule rank_tasks_distinct) (simp add: load_project_tasks_eq distinct_project_tasks [OF assms(1)])
qed

definition ranked_ids :: "service_error + ranked list \<Rightarrow> id list option" where
  "ranked_ids r = (case r of Inl _ \<Rightarrow> None | Inr rs \<Rightarrow> Some (map rk_task rs))"

lemma ranked_ids_Some: "ranked_ids r = Some is \<longleftrightarrow> (\<exists>rs. r = Inr rs \<and> map rk_task rs = is)"
  by (auto simp: ranked_ids_def split: sum.splits)

theorem frontier_is_the_ready_set_witness:
  "db_wf sample_linked \<and> ranked_ids (rank_frontier 1 Scope_frontier sample_linked) = Some [1] \<and>
   task_id ` {t. in_project 1 sample_linked t \<and> ready 1 sample_linked t} = {1}"
proof -
  have one: "ranked_ids (rank_frontier 1 Scope_frontier sample_linked) = Some [1]" by code_simp
  then obtain rs where rs: "rank_frontier 1 Scope_frontier sample_linked = Inr rs" "map rk_task rs = [1]"
    by (auto simp: ranked_ids_Some)
  from rs(2) have "rk_task ` set rs = {1}" by auto
  with frontier_is_the_ready_set [OF sample_linked_wf(2), of 1] rs(1)
  show ?thesis using one sample_linked_wf(2) by simp
qed

theorem ranking_sorted_witness:
  "db_wf sample_linked \<and> ranked_ids (rank_frontier 1 Scope_all sample_linked) = Some [1, 2] \<and>
   (\<exists>rs. rank_frontier 1 Scope_all sample_linked = Inr rs \<and>
      sorted_wrt (ranked_before (by_id (load_project_tasks 1 sample_linked))) rs)"
proof -
  have "ranked_ids (rank_frontier 1 Scope_all sample_linked) = Some [1, 2]" by code_simp
  then show ?thesis
    using ranking_sorted [OF sample_linked_wf(2)] sample_linked_wf(2) by (fastforce simp: ranked_ids_Some)
qed

end
