(* ===== verification/Service_Monad.thy ===== *)
theory Service_Monad
  imports Service_Errors
begin

text \<open>
  A service call: from the database it finds to the error or value it ends with, the
  database it leaves and the events it emitted.  An error keeps the database as it was at
  the throw; only \<open>transaction\<close>, the driver's \<open>db.transaction\<close>, rolls back.
\<close>

datatype event_source = From_user | From_workflow

datatype event =
    Task_created task event_source
  | Task_updated task event_source
  | Task_deleted task event_source
  | Task_claimed task event_source
  | Status_changed task event_source status status
  | Claim_released task string stamp stamp

type_synonym 'a call = "db \<Rightarrow> (service_error + 'a) \<times> db \<times> event list"

definition ret :: "'a \<Rightarrow> 'a call" where
  "ret x db = (Inr x, db, [])"

definition throw :: "service_error \<Rightarrow> 'a call" where
  "throw e db = (Inl e, db, [])"

definition call_bind :: "'a call \<Rightarrow> ('a \<Rightarrow> 'b call) \<Rightarrow> 'b call" where
  "call_bind m f db =
     (case m db of
        (Inl e, db', evs) \<Rightarrow> (Inl e, db', evs)
      | (Inr x, db', evs) \<Rightarrow> (case f x db' of (r, db'', evs') \<Rightarrow> (r, db'', evs @ evs')))"

definition read_db :: "(db \<Rightarrow> 'a) \<Rightarrow> 'a call" where
  "read_db f db = (Inr (f db), db, [])"

definition emit :: "event \<Rightarrow> unit call" where
  "emit e db = (Inr (), db, [e])"

definition guard_call :: "bool \<Rightarrow> service_error \<Rightarrow> unit call" where
  "guard_call ok e = (if ok then ret () else throw e)"

definition write_db :: "(db \<Rightarrow> db_error + 'a \<times> db) \<Rightarrow> 'a call" where
  "write_db f db = (case f db of Inl e \<Rightarrow> (Inl (Db_failed e), db, []) | Inr (x, db') \<Rightarrow> (Inr x, db', []))"

definition service_db :: "(db \<Rightarrow> service_error + 'a \<times> db) \<Rightarrow> 'a call" where
  "service_db f db = (case f db of Inl e \<Rightarrow> (Inl e, db, []) | Inr (x, db') \<Rightarrow> (Inr x, db', []))"

definition modify_db :: "(db \<Rightarrow> db) \<Rightarrow> unit call" where
  "modify_db f db = (Inr (), f db, [])"

definition transaction :: "'a call \<Rightarrow> 'a call" where
  "transaction m db =
     (case m db of (Inl e, _, evs) \<Rightarrow> (Inl e, db, evs) | (Inr x, db', evs) \<Rightarrow> (Inr x, db', evs))"

fun each :: "('a \<Rightarrow> unit call) \<Rightarrow> 'a list \<Rightarrow> unit call" where
  "each f [] = ret ()"
| "each f (x # xs) = call_bind (f x) (\<lambda>_. each f xs)"

section \<open>Successful calls\<close>

text \<open>\<open>runs m db x db' evs\<close>: the call ends without an error.\<close>

definition runs :: "'a call \<Rightarrow> db \<Rightarrow> 'a \<Rightarrow> db \<Rightarrow> event list \<Rightarrow> bool" where
  "runs m db x db' evs \<longleftrightarrow> m db = (Inr x, db', evs)"

named_theorems runs_rules "when a call built from the combinators succeeds"

lemma runs_ret [runs_rules]: "runs (ret x) db y db' evs \<longleftrightarrow> y = x \<and> db' = db \<and> evs = []"
  by (auto simp: runs_def ret_def)

lemma runs_throw [runs_rules]: "\<not> runs (throw e) db y db' evs"
  by (simp add: runs_def throw_def)

lemma runs_read [runs_rules]: "runs (read_db f) db y db' evs \<longleftrightarrow> y = f db \<and> db' = db \<and> evs = []"
  by (auto simp: runs_def read_db_def)

lemma runs_emit [runs_rules]: "runs (emit e) db y db' evs \<longleftrightarrow> db' = db \<and> evs = [e]"
  by (auto simp: runs_def emit_def)

lemma runs_guard [runs_rules]: "runs (guard_call ok e) db y db' evs \<longleftrightarrow> ok \<and> db' = db \<and> evs = []"
  by (auto simp: runs_def guard_call_def ret_def throw_def)

lemma runs_write [runs_rules]: "runs (write_db f) db y db' evs \<longleftrightarrow> f db = Inr (y, db') \<and> evs = []"
  by (auto simp: runs_def write_db_def split: sum.splits)

lemma runs_service [runs_rules]: "runs (service_db f) db y db' evs \<longleftrightarrow> f db = Inr (y, db') \<and> evs = []"
  by (auto simp: runs_def service_db_def split: sum.splits)

lemma runs_modify [runs_rules]: "runs (modify_db f) db y db' evs \<longleftrightarrow> db' = f db \<and> evs = []"
  by (auto simp: runs_def modify_db_def)

lemma runs_transaction [runs_rules]: "runs (transaction m) db y db' evs \<longleftrightarrow> runs m db y db' evs"
  by (auto simp: runs_def transaction_def split: sum.splits prod.splits)

lemma runs_bind [runs_rules]:
  "runs (call_bind m f) db y db'' evs \<longleftrightarrow>
     (\<exists>x db' evs1 evs2. runs m db x db' evs1 \<and> runs (f x) db' y db'' evs2 \<and> evs = evs1 @ evs2)"
  by (auto simp: runs_def call_bind_def split: sum.splits prod.splits)

section \<open>Failing calls\<close>

text \<open>A call is atomic when an error leaves the database as it was found and emitted nothing.\<close>

definition atomic :: "'a call \<Rightarrow> bool" where
  "atomic m \<longleftrightarrow> (\<forall>db e db' evs. m db = (Inl e, db', evs) \<longrightarrow> db' = db \<and> evs = [])"

text \<open>A read-only call leaves the database alone and emits nothing, whether it fails or not.\<close>

definition quiet :: "'a call \<Rightarrow> bool" where
  "quiet m \<longleftrightarrow> (\<forall>db r db' evs. m db = (r, db', evs) \<longrightarrow> db' = db \<and> evs = [])"

text \<open>A call without events, and a call that cannot fail.\<close>

definition eventless :: "'a call \<Rightarrow> bool" where
  "eventless m \<longleftrightarrow> (\<forall>db. snd (snd (m db)) = [])"

definition total_on :: "(db \<Rightarrow> bool) \<Rightarrow> 'a call \<Rightarrow> bool" where
  "total_on P m \<longleftrightarrow> (\<forall>db. P db \<longrightarrow> (\<exists>x. fst (m db) = Inr x))"

lemma quiet_basic [intro, simp]:
  "quiet (ret x)" "quiet (throw e)" "quiet (read_db f)" "quiet (guard_call ok e)"
  by (auto simp: quiet_def ret_def throw_def read_db_def guard_call_def)

lemma eventless_basic [intro, simp]:
  "eventless (ret x)" "eventless (throw e)" "eventless (read_db f)" "eventless (guard_call ok e)"
  "eventless (write_db w)" "eventless (service_db s)" "eventless (modify_db g)"
  by (auto simp: eventless_def ret_def throw_def read_db_def guard_call_def write_db_def service_db_def
      modify_db_def split: sum.splits)

lemma eventless_bind [intro]:
  assumes "eventless m" and "\<And>x. eventless (f x)"
  shows "eventless (call_bind m f)"
  unfolding eventless_def
proof
  fix db
  obtain r db' evs where m: "m db = (r, db', evs)" by (cases "m db")
  then have "evs = []" using assms(1) unfolding eventless_def by (metis snd_conv)
  moreover have "snd (snd (f x db')) = []" for x using assms(2) unfolding eventless_def by blast
  ultimately show "snd (snd (call_bind m f db)) = []"
    using m by (cases r) (simp_all add: call_bind_def case_prod_beta)
qed

lemma eventless_transaction [intro]: "eventless m \<Longrightarrow> eventless (transaction m)"
  by (auto simp: eventless_def transaction_def case_prod_beta split: sum.splits)

lemma eventless_each [intro]: "(\<And>x. eventless (f x)) \<Longrightarrow> eventless (each f xs)"
  by (induction xs) (auto intro!: eventless_bind)

lemma runs_eventless: "runs m db x db' evs \<Longrightarrow> eventless m \<Longrightarrow> evs = []"
  by (metis eventless_def runs_def snd_conv)

lemma atomic_basic [intro, simp]:
  "quiet m \<Longrightarrow> atomic m" "atomic (write_db w)" "atomic (service_db s)" "atomic (emit ev)" "atomic (modify_db g)"
  by (auto simp: quiet_def atomic_def write_db_def service_db_def emit_def modify_db_def split: sum.splits prod.splits)

lemma atomic_bind_quiet [intro]:
  "quiet m \<Longrightarrow> (\<And>x. atomic (f x)) \<Longrightarrow> atomic (call_bind m f)"
  unfolding atomic_def quiet_def call_bind_def by (fastforce split: sum.splits prod.splits)

lemma atomic_transaction [intro]: "eventless m \<Longrightarrow> atomic (transaction m)"
  unfolding atomic_def eventless_def transaction_def by (auto simp: case_prod_beta split: sum.splits)

text \<open>After the last step that can fail, the rest may write and emit.\<close>

definition never_fails :: "'a call \<Rightarrow> bool" where
  "never_fails m \<longleftrightarrow> (\<forall>db. \<exists>x. fst (m db) = Inr x)"

lemma never_fails_basic [intro, simp]:
  "never_fails (ret x)" "never_fails (read_db f)" "never_fails (emit e)" "never_fails (modify_db g)"
  by (auto simp: never_fails_def ret_def read_db_def emit_def modify_db_def)

lemma never_fails_bind [intro]:
  assumes "never_fails m" and "\<And>x. never_fails (f x)"
  shows "never_fails (call_bind m f)"
  unfolding never_fails_def
proof
  fix db
  obtain x db' evs where m: "m db = (Inr x, db', evs)"
    using assms(1) unfolding never_fails_def by (metis prod.collapse)
  moreover obtain y where "fst (f x db') = Inr y" using assms(2) unfolding never_fails_def by blast
  ultimately show "\<exists>y. fst (call_bind m f db) = Inr y"
    by (simp add: call_bind_def case_prod_beta)
qed

lemma atomic_bind_total [intro]:
  "atomic m \<Longrightarrow> (\<And>x. never_fails (f x)) \<Longrightarrow> atomic (call_bind m f)"
  unfolding atomic_def never_fails_def call_bind_def
  by (auto split: sum.splits prod.splits) (metis Inl_Inr_False fst_conv)+

end
