(* ===== verification/Dependency_Service.thy ===== *)
theory Dependency_Service
  imports Cycle_Detector Store_Invariant Service_Errors
begin

text \<open>
  The dependency service of \<open>src/services/dependency.service.ts\<close>: adding an edge after the
  schema, existence and cycle checks, removing one, and the two directions of lookup.  It
  is a client of the cycle check, so its invariant rests on the contract's facts.
\<close>

definition add_dependency :: "stamp \<Rightarrow> id \<Rightarrow> id \<Rightarrow> db \<Rightarrow> service_error + dep \<times> db" where
  "add_dependency now u v db =
     (if \<not> (u > 0 \<and> v > 0) then Inl (Validation_failed Schema_rejected)
      else if u = v then Inl (Validation_failed Self_dependency)
      else if find_by_id db u = None then Inl (Not_found Task_entity u)
      else if find_by_id db v = None then Inl (Not_found Task_entity v)
      else if detector_closes (edges db) u v then Inl (Business_failed (Would_cycle u v))
      else lift_db (dep_create now u v db))"

definition remove_dependency :: "id \<Rightarrow> id \<Rightarrow> db \<Rightarrow> service_error + db" where
  "remove_dependency u v db =
     (case dep_delete u v db of (deleted, db') \<Rightarrow>
        if \<not> deleted then Inl (Not_found Dependency_entity u) else Inr db')"

definition get_blocked_by :: "id \<Rightarrow> db \<Rightarrow> dep list" where
  "get_blocked_by i db = dep_find_by_task i db"

definition get_blockers :: "id \<Rightarrow> db \<Rightarrow> dep list" where
  "get_blockers i db = dep_find_blocking i db"

lemma find_by_id_None [simp]: "find_by_id db i = None \<longleftrightarrow> row db i = None"
  by (simp add: find_by_id_def)

lemma edges_dep_create: "dep_create now u v db = Inr (d, db') \<Longrightarrow> edges db' = edges db @ [(u, v)]"
  by (auto simp: dep_create_def Let_def edges_def split: if_splits)

lemma add_dependency_Inr:
  "add_dependency now u v db = Inr (d, db') \<longleftrightarrow>
     u > 0 \<and> v > 0 \<and> u \<noteq> v \<and> row db u \<noteq> None \<and> row db v \<noteq> None \<and>
     \<not> detector_closes (edges db) u v \<and> dep_create now u v db = Inr (d, db')"
  by (auto simp: add_dependency_def simp del: not_None_eq)

lemma add_dependency_edges:
  "add_dependency now u v db = Inr (d, db') \<Longrightarrow> edges db' = edges db @ [(u, v)]"
  using edges_dep_create by (simp add: add_dependency_Inr) blast

lemma add_dependency_acyclic:
  "add_dependency now u v db = Inr (d, db') \<Longrightarrow> acyclic (set (edges db'))"
  using detector.accepted_keeps_acyclic by (metis add_dependency_Inr edges_dep_create)

text \<open>
  C24.  On an acyclic database the service adds an edge exactly when both ids are positive
  and different, both tasks exist, the blocked task does not already lead to the blocker
  along existing edges, and the edge is new; it then appends that one edge and the graph is
  acyclic again.
\<close>

theorem add_dependency_accepts_iff:
  assumes "acyclic (set (edges db))"
  shows "(\<exists>d db'. add_dependency now u v db = Inr (d, db') \<and>
            edges db' = edges db @ [(u, v)] \<and> acyclic (set (edges db'))) \<longleftrightarrow>
     u > 0 \<and> v > 0 \<and> u \<noteq> v \<and> row db u \<noteq> None \<and> row db v \<noteq> None \<and>
     (v, u) \<notin> (set (edges db))\<^sup>* \<and> (u, v) \<notin> set (edges db)"
proof -
  have new: "(\<exists>d db'. dep_create now u v db = Inr (d, db')) \<longleftrightarrow>
      u \<noteq> v \<and> row db u \<noteq> None \<and> row db v \<noteq> None \<and> (u, v) \<notin> set (edges db)"
    by (auto simp: dep_create_def Let_def)
  have "(\<exists>d db'. add_dependency now u v db = Inr (d, db')) \<longleftrightarrow>
     u > 0 \<and> v > 0 \<and> u \<noteq> v \<and> row db u \<noteq> None \<and> row db v \<noteq> None \<and>
     (v, u) \<notin> (set (edges db))\<^sup>* \<and> (u, v) \<notin> set (edges db)"
    unfolding add_dependency_Inr detector.closes_iff_path [OF assms] using new by blast
  then show ?thesis using add_dependency_edges add_dependency_acyclic by blast
qed

theorem add_dependency_accepts_iff_witness:
  "acyclic (set (edges sample_pair)) \<and>
   (\<exists>d db'. add_dependency 0 1 2 sample_pair = Inr (d, db') \<and>
      edges db' = [(1, 2)] \<and> acyclic (set (edges db')))"
proof -
  have e: "edges sample_pair = []" by (simp add: sample_pair_def sample_empty_def edges_def)
  then have a: "acyclic (set (edges sample_pair))" by simp
  have "row sample_pair 1 \<noteq> None" "row sample_pair 2 \<noteq> None"
    by (simp_all add: sample_pair_def row_def)
  with add_dependency_accepts_iff [OF a, of 0 1 2] a e show ?thesis by auto
qed

text \<open>The edge set stays acyclic whatever the services and repositories do.\<close>

inductive service_step :: "db \<Rightarrow> db \<Rightarrow> bool" where
  s_add: "add_dependency now u v db = Inr (d, db') \<Longrightarrow> service_step db db'"
| s_remove: "remove_dependency u v db = Inr db' \<Longrightarrow> service_step db db'"
| s_create: "repo_create now c db = Inr (t, db') \<Longrightarrow> service_step db db'"
| s_update: "repo_update now i u db = Inr (t, db') \<Longrightarrow> service_step db db'"
| s_delete: "service_step db (repo_delete i db)"

inductive_cases service_stepE: "service_step db db'"

lemma edges_other:
  "repo_create now c db = Inr (t, db') \<Longrightarrow> edges db' = edges db"
  "repo_update now i u db = Inr (t, db') \<Longrightarrow> edges db' = edges db"
  "set (edges (repo_delete i db)) \<subseteq> set (edges db)"
  "set (edges (snd (dep_delete u' v db))) \<subseteq> set (edges db)"
  by (auto simp: repo_create_def repo_update_def repo_delete_def dep_delete_def edges_def Let_def
      split: if_splits option.splits patch.splits)

lemma service_step_acyclic: "service_step db db' \<Longrightarrow> acyclic (set (edges db)) \<Longrightarrow> acyclic (set (edges db'))"
proof (induction rule: service_step.induct)
  case (s_add now u v db d db')
  then show ?case by (blast intro: add_dependency_acyclic)
next
  case (s_remove u v db db')
  then have "db' = snd (dep_delete u v db)"
    by (auto simp: remove_dependency_def split: prod.splits if_splits)
  with s_remove.prems show ?case by (metis acyclic_subset edges_other(4))
next
  case (s_delete db i)
  then show ?case by (metis acyclic_subset edges_other(3))
qed (simp_all add: edges_other)

end
