(* ===== verification/Task_Service.thy ===== *)
theory Task_Service
  imports Service_Monad Dependency_Service Wsjf_Rank
begin

text \<open>
  The task service of \<open>src/services/task.service.ts\<close>: each method is a call over the database
  that validates its input, runs its gates in the order of the code, writes through the
  repositories and emits its events.  \<open>now\<close> is the clock read by the call; \<open>env\<close> is the
  wiring of the constructor and the strict-evidence flag of the configuration.
\<close>

record env =
  strict_evidence :: bool
  has_db :: bool
  has_history :: bool
  has_dependency_service :: bool

definition audit_enabled :: "env \<Rightarrow> bool" where
  "audit_enabled e \<longleftrightarrow> has_db e \<and> has_history e"

definition DEFAULT_CLAIM_TTL_MINUTES :: int where "DEFAULT_CLAIM_TTL_MINUTES = 30"

section \<open>The input schemas\<close>

text \<open>Lengths are those of the schema, in characters.\<close>

definition len_within :: "nat \<Rightarrow> nat \<Rightarrow> string \<Rightarrow> bool" where
  "len_within lo hi s \<longleftrightarrow> lo \<le> length s \<and> length s \<le> hi"

definition valid_tags :: "string list \<Rightarrow> bool" where
  "valid_tags ts \<longleftrightarrow> length ts \<le> 20 \<and> list_all (len_within 1 50) ts"

definition valid_minutes :: "int \<Rightarrow> bool" where
  "valid_minutes m \<longleftrightarrow> 0 \<le> m \<and> m \<le> 10080"

text \<open>
  What the types of a score leave open of \<open>WsjfWriteSchema\<close>: the spans of its evidence are not empty.
\<close>

definition valid_spans :: "wsjf_evidence \<Rightarrow> bool" where
  "valid_spans e \<longleftrightarrow> c_value e \<noteq> [] \<and> c_time e \<noteq> [] \<and> c_risk e \<noteq> [] \<and> c_job e \<noteq> []"

definition valid_wsjf_write :: "wsjf_write \<Rightarrow> bool" where
  "valid_wsjf_write w \<longleftrightarrow>
     opt_all (w_evidence w) valid_spans \<and> opt_all (w_classifications w) (\<lambda>c. valid_spans (cl_evidence c))"

definition create_schema :: "create_dto \<Rightarrow> bool" where
  "create_schema d \<longleftrightarrow>
     len_within 1 255 (d_title d) \<and>
     opt_all (d_description d) (len_within 0 5000) \<and>
     d_project_id d > 0 \<and>
     opt_all (d_parent_task_id d) (\<lambda>p. p > 0) \<and>
     opt_all (d_estimated_minutes d) valid_minutes \<and>
     opt_all (d_assignee d) (len_within 0 100) \<and>
     len_within 1 100 (d_created_by d) \<and>
     valid_tags (d_tags d) \<and>
     opt_all (d_acceptance_criteria d) (len_within 0 5000) \<and>
     opt_all (d_created_by_user_id d) (\<lambda>i. i > 0) \<and>
     opt_all (d_assignee_user_id d) (\<lambda>i. i > 0) \<and>
     opt_all (d_wsjf d) valid_wsjf_write"

fun put_all :: "'a patch \<Rightarrow> ('a \<Rightarrow> bool) \<Rightarrow> bool" where
  "put_all (Put x) P = P x"
| "put_all _ P = True"

definition valid_evidence :: "verification_evidence \<Rightarrow> bool" where
  "valid_evidence e \<longleftrightarrow>
     opt_all (checks e) (\<lambda>cs. length cs \<le> 50 \<and>
       list_all (\<lambda>c. len_within 1 200 (check_name c) \<and> len_within 0 2000 (evidence_text c)) cs) \<and>
     opt_all (verifier_session_id e) (len_within 1 200) \<and>
     opt_all (verifier_request_id e) (len_within 1 200)"

definition update_schema :: "update_dto \<Rightarrow> bool" where
  "update_schema u \<longleftrightarrow>
     opt_all (u_title u) (len_within 1 255) \<and>
     put_all (u_description u) (len_within 0 5000) \<and>
     put_all (u_parent_task_id u) (\<lambda>p. p > 0) \<and>
     put_all (u_estimated_minutes u) valid_minutes \<and>
     put_all (u_assignee u) (len_within 0 100) \<and>
     opt_all (u_tags u) valid_tags \<and>
     put_all (u_assignee_user_id u) (\<lambda>i. i > 0) \<and>
     put_all (u_acceptance_criteria u) (len_within 0 5000) \<and>
     put_all (u_evidence u) valid_evidence \<and>
     put_all (u_wsjf u) valid_wsjf_write \<and>
     opt_all (u_blocked_by u) (\<lambda>bs. 1 \<le> length bs \<and> length bs \<le> 50 \<and> list_all (\<lambda>b. b > 0) bs)"

section \<open>The audit trail\<close>

definition wsjf_row :: "id \<Rightarrow> id \<Rightarrow> wsjf_trigger \<Rightarrow> wsjf_write \<Rightarrow> rat option \<Rightarrow> history_row" where
  "wsjf_row tid pid tr w prev =
     (let c = w_components w in
      \<lparr>h_task_id = tid, h_project_id = pid, h_trigger = tr,
       h_components = \<lparr>c_value = Some (c_value c), c_time = Some (c_time c),
                       c_risk = Some (c_risk c), c_job = Some (c_job c)\<rparr>,
       h_score = Some (compute_wsjf c), h_prev_score = prev,
       h_classifications = w_classifications w, h_features = w_features w,
       h_evidence = w_evidence w, h_source = w_source w, h_locked = w_locked w,
       h_actor_type = None, h_actor_id = None,
       h_charter_version = Option.bind (w_features w) charter_version, h_rescore_run_id = None\<rparr>)"

definition append_row :: "history_row \<Rightarrow> db \<Rightarrow> db" where
  "append_row h db = db\<lparr>history := history db @ [h]\<rparr>"

definition append_wsjf_history ::
    "env \<Rightarrow> id \<Rightarrow> id \<Rightarrow> wsjf_trigger \<Rightarrow> wsjf_write \<Rightarrow> rat option \<Rightarrow> unit call" where
  "append_wsjf_history e tid pid tr w prev =
     (if \<not> has_history e then ret () else modify_db (append_row (wsjf_row tid pid tr w prev)))"

definition current_wsjf_score :: "task \<Rightarrow> rat option" where
  "current_wsjf_score t = map_option compute_wsjf (components_of t)"

definition size_history :: "id \<Rightarrow> id \<Rightarrow> wsjf_trigger \<Rightarrow> fib \<Rightarrow> rat option \<Rightarrow> history_row" where
  "size_history tid pid tr sz prev =
     \<lparr>h_task_id = tid, h_project_id = pid, h_trigger = tr,
      h_components = \<lparr>c_value = None, c_time = None, c_risk = None, c_job = Some sz\<rparr>,
      h_score = None, h_prev_score = prev, h_classifications = None, h_features = None,
      h_evidence = None, h_source = Some auto_source, h_locked = None, h_actor_type = None,
      h_actor_id = None, h_charter_version = None, h_rescore_run_id = None\<rparr>"

definition auto_size_task :: "env \<Rightarrow> stamp \<Rightarrow> id \<Rightarrow> fib \<Rightarrow> wsjf_trigger \<Rightarrow> task call" where
  "auto_size_task e now tid sz tr =
     call_bind (read_db (\<lambda>db. find_by_id db tid)) (\<lambda>found.
       case found of
         None \<Rightarrow> throw (Not_found Task_entity tid)
       | Some existing \<Rightarrow>
           if audit_enabled e then
             transaction (call_bind (write_db (write_auto_job_size now tid sz auto_source)) (\<lambda>updated.
               call_bind (modify_db (append_row (size_history (task_id updated) (project_id updated) tr sz
                   (current_wsjf_score existing)))) (\<lambda>_.
               ret updated)))
           else write_db (write_auto_job_size now tid sz auto_source))"

section \<open>The gates on a score\<close>

definition minutes_conflict :: "int option \<Rightarrow> wsjf_write option \<Rightarrow> validation_error option" where
  "minutes_conflict minutes w =
     (case (minutes, w) of
        (Some m, Some x) \<Rightarrow>
          if (case w_source x of Some s \<Rightarrow> c_job s = Auto | None \<Rightarrow> False) then None
          else if minutes_to_tier (Some m) \<noteq> c_job (w_components x)
          then Some (Minutes_conflict m (minutes_to_tier (Some m)) (c_job (w_components x)))
          else None
      | _ \<Rightarrow> None)"

definition manual_errors :: "wsjf_write option \<Rightarrow> score_error list" where
  "manual_errors w =
     (case w of
        Some x \<Rightarrow> if w_manual x = Some True
                  then (case validate_manual_score (w_components x) of Inl es \<Rightarrow> es | Inr _ \<Rightarrow> [])
                  else []
      | None \<Rightarrow> [])"

definition assert_score :: "int option \<Rightarrow> wsjf_write option \<Rightarrow> unit call" where
  "assert_score minutes w =
     (case minutes_conflict minutes w of
        Some v \<Rightarrow> throw (Validation_failed v)
      | None \<Rightarrow> guard_call (manual_errors w = []) (Validation_failed (Manual_rejected (manual_errors w))))"

section \<open>create\<close>

definition decomp_tag :: "create_dto \<Rightarrow> string option" where
  "decomp_tag d = find (\<lambda>t. starts_with ''decomp-'' t) (d_tags d)"

definition create_gates :: "create_dto \<Rightarrow> unit call" where
  "create_gates d =
     call_bind (guard_call (create_schema d) (Validation_failed Schema_rejected)) (\<lambda>_.
     call_bind (case decomp_tag d of
         Some tag \<Rightarrow> guard_call (d_wsjf d \<noteq> None) (Validation_failed (Decompose_unsized tag))
       | None \<Rightarrow> ret ()) (\<lambda>_.
     call_bind (read_db (\<lambda>db. find_project db (d_project_id d))) (\<lambda>project.
     call_bind (guard_call (project \<noteq> None) (Business_failed (No_project (d_project_id d)))) (\<lambda>_.
     call_bind (case d_parent_task_id d of
         None \<Rightarrow> ret ()
       | Some p \<Rightarrow>
           call_bind (read_db (\<lambda>db. find_by_id db p)) (\<lambda>parent.
             case parent of
               None \<Rightarrow> throw (Business_failed (No_parent p))
             | Some t \<Rightarrow> guard_call (project_id t = d_project_id d) (Business_failed Parent_other_project))) (\<lambda>_.
     assert_score (d_estimated_minutes d) (d_wsjf d))))))"

definition create_trigger :: "wsjf_write option \<Rightarrow> wsjf_trigger" where
  "create_trigger w =
     (case w of None \<Rightarrow> Tr_create
      | Some x \<Rightarrow> if w_manual x = Some True then Tr_manual else or_else (w_trigger x) Tr_create)"

text \<open>
  The DTO handed to the repository: what was asked for, with the status forced to open (the schema of
  a request has no status).
\<close>

definition forced_open :: "create_dto \<Rightarrow> create_dto" where
  "forced_open d = d\<lparr>d_status := Open\<rparr>"

definition insert_task :: "env \<Rightarrow> stamp \<Rightarrow> create_dto \<Rightarrow> task call" where
  "insert_task e now d =
     (case d_wsjf d of
        Some w \<Rightarrow>
          if audit_enabled e then
            transaction (call_bind (write_db (repo_create now (forced_open d))) (\<lambda>created.
              call_bind (append_wsjf_history e (task_id created) (project_id created)
                (create_trigger (d_wsjf d)) w None) (\<lambda>_.
              ret created)))
          else write_db (repo_create now (forced_open d))
      | None \<Rightarrow> write_db (repo_create now (forced_open d)))"

definition create_task :: "env \<Rightarrow> stamp \<Rightarrow> create_dto \<Rightarrow> task call" where
  "create_task e now d =
     call_bind (create_gates d) (\<lambda>_.
     call_bind (insert_task e now d) (\<lambda>created.
     call_bind (if d_wsjf d = None
       then auto_size_task e now (task_id created) (minutes_to_tier (d_estimated_minutes d)) Tr_auto_size
       else ret created) (\<lambda>t.
     call_bind (emit (Task_created t From_user)) (\<lambda>_.
     ret t))))"

section \<open>update\<close>

definition evidence_gate :: "env \<Rightarrow> update_dto \<Rightarrow> task \<Rightarrow> ident option \<Rightarrow> unit call" where
  "evidence_gate e u existing caller =
     (case u_evidence u of
        Put ev \<Rightarrow>
          if strict_evidence e then
            let vs = validate_verification_evidence ev
                 \<lparr>ctx_assignee = assignee existing,
                  ctx_assignee_user_id = map_option Id_num (assignee_user_id existing),
                  ctx_caller_id = caller\<rparr>
            in guard_call (vs = []) (Validation_failed (Evidence_rejected vs))
          else ret ()
      | _ \<Rightarrow> ret ())"

definition next_status :: "update_dto \<Rightarrow> task \<Rightarrow> status option" where
  "next_status u existing =
     (case u_status u of None \<Rightarrow> None
      | Some s \<Rightarrow> if s \<noteq> status existing then Some s else None)"

definition transition_gate :: "update_dto \<Rightarrow> task \<Rightarrow> unit call" where
  "transition_gate u existing =
     (case next_status u existing of
        None \<Rightarrow> ret ()
      | Some s \<Rightarrow> guard_call (s \<in> set (valid_status_transitions (status existing)))
                     (Business_failed (Bad_transition (status existing) s)))"

definition not_verified :: verification_evidence where
  "not_verified = \<lparr>verdict = NOT_VERIFIED, checks = None, verifier_session_id = None,
     verifier_request_id = None, verified_at = None\<rparr>"

definition repo_patch :: "update_dto \<Rightarrow> task \<Rightarrow> update_dto" where
  "repo_patch u existing =
     (let p = u\<lparr>u_blocked_by := None\<rparr>;
          closing = (next_status u existing = Some Done \<or> next_status u existing = Some Closed)
      in if closing \<and> u_evidence u = Absent \<and> evidence existing = None
         then p\<lparr>u_evidence := Put not_verified\<rparr> else p)"

fun put_option :: "'a patch \<Rightarrow> 'a option" where
  "put_option (Put x) = Some x"
| "put_option _ = None"

definition perform_write :: "env \<Rightarrow> stamp \<Rightarrow> id \<Rightarrow> update_dto \<Rightarrow> task \<Rightarrow> task call" where
  "perform_write e now i u existing =
     (case u_wsjf u of
        Put w \<Rightarrow>
          if audit_enabled e then
            transaction (call_bind (write_db (repo_update now i (repo_patch u existing))) (\<lambda>updated.
              call_bind (append_wsjf_history e (task_id updated) (project_id updated)
                (if w_manual w = Some True then Tr_manual else Tr_update) w
                (current_wsjf_score existing)) (\<lambda>_.
              ret updated)))
          else write_db (repo_update now i (repo_patch u existing))
      | _ \<Rightarrow> write_db (repo_update now i (repo_patch u existing)))"

definition add_blockers :: "stamp \<Rightarrow> id \<Rightarrow> id list \<Rightarrow> unit call" where
  "add_blockers now i blockers =
     call_bind (read_db (\<lambda>db. map dep_task (get_blockers i db))) (\<lambda>already.
       each (\<lambda>b. if b \<in> set already then ret ()
                 else call_bind (service_db (add_dependency now b i)) (\<lambda>_. ret ()))
         (js_set_of blockers))"

definition write_with_blockers :: "env \<Rightarrow> stamp \<Rightarrow> id \<Rightarrow> update_dto \<Rightarrow> task \<Rightarrow> task call" where
  "write_with_blockers e now i u existing =
     (case u_blocked_by u of
        None \<Rightarrow> perform_write e now i u existing
      | Some bs \<Rightarrow>
          if \<not> has_dependency_service e \<or> \<not> has_db e then throw (Business_failed Blocked_by_unwired)
          else transaction (call_bind (add_blockers now i bs) (\<lambda>_. perform_write e now i u existing)))"

definition minutes_changed :: "update_dto \<Rightarrow> task \<Rightarrow> bool" where
  "minutes_changed u existing \<longleftrightarrow>
     u_estimated_minutes u \<noteq> Absent \<and> put_option (u_estimated_minutes u) \<noteq> estimated_minutes existing"

definition resize_after :: "env \<Rightarrow> stamp \<Rightarrow> id \<Rightarrow> update_dto \<Rightarrow> task \<Rightarrow> task \<Rightarrow> task call" where
  "resize_after e now i u existing updated =
     (if minutes_changed u existing \<and>
         (case wsjf_source_col existing of Some s \<Rightarrow> c_job s = Auto | None \<Rightarrow> False)
      then auto_size_task e now i (minutes_to_tier (put_option (u_estimated_minutes u))) Tr_auto_size
      else ret updated)"

definition emit_changes :: "update_dto \<Rightarrow> task \<Rightarrow> event_source \<Rightarrow> task \<Rightarrow> unit call" where
  "emit_changes u existing src t =
     call_bind (emit (Task_updated t src)) (\<lambda>_.
       case next_status u existing of
         None \<Rightarrow> ret ()
       | Some s \<Rightarrow> emit (Status_changed t src (status existing) s))"

definition update_task ::
    "env \<Rightarrow> stamp \<Rightarrow> id \<Rightarrow> update_dto \<Rightarrow> event_source \<Rightarrow> ident option \<Rightarrow> task call" where
  "update_task e now i u src caller =
     call_bind (guard_call (update_schema u) (Validation_failed Schema_rejected)) (\<lambda>_.
     call_bind (guard_call (u_blocked_by u = None \<or> u_status u = Some Blocked)
       (Validation_failed Blocked_by_without_status)) (\<lambda>_.
     call_bind (read_db (\<lambda>db. find_by_id db i)) (\<lambda>found.
       case found of
         None \<Rightarrow> throw (Not_found Task_entity i)
       | Some existing \<Rightarrow>
           call_bind (evidence_gate e u existing caller) (\<lambda>_.
           call_bind (transition_gate u existing) (\<lambda>_.
           call_bind (assert_score (put_option (u_estimated_minutes u)) (put_option (u_wsjf u))) (\<lambda>_.
           call_bind (write_with_blockers e now i u existing) (\<lambda>updated.
           call_bind (resize_after e now i u existing updated) (\<lambda>t.
           call_bind (emit_changes u existing src t) (\<lambda>_.
           ret t)))))))))"

section \<open>delete and claim\<close>

definition delete_task :: "id \<Rightarrow> unit call" where
  "delete_task i =
     call_bind (read_db (\<lambda>db. find_by_id db i)) (\<lambda>found.
       case found of
         None \<Rightarrow> throw (Not_found Task_entity i)
       | Some existing \<Rightarrow>
           call_bind (emit (Task_deleted existing From_user)) (\<lambda>_. modify_db (repo_delete i)))"

text \<open>The repository's claim and renewal return \<open>None\<close> when their UPDATE changed no row.\<close>

definition cas_db :: "(db \<Rightarrow> 'a option \<times> db) \<Rightarrow> service_error \<Rightarrow> 'a call" where
  "cas_db f err db = (case f db of (None, db') \<Rightarrow> (Inl err, db', []) | (Some x, db') \<Rightarrow> (Inr x, db', []))"

definition claim_task :: "stamp \<Rightarrow> id \<Rightarrow> string \<Rightarrow> event_source \<Rightarrow> id option \<Rightarrow> task call" where
  "claim_task now i who src uid =
     call_bind (read_db (\<lambda>db. find_by_id db i)) (\<lambda>found.
       case found of
         None \<Rightarrow> throw (Not_found Task_entity i)
       | Some existing \<Rightarrow>
           if status existing = In_progress \<and> assignee existing = Some who then
             call_bind (cas_db (repo_renew_claim now i who) (Business_failed (Renew_failed i))) (\<lambda>renewed.
             call_bind (emit (Task_claimed renewed src)) (\<lambda>_. ret renewed))
           else if status existing \<noteq> Open then
             throw (Business_failed (Not_claimable i (status existing)))
           else if or_null_text (assignee existing) \<noteq> None then
             throw (Business_failed (Already_claimed i (or_else (assignee existing) [])))
           else
             call_bind (cas_db (repo_claim now i who uid) (Business_failed (Concurrent_claim i))) (\<lambda>claimed.
             call_bind (emit (Task_claimed claimed src)) (\<lambda>_. ret claimed)))"

section \<open>Reads\<close>

record task_view =
  v_task :: task
  v_claim :: "(int \<times> int) option"

text \<open>The claim window of a held task: its length in minutes and the whole seconds left of it.\<close>

definition with_claim_ttl :: "stamp \<Rightarrow> task \<Rightarrow> task_view" where
  "with_claim_ttl now t =
     (case claimed_at t of
        Some c \<Rightarrow>
          if status t \<noteq> In_progress \<or> assignee t = None then \<lparr>v_task = t, v_claim = None\<rparr>
          else let expires = max c (updated_at t) + DEFAULT_CLAIM_TTL_MINUTES * 60 * 1000
               in \<lparr>v_task = t, v_claim = Some (DEFAULT_CLAIM_TTL_MINUTES, max 0 ((expires - now) div 1000))\<rparr>
      | None \<Rightarrow> \<lparr>v_task = t, v_claim = None\<rparr>)"

definition get_task :: "stamp \<Rightarrow> id \<Rightarrow> db \<Rightarrow> service_error + task_view" where
  "get_task now i db =
     (case find_by_id db i of None \<Rightarrow> Inl (Not_found Task_entity i) | Some t \<Rightarrow> Inr (with_claim_ttl now t))"

definition find_project_id_for_task :: "id \<Rightarrow> db \<Rightarrow> id option" where
  "find_project_id_for_task i db = map_option project_id (find_by_id db i)"

definition propagated_value_prior :: "id \<Rightarrow> db \<Rightarrow> value_prior option" where
  "propagated_value_prior i db = Option.bind (find_by_id db i) derive_propagated_value_prior"

text \<open>The number of terms of a search: its maximal runs of characters that are not white space.\<close>

fun term_count :: "bool \<Rightarrow> string \<Rightarrow> nat" where
  "term_count inTerm [] = 0"
| "term_count inTerm (c # s) =
     (if is_space c then term_count False s else (if inTerm then 0 else 1) + term_count True s)"

definition filters_schema :: "filters \<Rightarrow> bool" where
  "filters_schema f \<longleftrightarrow>
     opt_all (f_project_id f) (\<lambda>p. p > 0) \<and>
     opt_all (f_search f) (\<lambda>s. 1 \<le> length s \<and> length s \<le> 200 \<and> term_count False s \<le> 32) \<and>
     opt_all (f_limit f) (\<lambda>l. 0 < l \<and> l \<le> 500) \<and>
     opt_all (f_offset f) (\<lambda>off. 0 \<le> off)"

fun lift_query :: "query_error + 'a \<Rightarrow> service_error + 'a" where
  "lift_query (Inl Fts_syntax_error) = Inl (Validation_failed Search_syntax)"
| "lift_query (Inr x) = Inr x"

definition list_tasks :: "fts_engine \<Rightarrow> filters \<Rightarrow> db \<Rightarrow> service_error + task list" where
  "list_tasks fts f db =
     (if \<not> filters_schema f then Inl (Validation_failed Schema_rejected)
      else lift_query (find_by_filters fts f db))"

record 'a paginated =
  pg_data :: "'a list"
  pg_total :: int
  pg_limit :: int
  pg_offset :: int

definition list_tasks_paginated :: "fts_engine \<Rightarrow> filters \<Rightarrow> db \<Rightarrow> service_error + task paginated" where
  "list_tasks_paginated fts f db =
     (if \<not> filters_schema f then Inl (Validation_failed Schema_rejected)
      else let lmt = or_else (f_limit f) DEFAULT_PAGE_LIMIT; off = or_else (f_offset f) DEFAULT_PAGE_OFFSET in
        bind_result (lift_query (find_by_filters fts (f\<lparr>f_limit := Some lmt, f_offset := Some off\<rparr>) db)) (\<lambda>rows.
        bind_result (lift_query (count_tasks fts (f\<lparr>f_limit := None, f_offset := None\<rparr>) db)) (\<lambda>total.
          Inr \<lparr>pg_data = rows, pg_total = total, pg_limit = lmt, pg_offset = off\<rparr>)))"

definition service_count_tasks :: "fts_engine \<Rightarrow> filters option \<Rightarrow> db \<Rightarrow> service_error + int" where
  "service_count_tasks fts f db =
     (case f of
        None \<Rightarrow> Inr (int (length (tasks db)))
      | Some x \<Rightarrow>
          if \<not> filters_schema x then Inl (Validation_failed Schema_rejected)
          else lift_query (count_tasks fts x db))"

definition search_tasks :: "fts_engine \<Rightarrow> string \<Rightarrow> db \<Rightarrow> service_error + task list" where
  "search_tasks fts q db = list_tasks fts (no_filters\<lparr>f_search := Some q\<rparr>) db"

definition get_subtasks :: "id \<Rightarrow> int option \<Rightarrow> int option \<Rightarrow> db \<Rightarrow> service_error + task list" where
  "get_subtasks i lmt off db =
     (if find_by_id db i = None then Inl (Not_found Task_entity i) else Inr (find_children i lmt off db))"

definition get_subtasks_paginated ::
    "id \<Rightarrow> int option \<Rightarrow> int option \<Rightarrow> db \<Rightarrow> service_error + task paginated" where
  "get_subtasks_paginated i lmt off db =
     (if find_by_id db i = None then Inl (Not_found Task_entity i)
      else let l = or_else lmt DEFAULT_PAGE_LIMIT; p = or_else off DEFAULT_PAGE_OFFSET
           in Inr \<lparr>pg_data = find_children i (Some l) (Some p) db, pg_total = count_children i db,
                   pg_limit = l, pg_offset = p\<rparr>)"

section \<open>The completion report\<close>

record report_input =
  ri_days :: "int option"
  ri_start :: "stamp option"
  ri_end :: "stamp option"
  ri_project :: "id option"
  ri_assignee :: "string option"

definition report_schema :: "report_input \<Rightarrow> bool" where
  "report_schema r \<longleftrightarrow>
     opt_all (ri_days r) (\<lambda>d. 1 \<le> d \<and> d \<le> 365) \<and>
     opt_all (ri_project r) (\<lambda>p. p > 0) \<and>
     opt_all (ri_assignee r) (len_within 1 100) \<and>
     (ri_days r \<noteq> None \<or> (case (ri_start r, ri_end r) of (Some a, Some b) \<Rightarrow> a \<le> b | _ \<Rightarrow> False))"

definition resolve_range :: "stamp \<Rightarrow> report_input \<Rightarrow> stamp \<times> stamp" where
  "resolve_range now r =
     (case ri_days r of
        Some d \<Rightarrow> (now - d * 24 * 60 * 60 * 1000, now)
      | None \<Rightarrow> (or_else (ri_start r) 0, or_else (ri_end r) 0))"

text \<open>\<open>Math.round\<close> of a number of seconds given in milliseconds: halves go up.\<close>

definition round_seconds :: "int \<Rightarrow> int" where
  "round_seconds ms = (ms + 500) div 1000"

record report_row =
  rr_task :: task
  rr_completed_at :: stamp
  rr_seconds :: int

definition report_row_of :: "task \<Rightarrow> report_row" where
  "report_row_of t =
     (let c = or_else (completed_at t) (updated_at t)
      in \<lparr>rr_task = t, rr_completed_at = c, rr_seconds = max 0 (round_seconds (c - created_at t))\<rparr>)"

definition bump_count :: "'k \<Rightarrow> ('k, nat) jsmap \<Rightarrow> ('k, nat) jsmap" where
  "bump_count k m = js_put k (or_else (js_get m k) 0 + 1) m"

text \<open>\<open>cmp\<close> is \<open>localeCompare\<close> on the texts of two keys.\<close>

definition aggregate :: "('k \<Rightarrow> 'k \<Rightarrow> int) \<Rightarrow> ('r \<Rightarrow> 'k) \<Rightarrow> 'r list \<Rightarrow> ('k \<times> nat) list" where
  "aggregate cmp key rows =
     js_sort (\<lambda>a b. if snd b \<noteq> snd a then int (snd b) - int (snd a) else cmp (fst a) (fst b))
       (foldl (\<lambda>m r. bump_count (key r) m) [] rows)"

record completion_report =
  cr_range :: "stamp \<times> stamp"
  cr_total :: nat
  cr_rows :: "report_row list"
  cr_by_project :: "(id \<times> nat) list"
  cr_by_assignee :: "(string \<times> nat) list"
  cr_by_priority :: "(priority \<times> nat) list"
  cr_daily :: "(int \<times> nat) list"

text \<open>
  The comparisons of keys are parameters, since collation is the runtime's; a day is the
  number of its date, which orders as its ISO text does.
\<close>

record collation =
  coll_id :: "id \<Rightarrow> id \<Rightarrow> int"
  coll_text :: "string \<Rightarrow> string \<Rightarrow> int"
  coll_priority :: "priority \<Rightarrow> priority \<Rightarrow> int"

definition get_completion_report ::
    "collation \<Rightarrow> stamp \<Rightarrow> report_input \<Rightarrow> db \<Rightarrow> service_error + completion_report" where
  "get_completion_report coll now r db =
     (if \<not> report_schema r then Inl (Validation_failed Schema_rejected)
      else let range = resolve_range now r;
               rows = map report_row_of
                 (find_completed_in_range (fst range) (snd range) (ri_project r) (ri_assignee r) db)
           in Inr \<lparr>cr_range = range, cr_total = length rows, cr_rows = rows,
                   cr_by_project = aggregate (coll_id coll) (\<lambda>x. project_id (rr_task x)) rows,
                   cr_by_assignee = aggregate (coll_text coll)
                     (\<lambda>x. or_else (assignee (rr_task x)) ''(unassigned)'') rows,
                   cr_by_priority = aggregate (coll_priority coll) (\<lambda>x. priority (rr_task x)) rows,
                   cr_daily = aggregate (-) (\<lambda>x. rr_completed_at x div 86400000) rows\<rparr>)"

end
