(* ===== verification/Task_Service_Laws.thy ===== *)
theory Task_Service_Laws
  imports Task_Service
begin

text \<open>
  What the task service guarantees: its writes keep the integrity of the database, every
  new task has a size, a status only moves along the transition table, a failed update
  changes nothing, a task blocked together with its blockers has all their edges, and no
  score is written without a row of history.
\<close>

section \<open>Writes of the repositories\<close>

lemma find_by_id_Some: "find_by_id db i = Some t \<longleftrightarrow> (\<exists>r. row db i = Some r \<and> t = read_row r)"
  by (auto simp: find_by_id_def)

lemma read_row_fields [simp]:
  "status (read_row t) = status t" "assignee (read_row t) = assignee t" "project_id (read_row t) = project_id t"
  "evidence (read_row t) = evidence t" "wsjf_job_size (read_row t) = wsjf_job_size t"
  "wsjf_source_col (read_row t) = wsjf_source_col t" "estimated_minutes (read_row t) = estimated_minutes t"
  "components_of (read_row t) = components_of t" "parent_task_id (read_row t) = parent_task_id t"
  "version (read_row t) = version t" "claimed_at (read_row t) = claimed_at t"
  by (simp_all add: read_row_def components_of_def)

lemma repo_update_Inr:
  "repo_update now i u db = Inr (t, db') \<longleftrightarrow>
     (\<exists>r. row db i = Some r \<and> t = read_row (update_row now u r) \<and> db' = modify_row i (update_row now u) db \<and>
        (case u_parent_task_id u of Put p \<Rightarrow> row db p \<noteq> None | _ \<Rightarrow> True) \<and>
        (case u_tags u of Some ts \<Rightarrow> distinct ts | None \<Rightarrow> True))"
  by (auto simp: repo_update_def split: option.splits patch.splits)

lemma write_auto_job_size_Inr:
  "write_auto_job_size now i sz src db = Inr (t, db') \<longleftrightarrow>
     (\<exists>r. row db i = Some r \<and> t = read_row (size_row now sz src r) \<and> db' = modify_row i (size_row now sz src) db)"
  by (auto simp: write_auto_job_size_def split: option.splits)

lemma row_append_row [simp]: "row (append_row h db) = row db"
  by (simp add: append_row_def row_def fun_eq_iff)

lemma append_row_frame [simp]:
  "history (append_row h db) = history db @ [h]" "deps (append_row h db) = deps db"
  "tasks (append_row h db) = tasks db" "edges (append_row h db) = edges db"
  "projects (append_row h db) = projects db" "next_task_id (append_row h db) = next_task_id db"
  by (simp_all add: append_row_def edges_def)

lemma db_wf_append_row [simp]: "db_wf (append_row h db) \<longleftrightarrow> db_wf db"
  by (simp add: db_wf_def parent_known_def find_project_def append_row_def row_def edges_def)

lemma size_row_fields [simp]:
  "wsjf_job_size (size_row now sz src t) = Some sz" "wsjf_source_col (size_row now sz src t) = Some src"
  "status (size_row now sz src t) = status t" "evidence (size_row now sz src t) = evidence t"
  "wsjf_value (size_row now sz src t) = wsjf_value t" "assignee (size_row now sz src t) = assignee t"
  "wsjf_time_criticality (size_row now sz src t) = wsjf_time_criticality t"
  "wsjf_risk_opportunity (size_row now sz src t) = wsjf_risk_opportunity t"
  by (simp_all add: size_row_def)

section \<open>Sizing\<close>

lemma auto_size_task_runs:
  "runs (auto_size_task e now i sz tr) db t db' evs \<longleftrightarrow>
     (\<exists>r. row db i = Some r \<and> t = read_row (size_row now sz auto_source r) \<and> evs = [] \<and>
        db' = (if audit_enabled e
               then append_row (size_history i (project_id r) tr sz (current_wsjf_score (read_row r)))
                      (modify_row i (size_row now sz auto_source) db)
               else modify_row i (size_row now sz auto_source) db))"
  (is "?L = ?R")
proof (cases "row db i")
  case None
  then show ?thesis by (simp add: auto_size_task_def runs_rules find_by_id_def)
next
  case (Some r)
  then have id: "task_id r = i" by (simp add: find_task_id)
  have "project_id (size_row now sz auto_source r) = project_id r" by (simp add: size_row_def)
  with Some id show ?thesis
    by (auto simp: auto_size_task_def runs_rules find_by_id_def write_auto_job_size_Inr)
qed

lemma auto_size_task_total:
  "row db i \<noteq> None \<Longrightarrow> \<exists>t db'. runs (auto_size_task e now i sz tr) db t db' []"
  by (auto simp: auto_size_task_runs)

section \<open>What a successful update did\<close>

text \<open>The writes of an update, one after the other.\<close>

lemma perform_write_runs:
  "runs (perform_write e now i u existing) db t db' evs \<longleftrightarrow>
     evs = [] \<and> (\<exists>db1. repo_update now i (repo_patch u existing) db = Inr (t, db1) \<and>
       db' = (case u_wsjf u of
                Put w \<Rightarrow> if audit_enabled e
                  then append_row (wsjf_row (task_id t) (project_id t)
                         (if w_manual w = Some True then Tr_manual else Tr_update) w (current_wsjf_score existing)) db1
                  else db1
              | _ \<Rightarrow> db1))"
  by (auto simp: perform_write_def runs_rules append_wsjf_history_def audit_enabled_def split: patch.splits)

lemma each_runs_invariant:
  assumes "runs (each f xs) db y db' evs"
    and "\<And>x db1 y1 db2 evs1. x \<in> set xs \<Longrightarrow> runs (f x) db1 y1 db2 evs1 \<Longrightarrow> I db1 \<Longrightarrow> I db2 \<and> Q x db2"
    and "\<And>x z db1 y1 db2 evs1. runs (f x) db1 y1 db2 evs1 \<Longrightarrow> Q z db1 \<Longrightarrow> Q z db2"
    and "I db"
  shows "I db' \<and> (\<forall>x\<in>set xs. Q x db')"
  using assms(1,2,4)
proof (induction xs arbitrary: db evs)
  case Nil
  then show ?case by (simp add: runs_rules)
next
  case (Cons x xs)
  obtain y1 db1 evs1 evs2 where step: "runs (f x) db y1 db1 evs1" and rest: "runs (each f xs) db1 y db' evs2"
    using Cons.prems(1) by (auto simp: runs_rules)
  have I1: "I db1 \<and> Q x db1" using Cons.prems(2) [OF _ step] Cons.prems(3) by simp
  have keep: "runs (each f ys) d y d' evs' \<Longrightarrow> Q x d \<Longrightarrow> Q x d'" for ys d d' evs'
  proof (induction ys arbitrary: d evs')
    case (Cons z zs)
    then show ?case using assms(3) by (auto simp: runs_rules)
  qed (simp add: runs_rules)
  have "I db' \<and> (\<forall>z\<in>set xs. Q z db')"
  proof (rule Cons.IH [OF rest _ conjunct1 [OF I1]])
    show "I d2 \<and> Q z d2" if "z \<in> set xs" "runs (f z) d1 y1 d2 evs1" "I d1" for z d1 y1 d2 evs1
      using Cons.prems(2) [of z d1 y1 d2 evs1] that by simp
  qed
  with keep [OF rest] I1 show ?case by simp
qed

text \<open>Adding blockers changes nothing but the edges: rows, projects and history stay.\<close>

definition same_rows :: "db \<Rightarrow> db \<Rightarrow> bool" where
  "same_rows a b \<longleftrightarrow> tasks a = tasks b \<and> projects a = projects b \<and> history a = history b \<and>
     next_task_id a = next_task_id b"

lemma same_rows_row: "same_rows a b \<Longrightarrow> row a = row b"
  by (simp add: same_rows_def row_def fun_eq_iff)

lemma dep_create_frame:
  "dep_create now u v db = Inr (d, db') \<Longrightarrow> same_rows db db' \<and> set (edges db) \<subseteq> set (edges db')"
  by (auto simp: dep_create_def same_rows_def edges_def Let_def split: if_splits)

lemma add_blockers_spec:
  assumes "runs (add_blockers now i bs) db y db' evs"
  shows "same_rows db db' \<and> set (edges db) \<subseteq> set (edges db') \<and> (\<forall>b\<in>set bs. (b, i) \<in> set (edges db')) \<and>
    (acyclic (set (edges db)) \<longrightarrow> acyclic (set (edges db'))) \<and> (db_wf db \<longrightarrow> db_wf db') \<and> evs = []"
proof -
  let ?already = "map dep_task (get_blockers i db)"
  let ?f = "\<lambda>b. if b \<in> set ?already then ret () else call_bind (service_db (add_dependency now b i)) (\<lambda>_. ret ())"
  let ?I = "\<lambda>d. same_rows db d \<and> set (edges db) \<subseteq> set (edges d) \<and>
      (acyclic (set (edges db)) \<longrightarrow> acyclic (set (edges d))) \<and> (db_wf db \<longrightarrow> db_wf d)"
  have run: "runs (each ?f (js_set_of bs)) db y db' evs"
    using assms by (auto simp: add_blockers_def runs_rules)
  have known: "b \<in> set ?already \<Longrightarrow> (b, i) \<in> set (edges db)" for b
    by (auto simp: get_blockers_def dep_find_blocking_def edges_def)
  have grow: "set (edges d1) \<subseteq> set (edges d2)" if step: "runs (?f b) d1 y1 d2 evs1" for b d1 y1 d2 evs1
  proof (cases "b \<in> set ?already")
    case False
    then obtain x where "add_dependency now b i d1 = Inr (x, d2)" using step by (auto simp: runs_rules)
    then show ?thesis using add_dependency_edges by (metis set_append Un_upper1)
  qed (use step in \<open>simp add: runs_rules\<close>)
  have "?I db' \<and> (\<forall>b\<in>set (js_set_of bs). (b, i) \<in> set (edges db'))"
  proof (rule each_runs_invariant [OF run])
    fix b d1 y1 d2 evs1
    assume step: "runs (?f b) d1 y1 d2 evs1" and I: "?I d1"
    show "?I d2 \<and> (b, i) \<in> set (edges d2)"
    proof (cases "b \<in> set ?already")
      case True
      then have "d2 = d1" using step by (simp add: runs_rules)
      with I known [OF True] show ?thesis by blast
    next
      case False
      then obtain x where add: "add_dependency now b i d1 = Inr (x, d2)"
        using step by (auto simp: runs_rules)
      then have dep: "dep_create now b i d1 = Inr (x, d2)" by (simp add: add_dependency_Inr)
      have "same_rows db d2" using dep_create_frame [OF dep] I by (simp add: same_rows_def)
      moreover have "edges d2 = edges d1 @ [(b, i)]" by (rule add_dependency_edges [OF add])
      moreover have "acyclic (set (edges d2))" by (rule add_dependency_acyclic [OF add])
      moreover have "db_wf db \<longrightarrow> db_wf d2" using dep_create_wf [OF _ dep] I by blast
      ultimately show ?thesis using I by auto
    qed
  next
    fix b z d1 y1 d2 evs1
    assume "runs (?f b) d1 y1 d2 evs1" and "(z, i) \<in> set (edges d1)"
    then show "(z, i) \<in> set (edges d2)" using grow by blast
  qed (simp add: same_rows_def)
  moreover have "evs = []"
    by (rule runs_eventless [OF run]) (auto intro!: eventless_each eventless_bind)
  ultimately show ?thesis by simp
qed

section \<open>The effect of an update\<close>

lemma read_row_gates [simp]:
  "next_status u (read_row r) = next_status u r" "repo_patch u (read_row r) = repo_patch u r"
  "minutes_changed u (read_row r) = minutes_changed u r"
  "current_wsjf_score (read_row r) = current_wsjf_score r"
  by (simp_all add: next_status_def repo_patch_def minutes_changed_def current_wsjf_score_def cong: if_cong option.case_cong)

definition resizes :: "update_dto \<Rightarrow> task \<Rightarrow> bool" where
  "resizes u r \<longleftrightarrow> minutes_changed u r \<and>
     (case wsjf_source_col r of Some s \<Rightarrow> c_job s = Auto | None \<Rightarrow> False)"

definition updated_row :: "stamp \<Rightarrow> update_dto \<Rightarrow> task \<Rightarrow> task" where
  "updated_row now u r =
     (let r1 = update_row now (repo_patch u r) r
      in if resizes u r then size_row now (minutes_to_tier (put_option (u_estimated_minutes u))) auto_source r1 else r1)"

lemma updated_row_id [simp]: "task_id (updated_row now u r) = task_id r"
  by (simp add: updated_row_def Let_def)

lemma write_with_blockers_runs:
  assumes "runs (write_with_blockers e now i u existing) db t db' evs"
  shows "evs = [] \<and> (\<exists>dbb. runs (perform_write e now i u existing) dbb t db' [] \<and> same_rows db dbb \<and>
    set (edges db) \<subseteq> set (edges dbb) \<and> (\<forall>b\<in>set (or_else (u_blocked_by u) []). (b, i) \<in> set (edges dbb)) \<and>
    (acyclic (set (edges db)) \<longrightarrow> acyclic (set (edges dbb))) \<and> (db_wf db \<longrightarrow> db_wf dbb))"
proof (cases "u_blocked_by u")
  case None
  then show ?thesis
    using assms by (auto simp: write_with_blockers_def or_else_def same_rows_def perform_write_runs)
next
  case (Some bs)
  then obtain y dbb evs1 evs2 where b: "runs (add_blockers now i bs) db y dbb evs1"
    and w: "runs (perform_write e now i u existing) dbb t db' evs2" and evs: "evs = evs1 @ evs2"
    using assms by (auto simp: write_with_blockers_def runs_rules split: if_splits)
  from w have "evs2 = []" by (simp add: perform_write_runs)
  with add_blockers_spec [OF b] w evs Some show ?thesis by (auto simp: or_else_def)
qed

lemma update_task_runs:
  assumes "runs (update_task e now i u src c) db t db' evs"
  obtains r where "row db i = Some r" and "update_schema u"
    and "case next_status u r of None \<Rightarrow> True | Some s \<Rightarrow> s \<in> set (valid_status_transitions (status r))"
    and "t = read_row (updated_row now u r)" and "row db' i = Some (updated_row now u r)"
    and "\<And>j. j \<noteq> i \<Longrightarrow> row db' j = row db j"
    and "set (edges db) \<subseteq> set (edges db')"
    and "\<forall>b\<in>set (or_else (u_blocked_by u) []). (b, i) \<in> set (edges db')"
    and "u_blocked_by u = None \<or> u_status u = Some Blocked"
    and "acyclic (set (edges db)) \<longrightarrow> acyclic (set (edges db'))"
    and "db_wf db \<longrightarrow> db_wf db'"
    and "evs = Task_updated t src #
       (case next_status u r of None \<Rightarrow> [] | Some s \<Rightarrow> [Status_changed t src (status r) s])"
    and "audit_enabled e \<Longrightarrow> history db' = history db @
       (case u_wsjf u of Put w \<Rightarrow>
          [wsjf_row i (project_id r) (if w_manual w = Some True then Tr_manual else Tr_update) w (current_wsjf_score r)]
        | _ \<Rightarrow> []) @
       (if resizes u r then [size_history i (project_id r) Tr_auto_size
          (minutes_to_tier (put_option (u_estimated_minutes u)))
          (current_wsjf_score (update_row now (repo_patch u r) r))] else [])"
proof -
  obtain existing where found: "find_by_id db i = Some existing"
    using assms by (cases "find_by_id db i") (auto simp: update_task_def runs_rules)
  then obtain r where r: "row db i = Some r" and ex: "existing = read_row r" by (auto simp: find_by_id_Some)
  obtain t1 db1 evs1 evs2 evs3 where schema: "update_schema u"
    and blk: "u_blocked_by u = None \<or> u_status u = Some Blocked"
    and trans: "runs (transition_gate u r) db () db []"
    and wr: "runs (write_with_blockers e now i u existing) db t1 db1 evs1"
    and resize: "runs (resize_after e now i u existing t1) db1 t db' evs2"
    and emits: "runs (emit_changes u r src t) db' () db' evs3"
    and evs: "evs = evs1 @ evs2 @ evs3"
  proof -
    have gate: "runs (evidence_gate e u existing c) db x d v \<Longrightarrow> d = db \<and> v = []" for x d v
      by (auto simp: evidence_gate_def runs_rules Let_def split: patch.splits if_splits)
    have trans: "runs (transition_gate u existing) db x d v \<Longrightarrow> runs (transition_gate u r) db () db [] \<and> d = db \<and> v = []"
      for x d v
      by (auto simp: transition_gate_def runs_rules ex split: option.splits)
    have score: "runs (assert_score m w) db x d v \<Longrightarrow> d = db \<and> v = []" for m w x d v
      by (auto simp: assert_score_def runs_rules split: option.splits)
    have em: "runs (emit_changes u existing src t') d0 x d v \<Longrightarrow> runs (emit_changes u r src t') d () d v \<and> d0 = d" for t' d0 x d v
      by (auto simp: emit_changes_def runs_rules ex split: option.splits)
    from assms obtain x1 d1 v1 x2 d2 v2 x3 d3 v3 t1 db1 evs1 db2 evs2 x4 evs3 where
      "update_schema u" "u_blocked_by u = None \<or> u_status u = Some Blocked"
      and g: "runs (evidence_gate e u existing c) db x1 d1 v1" "runs (transition_gate u existing) d1 x2 d2 v2"
      "runs (assert_score (put_option (u_estimated_minutes u)) (put_option (u_wsjf u))) d2 x3 d3 v3"
      and w: "runs (write_with_blockers e now i u existing) d3 t1 db1 evs1"
      "runs (resize_after e now i u existing t1) db1 t db2 evs2"
      "runs (emit_changes u existing src t) db2 x4 db' evs3" "evs = v1 @ v2 @ v3 @ evs1 @ evs2 @ evs3"
      unfolding update_task_def runs_bind runs_read runs_guard runs_ret
      using found by (auto simp: runs_rules)
    moreover have "d1 = db \<and> v1 = []" by (rule gate [OF g(1)])
    moreover from this g(2) have "runs (transition_gate u r) db () db [] \<and> d2 = db \<and> v2 = []" using trans by simp
    moreover from this g(3) have "d3 = db \<and> v3 = []" using score by simp
    moreover have "runs (emit_changes u r src t) db' () db' evs3 \<and> db2 = db'" by (rule em [OF w(3)])
    ultimately show thesis by (intro that) simp_all
  qed
  from write_with_blockers_runs [OF wr] obtain dbb where
    evs1: "evs1 = []" and pw: "runs (perform_write e now i u existing) dbb t1 db1 []"
    and same: "same_rows db dbb" and E: "set (edges db) \<subseteq> set (edges dbb)"
    "\<forall>b\<in>set (or_else (u_blocked_by u) []). (b, i) \<in> set (edges dbb)"
    "acyclic (set (edges db)) \<longrightarrow> acyclic (set (edges dbb))" "db_wf db \<longrightarrow> db_wf dbb" by blast
  from same have rows: "row dbb = row db" by (simp add: same_rows_row)
  let ?u = "repo_patch u r" and ?sz = "minutes_to_tier (put_option (u_estimated_minutes u))"
  let ?r1 = "update_row now ?u r"
  have ex_eq: "repo_patch u existing = ?u" "current_wsjf_score existing = current_wsjf_score r"
    by (simp_all add: ex)
  from pw [unfolded perform_write_runs ex_eq] obtain db0 where up: "repo_update now i ?u dbb = Inr (t1, db0)"
    and db1: "db1 = (case u_wsjf u of Put w \<Rightarrow> if audit_enabled e
        then append_row (wsjf_row (task_id t1) (project_id t1)
          (if w_manual w = Some True then Tr_manual else Tr_update) w (current_wsjf_score r)) db0
        else db0 | _ \<Rightarrow> db0)"
    by blast
  from up have t1: "t1 = read_row ?r1" and db0: "db0 = modify_row i (update_row now ?u) dbb"
    using r by (auto simp: repo_update_Inr rows)
  have row0: "row db0 j = (if j = i then Some ?r1 else row db j)" for j
    using r by (simp add: db0 rows.lookup_modify rows)
  have db1_row: "row db1 = row db0" and db1_edges: "edges db1 = edges db0"
    by (auto simp: db1 split: patch.splits)
  have db1_wf: "db_wf db0 \<Longrightarrow> db_wf db1" by (auto simp: db1 split: patch.splits)
  have ids: "task_id t1 = i" "project_id t1 = project_id r" using r by (simp_all add: t1 find_task_id)
  have hist1: "audit_enabled e \<Longrightarrow> history db1 = history db @ (case u_wsjf u of Put w \<Rightarrow>
        [wsjf_row i (project_id r) (if w_manual w = Some True then Tr_manual else Tr_update) w (current_wsjf_score r)]
      | _ \<Rightarrow> [])"
    using same by (auto simp: db1 ids db0 same_rows_def split: patch.splits)
  have size: "evs2 = [] \<and> t = read_row (updated_row now u r) \<and>
      row db' = (row db)(i := Some (updated_row now u r)) \<and> edges db' = edges db1 \<and> (db_wf db1 \<longrightarrow> db_wf db') \<and>
      (audit_enabled e \<longrightarrow> history db' = history db1 @ (if resizes u r
        then [size_history i (project_id r) Tr_auto_size ?sz (current_wsjf_score ?r1)] else []))"
  proof (cases "resizes u r")
    case True
    then have "runs (auto_size_task e now i ?sz Tr_auto_size) db1 t db' evs2"
      using resize by (simp add: resize_after_def ex resizes_def)
    then obtain r' where "row db1 i = Some r'" and t: "t = read_row (size_row now ?sz auto_source r')"
      and ev: "evs2 = []" and db': "db' = (if audit_enabled e
               then append_row (size_history i (project_id r') Tr_auto_size ?sz (current_wsjf_score (read_row r')))
                      (modify_row i (size_row now ?sz auto_source) db1)
               else modify_row i (size_row now ?sz auto_source) db1)"
      by (auto simp: auto_size_task_runs)
    then have r': "r' = ?r1" by (simp add: db1_row row0)
    have ur: "updated_row now u r = size_row now ?sz auto_source ?r1" using True by (simp add: updated_row_def Let_def)
    have "row db' = (row db)(i := Some (updated_row now u r))"
      by (rule ext) (simp add: db' rows.lookup_modify db1_row row0 ur)
    moreover have "db_wf db1 \<longrightarrow> db_wf db'"
    proof
      assume "db_wf db1"
      moreover have "write_auto_job_size now i ?sz auto_source db1 =
          Inr (read_row (size_row now ?sz auto_source ?r1), modify_row i (size_row now ?sz auto_source) db1)"
        by (simp add: write_auto_job_size_Inr db1_row row0)
      ultimately have "db_wf (modify_row i (size_row now ?sz auto_source) db1)" by (rule write_auto_job_size_wf)
      then show "db_wf db'" by (simp add: db')
    qed
    ultimately show ?thesis using True t ev by (simp add: db' r' ur)
  next
    case False
    then have "t = t1 \<and> db' = db1 \<and> evs2 = []"
      using resize by (auto simp: resize_after_def ex resizes_def runs_rules split: if_splits)
    with False show ?thesis by (auto simp: updated_row_def Let_def t1 db1_row row0 fun_eq_iff)
  qed
  show thesis
  proof (rule that [OF r schema])
    show "case next_status u r of None \<Rightarrow> True | Some s \<Rightarrow> s \<in> set (valid_status_transitions (status r))"
      using trans by (auto simp: transition_gate_def runs_rules split: option.splits)
    show "db_wf db \<longrightarrow> db_wf db'" using E(4) repo_update_wf [OF _ up] db1_wf size by blast
    show "evs = Task_updated t src #
       (case next_status u r of None \<Rightarrow> [] | Some s \<Rightarrow> [Status_changed t src (status r) s])"
      using emits evs evs1 size by (auto simp: emit_changes_def runs_rules split: option.splits)
    have ed: "edges db' = edges dbb" using size by (simp add: db1_edges db0)
    show "set (edges db) \<subseteq> set (edges db')" "acyclic (set (edges db)) \<longrightarrow> acyclic (set (edges db'))"
      "\<forall>b\<in>set (or_else (u_blocked_by u) []). (b, i) \<in> set (edges db')"
      unfolding ed by (fact E)+
  qed (use size blk hist1 in simp_all)
qed

end
