(* ===== verification/Task_Service_Facts.thy ===== *)
theory Task_Service_Facts
  imports Task_Service_Laws
begin

text \<open>
  What the task service promises its callers: every new task is sized and audited, a failed
  call changes nothing, a status moves along the transition table only, a task blocked with
  its blockers has all their edges, and no score is written without a row of history.
\<close>

section \<open>A failed call changes nothing\<close>

lemma quiet_bind [intro]:
  "quiet m \<Longrightarrow> (\<And>x. quiet (f x)) \<Longrightarrow> quiet (call_bind m f)"
  unfolding quiet_def call_bind_def by (fastforce split: sum.splits prod.splits)

lemma quiet_gates [intro, simp]:
  "quiet (evidence_gate e u x c)" "quiet (transition_gate u x)" "quiet (assert_score m w)"
  by (auto simp: evidence_gate_def transition_gate_def assert_score_def Let_def split: patch.splits option.splits)

lemma quiet_create_gates [intro, simp]: "quiet (create_gates d)"
  unfolding create_gates_def by (intro quiet_bind) (auto split: option.splits)

text \<open>After a step that succeeded, the rest may fail only where it cannot: then a failure leaves no trace.\<close>

lemma atomic_bind_after:
  assumes "atomic m" and "\<And>x db db' evs. runs m db x db' evs \<Longrightarrow> \<exists>y db'' evs'. runs (f x) db' y db'' evs'"
  shows "atomic (call_bind m f)"
  unfolding atomic_def
proof (intro allI impI)
  fix db err d evs
  assume fails: "call_bind m f db = (Inl err, d, evs)"
  obtain r d1 ev1 where m: "m db = (r, d1, ev1)" by (cases "m db")
  show "d = db \<and> evs = []"
  proof (cases r)
    case (Inl a)
    with m fails have "m db = (Inl a, d, evs)" by (simp add: call_bind_def)
    with assms(1) show ?thesis unfolding atomic_def by blast
  next
    case (Inr x)
    with m have "runs m db x d1 ev1" by (simp add: runs_def)
    then obtain y d2 ev2 where "runs (f x) d1 y d2 ev2" using assms(2) by blast
    with m Inr fails show ?thesis by (simp add: call_bind_def runs_def)
  qed
qed

lemma eventless_append [simp, intro]: "eventless (append_wsjf_history e tid pid tr w prev)"
  by (simp add: append_wsjf_history_def)

lemma eventless_perform_write: "eventless (perform_write e now i u x)"
  unfolding perform_write_def
  by (cases "u_wsjf u") (auto intro!: eventless_transaction eventless_bind)

lemma atomic_perform_write: "atomic (perform_write e now i u x)"
  unfolding perform_write_def
  by (cases "u_wsjf u") (auto intro!: atomic_transaction eventless_bind)

lemma eventless_add_blockers: "eventless (add_blockers now i bs)"
  unfolding add_blockers_def by (auto intro!: eventless_bind eventless_each)

lemma atomic_write_with_blockers: "atomic (write_with_blockers e now i u x)"
  unfolding write_with_blockers_def
  by (auto split: option.splits intro: atomic_perform_write
      intro!: atomic_transaction eventless_bind eventless_add_blockers eventless_perform_write)

lemma write_with_blockers_row:
  assumes "runs (write_with_blockers e now i u x) db t db' evs"
  shows "row db' i \<noteq> None"
proof -
  obtain dbb where "runs (perform_write e now i u x) dbb t db' []"
    using write_with_blockers_runs [OF assms] by blast
  then obtain db1 where up: "repo_update now i (repo_patch u x) dbb = Inr (t, db1)" and "row db' = row db1"
    unfolding perform_write_runs by (cases "u_wsjf u") auto
  moreover have "row db1 i \<noteq> None" using up by (auto simp: repo_update_Inr rows.lookup_modify)
  ultimately show ?thesis by simp
qed

lemma emit_changes_runs: "\<exists>db' evs. runs (emit_changes u x src t) db () db' evs"
  by (cases "next_status u x") (auto simp: emit_changes_def runs_rules)

lemma resize_after_runs:
  assumes "row db i \<noteq> None"
  shows "\<exists>t' db' evs. runs (resize_after e now i u x t) db t' db' evs"
proof -
  have "\<exists>t' db' evs. runs (auto_size_task e now i sz tr) db t' db' evs" for sz tr
    using auto_size_task_total [OF assms] by blast
  then show ?thesis by (auto simp: resize_after_def runs_ret)
qed

lemma atomic_update_task: "atomic (update_task e now i u src caller)"
proof -
  have tail: "atomic (call_bind (write_with_blockers e now i u x) (\<lambda>updated.
      call_bind (resize_after e now i u x updated) (\<lambda>t. call_bind (emit_changes u x src t) (\<lambda>_. ret t))))" for x
  proof (rule atomic_bind_after [OF atomic_write_with_blockers])
    fix t db db' evs
    assume "runs (write_with_blockers e now i u x) db t db' evs"
    then have "row db' i \<noteq> None" by (rule write_with_blockers_row)
    then obtain t' db2 ev2 where "runs (resize_after e now i u x t) db' t' db2 ev2" using resize_after_runs by blast
    moreover obtain db3 ev3 where "runs (emit_changes u x src t') db2 () db3 ev3" using emit_changes_runs by blast
    ultimately have "runs (call_bind (resize_after e now i u x t) (\<lambda>t. call_bind (emit_changes u x src t) (\<lambda>_. ret t)))
        db' t' db3 (ev2 @ ev3)"
      by (simp add: runs_rules) blast
    then show "\<exists>y db'' evs'. runs (call_bind (resize_after e now i u x t)
        (\<lambda>t. call_bind (emit_changes u x src t) (\<lambda>_. ret t))) db' y db'' evs'" by blast
  qed
  have "atomic (call_bind (evidence_gate e u x caller) (\<lambda>_. call_bind (transition_gate u x) (\<lambda>_.
      call_bind (assert_score m w) (\<lambda>_. call_bind (write_with_blockers e now i u x) (\<lambda>updated.
      call_bind (resize_after e now i u x updated) (\<lambda>t. call_bind (emit_changes u x src t) (\<lambda>_. ret t)))))))"
    for x m w
    by (rule atomic_bind_quiet [OF quiet_gates(1)], rule atomic_bind_quiet [OF quiet_gates(2)],
        rule atomic_bind_quiet [OF quiet_gates(3)], rule tail)
  note gates = this
  show ?thesis
    unfolding update_task_def
    by (rule atomic_bind_quiet, simp)+ (simp add: gates split: option.split)
qed

lemma forced_open_fields [simp]:
  "d_status (forced_open d) = Open" "d_project_id (forced_open d) = d_project_id d"
  "d_wsjf (forced_open d) = d_wsjf d" "d_estimated_minutes (forced_open d) = d_estimated_minutes d"
  "d_tags (forced_open d) = d_tags d" "d_parent_task_id (forced_open d) = d_parent_task_id d"
  "d_assignee (forced_open d) = d_assignee d"
  by (simp_all add: forced_open_def)

lemma insert_task_runs:
  "runs (insert_task e now d) db t db' evs \<longleftrightarrow>
     evs = [] \<and> (\<exists>db1. repo_create now (forced_open d) db = Inr (t, db1) \<and>
       db' = (case d_wsjf d of
                Some w \<Rightarrow> if audit_enabled e
                  then append_row (wsjf_row (task_id t) (project_id t) (create_trigger (Some w)) w None) db1
                  else db1
              | None \<Rightarrow> db1))"
  by (auto simp: insert_task_def runs_rules append_wsjf_history_def audit_enabled_def split: option.splits)

lemma repo_create_row:
  "repo_create now d db = Inr (t, db') \<Longrightarrow>
     t = read_row (new_row now (next_task_id db) d) \<and> tasks db' = tasks db @ [new_row now (next_task_id db) d] \<and>
     deps db' = deps db \<and> history db' = history db \<and> projects db' = projects db"
  by (auto simp: repo_create_def Let_def split: if_splits)

lemma repo_create_lookup:
  assumes "repo_create now d db = Inr (t, db')"
  shows "row db' (next_task_id db) \<noteq> None"
proof -
  have "task_id (new_row now (next_task_id db) d) = next_task_id db" by simp
  moreover have "new_row now (next_task_id db) d \<in> set (tasks db')" using repo_create_row [OF assms] by simp
  ultimately show ?thesis by (metis row_None_iff image_eqI)
qed

lemma atomic_insert_task: "atomic (insert_task e now d)"
  unfolding insert_task_def by (cases "d_wsjf d") (auto intro!: atomic_transaction eventless_bind)

lemma atomic_create_task: "atomic (create_task e now d)"
proof -
  let ?rest = "\<lambda>created. call_bind (if d_wsjf d = None
       then auto_size_task e now (task_id created) (minutes_to_tier (d_estimated_minutes d)) Tr_auto_size
       else ret created) (\<lambda>t. call_bind (emit (Task_created t From_user)) (\<lambda>_. ret t))"
  have "atomic (call_bind (insert_task e now d) ?rest)"
  proof (rule atomic_bind_after [OF atomic_insert_task])
    fix t db db' evs
    assume "runs (insert_task e now d) db t db' evs"
    then obtain db1 where mk: "repo_create now (forced_open d) db = Inr (t, db1)" and rows: "row db' = row db1"
      unfolding insert_task_runs by (cases "d_wsjf d") auto
    then have "row db' (task_id t) \<noteq> None" using repo_create_lookup repo_create_row [OF mk] by simp
    then have "\<exists>t' db2. runs (auto_size_task e now (task_id t) sz tr) db' t' db2 []" for sz tr
      by (rule auto_size_task_total)
    then have "\<exists>t' db2. runs (if d_wsjf d = None
       then auto_size_task e now (task_id t) (minutes_to_tier (d_estimated_minutes d)) Tr_auto_size
       else ret t) db' t' db2 []"
      by (auto simp: runs_ret)
    then obtain t' db2 where "runs (if d_wsjf d = None
       then auto_size_task e now (task_id t) (minutes_to_tier (d_estimated_minutes d)) Tr_auto_size
       else ret t) db' t' db2 []" by blast
    then have "runs (?rest t) db' t' db2 [Task_created t' From_user]" by (force simp: runs_bind runs_emit runs_ret)
    then show "\<exists>y db'' evs'. runs (?rest t) db' y db'' evs'" by blast
  qed
  then show ?thesis unfolding create_task_def by (rule atomic_bind_quiet [OF quiet_create_gates])
qed

lemma atomic_cas_db: "(\<And>db. fst (f db) = None \<Longrightarrow> snd (f db) = db) \<Longrightarrow> atomic (cas_db f err)"
  unfolding atomic_def cas_db_def by (auto split: prod.splits option.splits) (metis fst_conv snd_conv)

lemma repo_claim_None: "fst (repo_claim now i who uid db) = None \<Longrightarrow> snd (repo_claim now i who uid db) = db"
  by (auto simp: repo_claim_def split: option.splits if_splits)

lemma repo_renew_None: "fst (repo_renew_claim now i who db) = None \<Longrightarrow> snd (repo_renew_claim now i who db) = db"
  by (auto simp: repo_renew_claim_def split: option.splits if_splits)

lemma atomic_emit_ret:
  "atomic m \<Longrightarrow> atomic (call_bind m (\<lambda>x. call_bind (emit (ev x)) (\<lambda>_. ret x)))"
  by (rule atomic_bind_total) (auto intro!: never_fails_bind)

lemma atomic_claim_task: "atomic (claim_task now i who src uid)"
  unfolding claim_task_def
  by (rule atomic_bind_quiet, simp)
    (auto split: option.split intro!: atomic_emit_ret [where ev = "\<lambda>t. Task_claimed t src"] atomic_cas_db
      repo_claim_None repo_renew_None)

lemma atomic_delete_task: "atomic (delete_task i)"
  unfolding delete_task_def
  by (rule atomic_bind_quiet, simp)
    (auto split: option.split intro!: atomic_bind_total)

text \<open>
  Creating, updating, deleting and claiming a task are all or nothing: whichever of
  their gates or writes fails, the tables are left as they were found and no event is
  emitted.
\<close>

theorem failed_calls_change_nothing:
  "atomic (create_task e now d) \<and> atomic (update_task e now i u src caller) \<and>
   atomic (delete_task i) \<and> atomic (claim_task now i who src uid)"
  by (simp add: atomic_create_task atomic_update_task atomic_delete_task atomic_claim_task)

section \<open>Creation\<close>

lemma create_gates_runs:
  "runs (create_gates d) db x db' evs \<longleftrightarrow>
     db' = db \<and> evs = [] \<and> create_schema d \<and> (decomp_tag d \<noteq> None \<longrightarrow> d_wsjf d \<noteq> None) \<and>
     find_project db (d_project_id d) \<noteq> None \<and>
     (\<forall>p. d_parent_task_id d = Some p \<longrightarrow> (\<exists>q. row db p = Some q \<and> project_id q = d_project_id d)) \<and>
     minutes_conflict (d_estimated_minutes d) (d_wsjf d) = None \<and> manual_errors (d_wsjf d) = []"
  by (auto simp: create_gates_def assert_score_def runs_rules find_by_id_def split: option.splits)

lemma create_task_runs:
  assumes "runs (create_task e now d) db t db' evs"
  obtains t0 db0 where "runs (create_gates d) db () db []" and "repo_create now (forced_open d) db = Inr (t0, db0)"
    and "evs = [Task_created t From_user]"
    and "case d_wsjf d of
      None \<Rightarrow> runs (auto_size_task e now (task_id t0) (minutes_to_tier (d_estimated_minutes d)) Tr_auto_size) db0 t db' []
    | Some w \<Rightarrow> t = t0 \<and> db' = (if audit_enabled e
        then append_row (wsjf_row (task_id t0) (project_id t0) (create_trigger (Some w)) w None) db0 else db0)"
proof -
  let ?size = "\<lambda>t0. auto_size_task e now (task_id t0) (minutes_to_tier (d_estimated_minutes d)) Tr_auto_size"
  obtain t0 db1 v1 v2 v3 where gates: "runs (create_gates d) db () db []"
    and ins: "runs (insert_task e now d) db t0 db1 v1"
    and sz: "runs (if d_wsjf d = None then ?size t0 else ret t0) db1 t db' v2"
    and evs: "evs = v1 @ v2 @ [Task_created t From_user]"
    using assms unfolding create_task_def runs_bind runs_emit runs_ret by (auto simp: create_gates_runs)
  show thesis
  proof (cases "d_wsjf d")
    case None
    from sz None have run: "runs (?size t0) db1 t db' v2" by simp
    then have "v2 = []" by (auto simp: auto_size_task_runs)
    with None ins evs run show ?thesis by (intro that [OF gates]) (auto simp: insert_task_runs)
  next
    case (Some w)
    with sz have "t = t0 \<and> db' = db1 \<and> v2 = []" by (simp add: runs_ret)
    moreover from ins obtain db0 where mk: "repo_create now (forced_open d) db = Inr (t0, db0)" and "v1 = []"
      and "db1 = (if audit_enabled e
        then append_row (wsjf_row (task_id t0) (project_id t0) (create_trigger (Some w)) w None) db0 else db0)"
      by (auto simp: insert_task_runs Some)
    ultimately show ?thesis using evs by (intro that [OF gates mk]) (simp_all add: Some)
  qed
qed

text \<open>The row a creation leaves and the history row written with it.\<close>

definition created_row :: "stamp \<Rightarrow> id \<Rightarrow> create_dto \<Rightarrow> task" where
  "created_row now i d =
     (case d_wsjf d of
        None \<Rightarrow> size_row now (minutes_to_tier (d_estimated_minutes d)) auto_source (new_row now i (forced_open d))
      | Some _ \<Rightarrow> new_row now i (forced_open d))"

definition created_history :: "id \<Rightarrow> create_dto \<Rightarrow> history_row" where
  "created_history i d =
     (case d_wsjf d of
        None \<Rightarrow> size_history i (d_project_id d) Tr_auto_size (minutes_to_tier (d_estimated_minutes d)) None
      | Some w \<Rightarrow> wsjf_row i (d_project_id d) (create_trigger (Some w)) w None)"

lemma new_row_unscored: "d_wsjf d = None \<Longrightarrow> current_wsjf_score (new_row now i d) = None"
  by (simp add: current_wsjf_score_def components_of_def new_row_def set_wsjf_def)

lemma created_row_fields [simp]:
  "status (created_row now i d) = Open" "task_id (created_row now i d) = i" "project_id (created_row now i d) = d_project_id d"
  by (simp_all add: created_row_def size_row_def split: option.split)

lemma create_task_effect:
  assumes wf: "db_wf db" and run: "runs (create_task e now d) db t db' evs"
  shows "db_wf db' \<and> t = read_row (created_row now (next_task_id db) d) \<and>
    row db' = (row db)(next_task_id db \<mapsto> created_row now (next_task_id db) d) \<and> edges db' = edges db \<and>
    (audit_enabled e \<longrightarrow> history db' = history db @ [created_history (next_task_id db) d])"
proof -
  let ?i = "next_task_id db" and ?n = "new_row now (next_task_id db) (forced_open d)"
  obtain t0 db0 where mk: "repo_create now (forced_open d) db = Inr (t0, db0)"
    and rest: "case d_wsjf d of
      None \<Rightarrow> runs (auto_size_task e now (task_id t0) (minutes_to_tier (d_estimated_minutes d)) Tr_auto_size) db0 t db' []
    | Some w \<Rightarrow> t = t0 \<and> db' = (if audit_enabled e
        then append_row (wsjf_row (task_id t0) (project_id t0) (create_trigger (Some w)) w None) db0 else db0)"
    by (rule create_task_runs [OF run])
  have wf0: "db_wf db0" by (rule repo_create_wf [OF wf mk])
  have t0: "t0 = read_row ?n" using repo_create_row [OF mk] by simp
  have ids: "task_id t0 = ?i" "project_id t0 = d_project_id d" by (simp_all add: t0)
  have db0: "db0 = db\<lparr>tasks := tasks db @ [?n], next_task_id := next_task_id db + 1\<rparr>"
    using mk by (auto simp: repo_create_def Let_def split: if_splits)
  have row0: "row db0 = (row db)(?i \<mapsto> ?n)"
    using row_new_id [OF wf] by (auto simp: db0 fun_eq_iff split: option.split)
  have frame0: "edges db0 = edges db" "history db0 = history db" by (simp_all add: db0 edges_def)
  show ?thesis
  proof (cases "d_wsjf d")
    case (Some w)
    with rest have t: "t = t0" and db': "db' = (if audit_enabled e
        then append_row (wsjf_row ?i (d_project_id d) (create_trigger (Some w)) w None) db0 else db0)"
      by (simp_all add: ids)
    show ?thesis using wf0 by (simp add: t t0 db' row0 frame0 created_row_def created_history_def Some)
  next
    case None
    let ?sz = "minutes_to_tier (d_estimated_minutes d)"
    from rest None have "runs (auto_size_task e now ?i ?sz Tr_auto_size) db0 t db' []" by (simp add: ids)
    then have t: "t = read_row (size_row now ?sz auto_source ?n)" and db': "db' = (if audit_enabled e
        then append_row (size_history ?i (d_project_id d) Tr_auto_size ?sz None) (modify_row ?i (size_row now ?sz auto_source) db0)
        else modify_row ?i (size_row now ?sz auto_source) db0)"
      unfolding auto_size_task_runs by (auto simp: row0 new_row_unscored None)
    have row': "row (modify_row ?i (size_row now ?sz auto_source) db0) = (row db)(?i \<mapsto> size_row now ?sz auto_source ?n)"
      by (rule ext) (simp add: rows.lookup_modify row0)
    have "write_auto_job_size now ?i ?sz auto_source db0 =
        Inr (t, modify_row ?i (size_row now ?sz auto_source) db0)"
      by (simp add: write_auto_job_size_Inr row0 t)
    then have "db_wf (modify_row ?i (size_row now ?sz auto_source) db0)" by (rule write_auto_job_size_wf [OF wf0])
    moreover have "history (modify_row ?i (size_row now ?sz auto_source) db0) = history db"
      by (simp add: modify_row_def frame0)
    ultimately show ?thesis by (simp add: t db' row' frame0 created_row_def created_history_def None)
  qed
qed

lemma created_row_size:
  "wsjf_job_size (created_row now i d) = Some (case d_wsjf d of
     None \<Rightarrow> minutes_to_tier (d_estimated_minutes d) | Some w \<Rightarrow> c_job (w_components w))"
  by (simp add: created_row_def new_row_def set_wsjf_def split: option.split)

lemma created_history_fields:
  "h_task_id (created_history i d) = i" "c_job (h_components (created_history i d)) = Some (case d_wsjf d of
     None \<Rightarrow> minutes_to_tier (d_estimated_minutes d) | Some w \<Rightarrow> c_job (w_components w))"
  by (simp_all add: created_history_def size_history_def wsjf_row_def created_row_size Let_def split: option.split)

text \<open>
  C14.  A task that was created is a fresh, open row of an existing project, under a parent of
  the same project if it has one; it has a job size, the tier of its submitted score or the
  one its minutes map to; one history row records that size; no other row or edge changes;
  and the only event is its creation, carrying the row that was stored.
\<close>

theorem created_task_is_sized_and_audited:
  assumes "db_wf db" and "audit_enabled e" and "create_task e now d db = (Inr t, db', evs)"
  shows "db_wf db' \<and> row db (task_id t) = None \<and> find_project db (project_id t) \<noteq> None \<and>
    (\<forall>p. d_parent_task_id d = Some p \<longrightarrow> (\<exists>q. row db p = Some q \<and> project_id q = project_id t)) \<and>
    status t = Open \<and>
    wsjf_job_size t = Some (case d_wsjf d of
      None \<Rightarrow> minutes_to_tier (d_estimated_minutes d) | Some w \<Rightarrow> c_job (w_components w)) \<and>
    (\<exists>r. t = read_row r \<and> row db' = (row db)(task_id t \<mapsto> r)) \<and> edges db' = edges db \<and>
    (\<exists>h. history db' = history db @ [h] \<and> h_task_id h = task_id t \<and> c_job (h_components h) = wsjf_job_size t) \<and>
    evs = [Task_created t From_user]"
proof -
  have run: "runs (create_task e now d) db t db' evs" using assms(3) by (simp add: runs_def)
  obtain t0 db0 where gates: "runs (create_gates d) db () db []" and "evs = [Task_created t From_user]"
    by (rule create_task_runs [OF run])
  with create_task_effect [OF assms(1) run] assms(2) row_new_id [OF assms(1)] show ?thesis
    by (auto simp: create_gates_runs created_row_size created_history_fields)
qed

definition sample_env :: env where
  "sample_env = \<lparr>strict_evidence = True, has_db = True, has_history = True, has_dependency_service = True\<rparr>"

theorem created_task_is_sized_and_audited_witness:
  "\<exists>t db'. create_task sample_env 1500 sample_create sample_pair = (Inr t, db', [Task_created t From_user]) \<and>
     task_id t = 3 \<and> wsjf_job_size t = Some F3 \<and> length (history db') = 1"
proof -
  define r where "r = create_task sample_env 1500 sample_create sample_pair"
  obtain x db' evs where run: "r = (x, db', evs)" by (cases r)
  have val: "case fst r of Inr t \<Rightarrow> task_id t = 3 \<and> wsjf_job_size t = Some F3 | Inl _ \<Rightarrow> False"
    unfolding r_def by code_simp
  then obtain t where x: "x = Inr t" and t: "task_id t = 3" "wsjf_job_size t = Some F3"
    using run by (auto split: sum.splits)
  have "history sample_pair = []" by (simp add: sample_pair_def sample_empty_def)
  with created_task_is_sized_and_audited [OF sample_linked_wf(1), of sample_env 1500 sample_create t db' evs] run x t
  show ?thesis by (auto simp: r_def audit_enabled_def sample_env_def)
qed

section \<open>Updates\<close>

lemma updated_row_fields [simp]:
  "status (updated_row now u r) = or_else (u_status u) (status r)"
  "evidence (updated_row now u r) = patch_nullable (u_evidence (repo_patch u r)) (evidence r)"
  by (simp_all add: updated_row_def Let_def update_row_def update_wsjf_def repo_patch_def or_else_def split: patch.split)

lemma status_after:
  "or_else (u_status u) (status r) = (case next_status u r of None \<Rightarrow> status r | Some s \<Rightarrow> s)"
  by (simp add: next_status_def or_else_def split: option.split)

lemma next_status_differs: "next_status u r = Some s \<Longrightarrow> s \<noteq> status r"
  by (auto simp: next_status_def split: option.splits if_splits)

text \<open>
  C1.  An update that succeeds leaves the status or moves it along the transition table, and
  announces exactly that: one update event, and one change of status with its two ends when
  the status moved.  Every other row is untouched, the integrity of the tables is kept, and
  what is returned is the row that was stored.
\<close>

theorem update_moves_status_along_the_table:
  assumes "update_task e now i u src caller db = (Inr t, db', evs)"
  shows "\<exists>r r'. row db i = Some r \<and> row db' = (row db)(i \<mapsto> r') \<and> t = read_row r' \<and>
    (status t = status r \<or> status t \<in> set (valid_status_transitions (status r))) \<and>
    evs = Task_updated t src # (if status t = status r then [] else [Status_changed t src (status r) (status t)]) \<and>
    (db_wf db \<longrightarrow> db_wf db')"
proof -
  have "runs (update_task e now i u src caller) db t db' evs" using assms by (simp add: runs_def)
  then show ?thesis
  proof (rule update_task_runs)
    fix r
    assume r: "row db i = Some r" and t: "t = read_row (updated_row now u r)"
      and row': "row db' i = Some (updated_row now u r)" and other: "\<And>j. j \<noteq> i \<Longrightarrow> row db' j = row db j"
      and move: "case next_status u r of None \<Rightarrow> True | Some s \<Rightarrow> s \<in> set (valid_status_transitions (status r))"
      and evs: "evs = Task_updated t src #
        (case next_status u r of None \<Rightarrow> [] | Some s \<Rightarrow> [Status_changed t src (status r) s])"
      and wf: "db_wf db \<longrightarrow> db_wf db'"
    have "row db' = (row db)(i \<mapsto> updated_row now u r)" using row' other by (auto simp: fun_eq_iff)
    moreover have "status t = (case next_status u r of None \<Rightarrow> status r | Some s \<Rightarrow> s)"
      by (simp add: t status_after)
    ultimately show ?thesis
      using r t wf move evs next_status_differs [of u r] by (cases "next_status u r") auto
  qed
qed

definition sample_close :: update_dto where
  "sample_close = empty_update\<lparr>u_status := Some In_progress\<rparr>"

theorem update_moves_status_along_the_table_witness:
  "\<exists>t db' evs. update_task sample_env 9000 1 sample_close From_user None sample_linked = (Inr t, db', evs) \<and>
     status t = In_progress \<and> db_wf db' \<and> evs = [Task_updated t From_user, Status_changed t From_user Open In_progress]"
proof -
  define x where "x = update_task sample_env 9000 1 sample_close From_user None sample_linked"
  obtain res db' evs where run: "x = (res, db', evs)" by (cases x)
  have "case fst x of Inr t \<Rightarrow> status t = In_progress | Inl _ \<Rightarrow> False" unfolding x_def by code_simp
  then obtain t where t: "res = Inr t" "status t = In_progress" using run by (auto split: sum.splits)
  have "map_option status (row sample_linked 1) = Some Open" by code_simp
  with update_moves_status_along_the_table [of sample_env 9000 1 sample_close From_user None sample_linked t db' evs]
    run t sample_linked_wf(2)
  show ?thesis by (auto simp: x_def)
qed

text \<open>
  A task is blocked together with its blockers or not at all: an update with a list of
  blockers that succeeds ends with status blocked and an edge from every one of them to the
  task, keeps all other edges, and leaves an acyclic graph acyclic.
\<close>

theorem blocked_with_all_its_blockers:
  assumes "update_task e now i u src caller db = (Inr t, db', evs)" and "u_blocked_by u = Some bs"
  shows "status t = Blocked \<and> (\<forall>b\<in>set bs. (b, i) \<in> set (edges db')) \<and> set (edges db) \<subseteq> set (edges db') \<and>
    (acyclic (set (edges db)) \<longrightarrow> acyclic (set (edges db')))"
proof -
  have "runs (update_task e now i u src caller) db t db' evs" using assms(1) by (simp add: runs_def)
  then show ?thesis by (rule update_task_runs) (use assms(2) in \<open>auto simp: or_else_def\<close>)
qed

theorem blocked_with_all_its_blockers_witness:
  "\<exists>t db' evs. update_task sample_env 9000 2 (empty_update\<lparr>u_status := Some Blocked, u_blocked_by := Some [1]\<rparr>)
       From_user None sample_pair = (Inr t, db', evs) \<and> status t = Blocked \<and> (1, 2) \<in> set (edges db')"
proof -
  define x where "x = update_task sample_env 9000 2 (empty_update\<lparr>u_status := Some Blocked, u_blocked_by := Some [1]\<rparr>)
       From_user None sample_pair"
  obtain res db' evs where run: "x = (res, db', evs)" by (cases x)
  have "case fst x of Inr t \<Rightarrow> True | Inl _ \<Rightarrow> False" unfolding x_def by code_simp
  then obtain t where "res = Inr t" using run by (auto split: sum.splits)
  with run blocked_with_all_its_blockers [of sample_env 9000 2
      "empty_update\<lparr>u_status := Some Blocked, u_blocked_by := Some [1]\<rparr>" From_user None sample_pair t db' evs "[1]"]
  show ?thesis by (auto simp: x_def)
qed

text \<open>
  A task that an update closes carries evidence: what the caller sent, else what the row
  already had, else the marker that nobody verified it.  Only an update that clears the
  evidence explicitly can close a task without any.  An update that closes nothing and
  sends no evidence leaves the evidence alone.
\<close>

theorem closing_stamps_evidence:
  assumes "update_task e now i u src caller db = (Inr t, db', evs)" and "row db i = Some r"
  shows "evidence t =
    (case u_evidence u of
       Put ev \<Rightarrow> Some ev
     | Clear \<Rightarrow> None
     | Absent \<Rightarrow> if status t \<noteq> status r \<and> status t \<in> {Done, Closed} \<and> evidence r = None
                then Some not_verified else evidence r)"
proof -
  have "runs (update_task e now i u src caller) db t db' evs" using assms(1) by (simp add: runs_def)
  then have t: "t = read_row (updated_row now u r)" by (rule update_task_runs) (simp add: assms(2))
  show ?thesis
    using next_status_differs [of u r]
    by (cases "u_evidence u"; cases "next_status u r") (auto simp: t repo_patch_def status_after)
qed

theorem closing_stamps_evidence_witness:
  "\<exists>t db' evs. update_task sample_env 9000 1 (empty_update\<lparr>u_status := Some Closed\<rparr>) From_user None sample_linked =
     (Inr t, db', evs) \<and> evidence t = Some not_verified"
proof -
  define x where "x = update_task sample_env 9000 1 (empty_update\<lparr>u_status := Some Closed\<rparr>) From_user None sample_linked"
  obtain res db' evs where run: "x = (res, db', evs)" by (cases x)
  have "case fst x of Inr t \<Rightarrow> status t = Closed | Inl _ \<Rightarrow> False" unfolding x_def by code_simp
  then obtain t where t: "res = Inr t" "status t = Closed" using run by (auto split: sum.splits)
  have r: "row sample_linked 1 = Some (new_row 1500 1 sample_create)"
    by (simp add: row_def sample_linked_def sample_pair_def)
  from closing_stamps_evidence [of sample_env 9000 1 "empty_update\<lparr>u_status := Some Closed\<rparr>" From_user None
      sample_linked t db' evs, OF _ r] run t
  show ?thesis by (simp add: x_def empty_update_def sample_create_def)
qed

lemma sizes_of_updated_row:
  "wsjf_job_size (updated_row now u r) =
     (if resizes u r then Some (minutes_to_tier (put_option (u_estimated_minutes u)))
      else case u_wsjf u of Absent \<Rightarrow> wsjf_job_size r | Clear \<Rightarrow> None | Put w \<Rightarrow> Some (c_job (w_components w)))"
  by (simp add: updated_row_def Let_def update_row_def update_wsjf_def repo_patch_def set_wsjf_def split: patch.split)

lemma history_rows_size [simp]:
  "c_job (h_components (size_history tid pid tr sz prev)) = Some sz"
  "c_job (h_components (wsjf_row tid pid tr w prev)) = Some (c_job (w_components w))"
  "h_task_id (size_history tid pid tr sz prev) = tid" "h_task_id (wsjf_row tid pid tr w prev) = tid"
  by (simp_all add: size_history_def wsjf_row_def Let_def)

text \<open>
  No size is written without a row of history: after a successful update the history is
  the old one followed by rows of this task, and unless the update clears the score, either
  nothing was appended and the size is unchanged, or the last row appended records the size
  the task now has.
\<close>

theorem update_is_audited:
  assumes "update_task e now i u src caller db = (Inr t, db', evs)" and "audit_enabled e" and "row db i = Some r"
  shows "\<exists>hs. history db' = history db @ hs \<and> list_all (\<lambda>h. h_task_id h = i) hs \<and>
    (u_wsjf u = Clear \<or> (if hs = [] then wsjf_job_size t = wsjf_job_size r
       else wsjf_job_size t \<noteq> None \<and> wsjf_job_size t = c_job (h_components (last hs))))"
proof -
  have "runs (update_task e now i u src caller) db t db' evs" using assms(1) by (simp add: runs_def)
  then show ?thesis
  proof (rule update_task_runs)
    fix r'
    assume r: "row db i = Some r'" and t: "t = read_row (updated_row now u r')"
      and hist: "audit_enabled e \<Longrightarrow> history db' = history db @
       (case u_wsjf u of Put w \<Rightarrow>
          [wsjf_row i (project_id r') (if w_manual w = Some True then Tr_manual else Tr_update) w (current_wsjf_score r')]
        | _ \<Rightarrow> []) @
       (if resizes u r' then [size_history i (project_id r') Tr_auto_size
          (minutes_to_tier (put_option (u_estimated_minutes u)))
          (current_wsjf_score (update_row now (repo_patch u r') r'))] else [])"
    have "r' = r" using r assms(3) by simp
    then show ?thesis
      using hist [OF assms(2)] by (cases "u_wsjf u") (auto simp: t sizes_of_updated_row)
  qed
qed

text \<open>
  An auto-sized row whose estimate changes takes the size of the new estimate and an
  all-automatic provenance, whatever score the same update carries: a manual score loses
  its provenance and a submitted one its tier.
\<close>

theorem changed_minutes_outrank_the_score:
  assumes "update_task e now i u src caller db = (Inr t, db', evs)" and "row db i = Some r"
    and "u_estimated_minutes u = Put m" and "estimated_minutes r \<noteq> Some m"
    and "wsjf_source_col r = Some s" and "c_job s = Auto"
  shows "wsjf_job_size t = Some (minutes_to_tier (Some m)) \<and> wsjf_source_col t = Some auto_source"
proof -
  have "runs (update_task e now i u src caller) db t db' evs" using assms(1) by (simp add: runs_def)
  then have t: "t = read_row (updated_row now u r)" by (rule update_task_runs) (simp add: assms(2))
  have "resizes u r" using assms(3-6) by (simp add: resizes_def minutes_changed_def)
  then show ?thesis using assms(3) by (simp add: t updated_row_def Let_def)
qed

text \<open>A submission of tier 13 beside an estimate of 15 minutes, on a row that was sized automatically.\<close>

definition sample_submission :: wsjf_write where
  "sample_submission = \<lparr>w_components = \<lparr>c_value = F8, c_time = F3, c_risk = F1, c_job = F13\<rparr>, w_evidence = None,
     w_locked = None, w_source = Some auto_source, w_classifications = None, w_features = None,
     w_manual = None, w_trigger = None\<rparr>"

definition sample_sized :: db where
  "sample_sized = modify_row 1 (size_row 2000 F3 auto_source) sample_pair"

definition sample_rescored :: update_dto where
  "sample_rescored = empty_update\<lparr>u_estimated_minutes := Put 15, u_wsjf := Put sample_submission\<rparr>"

lemma sample_sized_row: "row sample_sized 1 = Some (size_row 2000 F3 auto_source (new_row 1500 1 sample_create))"
  by (simp add: sample_sized_def rows.lookup_modify) (simp add: row_def sample_pair_def)

lemma sample_rescored_runs:
  "\<exists>t db' evs. update_task sample_env 9000 1 sample_rescored From_user None sample_sized = (Inr t, db', evs)"
proof -
  define x where "x = update_task sample_env 9000 1 sample_rescored From_user None sample_sized"
  obtain res db' evs where run: "x = (res, db', evs)" by (cases x)
  have "case fst x of Inr t \<Rightarrow> True | Inl _ \<Rightarrow> False" unfolding x_def by code_simp
  then obtain t where "res = Inr t" using run by (auto split: sum.splits)
  with run show ?thesis by (simp add: x_def)
qed

theorem update_is_audited_witness:
  "\<exists>t db' evs hs. update_task sample_env 9000 1 sample_rescored From_user None sample_sized = (Inr t, db', evs) \<and>
     history db' = history sample_sized @ hs \<and> list_all (\<lambda>h. h_task_id h = 1) hs"
proof -
  obtain t db' evs where run: "update_task sample_env 9000 1 sample_rescored From_user None sample_sized = (Inr t, db', evs)"
    using sample_rescored_runs by blast
  from update_is_audited [OF run _ sample_sized_row] run show ?thesis by (auto simp: audit_enabled_def sample_env_def)
qed

theorem changed_minutes_outrank_the_score_witness:
  "\<exists>t db' evs. update_task sample_env 9000 1 sample_rescored From_user None sample_sized = (Inr t, db', evs) \<and>
     c_job (w_components sample_submission) = F13 \<and> wsjf_job_size t = Some F1"
proof -
  obtain t db' evs where run: "update_task sample_env 9000 1 sample_rescored From_user None sample_sized = (Inr t, db', evs)"
    using sample_rescored_runs by blast
  have "u_estimated_minutes sample_rescored = Put 15" by (simp add: sample_rescored_def)
  moreover have "estimated_minutes (size_row 2000 F3 auto_source (new_row 1500 1 sample_create)) = Some 45"
    by (simp add: size_row_def sample_create_def)
  moreover have "minutes_to_tier (Some 15) = F1" by code_simp
  ultimately show ?thesis
    using changed_minutes_outrank_the_score [OF run sample_sized_row, of 15 auto_source] run
    by (simp add: sample_submission_def auto_source_def)
qed

end
