(* ===== verification/Claim_Protocol.thy ===== *)
theory Claim_Protocol
  imports Task_Service_Facts
begin

text \<open>
  Who holds a task: the claim of \<open>src/services/task.service.ts\<close> split at the point where two
  processes can interleave, between its checks and its compare-and-swap, and the sweep of
  \<open>src/services/claim-release.service.ts\<close> that frees claims nobody renewed.
\<close>

section \<open>The two halves of a claim\<close>

text \<open>What the checks decide on the row they read.\<close>

datatype claim_plan = Renew_claim | Fresh_claim

definition claim_check :: "id \<Rightarrow> string \<Rightarrow> db \<Rightarrow> service_error + claim_plan" where
  "claim_check i who db =
     (case find_by_id db i of
        None \<Rightarrow> Inl (Not_found Task_entity i)
      | Some existing \<Rightarrow>
          if status existing = In_progress \<and> assignee existing = Some who then Inr Renew_claim
          else if status existing \<noteq> Open then Inl (Business_failed (Not_claimable i (status existing)))
          else if or_null_text (assignee existing) \<noteq> None
          then Inl (Business_failed (Already_claimed i (or_else (assignee existing) [])))
          else Inr Fresh_claim)"

definition claim_commit :: "stamp \<Rightarrow> id \<Rightarrow> string \<Rightarrow> event_source \<Rightarrow> id option \<Rightarrow> claim_plan \<Rightarrow> task call" where
  "claim_commit now i who src uid plan =
     call_bind (case plan of
         Renew_claim \<Rightarrow> cas_db (repo_renew_claim now i who) (Business_failed (Renew_failed i))
       | Fresh_claim \<Rightarrow> cas_db (repo_claim now i who uid) (Business_failed (Concurrent_claim i)))
     (\<lambda>t. call_bind (emit (Task_claimed t src)) (\<lambda>_. ret t))"

lemma claim_task_split:
  "claim_task now i who src uid db =
     (case claim_check i who db of Inl err \<Rightarrow> (Inl err, db, []) | Inr plan \<Rightarrow> claim_commit now i who src uid plan db)"
  by (cases "find_by_id db i")
    (simp_all add: claim_task_def claim_check_def claim_commit_def call_bind_def read_db_def throw_def
      del: find_by_id_None)

section \<open>Interleaved claims\<close>

text \<open>
  Several processes claim task \<open>i\<close> at once, each under its own name: every step is one half
  of one claim, in any order.  A process that has passed its checks carries the plan they
  gave it until it commits.
\<close>

datatype claim_op = Check string | Commit string stamp "id option"

record claim_world =
  world_db :: db
  plans :: "string \<Rightarrow> claim_plan option"
  winners :: "string list"

fun claim_op_step :: "id \<Rightarrow> claim_world \<Rightarrow> claim_op \<Rightarrow> claim_world" where
  "claim_op_step i w (Check who) =
     (case claim_check i who (world_db w) of
        Inl _ \<Rightarrow> w
      | Inr plan \<Rightarrow> w\<lparr>plans := (plans w)(who \<mapsto> plan)\<rparr>)"
| "claim_op_step i w (Commit who now uid) =
     (case plans w who of
        None \<Rightarrow> w
      | Some plan \<Rightarrow>
          (case claim_commit now i who From_user uid plan (world_db w) of
             (Inl _, db', _) \<Rightarrow> w\<lparr>world_db := db', plans := (plans w)(who := None)\<rparr>
           | (Inr _, db', _) \<Rightarrow> w\<lparr>world_db := db', plans := (plans w)(who := None),
                 winners := who # winners w\<rparr>))"

definition run_claims :: "id \<Rightarrow> db \<Rightarrow> claim_op list \<Rightarrow> claim_world" where
  "run_claims i db ops =
     foldl (claim_op_step i) \<lparr>world_db = db, plans = (\<lambda>_. None), winners = []\<rparr> ops"

text \<open>The row is free until the first commit succeeds and held by its winner from then on.\<close>

definition free_row :: "task \<Rightarrow> bool" where
  "free_row r \<longleftrightarrow> status r = Open \<and> assignee r = None"

definition contest_ok :: "id \<Rightarrow> claim_world \<Rightarrow> bool" where
  "contest_ok i w \<longleftrightarrow> (\<exists>r. row (world_db w) i = Some r \<and>
     (if winners w = [] then free_row r \<and> (\<forall>who. plans w who \<noteq> Some Renew_claim)
      else status r = In_progress \<and> (\<exists>a. assignee r = Some a \<and> set (winners w) = {a})))"

lemma claim_commit_cases:
  assumes "row db i = Some r"
  shows "claim_commit now i who src uid Fresh_claim db =
      (if free_row r
       then (Inr (read_row (claim_row now who uid r)), modify_row i (claim_row now who uid) db,
             [Task_claimed (read_row (claim_row now who uid r)) src])
       else (Inl (Business_failed (Concurrent_claim i)), db, []))"
    and "claim_commit now i who src uid Renew_claim db =
      (if status r = In_progress \<and> assignee r = Some who
       then (Inr (read_row (renew_row now r)), modify_row i (renew_row now) db,
             [Task_claimed (read_row (renew_row now r)) src])
       else (Inl (Business_failed (Renew_failed i)), db, []))"
  using assms
  by (auto simp: claim_commit_def call_bind_def cas_db_def repo_claim_def repo_renew_claim_def emit_def ret_def
      free_row_def)

lemma claim_rows [simp]:
  "status (claim_row now who uid r) = In_progress" "assignee (claim_row now who uid r) = Some who"
  "task_id (claim_row now who uid r) = task_id r"
  "status (renew_row now r) = status r" "assignee (renew_row now r) = assignee r"
  "task_id (renew_row now r) = task_id r"
  by (simp_all add: claim_row_def renew_row_def)

lemma claim_check_plan:
  "row db i = Some r \<Longrightarrow> claim_check i who db = Inr plan \<Longrightarrow>
     (plan = Renew_claim \<and> status r = In_progress \<and> assignee r = Some who) \<or> (plan = Fresh_claim \<and> status r = Open)"
  by (auto simp: claim_check_def find_by_id_def split: if_splits)

lemma claim_check_free: "row db i = Some r \<Longrightarrow> free_row r \<Longrightarrow> claim_check i who db = Inr Fresh_claim"
  by (simp add: claim_check_def find_by_id_def free_row_def or_null_text_def)

lemma commit_step:
  assumes "row (world_db w) i = Some r"
  shows "plans w who = Some Fresh_claim \<Longrightarrow> claim_op_step i w (Commit who now uid) =
      (if free_row r then w\<lparr>world_db := modify_row i (claim_row now who uid) (world_db w),
           plans := (plans w)(who := None), winners := who # winners w\<rparr>
       else w\<lparr>plans := (plans w)(who := None)\<rparr>)"
    and "plans w who = Some Renew_claim \<Longrightarrow> claim_op_step i w (Commit who now uid) =
      (if status r = In_progress \<and> assignee r = Some who
       then w\<lparr>world_db := modify_row i (renew_row now) (world_db w),
           plans := (plans w)(who := None), winners := who # winners w\<rparr>
       else w\<lparr>plans := (plans w)(who := None)\<rparr>)"
  by (simp_all add: claim_commit_cases [OF assms])

lemma contest_step: "contest_ok i w \<Longrightarrow> contest_ok i (claim_op_step i w op)"
proof (cases op)
  case (Check who)
  assume ok: "contest_ok i w"
  then obtain r where r: "row (world_db w) i = Some r" by (auto simp: contest_ok_def)
  show ?thesis
  proof (cases "claim_check i who (world_db w)")
    case (Inr plan)
    with claim_check_plan [OF r Inr] ok r show ?thesis
      by (auto simp: contest_ok_def Check free_row_def split: if_splits)
  qed (simp add: Check ok)
next
  case (Commit who now uid)
  assume ok: "contest_ok i w"
  then obtain r where r: "row (world_db w) i = Some r" by (auto simp: contest_ok_def)
  have claimed: "row (modify_row i (claim_row now who uid) (world_db w)) i = Some (claim_row now who uid r)"
    and renewed: "row (modify_row i (renew_row now) (world_db w)) i = Some (renew_row now r)"
    using r by (simp_all add: rows.lookup_modify)
  show ?thesis
  proof (cases "winners w = []")
    case True
    with ok r have free: "free_row r" and plans: "\<And>x. plans w x \<noteq> Some Renew_claim" by (auto simp: contest_ok_def)
    show ?thesis
    proof (cases "plans w who")
      case None
      with ok show ?thesis by (simp add: Commit)
    next
      case (Some plan)
      with plans have "plan = Fresh_claim" by (cases plan) auto
      with Some True commit_step(1) [OF r, of who now uid] claimed free show ?thesis
        by (simp add: Commit contest_ok_def)
    qed
  next
    case False
    with ok r obtain a where held: "status r = In_progress" "assignee r = Some a" "set (winners w) = {a}"
      by (auto simp: contest_ok_def)
    then have taken: "\<not> free_row r" by (simp add: free_row_def)
    show ?thesis
    proof (cases "plans w who")
      case None
      with ok show ?thesis by (simp add: Commit)
    next
      case (Some plan)
      show ?thesis
      proof (cases plan)
        case Fresh_claim
        with Some taken held False r commit_step(1) [OF r, of who now uid] show ?thesis
          by (simp add: Commit contest_ok_def)
      next
        case Renew_claim
        with Some held False r commit_step(2) [OF r, of who now uid] renewed show ?thesis
          by (simp add: Commit contest_ok_def)
      qed
    qed
  qed
qed

lemma contest_run: "contest_ok i w \<Longrightarrow> contest_ok i (foldl (claim_op_step i) w ops)"
  by (induction ops arbitrary: w) (auto intro: contest_step)

text \<open>A process that has checked either holds a fresh plan or has been beaten to the row.\<close>

definition in_the_race :: "string \<Rightarrow> claim_world \<Rightarrow> bool" where
  "in_the_race who w \<longleftrightarrow> winners w \<noteq> [] \<or> plans w who = Some Fresh_claim"

lemma race_step:
  assumes "contest_ok i w" and "in_the_race who w"
  shows "in_the_race who (claim_op_step i w op)"
proof (cases "winners w = []")
  case False
  then show ?thesis
    by (cases op) (auto simp: in_the_race_def split: sum.split option.split prod.split)
next
  case True
  then obtain r where r: "row (world_db w) i = Some r" and free: "free_row r"
    and plans: "\<And>x. plans w x \<noteq> Some Renew_claim"
    using assms(1) by (auto simp: contest_ok_def)
  show ?thesis
  proof (cases op)
    case (Check x)
    then show ?thesis using assms(2) claim_check_free [OF r free] by (simp add: in_the_race_def)
  next
    case (Commit x now uid)
    show ?thesis
    proof (cases "plans w x")
      case None
      with assms(2) show ?thesis by (simp add: Commit)
    next
      case (Some plan)
      with plans have "plan = Fresh_claim" by (cases plan) auto
      with Some free commit_step(1) [OF r, of x now uid] show ?thesis by (simp add: Commit in_the_race_def)
    qed
  qed
qed

lemma race_run: "contest_ok i w \<Longrightarrow> in_the_race who w \<Longrightarrow> in_the_race who (foldl (claim_op_step i) w ops)"
  by (induction ops arbitrary: w) (auto intro: contest_step race_step)

lemma winners_stay: "winners w \<noteq> [] \<Longrightarrow> winners (foldl (claim_op_step i) w ops) \<noteq> []"
proof (induction ops arbitrary: w)
  case (Cons op ops)
  then have "winners (claim_op_step i w op) \<noteq> []"
    by (cases op) (auto split: sum.split option.split prod.split)
  then show ?case by (simp add: Cons.IH)
qed simp

lemma check_enters_the_race: "contest_ok i w \<Longrightarrow> in_the_race who (claim_op_step i w (Check who))"
  unfolding contest_ok_def in_the_race_def
  by (cases "winners w = []") (auto simp: claim_check_free split: sum.split)

lemma commit_settles_the_race:
  assumes "contest_ok i w" and "in_the_race who w"
  shows "winners (claim_op_step i w (Commit who now uid)) \<noteq> []"
proof (cases "winners w = []")
  case True
  then obtain r where "row (world_db w) i = Some r" and "free_row r" using assms(1) by (auto simp: contest_ok_def)
  with True assms(2) commit_step(1) [of w i r who now uid] show ?thesis by (simp add: in_the_race_def)
next
  case False
  then show ?thesis using winners_stay [of w i "[Commit who now uid]"] by simp
qed

lemma contest_settled:
  assumes "row db i = Some r" and "status r = Open" and "assignee r = None"
  shows "\<exists>r'. row (world_db (run_claims i db ops)) i = Some r' \<and>
      (if winners (run_claims i db ops) = [] then status r' = Open \<and> assignee r' = None
       else status r' = In_progress \<and> (\<exists>a. assignee r' = Some a \<and> set (winners (run_claims i db ops)) = {a}))"
    (is "?one") and
    "ops = xs @ Check who # ys @ Commit who now uid # zs \<longrightarrow> winners (run_claims i db ops) \<noteq> []"
    (is "?some")
proof -
  let ?w = "\<lparr>world_db = db, plans = (\<lambda>_. None), winners = []\<rparr>"
  have ok: "contest_ok i ?w" using assms by (simp add: contest_ok_def free_row_def)
  have "contest_ok i (run_claims i db ops)" unfolding run_claims_def by (rule contest_run [OF ok])
  then show ?one by (auto simp: contest_ok_def free_row_def)
  show ?some
  proof
    assume ops: "ops = xs @ Check who # ys @ Commit who now uid # zs"
    let ?w1 = "foldl (claim_op_step i) ?w xs"
    have ok1: "contest_ok i ?w1" by (rule contest_run [OF ok])
    let ?w2 = "claim_op_step i ?w1 (Check who)"
    let ?w3 = "foldl (claim_op_step i) ?w2 ys"
    have ok2: "contest_ok i ?w2" by (rule contest_step [OF ok1])
    have "in_the_race who ?w3" by (rule race_run [OF ok2 check_enters_the_race [OF ok1]])
    then have "winners (claim_op_step i ?w3 (Commit who now uid)) \<noteq> []"
      by (rule commit_settles_the_race [OF contest_run [OF ok2]])
    then show "winners (run_claims i db ops) \<noteq> []"
      unfolding run_claims_def ops by (simp add: winners_stay)
  qed
qed

text \<open>
  C4.  However the checks and commits of any number of processes interleave on a free task,
  at most one of them gets it: every success is by the same name, the one on the row, and
  while nobody has succeeded the row is still free.  And somebody does get it: once one
  process has made its check and then its commit, there is a winner.
\<close>

theorem one_claim_wins:
  assumes "row db i = Some r" and "status r = Open" and "assignee r = None"
  shows "(\<exists>r'. row (world_db (run_claims i db ops)) i = Some r' \<and>
      (if winners (run_claims i db ops) = [] then status r' = Open \<and> assignee r' = None
       else status r' = In_progress \<and> (\<exists>a. assignee r' = Some a \<and> set (winners (run_claims i db ops)) = {a}))) \<and>
    (\<forall>xs who ys now uid zs. ops = xs @ Check who # ys @ Commit who now uid # zs \<longrightarrow> winners (run_claims i db ops) \<noteq> [])"
  using contest_settled [OF assms, of ops] by blast

text \<open>Two processes check, then both commit: the second one is refused.\<close>

theorem one_claim_wins_witness:
  "winners (run_claims 1 sample_pair [Check ''a'', Check ''b'', Commit ''b'' 5000 None, Commit ''a'' 6000 None]) = [''b''] \<and>
   map_option assignee (row (world_db (run_claims 1 sample_pair
     [Check ''a'', Check ''b'', Commit ''b'' 5000 None, Commit ''a'' 6000 None])) 1) = Some (Some ''b'')"
proof -
  let ?ops = "[Check ''a'', Check ''b'', Commit ''b'' 5000 None, Commit ''a'' 6000 None]"
  have r: "row sample_pair 1 = Some (new_row 1500 1 sample_create)" by (simp add: row_def sample_pair_def)
  have "winners (run_claims 1 sample_pair ?ops) = [''b'']" by code_simp
  with one_claim_wins [OF r, of ?ops] show ?thesis by (auto simp: sample_create_def or_null_text_def)
qed

section \<open>Releasing stale claims\<close>

definition stale :: "int \<Rightarrow> stamp \<Rightarrow> task \<Rightarrow> bool" where
  "stale ttl now t \<longleftrightarrow>
     assignee t \<noteq> None \<and> status t = In_progress \<and>
     opt_any (claimed_at t) (\<lambda>c. c \<le> sql_now now - ttl * 60000) \<and> updated_at t \<le> sql_now now - ttl * 60000"

text \<open>The query names no order; the model takes the order of the table, which is that of the ids.\<close>

definition find_stale_claims :: "int \<Rightarrow> stamp \<Rightarrow> db \<Rightarrow> (id \<times> string \<times> stamp) list" where
  "find_stale_claims ttl now db =
     map (\<lambda>t. (task_id t, or_else (assignee t) [], or_else (claimed_at t) 0)) (filter (stale ttl now) (tasks db))"

definition release_row :: "stamp \<Rightarrow> task \<Rightarrow> task" where
  "release_row now t =
     t\<lparr>assignee := None, status := Open, claimed_at := None, version := version t + 1, updated_at := sql_now now\<rparr>"

definition release_claim :: "stamp \<Rightarrow> id \<Rightarrow> db \<Rightarrow> bool \<times> db" where
  "release_claim now i db =
     (case row db i of
        None \<Rightarrow> (False, db)
      | Some t \<Rightarrow>
          if assignee t \<noteq> None \<and> status t = In_progress then (True, modify_row i (release_row now) db)
          else (False, db))"

definition release_db :: "stamp \<Rightarrow> id \<Rightarrow> bool call" where
  "release_db now i db = (case release_claim now i db of (ok, db') \<Rightarrow> (Inr ok, db', []))"

fun sweep_loop :: "stamp \<Rightarrow> (id \<times> string \<times> stamp) list \<Rightarrow> nat \<Rightarrow> nat call" where
  "sweep_loop now [] released = ret released"
| "sweep_loop now ((i, who, c) # rest) released =
     call_bind (release_db now i) (\<lambda>ok.
       if \<not> ok then sweep_loop now rest released
       else call_bind (read_db (\<lambda>db. map_option list_row (row db i))) (\<lambda>found.
         case found of
           None \<Rightarrow> sweep_loop now rest (Suc released)
         | Some t \<Rightarrow>
             call_bind (emit (Task_updated t From_workflow)) (\<lambda>_.
             call_bind (emit (Claim_released t who c now)) (\<lambda>_.
             sweep_loop now rest (Suc released)))))"

definition sweep :: "int \<Rightarrow> stamp \<Rightarrow> nat call" where
  "sweep ttl now = call_bind (read_db (find_stale_claims ttl now)) (\<lambda>claims. sweep_loop now claims 0)"

text \<open>What a sweep does to one row and what it says about it.\<close>

definition swept :: "int \<Rightarrow> stamp \<Rightarrow> task \<Rightarrow> task" where
  "swept ttl now t = (if stale ttl now t then release_row now t else t)"

definition release_events :: "stamp \<Rightarrow> task \<Rightarrow> event list" where
  "release_events now t =
     [Task_updated (list_row (release_row now t)) From_workflow,
      Claim_released (list_row (release_row now t)) (or_else (assignee t) []) (or_else (claimed_at t) 0) now]"

definition claim_key :: "task \<Rightarrow> id \<times> string \<times> stamp" where
  "claim_key t = (task_id t, or_else (assignee t) [], or_else (claimed_at t) 0)"

lemma release_row_fields [simp]:
  "task_id (release_row now t) = task_id t" "status (release_row now t) = Open" "assignee (release_row now t) = None"
  "claimed_at (release_row now t) = None"
  by (simp_all add: release_row_def)

lemma sweep_loop_spec:
  assumes "distinct (map task_id (tasks db))" and "distinct L" and "set L \<subseteq> set (tasks db)"
    and "\<forall>t\<in>set L. assignee t \<noteq> None \<and> status t = In_progress"
  shows "sweep_loop now (map claim_key L) n db =
    (Inr (n + length L), db\<lparr>tasks := map (\<lambda>t. if t \<in> set L then release_row now t else t) (tasks db)\<rparr>,
     concat (map (release_events now) L))"
  using assms
proof (induction L arbitrary: db n)
  case Nil
  then show ?case by (simp add: ret_def)
next
  case (Cons t L)
  let ?db1 = "modify_row (task_id t) (release_row now) db"
  have t: "row db (task_id t) = Some t" using Cons.prems by (auto intro: row_of_member)
  have rel: "release_claim now (task_id t) db = (True, ?db1)" using t Cons.prems(4) by (simp add: release_claim_def)
  have read: "row ?db1 (task_id t) = Some (release_row now t)"
    by (simp add: rows.lookup_modify t)
  have "tasks ?db1 = map (\<lambda>x. if task_id x = task_id t then release_row now x else x) (tasks db)"
    by (simp add: modify_row_def)
  also have "\<dots> = map (\<lambda>x. if x = t then release_row now x else x) (tasks db)"
    using Cons.prems(1,3) by (auto simp: same_id_same_row)
  finally have ts1: "tasks ?db1 = map (\<lambda>x. if x = t then release_row now x else x) (tasks db)" .
  have fresh: "x \<noteq> t \<and> x \<in> set (tasks ?db1)" if "x \<in> set L" for x
    using that Cons.prems(2,3) unfolding ts1 by force
  have out: "release_row now t \<notin> set L"
  proof
    assume "release_row now t \<in> set L"
    then have "release_row now t = t"
      using Cons.prems(1,3) same_id_same_row [of "tasks db" "release_row now t" t] by auto
    then show False using Cons.prems(4) by (metis list.set_intros(1) release_row_fields(3))
  qed
  have IH: "sweep_loop now (map claim_key L) (Suc n) ?db1 =
      (Inr (Suc n + length L), ?db1\<lparr>tasks := map (\<lambda>t. if t \<in> set L then release_row now t else t) (tasks ?db1)\<rparr>,
       concat (map (release_events now) L))"
  proof (rule Cons.IH)
    have "map task_id (tasks ?db1) = map task_id (tasks db)" unfolding ts1 by simp
    then show "distinct (map task_id (tasks ?db1))" using Cons.prems(1) by metis
  qed (use Cons.prems fresh in auto)
  have tasks2: "map (\<lambda>t. if t \<in> set L then release_row now t else t) (tasks ?db1) =
      map (\<lambda>x. if x \<in> set (t # L) then release_row now x else x) (tasks db)"
    unfolding ts1 using out by auto
  have db2: "?db1\<lparr>tasks := xs\<rparr> = db\<lparr>tasks := xs\<rparr>" for xs by (simp add: modify_row_def)
  show ?case
    unfolding list.map(2) claim_key_def [of t] sweep_loop.simps call_bind_def release_db_def read_db_def emit_def rel
    using read IH tasks2 by (simp add: release_events_def db2)
qed

text \<open>
  C26.  A sweep releases exactly the stale claims, whatever their order: every stale row goes
  back to open without an assignee, every other row stays as it is, the count is the number
  of stale rows, and each release is announced by an update and by an event that names the
  former holder and when its claim was made.
\<close>

theorem sweep_releases_the_stale:
  assumes "db_wf db"
  shows "sweep ttl now db =
    (Inr (length (filter (stale ttl now) (tasks db))),
     db\<lparr>tasks := map (\<lambda>t. if stale ttl now t then release_row now t else t) (tasks db)\<rparr>,
     concat (map (release_events now) (filter (stale ttl now) (tasks db))))"
proof -
  let ?L = "filter (stale ttl now) (tasks db)"
  have ids: "distinct (map task_id (tasks db))" using assms by (simp add: db_wf_def)
  then have "distinct (tasks db)" by (simp add: distinct_map)
  then have "sweep_loop now (map claim_key ?L) 0 db =
      (Inr (0 + length ?L), db\<lparr>tasks := map (\<lambda>t. if t \<in> set ?L then release_row now t else t) (tasks db)\<rparr>,
       concat (map (release_events now) ?L))"
    by (intro sweep_loop_spec ids) (auto simp: stale_def)
  moreover have "map claim_key ?L = find_stale_claims ttl now db" by (simp add: find_stale_claims_def claim_key_def)
  moreover have "map (\<lambda>t. if t \<in> set ?L then release_row now t else t) (tasks db) =
      map (\<lambda>t. if stale ttl now t then release_row now t else t) (tasks db)" by simp
  ultimately show ?thesis by (simp add: sweep_def call_bind_def read_db_def)
qed

definition sample_held :: db where
  "sample_held = modify_row 1 (claim_row 10000 ''a'' None) sample_pair"

theorem sweep_releases_the_stale_witness:
  "fst (sweep 30 (10000 + 30 * 60000) sample_held) = Inr 1 \<and>
   fst (sweep 30 (9999 + 30 * 60000) sample_held) = Inr 0"
proof -
  have wf: "db_wf sample_held"
    using repo_claim_wf [OF sample_linked_wf(1), of 10000 1 "''a''" None]
    by (simp add: repo_claim_def sample_held_def row_def sample_pair_def sample_create_def or_null_text_def)
  have "length (filter (stale 30 (10000 + 30 * 60000)) (tasks sample_held)) = 1"
    "length (filter (stale 30 (9999 + 30 * 60000)) (tasks sample_held)) = 0"
    by code_simp+
  with sweep_releases_the_stale [OF wf] show ?thesis by simp
qed

section \<open>The reported time to live\<close>

lemma sql_now_bounds: "sql_now now \<le> now" "now - 1000 < sql_now now"
  by (auto simp: sql_now_def)

lemma whole_seconds:
  fixes x :: int
  shows "x < max 0 (x div 1000) * 1000 + 1000" and "x div 1000 * 1000 \<le> x"
proof -
  show "x div 1000 * 1000 \<le> x" by presburger
  have "x < (x div 1000) * 1000 + 1000" by presburger
  then show "x < max 0 (x div 1000) * 1000 + 1000" by (simp add: max_def)
qed

text \<open>
  The remaining seconds that a read of a held task reports agree with the sweep: before
  they are over no sweep releases the claim, and two seconds after they are over every sweep
  does, unless the row was touched in between.
\<close>

theorem reported_ttl_agrees_with_the_sweep:
  assumes "v_claim (with_claim_ttl now t) = Some (m, secs)"
  shows "0 \<le> secs \<and> m = 30 \<and>
    (\<forall>later. now \<le> later \<and> later < now + secs * 1000 \<longrightarrow> \<not> stale m later t) \<and>
    (\<forall>later. now + secs * 1000 + 2000 \<le> later \<longrightarrow> stale m later t)"
proof -
  let ?ttl = "30 * 60000 :: int"
  obtain c where c: "claimed_at t = Some c" and held: "status t = In_progress" "assignee t \<noteq> None"
    and m: "m = 30" and secs: "secs = max 0 ((max c (updated_at t) + ?ttl - now) div 1000)"
    using assms by (auto simp: with_claim_ttl_def DEFAULT_CLAIM_TTL_MINUTES_def Let_def split: option.splits if_splits)
  let ?expiry = "max c (updated_at t) + ?ttl"
  have stale: "stale m later t \<longleftrightarrow> ?expiry \<le> sql_now later" for later
    using held by (auto simp: stale_def c opt_any_def m)
  have early: "\<not> stale m later t" if "now \<le> later" "later < now + secs * 1000" for later
  proof -
    have "secs = (?expiry - now) div 1000" using that secs by auto
    then have "secs * 1000 \<le> ?expiry - now" by (simp only: whole_seconds)
    with that sql_now_bounds(1) [of later] show ?thesis unfolding stale by linarith
  qed
  have late: "stale m later t" if "now + secs * 1000 + 2000 \<le> later" for later
  proof -
    have "?expiry - now < secs * 1000 + 1000" unfolding secs by (rule whole_seconds)
    with that sql_now_bounds(2) [of later] show ?thesis unfolding stale by linarith
  qed
  from early late show ?thesis using secs m by auto
qed

theorem reported_ttl_agrees_with_the_sweep_witness:
  "v_claim (with_claim_ttl 70000 (claim_row 10000 ''a'' None (new_row 1500 1 sample_create))) = Some (30, 1740) \<and>
   \<not> stale 30 1809999 (claim_row 10000 ''a'' None (new_row 1500 1 sample_create))"
proof -
  let ?t = "claim_row 10000 ''a'' None (new_row 1500 1 sample_create)"
  have v: "v_claim (with_claim_ttl 70000 ?t) = Some (30, 1740)" by code_simp
  have "70000 \<le> (1809999 :: int) \<and> (1809999 :: int) < 70000 + 1740 * 1000" by simp
  with reported_ttl_agrees_with_the_sweep [OF v] v show ?thesis by blast
qed

end
