(* ===== verification/Workflow_Engine.thy ===== *)
theory Workflow_Engine
  imports Task_Service_Facts
begin

text \<open>
  The workflow engine of \<open>src/services/workflow-engine.ts\<close>: a task that becomes done completes
  its parent once all its siblings are done, and opens the tasks it blocked once all their
  blockers are done, up to five completions deep.  Events are delivered synchronously: an
  update made by the engine re-enters it before the event is buffered for the others.
  The update is a parameter, so that what holds when it fails can be stated;
  \<open>workflow_update\<close> is the service's.
\<close>

section \<open>Steps of the engine\<close>

type_synonym updater = "id \<Rightarrow> status \<Rightarrow> task call"

text \<open>The database with \<open>cascadeError\<close>, whether a nested step has failed.\<close>

type_synonym engine_state = "db \<times> bool"
type_synonym handler = "task \<Rightarrow> engine_state \<Rightarrow> engine_state \<times> event list"
type_synonym 'a engine = "engine_state \<Rightarrow> (service_error + 'a) \<times> engine_state \<times> event list"

definition skip_step :: "unit engine" where
  "skip_step s = (Inr (), s, [])"

definition engine_bind :: "'a engine \<Rightarrow> ('a \<Rightarrow> 'b engine) \<Rightarrow> 'b engine" where
  "engine_bind m f s =
     (case m s of
        (Inl e, s', evs) \<Rightarrow> (Inl e, s', evs)
      | (Inr x, s', evs) \<Rightarrow> (case f x s' of (r, s'', evs') \<Rightarrow> (r, s'', evs @ evs')))"

definition with_db :: "(db \<Rightarrow> 'a engine) \<Rightarrow> 'a engine" where
  "with_db f s = f (fst s) s"

text \<open>
  \<open>emit\<close> inside the transaction: the engine's handler runs at once, then the event joins the
  buffer of the other subscribers.
\<close>

fun deliver :: "handler \<Rightarrow> event list \<Rightarrow> engine_state \<Rightarrow> engine_state \<times> event list" where
  "deliver h [] s = (s, [])"
| "deliver h (e # es) s =
     (case (case e of Status_changed t _ _ _ \<Rightarrow> h t s | _ \<Rightarrow> (s, [])) of
        (s1, nested) \<Rightarrow> (case deliver h es s1 of (s2, rest) \<Rightarrow> (s2, nested @ e # rest)))"

definition engine_update :: "updater \<Rightarrow> handler \<Rightarrow> id \<Rightarrow> status \<Rightarrow> task engine" where
  "engine_update upd h i st s =
     (case upd i st (fst s) of
        (r, db', evs) \<Rightarrow> (case deliver h evs (db', snd s) of (s', evs') \<Rightarrow> (r, s', evs')))"

section \<open>The two automations\<close>

definition parent_auto_complete :: "updater \<Rightarrow> handler \<Rightarrow> task \<Rightarrow> unit engine" where
  "parent_auto_complete upd h t =
     (case or_null_id (parent_task_id t) of
        None \<Rightarrow> skip_step
      | Some p \<Rightarrow> with_db (\<lambda>db.
          if \<not> list_all (\<lambda>s. status s = Done) (find_children p None None db) then skip_step
          else case find_by_id db p of
            None \<Rightarrow> skip_step
          | Some parent \<Rightarrow>
              if status parent = Done then skip_step
              else if status parent = Open then
                (if In_progress \<notin> set (valid_status_transitions Open) then skip_step
                 else engine_bind (engine_update upd h p In_progress) (\<lambda>_.
                   if Done \<notin> set (valid_status_transitions In_progress) then skip_step
                   else engine_bind (engine_update upd h p Done) (\<lambda>_. skip_step)))
              else if status parent \<noteq> In_progress then skip_step
              else if Done \<notin> set (valid_status_transitions In_progress) then skip_step
              else engine_bind (engine_update upd h p Done) (\<lambda>_. skip_step)))"

definition blockers_done :: "db \<Rightarrow> id \<Rightarrow> bool" where
  "blockers_done db i \<longleftrightarrow>
     list_all (\<lambda>d. opt_any (find_by_id db (dep_task d)) (\<lambda>b. status b = Done)) (dep_find_blocking i db)"

definition unblock_one :: "updater \<Rightarrow> handler \<Rightarrow> dep \<Rightarrow> unit engine" where
  "unblock_one upd h d = with_db (\<lambda>db.
     case find_by_id db (dep_blocks d) of
       None \<Rightarrow> skip_step
     | Some b \<Rightarrow>
         if status b \<noteq> Blocked then skip_step
         else if \<not> blockers_done db (dep_blocks d) then skip_step
         else engine_bind (engine_update upd h (dep_blocks d) Open) (\<lambda>_. skip_step))"

fun unblock_each :: "updater \<Rightarrow> handler \<Rightarrow> dep list \<Rightarrow> unit engine" where
  "unblock_each upd h [] = skip_step"
| "unblock_each upd h (d # ds) = engine_bind (unblock_one upd h d) (\<lambda>_. unblock_each upd h ds)"

definition auto_unblock :: "updater \<Rightarrow> handler \<Rightarrow> task \<Rightarrow> unit engine" where
  "auto_unblock upd h t = with_db (\<lambda>db. unblock_each upd h (dep_find_by_task (task_id t) db))"

section \<open>The cascade\<close>

definition MAX_CASCADE_DEPTH :: nat where "MAX_CASCADE_DEPTH = 5"

text \<open>\<open>levels\<close> is what the depth counter leaves: \<open>MAX_CASCADE_DEPTH - cascadeDepth\<close>.\<close>

fun process_cascade :: "updater \<Rightarrow> nat \<Rightarrow> handler" where
  "process_cascade upd 0 t s = (s, [])"
| "process_cascade upd (Suc levels) t s =
     (if status t \<noteq> Done \<or> snd s then (s, [])
      else case engine_bind (parent_auto_complete upd (process_cascade upd levels) t)
             (\<lambda>_. auto_unblock upd (process_cascade upd levels) t) s of
        (Inl _, s', evs) \<Rightarrow> ((fst s', True), evs)
      | (Inr _, s', evs) \<Rightarrow> (s', evs))"

text \<open>The entry point: one transaction and one event buffer around the whole cascade.\<close>

definition handle_status_changed :: "updater \<Rightarrow> task \<Rightarrow> db \<Rightarrow> db \<times> event list" where
  "handle_status_changed upd t db =
     (case process_cascade upd MAX_CASCADE_DEPTH t (db, False) of
        ((db', failed), evs) \<Rightarrow> if failed then (db, []) else (db', evs))"

definition workflow_update :: "env \<Rightarrow> stamp \<Rightarrow> updater" where
  "workflow_update e now i st = update_task e now i (empty_update\<lparr>u_status := Some st\<rparr>) From_workflow None"

text \<open>An update by a user with the engine subscribed: what it returns, leaves and lets others see.\<close>

definition update_with_workflow ::
    "env \<Rightarrow> stamp \<Rightarrow> id \<Rightarrow> update_dto \<Rightarrow> ident option \<Rightarrow> db \<Rightarrow> (service_error + task) \<times> db \<times> event list" where
  "update_with_workflow e now i u caller db =
     (case update_task e now i u From_user caller db of
        (r, db1, evs) \<Rightarrow>
          (case deliver (\<lambda>t (d, f). case handle_status_changed (workflow_update e now) t d of (d', nested) \<Rightarrow> ((d', f), nested))
             evs (db1, False) of
             ((db2, _), all_evs) \<Rightarrow> (r, db2, all_evs)))"

end
