(* ===== verification/Workflow_Laws.thy ===== *)
theory Workflow_Laws
  imports Workflow_Engine
begin

text \<open>
  What a cascade of the workflow engine does: it never fails on the service's own updates,
  moves statuses forward only, completes parents and opens blocked tasks only when their
  conditions hold, and does so for every parent and dependent of the task that was done.
\<close>

section \<open>The updates the engine makes\<close>

definition status_patch :: "status \<Rightarrow> update_dto" where
  "status_patch st = empty_update\<lparr>u_status := Some st\<rparr>"

definition status_row :: "stamp \<Rightarrow> status \<Rightarrow> task \<Rightarrow> task" where
  "status_row now st r =
     r\<lparr>status := st, completed_at := completed_after now (Some st) r, updated_at := sql_now now,
       evidence := (if st \<noteq> status r \<and> st \<in> {Done, Closed} \<and> evidence r = None then Some not_verified else evidence r)\<rparr>"

lemma status_patch_update:
  "update_row now (repo_patch (status_patch st) r) r = status_row now st r"
  by (cases r)
    (simp add: update_row_def repo_patch_def status_patch_def status_row_def empty_update_def next_status_def
      update_wsjf_def or_else_def Let_def)

lemma status_row_fields [simp]:
  "status (status_row now st r) = st" "task_id (status_row now st r) = task_id r"
  "parent_task_id (status_row now st r) = parent_task_id r" "created_at (status_row now st r) = created_at r"
  by (simp_all add: status_row_def)

lemma modify_row_unique:
  assumes "distinct (map task_id (tasks db))" and "row db i = Some r" and "f r = g r"
  shows "modify_row i f db = modify_row i g db"
proof -
  have "t = r" if "t \<in> set (tasks db)" "task_id t = i" for t
    using that assms(1) find_task_id [OF assms(2)] by (metis distinct_map inj_onD)
  then have "map (\<lambda>t. if task_id t = i then f t else t) (tasks db) = map (\<lambda>t. if task_id t = i then g t else t) (tasks db)"
    using assms(3) by (intro map_cong) auto
  then show ?thesis by (simp add: modify_row_def)
qed

lemma workflow_update_eq:
  assumes "distinct (map task_id (tasks db))" and "row db i = Some r"
    and "st \<noteq> status r" and "st \<in> set (valid_status_transitions (status r))"
  shows "workflow_update e now i st db =
    (Inr (read_row (status_row now st r)), modify_row i (status_row now st) db,
     [Task_updated (read_row (status_row now st r)) From_workflow,
      Status_changed (read_row (status_row now st r)) From_workflow (status r) st])"
proof -
  have next_st: "next_status (status_patch st) r = Some st" using assms(3) by (simp add: next_status_def status_patch_def)
  have m: "modify_row i (update_row now (repo_patch (status_patch st) r)) db = modify_row i (status_row now st) db"
    by (rule modify_row_unique [OF assms(1,2) status_patch_update])
  have schema: "update_schema (status_patch st)"
    by (simp add: update_schema_def status_patch_def empty_update_def opt_all_def)
  have no: "u_blocked_by (status_patch st) = None" "u_wsjf (status_patch st) = Absent" "u_evidence (status_patch st) = Absent"
    "u_estimated_minutes (status_patch st) = Absent" "u_status (status_patch st) = Some st"
    "u_blocked_by (repo_patch (status_patch st) r) = None"
    "u_parent_task_id (repo_patch (status_patch st) r) = Absent" "u_tags (repo_patch (status_patch st) r) = None"
    by (simp_all add: status_patch_def empty_update_def repo_patch_def Let_def)
  have up: "repo_update now i (repo_patch (status_patch st) r) db =
      Inr (read_row (status_row now st r), modify_row i (status_row now st) db)"
    using assms(2) by (simp add: repo_update_def no status_patch_update m)
  have "workflow_update e now i st db = update_task e now i (status_patch st) From_workflow None db"
    by (simp add: workflow_update_def status_patch_def)
  then show ?thesis
    using assms(2,4) up
    by (simp add: update_task_def call_bind_def guard_call_def schema no ret_def read_db_def find_by_id_def
        evidence_gate_def transition_gate_def next_st assert_score_def minutes_conflict_def manual_errors_def
        write_with_blockers_def perform_write_def write_db_def resize_after_def minutes_changed_def emit_changes_def emit_def)
qed

section \<open>The children of a task after a change of rows\<close>

definition children_page :: "id \<Rightarrow> db \<Rightarrow> task list" where
  "children_page p db =
     page (resolve_pagination None None) (sort_key created_at (filter (\<lambda>t. parent_task_id t = Some p) (tasks db)))"

definition kids_done :: "db \<Rightarrow> id \<Rightarrow> bool" where
  "kids_done db p \<longleftrightarrow> list_all (\<lambda>s. status s = Done) (find_children p None None db)"

lemma kids_done_page: "kids_done db p \<longleftrightarrow> (\<forall>t\<in>set (children_page p db). status t = Done)"
  by (simp add: kids_done_def find_children_def children_page_def list_all_iff)

lemma set_page: "set (page q xs) \<subseteq> set xs"
  by (metis page_def set_drop_subset set_take_subset subset_trans)

lemma children_page_member: "t \<in> set (children_page p db) \<Longrightarrow> t \<in> set (tasks db) \<and> parent_task_id t = Some p"
  using set_page by (fastforce simp: children_page_def)

lemma children_page_map:
  assumes "tasks db' = map g (tasks db)"
    and "\<And>t. t \<in> set (tasks db) \<Longrightarrow> parent_task_id (g t) = parent_task_id t \<and> created_at (g t) = created_at t"
  shows "children_page p db' = map g (children_page p db)"
proof -
  have "filter (\<lambda>t. parent_task_id t = Some p) (tasks db') = map g (filter (\<lambda>t. parent_task_id t = Some p) (tasks db))"
    unfolding assms(1) filter_map by (simp add: assms(2) cong: filter_cong)
  moreover have "sort_key created_at (map g xs) = map g (sort_key created_at xs)" if "set xs \<subseteq> set (tasks db)" for xs
    unfolding sort_key_map using that assms(2) by (intro arg_cong [where f = "map g"] sort_key_cong) auto
  ultimately show ?thesis by (simp add: children_page_def page_def take_map drop_map)
qed

section \<open>Conditions under which the engine updates\<close>

definition allowed :: "db \<Rightarrow> id \<Rightarrow> status \<Rightarrow> status \<Rightarrow> bool" where
  "allowed db i old new \<longleftrightarrow>
     (old = Blocked \<and> new = Open \<and> blockers_done db i) \<or>
     (old = Open \<and> new = In_progress \<and> kids_done db i) \<or>
     (old = In_progress \<and> new = Done \<and> kids_done db i)"

lemma allowed_transition: "allowed db i old new \<Longrightarrow> new \<noteq> old \<and> new \<in> set (valid_status_transitions old)"
  by (auto simp: allowed_def)

lemma db_wf_ids: "db_wf db \<Longrightarrow> distinct (map task_id (tasks db))"
  by (simp add: db_wf_def)

lemma tasks_status_modify: "tasks (modify_row i (status_row now st) db) =
    map (\<lambda>t. if task_id t = i then status_row now st t else t) (tasks db)"
  by (simp add: modify_row_def)

lemma row_status_modify:
  "row (modify_row i (status_row now st) db) j =
     (if j = i then map_option (status_row now st) (row db j) else row db j)"
  by (simp add: rows.lookup_modify)

lemma children_page_modify:
  "children_page p (modify_row i (status_row now st) db) =
     map (\<lambda>t. if task_id t = i then status_row now st t else t) (children_page p db)"
  by (rule children_page_map [OF tasks_status_modify]) simp

lemma only_child_row:
  "db_wf db \<Longrightarrow> row db i = Some r \<Longrightarrow> t \<in> set (children_page p db) \<Longrightarrow> task_id t = i \<Longrightarrow> t = r"
  using children_page_member db_wf_ids find_task_id same_id_same_row by metis

lemma kids_done_parent:
  assumes "db_wf db" and "row db p = Some r" and "status r \<noteq> Done" and "kids_done db p"
  shows "kids_done (modify_row p (status_row now st) db) p"
proof -
  have "task_id t \<noteq> p" if "t \<in> set (children_page p db)" for t
    using that only_child_row [OF assms(1,2) that] assms(3,4) by (auto simp: kids_done_page)
  with assms(4) show ?thesis by (auto simp: kids_done_page children_page_modify)
qed

lemma status_modify_wf:
  assumes "db_wf db" and "row db i = Some r" and "st \<noteq> status r"
  shows "db_wf (modify_row i (status_row now st) db)"
proof -
  let ?u = "repo_patch (status_patch st) r"
  have "repo_update now i ?u db = Inr (read_row (status_row now st r), modify_row i (update_row now ?u) db)"
    using assms(2) by (simp add: repo_update_def status_patch_update)
      (simp add: repo_patch_def status_patch_def empty_update_def Let_def)
  then have "db_wf (modify_row i (update_row now ?u) db)" using repo_update_wf [OF assms(1)] by blast
  moreover have "modify_row i (update_row now ?u) db = modify_row i (status_row now st) db"
    by (rule modify_row_unique [OF db_wf_ids [OF assms(1)] assms(2) status_patch_update])
  ultimately show ?thesis by simp
qed

section \<open>Relations that a cascade keeps\<close>

text \<open>
  A reflexive and transitive relation between databases that every permitted status update
  keeps is kept by a whole cascade; and no step of it fails.
\<close>

locale cascade_relation =
  fixes now :: stamp and Q :: "db \<Rightarrow> db \<Rightarrow> bool"
  assumes Q_refl: "Q db db"
    and Q_trans: "Q a b \<Longrightarrow> Q b c \<Longrightarrow> Q a c"
    and Q_step: "db_wf db \<Longrightarrow> row db i = Some r \<Longrightarrow> allowed db i (status r) st \<Longrightarrow>
      Q db (modify_row i (status_row now st) db)"
begin

definition keeps :: "db \<Rightarrow> 'a engine \<Rightarrow> bool" where
  "keeps db m \<longleftrightarrow> (\<exists>x db' evs. m (db, False) = (Inr x, (db', False), evs) \<and> Q db db' \<and> db_wf db')"

lemma keeps_skip [simp]: "db_wf db \<Longrightarrow> keeps db skip_step"
  by (simp add: keeps_def skip_step_def Q_refl)

lemma keeps_with_db [simp]: "keeps db (with_db f) = keeps db (f db)"
  by (simp add: keeps_def with_db_def)

lemma keeps_bind:
  assumes "keeps db m" and "\<And>x db' evs. m (db, False) = (Inr x, (db', False), evs) \<Longrightarrow> db_wf db' \<Longrightarrow> keeps db' (f x)"
  shows "keeps db (engine_bind m f)"
proof -
  obtain x db1 ev1 where m: "m (db, False) = (Inr x, (db1, False), ev1)" and Q1: "Q db db1" and wf1: "db_wf db1"
    using assms(1) by (auto simp: keeps_def)
  from assms(2) [OF m wf1] obtain y db2 ev2 where "f x (db1, False) = (Inr y, (db2, False), ev2)" "Q db1 db2" "db_wf db2"
    by (auto simp: keeps_def)
  with m Q1 Q_trans show ?thesis by (auto simp: keeps_def engine_bind_def)
qed

definition handler_keeps :: "handler \<Rightarrow> bool" where
  "handler_keeps h \<longleftrightarrow> (\<forall>t db. db_wf db \<longrightarrow>
     (\<exists>db' evs. h t (db, False) = ((db', False), evs) \<and> Q db db' \<and> db_wf db') \<and>
     (status t \<noteq> Done \<longrightarrow> h t (db, False) = ((db, False), [])))"

lemma engine_update_run:
  assumes "handler_keeps h" and "db_wf db" and "row db i = Some r" and "allowed db i (status r) st"
  obtains db' evs where "engine_update (workflow_update e now) h i st (db, False) =
      (Inr (read_row (status_row now st r)), (db', False), evs)"
    and "Q (modify_row i (status_row now st) db) db'" and "db_wf db'"
    and "st \<noteq> Done \<Longrightarrow> db' = modify_row i (status_row now st) db"
    and "\<exists>nested. h (read_row (status_row now st r)) (modify_row i (status_row now st) db, False) = ((db', False), nested)"
proof -
  let ?t = "read_row (status_row now st r)" and ?db1 = "modify_row i (status_row now st) db"
  have up: "workflow_update e now i st db =
      (Inr ?t, ?db1, [Task_updated ?t From_workflow, Status_changed ?t From_workflow (status r) st])"
    using workflow_update_eq [OF db_wf_ids [OF assms(2)] assms(3)] allowed_transition [OF assms(4)] by simp
  have wf1: "db_wf ?db1" using status_modify_wf [OF assms(2,3)] allowed_transition [OF assms(4)] by simp
  obtain db' evs where h: "h ?t (?db1, False) = ((db', False), evs)" and Q1: "Q ?db1 db'" and wf': "db_wf db'"
    using assms(1) wf1 unfolding handler_keeps_def by blast
  have same: "db' = ?db1" if "st \<noteq> Done"
  proof -
    have "status ?t \<noteq> Done" using that by simp
    then have "h ?t (?db1, False) = ((?db1, False), [])" using assms(1) wf1 unfolding handler_keeps_def by blast
    with h show ?thesis by simp
  qed
  have run: "engine_update (workflow_update e now) h i st (db, False) =
      (Inr ?t, (db', False), [Task_updated ?t From_workflow] @ evs @ [Status_changed ?t From_workflow (status r) st])"
    by (simp add: engine_update_def up h)
  show thesis by (rule that [OF run Q1 wf' same]) (simp_all add: h)
qed

lemma keeps_update:
  assumes "handler_keeps h" and "db_wf db" and "row db i = Some r" and "allowed db i (status r) st"
  shows "keeps db (engine_update (workflow_update e now) h i st)"
  using engine_update_run [OF assms, of e] Q_trans Q_step [OF assms(2-4)] unfolding keeps_def by metis

lemma keeps_unblock:
  assumes "handler_keeps h" and "db_wf db"
  shows "keeps db (unblock_one (workflow_update e now) h d)"
proof (cases "row db (dep_blocks d)")
  case None
  then show ?thesis by (simp add: unblock_one_def find_by_id_def assms)
next
  case (Some r)
  then show ?thesis
    using assms by (auto simp: unblock_one_def find_by_id_def allowed_def intro!: keeps_bind keeps_update)
qed

lemma keeps_unblock_each:
  "handler_keeps h \<Longrightarrow> db_wf db \<Longrightarrow> keeps db (unblock_each (workflow_update e now) h ds)"
  by (induction ds arbitrary: db) (auto intro: keeps_bind keeps_unblock)

lemma keeps_auto_unblock:
  "handler_keeps h \<Longrightarrow> db_wf db \<Longrightarrow> keeps db (auto_unblock (workflow_update e now) h t)"
  by (simp add: auto_unblock_def keeps_unblock_each)

lemma keeps_parent:
  assumes h: "handler_keeps h" and wf: "db_wf db"
  shows "keeps db (parent_auto_complete (workflow_update e now) h t)"
proof (cases "or_null_id (parent_task_id t)")
  case None
  then show ?thesis by (simp add: parent_auto_complete_def wf)
next
  case (Some p)
  show ?thesis
  proof (cases "kids_done db p \<and> row db p \<noteq> None \<and> status (the (row db p)) \<in> {Open, In_progress}")
    case False
    have "keeps db (parent_auto_complete (workflow_update e now) h t) \<longleftrightarrow> keeps db skip_step"
      using False Some
      by (cases "row db p"; cases "status (the (row db p))")
        (auto simp: parent_auto_complete_def find_by_id_def kids_done_def [symmetric])
    then show ?thesis by (simp add: wf)
  next
    case True
    then obtain r where r: "row db p = Some r" and kids: "kids_done db p" and st: "status r \<in> {Open, In_progress}" by auto
    have last: "keeps d (engine_bind (engine_update (workflow_update e now) h p Done) (\<lambda>_. skip_step))"
      if "db_wf d" "row d p = Some r'" "status r' = In_progress" "kids_done d p" for d r'
      by (rule keeps_bind, rule keeps_update [OF h that(1,2)]) (simp_all add: allowed_def that)
    show ?thesis
    proof (cases "status r = Open")
      case True
      have first: "allowed db p (status r) In_progress" using True kids by (simp add: allowed_def)
      let ?db1 = "modify_row p (status_row now In_progress) db"
      have "keeps db (engine_bind (engine_update (workflow_update e now) h p In_progress)
          (\<lambda>_. engine_bind (engine_update (workflow_update e now) h p Done) (\<lambda>_. skip_step)))"
      proof (rule keeps_bind [OF keeps_update [OF h wf r first]])
        fix x db' evs
        assume run: "engine_update (workflow_update e now) h p In_progress (db, False) = (Inr x, (db', False), evs)"
          and wf': "db_wf db'"
        have "db' = ?db1" by (rule engine_update_run [OF h wf r first, of e]) (use run in simp)
        moreover have "kids_done ?db1 p" by (rule kids_done_parent [OF wf r _ kids]) (simp add: True)
        ultimately show "keeps db' (engine_bind (engine_update (workflow_update e now) h p Done) (\<lambda>_. skip_step))"
          using r wf' by (intro last [of _ "status_row now In_progress r"]) (simp_all add: row_status_modify)
      qed
      then show ?thesis using True kids r Some by (simp add: parent_auto_complete_def find_by_id_def kids_done_def [symmetric])
    next
      case False
      with st have "status r = In_progress" by simp
      then show ?thesis
        using last [OF wf r _ kids] kids r Some
        by (simp add: parent_auto_complete_def find_by_id_def kids_done_def [symmetric])
    qed
  qed
qed

lemma process_cascade_keeps: "handler_keeps (process_cascade (workflow_update e now) levels)"
proof (induction levels)
  case 0
  show ?case by (simp add: handler_keeps_def Q_refl)
next
  case (Suc levels)
  let ?h = "process_cascade (workflow_update e now) levels"
  have run: "keeps db (engine_bind (parent_auto_complete (workflow_update e now) ?h t)
      (\<lambda>_. auto_unblock (workflow_update e now) ?h t))" if "db_wf db" for db t
    by (rule keeps_bind [OF keeps_parent [OF Suc.IH that]]) (rule keeps_auto_unblock [OF Suc.IH])
  show ?case
    unfolding handler_keeps_def
  proof (intro allI impI conjI)
    fix t db assume wf: "db_wf db"
    from run [OF wf, of t] show "\<exists>db' evs. process_cascade (workflow_update e now) (Suc levels) t (db, False) =
        ((db', False), evs) \<and> Q db db' \<and> db_wf db'"
      by (cases "status t = Done") (auto simp: keeps_def Q_refl wf)
  qed simp
qed

lemma cascade_total:
  assumes "db_wf db"
  obtains db' evs where "handle_status_changed (workflow_update e now) t db = (db', evs)"
    and "process_cascade (workflow_update e now) MAX_CASCADE_DEPTH t (db, False) = ((db', False), evs)"
    and "Q db db'" and "db_wf db'"
proof -
  obtain db' evs where "process_cascade (workflow_update e now) MAX_CASCADE_DEPTH t (db, False) = ((db', False), evs)"
    "Q db db'" "db_wf db'"
    using process_cascade_keeps assms unfolding handler_keeps_def by blast
  then show thesis by (intro that) (simp_all add: handle_status_changed_def)
qed

end

section \<open>Statuses move forward\<close>

text \<open>The order in which the engine can move a status: blocked, open, in progress, done.\<close>

fun status_forward :: "status \<Rightarrow> status \<Rightarrow> bool" where
  "status_forward Blocked s = (s \<in> {Blocked, Open, In_progress, Done})"
| "status_forward Open s = (s \<in> {Open, In_progress, Done})"
| "status_forward In_progress s = (s \<in> {In_progress, Done})"
| "status_forward old s = (s = old)"

lemma status_forward_refl [simp]: "status_forward s s"
  by (cases s) simp_all

lemma status_forward_trans: "status_forward a b \<Longrightarrow> status_forward b c \<Longrightarrow> status_forward a c"
  by (cases a; cases b; cases c) simp_all

lemma status_forward_Done [simp]: "status_forward Done s \<longleftrightarrow> s = Done"
  by simp

lemma allowed_forward: "allowed db i old new \<Longrightarrow> status_forward old new"
  by (auto simp: allowed_def)

text \<open>A row after a cascade: only the status, its time stamps and the evidence may differ.\<close>

definition same_task :: "task \<Rightarrow> task \<Rightarrow> bool" where
  "same_task t t' \<longleftrightarrow> t' = t\<lparr>status := status t', completed_at := completed_at t', updated_at := updated_at t',
     evidence := evidence t'\<rparr>"

lemma same_task_fields:
  "same_task t t' \<Longrightarrow> task_id t' = task_id t \<and> parent_task_id t' = parent_task_id t \<and> created_at t' = created_at t"
  unfolding same_task_def by (metis task.select_convs(1,7,12) task.update_convs(4,16,13,18) task.surjective)

lemma same_task_trans: "same_task a b \<Longrightarrow> same_task b c \<Longrightarrow> same_task a c"
  unfolding same_task_def by (cases a; cases b; cases c) simp

definition forward :: "db \<Rightarrow> db \<Rightarrow> bool" where
  "forward db db' \<longleftrightarrow> (\<exists>g. db' = db\<lparr>tasks := map g (tasks db)\<rparr> \<and>
     (\<forall>t\<in>set (tasks db). same_task t (g t) \<and> status_forward (status t) (status (g t))))"

lemma same_task_refl [simp]: "same_task t t"
  by (simp add: same_task_def)

lemma same_task_status_row: "same_task t (status_row now st t)"
  by (simp add: same_task_def status_row_def)

lemma forward_refl: "forward db db"
  unfolding forward_def by (rule exI [of _ id]) simp

lemma forward_trans:
  assumes "forward a b" and "forward b c"
  shows "forward a c"
proof -
  obtain g where g: "b = a\<lparr>tasks := map g (tasks a)\<rparr>"
    and gt: "\<And>t. t \<in> set (tasks a) \<Longrightarrow> same_task t (g t) \<and> status_forward (status t) (status (g t))"
    using assms(1) by (auto simp: forward_def)
  obtain h where h: "c = b\<lparr>tasks := map h (tasks b)\<rparr>"
    and ht: "\<And>t. t \<in> set (tasks b) \<Longrightarrow> same_task t (h t) \<and> status_forward (status t) (status (h t))"
    using assms(2) by (auto simp: forward_def)
  have "c = a\<lparr>tasks := map (h \<circ> g) (tasks a)\<rparr>" unfolding h g by simp
  moreover have "same_task t (h (g t)) \<and> status_forward (status t) (status (h (g t)))" if "t \<in> set (tasks a)" for t
  proof -
    have "g t \<in> set (tasks b)" using that by (simp add: g)
    then show ?thesis using gt [OF that] ht same_task_trans status_forward_trans by blast
  qed
  ultimately show ?thesis unfolding forward_def by (intro exI [of _ "h \<circ> g"]) simp
qed

lemma forward_status_modify:
  assumes "db_wf db" and "row db i = Some r" and "status_forward (status r) st"
  shows "forward db (modify_row i (status_row now st) db)"
  unfolding forward_def
proof (intro exI conjI ballI)
  let ?g = "\<lambda>t. if task_id t = i then status_row now st t else t"
  show "modify_row i (status_row now st) db = db\<lparr>tasks := map ?g (tasks db)\<rparr>" by (simp add: modify_row_def)
  fix t assume t: "t \<in> set (tasks db)"
  have "t = r" if "task_id t = i"
    using that t find_task_id [OF assms(2)] same_id_same_row [OF db_wf_ids [OF assms(1)]] by metis
  with assms(3) show "status_forward (status t) (status (?g t))" by auto
  show "same_task t (?g t)" by (simp add: same_task_status_row)
qed

lemma find_map_key: "(\<And>t. t \<in> set ts \<Longrightarrow> task_id (g t) = task_id t) \<Longrightarrow>
    find (\<lambda>t. task_id t = i) (map g ts) = map_option g (find (\<lambda>t. task_id t = i) ts)"
  by (induction ts) auto

lemma forward_row:
  assumes "forward db db'"
  shows "(row db i = None \<longleftrightarrow> row db' i = None) \<and> deps db' = deps db \<and>
    (\<forall>r. row db i = Some r \<longrightarrow> (\<exists>r'. row db' i = Some r' \<and> same_task r r' \<and> status_forward (status r) (status r')))"
proof -
  obtain g where g: "db' = db\<lparr>tasks := map g (tasks db)\<rparr>"
    and gt: "\<And>t. t \<in> set (tasks db) \<Longrightarrow> same_task t (g t) \<and> status_forward (status t) (status (g t))"
    using assms by (auto simp: forward_def)
  have "row db' i = map_option g (row db i)"
    unfolding row_def g using gt same_task_fields by (simp add: find_map_key)
  moreover have "same_task r (g r) \<and> status_forward (status r) (status (g r))" if "row db i = Some r" for r
    using gt find_task_id [OF that] by simp
  ultimately show ?thesis by (auto simp: g)
qed

lemma forward_kids_done:
  assumes "forward db db'" and "kids_done db p"
  shows "kids_done db' p"
proof -
  obtain g where db': "db' = db\<lparr>tasks := map g (tasks db)\<rparr>"
    and gt: "\<And>t. t \<in> set (tasks db) \<Longrightarrow> same_task t (g t) \<and> status_forward (status t) (status (g t))"
    using assms(1) by (auto simp: forward_def)
  then have g: "tasks db' = map g (tasks db)" by simp
  have "children_page p db' = map g (children_page p db)"
    by (rule children_page_map [OF g]) (use gt same_task_fields in blast)
  moreover have "status (g t) = Done" if "t \<in> set (children_page p db)" for t
  proof -
    have "status t = Done" using that assms(2) by (simp add: kids_done_page)
    then show ?thesis using gt children_page_member [OF that] by fastforce
  qed
  ultimately show ?thesis by (simp add: kids_done_page)
qed

lemma blockers_done_iff:
  "blockers_done db i \<longleftrightarrow> (\<forall>b. (b, i) \<in> set (edges db) \<longrightarrow> (\<exists>r. row db b = Some r \<and> status r = Done))"
proof -
  have "blockers_done db i \<longleftrightarrow>
      (\<forall>d\<in>set (deps db). dep_blocks d = i \<longrightarrow> (\<exists>r. row db (dep_task d) = Some r \<and> status r = Done))"
    by (auto simp: blockers_done_def dep_find_blocking_def list_all_iff opt_any_def find_by_id_def split: option.splits)
  then show ?thesis by (auto simp: edges_def)
qed

lemma forward_edges: "forward db db' \<Longrightarrow> edges db' = edges db"
  using forward_row [of db db'] by (simp add: edges_def)

lemma forward_blockers_done: "forward db db' \<Longrightarrow> blockers_done db i \<Longrightarrow> blockers_done db' i"
  unfolding blockers_done_iff using forward_row [of db db'] forward_edges [of db db'] by fastforce

section \<open>Every move is justified\<close>

definition justified :: "db \<Rightarrow> db \<Rightarrow> bool" where
  "justified db db' \<longleftrightarrow> (db_wf db \<longrightarrow> db_wf db' \<and> forward db db' \<and>
     (\<forall>i r r'. row db i = Some r \<and> row db' i = Some r' \<longrightarrow>
        (status r = Blocked \<and> status r' \<noteq> Blocked \<longrightarrow> blockers_done db' i) \<and>
        (status r \<noteq> Done \<and> status r' = Done \<longrightarrow> kids_done db' i)))"

lemma justified_trans:
  assumes "justified a b" and "justified b c"
  shows "justified a c"
  unfolding justified_def
proof (intro impI conjI allI)
  assume wf: "db_wf a"
  then have ab: "db_wf b" "forward a b" using assms(1) by (simp_all add: justified_def)
  then have bc: "db_wf c" "forward b c" using assms(2) by (simp_all add: justified_def)
  show "db_wf c" by (fact bc)
  show "forward a c" by (rule forward_trans [OF ab(2) bc(2)])
  fix i r r''
  assume rows: "row a i = Some r \<and> row c i = Some r''"
  then obtain r' where r': "row b i = Some r'" using forward_row [OF ab(2), of i] by auto
  show "blockers_done c i" if "status r = Blocked \<and> status r'' \<noteq> Blocked"
  proof (cases "status r' = Blocked")
    case True
    then show ?thesis using assms(2) ab(1) r' rows that unfolding justified_def by blast
  next
    case False
    then have "blockers_done b i" using assms(1) wf r' rows that unfolding justified_def by blast
    then show ?thesis by (rule forward_blockers_done [OF bc(2)])
  qed
  show "kids_done c i" if "status r \<noteq> Done \<and> status r'' = Done"
  proof (cases "status r' = Done")
    case False
    then show ?thesis using assms(2) ab(1) r' rows that unfolding justified_def by blast
  next
    case True
    then have "kids_done b i" using assms(1) wf r' rows that unfolding justified_def by blast
    then show ?thesis by (rule forward_kids_done [OF bc(2)])
  qed
qed

interpretation cascade: cascade_relation now justified for now
proof
  show "justified db db" for db by (auto simp: justified_def forward_refl)
  show "justified a c" if "justified a b" "justified b c" for a b c using that by (rule justified_trans)
  fix db i r st
  assume wf: "db_wf db" and r: "row db i = Some r" and ok: "allowed db i (status r) st"
  let ?db' = "modify_row i (status_row now st) db"
  have fwd: "forward db ?db'" by (rule forward_status_modify [OF wf r allowed_forward [OF ok]])
  have "db_wf ?db'" using status_modify_wf [OF wf r] allowed_transition [OF ok] by simp
  moreover have "blockers_done ?db' i" if "status r = Blocked"
    using forward_blockers_done [OF fwd] ok that by (auto simp: allowed_def)
  moreover have "kids_done ?db' i" if "status r \<noteq> Done" "st = Done"
    using forward_kids_done [OF fwd] ok that by (auto simp: allowed_def)
  ultimately show "justified db ?db'"
    unfolding justified_def using fwd r by (auto simp: row_status_modify)
qed

text \<open>
  C15.  A cascade never fails and never does more than it should: run on a consistent
  database, it leaves one in which only statuses have moved, and only forward; every
  task it freed from its blocked state has all its blockers done, and every task it
  completed has the first page of its children done.
\<close>

theorem cascade_is_justified:
  assumes "db_wf db"
  shows "\<exists>db' evs. handle_status_changed (workflow_update e now) t db = (db', evs) \<and>
    snd (fst (process_cascade (workflow_update e now) MAX_CASCADE_DEPTH t (db, False))) = False \<and>
    db_wf db' \<and> forward db db' \<and>
    (\<forall>i r r'. row db i = Some r \<and> row db' i = Some r' \<longrightarrow>
        (status r = Blocked \<and> status r' \<noteq> Blocked \<longrightarrow> blockers_done db' i) \<and>
        (status r \<noteq> Done \<and> status r' = Done \<longrightarrow> kids_done db' i))"
proof -
  obtain db' evs where "handle_status_changed (workflow_update e now) t db = (db', evs)"
    "process_cascade (workflow_update e now) MAX_CASCADE_DEPTH t (db, False) = ((db', False), evs)"
    "justified db db'"
    by (rule cascade.cascade_total [OF assms, of e now t])
  with assms show ?thesis by (auto simp: justified_def)
qed

section \<open>Nothing is left undone\<close>

definition done_in :: "db \<Rightarrow> id \<Rightarrow> bool" where
  "done_in db i \<longleftrightarrow> (\<exists>r. row db i = Some r \<and> status r = Done)"

definition ready_but_blocked :: "db \<Rightarrow> id \<Rightarrow> bool" where
  "ready_but_blocked db i \<longleftrightarrow> (\<exists>r. row db i = Some r \<and> status r = Blocked \<and> blockers_done db i)"

text \<open>A change that moves forward without completing anything.\<close>

definition opens :: "db \<Rightarrow> db \<Rightarrow> bool" where
  "opens db db' \<longleftrightarrow> forward db db' \<and> (\<forall>i. done_in db' i \<longrightarrow> done_in db i)"

lemma opens_trans: "opens a b \<Longrightarrow> opens b c \<Longrightarrow> opens a c"
  unfolding opens_def using forward_trans by blast

lemma blockers_done_in: "blockers_done db i \<longleftrightarrow> (\<forall>b. (b, i) \<in> set (edges db) \<longrightarrow> done_in db b)"
  by (simp add: blockers_done_iff done_in_def)

lemma status_forward_Blocked: "status_forward s Blocked \<Longrightarrow> s = Blocked"
  by (cases s) simp_all

lemma opens_ready: "opens a b \<Longrightarrow> ready_but_blocked b i \<Longrightarrow> ready_but_blocked a i"
proof -
  assume op: "opens a b" and "ready_but_blocked b i"
  then obtain r' where r': "row b i = Some r'" "status r' = Blocked" and bd: "blockers_done b i"
    by (auto simp: ready_but_blocked_def)
  have fwd: "forward a b" using op by (simp add: opens_def)
  then obtain r where "row a i = Some r" "status_forward (status r) (status r')"
    using forward_row [OF fwd, of i] r' by (cases "row a i") auto
  moreover have "blockers_done a i"
    using bd op forward_edges [OF fwd] by (simp add: blockers_done_in opens_def)
  ultimately show ?thesis using r' status_forward_Blocked by (auto simp: ready_but_blocked_def)
qed

lemma unblock_one_post:
  assumes h: "cascade.handler_keeps h" and wf: "db_wf db"
  shows "\<exists>db' evs. unblock_one (workflow_update e now) h d (db, False) = (Inr (), (db', False), evs) \<and>
    db_wf db' \<and> opens db db' \<and> \<not> ready_but_blocked db' (dep_blocks d)"
proof (cases "ready_but_blocked db (dep_blocks d)")
  case False
  then have "unblock_one (workflow_update e now) h d (db, False) = skip_step (db, False)"
    by (auto simp: unblock_one_def with_db_def find_by_id_def ready_but_blocked_def split: option.split)
  with False wf show ?thesis by (simp add: skip_step_def opens_def forward_refl)
next
  case True
  let ?i = "dep_blocks d"
  obtain r where r: "row db ?i = Some r" "status r = Blocked" and bd: "blockers_done db ?i"
    using True by (auto simp: ready_but_blocked_def)
  let ?db' = "modify_row ?i (status_row now Open) db"
  have ok: "allowed db ?i (status r) Open" using r bd by (simp add: allowed_def)
  obtain db' evs where run: "engine_update (workflow_update e now) h ?i Open (db, False) =
      (Inr (read_row (status_row now Open r)), (db', False), evs)" and wf': "db_wf db'" and db': "db' = ?db'"
    by (rule cascade.engine_update_run [where now = now and e = e, OF h wf r(1) ok]) simp
  have "unblock_one (workflow_update e now) h d (db, False) = (Inr (), (?db', False), evs)"
    using run db' r bd by (simp add: unblock_one_def with_db_def find_by_id_def engine_bind_def skip_step_def)
  moreover have "forward db ?db'" by (rule forward_status_modify [OF wf r(1)]) (simp add: r)
  moreover have "done_in db j" if "done_in ?db' j" for j
    using that r by (auto simp: done_in_def row_status_modify split: if_splits)
  moreover have "\<not> ready_but_blocked ?db' ?i" using r by (simp add: ready_but_blocked_def row_status_modify)
  ultimately show ?thesis using wf' db' by (auto simp: opens_def)
qed

lemma unblock_each_post:
  assumes h: "cascade.handler_keeps h" and "db_wf db"
  shows "\<exists>db' evs. unblock_each (workflow_update e now) h ds (db, False) = (Inr (), (db', False), evs) \<and>
    db_wf db' \<and> opens db db' \<and> (\<forall>d\<in>set ds. \<not> ready_but_blocked db' (dep_blocks d))"
  using assms(2)
proof (induction ds arbitrary: db)
  case Nil
  then show ?case by (simp add: skip_step_def opens_def forward_refl)
next
  case (Cons d ds)
  from unblock_one_post [OF h Cons.prems, where d = d] obtain db1 ev1 where
    one: "unblock_one (workflow_update e now) h d (db, False) = (Inr (), (db1, False), ev1)"
    and wf1: "db_wf db1" and op1: "opens db db1" and d: "\<not> ready_but_blocked db1 (dep_blocks d)" by blast
  from Cons.IH [OF wf1] obtain db2 ev2 where
    rest: "unblock_each (workflow_update e now) h ds (db1, False) = (Inr (), (db2, False), ev2)"
    and wf2: "db_wf db2" and op2: "opens db1 db2" and ds: "\<forall>x\<in>set ds. \<not> ready_but_blocked db2 (dep_blocks x)" by blast
  have "\<not> ready_but_blocked db2 (dep_blocks d)" using opens_ready [OF op2] d by blast
  moreover have "opens db db2" by (rule opens_trans [OF op1 op2])
  ultimately show ?case using one rest wf2 ds by (simp add: engine_bind_def)
qed

lemma complete_post:
  assumes h: "cascade.handler_keeps h" and wf: "db_wf db" and r: "row db p = Some r"
    and st: "status r = In_progress" and kids: "kids_done db p"
  shows "\<exists>db' evs. engine_bind (engine_update (workflow_update e now) h p Done) (\<lambda>_. skip_step) (db, False) =
      (Inr (), (db', False), evs) \<and> db_wf db' \<and> forward db db' \<and> done_in db' p \<and>
      (\<exists>nested. h (read_row (status_row now Done r)) (modify_row p (status_row now Done) db, False) = ((db', False), nested))"
proof -
  let ?db1 = "modify_row p (status_row now Done) db"
  have ok: "allowed db p (status r) Done" using st kids by (simp add: allowed_def)
  have wf1: "db_wf ?db1" using status_modify_wf [OF wf r] st by simp
  obtain db' evs where run: "engine_update (workflow_update e now) h p Done (db, False) =
      (Inr (read_row (status_row now Done r)), (db', False), evs)"
    and Q: "justified ?db1 db'" and wf': "db_wf db'"
    and nested: "\<exists>nested. h (read_row (status_row now Done r)) (?db1, False) = ((db', False), nested)"
    by (rule cascade.engine_update_run [where now = now and e = e, OF h wf r ok])
  have fwd: "forward ?db1 db'" using Q wf1 by (simp add: justified_def)
  have "row ?db1 p = Some (status_row now Done r)" by (simp add: row_status_modify r)
  then have "done_in db' p" using forward_row [OF fwd, of p] by (auto simp: done_in_def)
  moreover have "forward db db'"
    using forward_trans [OF forward_status_modify [OF wf r] fwd] st by simp
  ultimately show ?thesis using run wf' nested by (simp add: engine_bind_def skip_step_def)
qed

lemma forward_done_in: "forward a b \<Longrightarrow> done_in a i \<Longrightarrow> done_in b i"
  using forward_row [of a b i] by (fastforce simp: done_in_def)

text \<open>A parent the engine may complete: held or open, with the first page of its children done.\<close>

definition completable :: "db \<Rightarrow> id \<Rightarrow> bool" where
  "completable db p \<longleftrightarrow> p \<noteq> 0 \<and> kids_done db p \<and> (\<exists>r. row db p = Some r \<and> status r \<in> {Open, In_progress})"

lemma parent_completes:
  assumes h: "cascade.handler_keeps h" and wf: "db_wf db" and p: "parent_task_id t = Some p" "completable db p"
  shows "\<exists>db' evs. parent_auto_complete (workflow_update e now) h t (db, False) = (Inr (), (db', False), evs) \<and>
    done_in db' p \<and>
    (\<exists>db1 r1 nested. h (read_row r1) (db1, False) = ((db', False), nested) \<and> forward db db1 \<and> db_wf db1 \<and>
       row db1 = (row db)(p \<mapsto> r1) \<and> status r1 = Done \<and> map_option parent_task_id (row db p) = Some (parent_task_id r1))"
    (is "\<exists>db' evs. ?run db' evs \<and> _ \<and> ?nested db'")
proof -
  let ?finish = "engine_bind (engine_update (workflow_update e now) h p Done) (\<lambda>_. skip_step)"
  obtain r where r: "row db p = Some r" and st: "status r \<in> {Open, In_progress}" and kids: "kids_done db p" and "p \<noteq> 0"
    using p(2) by (auto simp: completable_def)
  then have par: "or_null_id (parent_task_id t) = Some p" using p(1) by (simp add: or_null_id_def)
  have nested_ok: "\<exists>db1 r1 nested. h (read_row r1) (db1, False) = ((db', False), nested) \<and> forward db db1 \<and> db_wf db1 \<and>
       row db1 = (row db)(p \<mapsto> r1) \<and> status r1 = Done \<and> map_option parent_task_id (row db p) = Some (parent_task_id r1)"
    if "db_wf d" and "row d p = Some q" and "status q = In_progress" and "row db p = Some r'"
      and "h (read_row (status_row now Done q)) (modify_row p (status_row now Done) d, False) = ((db', False), nested)"
      and "forward db d" and "\<And>j. j \<noteq> p \<Longrightarrow> row d j = row db j" and "parent_task_id q = parent_task_id r'"
    for d q r' db' nested
  proof (intro exI conjI)
    show "h (read_row (status_row now Done q)) (modify_row p (status_row now Done) d, False) = ((db', False), nested)"
      by (fact that)
    show "forward db (modify_row p (status_row now Done) d)"
      by (rule forward_trans [OF that(6) forward_status_modify [OF that(1,2)]]) (simp add: that(3))
    show "db_wf (modify_row p (status_row now Done) d)" by (rule status_modify_wf [OF that(1,2)]) (simp add: that(3))
    show "row (modify_row p (status_row now Done) d) = (row db)(p \<mapsto> status_row now Done q)"
      using that by (auto simp: row_status_modify)
  qed (simp_all add: that)
  show ?thesis
  proof (cases "status r = Open")
    case False
    then have ip: "status r = In_progress" using st by simp
    then have "parent_auto_complete (workflow_update e now) h t (db, False) = ?finish (db, False)"
      using par kids r by (simp add: parent_auto_complete_def with_db_def find_by_id_def kids_done_def)
    moreover obtain db' evs nested where fin: "?finish (db, False) = (Inr (), (db', False), evs)" and "done_in db' p"
      and hn: "h (read_row (status_row now Done r)) (modify_row p (status_row now Done) db, False) = ((db', False), nested)"
      using complete_post [where e = e and now = now, OF h wf r ip kids] by auto
    moreover have "?nested db'" by (rule nested_ok [OF wf r _ r hn forward_refl]) (simp_all add: ip)
    ultimately show ?thesis by auto
  next
    case True
    let ?db1 = "modify_row p (status_row now In_progress) db"
    have ok: "allowed db p (status r) In_progress" using True kids by (simp add: allowed_def)
    obtain d1 ev1 where run1: "engine_update (workflow_update e now) h p In_progress (db, False) =
        (Inr (read_row (status_row now In_progress r)), (d1, False), ev1)" and wf1: "db_wf d1" and d1: "d1 = ?db1"
      by (rule cascade.engine_update_run [where now = now and e = e, OF h wf r ok]) simp
    have r1: "row d1 p = Some (status_row now In_progress r)" by (simp add: d1 row_status_modify r)
    have kids1: "kids_done d1 p" unfolding d1 by (rule kids_done_parent [OF wf r _ kids]) (simp add: True)
    obtain d2 ev2 nested where run2: "?finish (d1, False) = (Inr (), (d2, False), ev2)" and "done_in d2 p"
      and hn: "h (read_row (status_row now Done (status_row now In_progress r)))
        (modify_row p (status_row now Done) d1, False) = ((d2, False), nested)"
      using complete_post [where e = e and now = now, OF h wf1 r1 _ kids1] by auto
    moreover have "forward db d1" unfolding d1 by (rule forward_status_modify [OF wf r]) (simp add: True)
    then have "?nested d2"
      by (intro nested_ok [OF wf1 r1 _ r hn]) (simp_all add: d1 row_status_modify fun_eq_iff)
    moreover have "parent_auto_complete (workflow_update e now) h t (db, False) =
        engine_bind (engine_update (workflow_update e now) h p In_progress) (\<lambda>_. ?finish) (db, False)"
      using par kids r True by (simp add: parent_auto_complete_def with_db_def find_by_id_def kids_done_def)
    ultimately show ?thesis using run1 by (auto simp: engine_bind_def)
  qed
qed

lemma cascade_level_post:
  assumes wf: "db_wf db" and st: "status t = Done"
  shows "\<exists>db1 db' evs. process_cascade (workflow_update e now) (Suc levels) t (db, False) = ((db', False), evs) \<and>
    db_wf db' \<and> forward db db1 \<and> forward db1 db' \<and>
    (\<forall>p. parent_task_id t = Some p \<and> completable db p \<longrightarrow> done_in db1 p) \<and>
    (\<forall>i. (task_id t, i) \<in> set (edges db) \<longrightarrow> \<not> ready_but_blocked db' i)"
proof -
  let ?h = "process_cascade (workflow_update e now) levels"
  have h: "cascade.handler_keeps ?h" by (rule cascade.process_cascade_keeps)
  obtain x db1 ev1 where run1: "parent_auto_complete (workflow_update e now) ?h t (db, False) = (Inr x, (db1, False), ev1)"
    and "justified db db1" and wf1: "db_wf db1"
    using cascade.keeps_parent [OF h wf, of e now t] by (auto simp: cascade.keeps_def)
  then have fwd1: "forward db db1" using wf by (simp add: justified_def)
  obtain db2 ev2 where run2: "unblock_each (workflow_update e now) ?h (dep_find_by_task (task_id t) db1) (db1, False) =
      (Inr (), (db2, False), ev2)" and wf2: "db_wf db2" and op: "opens db1 db2"
    and free: "\<forall>d\<in>set (dep_find_by_task (task_id t) db1). \<not> ready_but_blocked db2 (dep_blocks d)"
    using unblock_each_post [where e = e and now = now, OF h wf1] by blast
  have "process_cascade (workflow_update e now) (Suc levels) t (db, False) = ((db2, False), ev1 @ ev2)"
    using st run1 run2 by (simp add: engine_bind_def auto_unblock_def with_db_def)
  moreover have "done_in db1 p" if "parent_task_id t = Some p" "completable db p" for p
    using parent_completes [where e = e and now = now, OF h wf that] run1 by auto
  moreover have "\<not> ready_but_blocked db2 i" if "(task_id t, i) \<in> set (edges db)" for i
  proof -
    have "(task_id t, i) \<in> set (edges db1)" using that forward_edges [OF fwd1] by simp
    then obtain d where "d \<in> set (dep_find_by_task (task_id t) db1)" "dep_blocks d = i"
      by (auto simp: edges_def dep_find_by_task_def)
    with free show ?thesis by auto
  qed
  moreover have "forward db1 db2" using op by (simp add: opens_def)
  ultimately show ?thesis using wf2 fwd1 by blast
qed

lemma cascade_post:
  assumes "db_wf db" and "status t = Done" and "handle_status_changed (workflow_update e now) t db = (db', evs)"
  shows "(\<forall>p. parent_task_id t = Some p \<and> completable db p \<longrightarrow> done_in db' p) \<and>
    (\<forall>i. (task_id t, i) \<in> set (edges db) \<longrightarrow> \<not> ready_but_blocked db' i)"
proof -
  obtain db1 db2 evs2 where run: "process_cascade (workflow_update e now) (Suc 4) t (db, False) = ((db2, False), evs2)"
    and fwd: "forward db1 db2"
    and par: "\<forall>p. parent_task_id t = Some p \<and> completable db p \<longrightarrow> done_in db1 p"
    and free: "\<forall>i. (task_id t, i) \<in> set (edges db) \<longrightarrow> \<not> ready_but_blocked db2 i"
    using cascade_level_post [OF assms(1,2), of e now 4] by blast
  have "MAX_CASCADE_DEPTH = Suc 4" by (simp add: MAX_CASCADE_DEPTH_def)
  then have "db' = db2" using assms(3) run by (simp add: handle_status_changed_def del: process_cascade.simps)
  then show ?thesis using par free forward_done_in [OF fwd] by blast
qed

text \<open>
  C3.  A cascade leaves nothing undone around the task that was done: its parent, if held or
  open with the first page of its children done, is done; and no task it blocked is left
  blocked with all its blockers done.
\<close>

theorem cascade_leaves_nothing_undone:
  assumes "db_wf db" and "status t = Done" and "handle_status_changed (workflow_update e now) t db = (db', evs)"
  shows "(\<forall>p. parent_task_id t = Some p \<and> completable db p \<longrightarrow> done_in db' p) \<and>
    (\<forall>i. (task_id t, i) \<in> set (edges db) \<longrightarrow> \<not> ready_but_blocked db' i)"
  by (rule cascade_post [OF assms])

section \<open>A chain of parents\<close>

text \<open>
  \<open>waits db i par ps\<close>: the tasks \<open>ps\<close> are the parent \<open>par\<close> of task \<open>i\<close>, that parent's parent and so
  on, each of them held or open and waiting on its page only for the one before it.
\<close>

fun waits :: "db \<Rightarrow> id \<Rightarrow> id option \<Rightarrow> id list \<Rightarrow> bool" where
  "waits db i par [] = True"
| "waits db i par (p # ps) =
     (par = Some p \<and> p \<noteq> 0 \<and>
      list_all (\<lambda>k. task_id k = i \<or> status k = Done) (children_page p db) \<and>
      (case row db p of
         None \<Rightarrow> False
       | Some r \<Rightarrow> status r \<in> {Open, In_progress} \<and> waits db p (parent_task_id r) ps))"

lemma forward_waits:
  assumes "forward db db'" and "\<And>j. j \<in> set ps \<Longrightarrow> row db' j = row db j"
  shows "waits db i par ps \<Longrightarrow> waits db' i par ps"
  using assms(2)
proof (induction ps arbitrary: i par)
  case (Cons p ps)
  obtain g where db': "db' = db\<lparr>tasks := map g (tasks db)\<rparr>"
    and gt: "\<And>t. t \<in> set (tasks db) \<Longrightarrow> same_task t (g t) \<and> status_forward (status t) (status (g t))"
    using assms(1) by (auto simp: forward_def)
  have page: "children_page p db' = map g (children_page p db)"
    by (rule children_page_map) (use gt same_task_fields in \<open>auto simp: db'\<close>)
  have "task_id (g k) = i \<or> status (g k) = Done"
    if "k \<in> set (children_page p db)" "task_id k = i \<or> status k = Done" for k
    using that gt [of k] children_page_member [OF that(1)] same_task_fields [of k "g k"] by auto
  then have "list_all (\<lambda>k. task_id k = i \<or> status k = Done) (children_page p db')"
    using Cons.prems(1) by (auto simp: page list_all_iff)
  then show ?case using Cons.prems Cons.IH by (auto split: option.splits)
qed simp

lemma cascade_chain:
  assumes "db_wf db" and "status t = Done" and "done_in db (task_id t)"
    and "waits db (task_id t) (parent_task_id t) ps" and "distinct ps" and "length ps \<le> levels"
    and "process_cascade (workflow_update e now) levels t (db, False) = ((db', False), evs)"
  shows "\<forall>p\<in>set ps. done_in db' p"
  using assms
proof (induction ps arbitrary: t db db' evs levels)
  case (Cons p ps)
  obtain n where levels: "levels = Suc n" using Cons.prems(6) by (cases levels) auto
  let ?h = "process_cascade (workflow_update e now) n"
  have h: "cascade.handler_keeps ?h" by (rule cascade.process_cascade_keeps)
  obtain r where r: "row db p = Some r" and st: "status r \<in> {Open, In_progress}" and rest: "waits db p (parent_task_id r) ps"
    and par: "parent_task_id t = Some p" and p0: "p \<noteq> 0"
    and page: "\<forall>k\<in>set (children_page p db). task_id k = task_id t \<or> status k = Done"
    using Cons.prems(4) by (auto simp: list_all_iff split: option.splits)
  have "status k = Done" if "k \<in> set (children_page p db)" for k
  proof (cases "task_id k = task_id t")
    case True
    then show ?thesis
      using Cons.prems(3) only_child_row [OF Cons.prems(1) _ that] by (auto simp: done_in_def)
  qed (use page that in auto)
  then have comp: "completable db p" using p0 r st by (auto simp: completable_def kids_done_page)
  obtain d evs1 d1 r1 nested where run1: "parent_auto_complete (workflow_update e now) ?h t (db, False) = (Inr (), (d, False), evs1)"
    and pd: "done_in d p" and hn: "?h (read_row r1) (d1, False) = ((d, False), nested)"
    and fwd1: "forward db d1" and wf1: "db_wf d1" and row1: "row d1 = (row db)(p \<mapsto> r1)" and st1: "status r1 = Done"
    and par1: "parent_task_id r = parent_task_id r1"
    using parent_completes [where e = e and now = now, OF h Cons.prems(1) par comp] r by auto
  have id1: "task_id r1 = p" using find_task_id [of d1 p r1] row1 by simp
  have "\<forall>q\<in>set ps. done_in d q"
  proof (rule Cons.IH [OF wf1 _ _ _ _ _ hn])
    show "done_in d1 (task_id (read_row r1))" by (simp add: id1 done_in_def row1 st1)
    have "waits d1 p (parent_task_id r) ps" by (rule forward_waits [OF fwd1 _ rest]) (use Cons.prems(5) in \<open>auto simp: row1\<close>)
    then show "waits d1 (task_id (read_row r1)) (parent_task_id (read_row r1)) ps" by (simp add: id1 par1)
  qed (use Cons.prems(5,6) st1 levels in simp_all)
  moreover obtain dm where "forward dm db'" and "dm = d"
  proof -
    have "db_wf d" using hn h wf1 unfolding cascade.handler_keeps_def by (metis fst_conv)
    moreover have run: "process_cascade (workflow_update e now) (Suc n) t (db, False) =
        (case auto_unblock (workflow_update e now) ?h t (d, False) of
           (Inl _, s', evs) \<Rightarrow> ((fst s', True), evs1 @ evs) | (Inr _, s', evs) \<Rightarrow> (s', evs1 @ evs))"
      using Cons.prems(2) run1 by (auto simp: engine_bind_def split: sum.split prod.split)
    ultimately obtain d2 ev2 where "auto_unblock (workflow_update e now) ?h t (d, False) = (Inr (), (d2, False), ev2)"
      and "opens d d2"
      using unblock_each_post [where e = e and now = now, OF h, of d "dep_find_by_task (task_id t) d"]
      by (auto simp: auto_unblock_def with_db_def)
    with run Cons.prems(7) levels have "forward d db'" by (simp add: opens_def)
    then show thesis using that by blast
  qed
  ultimately show ?case using pd forward_done_in by auto
qed simp

text \<open>
  Completion climbs five levels: when a task is done and each of up to five ancestors
  waits only for the one below it, all of them are done after the cascade.
\<close>

theorem five_ancestors_complete:
  assumes "db_wf db" and "status t = Done" and "done_in db (task_id t)"
    and "waits db (task_id t) (parent_task_id t) ps" and "distinct ps" and "length ps \<le> 5"
  shows "\<forall>p\<in>set ps. done_in (fst (handle_status_changed (workflow_update e now) t db)) p"
proof -
  obtain db' evs where run: "process_cascade (workflow_update e now) MAX_CASCADE_DEPTH t (db, False) = ((db', False), evs)"
    and "handle_status_changed (workflow_update e now) t db = (db', evs)"
    by (rule cascade.cascade_total [OF assms(1), of e now t])
  moreover have "length ps \<le> MAX_CASCADE_DEPTH" using assms(6) by (simp add: MAX_CASCADE_DEPTH_def)
  ultimately show ?thesis using cascade_chain [OF assms(1-5) _ run] by simp
qed

section \<open>Samples\<close>

text \<open>An open parent 1 with one child 2 that is done, and a task 3 that the child blocks.\<close>

definition sample_row :: "id \<Rightarrow> status \<Rightarrow> id option \<Rightarrow> task" where
  "sample_row i st par = (new_row (1000 * i) i sample_create)\<lparr>status := st, parent_task_id := par,
     completed_at := (if st = Done then Some 0 else None)\<rparr>"

definition sample_cascade :: db where
  "sample_cascade = sample_empty\<lparr>tasks := [sample_row 1 Open None, sample_row 2 Done (Some 1), sample_row 3 Blocked None],
     next_task_id := 4, deps := [\<lparr>dep_id = 1, dep_task = 2, dep_blocks = 3, dep_created_at = 0\<rparr>], next_dep_id := 2\<rparr>"

lemma sample_cascade_wf: "db_wf sample_cascade"
  by code_simp

theorem cascade_is_justified_witness:
  "\<exists>db' evs. handle_status_changed (workflow_update sample_env 9000) (sample_row 2 Done (Some 1)) sample_cascade = (db', evs) \<and>
     db_wf db' \<and> forward sample_cascade db'"
  using cascade_is_justified [OF sample_cascade_wf, of sample_env 9000 "sample_row 2 Done (Some 1)"] by blast

theorem cascade_leaves_nothing_undone_witness:
  "done_in (fst (handle_status_changed (workflow_update sample_env 9000) (sample_row 2 Done (Some 1)) sample_cascade)) 1 \<and>
   \<not> ready_but_blocked (fst (handle_status_changed (workflow_update sample_env 9000) (sample_row 2 Done (Some 1)) sample_cascade)) 3"
proof -
  let ?t = "sample_row 2 Done (Some 1)"
  obtain db' evs where run: "handle_status_changed (workflow_update sample_env 9000) ?t sample_cascade = (db', evs)"
    by (cases "handle_status_changed (workflow_update sample_env 9000) ?t sample_cascade")
  have st: "status ?t = Done" and par: "parent_task_id ?t = Some 1" and i: "task_id ?t = 2"
    by (simp_all add: sample_row_def)
  have "(2, 3) \<in> set (edges sample_cascade)" by (simp add: edges_def sample_cascade_def)
  moreover have "list_all (\<lambda>k. status k = Done) (children_page 1 sample_cascade)"
    and "map_option status (row sample_cascade 1) = Some Open" by code_simp+
  then have "completable sample_cascade 1"
    by (auto simp: completable_def kids_done_page list_all_iff)
  ultimately show ?thesis
    using cascade_leaves_nothing_undone [OF sample_cascade_wf st run] par i run by simp
qed

theorem five_ancestors_complete_witness:
  "done_in (fst (handle_status_changed (workflow_update sample_env 9000) (sample_row 2 Done (Some 1)) sample_cascade)) 1"
proof -
  let ?t = "sample_row 2 Done (Some 1)"
  have "waits sample_cascade (task_id ?t) (parent_task_id ?t) [1]" by code_simp
  moreover have "row sample_cascade 2 = Some ?t" by (simp add: row_def sample_cascade_def) (simp add: sample_row_def)
  then have "done_in sample_cascade (task_id ?t)" by (simp add: done_in_def sample_row_def)
  ultimately show ?thesis
    using five_ancestors_complete [OF sample_cascade_wf, of ?t "[1]" sample_env 9000] by (simp add: sample_row_def)
qed

text \<open>A parent with fifty children that are done and a younger one that is still open.\<close>

definition sample_family :: db where
  "sample_family = sample_empty\<lparr>tasks := sample_row 1 Open None #
     map (\<lambda>i. sample_row (int i) (if i = 52 then Open else Done) (Some 1)) [2..<53], next_task_id := 53\<rparr>"

text \<open>
  The check on the siblings reads one page of them: a parent with more than fifty
  children is completed when the fifty oldest are done, although a younger child is still
  open.
\<close>

theorem parent_completes_with_an_open_child:
  "\<exists>db t p k r. db_wf db \<and> status t = Done \<and> parent_task_id t = Some p \<and> row db p \<noteq> None \<and> \<not> done_in db p \<and>
     row db k = Some r \<and> parent_task_id r = Some p \<and> status r = Open \<and>
     (\<forall>e now. done_in (fst (handle_status_changed (workflow_update e now) t db)) p)"
proof -
  let ?t = "sample_row 2 Done (Some 1)"
  have wf: "db_wf sample_family" by code_simp
  have st: "status ?t = Done" and par: "parent_task_id ?t = Some 1" by (simp_all add: sample_row_def)
  have "list_all (\<lambda>k. status k = Done) (children_page 1 sample_family)" by code_simp
  moreover have parent: "map_option status (row sample_family 1) = Some Open" by code_simp
  ultimately have comp: "completable sample_family 1" by (auto simp: completable_def kids_done_page list_all_iff)
  have "done_in (fst (handle_status_changed (workflow_update e now) ?t sample_family)) 1" for e now
    using cascade_post [OF wf st] par comp by (metis fst_conv surj_pair)
  moreover have "map_option (\<lambda>r. (status r, parent_task_id r)) (row sample_family 52) = Some (Open, Some 1)" by code_simp
  then obtain r where "row sample_family 52 = Some r" "parent_task_id r = Some 1" "status r = Open" by auto
  moreover have "row sample_family 1 \<noteq> None \<and> \<not> done_in sample_family 1" using parent by (auto simp: done_in_def)
  ultimately show ?thesis using wf st par by (intro exI [of _ sample_family] exI [of _ ?t] exI [of _ 1] exI) auto
qed

end
