(* ===== verification/Workflow_Rollback.thy ===== *)
theory Workflow_Rollback
  imports Workflow_Engine
begin

text \<open>
  A cascade is all or nothing for any updater, failing ones included: a step that throws sets
  the error flag, nothing clears it, and the entry point then rolls back the transaction and
  drops the buffered events.
\<close>

section \<open>Runs that agree up to failure\<close>

text \<open>A run is spoilt when it threw or left the error flag set.\<close>

definition spoilt :: "(service_error + 'a) \<times> engine_state \<times> event list \<Rightarrow> bool" where
  "spoilt x \<longleftrightarrow> isl (fst x) \<or> snd (fst (snd x))"

definition agree :: "'a engine \<Rightarrow> 'a engine \<Rightarrow> bool" where
  "agree m m' \<longleftrightarrow> (\<forall>s. m s = m' s \<or> (spoilt (m s) \<and> spoilt (m' s)))"

definition flag_sticks :: "'a engine \<Rightarrow> bool" where
  "flag_sticks m \<longleftrightarrow> (\<forall>s. snd s \<longrightarrow> spoilt (m s))"

lemma flag_sticksD: "flag_sticks m \<Longrightarrow> snd s \<Longrightarrow> spoilt (m s)"
  unfolding flag_sticks_def by blast

lemma agreeD: "agree m m' \<Longrightarrow> m s = m' s \<or> (spoilt (m s) \<and> spoilt (m' s))"
  unfolding agree_def by blast

lemma agree_refl [simp, intro]: "agree m m"
  by (simp add: agree_def)

lemma sticks_skip [simp]: "flag_sticks skip_step"
  by (simp add: flag_sticks_def spoilt_def skip_step_def)

lemma sticks_with_db: "(\<And>db. flag_sticks (f db)) \<Longrightarrow> flag_sticks (with_db f)"
  by (simp add: flag_sticks_def with_db_def)

lemma engine_bind_Inr:
  "m s = (Inr x, s', evs) \<Longrightarrow>
     engine_bind m f s = (fst (f x s'), fst (snd (f x s')), evs @ snd (snd (f x s')))"
  by (simp add: engine_bind_def case_prod_beta)

lemma spoilt_bind:
  assumes "spoilt (m s)" and "\<And>x. flag_sticks (f x)"
  shows "spoilt (engine_bind m f s)"
proof -
  obtain r s' evs where m: "m s = (r, s', evs)" by (cases "m s")
  show ?thesis
  proof (cases r)
    case (Inl e)
    then show ?thesis using m by (simp add: engine_bind_def spoilt_def)
  next
    case (Inr x)
    then have "snd s'" using assms(1) m by (simp add: spoilt_def)
    then have "spoilt (f x s')" by (rule flag_sticksD [OF assms(2)])
    then show ?thesis using engine_bind_Inr [of m s x s' evs f] m Inr by (simp add: spoilt_def)
  qed
qed

lemma sticks_bind: "flag_sticks m \<Longrightarrow> (\<And>x. flag_sticks (f x)) \<Longrightarrow> flag_sticks (engine_bind m f)"
  using spoilt_bind unfolding flag_sticks_def by blast

lemma agree_with_db: "(\<And>db. agree (f db) (f' db)) \<Longrightarrow> agree (with_db f) (with_db f')"
  by (simp add: agree_def with_db_def)

lemma agree_bind:
  assumes "agree m m'" and "\<And>x. agree (f x) (f' x)" and "\<And>x. flag_sticks (f x)" and "\<And>x. flag_sticks (f' x)"
  shows "agree (engine_bind m f) (engine_bind m' f')"
  unfolding agree_def
proof
  fix s
  consider "m s = m' s" | "spoilt (m s)" "spoilt (m' s)" using agreeD [OF assms(1)] by blast
  then show "engine_bind m f s = engine_bind m' f' s \<or>
      (spoilt (engine_bind m f s) \<and> spoilt (engine_bind m' f' s))"
  proof cases
    case 1
    obtain r s' evs where m: "m s = (r, s', evs)" by (cases "m s")
    show ?thesis
    proof (cases r)
      case (Inr x)
      have "f x s' = f' x s' \<or> (spoilt (f x s') \<and> spoilt (f' x s'))" by (rule agreeD [OF assms(2)])
      moreover have "m s = (Inr x, s', evs)" "m' s = (Inr x, s', evs)" using m Inr 1 by simp_all
      ultimately show ?thesis
        using engine_bind_Inr [of m s x s' evs f] engine_bind_Inr [of m' s x s' evs f'] by (auto simp: spoilt_def)
    next
      case (Inl a)
      then have "m s = (Inl a, s', evs)" "m' s = (Inl a, s', evs)" using 1 m by simp_all
      then show ?thesis by (simp add: engine_bind_def)
    qed
  next
    case 2
    then show ?thesis using spoilt_bind assms(3,4) by blast
  qed
qed

section \<open>Handlers\<close>

definition handlers_agree :: "handler \<Rightarrow> handler \<Rightarrow> bool" where
  "handlers_agree h h' \<longleftrightarrow> (\<forall>t s. h t s = h' t s \<or> (snd (fst (h t s)) \<and> snd (fst (h' t s))))"

definition handler_sticks :: "handler \<Rightarrow> bool" where
  "handler_sticks h \<longleftrightarrow> (\<forall>t s. snd s \<longrightarrow> snd (fst (h t s)))"

lemma handler_sticksD: "handler_sticks h \<Longrightarrow> snd s \<Longrightarrow> snd (fst (h t s))"
  unfolding handler_sticks_def by blast

lemma handlers_agreeD: "handlers_agree h h' \<Longrightarrow> h t s = h' t s \<or> (snd (fst (h t s)) \<and> snd (fst (h' t s)))"
  unfolding handlers_agree_def by blast

definition react :: "handler \<Rightarrow> event \<Rightarrow> engine_state \<Rightarrow> engine_state \<times> event list" where
  "react h e s = (case e of Status_changed t _ _ _ \<Rightarrow> h t s | _ \<Rightarrow> (s, []))"

lemma deliver_Cons:
  "deliver h (e # es) s =
     (fst (deliver h es (fst (react h e s))), snd (react h e s) @ e # snd (deliver h es (fst (react h e s))))"
  by (simp add: react_def case_prod_beta)

lemma react_sticks: "handler_sticks h \<Longrightarrow> snd s \<Longrightarrow> snd (fst (react h e s))"
  by (cases e) (simp_all add: react_def handler_sticksD)

lemma deliver_sticks: "handler_sticks h \<Longrightarrow> snd s \<Longrightarrow> snd (fst (deliver h evs s))"
  by (induction evs arbitrary: s) (simp_all add: deliver_Cons react_sticks del: deliver.simps(2))

lemma deliver_agree:
  assumes "handlers_agree h h'" and "handler_sticks h" and "handler_sticks h'"
  shows "deliver h evs s = deliver h' evs s \<or> (snd (fst (deliver h evs s)) \<and> snd (fst (deliver h' evs s)))"
proof (induction evs arbitrary: s)
  case (Cons e evs)
  have "react h e s = react h' e s \<or> (snd (fst (react h e s)) \<and> snd (fst (react h' e s)))"
    using handlers_agreeD [OF assms(1)] by (cases e) (simp_all add: react_def)
  then show ?case
  proof
    assume same: "react h e s = react h' e s"
    show ?thesis using Cons.IH [of "fst (react h' e s)"] unfolding deliver_Cons same by auto
  next
    assume "snd (fst (react h e s)) \<and> snd (fst (react h' e s))"
    then show ?thesis unfolding deliver_Cons using deliver_sticks [OF assms(2)] deliver_sticks [OF assms(3)] by simp
  qed
qed simp

text \<open>Updaters that agree when they succeed and fail on the same calls.\<close>

definition updaters_agree :: "updater \<Rightarrow> updater \<Rightarrow> bool" where
  "updaters_agree u u' \<longleftrightarrow>
     (\<forall>i st db. u i st db = u' i st db \<or> (isl (fst (u i st db)) \<and> isl (fst (u' i st db))))"

lemma sticks_update: "handler_sticks h \<Longrightarrow> flag_sticks (engine_update u h i st)"
  unfolding flag_sticks_def
proof (intro allI impI)
  fix s :: engine_state
  assume h: "handler_sticks h" and s: "snd s"
  obtain r db' evs where u: "u i st (fst s) = (r, db', evs)" by (cases "u i st (fst s)")
  have "snd (fst (deliver h evs (db', snd s)))" by (rule deliver_sticks [OF h]) (simp add: s)
  then show "spoilt (engine_update u h i st s)"
    by (cases "deliver h evs (db', snd s)") (simp add: engine_update_def spoilt_def u)
qed

lemma agree_update:
  assumes "updaters_agree u u'" and "handlers_agree h h'" and "handler_sticks h" and "handler_sticks h'"
  shows "agree (engine_update u h i st) (engine_update u' h' i st)"
  unfolding agree_def
proof
  fix s :: engine_state
  consider "u i st (fst s) = u' i st (fst s)" | "isl (fst (u i st (fst s)))" "isl (fst (u' i st (fst s)))"
    using assms(1) unfolding updaters_agree_def by blast
  then show "engine_update u h i st s = engine_update u' h' i st s \<or>
      (spoilt (engine_update u h i st s) \<and> spoilt (engine_update u' h' i st s))"
  proof cases
    case 1
    obtain r db' evs where u: "u' i st (fst s) = (r, db', evs)" by (cases "u' i st (fst s)")
    obtain d1 v1 where d1: "deliver h evs (db', snd s) = (d1, v1)" by (cases "deliver h evs (db', snd s)")
    obtain d2 v2 where d2: "deliver h' evs (db', snd s) = (d2, v2)" by (cases "deliver h' evs (db', snd s)")
    show ?thesis
      using deliver_agree [OF assms(2-4), of evs "(db', snd s)"] 1 u d1 d2
      by (auto simp: engine_update_def spoilt_def)
  next
    case 2
    then show ?thesis by (simp add: engine_update_def spoilt_def case_prod_beta)
  qed
qed


lemma sticks_parent: "handler_sticks h \<Longrightarrow> flag_sticks (parent_auto_complete u h t)"
  unfolding parent_auto_complete_def
  by (auto split: option.split intro!: sticks_with_db sticks_bind sticks_update)

lemma sticks_unblock: "handler_sticks h \<Longrightarrow> flag_sticks (unblock_each u h ds)"
  by (induction ds) (auto simp: unblock_one_def split: option.split intro!: sticks_with_db sticks_bind sticks_update)

lemma sticks_auto_unblock: "handler_sticks h \<Longrightarrow> flag_sticks (auto_unblock u h t)"
  unfolding auto_unblock_def by (intro sticks_with_db sticks_unblock)

lemma process_cascade_sticks: "handler_sticks (process_cascade u levels)"
  by (cases levels) (simp_all add: handler_sticks_def)

lemma agree_parent:
  assumes "updaters_agree u u'" and "handlers_agree h h'" and "handler_sticks h" and "handler_sticks h'"
  shows "agree (parent_auto_complete u h t) (parent_auto_complete u' h' t)"
  unfolding parent_auto_complete_def
  by (auto split: option.split intro!: agree_with_db agree_bind sticks_bind sticks_update agree_update assms
      simp del: find_by_id_None)

lemma agree_unblock:
  assumes "updaters_agree u u'" and "handlers_agree h h'" and "handler_sticks h" and "handler_sticks h'"
  shows "agree (unblock_each u h ds) (unblock_each u' h' ds)"
proof (induction ds)
  case (Cons d ds)
  have "agree (unblock_one u h d) (unblock_one u' h' d)"
    unfolding unblock_one_def
    by (auto split: option.split intro!: agree_with_db agree_bind sticks_bind sticks_update agree_update assms
      simp del: find_by_id_None)
  then show ?case by (auto intro!: agree_bind sticks_unblock assms Cons.IH)
qed simp

lemma process_cascade_agree: "updaters_agree u u' \<Longrightarrow> handlers_agree (process_cascade u levels) (process_cascade u' levels)"
proof (induction levels)
  case (Suc levels)
  let ?h = "process_cascade u levels" and ?h' = "process_cascade u' levels"
  have h: "handlers_agree ?h ?h'" by (rule Suc.IH [OF Suc.prems])
  note sticks = process_cascade_sticks [of u levels] process_cascade_sticks [of u' levels]
  have un: "agree (auto_unblock u ?h t) (auto_unblock u' ?h' t)" for t
    unfolding auto_unblock_def by (intro agree_with_db agree_unblock Suc.prems h sticks)
  have step: "agree (engine_bind (parent_auto_complete u ?h t) (\<lambda>_. auto_unblock u ?h t))
      (engine_bind (parent_auto_complete u' ?h' t) (\<lambda>_. auto_unblock u' ?h' t))" for t
    by (intro agree_bind agree_parent un sticks_auto_unblock Suc.prems h sticks)
  show ?case
    unfolding handlers_agree_def
  proof (intro allI)
    fix t s
    show "process_cascade u (Suc levels) t s = process_cascade u' (Suc levels) t s \<or>
        (snd (fst (process_cascade u (Suc levels) t s)) \<and> snd (fst (process_cascade u' (Suc levels) t s)))"
      using agreeD [OF step, of t s]
      by (auto simp: spoilt_def case_prod_beta split: sum.splits)
  qed
qed (simp add: handlers_agree_def)

text \<open>
  A cascade in which any update fails leaves no trace: two updaters that do the same
  whenever they succeed and fail on the same calls give the same tables and the same events,
  whatever they had written or announced before they failed.
\<close>

theorem failed_cascade_leaves_no_trace:
  assumes "updaters_agree u u'"
  shows "handle_status_changed u t db = handle_status_changed u' t db"
proof -
  let ?c = "process_cascade u MAX_CASCADE_DEPTH t (db, False)" and ?c' = "process_cascade u' MAX_CASCADE_DEPTH t (db, False)"
  have "?c = ?c' \<or> (snd (fst ?c) \<and> snd (fst ?c'))"
    using handlers_agreeD [OF process_cascade_agree [OF assms]] by blast
  then show ?thesis by (auto simp: handle_status_changed_def case_prod_beta)
qed

theorem failed_cascade_leaves_no_trace_witness:
  "handle_status_changed (\<lambda>i st db. (Inl (Db_failed (Row_missing i)), db\<lparr>tasks := []\<rparr>, []))
     (new_row 0 1 sample_create) sample_pair =
   handle_status_changed (\<lambda>i st db. (Inl (Db_failed (Row_missing i)), db, []))
     (new_row 0 1 sample_create) sample_pair"
  by (rule failed_cascade_leaves_no_trace) (simp add: updaters_agree_def)

end
