(* ===== verification/Event_Bus.thy ===== *)
theory Event_Bus
  imports Prelude "HOL-Library.Multiset"
begin

text \<open>
  The event bus of \<open>src/events/event-bus.ts\<close>: listeners in the order they subscribed, some of
  them bypassing the transactional buffer, and a stack of buffers for nested
  \<open>runInTransaction\<close> calls.  What listeners receive is a log.  A handler may itself emit and run
  transactions while it is called, as the workflow engine does; the calls under way are an
  agenda, the call stack of the program.
\<close>

section \<open>Listeners\<close>

record 'n listener =
  listener_id :: nat
  listens_to :: 'n
  bypass :: bool

text \<open>
  A run of the program: emissions, and \<open>runInTransaction\<close> around a body that returns or throws.
  With an emission goes what each handler that is called with it did in that call, by the id of its
  listener; a handler without an entry did nothing with the bus.
\<close>

datatype 'e bus_prog =
  Emit_op 'e "(nat \<times> 'e bus_prog list) list"
| Tx_op "'e bus_prog list" bool

type_synonym 'e reactions = "(nat \<times> 'e bus_prog list) list"

definition reaction :: "nat \<Rightarrow> 'e reactions \<Rightarrow> 'e bus_prog list" where
  "reaction i rs = (case map_of rs i of None \<Rightarrow> [] | Some ps \<Rightarrow> ps)"

record ('n, 'e) bus =
  listeners :: "'n listener list"
  next_listener :: nat
  buffer_stack :: "('e \<times> 'e reactions) list list"
  log :: "(nat \<times> 'e) list"

definition new_bus :: "('n, 'e) bus" where
  "new_bus = \<lparr>listeners = [], next_listener = 0, buffer_stack = [], log = []\<rparr>"

text \<open>Each \<open>subscribe\<close> wraps its handler anew, so every subscription is a listener of its own.\<close>

definition subscribe :: "'n \<Rightarrow> bool \<Rightarrow> ('n, 'e) bus \<Rightarrow> nat \<times> ('n, 'e) bus" where
  "subscribe name ignoreTransaction b =
     (next_listener b,
      b\<lparr>listeners := listeners b @ [\<lparr>listener_id = next_listener b, listens_to = name, bypass = ignoreTransaction\<rparr>],
        next_listener := next_listener b + 1\<rparr>)"

definition unsubscribe :: "nat \<Rightarrow> ('n, 'e) bus \<Rightarrow> ('n, 'e) bus" where
  "unsubscribe i b = b\<lparr>listeners := filter (\<lambda>l. listener_id l \<noteq> i) (listeners b)\<rparr>"

definition listener_count :: "'n list \<Rightarrow> ('n, 'e) bus \<Rightarrow> nat" where
  "listener_count names b = sum_list (map (\<lambda>n. length (filter (\<lambda>l. listens_to l = n) (listeners b))) names)"

section \<open>Emission and transactions\<close>

text \<open>
  What is still to be done: run a piece of a program, call a handler, append an event to the active
  buffer once its bypassing handlers have returned, deliver a buffered event, leave
  a transaction.
\<close>

datatype 'e bus_task =
  Run_task "'e bus_prog"
| Call_task nat 'e "'e reactions"
| Append_task 'e "'e reactions"
| Flush_task 'e "'e reactions"
| Leave_task bool

text \<open>The listeners are read once, when the dispatch of an event begins.\<close>

definition notify :: "('n listener \<Rightarrow> bool) \<Rightarrow> ('e \<Rightarrow> 'n) \<Rightarrow> 'e \<Rightarrow> 'e reactions \<Rightarrow> ('n, 'e) bus \<Rightarrow> 'e bus_task list" where
  "notify P name e rs b =
     map (\<lambda>l. Call_task (listener_id l) e rs) (filter (\<lambda>l. listens_to l = name e \<and> P l) (listeners b))"

definition deliver_to :: "nat \<Rightarrow> 'e \<Rightarrow> ('n, 'e) bus \<Rightarrow> ('n, 'e) bus" where
  "deliver_to i e b = b\<lparr>log := log b @ [(i, e)]\<rparr>"

definition emit_event :: "('e \<Rightarrow> 'n) \<Rightarrow> 'e \<Rightarrow> 'e reactions \<Rightarrow> ('n, 'e) bus \<Rightarrow> 'e bus_task list" where
  "emit_event name e rs b =
     (case buffer_stack b of
        [] \<Rightarrow> notify (\<lambda>_. True) name e rs b
      | _ # _ \<Rightarrow> notify bypass name e rs b @ [Append_task e rs])"

definition begin_tx :: "('n, 'e) bus \<Rightarrow> ('n, 'e) bus" where
  "begin_tx b = b\<lparr>buffer_stack := [] # buffer_stack b\<rparr>"

fun push_all :: "'a list \<Rightarrow> 'a list list \<Rightarrow> 'a list list" where
  "push_all es [] = []"
| "push_all es (buf # rest) = (buf @ es) # rest"

definition end_tx :: "bool \<Rightarrow> ('n, 'e) bus \<Rightarrow> 'e bus_task list \<times> ('n, 'e) bus" where
  "end_tx threw b =
     (case buffer_stack b of
        [] \<Rightarrow> ([], b)
      | popped # rest \<Rightarrow>
          (let b' = b\<lparr>buffer_stack := rest\<rparr> in
           if threw then ([], b')
           else if rest \<noteq> [] then ([], b'\<lparr>buffer_stack := push_all popped rest\<rparr>)
           else (map (\<lambda>(e, rs). Flush_task e rs) popped, b')))"

fun bus_step :: "('e \<Rightarrow> 'n) \<Rightarrow> ('n, 'e) bus \<Rightarrow> 'e bus_task \<Rightarrow> 'e bus_task list \<times> ('n, 'e) bus" where
  "bus_step name b (Run_task (Emit_op e rs)) = (emit_event name e rs b, b)"
| "bus_step name b (Run_task (Tx_op ps threw)) = (map Run_task ps @ [Leave_task threw], begin_tx b)"
| "bus_step name b (Call_task i e rs) = (map Run_task (reaction i rs), deliver_to i e b)"
| "bus_step name b (Append_task e rs) = ([], b\<lparr>buffer_stack := push_all [(e, rs)] (buffer_stack b)\<rparr>)"
| "bus_step name b (Flush_task e rs) = (notify (\<lambda>l. \<not> bypass l) name e rs b, b)"
| "bus_step name b (Leave_task threw) = end_tx threw b"

text \<open>The agenda empties: what is left to do on it and in the buffers has a weight that decreases.\<close>

lemma reaction_in: "q \<in> set (reaction i rs) \<Longrightarrow> \<exists>ps. (i, ps) \<in> set rs \<and> q \<in> set ps"
  by (auto simp: reaction_def dest: map_of_SomeD [OF sym] map_of_SomeD split: option.splits)

lemma reaction_smaller [termination_simp]:
  "q \<in> set (reaction i rs) \<Longrightarrow> size q < Suc (size_list (size_prod (\<lambda>x. 0) (size_list size)) rs)"
proof -
  assume q: "q \<in> set (reaction i rs)"
  then obtain ps where ps: "(i, ps) \<in> set rs" "q \<in> set ps" using reaction_in by blast
  have "size q \<le> size_list size ps" using ps(2) by (simp add: size_list_estimation')
  also have "\<dots> \<le> size_prod (\<lambda>x. 0) (size_list size) (i, ps)" by simp
  also have "\<dots> \<le> size_list (size_prod (\<lambda>x. 0) (size_list size)) rs" using ps(1) by (rule size_list_estimation') simp
  finally show ?thesis by simp
qed

fun weight :: "nat \<Rightarrow> 'e bus_prog \<Rightarrow> nat" where
  "weight n (Emit_op e rs) = 3 + 2 * (n * (1 + sum_list (map (\<lambda>r. sum_list (map (weight n) (snd r))) rs)))"
| "weight n (Tx_op ps threw) = 2 + sum_list (map (weight n) ps)"


fun task_weight :: "nat \<Rightarrow> 'e bus_task \<Rightarrow> nat" where
  "task_weight n (Run_task p) = weight n p"
| "task_weight n (Call_task i e rs) = 1 + sum_list (map (\<lambda>r. sum_list (map (weight n) (snd r))) rs)"
| "task_weight n (Append_task e rs) = 2 + n * (1 + sum_list (map (\<lambda>r. sum_list (map (weight n) (snd r))) rs))"
| "task_weight n (Flush_task e rs) = 1 + n * (1 + sum_list (map (\<lambda>r. sum_list (map (weight n) (snd r))) rs))"
| "task_weight n (Leave_task threw) = 1"

definition pending_weight :: "('n, 'e) bus \<Rightarrow> nat" where
  "pending_weight b = sum_list (map (\<lambda>buf. sum_list (map (\<lambda>(e, rs). task_weight (length (listeners b)) (Flush_task e rs)) buf))
     (buffer_stack b))"

lemma reaction_weight: "sum_list (map (weight n) (reaction i rs)) \<le> sum_list (map (\<lambda>r. sum_list (map (weight n) (snd r))) rs)"
proof (cases "map_of rs i")
  case (Some ps)
  then have "(i, ps) \<in> set rs" by (rule map_of_SomeD)
  then have "sum_list (map (weight n) ps) \<in> set (map (\<lambda>r. sum_list (map (weight n) (snd r))) rs)" by force
  then have "sum_list (map (weight n) ps) \<le> sum_list (map (\<lambda>r. sum_list (map (weight n) (snd r))) rs)"
    by (rule member_le_sum_list) simp
  then show ?thesis by (simp add: reaction_def Some)
qed (simp add: reaction_def)

lemma notify_weight:
  "sum_list (map (task_weight n) (notify P name e rs b)) \<le>
     length (listeners b) * (1 + sum_list (map (\<lambda>r. sum_list (map (weight n) (snd r))) rs))"
proof -
  have "sum_list (map (task_weight n) (notify P name e rs b)) =
      length (notify P name e rs b) * (1 + sum_list (map (\<lambda>r. sum_list (map (weight n) (snd r))) rs))"
    by (simp add: notify_def comp_def sum_list_triv)
  also have "\<dots> \<le> length (listeners b) * (1 + sum_list (map (\<lambda>r. sum_list (map (weight n) (snd r))) rs))"
    by (intro mult_le_mono1) (simp add: notify_def)
  finally show ?thesis .
qed

lemma push_all_weight: "sum_list (map f (push_all es s)) \<le> sum_list (map f s) + (f es :: nat)"
  if "\<And>xs ys. f (xs @ ys) = f xs + f ys"
  using that by (cases s) auto

lemma step_weight:
  assumes "bus_step name b t = (new, b')"
  shows "listeners b' = listeners b \<and>
    sum_list (map (task_weight (length (listeners b))) new) + pending_weight b' <
      task_weight (length (listeners b)) t + pending_weight b"
proof -
  let ?n = "length (listeners b)"
  let ?f = "\<lambda>buf. sum_list (map (\<lambda>(e, rs). task_weight ?n (Flush_task e rs)) buf)"
  have push: "sum_list (map ?f (push_all es s)) \<le> sum_list (map ?f s) + ?f es" for es s
    by (rule push_all_weight) simp
  show ?thesis
  proof (cases t)
    case (Run_task p)
    show ?thesis
    proof (cases p)
      case (Emit_op e rs)
      have "sum_list (map (task_weight ?n) (emit_event name e rs b)) < weight ?n p"
        using notify_weight [of ?n "\<lambda>_. True" name e rs b] notify_weight [of ?n bypass name e rs b]
        by (auto simp: emit_event_def Emit_op split: list.split)
      then show ?thesis using assms by (auto simp: Run_task Emit_op)
    next
      case (Tx_op ps threw)
      have "sum_list (map (task_weight ?n) (map Run_task ps)) = sum_list (map (weight ?n) ps)" by (simp add: comp_def)
      then show ?thesis using assms by (auto simp: Run_task Tx_op begin_tx_def pending_weight_def)
    qed
  next
    case (Call_task i e rs)
    have "sum_list (map (task_weight ?n) (map Run_task (reaction i rs))) = sum_list (map (weight ?n) (reaction i rs))"
      by (simp add: comp_def)
    then show ?thesis using assms reaction_weight [of ?n i rs]
      by (auto simp: Call_task deliver_to_def pending_weight_def)
  next
    case (Append_task e rs)
    then show ?thesis using assms push [of "[(e, rs)]" "buffer_stack b"] by (auto simp: pending_weight_def)
  next
    case (Flush_task e rs)
    then show ?thesis using assms notify_weight [of ?n "\<lambda>l. \<not> bypass l" name e rs b] by auto
  next
    case (Leave_task threw)
    show ?thesis
    proof (cases "buffer_stack b")
      case (Cons popped rest)
      have "sum_list (map (task_weight ?n) (map (\<lambda>(e, rs). Flush_task e rs) popped)) = ?f popped"
        by (induction popped) auto
      then show ?thesis using assms push [of popped rest] Cons
        by (auto simp: Leave_task end_tx_def pending_weight_def Let_def split: if_splits)
    qed (use assms in \<open>auto simp: Leave_task end_tx_def pending_weight_def\<close>)
  qed
qed

function run_tasks :: "('e \<Rightarrow> 'n) \<Rightarrow> ('n, 'e) bus \<Rightarrow> 'e bus_task list \<Rightarrow> ('n, 'e) bus" where
  "run_tasks name b [] = b"
| "run_tasks name b (t # ts) = (case bus_step name b t of (new, b') \<Rightarrow> run_tasks name b' (new @ ts))"
  by pat_completeness auto
termination
proof (relation "measure (\<lambda>(name, b, ts). sum_list (map (task_weight (length (listeners b))) ts) + pending_weight b)", goal_cases)
  case (2 name b t ts new b')
  from step_weight [OF 2 [symmetric]] show ?case by simp
qed simp

declare run_tasks.simps(2) [simp del]

definition exec_prog :: "('e \<Rightarrow> 'n) \<Rightarrow> ('n, 'e) bus \<Rightarrow> 'e bus_prog \<Rightarrow> ('n, 'e) bus" where
  "exec_prog name b p = run_tasks name b [Run_task p]"

section \<open>What a listener should receive\<close>

definition heard :: "('e \<Rightarrow> 'n) \<Rightarrow> 'n listener list \<Rightarrow> 'e \<Rightarrow> 'n listener list" where
  "heard name ls e = filter (\<lambda>l. listens_to l = name e) ls"

text \<open>
  The events of a run outside the transactions that threw, those of the handlers included; a handler
  that is called is called inside whatever transaction the emission is in.
\<close>

fun committed :: "('e \<Rightarrow> 'n) \<Rightarrow> 'n listener list \<Rightarrow> 'e bus_prog \<Rightarrow> 'e list" where
  "committed name ls (Emit_op e rs) =
     e # concat (map (\<lambda>l. concat (map (committed name ls) (reaction (listener_id l) rs))) (heard name ls e))"
| "committed name ls (Tx_op ps threw) = (if threw then [] else concat (map (committed name ls) ps))"

text \<open>
  All events of a run.  Inside a transaction that throws (\<open>c\<close> is false) the plain handlers are never
  called, so their reactions do not happen.
\<close>

fun emitted :: "('e \<Rightarrow> 'n) \<Rightarrow> 'n listener list \<Rightarrow> bool \<Rightarrow> 'e bus_prog \<Rightarrow> 'e list" where
  "emitted name ls c (Emit_op e rs) =
     e # concat (map (\<lambda>l. concat (map (emitted name ls c) (reaction (listener_id l) rs)))
           (filter (\<lambda>l. c \<or> bypass l) (heard name ls e)))"
| "emitted name ls c (Tx_op ps threw) = concat (map (emitted name ls (c \<and> \<not> threw)) ps)"

text \<open>Runs in which no handler reacts.\<close>

fun quiet :: "'e bus_prog \<Rightarrow> bool" where
  "quiet (Emit_op e rs) \<longleftrightarrow> list_all (\<lambda>r. snd r = []) rs"
| "quiet (Tx_op ps threw) \<longleftrightarrow> list_all quiet ps"

definition received :: "'n listener \<Rightarrow> ('n, 'e) bus \<Rightarrow> 'e list" where
  "received l b = map snd (filter (\<lambda>p. fst p = listener_id l) (log b))"

definition due :: "('e \<Rightarrow> 'n) \<Rightarrow> 'n listener list \<Rightarrow> 'n listener \<Rightarrow> bool \<Rightarrow> 'e bus_prog \<Rightarrow> 'e list" where
  "due name ls l c p =
     filter (\<lambda>e. name e = listens_to l) (if bypass l then emitted name ls c p else if c then committed name ls p else [])"

text \<open>What a run adds to the active buffer, and what flushing a buffered event brings.\<close>

fun buffered :: "('e \<Rightarrow> 'n) \<Rightarrow> 'n listener list \<Rightarrow> 'e bus_prog \<Rightarrow> ('e \<times> 'e reactions) list" where
  "buffered name ls (Emit_op e rs) =
     concat (map (\<lambda>l. concat (map (buffered name ls) (reaction (listener_id l) rs))) (filter bypass (heard name ls e))) @ [(e, rs)]"
| "buffered name ls (Tx_op ps threw) = (if threw then [] else concat (map (buffered name ls) ps))"

definition flushed :: "('e \<Rightarrow> 'n) \<Rightarrow> 'n listener list \<Rightarrow> 'n listener \<Rightarrow> 'e \<times> 'e reactions \<Rightarrow> 'e list" where
  "flushed name ls l x =
     (if name (fst x) = listens_to l \<and> \<not> bypass l then [fst x] else []) @
     concat (map (\<lambda>k. concat (map (due name ls l True) (reaction (listener_id k) (snd x))))
       (filter (\<lambda>k. \<not> bypass k) (heard name ls (fst x))))"

section \<open>Deliveries\<close>

definition bus_ok :: "('n, 'e) bus \<Rightarrow> bool" where
  "bus_ok b \<longleftrightarrow> distinct (map listener_id (listeners b)) \<and> (\<forall>l\<in>set (listeners b). listener_id l < next_listener b)"

text \<open>The same events, and when no handler reacts in the same order.\<close>

definition like :: "bool \<Rightarrow> 'a list \<Rightarrow> 'a list \<Rightarrow> bool" where
  "like q xs ys \<longleftrightarrow> mset xs = mset ys \<and> (q \<longrightarrow> xs = ys)"

lemma like_refl [simp]: "like q xs xs"
  by (simp add: like_def)

lemma like_append: "like p xs ys \<Longrightarrow> like q xs' ys' \<Longrightarrow> like (p \<and> q) (xs @ xs') (ys @ ys')"
  by (simp add: like_def)

lemma like_trans: "like q xs ys \<Longrightarrow> like q ys zs \<Longrightarrow> like q xs zs"
  by (simp add: like_def)

lemma run_append: "run_tasks name b (ts @ us) = run_tasks name (run_tasks name b ts) us"
  by (induction name b ts rule: run_tasks.induct) (simp_all add: run_tasks.simps(2) split: prod.split)

lemma quiet_reaction: "list_all (\<lambda>r. snd r = []) rs \<Longrightarrow> reaction i rs = []"
  by (force simp: reaction_def list_all_iff dest: map_of_SomeD split: option.split)

text \<open>
  A stretch of the run from \<open>b\<close> to \<open>b'\<close>: the active buffer grew by \<open>es\<close>, the listener received \<open>ys\<close>.
\<close>

definition run_ok :: "'n listener \<Rightarrow> ('n, 'e) bus \<Rightarrow> ('n, 'e) bus \<Rightarrow> ('e \<times> 'e reactions) list \<Rightarrow> bool \<Rightarrow> 'e list \<Rightarrow> bool" where
  "run_ok l b b' es q ys \<longleftrightarrow>
     listeners b' = listeners b \<and> buffer_stack b' = push_all es (buffer_stack b) \<and>
     (\<exists>xs. received l b' = received l b @ xs \<and> like q xs ys)"

lemma push_all_append: "push_all (xs @ ys) s = push_all ys (push_all xs s)"
  by (cases s) simp_all

lemma push_all_empty [simp]: "push_all [] s = s" "push_all es s = [] \<longleftrightarrow> s = []"
  by (cases s; simp)+

lemma run_ok_same [simp]: "run_ok l b b [] q []"
  by (simp add: run_ok_def)

lemma run_ok_trans:
  assumes "run_ok l a b es p ys" and "run_ok l b c es' q ys'"
  shows "run_ok l a c (es @ es') (p \<and> q) (ys @ ys')"
proof -
  obtain xs where xs: "received l b = received l a @ xs" "like p xs ys" using assms(1) by (auto simp: run_ok_def)
  obtain xs' where xs': "received l c = received l b @ xs'" "like q xs' ys'" using assms(2) by (auto simp: run_ok_def)
  have "received l c = received l a @ (xs @ xs')" using xs(1) xs'(1) by simp
  with like_append [OF xs(2) xs'(2)] assms show ?thesis unfolding run_ok_def push_all_append by metis
qed

lemma run_ok_weaken: "run_ok l a b es p ys \<Longrightarrow> (q \<longrightarrow> p) \<Longrightarrow> run_ok l a b es q ys"
  by (auto simp: run_ok_def like_def)

lemma run_ok_idle: "buffer_stack b = [] \<Longrightarrow> run_ok l b b' es q ys \<Longrightarrow> run_ok l b b' es' q ys"
  by (simp add: run_ok_def)

lemma run_ok_like: "run_ok l a b es q ys \<Longrightarrow> like q ys zs \<Longrightarrow> run_ok l a b es q zs"
  unfolding run_ok_def using like_trans by blast

lemma received_deliver [simp]:
  "received l (deliver_to i e b) = received l b @ (if i = listener_id l then [e] else [])"
  by (simp add: received_def deliver_to_def)

lemma deliver_frame [simp]:
  "listeners (deliver_to i e b) = listeners b" "buffer_stack (deliver_to i e b) = buffer_stack b"
  by (simp_all add: deliver_to_def)

lemma received_stack [simp]: "received l (b\<lparr>buffer_stack := s\<rparr>) = received l b"
  by (simp add: received_def)

text \<open>What one run does, whatever the bus it starts from.\<close>

definition prog_ok :: "('e \<Rightarrow> 'n) \<Rightarrow> 'n listener list \<Rightarrow> 'n listener \<Rightarrow> 'e bus_prog \<Rightarrow> bool" where
  "prog_ok name ls l p \<longleftrightarrow>
     (\<forall>b. listeners b = ls \<longrightarrow>
        run_ok l b (run_tasks name b [Run_task p]) (buffered name ls p) (quiet p) (due name ls l (buffer_stack b = []) p))"

lemma progs_ok:
  assumes "\<forall>p\<in>set ps. prog_ok name ls l p" and "listeners b = ls"
  shows "run_ok l b (run_tasks name b (map Run_task ps)) (concat (map (buffered name ls) ps)) (list_all quiet ps)
    (concat (map (due name ls l (buffer_stack b = [])) ps))"
  using assms
proof (induction ps arbitrary: b)
  case (Cons p ps)
  let ?b = "run_tasks name b [Run_task p]"
  have p: "run_ok l b ?b (buffered name ls p) (quiet p) (due name ls l (buffer_stack b = []) p)"
    using Cons.prems by (simp add: prog_ok_def)
  then have "listeners ?b = ls" "buffer_stack ?b = [] \<longleftrightarrow> buffer_stack b = []"
    using Cons.prems(2) by (simp_all add: run_ok_def)
  with Cons.IH [of ?b] Cons.prems(1) have "run_ok l ?b (run_tasks name ?b (map Run_task ps)) (concat (map (buffered name ls) ps)) (list_all quiet ps)
      (concat (map (due name ls l (buffer_stack b = [])) ps))" by simp
  from run_ok_trans [OF p this] show ?case
    using run_append [of name b "[Run_task p]" "map Run_task ps"] by simp
qed simp

section \<open>One dispatch\<close>

lemma due_Emit:
  "due name ls l c (Emit_op e rs) =
     (if name e = listens_to l \<and> (bypass l \<or> c) then [e] else []) @
     concat (map (\<lambda>k. concat (map (due name ls l c) (reaction (listener_id k) rs))) (filter (\<lambda>k. c \<or> bypass k) (heard name ls e)))"
  by (cases c; cases "bypass l") (simp_all add: due_def [abs_def] filter_concat comp_def)

lemma due_Tx: "due name ls l c (Tx_op ps threw) = concat (map (due name ls l (c \<and> \<not> threw)) ps)"
  by (cases c; cases threw; cases "bypass l") (simp_all add: due_def [abs_def] filter_concat comp_def)

lemma one_delivery:
  "distinct (map listener_id ls) \<Longrightarrow> l \<in> set ls \<Longrightarrow>
     concat (map (\<lambda>k. if listener_id k = listener_id l then [e] else []) (filter R ls)) = (if R l then [e] else [])"
proof (induction ls)
  case (Cons k ls)
  show ?case
  proof (cases "k = l")
    case True
    then have "concat (map (\<lambda>k. if listener_id k = listener_id l then [e] else []) (filter R ls)) = []"
      using Cons.prems(1) by (auto simp: image_iff)
    with True show ?thesis by simp
  next
    case False
    then have l: "l \<in> set ls" using Cons.prems(2) by simp
    then have "listener_id k \<noteq> listener_id l" using Cons.prems(1) by (metis distinct.simps(2) image_eqI list.set_map list.simps(9))
    with Cons l show ?thesis by (auto split: if_splits)
  qed
qed simp

lemma like_interleaved:
  assumes "\<And>k. q \<Longrightarrow> g k = []"
  shows "like q (concat (map (\<lambda>k. f k @ g k) ks)) (concat (map f ks) @ concat (map g ks))"
proof -
  have "mset (concat (map (\<lambda>k. f k @ g k) ks)) = mset (concat (map f ks) @ concat (map g ks))"
    by (induction ks) simp_all
  moreover have "concat (map (\<lambda>k. f k @ g k) ks) = concat (map f ks) @ concat (map g ks)" if q
    using assms [OF that] by (induction ks) simp_all
  ultimately show ?thesis by (simp add: like_def)
qed

lemma calls_ok:
  assumes "\<forall>i. \<forall>q\<in>set (reaction i rs). prog_ok name ls l q" and "listeners b = ls"
  shows "run_ok l b (run_tasks name b (map (\<lambda>k. Call_task (listener_id k) e rs) ks))
    (concat (map (\<lambda>k. concat (map (buffered name ls) (reaction (listener_id k) rs))) ks)) (list_all (\<lambda>r. snd r = []) rs)
    (concat (map (\<lambda>k. (if listener_id k = listener_id l then [e] else []) @
       concat (map (due name ls l (buffer_stack b = [])) (reaction (listener_id k) rs))) ks))"
  using assms(2)
proof (induction ks arbitrary: b)
  case (Cons k ks)
  let ?c = "Call_task (listener_id k) e rs"
  let ?d = "deliver_to (listener_id k) e b"
  let ?b = "run_tasks name b [?c]"
  have b: "?b = run_tasks name ?d (map Run_task (reaction (listener_id k) rs))" by (simp add: run_tasks.simps(2))
  have call: "run_ok l b ?d [] True (if listener_id k = listener_id l then [e] else [])" by (simp add: run_ok_def)
  have react: "run_ok l ?d ?b (concat (map (buffered name ls) (reaction (listener_id k) rs)))
      (list_all quiet (reaction (listener_id k) rs))
      (concat (map (due name ls l (buffer_stack b = [])) (reaction (listener_id k) rs)))"
    using progs_ok [of "reaction (listener_id k) rs" name ls l ?d] assms(1) Cons.prems by (simp add: b)
  have one: "run_ok l b ?b (concat (map (buffered name ls) (reaction (listener_id k) rs)))
      (list_all (\<lambda>r. snd r = []) rs) ((if listener_id k = listener_id l then [e] else []) @
        concat (map (due name ls l (buffer_stack b = [])) (reaction (listener_id k) rs)))"
    using run_ok_weaken [OF run_ok_trans [OF call react], of "list_all (\<lambda>r. snd r = []) rs"] quiet_reaction [of rs "listener_id k"]
    by simp
  then have "listeners ?b = ls" "buffer_stack ?b = [] \<longleftrightarrow> buffer_stack b = []" using Cons.prems by (simp_all add: run_ok_def)
  note rest = Cons.IH [OF this(1), unfolded this(2)]
  show ?case using run_ok_trans [OF one rest] run_append [of name b "[?c]" "map (\<lambda>k. Call_task (listener_id k) e rs) ks"] by simp
qed simp

text \<open>The calls a dispatch makes, against what is due from them.\<close>

lemma dispatch_ok:
  assumes "\<forall>i. \<forall>q\<in>set (reaction i rs). prog_ok name ls l q" and "listeners b = ls"
    and "distinct (map listener_id ls)" and "l \<in> set ls"
  shows "run_ok l b (run_tasks name b (notify P name e rs b))
    (concat (map (\<lambda>k. concat (map (buffered name ls) (reaction (listener_id k) rs))) (filter P (heard name ls e))))
    (list_all (\<lambda>r. snd r = []) rs)
    ((if name e = listens_to l \<and> P l then [e] else []) @
      concat (map (\<lambda>k. concat (map (due name ls l (buffer_stack b = [])) (reaction (listener_id k) rs))) (filter P (heard name ls e))))"
proof -
  let ?ks = "filter P (heard name ls e)" and ?hit = "\<lambda>k. if listener_id k = listener_id l then [e] else []"
  let ?re = "\<lambda>k. concat (map (due name ls l (buffer_stack b = [])) (reaction (listener_id k) rs))"
  have ks: "?ks = filter (\<lambda>k. listens_to k = name e \<and> P k) ls" by (simp add: heard_def conj_commute)
  have hits: "concat (map ?hit ?ks) = (if name e = listens_to l \<and> P l then [e] else [])"
    unfolding ks using one_delivery [OF assms(3,4), of e "\<lambda>k. listens_to k = name e \<and> P k"] by auto
  have "like (list_all (\<lambda>r. snd r = []) rs) (concat (map (\<lambda>k. ?hit k @ ?re k) ?ks))
      (concat (map ?hit ?ks) @ concat (map ?re ?ks))"
    by (rule like_interleaved) (simp add: quiet_reaction)
  note like = this
  have calls: "notify P name e rs b = map (\<lambda>k. Call_task (listener_id k) e rs) ?ks" unfolding notify_def ks assms(2) by (rule refl)
  show ?thesis unfolding calls hits [symmetric] by (rule run_ok_like [OF calls_ok [OF assms(1,2), of e ?ks] like])
qed

section \<open>Whole runs\<close>

lemma concat_map_Nil [simp]: "concat (map (\<lambda>x. []) xs) = []"
  by (induction xs) simp_all

lemma mset_split_map:
  "(\<And>x. x \<in> set xs \<Longrightarrow> mset (f x) = mset (g x) + mset (concat (map h (buf x)))) \<Longrightarrow>
     mset (concat (map f xs)) = mset (concat (map g xs)) + mset (concat (map h (concat (map buf xs))))"
  by (induction xs) simp_all

lemma mset_partition_map:
  "mset (concat (map f xs)) = mset (concat (map f (filter P xs))) + mset (concat (map f (filter (\<lambda>x. \<not> P x) xs)))"
  by (induction xs) simp_all

lemma flushed_Pair:
  "flushed name ls l (e, rs) =
     (if name e = listens_to l \<and> \<not> bypass l then [e] else []) @
     concat (map (\<lambda>k. concat (map (due name ls l True) (reaction (listener_id k) rs)))
       (filter (\<lambda>k. \<not> bypass k) (heard name ls e)))"
  by (simp add: flushed_def)

text \<open>What is due when the run commits is what is due at once and what the flush brings.\<close>

lemma due_splits:
  "mset (due name ls l True p) = mset (due name ls l False p) + mset (concat (map (flushed name ls l) (buffered name ls p)))"
proof (induction p)
  case (Emit_op e rs)
  let ?re = "\<lambda>c k. concat (map (due name ls l c) (reaction (listener_id k) rs))"
  let ?buf = "\<lambda>k. concat (map (buffered name ls) (reaction (listener_id k) rs))"
  have IH: "mset (due name ls l True q) = mset (due name ls l False q) + mset (concat (map (flushed name ls l) (buffered name ls q)))"
    if "q \<in> set (reaction i rs)" for q i
  proof -
    from that obtain ps where "(i, ps) \<in> set rs" "q \<in> set ps" using reaction_in by blast
    then show ?thesis using Emit_op by (metis fsts.intros snds.intros prod.collapse prod.sel)
  qed
  have "mset (concat (map (?re True) (filter bypass (heard name ls e)))) =
      mset (concat (map (?re False) (filter bypass (heard name ls e)))) +
      mset (concat (map (flushed name ls l) (concat (map ?buf (filter bypass (heard name ls e))))))"
    by (rule mset_split_map, rule mset_split_map, rule IH)
  then show ?case
    using mset_partition_map [of "?re True" "heard name ls e" bypass]
    by (simp add: due_Emit flushed_Pair del: mset_concat)
next
  case (Tx_op ps threw)
  show ?case
  proof (cases threw)
    case False
    have "mset (concat (map (due name ls l True) ps)) = mset (concat (map (due name ls l False) ps)) +
        mset (concat (map (flushed name ls l) (concat (map (buffered name ls) ps))))"
      using Tx_op by (intro mset_split_map)
    with False show ?thesis by (simp add: due_Tx del: mset_concat)
  qed (simp add: due_Tx)
qed

lemma quiet_parts:
  "quiet p \<Longrightarrow>
     (bypass l \<longrightarrow> due name ls l True p = due name ls l False p \<and> concat (map (flushed name ls l) (buffered name ls p)) = []) \<and>
     (\<not> bypass l \<longrightarrow> due name ls l False p = [] \<and> due name ls l True p = concat (map (flushed name ls l) (buffered name ls p)))"
proof (induction p)
  case (Emit_op e rs)
  then have "reaction i rs = []" for i using quiet_reaction by simp
  then show ?case by (simp add: due_Emit flushed_Pair)
next
  case (Tx_op ps threw)
  have "(bypass l \<longrightarrow> concat (map (due name ls l True) qs) = concat (map (due name ls l False) qs) \<and>
        concat (map (flushed name ls l) (concat (map (buffered name ls) qs))) = []) \<and>
      (\<not> bypass l \<longrightarrow> concat (map (due name ls l False) qs) = [] \<and>
        concat (map (due name ls l True) qs) = concat (map (flushed name ls l) (concat (map (buffered name ls) qs))))"
    if "set qs \<subseteq> set ps" for qs
    using that
  proof (induction qs)
    case (Cons q qs)
    with Tx_op.IH [of q] Tx_op.prems show ?case by (simp add: list_all_iff del: concat_eq_Nil_conv)
  qed simp
  from this [of ps] show ?case by (cases threw) (simp_all add: due_Tx)
qed

lemma quiet_due:
  assumes "list_all quiet ps"
  shows "concat (map (due name ls l True) ps) =
    concat (map (due name ls l False) ps) @ concat (map (flushed name ls l) (concat (map (buffered name ls) ps)))"
  using quiet_parts [of "Tx_op ps False" l name ls] assms by (cases "bypass l") (auto simp: due_Tx)

lemma quiet_buffered: "quiet p \<Longrightarrow> x \<in> set (buffered name ls p) \<Longrightarrow> list_all (\<lambda>r. snd r = []) (snd x)"
proof (induction p)
  case (Emit_op e rs)
  then have "reaction i rs = []" for i using quiet_reaction by simp
  with Emit_op.prems show ?case by simp
qed (auto simp: list_all_iff split: if_splits)

text \<open>Flushing, outside any transaction.\<close>

lemma flush_ok:
  assumes "\<forall>x\<in>set es. \<forall>i. \<forall>q\<in>set (reaction i (snd x)). prog_ok name ls l q" and "listeners b = ls"
    and "buffer_stack b = []" and "distinct (map listener_id ls)" and "l \<in> set ls"
    and "q \<Longrightarrow> \<forall>x\<in>set es. list_all (\<lambda>r. snd r = []) (snd x)"
  shows "run_ok l b (run_tasks name b (map (\<lambda>(e, rs). Flush_task e rs) es)) [] q (concat (map (flushed name ls l) es))"
  using assms
proof (induction es arbitrary: b)
  case (Cons x es)
  obtain e rs where x: "x = (e, rs)" by (cases x)
  let ?b = "run_tasks name b [Flush_task e rs]"
  have b: "?b = run_tasks name b (notify (\<lambda>l. \<not> bypass l) name e rs b)" by (simp add: run_tasks.simps(2))
  have reacts: "\<forall>i. \<forall>q\<in>set (reaction i rs). prog_ok name ls l q" using Cons.prems(1) by (simp add: x)
  have idle: "(buffer_stack b = []) = True" using Cons.prems(3) by simp
  have "run_ok l b ?b [] (list_all (\<lambda>r. snd r = []) rs) (flushed name ls l x)"
    unfolding b x flushed_Pair
    by (rule run_ok_idle [OF Cons.prems(3)
          dispatch_ok [OF reacts Cons.prems(2,4,5), of "\<lambda>l. \<not> bypass l" e, unfolded idle]])
  then have one: "run_ok l b ?b [] q (flushed name ls l x)"
    by (rule run_ok_weaken) (use Cons.prems(6) in \<open>simp add: x\<close>)
  then have "listeners ?b = ls" "buffer_stack ?b = []" using Cons.prems by (simp_all add: run_ok_def)
  then have "run_ok l ?b (run_tasks name ?b (map (\<lambda>(e, rs). Flush_task e rs) es)) [] q (concat (map (flushed name ls l) es))"
    using Cons.prems by (intro Cons.IH) simp_all
  from run_ok_trans [OF one this] show ?case
    using run_append [of name b "[Flush_task e rs]" "map (\<lambda>(e, rs). Flush_task e rs) es"] by (simp add: x)
qed simp


text \<open>Every program, with the programs its buffered events carry.\<close>

lemma exec_ok:
  assumes "distinct (map listener_id ls)" and "l \<in> set ls"
  shows "prog_ok name ls l p \<and> (\<forall>x\<in>set (buffered name ls p). \<forall>i. \<forall>q\<in>set (reaction i (snd x)). prog_ok name ls l q)"
proof (induction p)
  case (Emit_op e rs)
  have IH: "prog_ok name ls l q \<and> (\<forall>x\<in>set (buffered name ls q). \<forall>i. \<forall>q\<in>set (reaction i (snd x)). prog_ok name ls l q)"
    if "q \<in> set (reaction i rs)" for q i
  proof -
    from that obtain ps where "(i, ps) \<in> set rs" "q \<in> set ps" using reaction_in by blast
    then show ?thesis using Emit_op by (metis fsts.intros snds.intros prod.collapse prod.sel)
  qed
  have reacts: "\<forall>i. \<forall>q\<in>set (reaction i rs). prog_ok name ls l q" using IH by blast
  have "run_ok l b (run_tasks name b [Run_task (Emit_op e rs)]) (buffered name ls (Emit_op e rs)) (quiet (Emit_op e rs))
      (due name ls l (buffer_stack b = []) (Emit_op e rs))" if b: "listeners b = ls" for b
  proof (cases "buffer_stack b")
    case Nil
    then have idle: "(buffer_stack b = []) = True" by simp
    have run: "run_tasks name b [Run_task (Emit_op e rs)] = run_tasks name b (notify (\<lambda>_. True) name e rs b)"
      by (simp add: run_tasks.simps(2) emit_event_def Nil)
    have "run_ok l b (run_tasks name b (notify (\<lambda>_. True) name e rs b)) (buffered name ls (Emit_op e rs)) (quiet (Emit_op e rs))
        ((if name e = listens_to l \<and> True then [e] else []) @
         concat (map (\<lambda>k. concat (map (due name ls l True) (reaction (listener_id k) rs))) (filter (\<lambda>_. True) (heard name ls e))))"
      using run_ok_idle [OF Nil dispatch_ok [OF reacts b assms, of "\<lambda>_. True" e, unfolded idle]] by (simp only: quiet.simps)
    then show ?thesis unfolding run idle due_Emit by (simp only: simp_thms)
  next
    case (Cons buf rest)
    then have busy: "(buffer_stack b = []) = False" by simp
    let ?b = "run_tasks name b (notify bypass name e rs b)"
    have run: "run_tasks name b [Run_task (Emit_op e rs)] = run_tasks name ?b [Append_task e rs]"
      using run_append [of name b "notify bypass name e rs b" "[Append_task e rs]"]
      by (simp add: run_tasks.simps(2) [of name b] emit_event_def Cons)
    have "run_ok l ?b (run_tasks name ?b [Append_task e rs]) [(e, rs)] True []"
      by (simp add: run_tasks.simps(2) run_ok_def)
    from run_ok_trans [OF dispatch_ok [OF reacts b assms, of bypass e, unfolded busy] this]
    show ?thesis unfolding run busy due_Emit by (simp only: simp_thms append_Nil2 buffered.simps quiet.simps)
  qed
  moreover have "\<forall>x\<in>set (buffered name ls (Emit_op e rs)). \<forall>i. \<forall>q\<in>set (reaction i (snd x)). prog_ok name ls l q"
    using IH by fastforce
  ultimately show ?case unfolding prog_ok_def by blast
next
  case (Tx_op ps threw)
  have ps: "\<forall>p\<in>set ps. prog_ok name ls l p" using Tx_op by blast
  let ?es = "concat (map (buffered name ls) ps)"
  have es: "\<forall>x\<in>set ?es. \<forall>i. \<forall>q\<in>set (reaction i (snd x)). prog_ok name ls l q" using Tx_op by fastforce
  have "run_ok l b (run_tasks name b [Run_task (Tx_op ps threw)]) (buffered name ls (Tx_op ps threw)) (quiet (Tx_op ps threw))
      (due name ls l (buffer_stack b = []) (Tx_op ps threw))" if b: "listeners b = ls" for b
  proof -
    let ?b1 = "run_tasks name (begin_tx b) (map Run_task ps)"
    have run: "run_tasks name b [Run_task (Tx_op ps threw)] = run_tasks name ?b1 [Leave_task threw]"
      using run_append [of name "begin_tx b" "map Run_task ps" "[Leave_task threw]"] by (simp add: run_tasks.simps(2) [of name b])
    have "run_ok l (begin_tx b) ?b1 ?es (list_all quiet ps) (concat (map (due name ls l False) ps))"
      using progs_ok [OF ps, of "begin_tx b"] b by (simp add: begin_tx_def)
    then obtain xs where b1: "listeners ?b1 = ls" "buffer_stack ?b1 = ?es # buffer_stack b"
      "received l ?b1 = received l b @ xs" "like (list_all quiet ps) xs (concat (map (due name ls l False) ps))"
      using b by (auto simp: run_ok_def begin_tx_def received_def)
    show ?thesis
    proof (cases "threw \<or> buffer_stack b \<noteq> []")
      case True
      then show ?thesis unfolding run using b b1
        by (cases threw; cases "buffer_stack b")
          (auto simp: run_tasks.simps(2) end_tx_def Let_def run_ok_def due_Tx simp del: concat_eq_Nil_conv)
    next
      case False
      let ?b2 = "?b1\<lparr>buffer_stack := []\<rparr>"
      have leave: "run_tasks name ?b1 [Leave_task threw] = run_tasks name ?b2 (map (\<lambda>(e, rs). Flush_task e rs) ?es)"
        using False by (simp add: run_tasks.simps(2) [of name ?b1] end_tx_def b1 Let_def)
      have quiets: "list_all (\<lambda>r. snd r = []) (snd x)" if "list_all quiet ps" "x \<in> set ?es" for x
      proof -
        from that(2) obtain p where "p \<in> set ps" "x \<in> set (buffered name ls p)" by auto
        with that(1) quiet_buffered show ?thesis by (metis list_all_iff)
      qed
      have one: "run_ok l b ?b2 [] (list_all quiet ps) (concat (map (due name ls l False) ps))"
        using False b b1 by (simp add: run_ok_def)
      have two: "run_ok l ?b2 (run_tasks name ?b2 (map (\<lambda>(e, rs). Flush_task e rs) ?es)) [] (list_all quiet ps)
          (concat (map (flushed name ls l) ?es))"
        using b1(1) assms quiets by (intro flush_ok [OF es]) simp_all
      have "like (list_all quiet ps) (concat (map (due name ls l False) ps) @ concat (map (flushed name ls l) ?es))
          (due name ls l True (Tx_op ps threw))"
        using False mset_split_map [of ps "due name ls l True" "due name ls l False" "flushed name ls l" "buffered name ls"]
          due_splits [of name ls l] quiet_due [of ps name ls l]
        unfolding like_def by (simp add: due_Tx del: mset_concat)
      from run_ok_like [OF _ this] run_ok_trans [OF one two]
      have "run_ok l b (run_tasks name b [Run_task (Tx_op ps threw)]) [] (list_all quiet ps) (due name ls l True (Tx_op ps threw))"
        unfolding run leave by simp
      then show ?thesis using False by (simp add: run_ok_def)
    qed
  qed
  moreover have "\<forall>x\<in>set (buffered name ls (Tx_op ps threw)). \<forall>i. \<forall>q\<in>set (reaction i (snd x)). prog_ok name ls l q"
    using es by auto
  ultimately show ?case unfolding prog_ok_def by blast
qed


text \<open>
  C31.  Outside any transaction, whatever a program and the handlers it sets off emit, a plain listener
  receives every event of its name that is not inside a transaction that throws exactly once, and
  nothing else; a bypassing listener receives every one of its events, those of transactions that
  throw included; and no buffer is left.  Where no handler emits anything itself, the events
  come in the order they were emitted.
\<close>

theorem only_committed_events_are_delivered:
  assumes "bus_ok b" and "buffer_stack b = []" and "l \<in> set (listeners b)"
  shows "\<exists>xs. received l (exec_prog name b p) = received l b @ xs \<and>
    (let mine = filter (\<lambda>e. name e = listens_to l)
          (if bypass l then emitted name (listeners b) True p else committed name (listeners b) p)
     in mset xs = mset mine \<and> (quiet p \<longrightarrow> xs = mine)) \<and>
    buffer_stack (exec_prog name b p) = [] \<and> listeners (exec_prog name b p) = listeners b"
proof -
  have ok: "prog_ok name (listeners b) l p" using exec_ok [of "listeners b" l name p] assms by (simp add: bus_ok_def)
  have "run_ok l b (exec_prog name b p) (buffered name (listeners b) p) (quiet p) (due name (listeners b) l True p)"
    using ok [unfolded prog_ok_def, rule_format, of b] assms(2) by (simp add: exec_prog_def)
  then show ?thesis using assms(2) by (auto simp: run_ok_def like_def due_def Let_def)
qed

text \<open>
  Two listeners of one name: a bypassing one, as the workflow engine, and a plain one, as the stream of
  events, in either order of subscription.
\<close>

definition sample_bus :: "bool \<Rightarrow> (nat, nat \<times> nat) bus" where
  "sample_bus engine_first = snd (subscribe 0 (\<not> engine_first) (snd (subscribe 0 engine_first new_bus)))"

text \<open>A rolled back transaction inside a committed one, and an event the first listener answers with another.\<close>

definition sample_prog :: "(nat \<times> nat) bus_prog" where
  "sample_prog = Tx_op [Emit_op (0, 5) [(0, [Emit_op (0, 6) []])], Tx_op [Emit_op (0, 2) []] True, Emit_op (3, 3) [],
     Emit_op (0, 4) []] False"

theorem only_committed_events_are_delivered_witness:
  "map (\<lambda>l. mset (received l (exec_prog fst (sample_bus True) sample_prog))) (listeners (sample_bus True)) =
     [{#(0, 5), (0, 6), (0, 2), (0, 4)#}, {#(0, 5), (0, 6), (0, 4)#}]"
proof -
  have bus: "listeners (sample_bus True) =
      [\<lparr>listener_id = 0, listens_to = 0, bypass = True\<rparr>, \<lparr>listener_id = 1, listens_to = 0, bypass = False\<rparr>]"
    "buffer_stack (sample_bus True) = []" "received l (sample_bus True) = []" for l
    by (simp_all add: sample_bus_def subscribe_def new_bus_def received_def)
  have ok: "bus_ok (sample_bus True)" by (simp add: bus_ok_def sample_bus_def subscribe_def new_bus_def)
  have "mset (received l (exec_prog fst (sample_bus True) sample_prog)) = mset (filter (\<lambda>e. fst e = listens_to l)
      (if bypass l then emitted fst (listeners (sample_bus True)) True sample_prog
       else committed fst (listeners (sample_bus True)) sample_prog))" if "l \<in> set (listeners (sample_bus True))" for l
    using only_committed_events_are_delivered [OF ok bus(2) that, of fst sample_prog] by (auto simp: bus(3) Let_def)
  then show ?thesis unfolding bus(1) by (simp add: sample_prog_def reaction_def heard_def)
qed

text \<open>
  Events that a handler emits while it is called overtake the event it was called with.  With the
  bypassing listener first, as the server starts, the plain one receives the answer before the
  event, inside a transaction and outside; inside a transaction it does so even as the first of the two.
\<close>

lemma answers_overtake_events:
  "received \<lparr>listener_id = 1, listens_to = 0, bypass = False\<rparr>
     (exec_prog fst (sample_bus True) (Emit_op (0, e) [(0, [Emit_op (0, c) []])])) = [(0, c), (0, e)]"
  "received \<lparr>listener_id = 1, listens_to = 0, bypass = False\<rparr>
     (exec_prog fst (sample_bus True) (Tx_op [Emit_op (0, e) [(0, [Emit_op (0, c) []])]] False)) = [(0, c), (0, e)]"
  "received \<lparr>listener_id = 0, listens_to = 0, bypass = False\<rparr>
     (exec_prog fst (sample_bus False) (Tx_op [Emit_op (0, e) [(1, [Emit_op (0, c) []])]] False)) = [(0, c), (0, e)]"
  by (simp_all add: exec_prog_def run_tasks.simps(2) sample_bus_def subscribe_def new_bus_def emit_event_def notify_def
      reaction_def deliver_to_def begin_tx_def end_tx_def received_def Let_def)

end
