(* ===== verification/Graceful_Shutdown.thy ===== *)
theory Graceful_Shutdown
  imports Prelude
begin

text \<open>
  The shutdown coordinator, \<open>packages/wft-router/src/dispatch/graceful-shutdown.ts\<close>, as a state
  machine: signals, the settling of the drain callbacks, the grace timer and \<open>dispose\<close> are its
  inputs, in any order the process may see them.
\<close>

section \<open>The coordinator\<close>

datatype phase = Idle | Draining | Finished

datatype shutdown_cause = Signal_cause string | GRACE_TIMEOUT

record shutdown_result =
  result_signal :: shutdown_cause
  drainedCleanly :: bool

record shutdown =
  sd_phase :: phase
  firstSignal :: "string option"
  graceTimer :: bool
  drain_running :: bool
  listening :: bool
  shutdownPromise :: "shutdown_result option option"
  exit_codes :: "int list"
  has_exit :: bool
  has_off :: bool

definition new_shutdown :: "bool \<Rightarrow> bool \<Rightarrow> shutdown" where
  "new_shutdown exit_hook off_hook =
     \<lparr>sd_phase = Idle, firstSignal = None, graceTimer = False, drain_running = False, listening = True,
      shutdownPromise = None, exit_codes = [], has_exit = exit_hook, has_off = off_hook\<rparr>"

text \<open>A promise is absent, pending (\<open>Some None\<close>) or resolved.\<close>

definition finish :: "shutdown_result \<Rightarrow> shutdown \<Rightarrow> shutdown" where
  "finish r s =
     (if sd_phase s = Finished then s
      else s\<lparr>sd_phase := Finished, graceTimer := False,
             shutdownPromise := (case shutdownPromise s of Some (Some old) \<Rightarrow> Some (Some old) | _ \<Rightarrow> Some (Some r)),
             exit_codes := (if has_exit s then exit_codes s @ [if drainedCleanly r then 0 else 1] else exit_codes s)\<rparr>)"

definition handle_signal :: "string \<Rightarrow> shutdown \<Rightarrow> shutdown" where
  "handle_signal sig s =
     (case sd_phase s of
        Finished \<Rightarrow> s
      | Draining \<Rightarrow> finish \<lparr>result_signal = Signal_cause sig, drainedCleanly = False\<rparr> s
      | Idle \<Rightarrow> s\<lparr>sd_phase := Draining, firstSignal := Some sig, graceTimer := True, drain_running := True\<rparr>)"

text \<open>The rest of \<open>runDrain\<close>, once every callback has settled.\<close>

definition drain_settled :: "shutdown \<Rightarrow> shutdown" where
  "drain_settled s =
     finish \<lparr>result_signal = Signal_cause (case_option ''SIGTERM'' id (firstSignal s)), drainedCleanly = True\<rparr>
       (s\<lparr>drain_running := False\<rparr>)"

definition wait_for_shutdown :: "shutdown \<Rightarrow> shutdown" where
  "wait_for_shutdown s = (if shutdownPromise s \<noteq> None then s else s\<lparr>shutdownPromise := Some None\<rparr>)"

definition dispose :: "shutdown \<Rightarrow> shutdown" where
  "dispose s = s\<lparr>listening := (listening s \<and> \<not> has_off s), graceTimer := False\<rparr>"

datatype shutdown_event = Signal string | Drain_settled | Grace_fires | Wait | Dispose

text \<open>What the process can deliver: a signal while the handlers are installed, the settling of a
  drain that runs, the grace timer while it is armed.\<close>

fun shutdown_step :: "shutdown \<Rightarrow> shutdown_event \<Rightarrow> shutdown" where
  "shutdown_step s (Signal sig) = (if listening s then handle_signal sig s else s)"
| "shutdown_step s Drain_settled = (if drain_running s then drain_settled s else s)"
| "shutdown_step s Grace_fires =
     (if graceTimer s then finish \<lparr>result_signal = GRACE_TIMEOUT, drainedCleanly = False\<rparr> s else s)"
| "shutdown_step s Wait = wait_for_shutdown s"
| "shutdown_step s Dispose = dispose s"

definition run_shutdown :: "bool \<Rightarrow> shutdown_event list \<Rightarrow> shutdown" where
  "run_shutdown exit_hook es = foldl shutdown_step (new_shutdown exit_hook True) es"

section \<open>What decides a shutdown\<close>

text \<open>
  The first signal starts the drain; the first of these then decides: the callbacks settle, a
  second signal, the grace period ends.  After \<open>dispose\<close> only the callbacks count.
\<close>

fun decide :: "string \<Rightarrow> bool \<Rightarrow> shutdown_event list \<Rightarrow> shutdown_result option" where
  "decide sig live [] = None"
| "decide sig live (Drain_settled # es) = Some \<lparr>result_signal = Signal_cause sig, drainedCleanly = True\<rparr>"
| "decide sig live (Signal s # es) =
     (if live then Some \<lparr>result_signal = Signal_cause s, drainedCleanly = False\<rparr> else decide sig live es)"
| "decide sig live (Grace_fires # es) =
     (if live then Some \<lparr>result_signal = GRACE_TIMEOUT, drainedCleanly = False\<rparr> else decide sig live es)"
| "decide sig live (Wait # es) = decide sig live es"
| "decide sig live (Dispose # es) = decide sig False es"

fun verdict :: "shutdown_event list \<Rightarrow> shutdown_result option" where
  "verdict [] = None"
| "verdict (Signal s # es) = decide s True es"
| "verdict (Dispose # es) = None"
| "verdict (_ # es) = verdict es"

definition promised :: "shutdown \<Rightarrow> shutdown_result option" where
  "promised s = Option.bind (shutdownPromise s) id"

lemma done_stays:
  "sd_phase s = Finished \<Longrightarrow> promised s = Some r \<Longrightarrow>
     promised (foldl shutdown_step s es) = Some r \<and> sd_phase (foldl shutdown_step s es) = Finished \<and>
     exit_codes (foldl shutdown_step s es) = exit_codes s"
proof (induction es arbitrary: s)
  case (Cons e es)
  have "sd_phase (shutdown_step s e) = Finished \<and> promised (shutdown_step s e) = Some r \<and>
      exit_codes (shutdown_step s e) = exit_codes s"
    using Cons.prems
    by (cases e) (auto simp: handle_signal_def drain_settled_def finish_def wait_for_shutdown_def dispose_def promised_def
        dest!: bind_eq_Some_conv [THEN iffD1])
  with Cons.IH show ?case by simp
qed simp

definition unresolved :: "shutdown \<Rightarrow> bool" where
  "unresolved s \<longleftrightarrow> (shutdownPromise s = None \<or> shutdownPromise s = Some None) \<and> exit_codes s = []"

definition settled_as :: "bool \<Rightarrow> shutdown \<Rightarrow> shutdown_result option \<Rightarrow> bool" where
  "settled_as exit_hook s v \<longleftrightarrow> promised s = v \<and>
     exit_codes s = (case v of None \<Rightarrow> [] | Some r \<Rightarrow> if exit_hook then [if drainedCleanly r then 0 else 1] else [])"

lemma wait_frame [simp]:
  "sd_phase (wait_for_shutdown s) = sd_phase s" "firstSignal (wait_for_shutdown s) = firstSignal s"
  "drain_running (wait_for_shutdown s) = drain_running s" "graceTimer (wait_for_shutdown s) = graceTimer s"
  "listening (wait_for_shutdown s) = listening s" "has_off (wait_for_shutdown s) = has_off s"
  "has_exit (wait_for_shutdown s) = has_exit s" "unresolved s \<Longrightarrow> unresolved (wait_for_shutdown s)"
  by (simp_all add: wait_for_shutdown_def unresolved_def)

lemma finish_settles:
  assumes "unresolved s" "sd_phase s \<noteq> Finished"
  shows "settled_as (has_exit s) (foldl shutdown_step (finish r s) es) (Some r)"
proof -
  have f: "promised (finish r s) = Some r" "sd_phase (finish r s) = Finished"
    "exit_codes (finish r s) = (if has_exit s then [if drainedCleanly r then 0 else 1] else [])"
    using assms by (auto simp: finish_def unresolved_def promised_def)
  then show ?thesis using done_stays [OF f(2,1), of es] by (simp add: settled_as_def)
qed

lemma draining_decides:
  "sd_phase s = Draining \<Longrightarrow> firstSignal s = Some sig \<Longrightarrow> drain_running s \<Longrightarrow> has_off s \<Longrightarrow>
     graceTimer s = listening s \<Longrightarrow> unresolved s \<Longrightarrow>
     settled_as (has_exit s) (foldl shutdown_step s es) (decide sig (listening s) es)"
proof (induction es arbitrary: s)
  case Nil
  then show ?case by (auto simp: settled_as_def unresolved_def promised_def)
next
  case (Cons e es)
  show ?case
  proof (cases e)
    case (Signal x)
    then show ?thesis using Cons.prems Cons.IH [of s] finish_settles [of s "\<lparr>result_signal = Signal_cause x, drainedCleanly = False\<rparr>" es]
      by (cases "listening s") (simp_all add: handle_signal_def)
  next
    case Drain_settled
    then show ?thesis
      using Cons.prems finish_settles [of "s\<lparr>drain_running := False\<rparr>" "\<lparr>result_signal = Signal_cause sig, drainedCleanly = True\<rparr>" es]
      by (simp add: drain_settled_def unresolved_def)
  next
    case Grace_fires
    then show ?thesis using Cons.prems Cons.IH [of s] finish_settles [of s "\<lparr>result_signal = GRACE_TIMEOUT, drainedCleanly = False\<rparr>" es]
      by (cases "listening s") simp_all
  next
    case Wait
    then show ?thesis using Cons.prems Cons.IH [of "wait_for_shutdown s"] by simp
  next
    case Dispose
    then show ?thesis using Cons.prems Cons.IH [of "dispose s"] by (simp add: dispose_def unresolved_def)
  qed
qed

lemma idle_decides:
  "sd_phase s = Idle \<Longrightarrow> \<not> drain_running s \<Longrightarrow> \<not> graceTimer s \<Longrightarrow> has_off s \<Longrightarrow> unresolved s \<Longrightarrow>
     settled_as (has_exit s) (foldl shutdown_step s es) (if listening s then verdict es else None)"
proof (induction es arbitrary: s)
  case Nil
  then show ?case by (auto simp: settled_as_def unresolved_def promised_def)
next
  case (Cons e es)
  show ?case
  proof (cases e)
    case (Signal x)
    show ?thesis
    proof (cases "listening s")
      case True
      then show ?thesis using Signal Cons.prems draining_decides [of "handle_signal x s" x es]
        by (simp add: handle_signal_def unresolved_def)
    next
      case False
      then show ?thesis using Signal Cons.prems Cons.IH [of s] by simp
    qed
  next
    case Wait
    then show ?thesis using Cons.prems Cons.IH [of "wait_for_shutdown s"] by (cases "listening s") simp_all
  next
    case Dispose
    then show ?thesis using Cons.prems Cons.IH [of "dispose s"] by (simp add: dispose_def unresolved_def)
  qed (use Cons.prems Cons.IH [of s] in \<open>cases "listening s"; simp\<close>)+
qed

text \<open>
  A shutdown is decided once and by the first thing that can: whatever the order of
  signals, settling callbacks, grace timer, waiters and \<open>dispose\<close>, the promise carries exactly
  the verdict of the first decisive event, later events change nothing, and the exit hook is
  called once with the code that goes with it, or never while nothing has been decided.
\<close>

theorem shutdown_is_decided_once:
  "promised (run_shutdown exit_hook es) = verdict es \<and>
   exit_codes (run_shutdown exit_hook es) =
     (case verdict es of None \<Rightarrow> [] | Some r \<Rightarrow> if exit_hook then [if drainedCleanly r then 0 else 1] else [])"
  using idle_decides [of "new_shutdown exit_hook True" es]
  by (simp add: run_shutdown_def new_shutdown_def unresolved_def settled_as_def)

end
