(* ===== verification/Idempotency_Store.thy ===== *)
theory Idempotency_Store
  imports Prelude
begin

text \<open>
  The router's dispatch log, \<open>packages/wft-router/src/dispatch/idempotency-store.ts\<close>: one row per
  rule and event, written PENDING before a handler runs and moved to a final status after it.
  The table is the list of its rows in insertion order; each method is one transaction, so a
  history of calls by any number of callers is a sequence of steps.
\<close>

section \<open>Rows and operations\<close>

datatype dispatch_status = PENDING | SUCCEEDED | FAILED | PERMANENTLY_FAILED | SUPERSEDED

datatype claim_result = CLAIMED | ALREADY_PENDING | ALREADY_DONE dispatch_status

record dispatch_row =
  row_rule :: string
  row_event :: string
  row_status :: dispatch_status
  rendered_json :: string
  started_at_ms :: int
  completed_at_ms :: "int option"
  row_task :: "int option"
  row_to_status :: "string option"
  emitted_at_minute :: "int option"

record claim_input =
  ci_rule :: string
  ci_event :: string
  ci_json :: string
  ci_task :: "int option"
  ci_to_status :: "string option"
  ci_emitted_at :: "int option"

type_synonym dispatch_log = "dispatch_row list"

definition DEFAULT_WINDOW_MS :: int where "DEFAULT_WINDOW_MS = 3600 * 1000"

definition minute_bucket :: "int \<Rightarrow> int" where "minute_bucket ms = ms div 60000"

abbreviation has_key :: "string \<Rightarrow> string \<Rightarrow> dispatch_row \<Rightarrow> bool" where
  "has_key rule event r \<equiv> row_rule r = rule \<and> row_event r = event"

definition store_claim :: "int \<Rightarrow> claim_input \<Rightarrow> dispatch_log \<Rightarrow> claim_result \<times> dispatch_log" where
  "store_claim now ci rows =
     (case find (has_key (ci_rule ci) (ci_event ci)) rows of
        Some r \<Rightarrow> (if row_status r = PENDING then ALREADY_PENDING else ALREADY_DONE (row_status r), rows)
      | None \<Rightarrow> (CLAIMED,
          rows @ [\<lparr>row_rule = ci_rule ci, row_event = ci_event ci, row_status = PENDING, rendered_json = ci_json ci,
                   started_at_ms = now, completed_at_ms = None, row_task = ci_task ci, row_to_status = ci_to_status ci,
                   emitted_at_minute = map_option minute_bucket (ci_emitted_at ci)\<rparr>]))"

definition finish_row :: "dispatch_status \<Rightarrow> int \<Rightarrow> dispatch_row \<Rightarrow> dispatch_row" where
  "finish_row st now r = r\<lparr>row_status := st, completed_at_ms := Some now\<rparr>"

definition store_complete :: "int \<Rightarrow> string \<Rightarrow> string \<Rightarrow> dispatch_status \<Rightarrow> dispatch_log \<Rightarrow> bool \<times> dispatch_log" where
  "store_complete now rule event st rows =
     (if st = PENDING then (False, rows)
      else let hit = (\<lambda>r. has_key rule event r \<and> row_status r = PENDING) in
        (list_ex hit rows, map (\<lambda>r. if hit r then finish_row st now r else r) rows))"

text \<open>\<open>replayPending\<close> reads the clock twice: for the cut-off and for the completion time.\<close>

definition replay_pending :: "int \<Rightarrow> int \<Rightarrow> int \<Rightarrow> dispatch_log \<Rightarrow> dispatch_row list \<times> dispatch_log" where
  "replay_pending window_ms now now' rows =
     (let cutoff = now - window_ms;
          rows' = map (\<lambda>r. if row_status r = PENDING \<and> started_at_ms r < cutoff
                           then finish_row PERMANENTLY_FAILED now' r else r) rows
      in (sort_key started_at_ms (filter (\<lambda>r. row_status r = PENDING \<and> started_at_ms r \<ge> cutoff) rows'), rows'))"

definition lookup_by_secondary_key :: "string \<Rightarrow> int \<Rightarrow> string \<Rightarrow> int \<Rightarrow> dispatch_log \<Rightarrow> string option" where
  "lookup_by_secondary_key rule task to_status emitted_at rows =
     map_option row_event (find (\<lambda>r. row_rule r = rule \<and> row_task r = Some task \<and> row_to_status r = Some to_status \<and>
       emitted_at_minute r = Some (minute_bucket emitted_at) \<and> row_status r = SUCCEEDED) rows)"

section \<open>Histories\<close>

datatype store_op =
  Claim_op int claim_input
| Complete_op int string string dispatch_status
| Replay_op int int int

fun store_step :: "dispatch_log \<Rightarrow> store_op \<Rightarrow> dispatch_log" where
  "store_step rows (Claim_op now ci) = snd (store_claim now ci rows)"
| "store_step rows (Complete_op now rule event st) = snd (store_complete now rule event st rows)"
| "store_step rows (Replay_op window now now') = snd (replay_pending window now now' rows)"

fun wins :: "string \<Rightarrow> string \<Rightarrow> dispatch_log \<Rightarrow> store_op \<Rightarrow> bool" where
  "wins rule event rows (Claim_op now ci) \<longleftrightarrow>
     ci_rule ci = rule \<and> ci_event ci = event \<and> fst (store_claim now ci rows) = CLAIMED"
| "wins rule event rows _ \<longleftrightarrow> False"

fun claims :: "string \<Rightarrow> string \<Rightarrow> store_op \<Rightarrow> bool" where
  "claims rule event (Claim_op now ci) \<longleftrightarrow> ci_rule ci = rule \<and> ci_event ci = event"
| "claims rule event _ \<longleftrightarrow> False"

fun times_won :: "string \<Rightarrow> string \<Rightarrow> dispatch_log \<Rightarrow> store_op list \<Rightarrow> nat" where
  "times_won rule event rows [] = 0"
| "times_won rule event rows (op # ops) =
     (if wins rule event rows op then 1 else 0) + times_won rule event (store_step rows op) ops"

definition run_store :: "dispatch_log \<Rightarrow> store_op list \<Rightarrow> dispatch_log" where
  "run_store rows ops = foldl store_step rows ops"

section \<open>Keys and statuses\<close>

definition known :: "string \<Rightarrow> string \<Rightarrow> dispatch_log \<Rightarrow> bool" where
  "known rule event rows \<longleftrightarrow> list_ex (has_key rule event) rows"

definition row_key :: "dispatch_row \<Rightarrow> string \<times> string" where
  "row_key r = (row_rule r, row_event r)"

lemma row_key_finish [simp]: "row_key (finish_row st now r) = row_key r"
  by (simp add: row_key_def finish_row_def)

lemma known_iff: "known rule event rows \<longleftrightarrow> (rule, event) \<in> row_key ` set rows"
  by (force simp: known_def list_ex_iff row_key_def)

lemma find_known: "find (has_key rule event) rows = None \<longleftrightarrow> \<not> known rule event rows"
  by (auto simp: known_def find_None_iff list_ex_iff)

lemma keys_complete [simp]: "map row_key (snd (store_complete now rule event st rows)) = map row_key rows"
  by (simp add: store_complete_def Let_def)

lemma keys_replay [simp]: "map row_key (snd (replay_pending w now now' rows)) = map row_key rows"
  by (simp add: replay_pending_def Let_def)

lemma keys_claim:
  "map row_key (snd (store_claim now ci rows)) =
     map row_key rows @ (if known (ci_rule ci) (ci_event ci) rows then [] else [(ci_rule ci, ci_event ci)])"
  using find_known [of "ci_rule ci" "ci_event ci" rows]
  by (auto simp: store_claim_def row_key_def split: option.split)

lemma claim_wins_iff: "fst (store_claim now ci rows) = CLAIMED \<longleftrightarrow> \<not> known (ci_rule ci) (ci_event ci) rows"
  using find_known [of "ci_rule ci" "ci_event ci" rows]
  by (auto simp: store_claim_def split: option.split)

lemma known_step:
  "known rule event (store_step rows op) \<longleftrightarrow> known rule event rows \<or> claims rule event op"
proof (cases op)
  case (Claim_op now ci)
  then show ?thesis
    unfolding known_iff set_map [symmetric] store_step.simps Claim_op keys_claim
    by (auto simp: known_iff)
qed (simp_all only: known_iff set_map [symmetric] store_step.simps keys_complete keys_replay claims.simps simp_thms)

lemma wins_iff: "wins rule event rows op \<longleftrightarrow> claims rule event op \<and> \<not> known rule event rows"
  by (cases op) (auto simp: claim_wins_iff)

lemma times_won_eq:
  "times_won rule event rows ops = (if \<not> known rule event rows \<and> list_ex (claims rule event) ops then 1 else 0)"
  by (induction ops arbitrary: rows) (auto simp: wins_iff known_step)

text \<open>
  A dispatch is handed out once: in every history of claims, completions and crash
  replays, a key that is claimed at all is won by exactly one claim, whatever the other
  operations do.
\<close>

theorem each_dispatch_is_won_once:
  "times_won rule event [] ops = (if list_ex (claims rule event) ops then 1 else 0)"
  by (simp add: times_won_eq known_def)

text \<open>What a step may do to a row: nothing, or finish it if it is pending.\<close>

definition row_progress :: "dispatch_row \<Rightarrow> dispatch_row \<Rightarrow> bool" where
  "row_progress r r' \<longleftrightarrow> r' = r \<or> (row_status r = PENDING \<and> (\<exists>st now. st \<noteq> PENDING \<and> r' = finish_row st now r))"

lemma row_progress_refl [simp]: "row_progress r r"
  by (simp add: row_progress_def)

lemma row_progress_trans: "row_progress r s \<Longrightarrow> row_progress s t \<Longrightarrow> row_progress r t"
  by (auto simp: row_progress_def finish_row_def)

definition log_progress :: "dispatch_log \<Rightarrow> dispatch_log \<Rightarrow> bool" where
  "log_progress rows rows' \<longleftrightarrow> list_all2 row_progress rows (take (length rows) rows')"

lemma log_progress_refl [simp]: "log_progress rows rows"
  by (simp add: log_progress_def list_all2_refl)

lemma log_progress_trans:
  assumes "log_progress rows rows'" "log_progress rows' rows''"
  shows "log_progress rows rows''"
proof -
  have len: "length rows \<le> length rows'" using list_all2_lengthD [OF assms(1) [unfolded log_progress_def]] by simp
  have "list_all2 row_progress (take (length rows) rows') (take (length rows) (take (length rows') rows''))"
    using assms(2) unfolding log_progress_def by (rule list_all2_takeI)
  then have "list_all2 row_progress (take (length rows) rows') (take (length rows) rows'')"
    using len by (simp add: min_absorb1)
  with assms(1) show ?thesis unfolding log_progress_def
    by (rule list_all2_trans [rotated]) (rule row_progress_trans)
qed

lemma log_progress_map: "(\<And>r. row_progress r (f r)) \<Longrightarrow> log_progress rows (map f rows)"
  by (simp add: log_progress_def list_all2_conv_all_nth)

lemma step_progress: "log_progress rows (store_step rows op)"
proof (cases op)
  case (Claim_op now ci)
  then show ?thesis by (auto simp: store_claim_def log_progress_def list_all2_refl split: option.split)
next
  case (Complete_op now rule event st)
  show ?thesis
  proof (cases "st = PENDING")
    case False
    then show ?thesis unfolding Complete_op store_step.simps store_complete_def Let_def
      by (simp, intro log_progress_map) (auto simp: row_progress_def)
  qed (simp add: Complete_op store_complete_def)
next
  case (Replay_op w now now')
  then show ?thesis unfolding Replay_op store_step.simps replay_pending_def Let_def
    by (simp, intro log_progress_map) (auto simp: row_progress_def)
qed

lemma run_progress: "log_progress rows (run_store rows ops)"
proof (induction ops arbitrary: rows)
  case (Cons op ops)
  show ?case using log_progress_trans [OF step_progress Cons.IH] by (simp add: run_store_def)
qed (simp add: run_store_def)

lemma distinct_keys_step: "distinct (map row_key rows) \<Longrightarrow> distinct (map row_key (store_step rows op))"
proof (cases op)
  case (Claim_op now ci)
  assume "distinct (map row_key rows)"
  then show ?thesis unfolding Claim_op store_step.simps keys_claim by (auto simp: known_iff)
qed (simp_all only: store_step.simps keys_complete keys_replay)

lemma distinct_keys_run: "distinct (map row_key rows) \<Longrightarrow> distinct (map row_key (run_store rows ops))"
  unfolding run_store_def by (induction ops arbitrary: rows) (simp_all add: distinct_keys_step)

text \<open>
  The log is a faithful history: keys stay unique, no row disappears or moves, and a row
  changes only once, from PENDING to a final status with its completion time.
\<close>

theorem rows_change_only_once:
  "distinct (map row_key (run_store [] ops)) \<and> log_progress (run_store [] ops) (run_store [] (ops @ later))"
proof
  show "distinct (map row_key (run_store [] ops))" by (rule distinct_keys_run) simp
  have "run_store [] (ops @ later) = run_store (run_store [] ops) later" by (simp add: run_store_def)
  then show "log_progress (run_store [] ops) (run_store [] (ops @ later))" by (simp add: run_progress)
qed

lemma finish_row_status [simp]: "row_status (finish_row st now r) = st"
  by (simp add: finish_row_def)

text \<open>
  A crash replay loses nothing and repeats nothing old: it returns exactly the rows still
  pending that were started inside the window, oldest first; afterwards no older row is pending,
  and every row it did not abandon is as it was.
\<close>

theorem replay_returns_the_live_rows:
  "case replay_pending window_ms now now' rows of (live, rows') \<Rightarrow>
     set live = {r \<in> set rows. row_status r = PENDING \<and> now - window_ms \<le> started_at_ms r} \<and>
     sorted (map started_at_ms live) \<and>
     {r \<in> set rows'. row_status r = PENDING} = set live \<and>
     {r \<in> set rows. row_status r \<noteq> PENDING} \<subseteq> set rows' \<and>
     length rows' = length rows"
proof -
  let ?f = "\<lambda>r. if row_status r = PENDING \<and> started_at_ms r < now - window_ms
                then finish_row PERMANENTLY_FAILED now' r else r"
  let ?P = "\<lambda>r. row_status r = PENDING \<and> now - window_ms \<le> started_at_ms r"
  have "set (filter ?P (map ?f rows)) = {r \<in> set rows. ?P r}"
    by (auto split: if_splits)
  moreover have "{r \<in> set (map ?f rows). row_status r = PENDING} = {r \<in> set rows. ?P r}"
    by (auto split: if_splits)
  moreover have "{r \<in> set rows. row_status r \<noteq> PENDING} \<subseteq> set (map ?f rows)"
    by (force simp: image_iff)
  ultimately show ?thesis unfolding replay_pending_def Let_def by simp
qed

end
