(* ===== verification/Json_Text.thy ===== *)
theory Json_Text
  imports Prelude "HOL-Library.Word"
begin

text \<open>
  JSON values as the router's configuration and events carry them, and text as Unicode code
  points with its UTF-8 encoding, which the templating rules measure lengths in.
\<close>

unbundle bit_operations_syntax

section \<open>Text\<close>

type_synonym utext = "nat list"
type_synonym byte = "8 word"

definition u :: "string \<Rightarrow> utext" where
  "u s = map of_char s"

definition valid_code_point :: "nat \<Rightarrow> bool" where
  "valid_code_point c \<longleftrightarrow> c < 0x110000 \<and> \<not> (0xD800 \<le> c \<and> c < 0xE000)"

definition valid_text :: "utext \<Rightarrow> bool" where
  "valid_text s = list_all valid_code_point s"

definition byte_of :: "nat \<Rightarrow> byte" where
  "byte_of n = of_nat n"

definition encode_point :: "nat \<Rightarrow> byte list" where
  "encode_point c =
     (if c < 0x80 then [byte_of c]
      else if c < 0x800 then [byte_of (0xC0 + c div 64), byte_of (0x80 + c mod 64)]
      else if c < 0x10000 then
        [byte_of (0xE0 + c div 4096), byte_of (0x80 + c div 64 mod 64), byte_of (0x80 + c mod 64)]
      else [byte_of (0xF0 + c div 262144), byte_of (0x80 + c div 4096 mod 64),
            byte_of (0x80 + c div 64 mod 64), byte_of (0x80 + c mod 64)])"

definition utf8 :: "utext \<Rightarrow> byte list" where
  "utf8 s = concat (map encode_point s)"

definition continuation :: "byte \<Rightarrow> bool" where
  "continuation b \<longleftrightarrow> b AND 0xC0 = 0x80"

text \<open>
  Decoding reads the number of continuation bytes off the leading byte; a byte that starts no
  complete sequence becomes the replacement character.
\<close>

definition tail_length :: "byte \<Rightarrow> nat option" where
  "tail_length b =
     (if b < 0x80 then Some 0 else if b < 0xC0 then None else if b < 0xE0 then Some 1
      else if b < 0xF0 then Some 2 else if b < 0xF8 then Some 3 else None)"

definition leading_bits :: "byte \<Rightarrow> nat \<Rightarrow> nat" where
  "leading_bits b n = (if n = 0 then unat b else unat b mod 2 ^ (6 - n))"

fun decode :: "nat \<Rightarrow> byte list \<Rightarrow> utext" where
  "decode 0 bs = []"
| "decode (Suc fuel) [] = []"
| "decode (Suc fuel) (b # bs) =
     (case tail_length b of
        None \<Rightarrow> 0xFFFD # decode fuel bs
      | Some n \<Rightarrow>
          if n \<le> length bs \<and> list_all continuation (take n bs)
          then foldl (\<lambda>c x. 64 * c + unat x mod 64) (leading_bits b n) (take n bs) # decode fuel (drop n bs)
          else 0xFFFD # decode fuel bs)"

definition utf8_decode :: "byte list \<Rightarrow> utext" where
  "utf8_decode bs = decode (length bs) bs"

section \<open>Encoding and decoding\<close>

lemma unat_byte_of: "n < 256 \<Longrightarrow> unat (byte_of n) = n"
  by (simp add: byte_of_def unat_of_nat)

lemma byte_less: "n < 256 \<Longrightarrow> byte_of n < k \<longleftrightarrow> n < unat k"
  by (simp add: word_less_nat_alt unat_byte_of)

lemma continuation_table: "list_all (\<lambda>n. continuation (byte_of n) = (128 \<le> n \<and> n < 192)) [0..<256]"
  by code_simp

lemma continuation_byte_of: "n < 256 \<Longrightarrow> continuation (byte_of n) \<longleftrightarrow> 128 \<le> n \<and> n < 192"
  using continuation_table by (simp add: list_all_iff)

lemma lead_bits:
  "k < 32 \<Longrightarrow> (192 + k) mod 32 = k" "k < 16 \<Longrightarrow> (224 + k) mod 16 = k" "k < 8 \<Longrightarrow> (240 + k) mod 8 = k"
  "k < 64 \<Longrightarrow> (128 + k) mod 64 = k" for k :: nat
  using mod_mult_self1 [of k 6 32] mod_mult_self1 [of k 14 16] mod_mult_self1 [of k 30 8] mod_mult_self1 [of k 2 64]
  by (simp_all add: add.commute)

lemma sextets:
  "64 * (64 * (c div 4096) + c div 64 mod 64) + c mod 64 = c"
  "64 * (64 * (64 * (c div 262144) + c div 4096 mod 64) + c div 64 mod 64) + c mod 64 = c" for c :: nat
proof -
  have "c div 4096 = c div 64 div 64" "c div 262144 = c div 64 div 64 div 64" by (simp_all add: div_mult2_eq [symmetric])
  then show "64 * (64 * (c div 4096) + c div 64 mod 64) + c mod 64 = c"
    "64 * (64 * (64 * (c div 262144) + c div 4096 mod 64) + c div 64 mod 64) + c mod 64 = c" by simp_all
qed

text \<open>A code point is a leading byte that tells how many continuation bytes follow.\<close>

lemma encode_point_cases:
  assumes "valid_code_point c"
  obtains b bs where "encode_point c = b # bs" "\<not> continuation b" "list_all continuation bs"
    "tail_length b = Some (length bs)" "foldl (\<lambda>c x. 64 * c + unat x mod 64) (leading_bits b (length bs)) bs = c"
proof -
  have c: "c < 0x110000" using assms by (simp add: valid_code_point_def)
  consider "c < 0x80" | "\<not> c < 0x80" "c < 0x800" | "\<not> c < 0x800" "c < 0x10000" | "\<not> c < 0x10000"
    by linarith
  then show thesis
  proof cases
    case 1
    then show thesis
      by (intro that [of "byte_of c" "[]"])
        (simp_all add: encode_point_def continuation_byte_of tail_length_def byte_less leading_bits_def unat_byte_of)
  next
    case 2
    then have "c div 64 < 32" by simp
    moreover have m: "(192 + c div 64) mod 32 = c div 64" "(128 + c mod 64) mod 64 = c mod 64"
      using \<open>c div 64 < 32\<close> by (simp_all add: lead_bits)
    ultimately show thesis using 2
      by (intro that [of "byte_of (0xC0 + c div 64)" "[byte_of (0x80 + c mod 64)]"])
        (simp_all add: encode_point_def continuation_byte_of tail_length_def byte_less leading_bits_def unat_byte_of m)
  next
    case 3
    then have "c div 4096 < 16" by simp
    moreover have "64 * (64 * (c div 4096) + c div 64 mod 64) + c mod 64 = c" by (rule sextets)
    ultimately show thesis using 3
      by (intro that [of "byte_of (0xE0 + c div 4096)" "[byte_of (0x80 + c div 64 mod 64), byte_of (0x80 + c mod 64)]"])
        (simp_all add: encode_point_def continuation_byte_of tail_length_def byte_less leading_bits_def unat_byte_of lead_bits)
  next
    case 4
    then have "c div 262144 < 8" using c by simp
    moreover have "64 * (64 * (64 * (c div 262144) + c div 4096 mod 64) + c div 64 mod 64) + c mod 64 = c" by (rule sextets)
    ultimately show thesis using 4
      by (intro that [of "byte_of (0xF0 + c div 262144)"
            "[byte_of (0x80 + c div 4096 mod 64), byte_of (0x80 + c div 64 mod 64), byte_of (0x80 + c mod 64)]"])
        (simp_all add: encode_point_def continuation_byte_of tail_length_def byte_less leading_bits_def unat_byte_of lead_bits)
  qed
qed

lemma utf8_simps [simp]: "utf8 [] = []" "utf8 (c # s) = encode_point c @ utf8 s" "utf8 (s @ t) = utf8 s @ utf8 t"
  by (simp_all add: utf8_def)

lemma valid_text_simps [simp]: "valid_text []" "valid_text (c # s) \<longleftrightarrow> valid_code_point c \<and> valid_text s"
  "valid_text (s @ t) \<longleftrightarrow> valid_text s \<and> valid_text t"
  by (simp_all add: valid_text_def)

lemma decode_utf8: "valid_text s \<Longrightarrow> length (utf8 s) \<le> fuel \<Longrightarrow> decode fuel (utf8 s) = s"
proof (induction s arbitrary: fuel)
  case Nil
  then show ?case by (cases fuel) simp_all
next
  case (Cons c s)
  obtain b bs where e: "encode_point c = b # bs" "list_all continuation bs" "tail_length b = Some (length bs)"
    "foldl (\<lambda>c x. 64 * c + unat x mod 64) (leading_bits b (length bs)) bs = c"
    using encode_point_cases [of c] Cons.prems(1) by (metis valid_text_simps(2))
  then obtain f where f: "fuel = Suc f" using Cons.prems(2) by (cases fuel) auto
  have "length (utf8 s) \<le> f" using Cons.prems(2) e f by simp
  with Cons.IH Cons.prems(1) have "decode f (utf8 s) = s" by simp
  with e f show ?case by simp
qed

lemma utf8_round_trip: "valid_text s \<Longrightarrow> utf8_decode (utf8 s) = s"
  by (simp add: utf8_decode_def decode_utf8)

lemma encode_point_not_Nil [simp]: "encode_point c \<noteq> []"
  by (simp add: encode_point_def)

section \<open>JSON values\<close>

datatype json =
  JNull
| JBool bool
| JNum rat
| JStr utext
| JArr "json list"
| JObj "(utext \<times> json) list"

end
