(* ===== verification/Template.thy ===== *)
theory Template
  imports Json_Text
begin

text \<open>
  The templating renderer of the router, \<open>packages/wft-router/src/dispatch/template.ts\<close>: every
  string of a \<open>with:\<close> block that is one \<open>{{task.path}}\<close> token is replaced by the value the path
  leads to in the event's task; a token inside other text is an error; long strings are cut in
  the middle at code-point boundaries.  What an object inherits from its prototype is the
  argument \<open>inherited\<close>.  The warnings are not modelled.
\<close>

section \<open>Tokens\<close>

datatype templating_error = Templating_error utext

record render_context =
  rc_task :: "json option"
  strip_chat_controls :: bool
  max_value_bytes :: nat
  head_bytes :: nat
  tail_bytes :: nat

definition render_defaults :: "json option \<Rightarrow> render_context" where
  "render_defaults task = \<lparr>rc_task = task, strip_chat_controls = False, max_value_bytes = 4096,
     head_bytes = 2048, tail_bytes = 2048\<rparr>"

definition path_char :: "nat \<Rightarrow> bool" where
  "path_char c \<longleftrightarrow> (97 \<le> c \<and> c \<le> 122) \<or> (65 \<le> c \<and> c \<le> 90) \<or> (48 \<le> c \<and> c \<le> 57) \<or> c = 95 \<or> c = 46"

text \<open>The captured path of a string that is one token, and whether a string holds any token.\<close>

definition pure_substitution :: "utext \<Rightarrow> utext option" where
  "pure_substitution raw =
     (let body = drop 7 raw; path = take (length body - 2) body in
      if take 7 raw = u ''{{task.'' \<and> path \<noteq> [] \<and> list_all path_char path \<and> drop (length path) body = u ''}}''
      then Some path else None)"

definition opens_token :: "utext \<Rightarrow> bool" where
  "opens_token s \<longleftrightarrow> take 2 s = u ''{{'' \<and> take 2 (dropWhile (\<lambda>c. c \<noteq> 125) (drop 2 s)) = u ''}}''"

fun token_present :: "utext \<Rightarrow> bool" where
  "token_present [] \<longleftrightarrow> False"
| "token_present (c # s) \<longleftrightarrow> opens_token (c # s) \<or> token_present s"

section \<open>Paths\<close>

definition get_property :: "(json \<Rightarrow> utext \<Rightarrow> json option) \<Rightarrow> json \<Rightarrow> utext \<Rightarrow> json option" where
  "get_property inherited v seg =
     (case v of
        JObj kvs \<Rightarrow> (case map_of kvs seg of Some x \<Rightarrow> Some x | None \<Rightarrow> inherited v seg)
      | JArr xs \<Rightarrow>
          (if seg = u ''length'' then Some (JNum (of_nat (length xs)))
           else case find (\<lambda>i. u (digits_of i) = seg) [0..<length xs] of
             Some i \<Rightarrow> Some (xs ! i) | None \<Rightarrow> inherited v seg)
      | _ \<Rightarrow> None)"

fun resolve_segments :: "(json \<Rightarrow> utext \<Rightarrow> json option) \<Rightarrow> json option \<Rightarrow> utext list \<Rightarrow> json option" where
  "resolve_segments inherited current [] = current"
| "resolve_segments inherited None (seg # segs) = None"
| "resolve_segments inherited (Some v) (seg # segs) =
     (case v of
        JObj _ \<Rightarrow> resolve_segments inherited (get_property inherited v seg) segs
      | JArr _ \<Rightarrow> resolve_segments inherited (get_property inherited v seg) segs
      | _ \<Rightarrow> None)"

definition resolve_path :: "(json \<Rightarrow> utext \<Rightarrow> json option) \<Rightarrow> json option \<Rightarrow> utext \<Rightarrow> json option" where
  "resolve_path inherited task dotted = resolve_segments inherited task (split_on 46 dotted)"

section \<open>Truncation\<close>

function roll_forward :: "byte list \<Rightarrow> nat \<Rightarrow> nat" where
  "roll_forward buf i = (if i < length buf \<and> continuation (buf ! i) then roll_forward buf (i + 1) else i)"
  by auto
termination by (relation "measure (\<lambda>(buf, i). length buf - i)") auto

fun roll_back :: "byte list \<Rightarrow> nat \<Rightarrow> nat \<Rightarrow> nat" where
  "roll_back buf lo hi =
     (if lo < hi \<and> hi < length buf \<and> continuation (buf ! hi) then roll_back buf lo (hi - 1) else hi)"

declare roll_forward.simps [simp del] roll_back.simps [simp del]

definition slice_at_codepoint_boundary :: "byte list \<Rightarrow> int \<Rightarrow> int \<Rightarrow> utext" where
  "slice_at_codepoint_boundary buf from_byte to_byte =
     (let len = int (length buf);
          lo = nat (max 0 (min len from_byte));
          hi = nat (max (int lo) (min len to_byte));
          lo' = roll_forward buf lo;
          hi' = roll_back buf lo' hi
      in utf8_decode (take (hi' - lo') (drop lo' buf)))"

definition TRUNCATION_ELLIPSIS :: nat where "TRUNCATION_ELLIPSIS = 0x2026"

definition truncate_utf8 :: "utext \<Rightarrow> nat \<Rightarrow> nat \<Rightarrow> utext" where
  "truncate_utf8 s head tail =
     (let buf = utf8 s; n = int (length buf) in
      slice_at_codepoint_boundary buf 0 (int head) @ [TRUNCATION_ELLIPSIS] @
      slice_at_codepoint_boundary buf (n - int tail) n)"

function remove_all :: "utext \<Rightarrow> utext \<Rightarrow> utext" where
  "remove_all sep [] = []"
| "remove_all sep (c # s) =
     (if sep \<noteq> [] \<and> take (length sep) (c # s) = sep then remove_all sep (drop (length sep) (c # s))
      else c # remove_all sep s)"
  by pat_completeness auto
termination by (relation "measure (\<lambda>(sep, s). length s)") auto

definition CHAT_CONTROL_SEQUENCES :: "utext list" where
  "CHAT_CONTROL_SEQUENCES = [u ''<!'', u ''<@'', u ''<#'']"

definition apply_string_rules :: "render_context \<Rightarrow> utext \<Rightarrow> utext" where
  "apply_string_rules ctx v =
     (let s = if strip_chat_controls ctx then foldl (\<lambda>s sep. remove_all sep s) v CHAT_CONTROL_SEQUENCES else v in
      if length (utf8 s) \<le> max_value_bytes ctx then s
      else truncate_utf8 s (head_bytes ctx) (tail_bytes ctx))"

section \<open>Rendering\<close>

definition render_string ::
  "(json \<Rightarrow> utext \<Rightarrow> json option) \<Rightarrow> render_context \<Rightarrow> utext \<Rightarrow> templating_error + json" where
  "render_string inherited ctx raw =
     (case pure_substitution raw of
        Some path \<Rightarrow>
          (case resolve_path inherited (rc_task ctx) path of
             None \<Rightarrow> Inr JNull
           | Some (JStr s) \<Rightarrow> Inr (JStr (apply_string_rules ctx s))
           | Some v \<Rightarrow> Inr v)
      | None \<Rightarrow> if token_present raw then Inl (Templating_error raw) else Inr (JStr raw))"

fun walk :: "(json \<Rightarrow> utext \<Rightarrow> json option) \<Rightarrow> render_context \<Rightarrow> json \<Rightarrow> templating_error + json"
and walk_items :: "(json \<Rightarrow> utext \<Rightarrow> json option) \<Rightarrow> render_context \<Rightarrow> json list \<Rightarrow> templating_error + json list"
and walk_fields :: "(json \<Rightarrow> utext \<Rightarrow> json option) \<Rightarrow> render_context \<Rightarrow> (utext \<times> json) list \<Rightarrow> templating_error + (utext \<times> json) list" where
  "walk inherited ctx (JStr s) = render_string inherited ctx s"
| "walk inherited ctx (JArr xs) = bind_result (walk_items inherited ctx xs) (\<lambda>ys. Inr (JArr ys))"
| "walk inherited ctx (JObj kvs) = bind_result (walk_fields inherited ctx kvs) (\<lambda>ys. Inr (JObj ys))"
| "walk inherited ctx JNull = Inr JNull"
| "walk inherited ctx (JBool b) = Inr (JBool b)"
| "walk inherited ctx (JNum n) = Inr (JNum n)"
| "walk_items inherited ctx [] = Inr []"
| "walk_items inherited ctx (x # xs) =
     bind_result (walk inherited ctx x) (\<lambda>y. bind_result (walk_items inherited ctx xs) (\<lambda>ys. Inr (y # ys)))"
| "walk_fields inherited ctx [] = Inr []"
| "walk_fields inherited ctx ((k, x) # kvs) =
     bind_result (walk inherited ctx x) (\<lambda>y. bind_result (walk_fields inherited ctx kvs) (\<lambda>ys. Inr ((k, y) # ys)))"

definition render_with ::
  "(json \<Rightarrow> utext \<Rightarrow> json option) \<Rightarrow> (utext \<times> json) list \<Rightarrow> json option \<Rightarrow> templating_error + (utext \<times> json) list" where
  "render_with inherited with_block task = walk_fields inherited (render_defaults task) with_block"

section \<open>Cuts at code points\<close>

lemma split_point:
  assumes "k \<le> length (utf8 s)"
  obtains p where "s = p" "k = length (utf8 p)"
  | p c q where "s = p @ c # q" "length (utf8 p) \<le> k" "k < length (utf8 p) + length (encode_point c)"
  using assms
proof (induction s arbitrary: k thesis)
  case (Cons c s)
  show ?case
  proof (cases "k < length (encode_point c)")
    case True
    then show ?thesis using Cons.prems(2) [of "[]" c s] by simp
  next
    case False
    then have "k - length (encode_point c) \<le> length (utf8 s)" using Cons.prems(3) by simp
    then show ?thesis
    proof (rule Cons.IH [rotated 2])
      fix p assume "s = p" "k - length (encode_point c) = length (utf8 p)"
      then show thesis using Cons.prems(1) [of "c # s"] False by simp
    next
      fix p d q
      assume "s = p @ d # q" "length (utf8 p) \<le> k - length (encode_point c)"
        "k - length (encode_point c) < length (utf8 p) + length (encode_point d)"
      then show thesis using Cons.prems(2) [of "c # p" d q] False by simp
    qed
  qed
qed simp

lemma lead_at:
  assumes "valid_text (p @ c # q)"
  shows "\<not> continuation (utf8 (p @ c # q) ! length (utf8 p))"
proof -
  obtain b bs where "encode_point c = b # bs" "\<not> continuation b"
    using encode_point_cases [of c] assms by (metis valid_text_simps(2,3))
  then show ?thesis by (simp add: nth_append)
qed

lemma inner_at:
  assumes "valid_text (p @ c # q)" "length (utf8 p) < i" "i < length (utf8 p) + length (encode_point c)"
  shows "continuation (utf8 (p @ c # q) ! i)"
proof -
  obtain b bs where e: "encode_point c = b # bs" "list_all continuation bs"
    using encode_point_cases [of c] assms by (metis valid_text_simps(2,3))
  obtain j where j: "i = length (utf8 p) + Suc j" using assms(2) by (metis less_iff_Suc_add add_Suc_right)
  then have "j < length bs" using assms(3) e by simp
  then have "utf8 (p @ c # q) ! i = bs ! j" using e j by (simp add: nth_append)
  then show ?thesis using e \<open>j < length bs\<close> by (simp add: list_all_length)
qed

lemma roll_back_to:
  assumes v: "valid_text (p @ c # q)" and lo: "lo \<le> length (utf8 p)"
  shows "length (utf8 p) \<le> hi \<Longrightarrow> hi < length (utf8 p) + length (encode_point c) \<Longrightarrow>
    roll_back (utf8 (p @ c # q)) lo hi = length (utf8 p)"
proof (induction hi)
  case 0
  then show ?case by (simp add: roll_back.simps)
next
  case (Suc hi)
  show ?case
  proof (cases "Suc hi = length (utf8 p)")
    case True
    then show ?thesis using lead_at [OF v] by (subst roll_back.simps) simp
  next
    case False
    then have "roll_back (utf8 (p @ c # q)) lo hi = length (utf8 p)" using Suc by simp
    moreover have "continuation (utf8 (p @ c # q) ! Suc hi)" using inner_at [OF v] Suc.prems False by simp
    moreover have "Suc hi < length (utf8 (p @ c # q))" using Suc.prems by simp
    ultimately show ?thesis using lo Suc.prems False by (subst roll_back.simps) simp
  qed
qed

lemma roll_forward_stops:
  assumes "valid_text (p @ q)"
  shows "roll_forward (utf8 (p @ q)) (length (utf8 p)) = length (utf8 p)"
proof (cases q)
  case (Cons c q')
  then show ?thesis using lead_at [of p c q'] assms by (subst roll_forward.simps) simp
qed (subst roll_forward.simps, simp)

lemma roll_forward_to:
  assumes v: "valid_text (p @ c # q)"
  shows "length (utf8 p) < i \<Longrightarrow> i \<le> length (utf8 p) + length (encode_point c) \<Longrightarrow>
    roll_forward (utf8 (p @ c # q)) i = length (utf8 p) + length (encode_point c)"
proof (induction "length (utf8 p) + length (encode_point c) - i" arbitrary: i)
  case 0
  then have "i = length (utf8 (p @ [c]))" by simp
  then show ?case using roll_forward_stops [of "p @ [c]" q] v by simp
next
  case (Suc k)
  then have "roll_forward (utf8 (p @ c # q)) (i + 1) = length (utf8 p) + length (encode_point c)" by simp
  moreover have "continuation (utf8 (p @ c # q) ! i)" using inner_at [OF v, of i] Suc by simp
  moreover have "i < length (utf8 (p @ c # q))" using Suc by simp
  ultimately show ?case by (subst roll_forward.simps) simp
qed

lemma slice_head:
  assumes "valid_text s"
  obtains p q where "s = p @ q" "slice_at_codepoint_boundary (utf8 s) 0 (int h) = p" "length (utf8 p) \<le> h"
    "q \<noteq> [] \<Longrightarrow> h < length (utf8 p) + length (encode_point (hd q))"
proof -
  let ?n = "length (utf8 s)"
  let ?hi = "min ?n h"
  have slice: "slice_at_codepoint_boundary (utf8 s) 0 (int h) = utf8_decode (take (roll_back (utf8 s) 0 ?hi) (utf8 s))"
  proof -
    have "nat (max 0 (min (int ?n) 0)) = 0" "nat (max (int 0) (min (int ?n) (int h))) = ?hi" by linarith+
    moreover have "roll_forward (utf8 s) 0 = 0" using roll_forward_stops [of "[]" s] assms by simp
    ultimately show ?thesis unfolding slice_at_codepoint_boundary_def Let_def by simp
  qed
  have "?hi \<le> ?n" by simp
  then show thesis
  proof (cases rule: split_point)
    case (1 p)
    have "roll_back (utf8 s) 0 ?hi = ?n" using 1 by (subst roll_back.simps) simp
    then show thesis using that [of s "[]"] slice utf8_round_trip [OF assms] 1 by simp
  next
    case (2 p c q)
    have v: "valid_text (p @ c # q)" "valid_text p" using assms 2 by simp_all
    have "roll_back (utf8 s) 0 ?hi = length (utf8 p)" using roll_back_to [OF v(1)] 2 by simp
    then show thesis using that [of p "c # q"] slice utf8_round_trip [OF v(2)] 2 by simp
  qed
qed

lemma slice_tail:
  assumes "valid_text s"
  obtains p q where "s = p @ q" "slice_at_codepoint_boundary (utf8 s) (int (length (utf8 s)) - int t) (int (length (utf8 s))) = q"
    "length (utf8 q) \<le> t" "p \<noteq> [] \<Longrightarrow> t < length (utf8 q) + length (encode_point (last p))"
proof -
  let ?n = "length (utf8 s)"
  let ?lo = "?n - t"
  have lo: "nat (max 0 (min (int ?n) (int ?n - int t))) = ?lo" by simp
  have slice: "slice_at_codepoint_boundary (utf8 s) (int ?n - int t) (int ?n) =
      utf8_decode (take (?n - roll_forward (utf8 s) ?lo) (drop (roll_forward (utf8 s) ?lo) (utf8 s)))"
    unfolding slice_at_codepoint_boundary_def Let_def lo by (subst roll_back.simps) simp
  have "?lo \<le> ?n" by simp
  then show thesis
  proof (cases rule: split_point)
    case (1 p)
    have "t < length (encode_point (last s))" if "s \<noteq> []"
    proof -
      have "0 < ?n" using that by (cases s) simp_all
      moreover have "?n - t = ?n" using 1 by simp
      ultimately have "t = 0" by linarith
      then show ?thesis by simp
    qed
    then show thesis using that [of s "[]"] slice roll_forward_stops [of s "[]"] assms 1
      by (simp add: utf8_decode_def)
  next
    case (2 p c q)
    show thesis
    proof (cases "?lo = length (utf8 p)")
      case True
      have "roll_forward (utf8 s) ?lo = length (utf8 p)" using roll_forward_stops [of p "c # q"] assms 2 True by simp
      then have "slice_at_codepoint_boundary (utf8 s) (int ?n - int t) (int ?n) = c # q"
        using slice utf8_round_trip [of "c # q"] assms 2 by simp
      moreover have "length (utf8 (c # q)) \<le> t" using 2 True by simp
      moreover have "t < length (utf8 (c # q)) + length (encode_point (last p))" if "p \<noteq> []"
      proof -
        have "0 < length (utf8 p)" using that by (cases p) simp_all
        moreover have "length (utf8 p) + length (utf8 (c # q)) - t = length (utf8 p)" using 2 True by simp
        ultimately have "t = length (utf8 (c # q))" by linarith
        then show ?thesis by simp
      qed
      ultimately show thesis using that [of p "c # q"] 2 by blast
    next
      case False
      have "roll_forward (utf8 s) ?lo = length (utf8 (p @ [c]))" using roll_forward_to [of p c q] assms 2 False by simp
      then show thesis using that [of "p @ [c]" q] slice utf8_round_trip [of q] assms 2 False by simp
    qed
  qed
qed

lemma ellipsis_bytes [simp]: "length (encode_point TRUNCATION_ELLIPSIS) = 3"
  by (simp add: TRUNCATION_ELLIPSIS_def encode_point_def)

text \<open>
  Length limit of a substituted text: up to 4096 bytes of UTF-8 it is delivered as it is;
  a longer one becomes its longest prefix of at most 2048 bytes, an ellipsis and its longest
  suffix of at most 2048 bytes, in whole characters, 4099 bytes at most.
\<close>

theorem long_values_are_cut_cleanly:
  assumes "valid_text s"
  shows "let v = apply_string_rules (render_defaults task) s in
    (length (utf8 s) \<le> 4096 \<and> v = s) \<or>
    (4096 < length (utf8 s) \<and> length (utf8 v) \<le> 4099 \<and>
     (\<exists>head rest front tail. s = head @ rest \<and> s = front @ tail \<and> v = head @ [TRUNCATION_ELLIPSIS] @ tail \<and>
        length (utf8 head) \<le> 2048 \<and> 2048 < length (utf8 head) + length (encode_point (hd rest)) \<and>
        length (utf8 tail) \<le> 2048 \<and> 2048 < length (utf8 tail) + length (encode_point (last front))))"
proof (cases "length (utf8 s) \<le> 4096")
  case True
  then show ?thesis by (simp add: apply_string_rules_def render_defaults_def)
next
  case False
  obtain head rest where h: "s = head @ rest" "slice_at_codepoint_boundary (utf8 s) 0 (int 2048) = head"
    "length (utf8 head) \<le> 2048" "rest \<noteq> [] \<Longrightarrow> 2048 < length (utf8 head) + length (encode_point (hd rest))"
    using slice_head [OF assms] by metis
  obtain front tail where t: "s = front @ tail"
    "slice_at_codepoint_boundary (utf8 s) (int (length (utf8 s)) - int 2048) (int (length (utf8 s))) = tail"
    "length (utf8 tail) \<le> 2048" "front \<noteq> [] \<Longrightarrow> 2048 < length (utf8 tail) + length (encode_point (last front))"
    using slice_tail [OF assms] by metis
  let ?v = "head @ [TRUNCATION_ELLIPSIS] @ tail"
  have v: "apply_string_rules (render_defaults task) s = ?v"
    using False h(2) t(2) by (simp add: apply_string_rules_def render_defaults_def truncate_utf8_def Let_def)
  have ne: "rest \<noteq> []" "front \<noteq> []" using False h(1,3) t(1,3) by auto
  have "length (utf8 ?v) \<le> 4099" using h(3) t(3) by simp
  with False ne v h t show ?thesis unfolding Let_def by (metis not_le)
qed

theorem long_values_are_cut_cleanly_witness:
  "let v = apply_string_rules (render_defaults None) [0x61, 0x20AC] in
    (length (utf8 [0x61, 0x20AC]) \<le> 4096 \<and> v = [0x61, 0x20AC]) \<or>
    (4096 < length (utf8 [0x61, 0x20AC]) \<and> length (utf8 v) \<le> 4099 \<and>
     (\<exists>head rest front tail. [0x61, 0x20AC] = head @ rest \<and> [0x61, 0x20AC] = front @ tail \<and> v = head @ [TRUNCATION_ELLIPSIS] @ tail \<and>
        length (utf8 head) \<le> 2048 \<and> 2048 < length (utf8 head) + length (encode_point (hd rest)) \<and>
        length (utf8 tail) \<le> 2048 \<and> 2048 < length (utf8 tail) + length (encode_point (last front))))"
  by (rule long_values_are_cut_cleanly) (simp add: valid_code_point_def)

section \<open>What rendering does to a block\<close>

fun all_leaves :: "(utext \<Rightarrow> bool) \<Rightarrow> json \<Rightarrow> bool" and all_leaves_items :: "(utext \<Rightarrow> bool) \<Rightarrow> json list \<Rightarrow> bool"
and all_leaves_fields :: "(utext \<Rightarrow> bool) \<Rightarrow> (utext \<times> json) list \<Rightarrow> bool" where
  "all_leaves P (JStr s) \<longleftrightarrow> P s"
| "all_leaves P (JArr xs) \<longleftrightarrow> all_leaves_items P xs"
| "all_leaves P (JObj kvs) \<longleftrightarrow> all_leaves_fields P kvs"
| "all_leaves P _ \<longleftrightarrow> True"
| "all_leaves_items P [] \<longleftrightarrow> True"
| "all_leaves_items P (x # xs) \<longleftrightarrow> all_leaves P x \<and> all_leaves_items P xs"
| "all_leaves_fields P [] \<longleftrightarrow> True"
| "all_leaves_fields P ((k, x) # kvs) \<longleftrightarrow> all_leaves P x \<and> all_leaves_fields P kvs"

fun map_leaves :: "(utext \<Rightarrow> json) \<Rightarrow> json \<Rightarrow> json" and map_leaves_items :: "(utext \<Rightarrow> json) \<Rightarrow> json list \<Rightarrow> json list"
and map_leaves_fields :: "(utext \<Rightarrow> json) \<Rightarrow> (utext \<times> json) list \<Rightarrow> (utext \<times> json) list" where
  "map_leaves f (JStr s) = f s"
| "map_leaves f (JArr xs) = JArr (map_leaves_items f xs)"
| "map_leaves f (JObj kvs) = JObj (map_leaves_fields f kvs)"
| "map_leaves f JNull = JNull"
| "map_leaves f (JBool b) = JBool b"
| "map_leaves f (JNum n) = JNum n"
| "map_leaves_items f [] = []"
| "map_leaves_items f (x # xs) = map_leaves f x # map_leaves_items f xs"
| "map_leaves_fields f [] = []"
| "map_leaves_fields f ((k, x) # kvs) = (k, map_leaves f x) # map_leaves_fields f kvs"

definition leaf_ok :: "utext \<Rightarrow> bool" where
  "leaf_ok s \<longleftrightarrow> pure_substitution s \<noteq> None \<or> \<not> token_present s"

definition leaf_value :: "(json \<Rightarrow> utext \<Rightarrow> json option) \<Rightarrow> render_context \<Rightarrow> utext \<Rightarrow> json" where
  "leaf_value inherited ctx s = (case render_string inherited ctx s of Inr v \<Rightarrow> v | Inl _ \<Rightarrow> JStr s)"

lemma render_string_ok: "leaf_ok s \<Longrightarrow> render_string inherited ctx s = Inr (leaf_value inherited ctx s)"
  by (auto simp: leaf_ok_def leaf_value_def render_string_def split: option.split json.split)

lemma render_string_bad: "\<not> leaf_ok s \<Longrightarrow> render_string inherited ctx s = Inl (Templating_error s)"
  by (auto simp: leaf_ok_def render_string_def)

lemma walk_leaves:
  "(case walk inherited ctx x of
      Inr y \<Rightarrow> all_leaves leaf_ok x \<and> y = map_leaves (leaf_value inherited ctx) x
    | Inl e \<Rightarrow> \<not> all_leaves leaf_ok x)"
  "(case walk_items inherited ctx xs of
      Inr ys \<Rightarrow> all_leaves_items leaf_ok xs \<and> ys = map_leaves_items (leaf_value inherited ctx) xs
    | Inl e \<Rightarrow> \<not> all_leaves_items leaf_ok xs)"
  "(case walk_fields inherited ctx kvs of
      Inr ys \<Rightarrow> all_leaves_fields leaf_ok kvs \<and> ys = map_leaves_fields (leaf_value inherited ctx) kvs
    | Inl e \<Rightarrow> \<not> all_leaves_fields leaf_ok kvs)"
proof (induction inherited ctx x and inherited ctx xs and inherited ctx kvs rule: walk_walk_items_walk_fields.induct)
  case (1 inherited ctx s)
  then show ?case by (cases "leaf_ok s") (simp_all add: render_string_ok render_string_bad)
qed (auto split: sum.splits)

lemma render_with_leaves:
  "render_with inherited w task =
     (if all_leaves_fields leaf_ok w then Inr (map_leaves_fields (leaf_value inherited (render_defaults task)) w)
      else render_with inherited w task)"
  "(\<exists>r. render_with inherited w task = Inr r) \<longleftrightarrow> all_leaves_fields leaf_ok w"
  using walk_leaves(3) [where inherited = inherited and ctx = "render_defaults task" and kvs = w]
  by (auto simp: render_with_def split: sum.splits)

end
