(* ===== verification/Router_Predicate.thy ===== *)
theory Router_Predicate
  imports Prelude
begin

text \<open>
  The events the router routes and the \<open>where:\<close> clauses its rules filter them with
  (\<open>packages/wft-router/src/dispatch/predicate.ts\<close>), and the start-up sweep that applies a clause
  to the open backlog (\<open>dispatch/startup-sweep.ts\<close>).  A field a JavaScript object may lack is an
  option; \<open>null\<close> where it differs from absence is a second one.  The task-list query of the
  sweep is an argument: a function from its parameters to an answer or an error.
\<close>

section \<open>Events and clauses\<close>

record event_task =
  et_id :: "int option"
  et_project_id :: "int option"
  et_project_slug :: "string option"
  et_status :: "string option"
  et_tags :: "string list option"
  et_parent :: "int option option"
  et_assignee :: "string option option"

record event_meta =
  em_from :: "string option"
  em_to :: "string option"
  em_source :: "string option"

record event_payload =
  ep_type :: string
  ep_task :: "event_task option"
  ep_meta :: "event_meta option"

datatype project_ref = Project_slug string | Project_number int

record where_clause =
  where_project :: "project_ref option"
  where_status :: "string option"
  where_status_in :: "string list option"
  where_from_status :: "string option"
  where_to_status :: "string option"
  where_tags_all :: "string list option"
  where_tags_any :: "string list option"
  where_task_id :: "int option"
  where_parent_id :: "int option"
  where_assignee :: "string option"
  where_source :: "string option"
  where_event_type :: "string option"

text \<open>\<open>event.task?.f\<close> and \<open>event.metadata?.f\<close>.\<close>

definition task_field :: "(event_task \<Rightarrow> 'a option) \<Rightarrow> event_payload \<Rightarrow> 'a option" where
  "task_field f e = Option.bind (ep_task e) f"

definition meta_field :: "(event_meta \<Rightarrow> 'a option) \<Rightarrow> event_payload \<Rightarrow> 'a option" where
  "meta_field f e = Option.bind (ep_meta e) f"

fun match_project :: "project_ref \<Rightarrow> event_payload \<Rightarrow> bool" where
  "match_project (Project_slug s) e \<longleftrightarrow> task_field et_project_slug e = Some s"
| "match_project (Project_number n) e \<longleftrightarrow> task_field et_project_id e = Some n"

text \<open>\<open>fails given P\<close>: the filter is given and \<open>P\<close> does not hold of it.\<close>

definition fails :: "'a option \<Rightarrow> ('a \<Rightarrow> bool) \<Rightarrow> bool" where
  "fails given P = (case given of None \<Rightarrow> False | Some x \<Rightarrow> \<not> P x)"

definition evaluate_where :: "where_clause \<Rightarrow> event_payload \<Rightarrow> bool" where
  "evaluate_where w e =
     (if fails (where_project w) (\<lambda>p. match_project p e) then False
      else if fails (where_status w) (\<lambda>s. task_field et_status e = Some s) then False
      else if fails (where_status_in w) (\<lambda>ss. case task_field et_status e of None \<Rightarrow> False | Some s \<Rightarrow> List.member ss s) then False
      else if fails (where_from_status w) (\<lambda>s. meta_field em_from e = Some s) then False
      else if fails (where_to_status w) (\<lambda>s. meta_field em_to e = Some s) then False
      else if fails (where_tags_all w) (\<lambda>ts. case task_field et_tags e of None \<Rightarrow> False | Some tags \<Rightarrow> list_all (List.member tags) ts) then False
      else if fails (where_tags_any w) (\<lambda>ts. case task_field et_tags e of None \<Rightarrow> False | Some tags \<Rightarrow> list_ex (List.member tags) ts) then False
      else if fails (where_task_id w) (\<lambda>n. task_field et_id e = Some n) then False
      else if fails (where_parent_id w) (\<lambda>n. task_field et_parent e = Some (Some n)) then False
      else if fails (where_assignee w) (\<lambda>a. task_field et_assignee e = Some (Some a)) then False
      else if fails (where_source w) (\<lambda>s. meta_field em_source e = Some s) then False
      else if fails (where_event_type w) (\<lambda>s. ep_type e = s) then False
      else True)"

definition where_any :: where_clause where
  "where_any = \<lparr>where_project = None, where_status = None, where_status_in = None, where_from_status = None,
     where_to_status = None, where_tags_all = None, where_tags_any = None, where_task_id = None,
     where_parent_id = None, where_assignee = None, where_source = None, where_event_type = None\<rparr>"

lemma fails_simps [simp]: "fails None P \<longleftrightarrow> False" "fails (Some x) P \<longleftrightarrow> \<not> P x"
  by (simp_all add: fails_def)

lemma evaluate_where_any [simp]: "evaluate_where where_any e"
  by (simp add: evaluate_where_def where_any_def)

lemmas evaluate_where_iff = evaluate_where_def [unfolded if_bool_eq_conj]

lemma evaluate_whereD:
  assumes "evaluate_where w e"
  shows "where_project w = Some p \<Longrightarrow> match_project p e"
    and "where_assignee w = Some a \<Longrightarrow> task_field et_assignee e = Some (Some a)"
    and "where_from_status w = Some s \<Longrightarrow> meta_field em_from e = Some s"
    and "where_source w = Some s \<Longrightarrow> meta_field em_source e = Some s"
  using assms by (auto simp: evaluate_where_def split: if_splits)

section \<open>The sweep of the open backlog\<close>

record task_list_row =
  wr_id :: "int option"
  wr_project_id :: "int option"
  wr_status :: "string option"
  wr_tags :: "string list option"
  wr_parent :: "int option option"
  wr_assignee :: "string option option"

definition task_row_to_event_payload :: "task_list_row \<Rightarrow> string \<Rightarrow> event_payload" where
  "task_row_to_event_payload row ty =
     \<lparr>ep_type = ty,
      ep_task = Some \<lparr>et_id = wr_id row, et_project_id = wr_project_id row, et_project_slug = None,
        et_status = wr_status row, et_tags = wr_tags row, et_parent = wr_parent row, et_assignee = wr_assignee row\<rparr>,
      ep_meta = (case wr_status row of None \<Rightarrow> None | Some s \<Rightarrow> Some \<lparr>em_from = None, em_to = Some s, em_source = None\<rparr>)\<rparr>"

definition sweep_event_id :: "string \<Rightarrow> int \<Rightarrow> int \<Rightarrow> string" where
  "sweep_event_id rule window_s now_ms =
     (let window_ms = window_s * 1000;
          bucket = if window_ms > 0 then now_ms div window_ms else now_ms
      in ''sweep:'' @ rule @ '':'' @ string_of_int bucket)"

definition SWEEP_PAGE_LIMIT :: nat where "SWEEP_PAGE_LIMIT = 500"
definition SWEEP_MAX_PAGES :: nat where "SWEEP_MAX_PAGES = 10"

record sweep_params =
  sp_status :: string
  sp_limit :: nat
  sp_project_id :: "int option"
  sp_assignee :: "string option"
  sp_offset :: nat

record task_list_answer =
  tl_data :: "task_list_row list option"
  tl_total :: "nat option"

definition sweep_query :: "where_clause \<Rightarrow> nat \<Rightarrow> sweep_params" where
  "sweep_query w page =
     \<lparr>sp_status = ''open'', sp_limit = SWEEP_PAGE_LIMIT,
      sp_project_id = (case where_project w of Some (Project_number n) \<Rightarrow> Some n | _ \<Rightarrow> None),
      sp_assignee = where_assignee w, sp_offset = page * SWEEP_PAGE_LIMIT\<rparr>"

record sweep_state =
  first_match :: "event_payload option"
  matchedCount :: nat
  openTotal :: nat

definition scan_row :: "where_clause \<Rightarrow> string \<Rightarrow> sweep_state \<Rightarrow> task_list_row \<Rightarrow> sweep_state" where
  "scan_row w ty s row =
     (let payload = task_row_to_event_payload row ty in
      if evaluate_where w payload
      then s\<lparr>matchedCount := matchedCount s + 1,
             first_match := (case first_match s of None \<Rightarrow> Some payload | Some p \<Rightarrow> Some p)\<rparr>
      else s)"

text \<open>The loop over at most \<open>SWEEP_MAX_PAGES\<close> pages; the first argument counts those left.\<close>

fun sweep_pages ::
  "nat \<Rightarrow> (sweep_params \<Rightarrow> 'err + task_list_answer) \<Rightarrow> where_clause \<Rightarrow> string \<Rightarrow> nat \<Rightarrow> sweep_state \<Rightarrow> 'err + sweep_state" where
  "sweep_pages 0 query w ty page s = Inr s"
| "sweep_pages (Suc left) query w ty page s =
     bind_result (query (sweep_query w page)) (\<lambda>parsed.
       let rows = case_option [] id (tl_data parsed);
           total = case_option (length rows) id (tl_total parsed);
           s1 = foldl (scan_row w ty) (s\<lparr>openTotal := total\<rparr>) rows
       in if length rows < SWEEP_PAGE_LIMIT \<or> (page + 1) * SWEEP_PAGE_LIMIT \<ge> total then Inr s1
          else if first_match s1 \<noteq> None then Inr s1
          else sweep_pages left query w ty (page + 1) s1)"

definition find_first_matching_open_task ::
  "(sweep_params \<Rightarrow> 'err + task_list_answer) \<Rightarrow> where_clause \<Rightarrow> string \<Rightarrow> 'err + (event_payload \<times> nat \<times> nat) option" where
  "find_first_matching_open_task query w ty =
     bind_result (sweep_pages SWEEP_MAX_PAGES query w ty 0 \<lparr>first_match = None, matchedCount = 0, openTotal = 0\<rparr>)
       (\<lambda>s. Inr (map_option (\<lambda>p. (p, matchedCount s, openTotal s)) (first_match s)))"

text \<open>What a sweep asks of a task list that answers from \<open>rows\<close>: the server's own contract.\<close>

definition served :: "sweep_params \<Rightarrow> task_list_row list \<Rightarrow> task_list_row list" where
  "served p rows = filter (\<lambda>r. wr_status r = Some (sp_status p) \<and>
      case_option True (\<lambda>n. wr_project_id r = Some n) (sp_project_id p) \<and>
      case_option True (\<lambda>a. wr_assignee r = Some (Some a)) (sp_assignee p)) rows"

definition task_list_server :: "task_list_row list \<Rightarrow> sweep_params \<Rightarrow> 'err + task_list_answer" where
  "task_list_server rows p =
     Inr \<lparr>tl_data = Some (take (sp_limit p) (drop (sp_offset p) (served p rows))), tl_total = Some (length (served p rows))\<rparr>"

abbreviation sweep_match :: "where_clause \<Rightarrow> string \<Rightarrow> task_list_row \<Rightarrow> bool" where
  "sweep_match w ty r \<equiv> evaluate_where w (task_row_to_event_payload r ty)"

lemma first_match_scan:
  "first_match (foldl (scan_row w ty) s rows) =
     (case first_match s of Some p \<Rightarrow> Some p
      | None \<Rightarrow> map_option (\<lambda>r. task_row_to_event_payload r ty) (find (sweep_match w ty) rows))"
  by (induction rows arbitrary: s) (auto simp: scan_row_def Let_def split: option.splits)

lemma find_append: "find P (xs @ ys) = (case find P xs of None \<Rightarrow> find P ys | Some x \<Rightarrow> Some x)"
  by (induction xs) auto

lemma find_narrowed: "(\<And>x. P x \<Longrightarrow> Q x) \<Longrightarrow> find P (filter Q xs) = find P xs"
  by (induction xs) auto

lemma sweep_pages_first:
  fixes rows :: "task_list_row list" and w :: where_clause
  defines "N \<equiv> served (sweep_query w 0) rows"
  assumes "length N \<le> (page + left) * SWEEP_PAGE_LIMIT" "first_match s = None"
  shows "\<exists>s'. sweep_pages left (task_list_server rows) w ty page s = Inr s' \<and>
    first_match s' = map_option (\<lambda>r. task_row_to_event_payload r ty) (find (sweep_match w ty) (drop (page * SWEEP_PAGE_LIMIT) N))"
  using assms(2,3)
proof (induction left arbitrary: page s)
  case 0
  then show ?case by simp
next
  case (Suc left)
  let ?rows = "take SWEEP_PAGE_LIMIT (drop (page * SWEEP_PAGE_LIMIT) N)"
  let ?rest = "drop ((page + 1) * SWEEP_PAGE_LIMIT) N"
  let ?s1 = "foldl (scan_row w ty) (s\<lparr>openTotal := length N\<rparr>) ?rows"
  have split: "drop (page * SWEEP_PAGE_LIMIT) N = ?rows @ ?rest"
    by (metis append_take_drop_id drop_drop distrib_right mult_1 add.commute)
  have N: "served (sweep_query w page) rows = N" unfolding N_def by (simp add: served_def sweep_query_def)
  have run: "sweep_pages (Suc left) (task_list_server rows) w ty page s =
      (if length ?rows < SWEEP_PAGE_LIMIT \<or> (page + 1) * SWEEP_PAGE_LIMIT \<ge> length N then Inr ?s1
       else if first_match ?s1 \<noteq> None then Inr ?s1
       else sweep_pages left (task_list_server rows) w ty (page + 1) ?s1)"
    unfolding sweep_pages.simps task_list_server_def N
    by (simp add: sweep_query_def Let_def)
  have fm: "first_match ?s1 = map_option (\<lambda>r. task_row_to_event_payload r ty) (find (sweep_match w ty) ?rows)"
    by (simp add: first_match_scan Suc.prems)
  have both: "find (sweep_match w ty) (drop (page * SWEEP_PAGE_LIMIT) N) =
      (case find (sweep_match w ty) ?rows of None \<Rightarrow> find (sweep_match w ty) ?rest | Some r \<Rightarrow> Some r)"
    by (subst split) (rule find_append)
  show ?case
  proof (cases "length ?rows < SWEEP_PAGE_LIMIT \<or> (page + 1) * SWEEP_PAGE_LIMIT \<ge> length N")
    case True
    then have "?rest = []" by auto
    with True fm show ?thesis unfolding run both by (simp split: option.split)
  next
    case more: False
    show ?thesis
    proof (cases "first_match ?s1")
      case None
      then have none: "find (sweep_match w ty) ?rows = None" using fm by simp
      have "length N \<le> (page + 1 + left) * SWEEP_PAGE_LIMIT" using Suc.prems(1) by (simp add: algebra_simps)
      from Suc.IH [OF this None] more None none show ?thesis unfolding run both by simp
    next
      case (Some p)
      with more fm show ?thesis unfolding run both by auto
    qed
  qed
qed

lemma sweep_match_narrowed:
  assumes "sweep_match w ty r"
  shows "case_option True (\<lambda>n. wr_project_id r = Some n) (sp_project_id (sweep_query w 0)) \<and>
    case_option True (\<lambda>a. wr_assignee r = Some (Some a)) (sp_assignee (sweep_query w 0))"
proof -
  note D = evaluate_whereD(1,2) [OF assms]
  show ?thesis using D
    by (auto simp: sweep_query_def task_field_def task_row_to_event_payload_def split: option.split project_ref.split)
qed

text \<open>
  The start-up sweep finds what it should: over a task list of at most five thousand open
  rows it dispatches the first open task that the rule's clause matches, and nothing when there
  is none; asking the server for the rule's project and assignee only loses no match.
\<close>

theorem sweep_finds_the_first_match:
  assumes "length (filter (\<lambda>r. wr_status r = Some ''open'') rows) \<le> 5000"
  shows "\<exists>found. (find_first_matching_open_task (task_list_server rows) w ty :: 'err + _) = Inr found \<and>
    map_option fst found = map_option (\<lambda>r. task_row_to_event_payload r ty)
      (find (sweep_match w ty) (filter (\<lambda>r. wr_status r = Some ''open'') rows))"
proof -
  let ?open = "filter (\<lambda>r. wr_status r = Some ''open'') rows"
  let ?Q = "\<lambda>r. case_option True (\<lambda>n. wr_project_id r = Some n) (sp_project_id (sweep_query w 0)) \<and>
    case_option True (\<lambda>a. wr_assignee r = Some (Some a)) (sp_assignee (sweep_query w 0))"
  have N: "served (sweep_query w 0) rows = filter ?Q ?open"
    by (simp add: served_def sweep_query_def conj_commute)
  have "length (served (sweep_query w 0) rows) \<le> length ?open" unfolding N by (rule length_filter_le)
  then have "length (served (sweep_query w 0) rows) \<le> (0 + SWEEP_MAX_PAGES) * SWEEP_PAGE_LIMIT"
    using assms by (simp add: SWEEP_MAX_PAGES_def SWEEP_PAGE_LIMIT_def)
  from sweep_pages_first [where s = "\<lparr>first_match = None, matchedCount = 0, openTotal = 0\<rparr>" and ty = ty, OF this]
  obtain s' :: sweep_state where "sweep_pages SWEEP_MAX_PAGES (task_list_server rows) w ty 0
      \<lparr>first_match = None, matchedCount = 0, openTotal = 0\<rparr> = (Inr s' :: 'err + sweep_state)"
    "first_match s' = map_option (\<lambda>r. task_row_to_event_payload r ty) (find (sweep_match w ty) (filter ?Q ?open))"
    unfolding N by auto
  moreover have "find (sweep_match w ty) (filter ?Q ?open) = find (sweep_match w ty) ?open"
    by (rule find_narrowed) (rule sweep_match_narrowed)
  ultimately show ?thesis
    by (simp add: find_first_matching_open_task_def option.map_comp comp_def)
qed

theorem sweep_finds_the_first_match_witness:
  "\<exists>found. (find_first_matching_open_task
        (task_list_server
          [\<lparr>wr_id = Some 1, wr_project_id = Some 3, wr_status = Some ''done'', wr_tags = Some [], wr_parent = None, wr_assignee = None\<rparr>,
           \<lparr>wr_id = Some 2, wr_project_id = Some 3, wr_status = Some ''open'', wr_tags = Some [], wr_parent = None, wr_assignee = None\<rparr>])
        (where_any\<lparr>where_project := Some (Project_number 3)\<rparr>) ''task.created'' :: string + _) = Inr found \<and>
    map_option fst found = map_option (\<lambda>r. task_row_to_event_payload r ''task.created'')
      (find (sweep_match (where_any\<lparr>where_project := Some (Project_number 3)\<rparr>) ''task.created'')
        (filter (\<lambda>r. wr_status r = Some ''open'')
          [\<lparr>wr_id = Some 1, wr_project_id = Some 3, wr_status = Some ''done'', wr_tags = Some [], wr_parent = None, wr_assignee = None\<rparr>,
           \<lparr>wr_id = Some 2, wr_project_id = Some 3, wr_status = Some ''open'', wr_tags = Some [], wr_parent = None, wr_assignee = None\<rparr>]))"
  by (rule sweep_finds_the_first_match) simp

end
