(* ===== verification/Triggers_Config.thy ===== *)
theory Triggers_Config
  imports Template Router_Predicate
begin

text \<open>
  The router's rules and the checks a \<open>triggers.yaml\<close> goes through once it is parsed
  (\<open>packages/wft-router/src/config/triggers-schema.ts\<close>): the shape constraints the types do not
  carry and the templating pass over each \<open>with:\<close> block.  Reading the file, its permission check
  and the YAML parser are not modelled.
\<close>

section \<open>Rules\<close>

datatype handler_name = Create_task_in_project | Webhook_post | Shell_exec | Agent_session_dispatch

record trigger_rule =
  rule_name :: string
  rule_on :: string
  rule_where :: where_clause
  rule_do :: handler_name
  rule_with :: "(utext \<times> json) list"
  debounce_ms :: "int option"
  idempotency_window_s :: "int option"
  rule_max_dispatches :: "int option"
  max_retries :: "int option"
  sweep_on_start :: "bool option"
  sweep_interval_s :: "int option"

record trigger_defaults =
  def_debounce_ms :: "int option"
  def_idempotency_window_s :: "int option"
  def_max_dispatches :: "int option"
  def_max_retries :: "int option"
  def_sweep_on_start :: "bool option"
  def_sweep_interval_s :: "int option"

record triggers_config =
  config_defaults :: "trigger_defaults option"
  config_rules :: "trigger_rule list"

definition statuses :: "string list" where
  "statuses = [''open'', ''in_progress'', ''done'', ''closed'', ''blocked'', ''backlogged'']"

definition ALLOWED_EVENT_TYPES :: "string list" where
  "ALLOWED_EVENT_TYPES = [''task.created'', ''task.updated'', ''task.deleted'', ''task.status_changed'', ''task.claimed'',
     ''task.claim_released'', ''project.created'', ''project.updated'', ''project.deleted'']"

definition opt_ok :: "('a \<Rightarrow> bool) \<Rightarrow> 'a option \<Rightarrow> bool" where
  "opt_ok P x = (case x of None \<Rightarrow> True | Some v \<Rightarrow> P v)"

definition where_schema :: "where_clause \<Rightarrow> bool" where
  "where_schema w \<longleftrightarrow>
     opt_ok (List.member statuses) (where_status w) \<and>
     opt_ok (\<lambda>ss. ss \<noteq> [] \<and> list_all (List.member statuses) ss) (where_status_in w) \<and>
     opt_ok (List.member statuses) (where_from_status w) \<and>
     opt_ok (List.member statuses) (where_to_status w) \<and>
     opt_ok (\<lambda>ts. ts \<noteq> []) (where_tags_all w) \<and>
     opt_ok (\<lambda>ts. ts \<noteq> []) (where_tags_any w) \<and>
     opt_ok (\<lambda>n. 0 < n) (where_task_id w) \<and>
     opt_ok (\<lambda>n. 0 < n) (where_parent_id w) \<and>
     opt_ok (\<lambda>a. a \<noteq> []) (where_assignee w) \<and>
     opt_ok (List.member [''user'', ''workflow'']) (where_source w) \<and>
     opt_ok (List.member ALLOWED_EVENT_TYPES) (where_event_type w)"

definition rule_schema :: "trigger_rule \<Rightarrow> bool" where
  "rule_schema r \<longleftrightarrow>
     rule_name r \<noteq> [] \<and> List.member ALLOWED_EVENT_TYPES (rule_on r) \<and> where_schema (rule_where r) \<and>
     opt_ok (\<lambda>n. 0 \<le> n) (debounce_ms r) \<and> opt_ok (\<lambda>n. 0 \<le> n) (idempotency_window_s r) \<and>
     opt_ok (\<lambda>n. 0 < n) (rule_max_dispatches r) \<and> opt_ok (\<lambda>n. 0 \<le> n) (max_retries r) \<and>
     opt_ok (\<lambda>n. 0 < n) (sweep_interval_s r)"

definition defaults_schema :: "trigger_defaults \<Rightarrow> bool" where
  "defaults_schema d \<longleftrightarrow>
     opt_ok (\<lambda>n. 0 \<le> n) (def_debounce_ms d) \<and> opt_ok (\<lambda>n. 0 \<le> n) (def_idempotency_window_s d) \<and>
     opt_ok (\<lambda>n. 0 < n) (def_max_dispatches d) \<and> opt_ok (\<lambda>n. 0 \<le> n) (def_max_retries d) \<and>
     opt_ok (\<lambda>n. 0 < n) (def_sweep_interval_s d)"

definition config_schema :: "triggers_config \<Rightarrow> bool" where
  "config_schema c \<longleftrightarrow>
     opt_ok defaults_schema (config_defaults c) \<and> config_rules c \<noteq> [] \<and>
     list_all rule_schema (config_rules c)"

section \<open>The templating pass\<close>

definition whole_token :: "utext \<Rightarrow> bool" where
  "whole_token s \<longleftrightarrow> take 2 s = u ''{{'' \<and> dropWhile (\<lambda>c. c \<noteq> 125) (drop 2 s) = u ''}}''"

definition upper :: "nat \<Rightarrow> bool" where
  "upper c \<longleftrightarrow> 65 \<le> c \<and> c \<le> 90"

definition env_var_name :: "utext \<Rightarrow> bool" where
  "env_var_name s \<longleftrightarrow> (case s of [] \<Rightarrow> False
     | c # cs \<Rightarrow> upper c \<and> list_all (\<lambda>d. upper d \<or> (48 \<le> d \<and> d \<le> 57) \<or> d = 95) cs)"

datatype templating_issue = Token_not_whole utext | Bad_token_env utext

definition check_string :: "utext \<Rightarrow> utext \<Rightarrow> templating_issue list" where
  "check_string s path =
     (if \<not> token_present s then [] else if whole_token s then [] else [Token_not_whole path])"

fun walk_with_value :: "json \<Rightarrow> utext \<Rightarrow> templating_issue list"
and walk_with_items :: "json list \<Rightarrow> nat \<Rightarrow> utext \<Rightarrow> templating_issue list"
and walk_with_fields :: "(utext \<times> json) list \<Rightarrow> utext \<Rightarrow> templating_issue list" where
  "walk_with_value (JStr s) path = check_string s path"
| "walk_with_value (JArr xs) path = walk_with_items xs 0 path"
| "walk_with_value (JObj kvs) path = walk_with_fields kvs path"
| "walk_with_value _ path = []"
| "walk_with_items [] i path = []"
| "walk_with_items (x # xs) i path =
     walk_with_value x (path @ u ''['' @ u (digits_of i) @ u '']'') @ walk_with_items xs (i + 1) path"
| "walk_with_fields [] path = []"
| "walk_with_fields ((k, v) # kvs) path =
     (case (k = u ''token_env'', v) of
        (True, JStr s) \<Rightarrow> (if env_var_name s then [] else [Bad_token_env (path @ u ''.'' @ k)])
      | _ \<Rightarrow> walk_with_value v (path @ u ''.'' @ k)) @ walk_with_fields kvs path"

definition validate_templating :: "triggers_config \<Rightarrow> templating_issue list" where
  "validate_templating c =
     concat (map (\<lambda>(i, r). walk_with_fields (rule_with r) (u ''rules['' @ u (digits_of i) @ u ''].with''))
       (zip [0..<length (config_rules c)] (config_rules c)))"

definition accepts_config :: "triggers_config \<Rightarrow> bool" where
  "accepts_config c \<longleftrightarrow> config_schema c \<and> validate_templating c = []"

section \<open>What an accepted block renders to\<close>

lemma drop_token_while: "dropWhile (\<lambda>c. c \<noteq> 125) s = u ''}}'' \<Longrightarrow> take 2 (dropWhile (\<lambda>c. c \<noteq> 125) s) = u ''}}''"
  by (simp add: u_def)

lemma whole_token_present: "whole_token s \<Longrightarrow> token_present s"
  by (cases s) (auto simp: whole_token_def opens_token_def u_def)

lemma token_needs_brace: "token_present s \<Longrightarrow> 123 \<in> set s"
proof (induction s)
  case (Cons c s)
  then show ?case by (auto simp: opens_token_def u_def take_Cons split: nat.splits)
qed simp

lemma env_var_name_plain: "env_var_name s \<Longrightarrow> \<not> token_present s"
  using token_needs_brace [of s] by (cases s) (fastforce simp: env_var_name_def upper_def list_all_iff)+

abbreviation clean :: "utext \<Rightarrow> bool" where
  "clean s \<equiv> whole_token s \<or> \<not> token_present s"

lemma accepted_leaves:
  "walk_with_value x path = [] \<Longrightarrow> all_leaves clean x"
  "walk_with_items xs i path = [] \<Longrightarrow> all_leaves_items clean xs"
  "walk_with_fields kvs path = [] \<Longrightarrow> all_leaves_fields clean kvs"
proof (induction x path and xs i path and kvs path rule: walk_with_value_walk_with_items_walk_with_fields.induct)
  case (1 s path)
  then show ?case by (auto simp: check_string_def split: if_splits)
next
  case (8 k v kvs path)
  then show ?case
    by (cases "k = u ''token_env''"; cases v) (auto simp: env_var_name_plain split: if_splits)
qed simp_all

lemma leaf_ok_clean: "clean s \<Longrightarrow> leaf_ok s \<longleftrightarrow> (whole_token s \<longrightarrow> pure_substitution s \<noteq> None)"
  using whole_token_present by (auto simp: leaf_ok_def)

lemma all_leaves_cong:
  "all_leaves P x \<Longrightarrow> (\<And>s. P s \<Longrightarrow> Q s = R s) \<Longrightarrow> all_leaves Q x = all_leaves R x"
  "all_leaves_items P xs \<Longrightarrow> (\<And>s. P s \<Longrightarrow> Q s = R s) \<Longrightarrow> all_leaves_items Q xs = all_leaves_items R xs"
  "all_leaves_fields P kvs \<Longrightarrow> (\<And>s. P s \<Longrightarrow> Q s = R s) \<Longrightarrow> all_leaves_fields Q kvs = all_leaves_fields R kvs"
  by (induction P x and P xs and P kvs rule: all_leaves_all_leaves_items_all_leaves_fields.induct) simp_all

text \<open>
  The check at start-up and the renderer: a block that the check accepts renders, for
  every event, exactly when each of its tokens has the form \<open>{{task.path}}\<close>; the check alone
  accepts other tokens too, and a block with one of them never renders.
\<close>

theorem accepted_blocks_render_iff:
  assumes "walk_with_fields w path = []"
  shows "(\<exists>r. render_with inherited w task = Inr r) \<longleftrightarrow>
    all_leaves_fields (\<lambda>s. whole_token s \<longrightarrow> pure_substitution s \<noteq> None) w"
  unfolding render_with_leaves(2)
  by (rule all_leaves_cong(3) [OF accepted_leaves(3) [OF assms]]) (rule leaf_ok_clean)

theorem accepted_blocks_render_iff_witness:
  "(\<exists>r. render_with (\<lambda>_ _. None) [(u ''title'', JStr (u ''{{event.type}}''))] None = Inr r) \<longleftrightarrow>
    all_leaves_fields (\<lambda>s. whole_token s \<longrightarrow> pure_substitution s \<noteq> None) [(u ''title'', JStr (u ''{{event.type}}''))]"
  by (rule accepted_blocks_render_iff [where path = "u ''with''"]) code_simp

lemma accepted_block_that_never_renders:
  "walk_with_fields [(u ''title'', JStr (u ''{{event.type}}''))] path = []"
  "\<not> (\<exists>r. render_with inherited [(u ''title'', JStr (u ''{{event.type}}''))] task = Inr r)"
proof -
  show a: "walk_with_fields [(u ''title'', JStr (u ''{{event.type}}''))] path = []"
    by (simp add: u_def check_string_def whole_token_def)
  show "\<not> (\<exists>r. render_with inherited [(u ''title'', JStr (u ''{{event.type}}''))] task = Inr r)"
    unfolding render_with_leaves(2) by (simp add: leaf_ok_def pure_substitution_def opens_token_def u_def Let_def)
qed

end
