(* ===== verification/Router_Handlers.thy ===== *)
theory Router_Handlers
  imports Idempotency_Store Triggers_Config
begin

text \<open>
  The four action handlers of the router (\<open>packages/wft-router/src/handlers\<close>).  A handler makes
  one attempt: it renders its block, claims the dispatch in the log, validates what it needs,
  performs one effect and writes the final status.  The part up to the effect and the part
  after it are two functions, so other callers of the log may run in between.  What lies
  outside the source (JSON text, URL parsing, the file system, the process environment) is a
  record of functions.
\<close>

section \<open>The handler contract\<close>

datatype suppression = Already_pending | Already_done

datatype handler_outcome =
  Succeeded "utext option"
| Suppressed suppression
| Failed bool utext

record dispatch_identity =
  di_rule :: string
  di_event :: string
  di_task :: "int option"
  di_to_status :: "string option"
  di_emitted_at :: "int option"

record handler_context =
  hc_task :: "json option"
  hc_identity :: dispatch_identity
  hc_rendered_with :: "(utext \<times> json) list option"
  hc_with_block :: "(utext \<times> json) list option"
  hc_api_base :: utext
  hc_auth_token :: utext
  hc_token_env :: "utext option"

record environment =
  env_inherited :: "json \<Rightarrow> utext \<Rightarrow> json option"
  env_stringify :: "(utext \<times> json) list \<Rightarrow> string"
  env_body_text :: "json \<Rightarrow> utext"
  env_number_text :: "rat \<Rightarrow> utext"
  env_uri_component :: "utext \<Rightarrow> utext"
  env_parse_url :: "utext \<Rightarrow> (string \<times> string) option"
  env_join_url :: "utext \<Rightarrow> utext \<Rightarrow> utext option"
  env_vars :: "(utext, utext) jsmap"
  env_link_local :: "string option"
  env_adapter :: "utext \<Rightarrow> utext option"
  env_cwd :: utext

datatype 'req handler_step = Threw templating_error | Returned handler_outcome | Go_on 'req

definition prepare :: "environment \<Rightarrow> handler_context \<Rightarrow> (handler_outcome + templating_error) + (utext \<times> json) list" where
  "prepare env ctx =
     (case hc_rendered_with ctx of
        Some r \<Rightarrow> Inr r
      | None \<Rightarrow>
          (case hc_with_block ctx of
             Some w \<Rightarrow>
               (case render_with (env_inherited env) w (hc_task ctx) of
                  Inl e \<Rightarrow> Inl (Inr e) | Inr r \<Rightarrow> Inr r)
           | None \<Rightarrow> Inl (Inl (Failed False (u ''no with: block or rendered payload supplied'')))))"

definition claim_input_of :: "dispatch_identity \<Rightarrow> string \<Rightarrow> claim_input" where
  "claim_input_of i js = \<lparr>ci_rule = di_rule i, ci_event = di_event i, ci_json = js, ci_task = di_task i,
     ci_to_status = di_to_status i, ci_emitted_at = di_emitted_at i\<rparr>"

text \<open>The idempotency gate, the same in every handler.\<close>

definition gate ::
  "environment \<Rightarrow> int \<Rightarrow> dispatch_identity \<Rightarrow> (utext \<times> json) list \<Rightarrow>
    (dispatch_log \<Rightarrow> 'req handler_step \<times> dispatch_log) \<Rightarrow> dispatch_log \<Rightarrow> 'req handler_step \<times> dispatch_log" where
  "gate env now i block k st =
     (case store_claim now (claim_input_of i (env_stringify env block)) st of (r, st1) \<Rightarrow>
        case r of
          CLAIMED \<Rightarrow> k st1
        | ALREADY_PENDING \<Rightarrow> (Returned (Suppressed Already_pending), st1)
        | ALREADY_DONE _ \<Rightarrow> (Returned (Suppressed Already_done), st1))"

definition config_error :: "int \<Rightarrow> dispatch_identity \<Rightarrow> utext \<Rightarrow> dispatch_log \<Rightarrow> 'req handler_step \<times> dispatch_log" where
  "config_error now i detail st =
     (Returned (Failed False detail), snd (store_complete now (di_rule i) (di_event i) PERMANENTLY_FAILED st))"

section \<open>HTTP answers\<close>

datatype http_result = Http_timeout | Http_network_error | Http_response int "utext option"

definition http_status_text :: "int \<Rightarrow> string \<Rightarrow> string" where
  "http_status_text n what = ''HTTP '' @ string_of_int n @ '' ('' @ what @ '')''"

definition http_outcome :: "http_result \<Rightarrow> dispatch_status \<times> handler_outcome" where
  "http_outcome r =
     (case r of
        Http_timeout \<Rightarrow> (FAILED, Failed True (u ''request timed out''))
      | Http_network_error \<Rightarrow> (FAILED, Failed True (u ''network error''))
      | Http_response n _ \<Rightarrow>
          if 200 \<le> n \<and> n < 300 then (SUCCEEDED, Succeeded None)
          else if 400 \<le> n \<and> n < 500 then (PERMANENTLY_FAILED, Failed False (u (http_status_text n ''client error'')))
          else (FAILED, Failed True (u (http_status_text n ''server error''))))"

section \<open>create\_task\_in\_project\<close>

record http_request =
  hr_url :: utext
  hr_headers :: "(utext \<times> utext) list"
  hr_body :: "json option"

definition auth_header_for :: "utext \<Rightarrow> utext \<times> utext" where
  "auth_header_for token =
     (if take 8 token = u ''wft_pat_'' then (u ''Authorization'', u ''Bearer '' @ token) else (u ''X-API-Key'', token))"

definition resolve_project_segment :: "environment \<Rightarrow> (utext \<times> json) list \<Rightarrow> utext option" where
  "resolve_project_segment env rendered =
     (case map_of rendered (u ''project'') of
        Some (JNum n) \<Rightarrow> Some (env_uri_component env (env_number_text env n))
      | Some (JStr s) \<Rightarrow> if s \<noteq> [] then Some (env_uri_component env s) else None
      | _ \<Rightarrow> None)"

definition trim_base :: "utext \<Rightarrow> utext" where
  "trim_base base = rev (dropWhile (\<lambda>c. c = 47) (rev base))"

definition build_request_body :: "(utext \<times> json) list \<Rightarrow> (utext \<times> json) list" where
  "build_request_body rendered = filter (\<lambda>(k, v). k \<noteq> u ''project'') rendered"

definition create_task_start ::
  "environment \<Rightarrow> int \<Rightarrow> handler_context \<Rightarrow> dispatch_log \<Rightarrow> http_request handler_step \<times> dispatch_log" where
  "create_task_start env now ctx st =
     (case prepare env ctx of
        Inl (Inl out) \<Rightarrow> (Returned out, st)
      | Inl (Inr e) \<Rightarrow> (Threw e, st)
      | Inr rendered \<Rightarrow> gate env now (hc_identity ctx) rendered (\<lambda>st1.
          case resolve_project_segment env rendered of
            None \<Rightarrow> config_error now (hc_identity ctx) (u ''with.project is missing or empty'') st1
          | Some seg \<Rightarrow>
              (Go_on \<lparr>hr_url = trim_base (hc_api_base ctx) @ u ''/api/v1/projects/'' @ seg @ u ''/tasks'',
                      hr_headers = [auth_header_for (hc_auth_token ctx), (u ''Content-Type'', u ''application/json''),
                                    (u ''Accept'', u ''application/json'')],
                      hr_body = Some (JObj (build_request_body rendered))\<rparr>, st1)) st)"

section \<open>webhook\_post: the endpoint guard\<close>

definition MAX_REDIRECT_HOPS :: nat where "MAX_REDIRECT_HOPS = 5"

definition normalize_host :: "string \<Rightarrow> string" where
  "normalize_host host =
     (let h = to_lower (trim host);
          h1 = if h \<noteq> [] \<and> hd h = CHR ''['' \<and> last h = CHR '']'' then butlast (tl h) else h
      in takeWhile (\<lambda>c. c \<noteq> CHR ''%'') h1)"

definition digit_char :: "char \<Rightarrow> bool" where
  "digit_char c = (let n = of_char c :: nat in 48 \<le> n \<and> n \<le> 57)"

definition octet_value :: "string \<Rightarrow> nat" where
  "octet_value s = foldl (\<lambda>n c. 10 * n + (of_char c - 48)) 0 s"

text \<open>The four numbers of a dotted quad of one to three digits each.\<close>

definition dotted_quad :: "string \<Rightarrow> (nat \<times> nat \<times> nat \<times> nat) option" where
  "dotted_quad host =
     (case split_on CHR ''.'' host of
        [a, b, c, d] \<Rightarrow>
          if list_all (\<lambda>s. 1 \<le> length s \<and> length s \<le> 3 \<and> list_all digit_char s) [a, b, c, d]
          then Some (octet_value a, octet_value b, octet_value c, octet_value d) else None
      | _ \<Rightarrow> None)"

definition is_loopback_host :: "string \<Rightarrow> bool" where
  "is_loopback_host host \<longleftrightarrow>
     host = ''localhost'' \<or> host = ''::1'' \<or> host = ''0:0:0:0:0:0:0:1'' \<or>
     (case dotted_quad host of Some (a, _) \<Rightarrow> a = 127 | None \<Rightarrow> False)"

definition is_private_host :: "string \<Rightarrow> bool" where
  "is_private_host host \<longleftrightarrow>
     (case dotted_quad host of
        Some (a, b, c, d) \<Rightarrow>
          if list_ex (\<lambda>o'. o' > 255) [a, b, c, d] then False
          else a = 10 \<or> (a = 172 \<and> 16 \<le> b \<and> b \<le> 31) \<or> (a = 192 \<and> b = 168)
      | None \<Rightarrow>
          CHR '':'' \<in> set host \<and> (starts_with ''fc'' host \<or> starts_with ''fd'' host))"

definition is_link_local_host :: "string \<Rightarrow> bool" where
  "is_link_local_host host \<longleftrightarrow>
     (case dotted_quad host of
        Some (a, b, c, d) \<Rightarrow> \<not> list_ex (\<lambda>o'. o' > 255) [a, b, c, d] \<and> a = 169 \<and> b = 254
      | None \<Rightarrow> False)"

definition link_local_opt_in :: "environment \<Rightarrow> bool" where
  "link_local_opt_in env =
     (case env_link_local env of None \<Rightarrow> False
      | Some raw \<Rightarrow> to_lower (trim raw) = ''1'' \<or> to_lower (trim raw) = ''true'')"

text \<open>The decision, with the reason of a refusal.\<close>

definition assert_endpoint_allowed :: "environment \<Rightarrow> utext \<Rightarrow> bool \<Rightarrow> string option" where
  "assert_endpoint_allowed env url via_redirect =
     (case env_parse_url env url of
        None \<Rightarrow> Some ''target url is missing or unparseable''
      | Some (protocol, hostname) \<Rightarrow>
          let scheme = to_lower protocol in
          if scheme = ''https:'' then None
          else if scheme = ''http:'' then
            if via_redirect then Some ''http:// redirect target refused (credential-exposure guard)''
            else let host = normalize_host hostname in
              if is_loopback_host host \<or> is_private_host host then None
              else if is_link_local_host host \<and> link_local_opt_in env then None
              else Some ''http:// to non-loopback target refused (credential-exposure guard)''
          else Some (''unsupported url scheme '' @ scheme))"

section \<open>webhook\_post: the delivery\<close>

fun js_string :: "(rat \<Rightarrow> utext) \<Rightarrow> json \<Rightarrow> utext" and js_item :: "(rat \<Rightarrow> utext) \<Rightarrow> json \<Rightarrow> utext"
and js_items :: "(rat \<Rightarrow> utext) \<Rightarrow> json list \<Rightarrow> utext list" where
  "js_string num (JStr s) = s"
| "js_string num JNull = u ''null''"
| "js_string num (JBool b) = (if b then u ''true'' else u ''false'')"
| "js_string num (JNum n) = num n"
| "js_string num (JArr xs) = join_with 44 (js_items num xs)"
| "js_string num (JObj kvs) = u ''[object Object]''"
| "js_item num x = (if x = JNull then [] else js_string num x)"
| "js_items num [] = []"
| "js_items num (x # xs) = js_item num x # js_items num xs"

definition coerce_headers :: "environment \<Rightarrow> json option \<Rightarrow> (utext \<times> utext) list" where
  "coerce_headers env v =
     (case v of Some (JObj kvs) \<Rightarrow> map (\<lambda>(k, x). (k, js_string (env_number_text env) x)) kvs | _ \<Rightarrow> [])"

definition ulower :: "utext \<Rightarrow> utext" where
  "ulower s = map (\<lambda>c. if 65 \<le> c \<and> c \<le> 90 then c + 32 else c) s"

definition has_content_type :: "(utext \<times> utext) list \<Rightarrow> bool" where
  "has_content_type hs = list_ex (\<lambda>(k, v). ulower k = u ''content-type'') hs"

definition build_body :: "environment \<Rightarrow> json option \<Rightarrow> utext option \<times> bool" where
  "build_body env v =
     (case v of None \<Rightarrow> (None, False) | Some (JStr s) \<Rightarrow> (Some s, False) | Some x \<Rightarrow> (Some (env_body_text env x), True))"

record webhook_call =
  wc_url :: utext
  wc_headers :: "(utext \<times> utext) list"
  wc_body :: "utext option"

definition webhook_start ::
  "environment \<Rightarrow> int \<Rightarrow> handler_context \<Rightarrow> dispatch_log \<Rightarrow> webhook_call handler_step \<times> dispatch_log" where
  "webhook_start env now ctx st =
     (case prepare env ctx of
        Inl (Inl out) \<Rightarrow> (Returned out, st)
      | Inl (Inr e) \<Rightarrow> (Threw e, st)
      | Inr rendered \<Rightarrow> gate env now (hc_identity ctx) rendered (\<lambda>st1.
          case map_of rendered (u ''url'') of
            Some (JStr url) \<Rightarrow>
              if url = [] then config_error now (hc_identity ctx) (u ''with.url is missing or empty'') st1
              else (case assert_endpoint_allowed env url False of
                Some reason \<Rightarrow> config_error now (hc_identity ctx) (u reason) st1
              | None \<Rightarrow>
                  let headers = coerce_headers env (map_of rendered (u ''headers''));
                      (body, defaulted) = build_body env (map_of rendered (u ''body''));
                      headers1 = (if defaulted \<and> \<not> has_content_type headers
                                  then js_put (u ''Content-Type'') (u ''application/json'') headers else headers)
                  in (Go_on \<lparr>wc_url = url, wc_headers = headers1, wc_body = body\<rparr>, st1))
          | _ \<Rightarrow> config_error now (hc_identity ctx) (u ''with.url is missing or empty'') st1) st)"

datatype delivery = Delivered http_result | Hop_limit | Redirect_unparseable | Redirect_refused string

text \<open>
  The delivery loop: the answer to the \<open>n\<close>-th request decides; \<open>left\<close> redirects may still be
  followed.  The second result is the list of URLs requested.
\<close>

fun deliver :: "environment \<Rightarrow> (nat \<Rightarrow> utext \<Rightarrow> http_result) \<Rightarrow> nat \<Rightarrow> nat \<Rightarrow> utext \<Rightarrow> delivery \<times> utext list" where
  "deliver env http left n url =
     (case http n url of
        Http_response st (Some location) \<Rightarrow>
          if 300 \<le> st \<and> st < 400 then
            (case left of
               0 \<Rightarrow> (Hop_limit, [url])
             | Suc left' \<Rightarrow>
                 (case env_join_url env location url of
                    None \<Rightarrow> (Redirect_unparseable, [url])
                  | Some next_url \<Rightarrow>
                      (case assert_endpoint_allowed env next_url True of
                         Some reason \<Rightarrow> (Redirect_refused reason, [url])
                       | None \<Rightarrow> (case deliver env http left' (n + 1) next_url of (d, urls) \<Rightarrow> (d, url # urls)))))
          else (Delivered (Http_response st (Some location)), [url])
      | r \<Rightarrow> (Delivered r, [url]))"

declare deliver.simps [simp del]

definition delivery_outcome :: "delivery \<Rightarrow> dispatch_status \<times> handler_outcome" where
  "delivery_outcome d =
     (case d of
        Delivered r \<Rightarrow> http_outcome r
      | Hop_limit \<Rightarrow> (PERMANENTLY_FAILED, Failed False (u (''redirect hop limit ('' @ string_of_int (int MAX_REDIRECT_HOPS) @ '') exceeded'')))
      | Redirect_unparseable \<Rightarrow> (PERMANENTLY_FAILED, Failed False (u ''redirect target url is missing or unparseable''))
      | Redirect_refused reason \<Rightarrow> (PERMANENTLY_FAILED, Failed False (u reason)))"

section \<open>Subprocesses\<close>

definition DEFAULT_ENV_ALLOWLIST :: "utext list" where
  "DEFAULT_ENV_ALLOWLIST = [u ''PATH'', u ''HOME'', u ''USER'', u ''LANG'', u ''TZ'']"

definition build_child_env :: "environment \<Rightarrow> json option \<Rightarrow> utext option \<Rightarrow> (utext, utext) jsmap" where
  "build_child_env env rendered_env token_env =
     (let allowed = foldl (\<lambda>out k. case js_get (env_vars env) k of Some v \<Rightarrow> js_put k v out | None \<Rightarrow> out) [] DEFAULT_ENV_ALLOWLIST;
          literal = (case rendered_env of
             Some (JObj kvs) \<Rightarrow> foldl (\<lambda>out (k, v). if v = JNull then out else js_put k (js_string (env_number_text env) v) out) allowed kvs
           | _ \<Rightarrow> allowed)
      in case token_env of
           None \<Rightarrow> literal
         | Some name \<Rightarrow>
             if name = [] then literal
             else (case js_get (env_vars env) name of Some v \<Rightarrow> js_put name v literal | None \<Rightarrow> literal))"

record spawn_call =
  sc_program :: utext
  sc_argv :: "utext list"
  sc_cwd :: "utext option"
  sc_env :: "(utext, utext) jsmap"

definition resolve_cwd :: "environment \<Rightarrow> (utext \<times> json) list \<Rightarrow> utext" where
  "resolve_cwd env block =
     (case map_of block (u ''cwd'') of Some (JStr s) \<Rightarrow> if s \<noteq> [] then s else env_cwd env | _ \<Rightarrow> env_cwd env)"

definition resolve_argv :: "environment \<Rightarrow> (utext \<times> json) list \<Rightarrow> utext list" where
  "resolve_argv env block =
     (case map_of block (u ''argv'') of Some (JArr xs) \<Rightarrow> map (js_string (env_number_text env)) xs | _ \<Rightarrow> [])"

definition shell_exec_start ::
  "environment \<Rightarrow> int \<Rightarrow> handler_context \<Rightarrow> dispatch_log \<Rightarrow> spawn_call handler_step \<times> dispatch_log" where
  "shell_exec_start env now ctx st =
     (case (case hc_rendered_with ctx of Some b \<Rightarrow> Some b | None \<Rightarrow> hc_with_block ctx) of
        None \<Rightarrow> (Returned (Failed False (u ''no with: block supplied'')), st)
      | Some block \<Rightarrow> gate env now (hc_identity ctx) block (\<lambda>st1.
          case map_of block (u ''command'') of
            Some (JStr command) \<Rightarrow>
              if command = [] then config_error now (hc_identity ctx) (u ''with.command is missing or empty'') st1
              else (Go_on \<lparr>sc_program = command, sc_argv = resolve_argv env block, sc_cwd = Some (resolve_cwd env block),
                           sc_env = build_child_env env (map_of block (u ''env'')) (hc_token_env ctx)\<rparr>, st1)
          | _ \<Rightarrow> config_error now (hc_identity ctx) (u ''with.command is missing or empty'') st1) st)"

definition lower_letter :: "nat \<Rightarrow> bool" where "lower_letter c \<longleftrightarrow> 97 \<le> c \<and> c \<le> 122"
definition digit_point :: "nat \<Rightarrow> bool" where "digit_point c \<longleftrightarrow> 48 \<le> c \<and> c \<le> 57"

definition adapter_name :: "utext \<Rightarrow> bool" where
  "adapter_name s \<longleftrightarrow> (case s of [] \<Rightarrow> False
     | c # cs \<Rightarrow> lower_letter c \<and> list_all (\<lambda>d. lower_letter d \<or> digit_point d \<or> d = 95 \<or> d = 45) cs)"

definition with_key :: "utext \<Rightarrow> bool" where
  "with_key s \<longleftrightarrow> (case s of [] \<Rightarrow> False
     | c # cs \<Rightarrow> lower_letter c \<and> list_all (\<lambda>d. lower_letter d \<or> digit_point d \<or> d = 95) cs)"

fun build_adapter_argv :: "environment \<Rightarrow> (utext \<times> json) list \<Rightarrow> utext + utext list" where
  "build_adapter_argv env [] = Inr []"
| "build_adapter_argv env ((k, v) # kvs) =
     (if k = u ''adapter'' then build_adapter_argv env kvs
      else if \<not> with_key k then Inl k
      else bind_result (build_adapter_argv env kvs) (\<lambda>argv.
             Inr ((k @ u ''='' @ (if v = JNull then [] else js_string (env_number_text env) v)) # argv)))"

definition agent_session_start ::
  "environment \<Rightarrow> int \<Rightarrow> handler_context \<Rightarrow> dispatch_log \<Rightarrow> spawn_call handler_step \<times> dispatch_log" where
  "agent_session_start env now ctx st =
     (case prepare env ctx of
        Inl (Inl out) \<Rightarrow> (Returned (Failed False (u ''no with: block supplied'')), st)
      | Inl (Inr e) \<Rightarrow> (Threw e, st)
      | Inr rendered \<Rightarrow> gate env now (hc_identity ctx) rendered (\<lambda>st1.
          case map_of rendered (u ''adapter'') of
            Some (JStr adapter) \<Rightarrow>
              if \<not> adapter_name adapter then config_error now (hc_identity ctx) (u ''with.adapter is missing or malformed'') st1
              else (case build_adapter_argv env rendered of
                Inl bad \<Rightarrow> config_error now (hc_identity ctx) (u (''with key '' @ [CHR 0x22]) @ bad @ u (CHR 0x22 # '' does not match ^[a-z][a-z0-9_]*$'')) st1
              | Inr argv \<Rightarrow>
                  (case env_adapter env adapter of
                     None \<Rightarrow> config_error now (hc_identity ctx) (u ''adapter not found / not opted in'') st1
                   | Some path \<Rightarrow>
                       (Go_on \<lparr>sc_program = path, sc_argv = argv, sc_cwd = None,
                               sc_env = build_child_env env (map_of rendered (u ''env'')) (hc_token_env ctx)\<rparr>, st1)))
          | _ \<Rightarrow> config_error now (hc_identity ctx) (u ''with.adapter is missing or malformed'') st1) st)"

text \<open>
  The subprocess of one attempt: what its events make of the outcome.  Once it is settled the
  timers are cleared and later events change nothing.
\<close>

datatype child_event =
  Child_stdout utext
| Child_timeout
| Child_error "string option"
| Child_close "int option" string

record child_state =
  child_settled :: "(dispatch_status \<times> handler_outcome) option"
  child_timed_out :: bool
  child_stdout :: utext

definition MAX_SESSION_ID_LEN :: nat where "MAX_SESSION_ID_LEN = 512"

definition js_space :: "nat \<Rightarrow> bool" where
  "js_space c \<longleftrightarrow> (9 \<le> c \<and> c \<le> 13) \<or> c = 32 \<or> c = 160 \<or> c = 0x1680 \<or> (0x2000 \<le> c \<and> c \<le> 0x200A) \<or>
     c = 0x2028 \<or> c = 0x2029 \<or> c = 0x202F \<or> c = 0x205F \<or> c = 0x3000 \<or> c = 0xFEFF"

definition capture_session_id :: "utext \<Rightarrow> utext option" where
  "capture_session_id out =
     (let line = takeWhile (\<lambda>c. c \<noteq> 10) out;
          trimmed = rev (dropWhile js_space (rev (dropWhile js_space line)))
      in if trimmed = [] then None else Some (take MAX_SESSION_ID_LEN trimmed))"

definition child_step :: "bool \<Rightarrow> child_state \<Rightarrow> child_event \<Rightarrow> child_state" where
  "child_step reads_stdout c e =
     (if child_settled c \<noteq> None then c
      else case e of
        Child_stdout chunk \<Rightarrow>
          (if reads_stdout \<and> length (child_stdout c) < MAX_SESSION_ID_LEN * 4
           then c\<lparr>child_stdout := child_stdout c @ chunk\<rparr> else c)
      | Child_timeout \<Rightarrow> c\<lparr>child_timed_out := True\<rparr>
      | Child_error code \<Rightarrow>
          (let terminal = (code = Some ''ENOENT'' \<or> code = Some ''EACCES'') in
           c\<lparr>child_settled := Some
             (if terminal then (PERMANENTLY_FAILED, Failed False (u (''spawn '' @ case_option ''error'' id code)))
              else (FAILED, Failed True (u ''spawn error'')))\<rparr>)
      | Child_close code signal \<Rightarrow>
          (if child_timed_out c then c\<lparr>child_settled := Some (FAILED, Failed True (u ''timed out''))\<rparr>
           else if code = Some 0
           then c\<lparr>child_settled := Some (SUCCEEDED, Succeeded (if reads_stdout then capture_session_id (child_stdout c) else None))\<rparr>
           else c\<lparr>child_settled := Some (FAILED, Failed True (u (''exit code '' @
                   (case code of None \<Rightarrow> ''signal '' @ signal | Some n \<Rightarrow> string_of_int n))))\<rparr>))"

datatype child_run = Spawn_threw | Child_events "child_event list"

definition child_outcome :: "bool \<Rightarrow> child_run \<Rightarrow> (dispatch_status \<times> handler_outcome) option" where
  "child_outcome reads_stdout r =
     (case r of
        Spawn_threw \<Rightarrow> Some (PERMANENTLY_FAILED, Failed False (u ''spawn failed''))
      | Child_events es \<Rightarrow>
          child_settled (foldl (child_step reads_stdout) \<lparr>child_settled = None, child_timed_out = False, child_stdout = []\<rparr> es))"

section \<open>The registry\<close>

text \<open>An effect a handler asks for, what comes back of it, and the handler of each name.\<close>

datatype effect = Http_effect http_request | Webhook_effect webhook_call | Spawn_effect spawn_call

datatype effect_result = Http_came http_result | Delivery_came delivery | Child_came child_run

fun map_step :: "('a \<Rightarrow> 'b) \<Rightarrow> 'a handler_step \<Rightarrow> 'b handler_step" where
  "map_step f (Threw e) = Threw e"
| "map_step f (Returned out) = Returned out"
| "map_step f (Go_on x) = Go_on (f x)"

definition handler_start ::
  "handler_name \<Rightarrow> environment \<Rightarrow> int \<Rightarrow> handler_context \<Rightarrow> dispatch_log \<Rightarrow> effect handler_step \<times> dispatch_log" where
  "handler_start h env now ctx st =
     (case h of
        Create_task_in_project \<Rightarrow> apfst (map_step Http_effect) (create_task_start env now ctx st)
      | Webhook_post \<Rightarrow> apfst (map_step Webhook_effect) (webhook_start env now ctx st)
      | Shell_exec \<Rightarrow> apfst (map_step Spawn_effect) (shell_exec_start env now ctx st)
      | Agent_session_dispatch \<Rightarrow> apfst (map_step Spawn_effect) (agent_session_start env now ctx st))"

definition effect_outcome :: "handler_name \<Rightarrow> effect_result \<Rightarrow> (dispatch_status \<times> handler_outcome) option" where
  "effect_outcome h r =
     (case r of
        Http_came x \<Rightarrow> Some (http_outcome x)
      | Delivery_came d \<Rightarrow> Some (delivery_outcome d)
      | Child_came c \<Rightarrow> child_outcome (h = Agent_session_dispatch) c)"

definition handler_finish ::
  "handler_name \<Rightarrow> int \<Rightarrow> dispatch_identity \<Rightarrow> effect_result \<Rightarrow> dispatch_log \<Rightarrow> (handler_outcome \<times> dispatch_log) option" where
  "handler_finish h now i r st =
     (case effect_outcome h r of
        None \<Rightarrow> None
      | Some (status, out) \<Rightarrow> Some (out, snd (store_complete now (di_rule i) (di_event i) status st)))"

end
