(* ===== verification/Handler_Laws.thy ===== *)
theory Handler_Laws
  imports Router_Handlers
begin

text \<open>
  What the four handlers of the router promise: the contract that \<open>handlers/types.ts\<close> states in
  prose, as a locale that the registry interprets; the endpoint guard of \<open>webhook_post\<close> along a
  chain of redirects; and the environment a subprocess sees.
\<close>

section \<open>The contract\<close>

fun outcome_status :: "handler_outcome \<Rightarrow> dispatch_status" where
  "outcome_status (Succeeded _) = SUCCEEDED"
| "outcome_status (Failed retryable _) = (if retryable then FAILED else PERMANENTLY_FAILED)"
| "outcome_status (Suppressed _) = PENDING"

definition status_at :: "string \<Rightarrow> string \<Rightarrow> dispatch_log \<Rightarrow> dispatch_status option" where
  "status_at rule event st = map_option row_status (find (has_key rule event) st)"


text \<open>Steps of other callers that do not finish the row of a key.\<close>

fun leaves_alone :: "string \<Rightarrow> string \<Rightarrow> store_op \<Rightarrow> bool" where
  "leaves_alone rule event (Claim_op now ci) \<longleftrightarrow> True"
| "leaves_alone rule event (Complete_op now r e st) \<longleftrightarrow> \<not> (r = rule \<and> e = event)"
| "leaves_alone rule event (Replay_op w now now') \<longleftrightarrow> False"

lemma find_map_other:
  "(\<And>r. has_key rule event (f r) = has_key rule event r) \<Longrightarrow> (\<And>r. has_key rule event r \<Longrightarrow> f r = g r) \<Longrightarrow>
     find (has_key rule event) (map f st) = map_option g (find (has_key rule event) st)"
  by (induction st) auto

lemma status_completed:
  assumes "status_at rule event st = Some PENDING" "s \<noteq> PENDING"
  shows "status_at rule event (snd (store_complete now rule event s st)) = Some s"
proof -
  let ?f = "\<lambda>r. if has_key rule event r \<and> row_status r = PENDING then finish_row s now r else r"
  let ?g = "\<lambda>r. if row_status r = PENDING then finish_row s now r else r"
  have "find (has_key rule event) (map ?f st) = map_option ?g (find (has_key rule event) st)"
    by (rule find_map_other) (auto simp: finish_row_def)
  with assms show ?thesis by (auto simp: status_at_def store_complete_def Let_def)
qed

lemma status_unknown: "\<not> known rule event st \<Longrightarrow> status_at rule event st = None"
  using find_known [of rule event st] by (simp add: status_at_def)

lemma status_known: "known rule event st \<Longrightarrow> status_at rule event st \<noteq> None"
  using find_known [of rule event st] by (auto simp: status_at_def)

lemma status_step:
  assumes "leaves_alone rule event op" "status_at rule event st = Some s"
  shows "status_at rule event (store_step st op) = Some s"
proof (cases op)
  case (Claim_op now ci)
  have "find (has_key rule event) (st @ xs) = find (has_key rule event) st" for xs
    using assms(2) by (auto simp: status_at_def find_append)
  with Claim_op assms(2) show ?thesis by (auto simp: store_claim_def status_at_def split: option.split)
next
  case (Complete_op now r e x)
  let ?f = "\<lambda>y. if has_key r e y \<and> row_status y = PENDING then finish_row x now y else y"
  have "find (has_key rule event) (map ?f st) = map_option (\<lambda>y. y) (find (has_key rule event) st)"
    by (rule find_map_other) (use assms(1) Complete_op in \<open>auto simp: finish_row_def\<close>)
  with Complete_op assms(2) show ?thesis
    by (auto simp: store_complete_def status_at_def Let_def option.map_ident)
qed (use assms in simp)

lemma status_run:
  "list_all (leaves_alone rule event) ops \<Longrightarrow> status_at rule event st = Some s \<Longrightarrow>
     status_at rule event (run_store st ops) = Some s"
  unfolding run_store_def by (induction ops arbitrary: st) (simp_all add: status_step)

text \<open>
  The contract of \<open>handlers/types.ts\<close>: a handler that performs its effect has claimed the
  dispatch before, one that returns without it has not, unless it is a configuration error, and
  the final status it writes is the one its outcome stands for.
\<close>

locale handler_contract =
  fixes rule event :: string
    and start :: "dispatch_log \<Rightarrow> 'req handler_step \<times> dispatch_log"
    and finish :: "'res \<Rightarrow> dispatch_log \<Rightarrow> (handler_outcome \<times> dispatch_log) option"
  assumes start_known: "known rule event st \<Longrightarrow> start st = (s, st') \<Longrightarrow>
      st' = st \<and> (\<forall>req. s \<noteq> Go_on req)"
    and start_fresh: "\<not> known rule event st \<Longrightarrow> start st = (s, st') \<Longrightarrow>
      (case s of
         Go_on req \<Rightarrow> status_at rule event st' = Some PENDING
       | Returned out \<Rightarrow> outcome_status out = PERMANENTLY_FAILED \<and>
           (st' = st \<or> status_at rule event st' = Some PERMANENTLY_FAILED)
       | Threw e \<Rightarrow> st' = st)"
    and finish_writes: "finish r st = Some (out, st') \<Longrightarrow>
      outcome_status out \<noteq> PENDING \<and> (\<exists>now. st' = snd (store_complete now rule event (outcome_status out) st))"
begin

lemma effect_is_claimed: "start st = (Go_on req, st') \<Longrightarrow> \<not> known rule event st \<and> status_at rule event st' = Some PENDING"
  using start_known [of st "Go_on req" st'] start_fresh [of st "Go_on req" st'] by auto

lemma outcome_matches:
  assumes "start st = (Go_on req, st1)" "list_all (leaves_alone rule event) ops"
    and "finish r (run_store st1 ops) = Some (out, st2)"
  shows "\<not> known rule event st \<and> status_at rule event st2 = Some (outcome_status out)"
proof
  show "\<not> known rule event st" using effect_is_claimed [OF assms(1)] by blast
  have "status_at rule event (run_store st1 ops) = Some PENDING"
    using status_run [OF assms(2)] effect_is_claimed [OF assms(1)] by blast
  with finish_writes [OF assms(3)] show "status_at rule event st2 = Some (outcome_status out)"
    by (auto intro: status_completed)
qed

end

section \<open>Every handler keeps the contract\<close>

lemma known_has_row: "known rule event st \<longleftrightarrow> (\<exists>r. find (has_key rule event) st = Some r)"
  using find_known [of rule event st] by auto

lemma gate_known:
  assumes "known (di_rule i) (di_event i) st"
  shows "gate env now i block k st = (s, st') \<Longrightarrow> st' = st \<and> (\<exists>x. s = Returned (Suppressed x))"
  using assms unfolding known_has_row
  by (auto simp: gate_def store_claim_def claim_input_of_def split: if_splits)

text \<open>What may follow the gate: the effect, or a configuration error written to the log.\<close>

definition gated :: "dispatch_identity \<Rightarrow> dispatch_log \<Rightarrow> 'req handler_step \<times> dispatch_log \<Rightarrow> bool" where
  "gated i st1 r \<longleftrightarrow> (case fst r of
     Go_on req \<Rightarrow> snd r = st1
   | Returned out \<Rightarrow> \<exists>now d. r = config_error now i d st1
   | Threw e \<Rightarrow> False)"

lemma gated_config_error [simp]: "gated i st1 (config_error now i d st1)"
  by (auto simp: gated_def config_error_def)

lemma gated_go_on [simp]: "gated i st1 (Go_on req, st1)"
  by (simp add: gated_def)

lemma claim_fresh:
  assumes "\<not> known (ci_rule ci) (ci_event ci) st"
  shows "\<exists>st1. store_claim now ci st = (CLAIMED, st1) \<and> status_at (ci_rule ci) (ci_event ci) st1 = Some PENDING"
proof -
  have "find (has_key (ci_rule ci) (ci_event ci)) st = None" using assms by (simp add: find_known)
  then show ?thesis by (simp add: store_claim_def status_at_def find_append)
qed

lemma gate_fresh:
  assumes "\<not> known (di_rule i) (di_event i) st" and "\<And>st1. gated i st1 (k st1)"
    and "gate env now i block k st = (s, st')"
  shows "case s of
      Go_on req \<Rightarrow> status_at (di_rule i) (di_event i) st' = Some PENDING
    | Returned out \<Rightarrow> outcome_status out = PERMANENTLY_FAILED \<and>
        (st' = st \<or> status_at (di_rule i) (di_event i) st' = Some PERMANENTLY_FAILED)
    | Threw e \<Rightarrow> st' = st"
proof -
  obtain st1 where k: "(s, st') = k st1" "status_at (di_rule i) (di_event i) st1 = Some PENDING"
    using assms(1,3) claim_fresh [of "claim_input_of i (env_stringify env block)" st now]
    by (auto simp: gate_def claim_input_of_def dest: sym)
  show ?thesis
  proof (cases s)
    case (Returned out)
    then have "fst (k st1) = Returned out" by (simp flip: k(1))
    then obtain n d where "(s, st') = config_error n i d st1"
      using assms(2) [of st1] k(1) by (auto simp: gated_def)
    with k(2) Returned show ?thesis by (auto simp: config_error_def status_completed)
  qed (use assms(2) [of st1] k(2) in \<open>auto simp: gated_def simp flip: k(1)\<close>)
qed

text \<open>The shape all four starts have.\<close>

definition well_started :: "dispatch_identity \<Rightarrow> (dispatch_log \<Rightarrow> 'req handler_step \<times> dispatch_log) \<Rightarrow> bool" where
  "well_started i start \<longleftrightarrow>
     (\<exists>d. \<forall>st. start st = (Returned (Failed False d), st)) \<or> (\<exists>e. \<forall>st. start st = (Threw e, st)) \<or>
     (\<exists>env now block k. (\<forall>st. gated i st (k st)) \<and> (\<forall>st. start st = gate env now i block k st))"

lemma gate_well_started: "(\<And>st. gated i st (k st)) \<Longrightarrow> well_started i (\<lambda>st. gate env now i block k st)"
  unfolding well_started_def by blast

lemma prepare_missing: "prepare env ctx = Inl (Inl out) \<Longrightarrow> \<exists>d. out = Failed False d"
  by (auto simp: prepare_def split: option.splits sum.splits)

lemma create_task_well_started: "well_started (hc_identity ctx) (create_task_start env now ctx)"
proof (cases "prepare env ctx")
  case (Inl x)
  then show ?thesis using prepare_missing [of env ctx]
    by (cases x) (auto simp: well_started_def create_task_start_def)
next
  case (Inr rendered)
  then show ?thesis unfolding create_task_start_def
    by (simp, intro gate_well_started) (simp split: option.split)
qed

lemma webhook_well_started: "well_started (hc_identity ctx) (webhook_start env now ctx)"
proof (cases "prepare env ctx")
  case (Inl x)
  then show ?thesis using prepare_missing [of env ctx]
    by (cases x) (auto simp: well_started_def webhook_start_def)
next
  case (Inr rendered)
  then show ?thesis unfolding webhook_start_def
    by (simp, intro gate_well_started) (simp add: Let_def split: option.split json.split prod.split)
qed

lemma shell_exec_well_started: "well_started (hc_identity ctx) (shell_exec_start env now ctx)"
proof (cases "case hc_rendered_with ctx of Some b \<Rightarrow> Some b | None \<Rightarrow> hc_with_block ctx")
  case None
  then show ?thesis by (simp add: well_started_def shell_exec_start_def)
next
  case (Some block)
  then show ?thesis unfolding shell_exec_start_def
    by (simp, intro gate_well_started) (simp split: option.split json.split)
qed

lemma agent_session_well_started: "well_started (hc_identity ctx) (agent_session_start env now ctx)"
proof (cases "prepare env ctx")
  case (Inl x)
  then show ?thesis by (cases x) (auto simp: well_started_def agent_session_start_def)
next
  case (Inr rendered)
  then show ?thesis unfolding agent_session_start_def
    by (simp, intro gate_well_started) (simp split: option.split json.split sum.split)
qed

lemma well_started_map: "well_started i start \<Longrightarrow> well_started i (\<lambda>st. apfst (map_step f) (start st))"
proof -
  assume w: "well_started i start"
  then consider (ret) d where "\<forall>st. start st = (Returned (Failed False d), st)" | (thr) e where "\<forall>st. start st = (Threw e, st)"
    | (gate) env now block k where "\<forall>st. gated i st (k st)" "\<forall>st. start st = gate env now i block k st"
    unfolding well_started_def by blast
  then show ?thesis
  proof cases
    case gate
    have "gated i st (apfst (map_step f) (k st))" for st
      using gate(1) [rule_format, of st]
      by (cases "k st"; cases "fst (k st)") (auto simp: gated_def config_error_def)
    moreover have "apfst (map_step f) (start st) = gate env now i block (\<lambda>st. apfst (map_step f) (k st)) st" for st
      by (simp add: gate(2) gate_def split: prod.split claim_result.split)
    ultimately have "(\<forall>st. gated i st (apfst (map_step f) (k st))) \<and>
        (\<forall>st. apfst (map_step f) (start st) = gate env now i block (\<lambda>st. apfst (map_step f) (k st)) st)"
      by blast
    then show ?thesis unfolding well_started_def by (intro disjI2 exI)
  qed (auto simp: well_started_def)
qed

lemma handler_well_started: "well_started (hc_identity ctx) (handler_start h env now ctx)"
proof -
  note ws = create_task_well_started webhook_well_started shell_exec_well_started agent_session_well_started
  show ?thesis unfolding handler_start_def
    by (cases h) (simp_all add: well_started_map [OF ws(1)] well_started_map [OF ws(2)]
        well_started_map [OF ws(3)] well_started_map [OF ws(4)])
qed

definition true_pair :: "dispatch_status \<times> handler_outcome \<Rightarrow> bool" where
  "true_pair p \<longleftrightarrow> outcome_status (snd p) = fst p \<and> fst p \<noteq> PENDING"

lemma http_outcome_true: "true_pair (http_outcome r)"
  by (simp add: true_pair_def http_outcome_def split: http_result.split)

lemma delivery_outcome_true: "true_pair (delivery_outcome d)"
  using http_outcome_true by (simp add: true_pair_def delivery_outcome_def split: delivery.split)

lemma child_outcome_true: "child_outcome b r = Some p \<Longrightarrow> true_pair p"
proof -
  have step: "pred_option true_pair (child_settled (child_step b c e))" if "pred_option true_pair (child_settled c)" for c e
    using that by (auto simp: child_step_def true_pair_def Let_def split: child_event.split)
  have "pred_option true_pair (child_settled (foldl (child_step b) c es))" if "pred_option true_pair (child_settled c)" for c es
    using that by (induction es arbitrary: c) (simp_all add: step)
  from this [of "\<lparr>child_settled = None, child_timed_out = False, child_stdout = []\<rparr>"]
  show "child_outcome b r = Some p \<Longrightarrow> true_pair p"
    by (auto simp: child_outcome_def true_pair_def split: child_run.splits) (metis option.pred_inject(2) true_pair_def)+
qed

lemma effect_outcome_true: "effect_outcome h r = Some p \<Longrightarrow> true_pair p"
  using http_outcome_true delivery_outcome_true child_outcome_true
  by (auto simp: effect_outcome_def split: effect_result.splits)

interpretation registry: handler_contract "di_rule (hc_identity ctx)" "di_event (hc_identity ctx)"
  "handler_start h env now ctx" "handler_finish h now' (hc_identity ctx)" for h env now now' ctx
proof
  let ?r = "di_rule (hc_identity ctx)" and ?e = "di_event (hc_identity ctx)"
  consider (ret) d where "\<forall>st. handler_start h env now ctx st = (Returned (Failed False d), st)"
    | (thr) e where "\<forall>st. handler_start h env now ctx st = (Threw e, st)"
    | (gate) env' n block k where "\<forall>st. gated (hc_identity ctx) st (k st)"
        "\<forall>st. handler_start h env now ctx st = gate env' n (hc_identity ctx) block k st"
    using handler_well_started [of ctx h env now] unfolding well_started_def
    by (elim disjE exE conjE) metis+
  note cases = this
  show "st' = st \<and> (\<forall>req. s \<noteq> Go_on req)" if "known ?r ?e st" "handler_start h env now ctx st = (s, st')" for st s st'
    using cases
  proof cases
    case gate
    with gate_known [OF that(1)] that(2) show ?thesis by fastforce
  qed (use that in auto)
  show "case s of
      Go_on req \<Rightarrow> status_at ?r ?e st' = Some PENDING
    | Returned out \<Rightarrow> outcome_status out = PERMANENTLY_FAILED \<and> (st' = st \<or> status_at ?r ?e st' = Some PERMANENTLY_FAILED)
    | Threw e \<Rightarrow> st' = st" if "\<not> known ?r ?e st" "handler_start h env now ctx st = (s, st')" for st s st'
    using cases
  proof cases
    case gate
    show ?thesis using gate_fresh [OF that(1), of k] gate that(2) by metis
  qed (use that in auto)
  show "outcome_status out \<noteq> PENDING \<and> (\<exists>now. st' = snd (store_complete now ?r ?e (outcome_status out) st))"
    if "handler_finish h now' (hc_identity ctx) r st = Some (out, st')" for r st out st'
    using that effect_outcome_true [of h r]
    by (auto simp: handler_finish_def true_pair_def split: option.splits)
qed


text \<open>
  A handler never lies in the log: when it gets as far as performing its effect, the
  dispatch was not in the log before, and whatever other callers do to the other rows
  meanwhile, after it has finished the row holds the status its outcome stands for.
\<close>

theorem handlers_keep_the_log_true:
  assumes "handler_start h env now ctx st = (Go_on eff, st1)"
    and "list_all (leaves_alone (di_rule (hc_identity ctx)) (di_event (hc_identity ctx))) ops"
    and "handler_finish h now' (hc_identity ctx) r (run_store st1 ops) = Some (out, st2)"
  shows "\<not> known (di_rule (hc_identity ctx)) (di_event (hc_identity ctx)) st \<and>
    status_at (di_rule (hc_identity ctx)) (di_event (hc_identity ctx)) st2 = Some (outcome_status out)"
  using assms by (rule registry.outcome_matches)

definition sample_env :: environment where
  "sample_env = \<lparr>env_inherited = (\<lambda>_ _. None), env_stringify = (\<lambda>_. ''{}''), env_body_text = (\<lambda>_. []),
     env_number_text = (\<lambda>_. u ''0''), env_uri_component = (\<lambda>s. s),
     env_parse_url = (\<lambda>url. if take 6 url = u ''https:'' then Some (''https:'', ''example.org'')
                            else if take 5 url = u ''http:'' then Some (''http:'', ''127.0.0.1'') else None),
     env_join_url = (\<lambda>loc url. Some loc), env_vars = [(u ''PATH'', u ''/bin''), (u ''SECRET'', u ''x'')],
     env_link_local = None, env_adapter = (\<lambda>_. None), env_cwd = u ''/''\<rparr>"

definition sample_ctx :: handler_context where
  "sample_ctx = \<lparr>hc_task = None,
     hc_identity = \<lparr>di_rule = ''hook'', di_event = ''7'', di_task = None, di_to_status = None, di_emitted_at = None\<rparr>,
     hc_rendered_with = Some [(u ''url'', JStr (u ''https://a''))], hc_with_block = None, hc_api_base = u ''b'',
     hc_auth_token = u ''t'', hc_token_env = None\<rparr>"

theorem handlers_keep_the_log_true_witness:
  "\<not> known ''hook'' ''7'' [] \<and>
   status_at ''hook'' ''7'' (snd (the (handler_finish Webhook_post 5 (hc_identity sample_ctx)
      (Delivery_came (Delivered (Http_response 500 None)))
      (run_store (snd (handler_start Webhook_post sample_env 3 sample_ctx [])) [Complete_op 4 ''hook'' ''6'' SUCCEEDED])))) =
     Some FAILED"
proof -
  let ?st1 = "snd (handler_start Webhook_post sample_env 3 sample_ctx [])"
  let ?st2 = "snd (the (handler_finish Webhook_post 5 (hc_identity sample_ctx)
      (Delivery_came (Delivered (Http_response 500 None))) (run_store ?st1 [Complete_op 4 ''hook'' ''6'' SUCCEEDED])))"
  have start: "handler_start Webhook_post sample_env 3 sample_ctx [] =
      (Go_on (Webhook_effect \<lparr>wc_url = u ''https://a'', wc_headers = [], wc_body = None\<rparr>), ?st1)"
    by code_simp
  have finish: "handler_finish Webhook_post 5 (hc_identity sample_ctx) (Delivery_came (Delivered (Http_response 500 None)))
      (run_store ?st1 [Complete_op 4 ''hook'' ''6'' SUCCEEDED]) = Some (Failed True (u (http_status_text 500 ''server error'')), ?st2)"
    by code_simp
  have "list_all (leaves_alone ''hook'' ''7'') [Complete_op 4 ''hook'' ''6'' SUCCEEDED]" by simp
  then show ?thesis
    using handlers_keep_the_log_true [OF start _ finish] by (simp add: sample_ctx_def)
qed


section \<open>Where a webhook may go\<close>

definition https_url :: "environment \<Rightarrow> utext \<Rightarrow> bool" where
  "https_url env url \<longleftrightarrow>
     (case env_parse_url env url of Some (protocol, _) \<Rightarrow> to_lower protocol = ''https:'' | None \<Rightarrow> False)"

definition near_http_url :: "environment \<Rightarrow> utext \<Rightarrow> bool" where
  "near_http_url env url \<longleftrightarrow>
     (case env_parse_url env url of
        Some (protocol, hostname) \<Rightarrow>
          to_lower protocol = ''http:'' \<and>
          (let host = normalize_host hostname in
           is_loopback_host host \<or> is_private_host host \<or> (is_link_local_host host \<and> link_local_opt_in env))
      | None \<Rightarrow> False)"

lemma redirect_allowed: "assert_endpoint_allowed env url True = None \<Longrightarrow> https_url env url"
  by (auto simp: assert_endpoint_allowed_def https_url_def Let_def split: option.splits if_splits)

lemma first_allowed: "assert_endpoint_allowed env url False = None \<Longrightarrow> https_url env url \<or> near_http_url env url"
  by (auto simp: assert_endpoint_allowed_def https_url_def near_http_url_def Let_def split: option.splits if_splits)

lemma webhook_go_on: "webhook_start env now ctx st = (Go_on call, st1) \<Longrightarrow> assert_endpoint_allowed env (wc_url call) False = None"
  by (auto simp: webhook_start_def gate_def config_error_def Let_def
      split: sum.splits prod.splits claim_result.splits option.splits json.splits if_splits)

lemma deliver_urls:
  "deliver env http left n url = (d, urls) \<Longrightarrow>
     (\<exists>rest. urls = url # rest \<and> length rest \<le> left \<and> list_all (https_url env) rest)"
proof (induction env http left n url arbitrary: d urls rule: deliver.induct)
  case (1 env http left n url)
  show ?case using "1.prems"
    by (subst (asm) deliver.simps)
      (auto split: http_result.splits option.splits if_splits nat.splits prod.splits
        dest!: "1.IH" dest: redirect_allowed)
qed

text \<open>
  C22.  The credentials of a webhook leave over TLS or stay near: the first request goes to the
  configured URL, which is https or plain http to a loopback, private or opted-in link-local
  host; at most five redirects are followed, every one of them to https.
\<close>

theorem webhook_requests_are_guarded:
  assumes "webhook_start env now ctx st = (Go_on call, st1)"
    and "deliver env http MAX_REDIRECT_HOPS 0 (wc_url call) = (d, urls)"
  shows "\<exists>rest. urls = wc_url call # rest \<and> length rest \<le> 5 \<and> list_all (https_url env) rest \<and>
    (https_url env (wc_url call) \<or> near_http_url env (wc_url call))"
  using deliver_urls [OF assms(2)] first_allowed [OF webhook_go_on [OF assms(1)]]
  by (auto simp: MAX_REDIRECT_HOPS_def)

definition redirecting :: "nat \<Rightarrow> utext \<Rightarrow> http_result" where
  "redirecting n url = (if n = 0 then Http_response 302 (Some (u ''https://b''))
     else if n = 1 then Http_response 302 (Some (u ''http://c'')) else Http_response 200 None)"

theorem webhook_requests_are_guarded_witness:
  "\<exists>rest. [u ''https://a'', u ''https://b''] = u ''https://a'' # rest \<and> length rest \<le> 5 \<and>
     list_all (https_url sample_env) rest \<and>
     (https_url sample_env (u ''https://a'') \<or> near_http_url sample_env (u ''https://a''))"
proof -
  have start: "webhook_start sample_env 3 sample_ctx [] =
      (Go_on \<lparr>wc_url = u ''https://a'', wc_headers = [], wc_body = None\<rparr>, snd (webhook_start sample_env 3 sample_ctx []))"
    by code_simp
  have "deliver sample_env redirecting MAX_REDIRECT_HOPS 0 (u ''https://a'') =
      (Redirect_refused ''http:// redirect target refused (credential-exposure guard)'', [u ''https://a'', u ''https://b''])"
    by code_simp
  then show ?thesis using webhook_requests_are_guarded [OF start, of redirecting] by simp
qed

section \<open>What a subprocess sees\<close>

definition env_literals :: "environment \<Rightarrow> json option \<Rightarrow> (utext \<times> utext) list" where
  "env_literals env rendered_env =
     (case rendered_env of
        Some (JObj kvs) \<Rightarrow> map (\<lambda>(k, v). (k, js_string (env_number_text env) v)) (filter (\<lambda>(k, v). v \<noteq> JNull) kvs)
      | _ \<Rightarrow> [])"

lemma get_allowed:
  "js_get (foldl (\<lambda>out k. case vars k of Some v \<Rightarrow> js_put k v out | None \<Rightarrow> out) m ks) k =
     (if k \<in> set ks \<and> vars k \<noteq> None then vars k else js_get m k)"
  by (induction ks arbitrary: m) (auto split: option.split)

lemma get_literals:
  "js_get (foldl (\<lambda>out (k, v). if v = JNull then out else js_put k (f v) out) m kvs) k =
     (case map_of (rev (map (\<lambda>(k, v). (k, f v)) (filter (\<lambda>(k, v). v \<noteq> JNull) kvs))) k of
        Some v \<Rightarrow> Some v | None \<Rightarrow> js_get m k)"
proof (induction kvs arbitrary: m)
  case (Cons kv kvs)
  then show ?case by (cases kv) (auto simp: map_add_def split: option.split)
qed simp

lemma get_token:
  "js_get (case token_env of None \<Rightarrow> m
      | Some name \<Rightarrow> if name = [] then m else (case js_get vars name of Some v \<Rightarrow> js_put name v m | None \<Rightarrow> m)) k =
     (if token_env = Some k \<and> k \<noteq> [] \<and> js_get vars k \<noteq> None then js_get vars k else js_get m k)"
  by (cases token_env) (auto split: option.split)

text \<open>
  A subprocess sees nothing of the router's environment it was not given: a variable comes
  from the token the rule names, else from the last entry for it in the rule's own \<open>env\<close> block,
  else from the parent if it is one of the five allowed names; every other variable is unset.
\<close>

theorem child_env_leaks_nothing:
  "js_get (build_child_env env rendered_env token_env) k =
     (if token_env = Some k \<and> k \<noteq> [] \<and> js_get (env_vars env) k \<noteq> None then js_get (env_vars env) k
      else (case map_of (rev (env_literals env rendered_env)) k of
              Some v \<Rightarrow> Some v
            | None \<Rightarrow> if k \<in> set DEFAULT_ENV_ALLOWLIST then js_get (env_vars env) k else None))"
proof -
  let ?allowed = "foldl (\<lambda>out k. case js_get (env_vars env) k of Some v \<Rightarrow> js_put k v out | None \<Rightarrow> out) [] DEFAULT_ENV_ALLOWLIST"
  let ?literal = "case rendered_env of
      Some (JObj kvs) \<Rightarrow> foldl (\<lambda>out (k, v). if v = JNull then out else js_put k (js_string (env_number_text env) v) out) ?allowed kvs
    | _ \<Rightarrow> ?allowed"
  have allowed: "js_get ?allowed k = (if k \<in> set DEFAULT_ENV_ALLOWLIST then js_get (env_vars env) k else None)"
    unfolding get_allowed by simp
  have "js_get ?literal k = (case map_of (rev (env_literals env rendered_env)) k of
      Some v \<Rightarrow> Some v | None \<Rightarrow> js_get ?allowed k)"
  proof (cases "\<exists>kvs. rendered_env = Some (JObj kvs)")
    case True
    then show ?thesis by (elim exE) (simp only: option.case json.case get_literals env_literals_def)
  next
    case False
    then have "?literal = ?allowed" "env_literals env rendered_env = []"
      by (auto simp: env_literals_def split: option.split json.split)
    then show ?thesis by simp
  qed
  moreover have "build_child_env env rendered_env token_env =
     (case token_env of None \<Rightarrow> ?literal
      | Some name \<Rightarrow> if name = [] then ?literal
          else (case js_get (env_vars env) name of Some v \<Rightarrow> js_put name v ?literal | None \<Rightarrow> ?literal))"
    unfolding build_child_env_def Let_def by (rule refl)
  ultimately show ?thesis by (simp only: get_token allowed)
qed

end
