(* ===== verification/Debouncer.thy ===== *)
theory Debouncer
  imports Prelude
begin

text \<open>
  The trailing-edge debouncer, \<open>packages/wft-router/src/dispatch/debounce.ts\<close>, with its map of
  buckets and the timers it arms.  A promise is the number of its push, and resolving it is an
  entry of a log.  Time is an argument: \<open>setTimeout\<close> runs a callback at its deadline or later,
  and not at all once it was cleared.  The second part states what a debouncer should do, with
  no counters and no timers, and shows that the code does it.
\<close>

section \<open>Buckets and timers\<close>

record 'p bucket =
  bucket_no :: nat
  latestPayload :: 'p
  coalescedCount :: nat
  timerHandle :: nat
  subscribers :: "nat list"

record timer =
  handle :: nat
  timer_key :: string
  timer_bucket :: nat
  deadline :: int

record 'p debouncer =
  windowMs :: int
  buckets :: "(string, 'p bucket) jsmap"
  armed :: "timer list"
  next_no :: nat
  resolved :: "(nat \<times> 'p \<times> nat) list"

definition WINDOW_DEFAULT :: int where "WINDOW_DEFAULT = 1500"

definition new_debouncer :: "int option \<Rightarrow> 'p debouncer" where
  "new_debouncer w = \<lparr>windowMs = case_option WINDOW_DEFAULT id w, buckets = [], armed = [], next_no = 0, resolved = []\<rparr>"

definition compound_key :: "string \<Rightarrow> string \<Rightarrow> string" where
  "compound_key rule event = rule @ CHR 0x00 # event"

definition clear_timer :: "nat \<Rightarrow> 'p debouncer \<Rightarrow> 'p debouncer" where
  "clear_timer h d = d\<lparr>armed := filter (\<lambda>t. handle t \<noteq> h) (armed d)\<rparr>"

definition schedule_fire :: "int \<Rightarrow> string \<Rightarrow> nat \<Rightarrow> 'p debouncer \<Rightarrow> nat \<times> 'p debouncer" where
  "schedule_fire now key no d =
     (next_no d, d\<lparr>armed := armed d @ [\<lparr>handle = next_no d, timer_key = key, timer_bucket = no, deadline = now + windowMs d\<rparr>],
                   next_no := next_no d + 1\<rparr>)"

definition push :: "int \<Rightarrow> string \<Rightarrow> string \<Rightarrow> nat \<Rightarrow> 'p \<Rightarrow> 'p debouncer \<Rightarrow> 'p debouncer" where
  "push now rule event promise payload d =
     (let key = compound_key rule event in
      case js_get (buckets d) key of
        Some b \<Rightarrow>
          (case schedule_fire now key (bucket_no b) (clear_timer (timerHandle b) d) of (h, d1) \<Rightarrow>
             d1\<lparr>buckets := js_put key (b\<lparr>latestPayload := payload, coalescedCount := coalescedCount b + 1,
                                        timerHandle := h, subscribers := subscribers b @ [promise]\<rparr>) (buckets d1)\<rparr>)
      | None \<Rightarrow>
          (case schedule_fire now key (next_no d) (d\<lparr>next_no := next_no d + 1\<rparr>) of (h, d1) \<Rightarrow>
             d1\<lparr>buckets := js_put key \<lparr>bucket_no = next_no d, latestPayload = payload, coalescedCount = 1,
                                       timerHandle = h, subscribers = [promise]\<rparr> (buckets d1)\<rparr>))"

definition fire_bucket :: "string \<Rightarrow> 'p bucket \<Rightarrow> 'p debouncer \<Rightarrow> 'p debouncer" where
  "fire_bucket key b d =
     d\<lparr>buckets := js_del key (buckets d),
       resolved := resolved d @ map (\<lambda>s. (s, latestPayload b, coalescedCount b)) (subscribers b)\<rparr>"

text \<open>The callback that \<open>scheduleFire\<close> hands to \<open>setTimer\<close>.\<close>

definition timer_callback :: "string \<Rightarrow> nat \<Rightarrow> 'p debouncer \<Rightarrow> 'p debouncer" where
  "timer_callback key no d =
     (case js_get (buckets d) key of
        None \<Rightarrow> d
      | Some current \<Rightarrow> if bucket_no current \<noteq> no then d else fire_bucket key current d)"

text \<open>The event loop runs an armed timer of a key that is due.\<close>

definition elapse :: "int \<Rightarrow> string \<Rightarrow> 'p debouncer \<Rightarrow> 'p debouncer" where
  "elapse now key d =
     (case find (\<lambda>t. timer_key t = key \<and> deadline t \<le> now) (armed d) of
        None \<Rightarrow> d
      | Some t \<Rightarrow> timer_callback key (timer_bucket t) (clear_timer (handle t) d))"

definition flush_all :: "'p debouncer \<Rightarrow> 'p debouncer" where
  "flush_all d = foldl (\<lambda>d (key, b). fire_bucket key b (clear_timer (timerHandle b) d)) d (buckets d)"

definition cancel_all :: "'p debouncer \<Rightarrow> 'p debouncer" where
  "cancel_all d = (foldl (\<lambda>d b. clear_timer (timerHandle b) d) d (map snd (buckets d)))\<lparr>buckets := []\<rparr>"

datatype 'p debounce_op = Push_op int string string nat 'p | Elapse_op int string | Flush_op | Cancel_op

fun debounce_step :: "'p debouncer \<Rightarrow> 'p debounce_op \<Rightarrow> 'p debouncer" where
  "debounce_step d (Push_op now rule event promise payload) = push now rule event promise payload d"
| "debounce_step d (Elapse_op now key) = elapse now key d"
| "debounce_step d Flush_op = flush_all d"
| "debounce_step d Cancel_op = cancel_all d"

section \<open>What a debouncer should do\<close>

text \<open>
  For every key the pushes that wait, in order, each with its promise, its payload and its time.
  A key fires when its last push is a window old, or at a flush: every promise that waits gets
  the last payload and the number of pushes.
\<close>

record 'p waiting_room =
  waiting :: "(string, (nat \<times> 'p \<times> int) list) jsmap"
  outcome :: "(nat \<times> 'p \<times> nat) list"

definition spec_push :: "int \<Rightarrow> string \<Rightarrow> nat \<Rightarrow> 'p \<Rightarrow> 'p waiting_room \<Rightarrow> 'p waiting_room" where
  "spec_push now key promise payload s =
     s\<lparr>waiting := js_put key (case_option [] id (js_get (waiting s) key) @ [(promise, payload, now)]) (waiting s)\<rparr>"

definition spec_fire :: "string \<Rightarrow> (nat \<times> 'p \<times> int) list \<Rightarrow> 'p waiting_room \<Rightarrow> 'p waiting_room" where
  "spec_fire key ps s =
     s\<lparr>waiting := js_del key (waiting s),
       outcome := outcome s @ map (\<lambda>p. (fst p, fst (snd (last ps)), length ps)) ps\<rparr>"

fun spec_step :: "int \<Rightarrow> 'p waiting_room \<Rightarrow> 'p debounce_op \<Rightarrow> 'p waiting_room" where
  "spec_step w s (Push_op now rule event promise payload) = spec_push now (compound_key rule event) promise payload s"
| "spec_step w s (Elapse_op now key) =
     (case js_get (waiting s) key of
        Some ps \<Rightarrow> if snd (snd (last ps)) + w \<le> now then spec_fire key ps s else s
      | None \<Rightarrow> s)"
| "spec_step w s Flush_op = foldl (\<lambda>s (key, ps). spec_fire key ps s) s (waiting s)"
| "spec_step w s Cancel_op = s\<lparr>waiting := []\<rparr>"

section \<open>The refinement\<close>

definition bucket_rel :: "int \<Rightarrow> timer list \<Rightarrow> string \<Rightarrow> 'p bucket \<Rightarrow> (nat \<times> 'p \<times> int) list \<Rightarrow> bool" where
  "bucket_rel w ts key b ps \<longleftrightarrow>
     ps \<noteq> [] \<and> coalescedCount b = length ps \<and> latestPayload b = fst (snd (last ps)) \<and> subscribers b = map fst ps \<and>
     \<lparr>handle = timerHandle b, timer_key = key, timer_bucket = bucket_no b, deadline = snd (snd (last ps)) + w\<rparr> \<in> set ts"

definition room_rel ::
  "int \<Rightarrow> (string, 'p bucket) jsmap \<Rightarrow> timer list \<Rightarrow> nat \<Rightarrow> (string, (nat \<times> 'p \<times> int) list) jsmap \<Rightarrow> bool" where
  "room_rel w bs ts n ws \<longleftrightarrow>
     js_wf bs \<and> map fst ws = map fst bs \<and>
     (\<forall>k b. js_get bs k = Some b \<longrightarrow> (\<exists>ps. js_get ws k = Some ps \<and> bucket_rel w ts k b ps)) \<and>
     (\<forall>t \<in> set ts. \<exists>b. js_get bs (timer_key t) = Some b \<and> timerHandle b = handle t) \<and>
     (\<forall>t \<in> set ts. handle t < n) \<and> distinct (map handle ts)"

definition refines :: "'p debouncer \<Rightarrow> 'p waiting_room \<Rightarrow> bool" where
  "refines d s \<longleftrightarrow> room_rel (windowMs d) (buckets d) (armed d) (next_no d) (waiting s) \<and> resolved d = outcome s"

lemma room_relD:
  assumes "room_rel w bs ts n ws"
  shows "js_wf bs" "map fst ws = map fst bs" "distinct (map handle ts)"
    and "js_get bs k = Some b \<Longrightarrow> \<exists>ps. js_get ws k = Some ps \<and> bucket_rel w ts k b ps"
    and "t \<in> set ts \<Longrightarrow> \<exists>b. js_get bs (timer_key t) = Some b \<and> timerHandle b = handle t"
    and "t \<in> set ts \<Longrightarrow> handle t < n"
  using assms unfolding room_rel_def by blast+

lemma room_rel_none: "room_rel w bs ts n ws \<Longrightarrow> js_get bs k = None \<longleftrightarrow> js_get ws k = None"
  by (metis room_relD(2) map_of_eq_None_iff set_map)

text \<open>Distinct keys have distinct timers, and a key's only timer is its bucket's.\<close>

lemma bucket_timer:
  assumes "room_rel w bs ts n ws" "js_get bs k = Some b"
  obtains ps where "js_get ws k = Some ps" "bucket_rel w ts k b ps"
    "\<And>t. t \<in> set ts \<Longrightarrow> handle t = timerHandle b \<Longrightarrow>
       t = \<lparr>handle = timerHandle b, timer_key = k, timer_bucket = bucket_no b, deadline = snd (snd (last ps)) + w\<rparr>"
    "\<And>t. t \<in> set ts \<Longrightarrow> timer_key t = k \<Longrightarrow>
       t = \<lparr>handle = timerHandle b, timer_key = k, timer_bucket = bucket_no b, deadline = snd (snd (last ps)) + w\<rparr>"
proof -
  obtain ps where ps: "js_get ws k = Some ps" "bucket_rel w ts k b ps" using room_relD(4) [OF assms] by blast
  let ?t = "\<lparr>handle = timerHandle b, timer_key = k, timer_bucket = bucket_no b, deadline = snd (snd (last ps)) + w\<rparr>"
  have in_ts: "?t \<in> set ts" using ps(2) by (simp add: bucket_rel_def)
  have same: "t = ?t" if "t \<in> set ts" "handle t = timerHandle b" for t
  proof (rule inj_onD [OF distinct_map [THEN iffD1, THEN conjunct2, OF room_relD(3) [OF assms(1)]] _ that(1) in_ts])
    show "handle t = handle ?t" using that(2) by simp
  qed
  have "t = ?t" if "t \<in> set ts" "timer_key t = k" for t
    using same that room_relD(5) [OF assms(1) that(1)] assms(2) by force
  with ps same show thesis using that by blast
qed

lemma other_timer:
  assumes "room_rel w bs ts n ws" "js_get bs k = Some b" "js_get bs k' = Some b'" "k' \<noteq> k"
  shows "timerHandle b' \<noteq> timerHandle b"
proof
  assume eq: "timerHandle b' = timerHandle b"
  obtain ps where ps: "bucket_rel w ts k b ps"
    and k: "\<And>t. t \<in> set ts \<Longrightarrow> handle t = timerHandle b \<Longrightarrow>
       t = \<lparr>handle = timerHandle b, timer_key = k, timer_bucket = bucket_no b, deadline = snd (snd (last ps)) + w\<rparr>"
    by (rule bucket_timer [OF assms(1,2)]) blast
  obtain ps' where "js_get ws k' = Some ps'" and t: "\<lparr>handle = timerHandle b', timer_key = k', timer_bucket = bucket_no b', deadline = snd (snd (last ps')) + w\<rparr> \<in> set ts"
    using room_relD(4) [OF assms(1,3)] unfolding bucket_rel_def by blast
  from k [OF t] eq assms(4) show False by simp
qed

lemma keys_put: "map fst (js_put k v m) = (if k \<in> set (map fst m) then map fst m else map fst m @ [k])"
  by (induction k v m rule: js_put.induct) auto

lemma keys_del: "map fst (js_del k m) = filter (\<lambda>x. x \<noteq> k) (map fst m)"
  by (simp add: js_del_def filter_map comp_def)

lemma room_rel_remove:
  assumes R: "room_rel w bs ts n ws" and b: "js_get bs k = Some b"
  shows "room_rel w (js_del k bs) (filter (\<lambda>t. handle t \<noteq> timerHandle b) ts) n (js_del k ws)"
  unfolding room_rel_def
proof (intro conjI allI impI ballI)
  show "js_wf (js_del k bs)" using room_relD(1) [OF R] by simp
  show "map fst (js_del k ws) = map fst (js_del k bs)" using room_relD(2) [OF R] by (simp add: keys_del)
  show "distinct (map handle (filter (\<lambda>t. handle t \<noteq> timerHandle b) ts))"
    using room_relD(3) [OF R] by (auto simp: distinct_map inj_on_def)
next
  fix k' b' assume b': "js_get (js_del k bs) k' = Some b'"
  then have k': "k' \<noteq> k" "js_get bs k' = Some b'" by (auto split: if_splits)
  obtain ps where "js_get ws k' = Some ps" "bucket_rel w ts k' b' ps" using room_relD(4) [OF R k'(2)] by blast
  with k' other_timer [OF R b k'(2,1)]
  show "\<exists>ps. js_get (js_del k ws) k' = Some ps \<and> bucket_rel w (filter (\<lambda>t. handle t \<noteq> timerHandle b) ts) k' b' ps"
    by (simp add: bucket_rel_def)
next
  fix t assume t: "t \<in> set (filter (\<lambda>t. handle t \<noteq> timerHandle b) ts)"
  then obtain b' where "js_get bs (timer_key t) = Some b'" "timerHandle b' = handle t"
    using room_relD(5) [OF R, of t] by auto
  with t b show "\<exists>b. js_get (js_del k bs) (timer_key t) = Some b \<and> timerHandle b = handle t" by auto
  show "handle t < n" using t room_relD(6) [OF R] by simp
qed

lemma room_rel_put:
  assumes R: "room_rel w bs ts n ws" and n: "n \<le> h"
    and ts0: "ts0 = (case js_get bs k of Some b \<Rightarrow> filter (\<lambda>t. handle t \<noteq> timerHandle b) ts | None \<Rightarrow> ts)"
    and new: "bucket_rel w [t] k b' ps'" "timerHandle b' = h"
  shows "room_rel w (js_put k b' bs) (ts0 @ [t]) (h + 1) (js_put k ps' ws)"
proof -
  have t: "handle t = h" "timer_key t = k" using new by (auto simp: bucket_rel_def)
  have sub: "set ts0 \<subseteq> set ts" using ts0 by (auto split: option.splits)
  have none: "timer_key x \<noteq> k" if "x \<in> set ts0" for x
    using that ts0 room_relD(5) [OF R, of x] sub by (auto split: option.splits)
  have kept: "x \<in> set ts0" if "x \<in> set ts" "timer_key x \<noteq> k" for x
  proof (cases "js_get bs k")
    case (Some b)
    obtain bx where "js_get bs (timer_key x) = Some bx" "timerHandle bx = handle x"
      using room_relD(5) [OF R \<open>x \<in> set ts\<close>] by blast
    with other_timer [OF R Some _ that(2)] show ?thesis using ts0 Some that by simp
  qed (use ts0 that in simp)
  have dist: "distinct (map handle ts0)"
    using room_relD(3) [OF R] ts0 by (auto simp: distinct_map inj_on_def split: option.splits)
  show ?thesis unfolding room_rel_def
  proof (intro conjI allI impI ballI)
    show "js_wf (js_put k b' bs)" using room_relD(1) [OF R] by simp
    show "map fst (js_put k ps' ws) = map fst (js_put k b' bs)" using room_relD(2) [OF R] by (simp add: keys_put del: set_map)
    show "distinct (map handle (ts0 @ [t]))"
      using dist t n sub room_relD(6) [OF R] by (force simp: image_iff)
  next
    fix k2 b2 assume b2: "js_get (js_put k b' bs) k2 = Some b2"
    show "\<exists>ps. js_get (js_put k ps' ws) k2 = Some ps \<and> bucket_rel w (ts0 @ [t]) k2 b2 ps"
    proof (cases "k2 = k")
      case True
      with b2 new(1) show ?thesis by (auto simp: bucket_rel_def)
    next
      case False
      then have "js_get bs k2 = Some b2" using b2 by simp
      then obtain ps where "js_get ws k2 = Some ps" "bucket_rel w ts k2 b2 ps" using room_relD(4) [OF R] by blast
      with False kept show ?thesis by (auto simp: bucket_rel_def)
    qed
  next
    fix x assume x: "x \<in> set (ts0 @ [t])"
    show "\<exists>b. js_get (js_put k b' bs) (timer_key x) = Some b \<and> timerHandle b = handle x"
      using x t new(2) none room_relD(5) [OF R, of x] sub by auto
    show "handle x < h + 1" using x t n sub room_relD(6) [OF R, of x] by auto
  qed
qed

section \<open>Every operation\<close>

lemma refines_push:
  assumes "refines d s"
  shows "refines (push now rule event promise payload d) (spec_push now (compound_key rule event) promise payload s)"
proof -
  let ?k = "compound_key rule event"
  have R: "room_rel (windowMs d) (buckets d) (armed d) (next_no d) (waiting s)" and log: "resolved d = outcome s"
    using assms by (simp_all add: refines_def)
  show ?thesis
  proof (cases "js_get (buckets d) ?k")
    case None
    then have "js_get (waiting s) ?k = None" using room_rel_none [OF R] by blast
    moreover have "room_rel (windowMs d)
        (js_put ?k \<lparr>bucket_no = next_no d, latestPayload = payload, coalescedCount = 1, timerHandle = next_no d + 1, subscribers = [promise]\<rparr> (buckets d))
        (armed d @ [\<lparr>handle = next_no d + 1, timer_key = ?k, timer_bucket = next_no d, deadline = now + windowMs d\<rparr>])
        (next_no d + 1 + 1) (js_put ?k [(promise, payload, now)] (waiting s))"
      by (rule room_rel_put [OF R]) (simp_all add: None bucket_rel_def)
    ultimately show ?thesis using None log
      by (simp add: refines_def push_def spec_push_def schedule_fire_def Let_def)
  next
    case (Some b)
    obtain ps where ps: "js_get (waiting s) ?k = Some ps" "bucket_rel (windowMs d) (armed d) ?k b ps"
      using room_relD(4) [OF R Some] by blast
    have "room_rel (windowMs d)
        (js_put ?k (b\<lparr>latestPayload := payload, coalescedCount := coalescedCount b + 1, timerHandle := next_no d,
                      subscribers := subscribers b @ [promise]\<rparr>) (buckets d))
        (filter (\<lambda>t. handle t \<noteq> timerHandle b) (armed d) @
           [\<lparr>handle = next_no d, timer_key = ?k, timer_bucket = bucket_no b, deadline = now + windowMs d\<rparr>])
        (next_no d + 1) (js_put ?k (ps @ [(promise, payload, now)]) (waiting s))"
      by (rule room_rel_put [OF R]) (use ps Some in \<open>simp_all add: bucket_rel_def\<close>)
    then show ?thesis using Some ps log
      by (simp add: refines_def push_def spec_push_def schedule_fire_def clear_timer_def Let_def)
  qed
qed

lemma refines_fire:
  assumes "refines d s" "js_get (buckets d) k = Some b"
  obtains ps where "js_get (waiting s) k = Some ps"
    "refines (fire_bucket k b (clear_timer (timerHandle b) d)) (spec_fire k ps s)"
proof -
  have R: "room_rel (windowMs d) (buckets d) (armed d) (next_no d) (waiting s)" and log: "resolved d = outcome s"
    using assms by (simp_all add: refines_def)
  obtain ps where ps: "js_get (waiting s) k = Some ps" "bucket_rel (windowMs d) (armed d) k b ps"
    using room_relD(4) [OF R assms(2)] by blast
  have "refines (fire_bucket k b (clear_timer (timerHandle b) d)) (spec_fire k ps s)"
    using room_rel_remove [OF R assms(2)] log ps(2)
    by (simp add: refines_def fire_bucket_def clear_timer_def spec_fire_def bucket_rel_def comp_def)
  with ps(1) show thesis by (rule that)
qed

lemma refines_elapse:
  assumes "refines d s"
  shows "refines (elapse now k d) (spec_step (windowMs d) s (Elapse_op now k))"
proof -
  have R: "room_rel (windowMs d) (buckets d) (armed d) (next_no d) (waiting s)"
    using assms by (simp add: refines_def)
  show ?thesis
  proof (cases "js_get (buckets d) k")
    case None
    have "find (\<lambda>t. timer_key t = k \<and> deadline t \<le> now) (armed d) = None"
      using None room_relD(5) [OF R] by (force simp: find_None_iff)
    moreover have "js_get (waiting s) k = None" using None room_rel_none [OF R] by blast
    ultimately show ?thesis using assms by (simp add: elapse_def)
  next
    case (Some b)
    obtain ps where ps: "js_get (waiting s) k = Some ps" "bucket_rel (windowMs d) (armed d) k b ps"
      and only: "\<And>t. t \<in> set (armed d) \<Longrightarrow> timer_key t = k \<Longrightarrow>
         t = \<lparr>handle = timerHandle b, timer_key = k, timer_bucket = bucket_no b, deadline = snd (snd (last ps)) + windowMs d\<rparr>"
      by (rule bucket_timer [OF R Some]) blast
    let ?t = "\<lparr>handle = timerHandle b, timer_key = k, timer_bucket = bucket_no b, deadline = snd (snd (last ps)) + windowMs d\<rparr>"
    have t: "?t \<in> set (armed d)" using ps(2) by (simp add: bucket_rel_def)
    show ?thesis
    proof (cases "snd (snd (last ps)) + windowMs d \<le> now")
      case True
      have "find (\<lambda>t. timer_key t = k \<and> deadline t \<le> now) (armed d) \<noteq> None"
      proof
        assume "find (\<lambda>t. timer_key t = k \<and> deadline t \<le> now) (armed d) = None"
        then have "\<not> (timer_key ?t = k \<and> deadline ?t \<le> now)" using t unfolding find_None_iff by blast
        with True show False by simp
      qed
      then obtain x where x: "find (\<lambda>t. timer_key t = k \<and> deadline t \<le> now) (armed d) = Some x" by blast
      then have "x \<in> set (armed d)" "timer_key x = k" using x unfolding find_Some_iff by (metis nth_mem)+
      then have "x = ?t" by (rule only)
      with x have "find (\<lambda>t. timer_key t = k \<and> deadline t \<le> now) (armed d) = Some ?t" by (simp only:)
      then have "elapse now k d = fire_bucket k b (clear_timer (timerHandle b) d)"
        using Some by (simp add: elapse_def timer_callback_def clear_timer_def)
      moreover obtain ps' where "js_get (waiting s) k = Some ps'"
        "refines (fire_bucket k b (clear_timer (timerHandle b) d)) (spec_fire k ps' s)"
        by (rule refines_fire [OF assms Some])
      ultimately show ?thesis using ps(1) True by simp
    next
      case False
      have "find (\<lambda>t. timer_key t = k \<and> deadline t \<le> now) (armed d) = None"
        unfolding find_None_iff
      proof
        assume "\<exists>t. t \<in> set (armed d) \<and> timer_key t = k \<and> deadline t \<le> now"
        then obtain t where t: "t \<in> set (armed d)" "timer_key t = k" "deadline t \<le> now" by blast
        from only [OF t(1,2)] have "deadline t = snd (snd (last ps)) + windowMs d" by simp
        with t(3) False show False by simp
      qed
      with False ps(1) assms show ?thesis by (simp add: elapse_def)
    qed
  qed
qed

lemma refines_flush:
  assumes "refines d s"
  shows "refines (flush_all d) (spec_step w s Flush_op)"
proof -
  have fold: "refines (foldl (\<lambda>d (key, b). fire_bucket key b (clear_timer (timerHandle b) d)) d bs)
      (foldl (\<lambda>s (key, ps). spec_fire key ps s) s ws)"
    if "refines d s" "buckets d = bs" "waiting s = ws" for bs ws and d :: "'a debouncer" and s
    using that
  proof (induction bs arbitrary: d s ws)
    case Nil
    then show ?case by (simp add: refines_def room_rel_def)
  next
    case (Cons kb bs)
    obtain k b where kb: "kb = (k, b)" by (cases kb)
    have R: "room_rel (windowMs d) (buckets d) (armed d) (next_no d) (waiting s)" using Cons.prems by (simp add: refines_def)
    have "js_get (buckets d) k = Some b" using Cons.prems(2) kb by simp
    then obtain ps where ps: "js_get (waiting s) k = Some ps"
      "refines (fire_bucket k b (clear_timer (timerHandle b) d)) (spec_fire k ps s)"
      using refines_fire [OF Cons.prems(1)] by blast
    have keys: "map fst ws = k # map fst bs" "distinct (k # map fst bs)"
      using room_relD(1,2) [OF R] Cons.prems(2,3) kb by (simp_all add: js_wf_def)
    obtain ws' where ws: "ws = (k, ps) # ws'" "map fst ws' = map fst bs"
      using keys(1) ps(1) Cons.prems(3) by (cases ws) auto
    have gone: "filter (\<lambda>p. fst p \<noteq> k) bs = bs" "filter (\<lambda>p. fst p \<noteq> k) ws' = ws'"
    proof -
      have "k \<notin> fst ` set bs" "k \<notin> fst ` set ws'" using keys(2) ws(2) by (metis distinct.simps(2) set_map)+
      then show "filter (\<lambda>p. fst p \<noteq> k) bs = bs" "filter (\<lambda>p. fst p \<noteq> k) ws' = ws'"
        unfolding filter_id_conv by force+
    qed
    have "refines (foldl (\<lambda>d (key, b). fire_bucket key b (clear_timer (timerHandle b) d))
              (fire_bucket k b (clear_timer (timerHandle b) d)) bs)
            (foldl (\<lambda>s (key, ps). spec_fire key ps s) (spec_fire k ps s) ws')"
    proof (rule Cons.IH [OF ps(2)])
      show "buckets (fire_bucket k b (clear_timer (timerHandle b) d)) = bs"
        using Cons.prems(2) kb gone(1) by (simp add: fire_bucket_def clear_timer_def js_del_def)
      show "waiting (spec_fire k ps s) = ws'"
        using Cons.prems(3) ws(1) gone(2) by (simp add: spec_fire_def js_del_def)
    qed
    then show ?case by (simp add: kb ws)
  qed
  show ?thesis using fold [OF assms refl refl] by (simp add: flush_all_def)
qed

lemma clear_all:
  "(foldl (\<lambda>d b. clear_timer (timerHandle b) d) d bs) =
     d\<lparr>armed := filter (\<lambda>t. handle t \<notin> timerHandle ` set bs) (armed d)\<rparr>"
proof (induction bs arbitrary: d)
  case (Cons b bs)
  have "filter (\<lambda>t. handle t \<notin> timerHandle ` set bs) (filter (\<lambda>t. handle t \<noteq> timerHandle b) (armed d)) =
      filter (\<lambda>t. handle t \<notin> timerHandle ` set (b # bs)) (armed d)"
    by (auto intro: filter_cong)
  then show ?case unfolding foldl.simps Cons.IH by (simp add: clear_timer_def)
qed simp

lemma refines_cancel: "refines d s \<Longrightarrow> refines (cancel_all d) (spec_step w s Cancel_op)"
proof -
  assume r: "refines d s"
  then have R: "room_rel (windowMs d) (buckets d) (armed d) (next_no d) (waiting s)" by (simp add: refines_def)
  have "filter (\<lambda>t. handle t \<notin> timerHandle ` set (map snd (buckets d))) (armed d) = []"
    using room_relD(5) [OF R] by (force simp: filter_empty_conv dest: map_of_SomeD)
  with r show ?thesis by (simp add: refines_def room_rel_def cancel_all_def clear_all)
qed

lemma windowMs_step [simp]: "windowMs (debounce_step d op) = windowMs d"
proof (cases op)
  case Flush_op
  have "windowMs (foldl (\<lambda>d (key, b). fire_bucket key b (clear_timer (timerHandle b) d)) d bs) = windowMs d" for bs and d :: "'a debouncer"
    by (induction bs arbitrary: d) (auto simp: fire_bucket_def clear_timer_def)
  with Flush_op show ?thesis by (simp add: flush_all_def)
next
  case Cancel_op
  then show ?thesis by (simp add: cancel_all_def clear_all)
qed (auto simp: push_def elapse_def schedule_fire_def clear_timer_def timer_callback_def
      fire_bucket_def Let_def split: option.split)

lemma refines_step: "refines d s \<Longrightarrow> refines (debounce_step d op) (spec_step (windowMs d) s op)"
  by (cases op) (simp_all only: debounce_step.simps refines_push refines_elapse refines_flush refines_cancel spec_step.simps(1))

text \<open>
  C32.  The debouncer does what it should: over every sequence of pushes, elapsed timers, flushes
  and cancellations its promises are resolved with exactly the values, and in the order, of the
  waiting room that keeps the pushes of each key and resolves them when the last one is a
  window old.
\<close>

theorem debouncer_refines_the_waiting_room:
  "resolved (foldl debounce_step (new_debouncer (Some w)) ops) =
     outcome (foldl (spec_step w) \<lparr>waiting = [], outcome = []\<rparr> ops)"
proof -
  have "refines (foldl debounce_step d ops) (foldl (spec_step (windowMs d)) s ops)" if "refines d s" for d :: "'a debouncer" and s
    using that
  proof (induction ops arbitrary: d s)
    case (Cons op ops)
    show ?case using Cons.IH [OF refines_step [OF Cons.prems]] by simp
  qed simp
  moreover have "refines (new_debouncer (Some w)) (\<lparr>waiting = [], outcome = []\<rparr> :: 'a waiting_room)"
    by (simp add: refines_def room_rel_def new_debouncer_def)
  ultimately show ?thesis by (fastforce simp: refines_def new_debouncer_def)
qed

end
