(* ===== verification/Rate_Limiter.thy ===== *)
theory Rate_Limiter
  imports Prelude
begin

text \<open>
  The router's token bucket, \<open>packages/wft-router/src/dispatch/rate-limit.ts\<close>: one bucket per
  rule, refilled lazily from the elapsed milliseconds, capped at the burst capacity.  Token
  counts are rationals (the code's doubles without their rounding); the clock is an argument
  and may run backwards, as the wall clock the code reads may.
\<close>

section \<open>Buckets\<close>

record token_bucket =
  tokens :: rat
  lastRefillMs :: int

record rate_limiter =
  tokensPerMinute :: rat
  burstCapacity :: rat
  rl_buckets :: "(string, token_bucket) jsmap"

definition max_dispatches_per_minute :: rat where
  "max_dispatches_per_minute = 60"

definition new_limiter :: "rat option \<Rightarrow> rat option \<Rightarrow> rate_limiter" where
  "new_limiter tpm burst =
     (let n = case_option max_dispatches_per_minute id tpm in
      \<lparr>tokensPerMinute = n, burstCapacity = case_option n id burst, rl_buckets = []\<rparr>)"

definition refill_per_ms :: "rate_limiter \<Rightarrow> rat" where
  "refill_per_ms L = tokensPerMinute L / 60000"

definition refilled :: "rate_limiter \<Rightarrow> int \<Rightarrow> token_bucket \<Rightarrow> token_bucket" where
  "refilled L now b =
     (let elapsed = now - lastRefillMs b in
      if elapsed > 0 then
        (let r = tokens b + of_int elapsed * refill_per_ms L in
         \<lparr>tokens = (if r > burstCapacity L then burstCapacity L else r), lastRefillMs = now\<rparr>)
      else b)"

definition refill_bucket :: "int \<Rightarrow> string \<Rightarrow> rate_limiter \<Rightarrow> token_bucket \<times> rate_limiter" where
  "refill_bucket now rule L =
     (let b = (case js_get (rl_buckets L) rule of
                 None \<Rightarrow> \<lparr>tokens = burstCapacity L, lastRefillMs = now\<rparr>
               | Some b \<Rightarrow> refilled L now b)
      in (b, L\<lparr>rl_buckets := js_put rule b (rl_buckets L)\<rparr>))"

definition try_acquire :: "int \<Rightarrow> string \<Rightarrow> rate_limiter \<Rightarrow> bool \<times> rate_limiter" where
  "try_acquire now rule L =
     (case refill_bucket now rule L of (b, L1) \<Rightarrow>
        if tokens b \<ge> 1
        then (True, L1\<lparr>rl_buckets := js_put rule (b\<lparr>tokens := tokens b - 1\<rparr>) (rl_buckets L1)\<rparr>)
        else (False, L1))"

definition remaining :: "int \<Rightarrow> string \<Rightarrow> rate_limiter \<Rightarrow> rat \<times> rate_limiter" where
  "remaining now rule L = (case refill_bucket now rule L of (b, L1) \<Rightarrow> (tokens b, L1))"

definition reset_limiter :: "rate_limiter \<Rightarrow> rate_limiter" where
  "reset_limiter L = L\<lparr>rl_buckets := []\<rparr>"

text \<open>A history of calls \<open>tryAcquire(rule)\<close> at given times, and the grants a rule gets in it.\<close>

fun acquire_all :: "(int \<times> string) list \<Rightarrow> rate_limiter \<Rightarrow> bool list \<times> rate_limiter" where
  "acquire_all [] L = ([], L)"
| "acquire_all ((t, r) # cs) L =
     (case try_acquire t r L of (g, L1) \<Rightarrow> case acquire_all cs L1 of (gs, L2) \<Rightarrow> (g # gs, L2))"

definition grants :: "string \<Rightarrow> (int \<times> string) list \<Rightarrow> rate_limiter \<Rightarrow> nat" where
  "grants r cs L = length (filter (\<lambda>(c, g). snd c = r \<and> g) (zip cs (fst (acquire_all cs L))))"

section \<open>Levels\<close>

text \<open>What a rule could spend at time \<open>t\<close>, and from when the clock counts for it.\<close>

definition level :: "rate_limiter \<Rightarrow> string \<Rightarrow> int \<Rightarrow> rat" where
  "level L r t = (case js_get (rl_buckets L) r of None \<Rightarrow> burstCapacity L | Some b \<Rightarrow> tokens (refilled L t b))"

definition since :: "rate_limiter \<Rightarrow> string \<Rightarrow> int \<Rightarrow> int" where
  "since L r t = (case js_get (rl_buckets L) r of None \<Rightarrow> t | Some b \<Rightarrow> max t (lastRefillMs b))"

definition limiter_ok :: "rate_limiter \<Rightarrow> bool" where
  "limiter_ok L \<longleftrightarrow> 0 \<le> tokensPerMinute L \<and> 0 \<le> burstCapacity L \<and>
     (\<forall>r b. js_get (rl_buckets L) r = Some b \<longrightarrow> 0 \<le> tokens b \<and> tokens b \<le> burstCapacity L)"

lemma try_acquire_frame [simp]:
  "tokensPerMinute (snd (try_acquire t r L)) = tokensPerMinute L"
  "burstCapacity (snd (try_acquire t r L)) = burstCapacity L"
  "refill_per_ms (snd (try_acquire t r L)) = refill_per_ms L"
  by (simp_all add: try_acquire_def refill_bucket_def refill_per_ms_def Let_def)

lemma refilled_params: "tokensPerMinute L' = tokensPerMinute L \<Longrightarrow> burstCapacity L' = burstCapacity L \<Longrightarrow> refilled L' = refilled L"
  by (simp add: refilled_def refill_per_ms_def fun_eq_iff Let_def)

lemma refilled_try_acquire [simp]: "refilled (snd (try_acquire t r L)) = refilled L"
  by (rule refilled_params) simp_all

lemma try_acquire_granted: "fst (try_acquire t r L) \<longleftrightarrow> 1 \<le> level L r t"
  by (simp add: try_acquire_def refill_bucket_def level_def Let_def split: option.split)

lemma try_acquire_bucket:
  "js_get (rl_buckets (snd (try_acquire t r L))) =
     (js_get (rl_buckets L))(r \<mapsto> \<lparr>tokens = level L r t - (if fst (try_acquire t r L) then 1 else 0),
                                  lastRefillMs = since L r t\<rparr>)"
  by (auto simp: try_acquire_def refill_bucket_def level_def since_def refilled_def Let_def fun_eq_iff max_def split: option.split)

lemma refilled_bounds:
  assumes "limiter_ok L" "0 \<le> tokens b" "tokens b \<le> burstCapacity L"
  shows "0 \<le> tokens (refilled L t b)" "tokens (refilled L t b) \<le> burstCapacity L"
  using assms by (auto simp: refilled_def limiter_ok_def refill_per_ms_def Let_def)

lemma level_bounds: "limiter_ok L \<Longrightarrow> 0 \<le> level L r t \<and> level L r t \<le> burstCapacity L"
  using refilled_bounds [of L _ t] by (auto simp: level_def limiter_ok_def split: option.split)

lemma limiter_ok_try_acquire: assumes "limiter_ok L" shows "limiter_ok (snd (try_acquire t r L))"
proof -
  have "0 \<le> level L r t - (if fst (try_acquire t r L) then 1 else 0)"
    "level L r t - (if fst (try_acquire t r L) then 1 else 0) \<le> burstCapacity L"
    using level_bounds [OF assms, of r t] by (auto simp: try_acquire_granted)
  then show ?thesis using assms by (auto simp: limiter_ok_def try_acquire_bucket)
qed

lemma limiter_ok_acquire_all: "limiter_ok L \<Longrightarrow> limiter_ok (snd (acquire_all cs L))"
proof (induction cs L rule: acquire_all.induct)
  case (2 t r cs L)
  then show ?case using limiter_ok_try_acquire [of L t r]
    by (auto split: prod.splits)
qed simp

section \<open>Grants in a window\<close>

lemma level_growth:
  assumes "limiter_ok L" "t0 \<le> t"
  shows "level L r t \<le> level L r t0 + refill_per_ms L * of_int (since L r t - since L r t0)"
proof (cases "js_get (rl_buckets L) r")
  case None
  then show ?thesis using assms by (simp add: level_def since_def limiter_ok_def refill_per_ms_def)
next
  case (Some b)
  let ?q = "refill_per_ms L"
  have q: "0 \<le> ?q" using assms by (simp add: limiter_ok_def refill_per_ms_def)
  have B: "tokens b \<le> burstCapacity L" using assms Some by (auto simp: limiter_ok_def)
  consider "t \<le> lastRefillMs b" | "t0 \<le> lastRefillMs b" "lastRefillMs b < t" | "lastRefillMs b < t0"
    by linarith
  then show ?thesis
  proof cases
    case 1
    then show ?thesis using assms Some by (simp add: level_def since_def refilled_def Let_def max_def)
  next
    case 2
    then show ?thesis using Some q
      by (simp add: level_def since_def refilled_def Let_def max_def algebra_simps)
  next
    case 3
    have "?q * of_int (t - lastRefillMs b) = ?q * of_int (t0 - lastRefillMs b) + ?q * of_int (t - t0)"
      by (simp add: algebra_simps)
    moreover have "0 \<le> ?q * of_int (t - t0)" using q assms by simp
    ultimately show ?thesis using 3 assms Some
      by (simp add: level_def since_def refilled_def Let_def max_def mult.commute)
  qed
qed

lemma grants_Nil [simp]: "grants r [] L = 0"
  by (simp add: grants_def)

lemma grants_Cons:
  "grants r ((t, q) # cs) L =
     (if q = r \<and> fst (try_acquire t q L) then 1 else 0) + grants r cs (snd (try_acquire t q L))"
  by (simp add: grants_def split: prod.split)

lemma level_other: "q \<noteq> r \<Longrightarrow> level (snd (try_acquire t q L)) r s = level L r s"
  by (simp add: level_def try_acquire_bucket split: option.split)

lemma since_other: "q \<noteq> r \<Longrightarrow> since (snd (try_acquire t q L)) r s = since L r s"
  by (simp add: since_def try_acquire_bucket split: option.split)

lemma since_same: "t0 \<le> t \<Longrightarrow> since (snd (try_acquire t r L)) r t0 = since L r t"
  by (simp add: since_def try_acquire_bucket split: option.split)

lemma level_same:
  "t0 \<le> t \<Longrightarrow> level (snd (try_acquire t r L)) r t0 = level L r t - (if fst (try_acquire t r L) then 1 else 0)"
  by (simp add: level_def [of "snd _"] try_acquire_bucket refilled_def since_def split: option.split)

lemma since_max: "t \<le> t1 \<Longrightarrow> t0 \<le> t \<Longrightarrow> max t1 (since L r t) = max t1 (since L r t0)"
  by (auto simp: since_def max_def split: option.split)

lemma grants_potential:
  "limiter_ok L \<Longrightarrow> list_all (\<lambda>(t, _). t0 \<le> t \<and> t \<le> t1) cs \<Longrightarrow>
     of_nat (grants r cs L) \<le> level L r t0 + refill_per_ms L * of_int (max t1 (since L r t0) - since L r t0)"
proof (induction cs arbitrary: L)
  case Nil
  then show ?case using level_bounds [of L r t0] by (simp add: limiter_ok_def refill_per_ms_def)
next
  case (Cons c cs)
  obtain t q where c: "c = (t, q)" by (cases c)
  let ?L = "snd (try_acquire t q L)" and ?k = "refill_per_ms L"
  have t: "t0 \<le> t" "t \<le> t1" using Cons.prems c by simp_all
  have IH: "of_nat (grants r cs ?L) \<le> level ?L r t0 + ?k * of_int (max t1 (since ?L r t0) - since ?L r t0)"
    using Cons.IH [of ?L] Cons.prems limiter_ok_try_acquire by simp
  show ?case
  proof (cases "q = r")
    case True
    have "?k * of_int (max t1 (since L r t) - since L r t) + ?k * of_int (since L r t - since L r t0)
            = ?k * of_int (max t1 (since L r t0) - since L r t0)"
      using since_max [OF t(2,1), of L r] by (simp add: algebra_simps)
    with IH True level_growth [OF Cons.prems(1) t(1), of r] show ?thesis
      unfolding c grants_Cons by (simp add: since_same [OF t(1)] level_same [OF t(1)] split: if_splits)
  next
    case False
    with IH show ?thesis by (simp add: c grants_Cons level_other since_other)
  qed
qed

lemma limiter_ok_new: "case_option True (\<lambda>n. 0 \<le> n) tpm \<Longrightarrow> case_option True (\<lambda>n. 0 \<le> n) burst \<Longrightarrow> limiter_ok (new_limiter tpm burst)"
  by (auto simp: limiter_ok_def new_limiter_def max_dispatches_per_minute_def Let_def split: option.splits)

lemma acquire_all_frame [simp]:
  "tokensPerMinute (snd (acquire_all cs L)) = tokensPerMinute L"
  "burstCapacity (snd (acquire_all cs L)) = burstCapacity L" "refill_per_ms (snd (acquire_all cs L)) = refill_per_ms L"
  by (induction cs L rule: acquire_all.induct) (auto split: prod.splits, (metis try_acquire_frame snd_conv)+)

text \<open>
  C33.  The rate limit holds in every window of time: whatever calls were made before, in a
  window from \<open>t0\<close> to \<open>t1\<close> a rule is granted at most its burst capacity and what the bucket
  gains in that time, however the calls of the other rules fall.
\<close>

theorem grants_bounded:
  assumes "0 \<le> n" "0 \<le> m" "t0 \<le> t1"
    and "list_all (\<lambda>(t, _). t0 \<le> t \<and> t \<le> t1) window"
  shows "of_nat (grants r window (snd (acquire_all earlier (new_limiter (Some n) (Some m)))))
           \<le> m + n * of_int (t1 - t0) / 60000"
proof -
  let ?L = "snd (acquire_all earlier (new_limiter (Some n) (Some m)))"
  have ok: "limiter_ok ?L" using assms by (intro limiter_ok_acquire_all limiter_ok_new) simp_all
  have q: "refill_per_ms ?L = n / 60000" by (simp add: new_limiter_def refill_per_ms_def)
  have "of_nat (grants r window ?L) \<le> level ?L r t0 + refill_per_ms ?L * of_int (max t1 (since ?L r t0) - since ?L r t0)"
    by (rule grants_potential [OF ok assms(4)])
  also have "\<dots> \<le> m + (n / 60000) * of_int (t1 - t0)"
  proof (rule add_mono)
    show "level ?L r t0 \<le> m" using level_bounds [OF ok, of r t0] by (simp add: new_limiter_def)
    have "max t1 (since ?L r t0) - since ?L r t0 \<le> t1 - t0" using assms(3) by (auto simp: since_def max_def split: option.split)
    then show "refill_per_ms ?L * of_int (max t1 (since ?L r t0) - since ?L r t0) \<le> (n / 60000) * of_int (t1 - t0)"
      using assms(1) by (simp only: q of_int_le_iff mult_left_mono divide_nonneg_pos)
  qed
  finally show ?thesis by simp
qed

theorem grants_bounded_witness:
  "of_nat (grants ''a'' [(90, ''a''), (100, ''a''), (100, ''b''), (1090, ''a'')]
             (snd (acquire_all [(0, ''a''), (0, ''a'')] (new_limiter (Some 60) (Some 2))))) \<le> (2::rat) + 60 * of_int (1090 - 90) / 60000"
  by (rule grants_bounded) (simp_all)

text \<open>
  A rule is never starved: at capacity one or more, once enough time has passed since the
  last refill of its bucket for one token to accrue, the next call is granted.
\<close>

theorem idle_rule_is_granted:
  assumes "0 \<le> n" "1 \<le> m"
    and "n * of_int (t - s) \<ge> 60000" "list_all (\<lambda>(u, _). u \<le> s) earlier"
  shows "fst (try_acquire t r (snd (acquire_all earlier (new_limiter (Some n) (Some m)))))"
proof -
  let ?L = "snd (acquire_all earlier (new_limiter (Some n) (Some m)))"
  have ok: "limiter_ok ?L" using assms by (intro limiter_ok_acquire_all limiter_ok_new) simp_all
  have last: "list_all (\<lambda>(u, _). u \<le> s) cs \<Longrightarrow> (\<And>b. js_get (rl_buckets L) r = Some b \<Longrightarrow> lastRefillMs b \<le> s)
     \<Longrightarrow> js_get (rl_buckets (snd (acquire_all cs L))) r = Some b \<Longrightarrow> lastRefillMs b \<le> s" for cs L b
  proof (induction cs L rule: acquire_all.induct)
    case (2 u q cs L)
    have "lastRefillMs b \<le> s" if "js_get (rl_buckets (snd (try_acquire u q L))) r = Some b" for b
      using that 2(2,3) by (auto simp: try_acquire_bucket since_def split: if_splits option.splits)
    with 2 show ?case by (auto split: prod.splits)
  qed simp
  have "1 \<le> level ?L r t"
  proof (cases "js_get (rl_buckets ?L) r")
    case None
    then show ?thesis using assms by (simp add: level_def new_limiter_def)
  next
    case (Some b)
    have l: "lastRefillMs b \<le> s" using last [OF assms(4) _ Some] by (simp add: new_limiter_def)
    have "60000 \<le> n * of_int (t - lastRefillMs b)"
      using assms(1) l by (intro order_trans [OF assms(3)] mult_left_mono) simp_all
    moreover from this have "t > lastRefillMs b" using assms(1)
      by (metis less_le_not_le linorder_not_less mult_nonneg_nonpos of_int_le_0_iff order_trans zero_less_numeral diff_le_0_iff_le)
    moreover have "0 \<le> tokens b" using ok Some by (auto simp: limiter_ok_def)
    ultimately show ?thesis using assms(2) Some
      by (simp add: level_def refilled_def Let_def refill_per_ms_def new_limiter_def field_simps)
  qed
  then show ?thesis by (simp add: try_acquire_granted)
qed

theorem idle_rule_is_granted_witness:
  "fst (try_acquire 1500 ''a'' (snd (acquire_all [(0, ''a''), (500, ''a'')] (new_limiter (Some 60) (Some 1)))))"
  by (rule idle_rule_is_granted [where s = 500]) simp_all

end
