(* ===== verification/Sse_Parser.thy ===== *)
theory Sse_Parser
  imports Prelude
begin

text \<open>
  The incremental parser of server-sent events, \<open>packages/wft-router/src/sse/parser.ts\<close>: text
  arrives in chunks, complete lines are folded into a pending block, and a blank line turns the
  block into an event.  The parser's two variables are a record that \<open>feed\<close> and \<open>flush\<close>
  return updated, with the events they complete.  Characters stand for UTF-16 code units; the
  code compares them with ASCII constants only.
\<close>

section \<open>The parser\<close>

record sse_event =
  sse_id :: "string option"
  sse_name :: "string option"
  sse_data :: string
  sse_retry :: "nat option"

record pending_event =
  pending_id :: "string option"
  pending_name :: "string option"
  dataLines :: "string list"
  pending_retry :: "nat option"
  hasField :: bool

record sse_parser =
  lineBuffer :: string
  pending :: pending_event

abbreviation newline :: char where "newline \<equiv> CHR 0x0A"
abbreviation carriage :: char where "carriage \<equiv> CHR 0x0D"

definition NEW_BLOCK :: pending_event where
  "NEW_BLOCK = \<lparr>pending_id = None, pending_name = None, dataLines = [], pending_retry = None, hasField = False\<rparr>"

definition createSSEParser :: sse_parser where
  "createSSEParser = \<lparr>lineBuffer = [], pending = NEW_BLOCK\<rparr>"

definition finalize_if_ready :: "pending_event \<Rightarrow> sse_event list \<times> pending_event" where
  "finalize_if_ready p =
     (if \<not> hasField p then ([], NEW_BLOCK)
      else ([\<lparr>sse_id = pending_id p, sse_name = pending_name p, sse_data = join_with newline (dataLines p),
              sse_retry = pending_retry p\<rparr>], NEW_BLOCK))"

definition strip_carriage :: "string \<Rightarrow> string" where
  "strip_carriage s = (if s \<noteq> [] \<and> last s = carriage then butlast s else s)"

definition strip_space :: "string \<Rightarrow> string" where
  "strip_space s = (case s of [] \<Rightarrow> [] | c # t \<Rightarrow> if c = CHR '' '' then t else s)"

definition split_field :: "string \<Rightarrow> string \<times> string" where
  "split_field line =
     (takeWhile (\<lambda>c. c \<noteq> CHR '':'') line,
      case dropWhile (\<lambda>c. c \<noteq> CHR '':'') line of [] \<Rightarrow> [] | _ # v \<Rightarrow> strip_space v)"

definition is_digit :: "char \<Rightarrow> bool" where
  "is_digit c = (let n = of_char c :: nat in 48 \<le> n \<and> n \<le> 57)"

definition number_of :: "string \<Rightarrow> nat" where
  "number_of s = foldl (\<lambda>n c. 10 * n + (of_char c - 48)) 0 s"

definition set_field :: "string \<Rightarrow> string \<Rightarrow> pending_event \<Rightarrow> pending_event" where
  "set_field field v p =
     (if field = ''event'' then p\<lparr>pending_name := Some v, hasField := True\<rparr>
      else if field = ''data'' then p\<lparr>dataLines := dataLines p @ [v], hasField := True\<rparr>
      else if field = ''id'' then
        if CHR 0x00 \<notin> set v then p\<lparr>pending_id := Some v, hasField := True\<rparr> else p
      else if field = ''retry'' then
        if v \<noteq> [] \<and> list_all is_digit v then p\<lparr>pending_retry := Some (number_of v), hasField := True\<rparr> else p
      else p)"

definition process_line :: "string \<Rightarrow> pending_event \<Rightarrow> sse_event list \<times> pending_event" where
  "process_line raw p =
     (let line = strip_carriage raw in
      if line = [] then finalize_if_ready p
      else if hd line = CHR '':'' then ([], p)
      else case split_field line of (field, v) \<Rightarrow> ([], set_field field v p))"

fun process_lines :: "string list \<Rightarrow> pending_event \<Rightarrow> sse_event list \<times> pending_event" where
  "process_lines [] p = ([], p)"
| "process_lines (l # ls) p =
     (case process_line l p of (es, p1) \<Rightarrow> case process_lines ls p1 of (fs, p2) \<Rightarrow> (es @ fs, p2))"

definition feed :: "string \<Rightarrow> sse_parser \<Rightarrow> sse_event list \<times> sse_parser" where
  "feed chunk s =
     (let parts = split_on newline (lineBuffer s @ chunk) in
      case process_lines (butlast parts) (pending s) of (out, p) \<Rightarrow>
        (out, \<lparr>lineBuffer = last parts, pending = p\<rparr>))"

definition flush :: "sse_parser \<Rightarrow> sse_event list \<times> sse_parser" where
  "flush s =
     (case (if lineBuffer s \<noteq> [] then process_line (lineBuffer s) (pending s) else ([], pending s)) of (out, p) \<Rightarrow>
      case finalize_if_ready p of (es, p1) \<Rightarrow> (out @ es, \<lparr>lineBuffer = [], pending = p1\<rparr>))"

text \<open>A stream: the chunks as they arrive off the wire, and \<open>flush\<close> when it ends.\<close>

fun feed_all :: "string list \<Rightarrow> sse_parser \<Rightarrow> sse_event list \<times> sse_parser" where
  "feed_all [] s = ([], s)"
| "feed_all (c # cs) s = (case feed c s of (es, s1) \<Rightarrow> case feed_all cs s1 of (fs, s2) \<Rightarrow> (es @ fs, s2))"

definition read_stream :: "string list \<Rightarrow> sse_event list" where
  "read_stream cs = (case feed_all cs createSSEParser of (es, s) \<Rightarrow> es @ fst (flush s))"

section \<open>Chunks\<close>

lemma process_lines_append:
  "process_lines (ls @ ms) p =
     (case process_lines ls p of (es, p1) \<Rightarrow> case process_lines ms p1 of (fs, p2) \<Rightarrow> (es @ fs, p2))"
  by (induction ls arbitrary: p) (auto split: prod.splits)

lemma split_on_extend:
  "split_on c (a @ b) = butlast (split_on c a) @ split_on c (last (split_on c a) @ b)"
proof (induction a)
  case (Cons x a)
  show ?case
  proof (cases "x = c")
    case False
    obtain w ws where s: "split_on c a = w # ws" using split_on_nonempty by (cases "split_on c a") auto
    show ?thesis
    proof (cases ws)
      case Nil
      with Cons s False show ?thesis by simp
    next
      case (Cons v vs)
      with \<open>split_on c (a @ b) = _\<close> s False show ?thesis by simp
    qed
  qed (use Cons in simp)
qed simp

lemma feed_append:
  "feed (a @ b) s = (case feed a s of (es, s1) \<Rightarrow> case feed b s1 of (fs, s2) \<Rightarrow> (es @ fs, s2))"
  using split_on_extend [of newline "lineBuffer s @ a" b]
  by (simp add: feed_def Let_def butlast_append process_lines_append split: prod.split)

lemma feed_empty: "newline \<notin> set (lineBuffer s) \<Longrightarrow> feed [] s = ([], s)"
  by (simp add: feed_def split_on_free Let_def)

lemma newline_free_last: "c \<notin> set (last (split_on c s))"
  by (induction s) (auto split: list.splits)

lemma feed_buffer_free: "newline \<notin> set (lineBuffer (snd (feed c s)))"
  by (simp add: feed_def Let_def newline_free_last split: prod.split)

lemma feed_all_concat: "newline \<notin> set (lineBuffer s) \<Longrightarrow> feed_all cs s = feed (concat cs) s"
proof (induction cs arbitrary: s)
  case (Cons c cs)
  have "feed_all cs (snd (feed c s)) = feed (concat cs) (snd (feed c s))"
    by (rule Cons.IH [OF feed_buffer_free])
  then show ?case by (auto simp: feed_append split: prod.splits)
qed (simp add: feed_empty)

lemma createSSEParser_buffer [simp]: "lineBuffer createSSEParser = []"
  by (simp add: createSSEParser_def)

text \<open>
  C35.  How the network cuts the stream does not matter: any two ways of cutting the same text
  into chunks give the same events.
\<close>

theorem chunking_does_not_matter:
  assumes "concat cs = concat ds"
  shows "read_stream cs = read_stream ds"
  using assms by (simp add: read_stream_def feed_all_concat)

theorem chunking_does_not_matter_witness:
  "read_stream [''id: 7'', [newline], ''data: x'', [newline, newline]] = read_stream [''id: 7'' @ newline # ''data: x'' @ [newline, newline]]"
  by (rule chunking_does_not_matter) simp

section \<open>Line endings\<close>

definition crlf :: "string \<Rightarrow> string" where
  "crlf s = concat (map (\<lambda>c. if c = newline then [carriage, newline] else [c]) s)"

lemma split_on_crlf:
  "split_on newline (crlf s) = map (\<lambda>l. l @ [carriage]) (butlast (split_on newline s)) @ [last (split_on newline s)]"
proof (induction s)
  case (Cons x s)
  obtain w ws where s: "split_on newline s = w # ws" using split_on_nonempty by (cases "split_on newline s") auto
  with Cons show ?case by (cases ws) (auto simp: crlf_def)
qed (simp add: crlf_def)

lemma process_line_carriage: "carriage \<notin> set l \<Longrightarrow> process_line (l @ [carriage]) p = process_line l p"
proof -
  assume "carriage \<notin> set l"
  then have "strip_carriage (l @ [carriage]) = l" "strip_carriage l = l"
    by (auto simp: strip_carriage_def dest: last_in_set)
  then show ?thesis by (simp add: process_line_def)
qed

lemma process_lines_carriage:
  "list_all (\<lambda>l. carriage \<notin> set l) ls \<Longrightarrow> process_lines (map (\<lambda>l. l @ [carriage]) ls) p = process_lines ls p"
  by (induction ls arbitrary: p) (simp_all add: process_line_carriage split: prod.split)

lemma set_split_on: "l \<in> set (split_on c s) \<Longrightarrow> set l \<subseteq> set s"
proof (induction s arbitrary: l)
  case (Cons x s)
  obtain w ws where s: "split_on c s = w # ws" using split_on_nonempty by (cases "split_on c s") auto
  with Cons.prems Cons.IH show ?case by (fastforce split: if_splits)
qed simp

text \<open>
  A stream with CRLF line endings gives the events of the same stream with LF endings.
\<close>

theorem crlf_does_not_matter:
  assumes "carriage \<notin> set s"
  shows "read_stream [crlf s] = read_stream [s]"
proof -
  let ?ls = "split_on newline s"
  have "list_all (\<lambda>l. carriage \<notin> set l) (butlast ?ls)"
    using assms set_split_on [of _ newline s] by (auto simp: list_all_iff dest: in_set_butlastD)
  then have "feed (crlf s) createSSEParser = feed s createSSEParser"
    by (simp add: feed_def Let_def split_on_crlf process_lines_carriage)
  then show ?thesis by (simp add: read_stream_def feed_all_concat)
qed

theorem crlf_does_not_matter_witness:
  "read_stream [crlf (''data: a'' @ [newline, newline])] = read_stream [''data: a'' @ [newline, newline]]"
  by (rule crlf_does_not_matter) simp

section \<open>Frames\<close>

text \<open>An event on the wire, one field per line, a blank line after it.\<close>

definition frame :: "sse_event \<Rightarrow> string" where
  "frame e =
     (case sse_id e of None \<Rightarrow> [] | Some v \<Rightarrow> ''id: '' @ v @ [newline]) @
     (case sse_name e of None \<Rightarrow> [] | Some v \<Rightarrow> ''event: '' @ v @ [newline]) @
     (case sse_retry e of None \<Rightarrow> [] | Some n \<Rightarrow> ''retry: '' @ digits_of n @ [newline]) @
     concat (map (\<lambda>l. ''data: '' @ l @ [newline]) (split_on newline (sse_data e))) @ [newline]"

definition one_line :: "string \<Rightarrow> bool" where
  "one_line v \<longleftrightarrow> newline \<notin> set v \<and> carriage \<notin> set v"

definition frameable :: "sse_event \<Rightarrow> bool" where
  "frameable e \<longleftrightarrow>
     case_option True (\<lambda>v. one_line v \<and> CHR 0x00 \<notin> set v) (sse_id e) \<and>
     case_option True one_line (sse_name e) \<and> carriage \<notin> set (sse_data e)"

lemma join_split [simp]: "join_with c (split_on c s) = s"
proof (induction s)
  case (Cons x s)
  obtain w ws where s: "split_on c s = w # ws" using split_on_nonempty by (cases "split_on c s") auto
  with Cons show ?case by (cases ws) auto
qed simp

lemma number_of_snoc: "number_of (s @ [c]) = 10 * number_of s + (of_char c - 48)"
  by (simp add: number_of_def)

lemma digit_char: "d < 10 \<Longrightarrow> (of_char (char_of (48 + d) :: char) :: nat) = 48 + d"
  by (simp add: of_char_of)

lemma digits_of_correct: "digits_of n \<noteq> [] \<and> list_all is_digit (digits_of n) \<and> number_of (digits_of n) = n"
proof (induction n rule: digits_of.induct)
  case (1 n)
  show ?case
  proof (cases "n < 10")
    case True
    then show ?thesis by (simp add: digits_of.simps [of n] is_digit_def number_of_def digit_char)
  next
    case False
    have "n mod 10 < 10" by simp
    then show ?thesis using 1 False
      by (simp add: digits_of.simps [of n] number_of_snoc is_digit_def digit_char)
  qed
qed

lemma digit_not_special: "is_digit c \<Longrightarrow> c \<noteq> newline \<and> c \<noteq> carriage"
  by (auto simp: is_digit_def)

lemma one_line_digits: "one_line (digits_of n)"
  using digits_of_correct [of n] by (auto simp: one_line_def list_all_iff dest: digit_not_special)

lemma one_line_data: "carriage \<notin> set s \<Longrightarrow> l \<in> set (split_on newline s) \<Longrightarrow> one_line l"
proof (induction s arbitrary: l)
  case (Cons x s)
  obtain w ws where s: "split_on newline s = w # ws" using split_on_nonempty by (cases "split_on newline s") auto
  with Cons show ?case by (auto simp: one_line_def split: if_splits)
qed (simp add: one_line_def)

text \<open>The text of a line and its end, fed to a parser that is at the start of a line.\<close>

definition at_start :: "pending_event \<Rightarrow> sse_parser" where
  "at_start p = \<lparr>lineBuffer = [], pending = p\<rparr>"

lemma feed_line:
  "newline \<notin> set l \<Longrightarrow> feed (l @ newline # rest) (at_start p) =
     (case process_line l p of (es, p1) \<Rightarrow> case feed rest (at_start p1) of (fs, s) \<Rightarrow> (es @ fs, s))"
  by (simp add: feed_def at_start_def split_on_append split_on_free Let_def butlast_append process_lines_append
      split: prod.split)

lemma feed_field:
  assumes "one_line v" "f \<in> {''id'', ''event'', ''retry'', ''data''}"
  shows "feed (f @ '': '' @ v @ newline # rest) (at_start p) = feed rest (at_start (set_field f v p))"
proof -
  have "newline \<notin> set (f @ '': '' @ v)" "carriage \<notin> set (f @ '': '' @ v)"
    using assms by (auto simp: one_line_def)
  moreover from this(2) have "process_line (f @ '': '' @ v) p = ([], set_field f v p)"
    using assms(2) by (auto simp: process_line_def strip_carriage_def Let_def split_field_def strip_space_def dest: last_in_set)
  ultimately show ?thesis using feed_line [of "f @ '': '' @ v" rest p] by (simp split: prod.split)
qed

lemma feed_data_lines:
  "list_all one_line ls \<Longrightarrow>
     feed (concat (map (\<lambda>l. ''data: '' @ l @ [newline]) ls) @ rest) (at_start p) =
     feed rest (at_start (p\<lparr>dataLines := dataLines p @ ls, hasField := hasField p \<or> ls \<noteq> []\<rparr>))"
proof (induction ls arbitrary: p)
  case (Cons l ls)
  then show ?case using feed_field [of l "''data''" _ p] by (simp add: set_field_def)
qed simp

lemma feed_optional:
  assumes "case_option True one_line v" "f \<in> {''id'', ''event'', ''retry'', ''data''}"
  shows "feed ((case v of None \<Rightarrow> [] | Some v \<Rightarrow> f @ '': '' @ v @ [newline]) @ rest) (at_start p) =
           feed rest (at_start (case v of None \<Rightarrow> p | Some v \<Rightarrow> set_field f v p))"
  using feed_field [OF _ assms(2)] assms(1) by (cases v) simp_all

lemma feed_blank:
  "hasField p \<Longrightarrow> feed (newline # rest) (at_start p) =
     (case feed rest (at_start NEW_BLOCK) of (fs, s) \<Rightarrow>
        (\<lparr>sse_id = pending_id p, sse_name = pending_name p, sse_data = join_with newline (dataLines p),
          sse_retry = pending_retry p\<rparr> # fs, s))"
  using feed_line [of "[]" rest p]
  by (simp add: process_line_def strip_carriage_def finalize_if_ready_def split: prod.split)

lemma feed_frame:
  assumes e: "frameable e"
  shows "feed (frame e @ rest) (at_start NEW_BLOCK) = (case feed rest (at_start NEW_BLOCK) of (fs, s) \<Rightarrow> (e # fs, s))"
proof -
  let ?d = "split_on newline (sse_data e)"
  let ?p1 = "case sse_id e of None \<Rightarrow> NEW_BLOCK | Some v \<Rightarrow> set_field ''id'' v NEW_BLOCK"
  let ?p2 = "case sse_name e of None \<Rightarrow> ?p1 | Some v \<Rightarrow> set_field ''event'' v ?p1"
  let ?p3 = "case map_option digits_of (sse_retry e) of None \<Rightarrow> ?p2 | Some v \<Rightarrow> set_field ''retry'' v ?p2"
  let ?p4 = "?p3\<lparr>dataLines := dataLines ?p3 @ ?d, hasField := hasField ?p3 \<or> ?d \<noteq> []\<rparr>"
  have lines: "case_option True one_line (sse_id e)" "case_option True one_line (sse_name e)"
    "case_option True one_line (map_option digits_of (sse_retry e))" "list_all one_line ?d"
    using e one_line_data by (auto simp: frameable_def list_all_iff one_line_digits split: option.splits)
  have frame: "frame e @ rest =
      (case sse_id e of None \<Rightarrow> [] | Some v \<Rightarrow> ''id'' @ '': '' @ v @ [newline]) @
      (case sse_name e of None \<Rightarrow> [] | Some v \<Rightarrow> ''event'' @ '': '' @ v @ [newline]) @
      (case map_option digits_of (sse_retry e) of None \<Rightarrow> [] | Some v \<Rightarrow> ''retry'' @ '': '' @ v @ [newline]) @
      concat (map (\<lambda>l. ''data: '' @ l @ [newline]) ?d) @ newline # rest"
    by (simp add: frame_def split: option.split)
  have "feed (frame e @ rest) (at_start NEW_BLOCK) = feed (newline # rest) (at_start ?p4)"
    unfolding frame using feed_optional [OF lines(1), of "''id''"] feed_optional [OF lines(2), of "''event''"]
      feed_optional [OF lines(3), of "''retry''"] feed_data_lines [OF lines(4)] by (simp del: split_on_nonempty)
  also have "\<dots> = (case feed rest (at_start NEW_BLOCK) of (fs, s) \<Rightarrow>
        (\<lparr>sse_id = pending_id ?p4, sse_name = pending_name ?p4, sse_data = join_with newline (dataLines ?p4),
          sse_retry = pending_retry ?p4\<rparr> # fs, s))"
    by (rule feed_blank) simp
  also have "\<lparr>sse_id = pending_id ?p4, sse_name = pending_name ?p4, sse_data = join_with newline (dataLines ?p4),
          sse_retry = pending_retry ?p4\<rparr> = e"
    using e digits_of_correct by (cases e) (auto simp: frameable_def set_field_def NEW_BLOCK_def split: option.splits)
  finally show ?thesis .
qed

lemma feed_frames: "list_all frameable es \<Longrightarrow> feed (concat (map frame es)) (at_start NEW_BLOCK) = (es, at_start NEW_BLOCK)"
proof (induction es)
  case Nil
  show ?case using feed_empty [of "at_start NEW_BLOCK"] by (simp add: at_start_def)
qed (simp add: feed_frame)

text \<open>
  C36.  Reading back what was written: a stream of frames is parsed into exactly the events it
  was made of, with their ids, names, retry hints and multi-line data, and nothing is left over
  when the stream ends.
\<close>

theorem frames_are_read_back:
  assumes "list_all frameable es"
  shows "read_stream [concat (map frame es)] = es"
proof -
  have "feed (concat (map frame es)) createSSEParser = (es, createSSEParser)"
    using feed_frames [OF assms] by (simp add: createSSEParser_def at_start_def)
  moreover have "fst (flush createSSEParser) = []"
    by (simp add: flush_def createSSEParser_def finalize_if_ready_def NEW_BLOCK_def)
  ultimately show ?thesis by (simp add: read_stream_def feed_all_concat del: createSSEParser_buffer)
qed

theorem frames_are_read_back_witness:
  "read_stream [concat (map frame
     [\<lparr>sse_id = Some ''7'', sse_name = Some ''task.created'', sse_data = ''a'' @ newline # ''b: c'', sse_retry = Some 1500\<rparr>,
      \<lparr>sse_id = None, sse_name = Some ''ping'', sse_data = [], sse_retry = None\<rparr>])] =
     [\<lparr>sse_id = Some ''7'', sse_name = Some ''task.created'', sse_data = ''a'' @ newline # ''b: c'', sse_retry = Some 1500\<rparr>,
      \<lparr>sse_id = None, sse_name = Some ''ping'', sse_data = [], sse_retry = None\<rparr>]"
  by (rule frames_are_read_back) (simp add: frameable_def one_line_def)

end
