(* ===== verification/Sse_Client.thy ===== *)
theory Sse_Client
  imports Sse_Parser
begin

text \<open>
  The router's stream client, \<open>packages/wft-router/src/sse/client.ts\<close> and \<open>auth.ts\<close>: one connection
  after the other with resumption, backoff, the watchdog and the exit codes.  What the network
  does in one round of the loop is an \<open>attempt\<close>; the readings of the clock, in the order the
  code takes them, are a function \<open>clock\<close>; the loop runs over the attempts seen so far.
\<close>

section \<open>One connection\<close>

definition CONTROL_EVENT_NAMES :: "string list" where "CONTROL_EVENT_NAMES = [''ping'']"

definition is_control_event :: "sse_event \<Rightarrow> bool" where
  "is_control_event ev = (case sse_name ev of None \<Rightarrow> False | Some n \<Rightarrow> List.member CONTROL_EVENT_NAMES n)"

definition PAT_PREFIX :: string where "PAT_PREFIX = ''wft_pat_''"

definition auth_header :: "string \<Rightarrow> string \<times> string" where
  "auth_header key = (if starts_with PAT_PREFIX key then (''Authorization'', ''Bearer '' @ key) else (''X-API-Key'', key))"

datatype read_result = Chunk string | Read_fails | End_of_stream

datatype response = Fetch_fails | Response int bool "read_result list"

datatype connection_result = Closed_clean | Auth_failed int | Gap int | Network_error | Stale int

text \<open>
  The events of one chunk, up to the one after which the stream is found to be deaf.  The result
  also carries the number of clock readings so far and the time of the last real event.
\<close>

fun yield_events ::
  "(nat \<Rightarrow> int) \<Rightarrow> int \<Rightarrow> sse_event list \<Rightarrow> nat \<Rightarrow> int \<Rightarrow> sse_event list \<times> connection_result option \<times> nat \<times> int" where
  "yield_events clock stale [] k real_at = ([], None, k, real_at)"
| "yield_events clock stale (ev # evs) k real_at =
     (let k1 = (if is_control_event ev then k else k + 1);
          real1 = (if is_control_event ev then real_at else clock k)
      in if stale > 0 \<and> clock k1 - real1 \<ge> stale then ([ev], Some (Stale (clock (k1 + 1) - real1)), k1 + 2, real1)
         else (case yield_events clock stale evs (if stale > 0 then k1 + 1 else k1) real1 of
                 (out, r, k2, real2) \<Rightarrow> (ev # out, r, k2, real2)))"

fun read_loop ::
  "(nat \<Rightarrow> int) \<Rightarrow> int \<Rightarrow> bool \<Rightarrow> read_result list \<Rightarrow> sse_parser \<Rightarrow> nat \<Rightarrow> int \<Rightarrow> sse_event list \<times> connection_result option \<times> nat" where
  "read_loop clock stale aborted [] p k real_at = ([], None, k)"
| "read_loop clock stale aborted (Read_fails # rs) p k real_at = ([], Some (if aborted then Closed_clean else Network_error), k)"
| "read_loop clock stale aborted (End_of_stream # rs) p k real_at = (fst (flush p), Some Closed_clean, k)"
| "read_loop clock stale aborted (Chunk s # rs) p k real_at =
     (case feed s p of (evs, p') \<Rightarrow>
        (case yield_events clock stale evs k real_at of
           (out, Some r, k1, _) \<Rightarrow> (out, Some r, k1)
         | (out, None, k1, real1) \<Rightarrow>
             (case read_loop clock stale aborted rs p' k1 real1 of (out', r, k2) \<Rightarrow> (out @ out', r, k2))))"

definition run_one_connection ::
  "(nat \<Rightarrow> int) \<Rightarrow> int \<Rightarrow> bool \<Rightarrow> response \<Rightarrow> nat \<Rightarrow> sse_event list \<times> connection_result option \<times> nat" where
  "run_one_connection clock stale aborted resp k =
     (case resp of
        Fetch_fails \<Rightarrow> ([], Some (if aborted then Closed_clean else Network_error), k)
      | Response st has_body reads \<Rightarrow>
          if st = 401 \<or> st = 403 then ([], Some (Auth_failed st), k)
          else if st = 410 then ([], Some (Gap st), k)
          else if \<not> (200 \<le> st \<and> st < 300) \<or> \<not> has_body then ([], Some Network_error, k)
          else read_loop clock stale aborted reads createSSEParser (k + 1) (clock k))"

section \<open>Backoff\<close>

definition compute_backoff_ms :: "nat \<Rightarrow> rat \<Rightarrow> rat \<Rightarrow> int" where
  "compute_backoff_ms attempts max_backoff r =
     (let exp_base = 1000 * 2 ^ (attempts - 1); capped = min max_backoff exp_base; jitter = 1 / 2 + r * (1 / 2)
      in \<lfloor>capped * jitter\<rfloor>)"

text \<open>
  A pause of the client lies between half of the doubled base time and the base time, capped
  at the maximum: never longer than the cap, never shorter than half of it.
\<close>

theorem backoff_is_bounded:
  assumes "1 \<le> attempts" "0 \<le> r" "r < 1" "0 < max_backoff"
  shows "\<lfloor>min max_backoff (1000 * 2 ^ (attempts - 1)) / 2\<rfloor> \<le> compute_backoff_ms attempts max_backoff r \<and>
    of_int (compute_backoff_ms attempts max_backoff r) < min max_backoff (1000 * 2 ^ (attempts - 1))"
proof -
  let ?c = "min max_backoff (1000 * 2 ^ (attempts - 1))"
  have c: "0 < ?c" using assms(4) by simp
  have "?c / 2 \<le> ?c * (1 / 2 + r * (1 / 2))" using c assms(2) by (simp add: field_simps)
  moreover have "?c * (1 / 2 + r * (1 / 2)) < ?c * 1" using c assms(3) by (intro mult_strict_left_mono) simp_all
  ultimately show ?thesis unfolding compute_backoff_ms_def Let_def
    by (auto intro: floor_mono order.strict_trans1 [OF of_int_floor_le])
qed

theorem backoff_is_bounded_witness:
  "\<lfloor>min 60000 (1000 * 2 ^ (3 - 1)) / (2 :: rat)\<rfloor> \<le> compute_backoff_ms 3 60000 (1 / 4) \<and>
   of_int (compute_backoff_ms 3 60000 (1 / 4)) < min 60000 (1000 * 2 ^ (3 - 1) :: rat)"
  by (rule backoff_is_bounded) simp_all

section \<open>The run loop\<close>

datatype exit_code = CleanShutdown | AuthFailedStartup | EndpointUnreachable

record client_options =
  maxBackoffMs :: rat
  unreachableLimitMs :: int
  staleResubscribeAfterMs :: int

definition default_options :: client_options where
  "default_options = \<lparr>maxBackoffMs = 60000, unreachableLimitMs = 15 * 60000, staleResubscribeAfterMs = 0\<rparr>"

text \<open>One round: whether the signal is aborted at its head, when the connection ends and during
  the pause, what the server does, and the random number of the pause.\<close>

record attempt =
  at_head_aborted :: bool
  at_response :: response
  at_aborted :: bool
  at_random :: rat
  at_sleep_aborted :: bool

text \<open>The log of a round: the header it sent, its events, how it ended and the clock reading then.\<close>

record round_log =
  rd_last_event_id :: "string option"
  rd_events :: "sse_event list"
  rd_result :: "connection_result option"
  rd_clock :: nat

record client =
  lastEventId :: "string option"
  firstFailureAt :: "int option"
  attempts :: nat
  cl_clock :: nat
  cl_rounds :: "round_log list"
  cl_sleeps :: "int list"

definition new_client :: client where
  "new_client = \<lparr>lastEventId = None, firstFailureAt = None, attempts = 0, cl_clock = 0, cl_rounds = [], cl_sleeps = []\<rparr>"

datatype loop_state = Looping | Streaming | Exited exit_code

definition note_event :: "string option \<Rightarrow> sse_event \<Rightarrow> string option" where
  "note_event last_id ev = (case sse_id ev of Some i \<Rightarrow> if i \<noteq> [] then Some i else last_id | None \<Rightarrow> last_id)"

text \<open>A failure counts, and the first one is timed.\<close>

definition count_failure :: "(nat \<Rightarrow> int) \<Rightarrow> client \<Rightarrow> client" where
  "count_failure clock c =
     (let c1 = c\<lparr>attempts := attempts c + 1\<rparr> in
      if firstFailureAt c = None then c1\<lparr>firstFailureAt := Some (clock (cl_clock c)), cl_clock := cl_clock c + 1\<rparr> else c1)"

text \<open>The watchdog reads the clock only when a failure is on record.\<close>

definition watchdog :: "client_options \<Rightarrow> (nat \<Rightarrow> int) \<Rightarrow> client \<Rightarrow> bool \<times> client" where
  "watchdog opts clock c =
     (case firstFailureAt c of
        None \<Rightarrow> (False, c)
      | Some t \<Rightarrow> (clock (cl_clock c) - t \<ge> unreachableLimitMs opts, c\<lparr>cl_clock := cl_clock c + 1\<rparr>))"

definition after_round :: "client_options \<Rightarrow> (nat \<Rightarrow> int) \<Rightarrow> attempt \<Rightarrow> client \<Rightarrow> client \<times> loop_state" where
  "after_round opts clock a c =
     (case watchdog opts clock c of
        (True, c1) \<Rightarrow> (c1, Exited EndpointUnreachable)
      | (False, c1) \<Rightarrow>
          if attempts c1 > 0 then
            (let c2 = c1\<lparr>cl_sleeps := cl_sleeps c1 @ [compute_backoff_ms (attempts c1) (maxBackoffMs opts) (at_random a)]\<rparr> in
             if at_sleep_aborted a then (c2, Exited CleanShutdown)
             else (case watchdog opts clock c2 of
                     (True, c3) \<Rightarrow> (c3, Exited EndpointUnreachable) | (False, c3) \<Rightarrow> (c3, Looping)))
          else (c1, Looping))"

definition client_round :: "client_options \<Rightarrow> (nat \<Rightarrow> int) \<Rightarrow> attempt \<Rightarrow> client \<Rightarrow> client \<times> loop_state" where
  "client_round opts clock a c =
     (if at_head_aborted a then (c, Exited CleanShutdown)
      else (case run_one_connection clock (staleResubscribeAfterMs opts) (at_aborted a) (at_response a) (cl_clock c) of
        (evs, r, k) \<Rightarrow>
          let c1 = c\<lparr>lastEventId := foldl note_event (lastEventId c) evs, cl_clock := k,
                     cl_rounds := cl_rounds c @ [\<lparr>rd_last_event_id = lastEventId c, rd_events = evs, rd_result = r, rd_clock = k\<rparr>]\<rparr>
          in case r of
               None \<Rightarrow> (c1, Streaming)
             | Some res \<Rightarrow>
                 let c2 = (if evs \<noteq> [] then c1\<lparr>firstFailureAt := None, attempts := 0\<rparr> else c1) in
                 if at_aborted a then (c2, Exited CleanShutdown)
                 else (case res of
                   Auth_failed st \<Rightarrow> (c2, Exited AuthFailedStartup)
                 | Gap st \<Rightarrow> (c2\<lparr>lastEventId := None, firstFailureAt := None, attempts := 0\<rparr>, Looping)
                 | Stale n \<Rightarrow> (c2\<lparr>firstFailureAt := None, attempts := 0\<rparr>, Looping)
                 | Closed_clean \<Rightarrow> after_round opts clock a (if evs = [] then count_failure clock c2 else c2\<lparr>attempts := 0\<rparr>)
                 | Network_error \<Rightarrow> after_round opts clock a (count_failure clock c2))))"

fun run_client :: "client_options \<Rightarrow> (nat \<Rightarrow> int) \<Rightarrow> attempt list \<Rightarrow> client \<Rightarrow> client \<times> loop_state" where
  "run_client opts clock [] c = (c, Looping)"
| "run_client opts clock (a # as) c =
     (case client_round opts clock a c of (c1, Looping) \<Rightarrow> run_client opts clock as c1 | r \<Rightarrow> r)"


section \<open>The failures on record\<close>

definition round_fails :: "round_log \<Rightarrow> bool" where
  "round_fails x \<longleftrightarrow> rd_result x = Some Network_error \<or> (rd_result x = Some Closed_clean \<and> rd_events x = [])"

text \<open>The latest failures in a row, newest first, back to a round that delivered an event.\<close>

fun failing_streak :: "round_log list \<Rightarrow> round_log list" where
  "failing_streak [] = []"
| "failing_streak (x # xs) =
     (if round_fails x then (if rd_events x \<noteq> [] then [x] else x # failing_streak xs) else [])"

definition on_record :: "(nat \<Rightarrow> int) \<Rightarrow> client \<Rightarrow> bool" where
  "on_record clock c \<longleftrightarrow>
     (let s = failing_streak (rev (cl_rounds c)) in
      attempts c = length s \<and>
      firstFailureAt c = (if s = [] then None else Some (clock (rd_clock (last s)))))"

lemma failing_streak_last: "failing_streak (x # xs) \<noteq> [] \<Longrightarrow>
    last (failing_streak (x # xs)) = (if rd_events x \<noteq> [] \<or> failing_streak xs = [] then x else last (failing_streak xs))"
  by auto

lemma watchdog_frame:
  "watchdog opts clock c = (b, c') \<Longrightarrow>
     cl_rounds c' = cl_rounds c \<and> attempts c' = attempts c \<and> firstFailureAt c' = firstFailureAt c \<and> cl_clock c \<le> cl_clock c'"
  by (auto simp: watchdog_def split: option.splits)

lemma watchdog_fires:
  "watchdog opts clock c = (True, c') \<Longrightarrow>
     \<exists>t. firstFailureAt c = Some t \<and> clock (cl_clock c) - t \<ge> unreachableLimitMs opts"
  by (auto simp: watchdog_def split: option.splits)

lemma after_round_frame:
  "after_round opts clock a c = (c', r) \<Longrightarrow>
     cl_rounds c' = cl_rounds c \<and> attempts c' = attempts c \<and> firstFailureAt c' = firstFailureAt c \<and> cl_clock c \<le> cl_clock c'"
  by (auto simp: after_round_def Let_def split: prod.splits bool.splits if_splits dest!: watchdog_frame)

lemma after_round_unreachable:
  "after_round opts clock a c = (c', Exited EndpointUnreachable) \<Longrightarrow>
     \<exists>t j. firstFailureAt c' = Some t \<and> cl_clock c \<le> j \<and> clock j - t \<ge> unreachableLimitMs opts"
proof -
  assume a: "after_round opts clock a c = (c', Exited EndpointUnreachable)"
  obtain b c1 where w: "watchdog opts clock c = (b, c1)" by (metis surj_pair)
  note frame = watchdog_frame [OF w]
  show ?thesis
  proof (cases b)
    case True
    with a w have "c' = c1" by (simp add: after_round_def)
    with watchdog_fires [of opts clock c c1] w True frame show ?thesis by auto
  next
    case False
    let ?c2 = "c1\<lparr>cl_sleeps := cl_sleeps c1 @ [compute_backoff_ms (attempts c1) (maxBackoffMs opts) (at_random a)]\<rparr>"
    obtain b2 c3 where w2: "watchdog opts clock ?c2 = (b2, c3)" by (metis surj_pair)
    with a w False have "b2" "c' = c3"
      by (auto simp: after_round_def Let_def split: if_splits bool.splits)
    with w2 watchdog_fires [of opts clock ?c2 c3] watchdog_frame [OF w2] frame show ?thesis by auto
  qed
qed

lemma count_failure_frame:
  "cl_rounds (count_failure clock c) = cl_rounds c" "attempts (count_failure clock c) = attempts c + 1"
  "firstFailureAt (count_failure clock c) = (case firstFailureAt c of None \<Rightarrow> Some (clock (cl_clock c)) | Some t \<Rightarrow> Some t)"
  "cl_clock c \<le> cl_clock (count_failure clock c)"
  by (auto simp: count_failure_def Let_def split: option.split)


lemma on_record_fails:
  assumes "on_record clock c" "cl_rounds c' = cl_rounds c @ [x]" "round_fails x" "rd_clock x = cl_clock d"
    and "attempts d = (if rd_events x \<noteq> [] then 0 else attempts c)"
    and "firstFailureAt d = (if rd_events x \<noteq> [] then None else firstFailureAt c)"
    and "attempts c' = attempts (count_failure clock d)" "firstFailureAt c' = firstFailureAt (count_failure clock d)"
  shows "on_record clock c'"
  using assms by (auto simp: on_record_def Let_def count_failure_frame split: if_splits)

lemma on_record_clear:
  "cl_rounds c' = xs @ [x] \<Longrightarrow> \<not> round_fails x \<Longrightarrow> attempts c' = 0 \<Longrightarrow> firstFailureAt c' = None \<Longrightarrow> on_record clock c'"
  by (simp add: on_record_def)

lemma round_on_record:
  assumes "on_record clock c" "client_round opts clock a c = (c', s)" "s = Looping \<or> s = Exited EndpointUnreachable"
  shows "on_record clock c'"
proof -
  obtain evs r k where conn: "run_one_connection clock (staleResubscribeAfterMs opts) (at_aborted a) (at_response a) (cl_clock c) = (evs, r, k)"
    by (metis prod_cases3)
  let ?x = "\<lparr>rd_last_event_id = lastEventId c, rd_events = evs, rd_result = r, rd_clock = k\<rparr>"
  let ?c1 = "c\<lparr>lastEventId := foldl note_event (lastEventId c) evs, cl_clock := k, cl_rounds := cl_rounds c @ [?x]\<rparr>"
  let ?c2 = "if evs \<noteq> [] then ?c1\<lparr>firstFailureAt := None, attempts := 0\<rparr> else ?c1"
  have head: "\<not> at_head_aborted a" using assms(2,3) by (auto simp: client_round_def)
  obtain res where res: "r = Some res" "\<not> at_aborted a"
    using assms(2,3) head conn by (auto simp: client_round_def Let_def split: option.splits if_splits)
  have fails: "on_record clock c'" if "after_round opts clock a (count_failure clock ?c2) = (c', s)" "round_fails ?x"
    by (rule on_record_fails [OF assms(1), where d = ?c2 and x = ?x])
      (use after_round_frame [OF that(1)] that(2) in \<open>simp_all add: count_failure_frame\<close>)
  show ?thesis
  proof (cases res)
    case Closed_clean
    show ?thesis
    proof (cases "evs = []")
      case True
      show ?thesis
        by (rule fails) (use True assms(2) head conn res Closed_clean in \<open>simp_all add: client_round_def Let_def round_fails_def\<close>)
    next
      case False
      with assms(2) head conn res Closed_clean have "after_round opts clock a (?c2\<lparr>attempts := 0\<rparr>) = (c', s)"
        by (simp add: client_round_def Let_def)
      from after_round_frame [OF this] False show ?thesis
        by (intro on_record_clear [of _ "cl_rounds c" ?x]) (simp_all add: round_fails_def res Closed_clean)
    qed
  next
    case Network_error
    show ?thesis
      by (rule fails; cases "evs = []") (use assms(2) head conn res Network_error in \<open>simp_all add: client_round_def Let_def round_fails_def\<close>)
  qed (use assms(2,3) head conn res in
      \<open>auto simp: client_round_def Let_def round_fails_def intro!: on_record_clear [of _ "cl_rounds c" ?x]\<close>)
qed


lemma yield_events_clock: "yield_events clock stale evs k real_at = (out, r, k', real') \<Longrightarrow> k \<le> k' \<and> r \<noteq> Some (Auth_failed st)"
  by (induction clock stale evs k real_at arbitrary: out r k' real' rule: yield_events.induct)
    (fastforce simp: Let_def split: if_splits prod.splits)+

lemma read_loop_no_auth: "read_loop clock stale ab rs p k real_at = (out, r, k') \<Longrightarrow> r \<noteq> Some (Auth_failed st)"
  by (induction clock stale ab rs p k real_at arbitrary: out r k' rule: read_loop.induct)
    (auto split: prod.splits option.splits dest: yield_events_clock [where st = st])

lemma auth_failed_status:
  "run_one_connection clock stale ab resp k = (evs, Some (Auth_failed st), k') \<Longrightarrow> st = 401 \<or> st = 403"
  by (auto simp: run_one_connection_def split: response.splits if_splits dest: read_loop_no_auth)

text \<open>Why a round ends the loop.\<close>

definition exit_earned :: "client_options \<Rightarrow> (nat \<Rightarrow> int) \<Rightarrow> client \<Rightarrow> bool \<Rightarrow> exit_code \<Rightarrow> bool" where
  "exit_earned opts clock c was_aborted e \<longleftrightarrow>
     (case e of
        CleanShutdown \<Rightarrow> was_aborted
      | AuthFailedStartup \<Rightarrow> (\<exists>st \<in> {401, 403}. rd_result (last (cl_rounds c)) = Some (Auth_failed st))
      | EndpointUnreachable \<Rightarrow>
          (let s = failing_streak (rev (cl_rounds c)) in
           s \<noteq> [] \<and> (\<exists>j \<ge> rd_clock (hd s). clock j - clock (rd_clock (last s)) \<ge> unreachableLimitMs opts)))"

definition aborts :: "attempt \<Rightarrow> bool" where
  "aborts a \<longleftrightarrow> at_head_aborted a \<or> at_aborted a \<or> at_sleep_aborted a"

lemma unreachable_earned:
  assumes "on_record clock c'" "after_round opts clock a c = (c', Exited EndpointUnreachable)"
    and "cl_rounds c = xs @ [x]" "rd_clock x \<le> cl_clock c"
  shows "exit_earned opts clock c' b EndpointUnreachable"
proof -
  obtain t j where t: "firstFailureAt c' = Some t" "cl_clock c \<le> j" "clock j - t \<ge> unreachableLimitMs opts"
    using after_round_unreachable [OF assms(2)] by blast
  have rounds: "cl_rounds c' = xs @ [x]" using after_round_frame [OF assms(2)] assms(3) by simp
  have s: "failing_streak (rev (cl_rounds c')) \<noteq> []" "t = clock (rd_clock (last (failing_streak (rev (cl_rounds c')))))"
    using assms(1) t(1) by (auto simp: on_record_def Let_def split: if_splits)
  then have "hd (failing_streak (rev (cl_rounds c'))) = x" by (auto simp: rounds split: if_splits)
  with s t assms(4) show ?thesis by (auto simp: exit_earned_def Let_def intro!: exI [of _ j])
qed

lemma round_exit_earned:
  assumes "on_record clock c" "client_round opts clock a c = (c', Exited e)"
  shows "exit_earned opts clock c' (aborts a) e"
proof (cases "at_head_aborted a")
  case True
  with assms(2) show ?thesis by (simp add: client_round_def exit_earned_def aborts_def)
next
  case head: False
  obtain evs r k where conn: "run_one_connection clock (staleResubscribeAfterMs opts) (at_aborted a) (at_response a) (cl_clock c) = (evs, r, k)"
    by (metis prod_cases3)
  let ?x = "\<lparr>rd_last_event_id = lastEventId c, rd_events = evs, rd_result = r, rd_clock = k\<rparr>"
  have unreachable: "exit_earned opts clock c' (aborts a) e"
    if "after_round opts clock a d = (c', Exited e)" "cl_rounds d = cl_rounds c @ [?x]" "k \<le> cl_clock d" for d
  proof (cases e)
    case EndpointUnreachable
    with assms that show ?thesis
      by (auto intro!: unreachable_earned [of _ _ _ _ _ "cl_rounds c" ?x] round_on_record [OF assms(1)])
  qed (use that(1) in \<open>auto simp: after_round_def exit_earned_def aborts_def Let_def split: prod.splits bool.splits if_splits\<close>)
  show ?thesis
  proof (cases "r = None \<or> at_aborted a")
    case True
    with assms(2) conn head show ?thesis
      by (auto simp: client_round_def Let_def exit_earned_def aborts_def split: option.splits)
  next
    case False
    then obtain res where res: "r = Some res" "\<not> at_aborted a" by auto
    show ?thesis
    proof (cases res)
      case (Auth_failed st)
      with auth_failed_status conn res have "st \<in> {401, 403}" by fastforce
      with assms(2) conn head res Auth_failed show ?thesis
        by (cases "evs = []") (auto simp: client_round_def Let_def exit_earned_def)
    next
      case Closed_clean
      show ?thesis
        by (rule unreachable [where d = "if evs = [] then count_failure clock
              (c\<lparr>cl_clock := k, cl_rounds := cl_rounds c @ [?x]\<rparr>)
            else c\<lparr>lastEventId := foldl note_event (lastEventId c) evs, cl_clock := k,
                   cl_rounds := cl_rounds c @ [?x], firstFailureAt := None, attempts := 0\<rparr>"])
          (use assms(2) conn head res Closed_clean count_failure_frame in
            \<open>auto simp: client_round_def Let_def count_failure_frame split: if_splits
              intro: order_trans [OF _ count_failure_frame(4)]\<close>)
    next
      case Network_error
      let ?d = "c\<lparr>lastEventId := foldl note_event (lastEventId c) evs, cl_clock := k, cl_rounds := cl_rounds c @ [?x]\<rparr>"
      show ?thesis
        by (rule unreachable [where d = "count_failure clock (if evs = [] then ?d else ?d\<lparr>firstFailureAt := None, attempts := 0\<rparr>)"];
            cases "evs = []")
          (use assms(2) conn head res Network_error in
            \<open>auto simp: client_round_def Let_def count_failure_frame intro: order_trans [OF _ count_failure_frame(4)]\<close>)
    qed (use assms(2) conn head res in \<open>auto simp: client_round_def Let_def\<close>)
  qed
qed


text \<open>
  The loop ends only for a reason.  A clean exit means that the signal was aborted; exit code
  3 that the server answered 401 or 403; exit code 4 that an unbroken streak of failures, since
  whose first one no event was delivered, has lasted at least the limit.
\<close>

theorem exit_codes_are_earned:
  assumes "run_client opts clock as new_client = (c, Exited e)"
  shows "exit_earned opts clock c (list_ex aborts as) e"
proof -
  have "exit_earned opts clock c (list_ex aborts as) e"
    if "run_client opts clock as c0 = (c, Exited e)" "on_record clock c0" for c0
    using that
  proof (induction as arbitrary: c0)
    case (Cons a as)
    obtain c1 s where r: "client_round opts clock a c0 = (c1, s)" by (metis surj_pair)
    show ?case
    proof (cases s)
      case Looping
      then have "on_record clock c1" using round_on_record [OF Cons.prems(2) r] by simp
      with Cons.IH [of c1] Cons.prems(1) r Looping have "exit_earned opts clock c (list_ex aborts as) e" by simp
      then show ?thesis by (cases e) (simp_all add: exit_earned_def)
    next
      case (Exited e')
      with Cons.prems r have "c = c1" "e' = e" by auto
      with round_exit_earned [OF Cons.prems(2)] r Exited have "exit_earned opts clock c (aborts a) e" by simp
      then show ?thesis by (cases e) (simp_all add: exit_earned_def)
    qed (use Cons.prems r in simp)
  qed simp
  moreover have "on_record clock new_client" by (simp add: on_record_def new_client_def)
  ultimately show ?thesis using assms by blast
qed

definition dead_attempt :: attempt where
  "dead_attempt = \<lparr>at_head_aborted = False, at_response = Fetch_fails, at_aborted = False, at_random = 0, at_sleep_aborted = False\<rparr>"

theorem exit_codes_are_earned_witness:
  "exit_earned default_options (\<lambda>i. int i * 500000) (fst (run_client default_options (\<lambda>i. int i * 500000) [dead_attempt] new_client))
     (list_ex aborts [dead_attempt]) EndpointUnreachable"
proof (rule exit_codes_are_earned)
  show "run_client default_options (\<lambda>i. int i * 500000) [dead_attempt] new_client =
      (fst (run_client default_options (\<lambda>i. int i * 500000) [dead_attempt] new_client), Exited EndpointUnreachable)"
    by (simp add: default_options_def dead_attempt_def new_client_def client_round_def run_one_connection_def
        after_round_def watchdog_def count_failure_def Let_def)
qed

end
