(* ===== verification/Router_Metrics.thy ===== *)
theory Router_Metrics
  imports Prelude
begin

text \<open>
  The router's counters, \<open>packages/wft-router/src/metrics.ts\<close>: a registry that declares its
  families when it is built, one increment method per event of the pipeline, and the text a
  scraper reads.  Every family is a value of a datatype, so the error for an undeclared one
  cannot arise.  The text of a number is an argument; the HTTP server is not modelled.
\<close>

section \<open>The registry\<close>

datatype metric =
  EventsReceived | EventsByKind | MatchedRules | Dispatched | HandlerErrors | PermanentlyFailed | RateLimitDropped

datatype event_kind = Mappable | Control | Unmappable

type_synonym labels = "(string \<times> string) list"

record sample =
  sample_labels :: labels
  sample_value :: int

record metrics =
  families :: "(metric, (string, sample) jsmap) jsmap"
  processStartSeconds :: rat
  lastRealEventAtMs :: int

definition METRICS :: "metric list" where
  "METRICS = [EventsReceived, EventsByKind, MatchedRules, Dispatched, HandlerErrors, PermanentlyFailed, RateLimitDropped]"

fun metric_name :: "metric \<Rightarrow> string" where
  "metric_name EventsReceived = ''wft_router_events_received_total''"
| "metric_name EventsByKind = ''wft_router_events_received_by_kind_total''"
| "metric_name MatchedRules = ''wft_router_matched_rules_total''"
| "metric_name Dispatched = ''wft_router_dispatched_total''"
| "metric_name HandlerErrors = ''wft_router_handler_errors_total''"
| "metric_name PermanentlyFailed = ''wft_router_permanently_failed_total''"
| "metric_name RateLimitDropped = ''wft_router_rate_limit_dropped_total''"

fun metric_help :: "metric \<Rightarrow> string" where
  "metric_help EventsReceived = ''Total SSE events received by the router.''"
| "metric_help EventsByKind = ''Total SSE events received, split by kind (mappable domain event / control frame / unmappable).''"
| "metric_help MatchedRules = ''Total (rule, event) matches across all events.''"
| "metric_help Dispatched = ''Total handler dispatches, labelled by handler and outcome status.''"
| "metric_help HandlerErrors = ''Total handler invocations that threw or rejected, by handler.''"
| "metric_help PermanentlyFailed = ''Total dispatches that failed non-retryably, by rule.''"
| "metric_help RateLimitDropped = ''Total dispatches dropped by the rate-limit gate, by rule.''"

fun kind_label :: "event_kind \<Rightarrow> string" where
  "kind_label Mappable = ''mappable''"
| "kind_label Control = ''control''"
| "kind_label Unmappable = ''unmappable''"

text \<open>The key of a sample: its \<open>k=v\<close> pairs joined by NUL.\<close>

definition label_key :: "labels \<Rightarrow> string" where
  "label_key ls = join_with CHR 0x00 (map (\<lambda>(k, v). k @ CHR ''='' # v) ls)"

definition bump_family :: "labels \<Rightarrow> int \<Rightarrow> (string, sample) jsmap \<Rightarrow> (string, sample) jsmap" where
  "bump_family ls delta fam =
     (case js_get fam (label_key ls) of
        None \<Rightarrow> js_put (label_key ls) \<lparr>sample_labels = ls, sample_value = delta\<rparr> fam
      | Some s \<Rightarrow> js_put (label_key ls) (s\<lparr>sample_value := sample_value s + delta\<rparr>) fam)"

definition bump :: "metric \<Rightarrow> labels \<Rightarrow> int \<Rightarrow> metrics \<Rightarrow> metrics" where
  "bump m ls delta R =
     R\<lparr>families := js_put m (bump_family ls delta (case_option [] id (js_get (families R) m))) (families R)\<rparr>"

definition new_metrics :: "int \<Rightarrow> rat \<Rightarrow> metrics" where
  "new_metrics now start =
     (let R0 = \<lparr>families = map (\<lambda>m. (m, [])) METRICS, processStartSeconds = start, lastRealEventAtMs = now\<rparr> in
      bump EventsByKind [(''kind'', ''unmappable'')] 0
       (bump EventsByKind [(''kind'', ''control'')] 0
        (bump EventsByKind [(''kind'', ''mappable'')] 0
         (bump MatchedRules [] 0 (bump EventsReceived [] 0 R0)))))"

definition incEventsReceived :: "metrics \<Rightarrow> metrics" where
  "incEventsReceived R = bump EventsReceived [] 1 R"

definition incEventsByKind :: "event_kind \<Rightarrow> metrics \<Rightarrow> metrics" where
  "incEventsByKind k R = bump EventsByKind [(''kind'', kind_label k)] 1 R"

definition markRealEvent :: "int \<Rightarrow> metrics \<Rightarrow> metrics" where
  "markRealEvent now R = R\<lparr>lastRealEventAtMs := now\<rparr>"

definition lastRealEventAgeSeconds :: "int \<Rightarrow> metrics \<Rightarrow> rat" where
  "lastRealEventAgeSeconds now R = max 0 (of_int (now - lastRealEventAtMs R) / 1000)"

definition incMatchedRules :: "int \<Rightarrow> metrics \<Rightarrow> metrics" where
  "incMatchedRules n R = (if n \<le> 0 then R else bump MatchedRules [] n R)"

definition incDispatched :: "string \<Rightarrow> string \<Rightarrow> metrics \<Rightarrow> metrics" where
  "incDispatched handler status R = bump Dispatched [(''handler'', handler), (''status'', status)] 1 R"

definition incHandlerError :: "string \<Rightarrow> metrics \<Rightarrow> metrics" where
  "incHandlerError handler R = bump HandlerErrors [(''handler'', handler)] 1 R"

definition incPermanentlyFailed :: "string \<Rightarrow> metrics \<Rightarrow> metrics" where
  "incPermanentlyFailed rule R = bump PermanentlyFailed [(''rule'', rule)] 1 R"

definition incRateLimitDropped :: "string \<Rightarrow> metrics \<Rightarrow> metrics" where
  "incRateLimitDropped rule R = bump RateLimitDropped [(''rule'', rule)] 1 R"

section \<open>The exposition text\<close>

text \<open>The three \<open>replace\<close> calls of the code, in their order.\<close>

definition replace_char :: "char \<Rightarrow> string \<Rightarrow> string \<Rightarrow> string" where
  "replace_char c by s = concat (map (\<lambda>x. if x = c then by else [x]) s)"

definition escapeLabelValue :: "string \<Rightarrow> string" where
  "escapeLabelValue v =
     replace_char (CHR 0x0A) [CHR 0x5C, CHR ''n'']
       (replace_char (CHR 0x22) [CHR 0x5C, CHR 0x22] (replace_char (CHR 0x5C) [CHR 0x5C, CHR 0x5C] v))"

definition renderLabels :: "labels \<Rightarrow> string" where
  "renderLabels ls =
     (if ls = [] then []
      else ''{'' @ join_with CHR '','' (map (\<lambda>(k, v). k @ CHR ''='' # CHR 0x22 # escapeLabelValue v @ [CHR 0x22]) ls) @ ''}'')"

definition render_family :: "metrics \<Rightarrow> metric \<Rightarrow> string list" where
  "render_family R m =
     [''# HELP '' @ metric_name m @ '' '' @ metric_help m, ''# TYPE '' @ metric_name m @ '' counter''] @
     (case js_get (families R) m of
        None \<Rightarrow> []
      | Some fam \<Rightarrow> map (\<lambda>(_, s). metric_name m @ renderLabels (sample_labels s) @ CHR '' '' # string_of_int (sample_value s)) fam)"

definition render_metrics :: "(rat \<Rightarrow> string) \<Rightarrow> int \<Rightarrow> metrics \<Rightarrow> string" where
  "render_metrics num now R =
     join_with (CHR 0x0A) (concat (map (render_family R) METRICS) @
       [''# HELP wft_router_last_real_event_age_seconds Seconds since the last mappable domain event was received (baseline: process start). Control frames such as pings do not reset it.'',
        ''# TYPE wft_router_last_real_event_age_seconds gauge'',
        ''wft_router_last_real_event_age_seconds '' @ num (lastRealEventAgeSeconds now R),
        ''# HELP process_start_time_seconds Start time of the process since unix epoch in seconds.'',
        ''# TYPE process_start_time_seconds gauge'',
        ''process_start_time_seconds '' @ num (processStartSeconds R)]) @ [CHR 0x0A]"

section \<open>What a scraper reads back\<close>

text \<open>How a scraper reads a label value: up to the first quote that is not escaped.\<close>

fun read_label_value :: "string \<Rightarrow> (string \<times> string) option" where
  "read_label_value [] = None"
| "read_label_value (c # s) =
     (if c = CHR 0x22 then Some ([], s)
      else if c = CHR 0x0A then None
      else if c = CHR 0x5C then
        (case s of
           [] \<Rightarrow> None
         | d # s' \<Rightarrow> map_option (apfst ((#) (if d = CHR ''n'' then CHR 0x0A else d))) (read_label_value s'))
      else map_option (apfst ((#) c)) (read_label_value s))"

lemma replace_char_simps [simp]:
  "replace_char c by [] = []"
  "replace_char c by (x # s) = (if x = c then by else [x]) @ replace_char c by s"
  "replace_char c by (s @ t) = replace_char c by s @ replace_char c by t"
  by (simp_all add: replace_char_def)

lemma escape_Cons:
  "escapeLabelValue (c # s) =
     (if c = CHR 0x5C then [CHR 0x5C, CHR 0x5C] else if c = CHR 0x22 then [CHR 0x5C, CHR 0x22]
      else if c = CHR 0x0A then [CHR 0x5C, CHR ''n''] else [c]) @ escapeLabelValue s"
  by (simp add: escapeLabelValue_def)

lemma escaped_value_is_read_back: "read_label_value (escapeLabelValue s @ CHR 0x22 # rest) = Some (s, rest)"
  by (induction s) (simp_all add: escape_Cons, simp add: escapeLabelValue_def)

section \<open>Counting\<close>

definition counter :: "metric \<Rightarrow> labels \<Rightarrow> metrics \<Rightarrow> int" where
  "counter m ls R =
     (case js_get (families R) m of
        None \<Rightarrow> 0
      | Some fam \<Rightarrow> (case js_get fam (label_key ls) of None \<Rightarrow> 0 | Some s \<Rightarrow> sample_value s))"

lemma counter_bump:
  "counter m ls (bump m' ls' delta R) =
     counter m ls R + (if m = m' \<and> label_key ls = label_key ls' then delta else 0)"
  by (auto simp: counter_def bump_def bump_family_def split: option.split)

lemma counter_mark [simp]: "counter m ls (markRealEvent now R) = counter m ls R"
  by (simp add: counter_def markRealEvent_def)

definition family_total :: "metric \<Rightarrow> metrics \<Rightarrow> int" where
  "family_total m R = (case js_get (families R) m of None \<Rightarrow> 0 | Some fam \<Rightarrow> sum_list (map (\<lambda>(_, s). sample_value s) fam))"

lemma sum_js_put:
  "sum_list (map (\<lambda>(_, s). f s) (js_put k v fam)) =
     sum_list (map (\<lambda>(_, s). f s) fam) + (f v - (case js_get fam k of None \<Rightarrow> 0 | Some s \<Rightarrow> f s))" for f :: "'s \<Rightarrow> int"
  by (induction k v fam rule: js_put.induct) auto

lemma family_total_bump:
  "family_total m (bump m' ls delta R) = family_total m R + (if m = m' then delta else 0)"
  by (auto simp: family_total_def bump_def bump_family_def sum_js_put split: option.split)

lemma family_total_mark [simp]: "family_total m (markRealEvent now R) = family_total m R"
  by (simp add: family_total_def markRealEvent_def)

lemma family_total_new [simp]: "family_total m (new_metrics now start) = 0"
  by (simp add: new_metrics_def family_total_bump, simp add: family_total_def METRICS_def)

end
