(* ===== verification/Router_Daemon.thy ===== *)
theory Router_Daemon
  imports Handler_Laws Debouncer Rate_Limiter Sse_Client Router_Metrics
begin

text \<open>
  The router itself, \<open>packages/wft-router/src/daemon.ts\<close>: events of the stream are matched with
  the rules, debounced, rate limited and handed to the handlers; the sweep does the same with
  the open backlog.  One call of \<open>dispatchRule\<close> is a number; it waits in the debouncer, runs
  its handler's effect, or is over.  The event loop's freedom to choose what runs next is a
  list of steps.  JSON and date texts are read by arguments; the logger is not modelled.
\<close>

section \<open>Events of the stream\<close>

record wire_event =
  we_type :: "string option"
  we_timestamp :: "string option"
  we_data :: "event_task option"
  we_meta :: "event_meta option"

text \<open>What \<open>JSON.parse\<close> makes of the text: an exception, something that is no object, or an
  event whose fields have their documented types; \<open>data\<close> and \<open>metadata\<close> that are null count as absent.\<close>

datatype wire_body = Parse_throws | Not_an_object | Wire wire_event

record mapped_event =
  me_payload :: event_payload
  me_event_id :: string
  me_emitted_at :: "int option"

definition map_sse_event :: "(string \<Rightarrow> wire_body) \<Rightarrow> (string \<Rightarrow> int option) \<Rightarrow> sse_event \<Rightarrow> mapped_event option" where
  "map_sse_event parse date_parse ev =
     (case parse (sse_data ev) of
        Parse_throws \<Rightarrow> None
      | Not_an_object \<Rightarrow> None
      | Wire w \<Rightarrow>
          (case (case sse_name ev of Some n \<Rightarrow> Some n | None \<Rightarrow> we_type w) of
             None \<Rightarrow> None
           | Some type \<Rightarrow>
               if type = [] then None
               else (case sse_id ev of
                 None \<Rightarrow> None
               | Some i \<Rightarrow>
                   if i = [] then None
                   else Some \<lparr>me_payload = \<lparr>ep_type = type, ep_task = we_data w, ep_meta = we_meta w\<rparr>,
                              me_event_id = i, me_emitted_at = Option.bind (we_timestamp w) date_parse\<rparr>)))"

section \<open>State\<close>

datatype daemon_phase = Daemon_idle | Daemon_running | Daemon_stopping | Daemon_stopped

record dispatch_payload =
  dp_rule :: trigger_rule
  dp_event :: event_payload
  dp_identity :: dispatch_identity

text \<open>A call whose handler has asked for its effect.\<close>

record running_call =
  rn_call :: nat
  rn_handler :: handler_name
  rn_rule :: trigger_rule
  rn_event :: event_payload
  rn_identity :: dispatch_identity
  rn_effect :: effect

record daemon =
  dm_phase :: daemon_phase
  dm_aborted :: bool
  dm_debouncer :: "dispatch_payload debouncer"
  dm_limiter :: rate_limiter
  dm_log :: dispatch_log
  dm_calls :: nat
  dm_waiting :: "(nat \<times> trigger_rule) list"
  dm_resumed :: nat
  dm_running :: "running_call list"
  dm_started :: "running_call list"
  dm_last_event_id :: "string option"
  dm_dropped :: nat
  dm_metrics :: metrics
  dm_intervals :: "(trigger_rule \<times> int) list"
  dm_sweep_queue :: "trigger_rule list"
  dm_sweep_call :: "nat option"
  dm_loop_over :: bool

text \<open>What does not change while the daemon runs.\<close>

record daemon_deps =
  dd_config :: triggers_config
  dd_env :: environment
  dd_api_base :: utext
  dd_api_key :: utext
  dd_parse :: "string \<Rightarrow> wire_body"
  dd_date_parse :: "string \<Rightarrow> int option"

definition default_of :: "triggers_config \<Rightarrow> (trigger_defaults \<Rightarrow> 'a option) \<Rightarrow> 'a option" where
  "default_of cfg f = Option.bind (config_defaults cfg) f"

definition or_default :: "'a option \<Rightarrow> 'a \<Rightarrow> 'a" where
  "or_default x d = case_option d id x"

definition new_daemon :: "daemon_deps \<Rightarrow> dispatch_log \<Rightarrow> metrics \<Rightarrow> daemon" where
  "new_daemon D st R =
     \<lparr>dm_phase = Daemon_idle, dm_aborted = False,
      dm_debouncer = new_debouncer (default_of (dd_config D) def_debounce_ms),
      dm_limiter = new_limiter (map_option of_int (default_of (dd_config D) def_max_dispatches)) None,
      dm_log = st, dm_calls = 0, dm_waiting = [], dm_resumed = 0, dm_running = [], dm_started = [],
      dm_last_event_id = None, dm_dropped = 0, dm_metrics = R, dm_intervals = [], dm_sweep_queue = [],
      dm_sweep_call = None, dm_loop_over = False\<rparr>"

section \<open>One dispatch\<close>

definition opt_field :: "string \<Rightarrow> ('a \<Rightarrow> json) \<Rightarrow> 'a option \<Rightarrow> (utext \<times> json) list" where
  "opt_field k f x = (case x of None \<Rightarrow> [] | Some v \<Rightarrow> [(u k, f v)])"

text \<open>The task object of the payload, as the renderer sees it.\<close>

definition task_json :: "event_task \<Rightarrow> json" where
  "task_json t =
     (let num = (\<lambda>n. JNum (of_int n)); str = (\<lambda>s. JStr (u s)) in
      JObj (opt_field ''id'' num (et_id t) @ opt_field ''project_id'' num (et_project_id t) @
            opt_field ''project_slug'' str (et_project_slug t) @ opt_field ''status'' str (et_status t) @
            opt_field ''tags'' (\<lambda>ts. JArr (map str ts)) (et_tags t) @
            opt_field ''parent_task_id'' (case_option JNull num) (et_parent t) @
            opt_field ''assignee'' (case_option JNull str) (et_assignee t)))"

definition read_token_env :: "(utext \<times> json) list \<Rightarrow> utext option" where
  "read_token_env block =
     (case map_of block (u ''token_env'') of Some (JStr s) \<Rightarrow> if s \<noteq> [] then Some s else None | _ \<Rightarrow> None)"

definition build_context :: "daemon_deps \<Rightarrow> trigger_rule \<Rightarrow> event_payload \<Rightarrow> dispatch_identity \<Rightarrow> handler_context" where
  "build_context D rule event i =
     (let name = read_token_env (rule_with rule);
          resolved = Option.bind name (js_get (env_vars (dd_env D)));
          token = (case resolved of Some t \<Rightarrow> if t \<noteq> [] then t else dd_api_key D | None \<Rightarrow> dd_api_key D)
      in \<lparr>hc_task = map_option task_json (ep_task event), hc_identity = i, hc_rendered_with = None,
          hc_with_block = Some (rule_with rule), hc_api_base = dd_api_base D, hc_auth_token = token, hc_token_env = name\<rparr>)"

fun handler_label :: "handler_name \<Rightarrow> string" where
  "handler_label Create_task_in_project = ''create_task_in_project''"
| "handler_label Webhook_post = ''webhook_post''"
| "handler_label Shell_exec = ''shell_exec''"
| "handler_label Agent_session_dispatch = ''agent_session_dispatch''"

fun outcome_kind :: "handler_outcome \<Rightarrow> string" where
  "outcome_kind (Succeeded _) = ''succeeded''"
| "outcome_kind (Suppressed _) = ''suppressed''"
| "outcome_kind (Failed _ _) = ''failed''"

definition on_outcome :: "trigger_rule \<Rightarrow> handler_outcome \<Rightarrow> daemon \<Rightarrow> daemon" where
  "on_outcome rule out d =
     (let R = incDispatched (handler_label (rule_do rule)) (outcome_kind out) (dm_metrics d) in
      d\<lparr>dm_metrics := (case out of Failed False _ \<Rightarrow> incPermanentlyFailed (rule_name rule) R | _ \<Rightarrow> R)\<rparr>)"

text \<open>The stages after the debouncer: \<open>rule\<close> is the rule that called, \<open>winner\<close> what it waited for.\<close>

definition after_debounce :: "daemon_deps \<Rightarrow> int \<Rightarrow> nat \<Rightarrow> trigger_rule \<Rightarrow> dispatch_payload \<Rightarrow> daemon \<Rightarrow> daemon" where
  "after_debounce D now call rule winner d =
     (case try_acquire now (rule_name rule) (dm_limiter d) of (granted, L) \<Rightarrow>
        let d1 = d\<lparr>dm_limiter := L\<rparr> in
        if \<not> granted
        then d1\<lparr>dm_dropped := dm_dropped d1 + 1, dm_metrics := incRateLimitDropped (rule_name rule) (dm_metrics d1)\<rparr>
        else
          let ctx = build_context D (dp_rule winner) (dp_event winner) (dp_identity winner) in
          case handler_start (rule_do rule) (dd_env D) now ctx (dm_log d1) of
            (Threw e, st) \<Rightarrow>
              d1\<lparr>dm_log := st, dm_metrics := incHandlerError (handler_label (rule_do (dp_rule winner))) (dm_metrics d1)\<rparr>
          | (Returned out, st) \<Rightarrow> on_outcome (dp_rule winner) out (d1\<lparr>dm_log := st\<rparr>)
          | (Go_on eff, st) \<Rightarrow>
              let c = \<lparr>rn_call = call, rn_handler = rule_do rule, rn_rule = dp_rule winner, rn_event = dp_event winner,
                       rn_identity = dp_identity winner, rn_effect = eff\<rparr> in
              d1\<lparr>dm_log := st, dm_running := dm_running d1 @ [c], dm_started := dm_started d1 @ [c]\<rparr>)"

definition identity_of :: "trigger_rule \<Rightarrow> mapped_event \<Rightarrow> dispatch_identity" where
  "identity_of rule m =
     \<lparr>di_rule = rule_name rule, di_event = me_event_id m, di_task = task_field et_id (me_payload m),
      di_to_status = meta_field em_to (me_payload m), di_emitted_at = me_emitted_at m\<rparr>"

definition event_key :: "mapped_event \<Rightarrow> string" where
  "event_key m = (case task_field et_id (me_payload m) of Some n \<Rightarrow> string_of_int n | None \<Rightarrow> me_event_id m)"

definition dispatch_rule :: "daemon_deps \<Rightarrow> int \<Rightarrow> trigger_rule \<Rightarrow> mapped_event \<Rightarrow> daemon \<Rightarrow> daemon" where
  "dispatch_rule D now rule m d =
     (let payload = \<lparr>dp_rule = rule, dp_event = me_payload m, dp_identity = identity_of rule m\<rparr>;
          call = dm_calls d;
          d1 = d\<lparr>dm_calls := call + 1\<rparr>
      in if debounce_ms rule = Some 0 then after_debounce D now call rule payload d1
         else d1\<lparr>dm_debouncer := push now (rule_name rule) (event_key m) call payload (dm_debouncer d1),
                 dm_waiting := dm_waiting d1 @ [(call, rule)]\<rparr>)"

section \<open>The steps of the event loop\<close>

definition matched_rules :: "triggers_config \<Rightarrow> mapped_event \<Rightarrow> trigger_rule list" where
  "matched_rules cfg m =
     filter (\<lambda>r. rule_on r = ep_type (me_payload m) \<and> evaluate_where (rule_where r) (me_payload m)) (config_rules cfg)"

definition on_event :: "daemon_deps \<Rightarrow> int \<Rightarrow> sse_event \<Rightarrow> daemon \<Rightarrow> daemon" where
  "on_event D now ev d =
     (let d1 = d\<lparr>dm_metrics := incEventsReceived (dm_metrics d),
                 dm_last_event_id := (case sse_id ev of Some i \<Rightarrow> if i \<noteq> [] then Some i else dm_last_event_id d
                                      | None \<Rightarrow> dm_last_event_id d)\<rparr>
      in if is_control_event ev then d1\<lparr>dm_metrics := incEventsByKind Control (dm_metrics d1)\<rparr>
         else (case map_sse_event (dd_parse D) (dd_date_parse D) ev of
           None \<Rightarrow> d1\<lparr>dm_metrics := incEventsByKind Unmappable (dm_metrics d1)\<rparr>
         | Some m \<Rightarrow>
             let d2 = d1\<lparr>dm_metrics := markRealEvent now (incEventsByKind Mappable (dm_metrics d1))\<rparr>;
                 matched = matched_rules (dd_config D) m
             in if matched = [] then d2
                else foldl (\<lambda>d r. dispatch_rule D now r m d)
                  (d2\<lparr>dm_metrics := incMatchedRules (int (length matched)) (dm_metrics d2)\<rparr>) matched))"

definition sweep_rule ::
  "daemon_deps \<Rightarrow> int \<Rightarrow> (sweep_params \<Rightarrow> 'err + task_list_answer) \<Rightarrow> trigger_rule \<Rightarrow> daemon \<Rightarrow> daemon" where
  "sweep_rule D now query rule d =
     (case find_first_matching_open_task query (rule_where rule) (rule_on rule) of
        Inl e \<Rightarrow> d
      | Inr None \<Rightarrow> d
      | Inr (Some (payload, matched, open_total)) \<Rightarrow>
          let window_s = or_default (idempotency_window_s rule)
                (or_default (default_of (dd_config D) def_idempotency_window_s) 3600)
          in dispatch_rule D now rule
               \<lparr>me_payload = payload, me_event_id = sweep_event_id (rule_name rule) window_s now, me_emitted_at = Some now\<rparr> d)"

text \<open>The call a debounced promise belongs to continues.\<close>

definition resume :: "daemon_deps \<Rightarrow> int \<Rightarrow> daemon \<Rightarrow> daemon" where
  "resume D now d =
     (if dm_resumed d < length (resolved (dm_debouncer d)) then
        (case resolved (dm_debouncer d) ! dm_resumed d of (call, winner, coalesced) \<Rightarrow>
           let d1 = d\<lparr>dm_resumed := dm_resumed d + 1\<rparr> in
           case map_of (dm_waiting d1) call of
             None \<Rightarrow> d1
           | Some rule \<Rightarrow>
               after_debounce D now call rule winner (d1\<lparr>dm_waiting := filter (\<lambda>w. fst w \<noteq> call) (dm_waiting d1)\<rparr>))
      else d)"

text \<open>The effect of a running call comes back: its handler finishes and reports.\<close>

definition effect_done :: "int \<Rightarrow> nat \<Rightarrow> effect_result \<Rightarrow> daemon \<Rightarrow> daemon" where
  "effect_done now call r d =
     (case find (\<lambda>c. rn_call c = call) (dm_running d) of
        None \<Rightarrow> d
      | Some c \<Rightarrow>
          (case handler_finish (rn_handler c) now (rn_identity c) r (dm_log d) of
             None \<Rightarrow> d
           | Some (out, st) \<Rightarrow>
               on_outcome (rn_rule c) out
                 (d\<lparr>dm_log := st, dm_running := filter (\<lambda>c. rn_call c \<noteq> call) (dm_running d)\<rparr>)))"

definition start_daemon :: "daemon_deps \<Rightarrow> daemon \<Rightarrow> daemon" where
  "start_daemon D d =
     (if dm_phase d \<noteq> Daemon_idle then d
      else
        let cfg = dd_config D;
            interval = (\<lambda>r. or_default (sweep_interval_s r) (or_default (default_of cfg def_sweep_interval_s) 0))
        in d\<lparr>dm_phase := Daemon_running,
             dm_sweep_queue := filter (\<lambda>r. or_default (sweep_on_start r) (or_default (default_of cfg def_sweep_on_start) False))
                                 (config_rules cfg),
             dm_intervals := map (\<lambda>r. (r, interval r * 1000)) (filter (\<lambda>r. interval r > 0) (config_rules cfg))\<rparr>)"

definition call_live :: "nat \<Rightarrow> daemon \<Rightarrow> bool" where
  "call_live n d \<longleftrightarrow> n \<in> fst ` set (dm_waiting d) \<or> n \<in> rn_call ` set (dm_running d)"

text \<open>The start-up sweep: one rule after the other, each only once the dispatch of the one before is over.\<close>

definition sweep_next :: "daemon_deps \<Rightarrow> int \<Rightarrow> (sweep_params \<Rightarrow> 'err + task_list_answer) \<Rightarrow> daemon \<Rightarrow> daemon" where
  "sweep_next D now query d =
     (case dm_sweep_queue d of
        [] \<Rightarrow> d
      | rule # rest \<Rightarrow>
          if (case dm_sweep_call d of Some n \<Rightarrow> call_live n d | None \<Rightarrow> False) then d
          else if dm_aborted d then d\<lparr>dm_sweep_queue := []\<rparr>
          else (sweep_rule D now query rule (d\<lparr>dm_sweep_queue := rest, dm_sweep_call := Some (dm_calls d)\<rparr>)))"

definition interval_tick ::
  "daemon_deps \<Rightarrow> int \<Rightarrow> (sweep_params \<Rightarrow> 'err + task_list_answer) \<Rightarrow> trigger_rule \<Rightarrow> daemon \<Rightarrow> daemon" where
  "interval_tick D now query rule d =
     (if rule \<notin> fst ` set (dm_intervals d) then d
      else if dm_phase d \<noteq> Daemon_running then d
      else sweep_rule D now query rule d)"

text \<open>\<open>stop\<close> up to its first wait, and its end once the stream, the sweeps and the calls are over.\<close>

definition stop_daemon :: "daemon \<Rightarrow> daemon" where
  "stop_daemon d =
     (case dm_phase d of
        Daemon_idle \<Rightarrow> d\<lparr>dm_phase := Daemon_stopped\<rparr>
      | Daemon_running \<Rightarrow>
          d\<lparr>dm_phase := Daemon_stopping, dm_aborted := True, dm_intervals := [],
            dm_debouncer := flush_all (dm_debouncer d)\<rparr>
      | _ \<Rightarrow> d)"

definition stop_drained :: "daemon \<Rightarrow> daemon" where
  "stop_drained d =
     (if dm_phase d = Daemon_stopping \<and> dm_loop_over d \<and> dm_sweep_queue d = [] \<and> dm_waiting d = [] \<and> dm_running d = []
      then d\<lparr>dm_phase := Daemon_stopped\<rparr> else d)"

text \<open>
  Everything that may happen next.  Each step carries its time; a sweep carries the answers of the
  task list.  The stream yields events only while its loop runs.
\<close>

datatype 'err daemon_step =
  Start | Stop | Stop_drained_step
| Event_step int sse_event
| Loop_ends
| Elapse_step int string
| Resume_step int
| Effect_step int nat effect_result
| Sweep_step int "sweep_params \<Rightarrow> 'err + task_list_answer"
| Tick_step int trigger_rule "sweep_params \<Rightarrow> 'err + task_list_answer"

fun take_step :: "daemon_deps \<Rightarrow> daemon \<Rightarrow> 'err daemon_step \<Rightarrow> daemon" where
  "take_step D d Start = start_daemon D d"
| "take_step D d Stop = stop_daemon d"
| "take_step D d Stop_drained_step = stop_drained d"
| "take_step D d (Event_step now ev) =
     (if dm_phase d \<in> {Daemon_running, Daemon_stopping} \<and> \<not> dm_loop_over d then on_event D now ev d else d)"
| "take_step D d Loop_ends = d\<lparr>dm_loop_over := True\<rparr>"
| "take_step D d (Elapse_step now key) = d\<lparr>dm_debouncer := elapse now key (dm_debouncer d)\<rparr>"
| "take_step D d (Resume_step now) = resume D now d"
| "take_step D d (Effect_step now call r) = effect_done now call r d"
| "take_step D d (Sweep_step now query) = sweep_next D now query d"
| "take_step D d (Tick_step now rule query) = interval_tick D now query rule d"

definition run_daemon :: "daemon_deps \<Rightarrow> daemon \<Rightarrow> 'err daemon_step list \<Rightarrow> daemon" where
  "run_daemon D d steps = foldl (take_step D) d steps"

end
