(* ===== verification/Router_Daemon_Laws.thy ===== *)
theory Router_Daemon_Laws
  imports Router_Daemon "HOL-Library.Multiset"
begin

text \<open>
  What the router guarantees over every order in which its event loop may run: no dispatch is
  performed twice, not even across restarts; a handler only ever runs for a rule the event
  matches; every call of \<open>dispatchRule\<close> is accounted for; and a stop resolves every waiting call.
\<close>

section \<open>What one step may change\<close>

lemma on_outcome_frame [simp]:
  "dm_phase (on_outcome r out d) = dm_phase d" "dm_debouncer (on_outcome r out d) = dm_debouncer d"
  "dm_log (on_outcome r out d) = dm_log d" "dm_calls (on_outcome r out d) = dm_calls d"
  "dm_waiting (on_outcome r out d) = dm_waiting d" "dm_resumed (on_outcome r out d) = dm_resumed d"
  "dm_running (on_outcome r out d) = dm_running d" "dm_started (on_outcome r out d) = dm_started d"
  "dm_intervals (on_outcome r out d) = dm_intervals d" "dm_sweep_queue (on_outcome r out d) = dm_sweep_queue d"
  "dm_limiter (on_outcome r out d) = dm_limiter d" "dm_dropped (on_outcome r out d) = dm_dropped d"
  by (simp_all add: on_outcome_def Let_def)

lemma after_debounce_frame [simp]:
  "dm_phase (after_debounce D now n rule w d) = dm_phase d"
  "dm_debouncer (after_debounce D now n rule w d) = dm_debouncer d"
  "dm_calls (after_debounce D now n rule w d) = dm_calls d"
  "dm_waiting (after_debounce D now n rule w d) = dm_waiting d"
  "dm_resumed (after_debounce D now n rule w d) = dm_resumed d"
  "dm_intervals (after_debounce D now n rule w d) = dm_intervals d"
  "dm_sweep_queue (after_debounce D now n rule w d) = dm_sweep_queue d"
  by (simp_all add: after_debounce_def Let_def split: prod.split handler_step.split)

definition call_context :: "daemon_deps \<Rightarrow> dispatch_payload \<Rightarrow> handler_context" where
  "call_context D w = build_context D (dp_rule w) (dp_event w) (dp_identity w)"

lemma context_identity [simp]: "hc_identity (call_context D w) = dp_identity w"
  by (simp add: call_context_def build_context_def Let_def)

text \<open>
  The stages after the debouncer either are dropped by the limiter, or run the start of the
  handler on the log; they start at most the one effect the handler asks for.
\<close>

lemma after_debounce_cases:
  obtains (dropped) "dm_log (after_debounce D now n rule w d) = dm_log d"
      "dm_started (after_debounce D now n rule w d) = dm_started d"
  | (returned) s where "handler_start (rule_do rule) (dd_env D) now (call_context D w) (dm_log d) =
        (s, dm_log (after_debounce D now n rule w d))"
      "dm_started (after_debounce D now n rule w d) = dm_started d"
  | (started) eff where "handler_start (rule_do rule) (dd_env D) now (call_context D w) (dm_log d) =
        (Go_on eff, dm_log (after_debounce D now n rule w d))"
      "dm_started (after_debounce D now n rule w d) = dm_started d @
         [\<lparr>rn_call = n, rn_handler = rule_do rule, rn_rule = dp_rule w, rn_event = dp_event w,
           rn_identity = dp_identity w, rn_effect = eff\<rparr>]"
proof (cases "fst (try_acquire now (rule_name rule) (dm_limiter d))")
  case False
  then show ?thesis by (intro dropped) (simp_all add: after_debounce_def split_beta Let_def)
next
  case True
  obtain s st where h: "handler_start (rule_do rule) (dd_env D) now (call_context D w) (dm_log d) = (s, st)"
    by (metis surj_pair)
  have eq: "after_debounce D now n rule w d =
     (let d1 = d\<lparr>dm_limiter := snd (try_acquire now (rule_name rule) (dm_limiter d))\<rparr> in
      case s of
        Threw e \<Rightarrow> d1\<lparr>dm_log := st, dm_metrics := incHandlerError (handler_label (rule_do (dp_rule w))) (dm_metrics d1)\<rparr>
      | Returned out \<Rightarrow> on_outcome (dp_rule w) out (d1\<lparr>dm_log := st\<rparr>)
      | Go_on eff \<Rightarrow>
          let c = \<lparr>rn_call = n, rn_handler = rule_do rule, rn_rule = dp_rule w, rn_event = dp_event w,
                   rn_identity = dp_identity w, rn_effect = eff\<rparr> in
          d1\<lparr>dm_log := st, dm_running := dm_running d1 @ [c], dm_started := dm_started d1 @ [c]\<rparr>)"
    using True h by (simp add: after_debounce_def call_context_def split_beta Let_def split: handler_step.split)
  show ?thesis
  proof (cases s)
    case (Go_on eff)
    with eq h show ?thesis by (intro started) (simp_all add: Let_def)
  qed (use eq h in \<open>auto intro!: returned simp: Let_def\<close>)
qed

lemma resume_cases:
  obtains (idle) "resume D now d = d"
  | (lost) call winner coalesced where "dm_resumed d < length (resolved (dm_debouncer d))"
      "resolved (dm_debouncer d) ! dm_resumed d = (call, winner, coalesced)" "map_of (dm_waiting d) call = None"
      "resume D now d = d\<lparr>dm_resumed := dm_resumed d + 1\<rparr>"
  | (runs) call winner coalesced rule where "dm_resumed d < length (resolved (dm_debouncer d))"
      "resolved (dm_debouncer d) ! dm_resumed d = (call, winner, coalesced)"
      "map_of (dm_waiting d) call = Some rule"
      "resume D now d = after_debounce D now call rule winner
         (d\<lparr>dm_resumed := dm_resumed d + 1, dm_waiting := filter (\<lambda>w. fst w \<noteq> call) (dm_waiting d)\<rparr>)"
proof (cases "dm_resumed d < length (resolved (dm_debouncer d))")
  case True
  obtain call winner coalesced where r: "resolved (dm_debouncer d) ! dm_resumed d = (call, winner, coalesced)"
    by (metis prod_cases3)
  show ?thesis
  proof (cases "map_of (dm_waiting d) call")
    case None
    with True r show ?thesis by (intro lost) (simp_all add: resume_def)
  next
    case (Some rule)
    with True r show ?thesis by (intro runs) (simp_all add: resume_def)
  qed
qed (simp add: idle resume_def)


section \<open>Invariants of the event loop\<close>

text \<open>The part of the state that the guarantees speak of.\<close>

definition same_core :: "daemon \<Rightarrow> daemon \<Rightarrow> bool" where
  "same_core d d' \<longleftrightarrow>
     dm_debouncer d' = dm_debouncer d \<and> dm_log d' = dm_log d \<and> dm_calls d' = dm_calls d \<and>
     dm_waiting d' = dm_waiting d \<and> dm_resumed d' = dm_resumed d \<and> dm_running d' = dm_running d \<and>
     dm_started d' = dm_started d \<and>
     (\<forall>m \<in> {Dispatched, HandlerErrors, RateLimitDropped}.
        family_total m (dm_metrics d') = family_total m (dm_metrics d))"

definition configured :: "daemon_deps \<Rightarrow> daemon \<Rightarrow> bool" where
  "configured D d \<longleftrightarrow> set (dm_sweep_queue d) \<subseteq> set (config_rules (dd_config D)) \<and>
     fst ` set (dm_intervals d) \<subseteq> set (config_rules (dd_config D))"

definition rule_matches :: "trigger_rule \<Rightarrow> event_payload \<Rightarrow> bool" where
  "rule_matches r e \<longleftrightarrow> rule_on r = ep_type e \<and> evaluate_where (rule_where r) e"

lemma totals_inc [simp]:
  "m \<noteq> EventsReceived \<Longrightarrow> family_total m (incEventsReceived R) = family_total m R"
  "m \<noteq> EventsByKind \<Longrightarrow> family_total m (incEventsByKind k R) = family_total m R"
  "m \<noteq> MatchedRules \<Longrightarrow> family_total m (incMatchedRules n R) = family_total m R"
  by (simp_all add: incEventsReceived_def incEventsByKind_def incMatchedRules_def family_total_bump)

lemma dispatch_rule_frame [simp]:
  "dm_sweep_queue (dispatch_rule D now rule m d) = dm_sweep_queue d"
  "dm_intervals (dispatch_rule D now rule m d) = dm_intervals d"
  "dm_phase (dispatch_rule D now rule m d) = dm_phase d"
  by (simp_all add: dispatch_rule_def Let_def)

lemma dispatch_all_frame [simp]:
  "dm_sweep_queue (foldl (\<lambda>d r. dispatch_rule D now r m d) d rs) = dm_sweep_queue d"
  "dm_intervals (foldl (\<lambda>d r. dispatch_rule D now r m d) d rs) = dm_intervals d"
  by (induction rs arbitrary: d) simp_all

lemma configured_step: "configured D d \<Longrightarrow> configured D (take_step D d op)"
proof (cases op)
  case (Resume_step now)
  assume "configured D d"
  then show ?thesis using Resume_step by (cases rule: resume_cases [of D now d]) (auto simp: configured_def)
next
  case (Sweep_step now query)
  assume "configured D d"
  then show ?thesis using Sweep_step
    by (auto simp: configured_def sweep_next_def sweep_rule_def Let_def split: list.split sum.split option.split prod.split)
qed (auto simp: configured_def start_daemon_def stop_daemon_def stop_drained_def on_event_def effect_done_def
    interval_tick_def sweep_rule_def Let_def split: daemon_phase.split option.split prod.split sum.split)

lemma on_event_cases:
  obtains d1 m rs where "same_core d d1" "on_event D now ev d = foldl (\<lambda>d r. dispatch_rule D now r m d) d1 rs"
    "\<forall>r \<in> set rs. r \<in> set (config_rules (dd_config D)) \<and> rule_matches r (me_payload m)"
proof -
  have core: "same_core d (d\<lparr>dm_last_event_id := i, dm_metrics := R\<rparr>)"
    if "\<forall>m \<in> {Dispatched, HandlerErrors, RateLimitDropped}. family_total m R = family_total m (dm_metrics d)" for R i
    using that by (simp add: same_core_def)
  let ?i = "case sse_id ev of Some i \<Rightarrow> if i \<noteq> [] then Some i else dm_last_event_id d | None \<Rightarrow> dm_last_event_id d"
  consider (control) "is_control_event ev" | (bad) "\<not> is_control_event ev" "map_sse_event (dd_parse D) (dd_date_parse D) ev = None"
    | (good) m where "\<not> is_control_event ev" "map_sse_event (dd_parse D) (dd_date_parse D) ev = Some m" by auto
  then show ?thesis
  proof cases
    case control
    show ?thesis by (rule that [OF core [of "incEventsByKind Control (incEventsReceived (dm_metrics d))" ?i], of _ "[]"])
      (simp_all add: on_event_def control Let_def)
  next
    case bad
    show ?thesis by (rule that [OF core [of "incEventsByKind Unmappable (incEventsReceived (dm_metrics d))" ?i], of _ "[]"])
      (simp_all add: on_event_def bad Let_def)
  next
    case good
    let ?R = "markRealEvent now (incEventsByKind Mappable (incEventsReceived (dm_metrics d)))"
    let ?rs = "matched_rules (dd_config D) m"
    let ?R' = "if ?rs = [] then ?R else incMatchedRules (int (length ?rs)) ?R"
    show ?thesis by (rule that [OF core [of ?R' ?i], of m ?rs])
      (auto simp: on_event_def good Let_def matched_rules_def rule_matches_def)
  qed
qed

lemma found_matches:
  assumes "find_first_matching_open_task query w ty = Inr (Some (p, k, t))"
  shows "ep_type p = ty \<and> evaluate_where w p"
proof -
  let ?ok = "\<lambda>s. \<forall>p. first_match s = Some p \<longrightarrow> ep_type p = ty \<and> evaluate_where w p"
  have scan: "?ok s \<Longrightarrow> ?ok (foldl (scan_row w ty) s rows)" for s rows
    by (auto simp: first_match_scan find_Some_iff task_row_to_event_payload_def split: option.splits)
  have pages: "?ok s \<Longrightarrow> sweep_pages left query w ty page s = Inr s' \<Longrightarrow> ?ok s'" for left page s s'
  proof (induction left arbitrary: page s)
    case (Suc left)
    obtain parsed where parsed: "query (sweep_query w page) = Inr parsed"
      using Suc.prems(2) by (auto simp: bind_result_Inr_iff)
    let ?rows = "case_option [] id (tl_data parsed)"
    let ?s1 = "foldl (scan_row w ty) (s\<lparr>openTotal := case_option (length ?rows) id (tl_total parsed)\<rparr>) ?rows"
    have "s' = ?s1 \<or> sweep_pages left query w ty (page + 1) ?s1 = Inr s'"
      using Suc.prems(2) by (simp add: parsed Let_def split: if_splits)
    moreover have "?ok ?s1"
      by (rule scan) (use Suc.prems(1) in simp)
    ultimately show ?case using Suc.IH by metis
  qed simp
  from assms obtain s where "sweep_pages SWEEP_MAX_PAGES query w ty 0 \<lparr>first_match = None, matchedCount = 0, openTotal = 0\<rparr> = Inr s"
    "first_match s = Some p"
    by (auto simp: find_first_matching_open_task_def bind_result_Inr_iff)
  from this(2) pages [OF _ this(1)] show ?thesis by simp
qed

text \<open>
  The contract of an invariant: the steps that touch the core of the state keep it, given that
  the rules they dispatch are configured and match their event.  Everything else follows.
\<close>

locale daemon_invariant =
  fixes D :: daemon_deps and I :: "daemon \<Rightarrow> bool"
  assumes core: "same_core d d' \<Longrightarrow> I d \<Longrightarrow> I d'"
    and dispatch: "I d \<Longrightarrow> rule \<in> set (config_rules (dd_config D)) \<Longrightarrow> rule_matches rule (me_payload m) \<Longrightarrow>
      I (dispatch_rule D now rule m d)"
    and resumed: "I d \<Longrightarrow> I (resume D now d)"
    and effect: "I d \<Longrightarrow> I (effect_done now call r d)"
    and elapsed: "I d \<Longrightarrow> I (d\<lparr>dm_debouncer := elapse now key (dm_debouncer d)\<rparr>)"
    and flushed: "I d \<Longrightarrow> I (d\<lparr>dm_debouncer := flush_all (dm_debouncer d)\<rparr>)"
begin

lemma dispatch_all:
  "I d \<Longrightarrow> \<forall>r \<in> set rs. r \<in> set (config_rules (dd_config D)) \<and> rule_matches r (me_payload m) \<Longrightarrow>
     I (foldl (\<lambda>d r. dispatch_rule D now r m d) d rs)"
  by (induction rs arbitrary: d) (simp_all add: dispatch)

lemma event_kept: "I d \<Longrightarrow> I (on_event D now ev d)"
  by (rule on_event_cases [of d D now ev]) (metis core dispatch_all)

lemma sweep_kept: "I d \<Longrightarrow> rule \<in> set (config_rules (dd_config D)) \<Longrightarrow> I (sweep_rule D now query rule d)"
  unfolding sweep_rule_def Let_def
  by (auto intro!: dispatch simp: rule_matches_def dest: found_matches split: sum.split option.split)

lemma step_kept: "configured D d \<Longrightarrow> I d \<Longrightarrow> I (take_step D d op)"
proof (cases op)
  case Start
  assume "I d"
  then show ?thesis using Start by (auto simp: start_daemon_def Let_def same_core_def elim!: core [rotated])
next
  case Stop
  assume I: "I d"
  have "I (d\<lparr>dm_debouncer := flush_all (dm_debouncer d)\<rparr>)" by (rule flushed [OF I])
  then have "I (d\<lparr>dm_phase := Daemon_stopping, dm_aborted := True, dm_intervals := [], dm_debouncer := flush_all (dm_debouncer d)\<rparr>)"
    by (rule core [rotated]) (simp add: same_core_def)
  with I Stop show ?thesis
    by (auto simp: stop_daemon_def same_core_def split: daemon_phase.split elim!: core [rotated])
next
  case Stop_drained_step
  assume "I d"
  then show ?thesis using Stop_drained_step by (auto simp: stop_drained_def same_core_def elim!: core [rotated])
next
  case Loop_ends
  assume "I d"
  then show ?thesis using Loop_ends by (auto simp: same_core_def elim!: core [rotated])
next
  case (Sweep_step now query)
  assume c: "configured D d" and I: "I d"
  have I': "I (d\<lparr>dm_sweep_queue := q, dm_sweep_call := n\<rparr>)" "I (d\<lparr>dm_sweep_queue := q\<rparr>)" for q n
    by (rule core [OF _ I], simp add: same_core_def)+
  show ?thesis using c Sweep_step
    by (auto simp: sweep_next_def configured_def I I' split: list.split intro!: sweep_kept)
next
  case (Tick_step now rule query)
  assume "configured D d" "I d"
  then show ?thesis using Tick_step by (auto simp: interval_tick_def configured_def intro: sweep_kept)
qed (simp_all add: event_kept resumed effect elapsed)

lemma run_kept: "configured D d \<Longrightarrow> I d \<Longrightarrow> I (run_daemon D d ops)"
  unfolding run_daemon_def by (induction ops arbitrary: d) (simp_all add: step_kept configured_step)

end

lemma configured_new [simp]: "configured D (new_daemon D st R)"
  by (simp add: configured_def new_daemon_def)


section \<open>No dispatch twice\<close>

lemma known_complete [simp]: "known r e (snd (store_complete now rule event s st)) \<longleftrightarrow> known r e st"
  by (simp only: known_iff set_map [symmetric] keys_complete)

lemma known_claim: "known r e st \<Longrightarrow> known r e (snd (store_claim now ci st))"
  by (auto simp: store_claim_def known_def split: option.split)

lemma known_gate:
  assumes "known r e st" "\<And>st. gated i st (k st)" "gate env now i block k st = (s, st')"
  shows "known r e st'"
proof -
  obtain c st1 where c: "store_claim now (claim_input_of i (env_stringify env block)) st = (c, st1)"
    by (metis surj_pair)
  have st1: "known r e st1" using known_claim [OF assms(1), of now "claim_input_of i (env_stringify env block)"] c by simp
  show ?thesis
  proof (cases c)
    case CLAIMED
    with c assms(3) have k: "k st1 = (s, st')" by (simp add: gate_def)
    with assms(2) [of st1] st1 show ?thesis
      by (auto simp: gated_def config_error_def split: handler_step.splits)
  qed (use c assms(3) st1 in \<open>auto simp: gate_def\<close>)
qed

lemma known_start:
  assumes "known r e st" "handler_start h env now ctx st = (s, st')"
  shows "known r e st'"
proof -
  have "(\<exists>d. \<forall>st. handler_start h env now ctx st = (Returned (Failed False d), st)) \<or>
    (\<exists>x. \<forall>st. handler_start h env now ctx st = (Threw x, st)) \<or>
    (\<exists>env' n block k. (\<forall>st. gated (hc_identity ctx) st (k st)) \<and>
       (\<forall>st. handler_start h env now ctx st = gate env' n (hc_identity ctx) block k st))"
    using handler_well_started [of ctx h env now] unfolding well_started_def by (elim disjE exE conjE) metis+
  then show ?thesis using assms by (elim disjE exE conjE) (auto intro: known_gate)
qed

lemma known_finish: "handler_finish h now i x st = Some (out, st') \<Longrightarrow> known r e st' \<longleftrightarrow> known r e st"
  by (auto simp: handler_finish_def split: option.splits)

definition dispatch_key :: "running_call \<Rightarrow> string \<times> string" where
  "dispatch_key c = (di_rule (rn_identity c), di_event (rn_identity c))"

definition once :: "dispatch_log \<Rightarrow> dispatch_log \<Rightarrow> running_call list \<Rightarrow> bool" where
  "once st0 st cs \<longleftrightarrow> distinct (map dispatch_key cs) \<and>
     (\<forall>c \<in> set cs. known (fst (dispatch_key c)) (snd (dispatch_key c)) st \<and> \<not> known (fst (dispatch_key c)) (snd (dispatch_key c)) st0) \<and>
     (\<forall>r e. known r e st0 \<longrightarrow> known r e st)"

lemma once_mono: "once st0 st cs \<Longrightarrow> (\<And>r e. known r e st \<Longrightarrow> known r e st') \<Longrightarrow> once st0 st' cs"
  by (auto simp: once_def)

lemma once_started:
  assumes "once st0 st cs" "\<not> known (fst (dispatch_key c)) (snd (dispatch_key c)) st"
    and "known (fst (dispatch_key c)) (snd (dispatch_key c)) st'" "\<And>r e. known r e st \<Longrightarrow> known r e st'"
  shows "once st0 st' (cs @ [c])"
  using assms by (auto simp: once_def)

lemma once_after_debounce:
  assumes "once st0 (dm_log d) (dm_started d)"
  shows "once st0 (dm_log (after_debounce D now n rule w d)) (dm_started (after_debounce D now n rule w d))"
proof (cases rule: after_debounce_cases [of D now n rule w d])
  case dropped
  with assms show ?thesis by simp
next
  case (returned s)
  from once_mono [OF assms known_start [OF _ returned(1)]] returned(2) show ?thesis by simp
next
  case (started eff)
  note claimed = registry.effect_is_claimed [OF started(1)]
  show ?thesis unfolding started(2)
  proof (rule once_started [OF assms])
    show "known r e (dm_log (after_debounce D now n rule w d))" if "known r e (dm_log d)" for r e
      using known_start [OF that started(1)] .
  qed (use claimed status_unknown in \<open>fastforce simp: dispatch_key_def\<close>)+
qed

lemma once_dispatch:
  "once st0 (dm_log d) (dm_started d) \<Longrightarrow>
     once st0 (dm_log (dispatch_rule D now rule m d)) (dm_started (dispatch_rule D now rule m d))"
  by (auto simp: dispatch_rule_def Let_def intro: once_after_debounce)

lemma once_resume:
  assumes "once st0 (dm_log d) (dm_started d)"
  shows "once st0 (dm_log (resume D now d)) (dm_started (resume D now d))"
  using assms by (cases rule: resume_cases [of D now d]) (auto intro: once_after_debounce)

lemma once_effect:
  assumes "once st0 (dm_log d) (dm_started d)"
  shows "once st0 (dm_log (effect_done now call r d)) (dm_started (effect_done now call r d))"
  using assms by (auto simp: effect_done_def known_finish elim!: once_mono split: option.split)

interpretation once: daemon_invariant D "\<lambda>d. once st0 (dm_log d) (dm_started d)" for D st0
  by unfold_locales (auto simp: same_core_def intro: once_dispatch once_resume once_effect)

text \<open>A router with one webhook rule, and an event that fires it.\<close>

definition sample_rule :: "int option \<Rightarrow> trigger_rule" where
  "sample_rule db = \<lparr>rule_name = ''hook'', rule_on = ''task.created'', rule_where = where_any, rule_do = Webhook_post,
     rule_with = [(u ''url'', JStr (u ''https://a''))], debounce_ms = db, idempotency_window_s = None,
     rule_max_dispatches = None, max_retries = None, sweep_on_start = None, sweep_interval_s = None\<rparr>"

definition sample_deps :: "int option \<Rightarrow> daemon_deps" where
  "sample_deps db = \<lparr>dd_config = \<lparr>config_defaults = None, config_rules = [sample_rule db]\<rparr>, dd_env = sample_env,
     dd_api_base = u ''b'', dd_api_key = u ''t'',
     dd_parse = (\<lambda>_. Wire \<lparr>we_type = Some ''task.created'', we_timestamp = None, we_data = None, we_meta = None\<rparr>),
     dd_date_parse = (\<lambda>_. None)\<rparr>"

definition sample_event :: sse_event where
  "sample_event = \<lparr>sse_id = Some ''7'', sse_name = None, sse_data = ''{}'', sse_retry = None\<rparr>"

definition sample_steps :: "string daemon_step list" where
  "sample_steps = [Start, Event_step 5 sample_event]"

text \<open>
  C2.  No dispatch is performed twice: in every run, whatever the order of events, sweeps,
  timers and answers, each pair of rule and event id starts at most one effect, and none whose
  row was already in the log when the router was started.  That includes the rows a crash has left
  pending: the documents have them fired again at the start, but the daemon does not read them, so
  their dispatch is never performed.
\<close>

theorem no_dispatch_twice:
  "distinct (map dispatch_key (dm_started (run_daemon D (new_daemon D st R) steps))) \<and>
   list_all (\<lambda>c. \<not> known (fst (dispatch_key c)) (snd (dispatch_key c)) st)
     (dm_started (run_daemon D (new_daemon D st R) steps))"
proof -
  have "once st (dm_log (new_daemon D st R)) (dm_started (new_daemon D st R))"
    by (simp add: once_def new_daemon_def)
  from once.run_kept [OF configured_new this, of steps] show ?thesis
    by (auto simp: once_def list_all_iff)
qed


section \<open>What the debouncer holds\<close>

definition deb_all ::
  "(string \<Rightarrow> 'p bucket \<Rightarrow> bool) \<Rightarrow> (nat \<times> 'p \<times> nat \<Rightarrow> bool) \<Rightarrow> 'p debouncer \<Rightarrow> bool" where
  "deb_all B Q d \<longleftrightarrow> js_wf (buckets d) \<and> (\<forall>k b. js_get (buckets d) k = Some b \<longrightarrow> B k b) \<and> (\<forall>x \<in> set (resolved d). Q x)"

lemma deb_all_mono:
  "deb_all B Q d \<Longrightarrow> (\<And>k b. B k b \<Longrightarrow> B' k b) \<Longrightarrow> (\<And>x. Q x \<Longrightarrow> Q' x) \<Longrightarrow> deb_all B' Q' d"
  by (auto simp: deb_all_def)

lemma clear_timer_frame [simp]:
  "buckets (clear_timer h d) = buckets d" "resolved (clear_timer h d) = resolved d"
  by (simp_all add: clear_timer_def)

lemma fire_bucket_frame [simp]:
  "buckets (fire_bucket k b d) = js_del k (buckets d)"
  "resolved (fire_bucket k b d) = resolved d @ map (\<lambda>s. (s, latestPayload b, coalescedCount b)) (subscribers b)"
  by (simp_all add: fire_bucket_def)

definition settles :: "(string \<Rightarrow> 'p bucket \<Rightarrow> bool) \<Rightarrow> (nat \<times> 'p \<times> nat \<Rightarrow> bool) \<Rightarrow> bool" where
  "settles B Q \<longleftrightarrow> (\<forall>k b. B k b \<longrightarrow> (\<forall>s \<in> set (subscribers b). Q (s, latestPayload b, coalescedCount b)))"

lemma deb_all_fire: "deb_all B Q d \<Longrightarrow> settles B Q \<Longrightarrow> B k b \<Longrightarrow> deb_all B Q (fire_bucket k b d)"
  by (auto simp: deb_all_def settles_def)

lemma deb_all_elapse: "deb_all B Q d \<Longrightarrow> settles B Q \<Longrightarrow> deb_all B Q (elapse now key d)"
  by (auto simp: elapse_def timer_callback_def deb_all_def settles_def split: option.split)

lemma flush_buckets:
  "js_wf bs \<Longrightarrow> buckets d = bs \<Longrightarrow>
     buckets (foldl (\<lambda>d (key, b). fire_bucket key b (clear_timer (timerHandle b) d)) d bs) = [] \<and>
     resolved (foldl (\<lambda>d (key, b). fire_bucket key b (clear_timer (timerHandle b) d)) d bs) =
       resolved d @ concat (map (\<lambda>(k, b). map (\<lambda>s. (s, latestPayload b, coalescedCount b)) (subscribers b)) bs)"
proof (induction bs arbitrary: d)
  case (Cons kb bs)
  obtain k b where kb: "kb = (k, b)" by (cases kb)
  have "js_del k bs = bs" using Cons.prems(1) by (intro js_del_fresh) (simp add: kb js_wf_def map_of_eq_None_iff)
  then have "buckets (fire_bucket k b (clear_timer (timerHandle b) d)) = bs"
    using Cons.prems by (simp add: kb js_del_def)
  moreover have "js_wf bs" using Cons.prems(1) by (simp add: js_wf_def)
  ultimately show ?case using Cons.IH [of "fire_bucket k b (clear_timer (timerHandle b) d)"] by (simp add: kb)
qed simp

lemma flush_all_frame:
  assumes "js_wf (buckets d)"
  shows "buckets (flush_all d) = []"
    and "resolved (flush_all d) =
      resolved d @ concat (map (\<lambda>(k, b). map (\<lambda>s. (s, latestPayload b, coalescedCount b)) (subscribers b)) (buckets d))"
  using flush_buckets [OF assms refl] by (simp_all add: flush_all_def)

lemma deb_all_flush: "deb_all B Q d \<Longrightarrow> settles B Q \<Longrightarrow> deb_all B Q (flush_all d)"
  unfolding deb_all_def settles_def
  by (auto simp: flush_all_frame js_wf_def) (metis map_of_eq_Some_iff)+

lemma push_frame [simp]: "resolved (push now rule event n p d) = resolved d"
  by (simp add: push_def schedule_fire_def Let_def split: option.split)

definition subs_at :: "string \<Rightarrow> 'p debouncer \<Rightarrow> nat list" where
  "subs_at k d = (case js_get (buckets d) k of None \<Rightarrow> [] | Some b \<Rightarrow> subscribers b)"

lemma push_bucket:
  obtains b where "buckets (push now rule event n p d) = js_put (compound_key rule event) b (buckets d)"
    "latestPayload b = p" "subscribers b = subs_at (compound_key rule event) d @ [n]"
  by (cases "js_get (buckets d) (compound_key rule event)")
    (auto simp: push_def schedule_fire_def subs_at_def clear_timer_def Let_def)

lemma deb_all_push:
  assumes "deb_all B Q d"
    and "\<And>b. latestPayload b = p \<Longrightarrow> subscribers b = subs_at (compound_key rule event) d @ [n] \<Longrightarrow> B (compound_key rule event) b"
  shows "deb_all B Q (push now rule event n p d)"
proof -
  obtain b where b: "buckets (push now rule event n p d) = js_put (compound_key rule event) b (buckets d)"
    "latestPayload b = p" "subscribers b = subs_at (compound_key rule event) d @ [n]"
    by (rule push_bucket)
  with assms show ?thesis by (auto simp: deb_all_def)
qed


section \<open>Only matching rules run\<close>

definition key_rule :: "string \<Rightarrow> string" where
  "key_rule k = takeWhile (\<lambda>c. c \<noteq> CHR 0x00) k"

definition plain_names :: "triggers_config \<Rightarrow> bool" where
  "plain_names cfg \<longleftrightarrow> distinct (map rule_name (config_rules cfg)) \<and>
     list_all (\<lambda>r. CHR 0x00 \<notin> set (rule_name r)) (config_rules cfg)"

definition payload_ok :: "daemon_deps \<Rightarrow> dispatch_payload \<Rightarrow> bool" where
  "payload_ok D p \<longleftrightarrow> dp_rule p \<in> set (config_rules (dd_config D)) \<and> rule_matches (dp_rule p) (dp_event p) \<and>
     di_rule (dp_identity p) = rule_name (dp_rule p)"

definition asks :: "(nat \<times> trigger_rule) list \<Rightarrow> nat \<Rightarrow> string \<Rightarrow> bool" where
  "asks ws n name \<longleftrightarrow> (\<forall>r. (n, r) \<in> set ws \<longrightarrow> rule_name r = name)"

definition bucket_ok :: "daemon_deps \<Rightarrow> (nat \<times> trigger_rule) list \<Rightarrow> nat \<Rightarrow> string \<Rightarrow> dispatch_payload bucket \<Rightarrow> bool" where
  "bucket_ok D ws N k b \<longleftrightarrow> payload_ok D (latestPayload b) \<and> rule_name (dp_rule (latestPayload b)) = key_rule k \<and>
     (\<forall>n \<in> set (subscribers b). n < N \<and> asks ws n (key_rule k))"

definition result_ok :: "daemon_deps \<Rightarrow> (nat \<times> trigger_rule) list \<Rightarrow> nat \<Rightarrow> nat \<times> dispatch_payload \<times> nat \<Rightarrow> bool" where
  "result_ok D ws N x \<longleftrightarrow> (case x of (n, p, _) \<Rightarrow> payload_ok D p \<and> n < N \<and> asks ws n (rule_name (dp_rule p)))"

definition started_ok :: "daemon_deps \<Rightarrow> running_call \<Rightarrow> bool" where
  "started_ok D c \<longleftrightarrow> rn_rule c \<in> set (config_rules (dd_config D)) \<and> rn_handler c = rule_do (rn_rule c) \<and>
     rule_matches (rn_rule c) (rn_event c) \<and> di_rule (rn_identity c) = rule_name (rn_rule c)"

definition sound :: "daemon_deps \<Rightarrow> daemon \<Rightarrow> bool" where
  "sound D d \<longleftrightarrow>
     deb_all (bucket_ok D (dm_waiting d) (dm_calls d)) (result_ok D (dm_waiting d) (dm_calls d)) (dm_debouncer d) \<and>
     (\<forall>w \<in> set (dm_waiting d). fst w < dm_calls d \<and> snd w \<in> set (config_rules (dd_config D))) \<and>
     list_all (started_ok D) (dm_started d)"

lemma settles_ok: "settles (bucket_ok D ws N) (result_ok D ws N)"
  by (auto simp: settles_def bucket_ok_def result_ok_def)

lemma same_name: "plain_names cfg \<Longrightarrow> r \<in> set (config_rules cfg) \<Longrightarrow> r' \<in> set (config_rules cfg) \<Longrightarrow>
    rule_name r = rule_name r' \<Longrightarrow> r = r'"
  by (auto simp: plain_names_def distinct_map inj_on_def)

lemma key_rule_compound:
  "plain_names cfg \<Longrightarrow> r \<in> set (config_rules cfg) \<Longrightarrow> key_rule (compound_key (rule_name r) e) = rule_name r"
  unfolding key_rule_def compound_key_def
  by (subst takeWhile_append2) (auto simp: plain_names_def list_all_iff)

lemma started_after_debounce:
  assumes "plain_names (dd_config D)" "list_all (started_ok D) (dm_started d)"
    and "rule \<in> set (config_rules (dd_config D))" "payload_ok D w" "rule_name rule = rule_name (dp_rule w)"
  shows "list_all (started_ok D) (dm_started (after_debounce D now n rule w d))"
proof -
  have "rule = dp_rule w" using same_name [OF assms(1,3) _ assms(5)] assms(4) by (simp add: payload_ok_def)
  with assms(2,4) show ?thesis
    by (cases rule: after_debounce_cases [of D now n rule w d]) (simp_all add: payload_ok_def started_ok_def)
qed

lemma sound_after_debounce:
  assumes "plain_names (dd_config D)" "sound D d"
    and "rule \<in> set (config_rules (dd_config D))" "payload_ok D w" "rule_name rule = rule_name (dp_rule w)"
  shows "sound D (after_debounce D now n rule w d)"
  using assms started_after_debounce [OF assms(1) _ assms(3-5)] by (simp add: sound_def)

lemma bucket_ok_more: "bucket_ok D ws N k b \<Longrightarrow> bucket_ok D (ws @ [(N, r)]) (Suc N) k b"
  by (auto simp: bucket_ok_def asks_def)

lemma result_ok_more: "result_ok D ws N x \<Longrightarrow> result_ok D (ws @ [(N, r)]) (Suc N) x"
  by (auto simp: result_ok_def asks_def)

lemma sound_calls: "sound D d \<Longrightarrow> sound D (d\<lparr>dm_calls := dm_calls d + 1\<rparr>)"
  by (force simp: sound_def bucket_ok_def result_ok_def elim!: deb_all_mono)

lemma sound_dispatch:
  assumes "plain_names (dd_config D)" "sound D d"
    and "rule \<in> set (config_rules (dd_config D))" "rule_matches rule (me_payload m)"
  shows "sound D (dispatch_rule D now rule m d)"
proof -
  let ?p = "\<lparr>dp_rule = rule, dp_event = me_payload m, dp_identity = identity_of rule m\<rparr>"
  let ?ws = "dm_waiting d @ [(dm_calls d, rule)]" and ?N = "dm_calls d + 1"
  have ok: "payload_ok D ?p" using assms(3,4) by (simp add: payload_ok_def identity_of_def)
  show ?thesis
  proof (cases "debounce_ms rule = Some 0")
    case True
    with sound_after_debounce [OF assms(1) sound_calls [OF assms(2)] assms(3) ok] show ?thesis
      by (simp add: dispatch_rule_def Let_def)
  next
    case False
    have old: "deb_all (bucket_ok D ?ws ?N) (result_ok D ?ws ?N) (dm_debouncer d)"
      using assms(2) by (auto simp: sound_def intro: bucket_ok_more result_ok_more elim!: deb_all_mono)
    have "deb_all (bucket_ok D ?ws ?N) (result_ok D ?ws ?N) (push now (rule_name rule) (event_key m) (dm_calls d) ?p (dm_debouncer d))"
    proof (rule deb_all_push [OF old])
      fix b :: "dispatch_payload bucket" assume b: "latestPayload b = ?p" "subscribers b = subs_at (compound_key (rule_name rule) (event_key m)) (dm_debouncer d) @ [dm_calls d]"
      have "n < ?N \<and> asks ?ws n (rule_name rule)" if n: "n \<in> set (subs_at (compound_key (rule_name rule) (event_key m)) (dm_debouncer d))" for n
      proof -
        obtain b0 where b0: "js_get (buckets (dm_debouncer d)) (compound_key (rule_name rule) (event_key m)) = Some b0"
          "n \<in> set (subscribers b0)" using n
          by (cases "js_get (buckets (dm_debouncer d)) (compound_key (rule_name rule) (event_key m))") (auto simp: subs_at_def)
        then have "bucket_ok D ?ws ?N (compound_key (rule_name rule) (event_key m)) b0"
          using old unfolding deb_all_def by blast
        with b0(2) show ?thesis by (simp add: bucket_ok_def key_rule_compound [OF assms(1,3)])
      qed
      moreover have "asks ?ws (dm_calls d) (rule_name rule)"
        using assms(2) by (auto simp: sound_def asks_def)
      ultimately show "bucket_ok D ?ws ?N (compound_key (rule_name rule) (event_key m)) b"
        using ok by (auto simp: bucket_ok_def b key_rule_compound [OF assms(1,3)])
    qed
    with False assms(2,3) show ?thesis by (fastforce simp: dispatch_rule_def sound_def Let_def)
  qed
qed

lemma sound_resume:
  assumes "plain_names (dd_config D)" "sound D d"
  shows "sound D (resume D now d)"
proof (cases rule: resume_cases [of D now d])
  case (runs call winner coalesced rule)
  let ?d = "d\<lparr>dm_resumed := dm_resumed d + 1, dm_waiting := filter (\<lambda>w. fst w \<noteq> call) (dm_waiting d)\<rparr>"
  have "sound D ?d" using assms(2)
    by (force simp: sound_def bucket_ok_def result_ok_def asks_def elim!: deb_all_mono)
  moreover have w: "(call, rule) \<in> set (dm_waiting d)" using runs(3) by (rule map_of_SomeD)
  moreover have "result_ok D (dm_waiting d) (dm_calls d) (call, winner, coalesced)"
    using assms(2) runs(1) unfolding sound_def deb_all_def runs(2) [symmetric] by simp
  ultimately show ?thesis unfolding runs(4) using assms
    by (intro sound_after_debounce) (auto simp: result_ok_def asks_def sound_def)
qed (use assms in \<open>simp_all add: sound_def\<close>)

lemma sound_effect: "sound D d \<Longrightarrow> sound D (effect_done now call r d)"
  by (auto simp: effect_done_def sound_def split: option.split)

interpretation sound: daemon_invariant D "\<lambda>d. plain_names (dd_config D) \<longrightarrow> sound D d" for D
  by unfold_locales
    (auto intro: sound_dispatch sound_resume sound_effect,
     auto simp: sound_def same_core_def intro: deb_all_elapse deb_all_flush settles_ok)


text \<open>
  C8.  The router acts only on matching rules: if rule names are unique, every effect it ever
  starts is the effect of one configured rule, performed by that rule's handler for an event of
  the rule's type that satisfies its clause, under the rule's own name.
\<close>

theorem effects_belong_to_matching_rules:
  assumes "plain_names (dd_config D)"
  shows "list_all (started_ok D) (dm_started (run_daemon D (new_daemon D st R) steps))"
proof -
  have "sound D (new_daemon D st R)"
    by (simp add: sound_def deb_all_def new_daemon_def new_debouncer_def)
  with sound.run_kept [OF configured_new, of D st R steps] assms show ?thesis
    by (simp add: sound_def)
qed


theorem effects_belong_to_matching_rules_witness:
  "list_all (started_ok (sample_deps (Some 0)))
     (dm_started (run_daemon (sample_deps (Some 0)) (new_daemon (sample_deps (Some 0)) [] (new_metrics 0 0)) sample_steps)) \<and>
   length (dm_started (run_daemon (sample_deps (Some 0)) (new_daemon (sample_deps (Some 0)) [] (new_metrics 0 0)) sample_steps)) = 1"
proof
  show "list_all (started_ok (sample_deps (Some 0)))
     (dm_started (run_daemon (sample_deps (Some 0)) (new_daemon (sample_deps (Some 0)) [] (new_metrics 0 0)) sample_steps))"
    by (rule effects_belong_to_matching_rules) code_simp
  show "length (dm_started (run_daemon (sample_deps (Some 0)) (new_daemon (sample_deps (Some 0)) [] (new_metrics 0 0)) sample_steps)) = 1"
    by code_simp
qed

section \<open>Every call is accounted for\<close>

definition settled :: "daemon \<Rightarrow> int" where
  "settled d = family_total RateLimitDropped (dm_metrics d) + family_total HandlerErrors (dm_metrics d) +
     family_total Dispatched (dm_metrics d)"

definition pending_calls :: "(string, 'p bucket) jsmap \<Rightarrow> nat multiset" where
  "pending_calls bs = sum_list (map (\<lambda>(_, b). mset (subscribers b)) bs)"

text \<open>Over the numbers of the waiting and of the running calls, and the number of settled ones.\<close>

definition counts :: "nat \<Rightarrow> nat list \<Rightarrow> nat list \<Rightarrow> int \<Rightarrow> bool" where
  "counts N ws rs s \<longleftrightarrow> int N = int (length ws) + int (length rs) + s \<and> distinct (ws @ rs) \<and> (\<forall>n \<in> set (ws @ rs). n < N)"

definition drains :: "nat list \<Rightarrow> nat \<Rightarrow> 'p debouncer \<Rightarrow> bool" where
  "drains ws k d \<longleftrightarrow> js_wf (buckets d) \<and> k \<le> length (resolved d) \<and>
     mset ws = pending_calls (buckets d) + mset (map fst (drop k (resolved d)))"

definition accounted :: "daemon \<Rightarrow> bool" where
  "accounted d \<longleftrightarrow> counts (dm_calls d) (map fst (dm_waiting d)) (map rn_call (dm_running d)) (settled d) \<and>
     drains (map fst (dm_waiting d)) (dm_resumed d) (dm_debouncer d)"

text \<open>A call that goes on is settled at once or is running.\<close>

definition goes_on :: "nat \<Rightarrow> nat list \<Rightarrow> int \<Rightarrow> nat list \<Rightarrow> int \<Rightarrow> bool" where
  "goes_on n rs s rs' s' \<longleftrightarrow> (rs' = rs \<and> s' = s + 1) \<or> (rs' = rs @ [n] \<and> s' = s)"

lemma filter_absent: "n \<notin> set xs \<Longrightarrow> filter (\<lambda>m. m \<noteq> n) xs = xs"
  by (induction xs) auto

lemma length_remove_one: "distinct xs \<Longrightarrow> n \<in> set xs \<Longrightarrow> length xs = Suc (length (filter (\<lambda>m. m \<noteq> n) xs))"
  by (induction xs) (auto simp: filter_absent)

lemma counts_bypass: "counts N ws rs s \<Longrightarrow> goes_on N rs s rs' s' \<Longrightarrow> counts (Suc N) ws rs' s'"
  by (auto simp: counts_def goes_on_def less_Suc_eq)

lemma counts_wait: "counts N ws rs s \<Longrightarrow> counts (Suc N) (ws @ [N]) rs s"
  by (auto simp: counts_def less_Suc_eq)

lemma counts_resume:
  "counts N ws rs s \<Longrightarrow> n \<in> set ws \<Longrightarrow> goes_on n rs s rs' s' \<Longrightarrow> counts N (filter (\<lambda>m. m \<noteq> n) ws) rs' s'"
  using length_remove_one [of ws n] by (auto simp: counts_def goes_on_def)

lemma counts_finish: "counts N ws rs s \<Longrightarrow> n \<in> set rs \<Longrightarrow> counts N ws (filter (\<lambda>m. m \<noteq> n) rs) (s + 1)"
  using length_remove_one [of rs n] by (auto simp: counts_def)

lemma settled_outcome [simp]: "settled (on_outcome r out d) = settled d + 1"
  by (auto simp: settled_def on_outcome_def Let_def incDispatched_def incPermanentlyFailed_def family_total_bump
      split: handler_outcome.split bool.split)

lemma after_debounce_goes_on:
  "goes_on n (map rn_call (dm_running d)) (settled d)
     (map rn_call (dm_running (after_debounce D now n rule w d))) (settled (after_debounce D now n rule w d))"
  by (auto simp: after_debounce_def goes_on_def Let_def split: prod.split handler_step.split)
    (simp_all add: settled_def incRateLimitDropped_def incHandlerError_def family_total_bump)

lemma pending_put:
  "pending_calls (js_put k b bs) + mset (case js_get bs k of None \<Rightarrow> [] | Some b0 \<Rightarrow> subscribers b0) =
     pending_calls bs + mset (subscribers b)"
  by (induction k b bs rule: js_put.induct) (auto simp: pending_calls_def ac_simps)

lemma pending_del:
  "js_wf bs \<Longrightarrow> js_get bs k = Some b \<Longrightarrow> pending_calls (js_del k bs) + mset (subscribers b) = pending_calls bs"
proof (induction bs)
  case (Cons kb bs)
  show ?case
  proof (cases "fst kb = k")
    case True
    then have "js_del k bs = bs" using Cons.prems(1)
      by (intro js_del_fresh) (auto simp: js_wf_def map_of_eq_None_iff)
    with True Cons.prems(2) show ?thesis by (cases kb) (simp add: js_del_def pending_calls_def)
  next
    case False
    then have "pending_calls (js_del k bs) + mset (subscribers b) = pending_calls bs"
      using Cons by (cases kb) (simp add: js_wf_def)
    with False show ?thesis by (cases kb) (auto simp: js_del_def pending_calls_def ac_simps)
  qed
qed simp

lemma pending_flushed:
  "mset (map fst (concat (map (\<lambda>(k, b). map (\<lambda>s. (s, latestPayload b, coalescedCount b)) (subscribers b)) bs))) = pending_calls bs"
  by (induction bs) (auto simp: pending_calls_def comp_def multiset.map_comp)

lemma pending_push:
  "pending_calls (buckets (push now rule event n p d)) = pending_calls (buckets d) + {#n#}"
proof -
  obtain b where b: "buckets (push now rule event n p d) = js_put (compound_key rule event) b (buckets d)"
    "subscribers b = subs_at (compound_key rule event) d @ [n]"
    by (rule push_bucket)
  have "pending_calls (js_put (compound_key rule event) b (buckets d)) + mset (subs_at (compound_key rule event) d) =
      pending_calls (buckets d) + {#n#} + mset (subs_at (compound_key rule event) d)"
    using pending_put [of "compound_key rule event" b "buckets d"] b(2) by (simp add: subs_at_def)
  then show ?thesis unfolding b(1) by simp
qed

lemma wf_push: "js_wf (buckets d) \<Longrightarrow> js_wf (buckets (push now rule event n p d))"
  by (rule push_bucket [of now rule event n p d]) simp


lemma drains_push: "drains ws k d \<Longrightarrow> drains (ws @ [n]) k (push now rule event n p d)"
  by (simp add: drains_def pending_push wf_push)

lemma drains_elapse: "drains ws k d \<Longrightarrow> drains ws k (elapse now key d)"
proof -
  assume d: "drains ws k d"
  have "drains ws k (fire_bucket key' b (clear_timer h d))" if "js_get (buckets d) key' = Some b" for key' b h
  proof -
    have "map fst (drop k (resolved d @ map (\<lambda>s. (s, latestPayload b, coalescedCount b)) (subscribers b))) =
        map fst (drop k (resolved d)) @ subscribers b"
      using d by (simp add: drains_def comp_def)
    with d pending_del [OF _ that] show ?thesis
      unfolding drains_def by (simp del: map_append mset_map drop_append add: ac_simps)
  qed
  moreover have "drains ws k (clear_timer h d)" for h using d by (simp add: drains_def)
  ultimately show ?thesis using d by (simp add: elapse_def timer_callback_def split: option.split)
qed

lemma drains_flush: "drains ws k d \<Longrightarrow> drains ws k (flush_all d)"
  using pending_flushed [of "buckets d"]
  by (simp add: drains_def flush_all_frame, simp add: pending_calls_def)

lemma drains_resume:
  assumes "drains ws k d" "distinct ws" "k < length (resolved d)" "resolved d ! k = (n, x)"
  shows "n \<in> set ws \<and> drains (filter (\<lambda>m. m \<noteq> n) ws) (Suc k) d"
proof -
  have "drop k (resolved d) = (n, x) # drop (Suc k) (resolved d)"
    using assms(3,4) by (metis Cons_nth_drop_Suc)
  then have ms: "mset ws = pending_calls (buckets d) + mset (map fst (drop (Suc k) (resolved d))) + {#n#}"
    using assms(1) by (simp add: drains_def)
  then have n: "n \<in> set ws" by (metis union_iff multi_member_last set_mset_mset)
  have "mset (filter (\<lambda>m. m \<noteq> n) ws) = mset (remove1 n ws)"
    using assms(2) by (simp add: distinct_remove1_removeAll removeAll_filter_not_eq neq_commute)
  also have "\<dots> = pending_calls (buckets d) + mset (map fst (drop (Suc k) (resolved d)))"
    using ms by simp
  finally show ?thesis using n assms(1,3) by (simp add: drains_def)
qed

lemma settled_frame [simp]:
  "settled (d\<lparr>dm_log := st\<rparr>) = settled d" "settled (d\<lparr>dm_running := rs\<rparr>) = settled d"
  "settled (d\<lparr>dm_calls := N\<rparr>) = settled d" "settled (d\<lparr>dm_waiting := ws\<rparr>) = settled d"
  "settled (d\<lparr>dm_resumed := k\<rparr>) = settled d" "settled (d\<lparr>dm_debouncer := db\<rparr>) = settled d"
  by (simp_all add: settled_def)

lemma accounted_dispatch:
  assumes "accounted d"
  shows "accounted (dispatch_rule D now rule m d)"
proof (cases "debounce_ms rule = Some 0")
  case True
  let ?p = "\<lparr>dp_rule = rule, dp_event = me_payload m, dp_identity = identity_of rule m\<rparr>"
  let ?d = "d\<lparr>dm_calls := dm_calls d + 1\<rparr>"
  from assms after_debounce_goes_on [of "dm_calls d" ?d D now rule ?p] counts_bypass show ?thesis
    by (fastforce simp: dispatch_rule_def accounted_def True Let_def)
next
  case False
  with assms show ?thesis by (simp add: dispatch_rule_def accounted_def Let_def counts_wait drains_push)
qed

lemma map_filter_fst: "map fst (filter (\<lambda>w. fst w \<noteq> n) ws) = filter (\<lambda>m. m \<noteq> n) (map fst ws)"
  by (induction ws) auto

lemma map_filter_call: "map rn_call (filter (\<lambda>c. rn_call c \<noteq> n) cs) = filter (\<lambda>m. m \<noteq> n) (map rn_call cs)"
  by (induction cs) auto

lemma accounted_resume:
  assumes "accounted d"
  shows "accounted (resume D now d)"
proof (cases rule: resume_cases [of D now d])
  case (lost call winner coalesced)
  have "call \<in> set (map fst (dm_waiting d))"
    using assms lost drains_resume [of "map fst (dm_waiting d)" "dm_resumed d" "dm_debouncer d" call "(winner, coalesced)"]
    by (auto simp: accounted_def counts_def)
  with lost(3) show ?thesis by (simp add: map_of_eq_None_iff)
next
  case (runs call winner coalesced rule)
  let ?d = "d\<lparr>dm_resumed := dm_resumed d + 1, dm_waiting := filter (\<lambda>w. fst w \<noteq> call) (dm_waiting d)\<rparr>"
  have dr: "call \<in> set (map fst (dm_waiting d)) \<and>
      drains (filter (\<lambda>m. m \<noteq> call) (map fst (dm_waiting d))) (Suc (dm_resumed d)) (dm_debouncer d)"
    using assms runs drains_resume [of "map fst (dm_waiting d)" "dm_resumed d" "dm_debouncer d" call "(winner, coalesced)"]
    by (auto simp: accounted_def counts_def)
  have "counts (dm_calls d) (filter (\<lambda>m. m \<noteq> call) (map fst (dm_waiting d)))
      (map rn_call (dm_running (after_debounce D now call rule winner ?d))) (settled (after_debounce D now call rule winner ?d))"
    by (rule counts_resume [OF _ conjunct1 [OF dr]])
      (use assms after_debounce_goes_on [of call ?d D now rule winner] in \<open>simp_all add: accounted_def\<close>)
  with dr show ?thesis unfolding runs(4) by (simp add: accounted_def map_filter_fst)
qed (use assms in simp)

lemma accounted_effect:
  assumes "accounted d"
  shows "accounted (effect_done now call r d)"
proof (cases "find (\<lambda>c. rn_call c = call) (dm_running d)")
  case (Some c)
  then have "call \<in> set (map rn_call (dm_running d))" by (auto simp: find_Some_iff)
  from counts_finish [OF _ this] assms show ?thesis
    by (auto simp: effect_done_def Some accounted_def map_filter_call split: option.split)
qed (use assms in \<open>simp add: effect_done_def\<close>)

interpretation accounted: daemon_invariant D accounted for D
proof
  show "accounted d'" if "same_core d d'" "accounted d" for d d'
    using that by (simp add: same_core_def accounted_def settled_def)
  show "accounted (d\<lparr>dm_debouncer := elapse now key (dm_debouncer d)\<rparr>)" "accounted (d\<lparr>dm_debouncer := flush_all (dm_debouncer d)\<rparr>)"
    if "accounted d" for d now key
    using that by (simp_all add: accounted_def drains_elapse drains_flush)
qed (rule accounted_dispatch accounted_resume accounted_effect; assumption)+

lemma accounted_run: "accounted (run_daemon D (new_daemon D st (new_metrics now start)) steps)"
  by (rule accounted.run_kept [OF configured_new])
    (simp_all add: accounted_def counts_def drains_def settled_def new_daemon_def new_debouncer_def pending_calls_def)

text \<open>
  No dispatch gets lost in silence: at any moment the calls of \<open>dispatchRule\<close> so far are
  exactly those still waiting in the debouncer, those whose effect is running, and those the
  counters report as rate limited, failed with an exception or finished with an outcome.
\<close>

theorem every_dispatch_is_accounted_for:
  "let d = run_daemon D (new_daemon D st (new_metrics now start)) steps in
   int (dm_calls d) = int (length (dm_waiting d)) + int (length (dm_running d)) +
     family_total RateLimitDropped (dm_metrics d) + family_total HandlerErrors (dm_metrics d) +
     family_total Dispatched (dm_metrics d)"
  using accounted_run [of D st now start steps]
  by (simp add: Let_def accounted_def counts_def settled_def)


lemma waiting_drained:
  assumes "accounted d" "buckets (dm_debouncer d) = []"
  shows "length (dm_waiting d) = length (resolved (dm_debouncer d)) - dm_resumed d"
proof -
  have "mset (map fst (dm_waiting d)) = mset (map fst (drop (dm_resumed d) (resolved (dm_debouncer d))))"
    using assms unfolding accounted_def drains_def by (simp only: pending_calls_def list.map sum_list.Nil add_0)
  from mset_eq_length [OF this] show ?thesis by simp
qed

lemma resume_drained:
  assumes "accounted d" "buckets (dm_debouncer d) = []"
  shows "length (dm_waiting (resume D now d)) = length (dm_waiting d) - 1 \<and> buckets (dm_debouncer (resume D now d)) = []"
proof (cases "dm_resumed d < length (resolved (dm_debouncer d))")
  case True
  have "dm_resumed (resume D now d) = dm_resumed d + 1" "dm_debouncer (resume D now d) = dm_debouncer d"
    using True by (auto simp: resume_def Let_def split: prod.split option.split)
  then show ?thesis
    using waiting_drained [OF assms] waiting_drained [OF accounted_resume [OF assms(1)], of D now] assms(2) by simp
next
  case False
  then have "drop (dm_resumed d) (resolved (dm_debouncer d)) = []" by simp
  with assms have "mset (map fst (dm_waiting d)) = {#}"
    by (simp only: accounted_def drains_def) (simp add: pending_calls_def)
  with False assms show ?thesis by (simp add: resume_def)
qed

lemma resumes_drain:
  "accounted d \<Longrightarrow> buckets (dm_debouncer d) = [] \<Longrightarrow> n \<ge> length (dm_waiting d) \<Longrightarrow>
     dm_waiting (run_daemon D d (replicate n (Resume_step now))) = []"
proof (induction n arbitrary: d)
  case (Suc n)
  then show ?case using resume_drained [OF Suc.prems(1,2), of D now] accounted_resume [OF Suc.prems(1), of D now]
    by (simp add: run_daemon_def)
qed (simp add: run_daemon_def)

text \<open>
  A stop strands nobody: when a running router is stopped, every call that waits in the
  debouncer is resolved by the flush, so the event loop has only to run that many continuations
  until none is left waiting.
\<close>

theorem stop_resolves_every_waiting_call:
  assumes "dm_phase (run_daemon D (new_daemon D st (new_metrics now start)) steps) = Daemon_running"
  shows "dm_waiting (run_daemon D (new_daemon D st (new_metrics now start)) (steps @ Stop #
      replicate (length (dm_waiting (run_daemon D (new_daemon D st (new_metrics now start)) steps))) (Resume_step t))) = []"
proof -
  let ?d = "run_daemon D (new_daemon D st (new_metrics now start)) steps"
  let ?n = "length (dm_waiting ?d)"
  have acc: "accounted (run_daemon D (new_daemon D st (new_metrics now start)) (steps @ [Stop]))"
    by (rule accounted_run)
  have stop: "run_daemon D (new_daemon D st (new_metrics now start)) (steps @ [Stop]) = stop_daemon ?d"
    by (simp add: run_daemon_def)
  have "js_wf (buckets (dm_debouncer ?d))"
    using accounted_run [of D st now start steps] by (simp add: accounted_def drains_def)
  then have "buckets (dm_debouncer (stop_daemon ?d)) = []" "dm_waiting (stop_daemon ?d) = dm_waiting ?d"
    using assms by (simp_all add: stop_daemon_def flush_all_frame)
  with resumes_drain [of "stop_daemon ?d" ?n D t] acc [unfolded stop] show ?thesis
    by (simp add: run_daemon_def)
qed


theorem stop_resolves_every_waiting_call_witness:
  "dm_waiting (run_daemon (sample_deps None) (new_daemon (sample_deps None) [] (new_metrics 0 0))
      (sample_steps @ Stop # replicate (length (dm_waiting (run_daemon (sample_deps None)
        (new_daemon (sample_deps None) [] (new_metrics 0 0)) sample_steps))) (Resume_step 6))) = [] \<and>
   length (dm_waiting (run_daemon (sample_deps None) (new_daemon (sample_deps None) [] (new_metrics 0 0)) sample_steps)) = 1"
proof
  have "dm_phase (run_daemon (sample_deps None) (new_daemon (sample_deps None) [] (new_metrics 0 0)) sample_steps) = Daemon_running"
    by code_simp
  then show "dm_waiting (run_daemon (sample_deps None) (new_daemon (sample_deps None) [] (new_metrics 0 0))
      (sample_steps @ Stop # replicate (length (dm_waiting (run_daemon (sample_deps None)
        (new_daemon (sample_deps None) [] (new_metrics 0 0)) sample_steps))) (Resume_step 6))) = []"
    by (rule stop_resolves_every_waiting_call)
  show "length (dm_waiting (run_daemon (sample_deps None) (new_daemon (sample_deps None) [] (new_metrics 0 0)) sample_steps)) = 1"
    by code_simp
qed

end
