(* ===== verification/Sse_Manager.thy ===== *)
theory Sse_Manager
  imports Prelude
begin

text \<open>
  The server's event stream, \<open>src/events/sse-manager.ts\<close>, with the route that admits a client
  (\<open>api/routes/events.ts\<close>): connections with their filters, the replay buffer, the caps, the
  heartbeat.  The check of the caps and the registration of a stream are two steps, between which
  other requests may run.  What is written to a connection is a log of messages; the outcome of a write is a
  step of its own.  A timestamp is its milliseconds, or none when the date does not parse.
\<close>

section \<open>State\<close>

text \<open>The data of an event: a task, which names its project, or a project with its own id.\<close>

datatype stream_data = Task_data int | Project_data int

record stream_event =
  ev_type :: string
  ev_time :: "int option"
  ev_data :: stream_data

text \<open>\<open>getEventProjectId\<close>: a number in the field \<open>project_id\<close>, which a project does not have.\<close>

fun get_event_project_id :: "stream_data \<Rightarrow> int option" where
  "get_event_project_id (Task_data p) = Some p"
| "get_event_project_id (Project_data i) = None"

record stream_filters =
  filter_project :: "int option"
  filter_types :: "string list option"

record sse_connection =
  conn_id :: string
  conn_filters :: stream_filters
  conn_last_event :: int
  conn_created :: int
  conn_key :: string
  conn_ip :: string

datatype stream_message = Domain_event int stream_event | Replay_gap int int | Ping

record sse_manager =
  connections :: "(string, sse_connection) jsmap"
  eventBuffer :: "(int \<times> stream_event) list"
  nextEventId :: int
  heartbeating :: bool
  totalEventsSent :: nat
  written :: "(string \<times> stream_message) list"
  ended :: "string list"

record sse_limits =
  maxBufferSize :: nat
  bufferTtlMs :: int
  maxConnectionAgeMs :: int
  maxConnectionsPerKey :: nat
  maxConnectionsPerIp :: nat
  maxConnections :: nat

definition default_limits :: sse_limits where
  "default_limits = \<lparr>maxBufferSize = 100, bufferTtlMs = 10 * 60 * 1000, maxConnectionAgeMs = 10 * 60 * 1000,
     maxConnectionsPerKey = 4, maxConnectionsPerIp = 8, maxConnections = 200\<rparr>"

definition new_manager :: sse_manager where
  "new_manager = \<lparr>connections = [], eventBuffer = [], nextEventId = 1, heartbeating = True, totalEventsSent = 0,
     written = [], ended = []\<rparr>"

section \<open>Operations\<close>

datatype cap_reason = Cap_global | Cap_per_key | Cap_per_ip

definition count_conns :: "(sse_connection \<Rightarrow> bool) \<Rightarrow> sse_manager \<Rightarrow> nat" where
  "count_conns P M = length (filter (\<lambda>(_, c). P c) (connections M))"

definition can_accept :: "sse_limits \<Rightarrow> string \<Rightarrow> string \<Rightarrow> sse_manager \<Rightarrow> cap_reason option" where
  "can_accept L key ip M =
     (if length (connections M) \<ge> maxConnections L then Some Cap_global
      else if count_conns (\<lambda>c. conn_key c = key) M \<ge> maxConnectionsPerKey L then Some Cap_per_key
      else if count_conns (\<lambda>c. conn_ip c = ip) M \<ge> maxConnectionsPerIp L then Some Cap_per_ip
      else None)"

definition matches_filters :: "stream_event \<Rightarrow> stream_filters \<Rightarrow> bool" where
  "matches_filters e f =
     (if (case filter_types f of Some ts \<Rightarrow> \<not> List.member ts (ev_type e) | None \<Rightarrow> False) then False
      else (case filter_project f of
        None \<Rightarrow> True
      | Some p \<Rightarrow> if p = 0 then True else (case get_event_project_id (ev_data e) of Some q \<Rightarrow> q = p | None \<Rightarrow> True)))"

definition write_to :: "string \<Rightarrow> stream_message \<Rightarrow> sse_manager \<Rightarrow> sse_manager" where
  "write_to cid m M = M\<lparr>written := written M @ [(cid, m)]\<rparr>"

definition replay_events :: "string \<Rightarrow> int \<Rightarrow> sse_manager \<Rightarrow> sse_manager" where
  "replay_events cid from_id M =
     (case js_get (connections M) cid of
        None \<Rightarrow> M
      | Some conn \<Rightarrow>
          let M1 = (case eventBuffer M of
                      [] \<Rightarrow> M
                    | (earliest, _) # _ \<Rightarrow>
                        if from_id > 0 \<and> earliest > from_id + 1 then write_to cid (Replay_gap from_id earliest) M else M)
          in foldl (\<lambda>M (i, e). if matches_filters e (conn_filters conn) then write_to cid (Domain_event i e) M else M)
               M1 (filter (\<lambda>(i, _). i > from_id) (eventBuffer M1)))"

text \<open>The \<open>Last-Event-ID\<close> header, read by \<open>parseInt\<close>: absent, no number, or a number.\<close>

datatype last_event_header = No_header | Not_a_number | Event_id int

definition add_connection ::
  "string \<Rightarrow> stream_filters \<Rightarrow> last_event_header \<Rightarrow> string \<Rightarrow> string \<Rightarrow> int \<Rightarrow> sse_manager \<Rightarrow> sse_manager" where
  "add_connection cid f header key ip now M =
     (let M1 = M\<lparr>connections := js_put cid \<lparr>conn_id = cid, conn_filters = f,
            conn_last_event = (case header of Event_id n \<Rightarrow> n | _ \<Rightarrow> 0), conn_created = now, conn_key = key, conn_ip = ip\<rparr>
            (connections M)\<rparr>
      in case header of Event_id n \<Rightarrow> replay_events cid n M1 | _ \<Rightarrow> M1)"

definition remove_connection :: "string \<Rightarrow> sse_manager \<Rightarrow> sse_manager" where
  "remove_connection cid M = M\<lparr>connections := js_del cid (connections M)\<rparr>"

definition close_connection :: "string \<Rightarrow> sse_manager \<Rightarrow> sse_manager" where
  "close_connection cid M =
     M\<lparr>connections := js_del cid (connections M),
       ended := (if js_has (connections M) cid then ended M @ [cid] else ended M)\<rparr>"

definition prune_event_buffer :: "sse_limits \<Rightarrow> int \<Rightarrow> sse_manager \<Rightarrow> sse_manager" where
  "prune_event_buffer L now M =
     (let buf = (if length (eventBuffer M) > maxBufferSize L \<and> maxBufferSize L > 0
                 then drop (length (eventBuffer M) - maxBufferSize L) (eventBuffer M) else eventBuffer M);
          cutoff = now - bufferTtlMs L
      in M\<lparr>eventBuffer := filter (\<lambda>(_, e). case ev_time e of Some t \<Rightarrow> t > cutoff | None \<Rightarrow> False) buf\<rparr>)"

definition broadcast :: "sse_limits \<Rightarrow> int \<Rightarrow> stream_event \<Rightarrow> sse_manager \<Rightarrow> sse_manager" where
  "broadcast L now e M =
     (let i = nextEventId M;
          M1 = prune_event_buffer L now (M\<lparr>nextEventId := i + 1, eventBuffer := eventBuffer M @ [(i, e)]\<rparr>)
      in foldl (\<lambda>M (cid, c). if matches_filters e (conn_filters c) then write_to (conn_id c) (Domain_event i e) M else M)
           M1 (connections M1))"

text \<open>What a write comes to: the event was sent, or the stream is closed.\<close>

definition send_settled :: "string \<Rightarrow> int \<Rightarrow> bool \<Rightarrow> sse_manager \<Rightarrow> sse_manager" where
  "send_settled cid i ok M =
     (if ok then M\<lparr>totalEventsSent := totalEventsSent M + 1,
                   connections := (case js_get (connections M) cid of
                       Some c \<Rightarrow> js_put cid (c\<lparr>conn_last_event := i\<rparr>) (connections M) | None \<Rightarrow> connections M)\<rparr>
      else close_connection cid M)"

definition heartbeat_sweep :: "sse_limits \<Rightarrow> int \<Rightarrow> sse_manager \<Rightarrow> sse_manager" where
  "heartbeat_sweep L now M =
     foldl (\<lambda>M (_, c). if now - conn_created c > maxConnectionAgeMs L then close_connection (conn_id c) M
                       else write_to (conn_id c) Ping M) M (connections M)"

definition shutdown_streams :: "sse_manager \<Rightarrow> sse_manager" where
  "shutdown_streams M =
     (foldl (\<lambda>M cid. close_connection cid M) (M\<lparr>heartbeating := False\<rparr>) (js_keys (connections M)))
       \<lparr>connections := [], eventBuffer := []\<rparr>"

section \<open>The route\<close>

text \<open>
  A request for a stream takes two turns: the asynchronous \<open>preHandler\<close> asks \<open>canAccept\<close>, and later
  the handler registers the connection, without asking again.  Between them it holds nothing but its
  own principal and address, and other requests may take their turns.
\<close>

record stream_server =
  manager :: sse_manager
  admitted :: "(nat, string \<times> string) jsmap"

definition new_server :: stream_server where
  "new_server = \<lparr>manager = new_manager, admitted = []\<rparr>"

definition check_stream :: "sse_limits \<Rightarrow> nat \<Rightarrow> string \<Rightarrow> string \<Rightarrow> stream_server \<Rightarrow> cap_reason option \<times> stream_server" where
  "check_stream L r key ip S =
     (case can_accept L key ip (manager S) of
        Some reason \<Rightarrow> (Some reason, S)
      | None \<Rightarrow> (None, S\<lparr>admitted := js_put r (key, ip) (admitted S)\<rparr>))"

definition accept_stream ::
  "nat \<Rightarrow> bool \<Rightarrow> string \<Rightarrow> stream_filters \<Rightarrow> last_event_header \<Rightarrow> int \<Rightarrow> stream_server \<Rightarrow> stream_server" where
  "accept_stream r event_stream cid f header now S =
     (case js_get (admitted S) r of
        None \<Rightarrow> S
      | Some (key, ip) \<Rightarrow>
          (let S' = S\<lparr>admitted := js_del r (admitted S)\<rparr>
           in if event_stream then S'\<lparr>manager := add_connection cid f header key ip now (manager S)\<rparr> else S'))"

text \<open>The handler answers 400 when the client does not accept an event stream.\<close>

datatype stream_op =
  Check_op nat string string
| Accept_op nat bool string stream_filters last_event_header int
| Gone_op string
| Broadcast_op int stream_event
| Settled_op string int bool
| Sweep_op int
| Shutdown_op

fun stream_step :: "sse_limits \<Rightarrow> stream_server \<Rightarrow> stream_op \<Rightarrow> stream_server" where
  "stream_step L S (Check_op r key ip) = snd (check_stream L r key ip S)"
| "stream_step L S (Accept_op r event_stream cid f header now) = accept_stream r event_stream cid f header now S"
| "stream_step L S (Gone_op cid) = S\<lparr>manager := remove_connection cid (manager S)\<rparr>"
| "stream_step L S (Broadcast_op now e) = S\<lparr>manager := broadcast L now e (manager S)\<rparr>"
| "stream_step L S (Settled_op cid i ok) = S\<lparr>manager := send_settled cid i ok (manager S)\<rparr>"
| "stream_step L S (Sweep_op now) = S\<lparr>manager := heartbeat_sweep L now (manager S)\<rparr>"
| "stream_step L S Shutdown_op = S\<lparr>manager := shutdown_streams (manager S)\<rparr>"

definition run_server :: "sse_limits \<Rightarrow> stream_op list \<Rightarrow> stream_server" where
  "run_server L ops = foldl (stream_step L) new_server ops"

definition run_stream :: "sse_limits \<Rightarrow> stream_op list \<Rightarrow> sse_manager" where
  "run_stream L ops = manager (run_server L ops)"

text \<open>
  The requests of a kind that have passed the check and are not yet registered, and the most there
  ever were of them at once.
\<close>

definition in_flight :: "(string \<Rightarrow> string \<Rightarrow> bool) \<Rightarrow> stream_server \<Rightarrow> nat" where
  "in_flight P S = length (filter (\<lambda>(_, key, ip). P key ip) (admitted S))"

fun peak_from :: "sse_limits \<Rightarrow> (string \<Rightarrow> string \<Rightarrow> bool) \<Rightarrow> stream_server \<Rightarrow> stream_op list \<Rightarrow> nat" where
  "peak_from L P S [] = in_flight P S"
| "peak_from L P S (op # ops) = max (in_flight P S) (peak_from L P (stream_step L S op) ops)"

definition peak :: "sse_limits \<Rightarrow> (string \<Rightarrow> string \<Rightarrow> bool) \<Rightarrow> stream_op list \<Rightarrow> nat" where
  "peak L P ops = peak_from L P new_server ops"


section \<open>Who receives what\<close>

text \<open>
  C1.  A stream that is filtered by a project receives of the task events exactly those of that
  project, but of the project events all: \<open>project.created\<close>, \<open>project.updated\<close> and
  \<open>project.deleted\<close> carry no \<open>project_id\<close>, so the filter lets every project's pass.
\<close>

theorem project_filter_selects:
  assumes "filter_project f = Some p" "p \<noteq> 0" "filter_types f = None"
  shows "matches_filters e f \<longleftrightarrow> (case ev_data e of Task_data q \<Rightarrow> q = p | Project_data i \<Rightarrow> True)"
  using assms by (simp add: matches_filters_def split: stream_data.split)

theorem project_filter_selects_witness:
  "matches_filters \<lparr>ev_type = ''project.updated'', ev_time = Some 0, ev_data = Project_data 2\<rparr>
     \<lparr>filter_project = Some 1, filter_types = None\<rparr> \<longleftrightarrow> (case Project_data 2 of Task_data q \<Rightarrow> q = 1 | Project_data i \<Rightarrow> True)"
  using project_filter_selects [of "\<lparr>filter_project = Some 1, filter_types = None\<rparr>" 1
      "\<lparr>ev_type = ''project.updated'', ev_time = Some 0, ev_data = Project_data 2\<rparr>"] by simp

section \<open>Frames\<close>

lemma write_to_frame [simp]:
  "connections (write_to cid m M) = connections M" "eventBuffer (write_to cid m M) = eventBuffer M"
  "nextEventId (write_to cid m M) = nextEventId M" "written (write_to cid m M) = written M @ [(cid, m)]"
  by (simp_all add: write_to_def)

lemma close_frame [simp]:
  "connections (close_connection cid M) = js_del cid (connections M)"
  "eventBuffer (close_connection cid M) = eventBuffer M" "nextEventId (close_connection cid M) = nextEventId M"
  by (simp_all add: close_connection_def)

text \<open>Loops that write only.\<close>

lemma foldl_writes_frame [simp]:
  "connections (foldl (\<lambda>M x. if P x then write_to (c x) (m x) M else M) M xs) = connections M"
  "eventBuffer (foldl (\<lambda>M x. if P x then write_to (c x) (m x) M else M) M xs) = eventBuffer M"
  "nextEventId (foldl (\<lambda>M x. if P x then write_to (c x) (m x) M else M) M xs) = nextEventId M"
  by (induction xs arbitrary: M) simp_all

lemma foldl_writes:
  "written (foldl (\<lambda>M x. if P x then write_to (c x) (m x) M else M) M xs) = written M @ map (\<lambda>x. (c x, m x)) (filter P xs)"
  by (induction xs arbitrary: M) simp_all

lemma replay_frame [simp]:
  "connections (replay_events cid n M) = connections M" "eventBuffer (replay_events cid n M) = eventBuffer M"
  "nextEventId (replay_events cid n M) = nextEventId M"
  by (simp_all add: replay_events_def Let_def case_prod_unfold split: option.split list.split)

lemma broadcast_frame:
  "connections (broadcast L now e M) = connections M"
  "eventBuffer (broadcast L now e M) =
     eventBuffer (prune_event_buffer L now (M\<lparr>nextEventId := nextEventId M + 1, eventBuffer := eventBuffer M @ [(nextEventId M, e)]\<rparr>))"
  "nextEventId (broadcast L now e M) = nextEventId M + 1"
  by (simp_all add: broadcast_def prune_event_buffer_def Let_def case_prod_unfold)

lemma foldl_sweep_frame [simp]:
  "eventBuffer (foldl (\<lambda>M x. if P x then close_connection (c x) M else write_to (c x) Ping M) M xs) = eventBuffer M"
  "nextEventId (foldl (\<lambda>M x. if P x then close_connection (c x) M else write_to (c x) Ping M) M xs) = nextEventId M"
  by (induction xs arbitrary: M) simp_all

lemma sweep_frame [simp]:
  "eventBuffer (heartbeat_sweep L now M) = eventBuffer M" "nextEventId (heartbeat_sweep L now M) = nextEventId M"
  by (simp_all add: heartbeat_sweep_def case_prod_unfold)

section \<open>The caps\<close>

lemma count_put:
  "length (filter (\<lambda>(_, c). P c) (js_put k c m)) + (case js_get m k of Some c0 \<Rightarrow> if P c0 then 1 else 0 | None \<Rightarrow> 0) =
     length (filter (\<lambda>(_, c). P c) m) + (if P c then 1 else 0)"
  by (induction k c m rule: js_put.induct) auto

lemma count_del: "length (filter (\<lambda>(_, c). P c) (js_del k m)) \<le> length (filter (\<lambda>(_, c). P c) m)"
  by (induction m) (auto simp: js_del_def)

lemma count_del_found:
  "js_get m k = Some c \<Longrightarrow> length (filter (\<lambda>(_, c). P c) (js_del k m)) + (if P c then 1 else 0) \<le> length (filter (\<lambda>(_, c). P c) m)"
proof (induction m)
  case (Cons x m)
  obtain k' c' where x: "x = (k', c')" by (cases x)
  show ?case
  proof (cases "k' = k")
    case True
    with Cons.prems x count_del [of P k m] show ?thesis by (simp add: js_del_def)
  next
    case False
    with Cons x show ?thesis by (simp add: js_del_def)
  qed
qed simp

text \<open>The streams of a kind.\<close>

definition streams :: "(string \<Rightarrow> string \<Rightarrow> bool) \<Rightarrow> sse_manager \<Rightarrow> nat" where
  "streams P M = count_conns (\<lambda>c. P (conn_key c) (conn_ip c)) M"

lemma streams_close [simp]: "streams P (close_connection k M) \<le> streams P M"
  by (simp add: streams_def count_conns_def count_del [of "\<lambda>c. P (conn_key c) (conn_ip c)"])

lemma streams_write [simp]: "streams P (write_to k m M) = streams P M"
  by (simp add: streams_def count_conns_def)

lemma streams_sweep:
  "streams P (foldl (\<lambda>M (_, c). if Q c then close_connection (conn_id c) M else write_to (conn_id c) Ping M) M cs) \<le> streams P M"
proof (induction cs arbitrary: M)
  case (Cons x cs)
  obtain k c where x: "x = (k, c)" by (cases x)
  let ?M = "if Q c then close_connection (conn_id c) M else write_to (conn_id c) Ping M"
  have "streams P ?M \<le> streams P M" by simp
  with Cons.IH [of ?M] show ?case by (simp add: x)
qed simp

lemma streams_settled: "streams P (send_settled cid i ok M) \<le> streams P M"
proof (cases ok)
  case True
  show ?thesis
  proof (cases "js_get (connections M) cid")
    case (Some c)
    then show ?thesis using True count_put [of "\<lambda>c. P (conn_key c) (conn_ip c)" cid "c\<lparr>conn_last_event := i\<rparr>" "connections M"]
      by (auto simp: streams_def count_conns_def send_settled_def split: if_splits)
  next
    case None
    then show ?thesis using True by (simp add: streams_def count_conns_def send_settled_def)
  qed
next
  case False
  then show ?thesis by (simp add: send_settled_def)
qed

lemma streams_add:
  "streams P (add_connection cid f header key ip now M) \<le> streams P M + (if P key ip then 1 else 0)"
proof -
  obtain c where c: "connections (add_connection cid f header key ip now M) = js_put cid c (connections M)"
    "conn_key c = key" "conn_ip c = ip"
    by (cases header) (simp_all add: add_connection_def Let_def)
  from count_put [of "\<lambda>c. P (conn_key c) (conn_ip c)" cid c "connections M"] show ?thesis
    unfolding streams_def count_conns_def c by linarith
qed

text \<open>
  A kind of streams with a cap that the check enforces: open streams and requests in flight are, together,
  at most the cap and the flights at their peak, less the one that was checked last.
\<close>

definition capped :: "sse_limits \<Rightarrow> (string \<Rightarrow> string \<Rightarrow> bool) \<Rightarrow> nat \<Rightarrow> bool" where
  "capped L P cap \<longleftrightarrow> (\<forall>key ip M. P key ip \<longrightarrow> can_accept L key ip M = None \<longrightarrow> streams P M < cap)"

lemma capped_step:
  assumes "capped L P cap" and "streams P (manager S) + in_flight P S \<le> cap + (k - 1)"
    and "in_flight P (stream_step L S op) \<le> k"
  shows "streams P (manager (stream_step L S op)) + in_flight P (stream_step L S op) \<le> cap + (k - 1)"
proof (cases op)
  case (Check_op r key ip)
  show ?thesis
  proof (cases "can_accept L key ip (manager S)")
    case None
    let ?new = "length (filter (\<lambda>(_, key, ip). P key ip) (js_put r (key, ip) (admitted S)))"
    have put: "?new + (case js_get (admitted S) r of Some c0 \<Rightarrow> if (\<lambda>(key, ip). P key ip) c0 then 1 else 0 | None \<Rightarrow> 0) =
        length (filter (\<lambda>(_, key, ip). P key ip) (admitted S)) + (if P key ip then 1 else 0)"
      using count_put [of "\<lambda>(key, ip). P key ip" r "(key, ip)" "admitted S"] by simp
    have step: "stream_step L S op = S\<lparr>admitted := js_put r (key, ip) (admitted S)\<rparr>"
      by (simp add: Check_op check_stream_def None)
    show ?thesis
    proof (cases "P key ip")
      case True
      then have "streams P (manager S) < cap" using assms(1) None by (simp add: capped_def)
      moreover have "0 < ?new"
      proof -
        have "(r, key, ip) \<in> set (js_put r (key, ip) (admitted S))" by (rule map_of_SomeD) simp
        then have "(r, key, ip) \<in> set (filter (\<lambda>(_, key, ip). P key ip) (js_put r (key, ip) (admitted S)))" using True by simp
        then show ?thesis by (rule length_pos_if_in_set)
      qed
      ultimately show ?thesis using assms(3) by (simp add: step in_flight_def)
    next
      case False
      then show ?thesis using put assms(2) by (simp add: step in_flight_def)
    qed
  qed (use assms(2) in \<open>simp add: Check_op check_stream_def\<close>)
next
  case (Accept_op r event_stream cid f header now)
  show ?thesis
  proof (cases "js_get (admitted S) r")
    case (Some x)
    obtain key ip where x: "x = (key, ip)" by (cases x)
    have "length (filter (\<lambda>(_, key, ip). P key ip) (js_del r (admitted S))) + (if P key ip then 1 else 0) \<le>
        length (filter (\<lambda>(_, key, ip). P key ip) (admitted S))"
      using count_del_found [OF Some, of "\<lambda>(key, ip). P key ip"] by (simp add: x)
    then show ?thesis using assms(2) streams_add [of P cid f header key ip now "manager S"]
      by (auto simp: Accept_op accept_stream_def Some x Let_def in_flight_def)
  qed (use assms(2) in \<open>simp add: Accept_op accept_stream_def\<close>)
next
  case (Gone_op cid)
  have "streams P (remove_connection cid (manager S)) \<le> streams P (manager S)"
    by (simp add: streams_def count_conns_def remove_connection_def count_del [of "\<lambda>c. P (conn_key c) (conn_ip c)"])
  then show ?thesis using assms(2) by (simp add: Gone_op in_flight_def)
next
  case (Broadcast_op now e)
  then show ?thesis using assms(2) by (simp add: in_flight_def streams_def count_conns_def broadcast_frame)
next
  case (Settled_op cid i ok)
  then show ?thesis using assms(2) streams_settled [of P cid i ok "manager S"] by (simp add: in_flight_def)
next
  case (Sweep_op now)
  then show ?thesis using assms(2) streams_sweep [of P "\<lambda>c. now - conn_created c > maxConnectionAgeMs L" "manager S" "connections (manager S)"]
    by (simp add: in_flight_def heartbeat_sweep_def)
next
  case Shutdown_op
  then show ?thesis using assms(2) by (simp add: in_flight_def streams_def count_conns_def shutdown_streams_def)
qed

lemma in_flight_peak: "in_flight P S \<le> peak_from L P S ops"
  by (cases ops) simp_all

lemma capped_run:
  assumes "capped L P cap"
  shows "streams P (run_stream L ops) \<le> cap + (peak L P ops - 1)"
proof -
  have "streams P (manager (foldl (stream_step L) S ops)) + in_flight P (foldl (stream_step L) S ops) \<le> cap + (k - 1)"
    if "streams P (manager S) + in_flight P S \<le> cap + (k - 1)" "peak_from L P S ops \<le> k" for S k
    using that
  proof (induction ops arbitrary: S)
    case (Cons op ops)
    have "in_flight P (stream_step L S op) \<le> k"
      using in_flight_peak [of P "stream_step L S op" L ops] Cons.prems(2) by simp
    from Cons.IH [OF capped_step [OF assms Cons.prems(1) this]] Cons.prems(2) show ?case by simp
  qed simp
  from this [of new_server "peak L P ops"] show ?thesis
    by (simp add: run_stream_def run_server_def peak_def new_server_def new_manager_def streams_def count_conns_def in_flight_def)
qed

lemma the_caps:
  "capped L (\<lambda>_ _. True) (maxConnections L)" "capped L (\<lambda>k _. k = key) (maxConnectionsPerKey L)"
  "capped L (\<lambda>_ i. i = ip) (maxConnectionsPerIp L)"
  by (auto simp: capped_def can_accept_def streams_def count_conns_def split: if_splits)

text \<open>
  C37.  However requests overlap and whatever clients connect, leave, fail or are aged out: a
  principal, an address and the server as a whole have at no moment more open streams than their
  cap and, beyond it, one less than the requests of that kind that were ever in flight at once,
  between their check and their registration.  So the caps hold where requests do not overlap.
\<close>

theorem stream_caps_hold:
  "length (connections (run_stream L ops)) \<le> maxConnections L + (peak L (\<lambda>_ _. True) ops - 1) \<and>
   count_conns (\<lambda>c. conn_key c = key) (run_stream L ops) \<le> maxConnectionsPerKey L + (peak L (\<lambda>k _. k = key) ops - 1) \<and>
   count_conns (\<lambda>c. conn_ip c = ip) (run_stream L ops) \<le> maxConnectionsPerIp L + (peak L (\<lambda>_ i. i = ip) ops - 1)"
  using capped_run [OF the_caps(1), of L ops] capped_run [OF the_caps(2), of key L ops] capped_run [OF the_caps(3), of ip L ops]
  by (simp add: streams_def count_conns_def)

text \<open>
  The bound is reached: six requests of one principal that are all checked before the first of them
  is registered open six streams under a cap of four.
\<close>

lemma overlapping_requests_pass_the_cap:
  "let f = \<lparr>filter_project = None, filter_types = None\<rparr>;
       checks = map (\<lambda>r. Check_op r ''key'' ''ip'') [0, 1, 2, 3, 4, 5];
       accepts = map (\<lambda>r. Accept_op r True [char_of (65 + r)] f No_header 0) [0, 1, 2, 3, 4, 5]
   in maxConnectionsPerKey default_limits = 4 \<and>
      count_conns (\<lambda>c. conn_key c = ''key'') (run_stream default_limits (checks @ accepts)) = 6 \<and>
      peak default_limits (\<lambda>k _. k = ''key'') (checks @ accepts) = 6"
  by code_simp

section \<open>Resuming\<close>

text \<open>All events ever broadcast, with their ids; and the histories in which the events carry
  timestamps that do not run backwards and are younger than the buffer's time to live.\<close>

fun stream_log :: "int \<Rightarrow> stream_op list \<Rightarrow> (int \<times> stream_event) list" where
  "stream_log i [] = []"
| "stream_log i (Broadcast_op now e # ops) = (i, e) # stream_log (i + 1) ops"
| "stream_log i (_ # ops) = stream_log i ops"

fun timely :: "sse_limits \<Rightarrow> int \<Rightarrow> stream_op list \<Rightarrow> bool" where
  "timely L t0 [] \<longleftrightarrow> True"
| "timely L t0 (Broadcast_op now e # ops) \<longleftrightarrow>
     (case ev_time e of Some t \<Rightarrow> t0 \<le> t \<and> now - bufferTtlMs L < t \<and> timely L t ops | None \<Rightarrow> False)"
| "timely L t0 (Shutdown_op # ops) \<longleftrightarrow> False"
| "timely L t0 (Check_op r key ip # ops) \<longleftrightarrow> timely L t0 ops"
| "timely L t0 (Accept_op r event_stream cid f header now # ops) \<longleftrightarrow> timely L t0 ops"
| "timely L t0 (Gone_op cid # ops) \<longleftrightarrow> timely L t0 ops"
| "timely L t0 (Settled_op cid i ok # ops) \<longleftrightarrow> timely L t0 ops"
| "timely L t0 (Sweep_op now # ops) \<longleftrightarrow> timely L t0 ops"

definition event_ms :: "int \<times> stream_event \<Rightarrow> int" where
  "event_ms x = case_option 0 id (ev_time (snd x))"

text \<open>The buffer is a recent part of the log, and its last entry is the log's.\<close>

definition buffer_ok :: "int \<Rightarrow> (int \<times> stream_event) list \<Rightarrow> sse_manager \<Rightarrow> bool" where
  "buffer_ok t0 evs M \<longleftrightarrow>
     (\<exists>k. eventBuffer M = drop k evs) \<and> (eventBuffer M = [] \<longrightarrow> evs = []) \<and>
     map fst evs = [1..int (length evs)] \<and> nextEventId M = int (length evs) + 1 \<and>
     (\<forall>x \<in> set evs. ev_time (snd x) \<noteq> None \<and> event_ms x \<le> t0) \<and> sorted (map event_ms evs)"

lemma filter_sorted_drop:
  assumes "sorted (map f xs)"
  shows "\<exists>j. filter (\<lambda>x. c < f x) xs = drop j xs"
  using assms
proof (induction xs)
  case (Cons x xs)
  show ?case
  proof (cases "c < f x")
    case True
    with Cons.prems have "filter (\<lambda>x. c < f x) (x # xs) = x # xs" by (auto simp: filter_id_conv)
    then show ?thesis by (metis drop0)
  next
    case False
    with Cons obtain j where "filter (\<lambda>x. c < f x) xs = drop j xs" by auto
    with False have "filter (\<lambda>x. c < f x) (x # xs) = drop (Suc j) (x # xs)" by simp
    then show ?thesis by blast
  qed
qed simp

lemma kept_events: "\<forall>x \<in> set xs. ev_time (snd x) \<noteq> None \<Longrightarrow>
    filter (\<lambda>(_, e). case ev_time e of Some t \<Rightarrow> t > c | None \<Rightarrow> False) xs = filter (\<lambda>x. c < event_ms x) xs"
  by (rule filter_cong) (auto simp: event_ms_def)

lemma upto_snoc: "map fst evs = [1..int (length evs)] \<Longrightarrow> map fst (evs @ [(int (length evs) + 1, e)]) = [1..int (length (evs @ [(int (length evs) + 1, e)]))]"
  by (simp add: upto_rec2 add.commute)

lemma buffer_ok_broadcast:
  assumes "buffer_ok t0 evs M" "ev_time e = Some t" "t0 \<le> t" "now - bufferTtlMs L < t"
  shows "buffer_ok t (evs @ [(nextEventId M, e)]) (broadcast L now e M)"
proof -
  let ?x = "(nextEventId M, e)" and ?evs = "evs @ [(nextEventId M, e)]"
  let ?buf = "eventBuffer M @ [?x]"
  let ?cut = "if length ?buf > maxBufferSize L \<and> maxBufferSize L > 0 then drop (length ?buf - maxBufferSize L) ?buf else ?buf"
  obtain k where k: "eventBuffer M = drop k evs" using assms(1) by (auto simp: buffer_ok_def)
  have times: "\<forall>y \<in> set ?evs. ev_time (snd y) \<noteq> None \<and> event_ms y \<le> t"
    using assms by (auto simp: buffer_ok_def event_ms_def)
  have sorted: "sorted (map event_ms ?evs)"
    using assms by (auto simp: buffer_ok_def event_ms_def sorted_append)
  have "?buf = drop (min k (length evs)) ?evs" by (simp add: k min_def)
  then obtain j where j: "?cut = drop j ?evs" by (metis drop_drop)
  have sub: "set ?cut \<subseteq> set ?evs" unfolding j by (rule set_drop_subset)
  have buf: "eventBuffer (broadcast L now e M) = filter (\<lambda>x. now - bufferTtlMs L < event_ms x) ?cut"
    using times sub by (subst kept_events [symmetric]) (auto simp: broadcast_frame prune_event_buffer_def Let_def)
  have "sorted (map event_ms ?cut)" unfolding j drop_map [symmetric] using sorted by (rule sorted_wrt_drop)
  from filter_sorted_drop [OF this] obtain i where i: "filter (\<lambda>x. now - bufferTtlMs L < event_ms x) ?cut = drop i ?cut" by blast
  have "?x \<in> set (eventBuffer (broadcast L now e M))"
  proof -
    have "?x \<in> set ?cut" by auto
    then show ?thesis unfolding buf using assms(2,4) by (simp add: event_ms_def)
  qed
  then have "eventBuffer (broadcast L now e M) \<noteq> []" by (metis empty_iff list.set(1))
  moreover have "\<exists>k. eventBuffer (broadcast L now e M) = drop k ?evs"
  proof -
    have "eventBuffer (broadcast L now e M) = drop i (drop j ?evs)" unfolding buf i unfolding j by (rule refl)
    then show ?thesis unfolding drop_drop by blast
  qed
  moreover have "nextEventId M = int (length evs) + 1" "map fst evs = [1..int (length evs)]"
    using assms(1) by (simp_all add: buffer_ok_def)
  ultimately show ?thesis using times sorted upto_snoc [of evs e]
    by (simp add: buffer_ok_def broadcast_frame)
qed


lemma buffer_ok_frame: "eventBuffer M' = eventBuffer M \<Longrightarrow> nextEventId M' = nextEventId M \<Longrightarrow> buffer_ok t0 evs M \<Longrightarrow> buffer_ok t0 evs M'"
  by (simp add: buffer_ok_def)

text \<open>No other step touches the buffer or the next id.\<close>

lemma step_frame:
  assumes "\<And>now e. op \<noteq> Broadcast_op now e" and "op \<noteq> Shutdown_op"
  shows "eventBuffer (manager (stream_step L S op)) = eventBuffer (manager S) \<and>
    nextEventId (manager (stream_step L S op)) = nextEventId (manager S)"
proof (cases op)
  case (Broadcast_op now e)
  then show ?thesis using assms(1) by blast
qed (use assms(2) in \<open>simp_all add: check_stream_def accept_stream_def add_connection_def remove_connection_def send_settled_def Let_def
      split: option.split last_event_header.split prod.split\<close>)

lemma buffer_ok_run:
  "timely L t0 ops \<Longrightarrow> buffer_ok t0 evs (manager S) \<Longrightarrow>
     \<exists>t. buffer_ok t (evs @ stream_log (nextEventId (manager S)) ops) (manager (foldl (stream_step L) S ops))"
proof (induction ops arbitrary: t0 evs S)
  case Nil
  then show ?case by auto
next
  case (Cons op ops)
  consider now e where "op = Broadcast_op now e" | "op = Shutdown_op"
    | "\<And>now e. op \<noteq> Broadcast_op now e" "op \<noteq> Shutdown_op" by blast
  then show ?case
  proof cases
    case 1
    then obtain t where t: "ev_time e = Some t" "t0 \<le> t" "now - bufferTtlMs L < t" "timely L t ops"
      using Cons.prems(1) by (auto split: option.splits)
    from Cons.IH [of t _ "stream_step L S op", OF t(4)] buffer_ok_broadcast [OF Cons.prems(2) t(1-3)]
    show ?thesis by (fastforce simp: 1 broadcast_frame)
  next
    case 2
    then show ?thesis using Cons.prems by simp
  next
    case 3
    note frame = step_frame [OF 3, of L S]
    have rest: "timely L t0 ops \<and> (\<forall>i. stream_log i (op # ops) = stream_log i ops)"
    proof (cases op)
      case (Broadcast_op now e)
      with 3(1) show ?thesis by blast
    qed (use 3(2) Cons.prems(1) in simp_all)
    moreover have "buffer_ok t0 evs (manager (stream_step L S op))" using frame Cons.prems(2) buffer_ok_frame by blast
    ultimately show ?thesis using Cons.IH [of t0 evs "stream_step L S op"] frame by simp
  qed
qed

lemma buffered_ids:
  assumes "buffer_ok t evs M" "eventBuffer M = (i, e) # rest"
  shows "filter (\<lambda>x. i \<le> fst x) evs = eventBuffer M \<and> 1 \<le> i"
proof -
  obtain k where k: "eventBuffer M = drop k evs" using assms(1) by (auto simp: buffer_ok_def)
  have ids: "map fst evs = [1..int (length evs)]" using assms(1) by (simp add: buffer_ok_def)
  have nth: "fst (evs ! j) = int j + 1" if "j < length evs" for j
  proof -
    have "map fst evs ! j = [1..int (length evs)] ! j" using ids by simp
    with that show ?thesis by (simp add: nth_upto)
  qed
  have kl: "k < length evs" using assms(2) k by (metis drop_all list.distinct(1) not_le)
  then have i: "i = int k + 1" using nth [OF kl] assms(2) k by (metis Cons_nth_drop_Suc fst_conv list.inject)
  have "filter (\<lambda>x. i \<le> fst x) (take k evs) = []"
  proof -
    have "fst x < i" if "x \<in> set (take k evs)" for x
      using that nth kl by (auto simp: in_set_conv_nth i)
    then show ?thesis by (fastforce simp: filter_empty_conv)
  qed
  moreover have "filter (\<lambda>x. i \<le> fst x) (drop k evs) = drop k evs"
  proof -
    have "i \<le> fst x" if "x \<in> set (drop k evs)" for x
    proof -
      from that obtain j where "j < length evs - k" "x = evs ! (k + j)" by (auto simp: in_set_conv_nth)
      with nth [of "k + j"] show ?thesis by (simp add: i)
    qed
    then show ?thesis by (simp add: filter_id_conv)
  qed
  ultimately show ?thesis using k i by (metis append_Nil append_take_drop_id filter_append le_add_same_cancel2 of_nat_0_le_iff)
qed


lemma foldl_writes_cond:
  "written (foldl (\<lambda>M x. if P x then write_to cid (m x) M else M) M xs) = written M @ map (Pair cid) (map m (filter P xs))"
  by (induction xs arbitrary: M) simp_all

lemma gap_iff_lost:
  assumes ok: "buffer_ok t evs M" and "0 < n"
  shows "filter (\<lambda>x. n < fst x) (eventBuffer M) = filter (\<lambda>x. n < fst x) evs \<longleftrightarrow>
     \<not> (case eventBuffer M of [] \<Rightarrow> False | (i, _) # _ \<Rightarrow> i > n + 1)"
    (is "?kept = ?missed \<longleftrightarrow> _")
proof (cases "eventBuffer M")
  case Nil
  with ok have "evs = []" by (simp add: buffer_ok_def)
  with Nil show ?thesis by simp
next
  case (Cons x rest)
  obtain i e where x: "x = (i, e)" by (cases x)
  obtain k where k: "eventBuffer M = drop k evs" using ok by (auto simp: buffer_ok_def)
  note b = buffered_ids [OF ok Cons [unfolded x]]
  have kept: "?kept = filter (\<lambda>x. n < fst x \<and> i \<le> fst x) evs"
    using b by (metis (no_types, lifting) filter_cong filter_filter)
  have ids: "map fst evs = [1..int (length evs)]" using ok by (simp add: buffer_ok_def)
  have "(i, e) \<in> set evs" using Cons x set_drop_subset [of k evs] unfolding k by auto
  then have i: "i \<in> set [1..int (length evs)]" using ids by (metis fst_conv image_eqI list.set_map)
  show ?thesis
  proof (cases "i > n + 1")
    case True
    have "n + 1 \<in> set (map fst evs)" unfolding ids using i True \<open>0 < n\<close> by simp
    then obtain y where y: "y \<in> set evs" "fst y = n + 1" by auto
    then have "y \<in> set ?missed" "y \<notin> set ?kept" using True kept by auto
    then have "?kept \<noteq> ?missed" by metis
    with True Cons x show ?thesis by simp
  next
    case False
    then have "?kept = ?missed" unfolding kept by (intro filter_cong) auto
    with False Cons x show ?thesis by simp
  qed
qed

text \<open>
  C23.  A client that reconnects misses nothing in silence: as long as events are broadcast
  within the buffer's time to live and in order of their timestamps, a connection with
  \<open>Last-Event-ID\<close> \<open>n\<close> is written, in order, the events after \<open>n\<close> that are still buffered and
  that its filters select; what is no longer buffered is an initial part of what it missed, and
  then, and only then, the gap message with the earliest id comes first.
\<close>

theorem reconnect_misses_nothing_silently:
  assumes "timely L t0 ops" "0 < n"
  shows "let M = run_stream L ops;
             missed = filter (\<lambda>x. n < fst x) (stream_log 1 ops);
             kept = filter (\<lambda>x. n < fst x) (eventBuffer M)
         in (\<exists>lost. missed = lost @ kept) \<and>
            written (add_connection cid f (Event_id n) key ip now M) =
              written M @ map (Pair cid)
                ((if kept = missed then [] else [Replay_gap n (fst (hd (eventBuffer M)))]) @
                 map (\<lambda>(i, e). Domain_event i e) (filter (\<lambda>(_, e). matches_filters e f) kept))"
proof -
  let ?M = "run_stream L ops" and ?evs = "stream_log 1 ops"
  let ?missed = "filter (\<lambda>x. n < fst x) ?evs" and ?kept = "filter (\<lambda>x. n < fst x) (eventBuffer ?M)"
  have "buffer_ok t0 [] (manager new_server)" by (simp add: buffer_ok_def new_server_def new_manager_def)
  from buffer_ok_run [OF assms(1) this] obtain t where ok: "buffer_ok t ?evs ?M"
    by (auto simp: run_stream_def run_server_def new_server_def new_manager_def)
  then obtain k where k: "eventBuffer ?M = drop k ?evs" by (auto simp: buffer_ok_def)
  have lost: "\<exists>lost. ?missed = lost @ ?kept"
    unfolding k by (metis append_take_drop_id filter_append)
  note gap = gap_iff_lost [OF ok assms(2)]
  have "written (add_connection cid f (Event_id n) key ip now ?M) =
      written ?M @ map (Pair cid) ((if ?kept = ?missed then [] else [Replay_gap n (fst (hd (eventBuffer ?M)))]) @
        map (\<lambda>(i, e). Domain_event i e) (filter (\<lambda>(_, e). matches_filters e f) ?kept))"
    using assms(2) unfolding gap
    by (simp add: add_connection_def replay_events_def Let_def case_prod_unfold foldl_writes_cond split: list.split)
  with lost show ?thesis by (simp add: Let_def)
qed


definition sample_stream_event :: stream_event where
  "sample_stream_event = \<lparr>ev_type = ''task.created'', ev_time = Some 5, ev_data = Task_data 1\<rparr>"

definition short_buffer :: sse_limits where
  "short_buffer = default_limits\<lparr>maxBufferSize := 2\<rparr>"

theorem reconnect_misses_nothing_silently_witness:
  "written (add_connection ''c'' \<lparr>filter_project = None, filter_types = None\<rparr> (Event_id 1) ''k'' ''ip'' 9
       (run_stream short_buffer (replicate 4 (Broadcast_op 6 sample_stream_event)))) =
     [(''c'', Replay_gap 1 3), (''c'', Domain_event 3 sample_stream_event), (''c'', Domain_event 4 sample_stream_event)]"
proof -
  have t: "timely short_buffer 0 (replicate 4 (Broadcast_op 6 sample_stream_event))" by code_simp
  have "eventBuffer (run_stream short_buffer (replicate 4 (Broadcast_op 6 sample_stream_event))) =
      [(3, sample_stream_event), (4, sample_stream_event)]"
    and "written (run_stream short_buffer (replicate 4 (Broadcast_op 6 sample_stream_event))) = []"
    and "stream_log 1 (replicate 4 (Broadcast_op 6 sample_stream_event)) =
      [(1, sample_stream_event), (2, sample_stream_event), (3, sample_stream_event), (4, sample_stream_event)]"
    by code_simp+
  then show ?thesis
    using reconnect_misses_nothing_silently [OF t, of 1 "''c''" "\<lparr>filter_project = None, filter_types = None\<rparr>" "''k''" "''ip''" 9]
    by (simp add: Let_def matches_filters_def)
qed

end
