(* ===== verification/Pat_Tokens.thy ===== *)
theory Pat_Tokens
  imports Json_Text
begin

text \<open>
  Personal access tokens: how they are made (\<open>services/pat-hash.ts\<close>), what they may carry
  (\<open>schemas/pat-scope.schema.ts\<close>), the table that holds them
  (\<open>repositories/api-token.repository.ts\<close>) and the gate before the \<open>last_used_at\<close> writes
  (\<open>services/pat-touch-debounce.ts\<close>).  SHA-256, JSON text and the clock are arguments.
\<close>

section \<open>Making a token\<close>

definition PAT_PREFIX :: string where
  "PAT_PREFIX = ''wft_pat_''"

definition BASE32_ALPHABET :: string where
  "BASE32_ALPHABET = ''ABCDEFGHIJKLMNOPQRSTUVWXYZ234567''"

definition base32_char :: "32 word \<Rightarrow> char" where
  "base32_char v = BASE32_ALPHABET ! unat (v AND 0x1f)"

text \<open>
  The accumulator of the encoder is never masked: its high bits are the bytes already written,
  and the left shift drops them at 32 bits.
\<close>

fun drain :: "32 word \<Rightarrow> nat \<Rightarrow> string \<Rightarrow> nat \<times> string" where
  "drain v n out = (if n < 5 then (n, out) else drain v (n - 5) (out @ [base32_char (drop_bit (n - 5) v)]))"

declare drain.simps [simp del]

definition encode_byte :: "32 word \<times> nat \<times> string \<Rightarrow> byte \<Rightarrow> 32 word \<times> nat \<times> string" where
  "encode_byte = (\<lambda>(v, n, out) b. let v' = push_bit 8 v OR ucast b in (v', drain v' (n + 8) out))"

definition encode_base32 :: "byte list \<Rightarrow> string" where
  "encode_base32 bs =
     (case foldl encode_byte (0, 0, '''') bs of
        (v, n, out) \<Rightarrow> if n > 0 then out @ [base32_char (push_bit (5 - n) v)] else out)"

record minted_token =
  mt_token :: utext
  mt_prefix :: utext
  mt_suffix :: utext
  mt_hash :: utext

definition generate_token :: "(utext \<Rightarrow> utext) \<Rightarrow> byte list \<Rightarrow> minted_token" where
  "generate_token hash random_bytes =
     (let body = encode_base32 random_bytes; token = u (PAT_PREFIX @ body)
      in \<lparr>mt_token = token, mt_prefix = u PAT_PREFIX, mt_suffix = u (drop (length body - 4) body),
          mt_hash = hash token\<rparr>)"

definition pat_body_pattern :: "utext \<Rightarrow> bool" where
  "pat_body_pattern s \<longleftrightarrow> length s = 32 \<and> list_all (\<lambda>c. (65 \<le> c \<and> c \<le> 90) \<or> (50 \<le> c \<and> c \<le> 55)) s"

section \<open>Scopes\<close>

datatype pat_scope = Read_scope | Write_scope | Admin_scope

fun SCOPE_RANK :: "pat_scope \<Rightarrow> nat" where
  "SCOPE_RANK Read_scope = 0"
| "SCOPE_RANK Write_scope = 1"
| "SCOPE_RANK Admin_scope = 2"

definition PAT_SCOPES :: "(utext \<times> pat_scope) list" where
  "PAT_SCOPES = [(u ''read'', Read_scope), (u ''write'', Write_scope), (u ''admin'', Admin_scope)]"

definition is_pat_scope :: "utext \<Rightarrow> bool" where
  "is_pat_scope s \<longleftrightarrow> s \<in> set (map fst PAT_SCOPES)"

definition find_unknown_scopes :: "utext list \<Rightarrow> utext list" where
  "find_unknown_scopes ss = filter (\<lambda>s. \<not> is_pat_scope s) ss"

definition scope_satisfies :: "pat_scope \<Rightarrow> pat_scope \<Rightarrow> bool" where
  "scope_satisfies granted required \<longleftrightarrow> SCOPE_RANK granted \<ge> SCOPE_RANK required"

definition grant_satisfies_scope :: "pat_scope list option \<Rightarrow> pat_scope \<Rightarrow> bool" where
  "grant_satisfies_scope scopes required =
     (case scopes of
        None \<Rightarrow> True
      | Some ss \<Rightarrow> ss = [] \<or> list_ex (\<lambda>granted. scope_satisfies granted required) ss)"

definition binding_satisfies_projects :: "int option \<Rightarrow> int list option \<Rightarrow> bool" where
  "binding_satisfies_projects binding targets =
     (case binding of
        None \<Rightarrow> True
      | Some p \<Rightarrow> (case targets of None \<Rightarrow> False | Some ts \<Rightarrow> list_all (\<lambda>q. q = p) ts))"

text \<open>
  The column holds JSON text.  Written by the repository it is an array of known scopes; read by
  the chain, everything else in it is dropped.  A property name is looked up by the text of the
  value, so an array of one element stands for that element.
\<close>

fun scope_key :: "json \<Rightarrow> bool" where
  "scope_key (JStr s) = is_pat_scope s"
| "scope_key (JArr [x]) = scope_key x"
| "scope_key _ = False"

definition assert_known_scopes :: "(utext \<Rightarrow> json option) \<Rightarrow> utext \<Rightarrow> bool" where
  "assert_known_scopes parse txt = (case parse txt of Some (JArr xs) \<Rightarrow> list_all scope_key xs | _ \<Rightarrow> False)"

fun known_scope :: "json \<Rightarrow> pat_scope option" where
  "known_scope (JStr s) = map_of PAT_SCOPES s"
| "known_scope _ = None"

definition parse_scopes :: "(utext \<Rightarrow> json option) \<Rightarrow> utext \<Rightarrow> pat_scope list" where
  "parse_scopes parse txt = (case parse txt of Some (JArr xs) \<Rightarrow> List.map_filter known_scope xs | _ \<Rightarrow> [])"

section \<open>The table of tokens\<close>

record token_row =
  tok_id :: int
  tok_user :: int
  tok_name :: utext
  tok_prefix :: utext
  tok_suffix :: utext
  tok_hash :: utext
  tok_scopes :: utext
  tok_created :: int
  tok_last_used :: "int option"
  tok_revoked :: "int option"
  tok_expires :: "utext option"
  tok_project :: "int option"

record token_table =
  tokens :: "token_row list"
  next_token :: int

record token_input =
  ti_user :: int
  ti_name :: utext
  ti_prefix :: utext
  ti_suffix :: utext
  ti_hash :: utext
  ti_scopes :: "utext option"
  ti_expires :: "utext option"
  ti_project :: "int option"

datatype token_error = Invalid_scope | Invalid_project_binding int | Token_constraint

definition find_token :: "int \<Rightarrow> token_table \<Rightarrow> token_row option" where
  "find_token i T = find (\<lambda>r. tok_id r = i) (tokens T)"

definition find_by_hash :: "utext \<Rightarrow> token_table \<Rightarrow> token_row option" where
  "find_by_hash h T = find (\<lambda>r. tok_hash r = h) (tokens T)"

definition list_by_user :: "int \<Rightarrow> token_table \<Rightarrow> token_row list" where
  "list_by_user uid T = sort_key (\<lambda>r. - tok_created r) (filter (\<lambda>r. tok_user r = uid) (tokens T))"

text \<open>
  The user and project of a row are foreign keys and its hash is unique; the primary key is never
  used again.
\<close>

definition insert_token ::
  "(utext \<Rightarrow> json option) \<Rightarrow> (int \<Rightarrow> bool) \<Rightarrow> (int \<Rightarrow> bool) \<Rightarrow> int \<Rightarrow> token_input \<Rightarrow> token_table \<Rightarrow>
    token_error + token_row \<times> token_table" where
  "insert_token parse user_exists project_exists now ti T =
     (let scopes = (case ti_scopes ti of None \<Rightarrow> u ''[]'' | Some s \<Rightarrow> s);
          r = \<lparr>tok_id = next_token T, tok_user = ti_user ti, tok_name = ti_name ti, tok_prefix = ti_prefix ti,
               tok_suffix = ti_suffix ti, tok_hash = ti_hash ti, tok_scopes = scopes, tok_created = now div 1000,
               tok_last_used = None, tok_revoked = None, tok_expires = ti_expires ti, tok_project = ti_project ti\<rparr>
      in if \<not> assert_known_scopes parse scopes then Inl Invalid_scope
         else if (case ti_project ti of Some p \<Rightarrow> p \<le> 0 | None \<Rightarrow> False) then Inl (Invalid_project_binding (the (ti_project ti)))
         else if \<not> user_exists (ti_user ti) \<or> (case ti_project ti of Some p \<Rightarrow> \<not> project_exists p | None \<Rightarrow> False)
           \<or> find_by_hash (ti_hash ti) T \<noteq> None then Inl Token_constraint
         else Inr (r, T\<lparr>tokens := tokens T @ [r], next_token := next_token T + 1\<rparr>))"

definition revoke_token :: "int \<Rightarrow> int \<Rightarrow> int \<Rightarrow> token_table \<Rightarrow> bool \<times> token_table" where
  "revoke_token now i uid T =
     (let hits = (\<lambda>r. tok_id r = i \<and> tok_user r = uid \<and> tok_revoked r = None)
      in (list_ex hits (tokens T),
          T\<lparr>tokens := map (\<lambda>r. if hits r then r\<lparr>tok_revoked := Some (now div 1000)\<rparr> else r) (tokens T)\<rparr>))"

definition touch_last_used :: "int \<Rightarrow> int \<Rightarrow> token_table \<Rightarrow> token_table" where
  "touch_last_used now i T =
     T\<lparr>tokens := map (\<lambda>r. if tok_id r = i then r\<lparr>tok_last_used := Some (now div 1000)\<rparr> else r) (tokens T)\<rparr>"

section \<open>Debouncing the writes of last use\<close>

definition TTL_MS :: int where
  "TTL_MS = 10 * 60 * 1000"

definition should_touch_last_used :: "int \<Rightarrow> int \<Rightarrow> (int, int) jsmap \<Rightarrow> bool \<times> (int, int) jsmap" where
  "should_touch_last_used token_id now cache =
     (case js_get cache token_id of
        Some latest \<Rightarrow> if now - latest < TTL_MS then (False, cache) else (True, js_put token_id now cache)
      | None \<Rightarrow> (True, js_put token_id now cache))"


section \<open>Tokens are read back\<close>

text \<open>The bits of a word, the highest of the lowest \<open>n\<close> first.\<close>

definition low_bits :: "nat \<Rightarrow> 'a::len word \<Rightarrow> bool list" where
  "low_bits n v = map (bit v) (rev [0..<n])"

definition base32_index :: "char \<Rightarrow> nat" where
  "base32_index c = length (takeWhile (\<lambda>x. x \<noteq> c) BASE32_ALPHABET)"

definition bits_of_text :: "string \<Rightarrow> bool list" where
  "bits_of_text s = concat (map (\<lambda>c. low_bits 5 (of_nat (base32_index c) :: 32 word)) s)"

definition byte_of_bits :: "bool list \<Rightarrow> byte" where
  "byte_of_bits bs = horner_sum of_bool 2 (rev bs)"

function octets :: "bool list \<Rightarrow> byte list" where
  "octets bs = (if length bs < 8 then [] else byte_of_bits (take 8 bs) # octets (drop 8 bs))"
  by auto
termination by (relation "measure length") auto

declare octets.simps [simp del]

definition decode_base32 :: "string \<Rightarrow> byte list" where
  "decode_base32 s = octets (bits_of_text s)"

lemma length_low_bits [simp]: "length (low_bits n v) = n"
  by (simp add: low_bits_def)

lemma low_bits_0 [simp]: "low_bits 0 v = []"
  by (simp add: low_bits_def)

lemma low_bits_eqI: "(\<And>i. i < n \<Longrightarrow> bit v i \<longleftrightarrow> bit w i) \<Longrightarrow> low_bits n v = low_bits n w"
  by (simp add: low_bits_def)

lemma low_bits_split: "k \<le> n \<Longrightarrow> low_bits n v = low_bits (n - k) (drop_bit k v) @ low_bits k v"
proof -
  assume "k \<le> n"
  then have "[0..<n] = [0..<k] @ map (\<lambda>i. i + k) [0..<n - k]"
    using upt_add_eq_append [of 0 k "n - k"] by (simp add: map_add_upt)
  then show ?thesis by (simp add: low_bits_def rev_map bit_drop_bit_eq add.commute comp_def)
qed

lemma base32_index_table: "list_all (\<lambda>k. base32_index (BASE32_ALPHABET ! k) = k) [0..<32]"
  by code_simp

lemma bits_of_text_char:
  fixes v :: "32 word"
  shows "bits_of_text [base32_char v] = low_bits 5 v"
proof -
  have "v AND 0x1f = take_bit 5 v" using take_bit_eq_mask [of 5 v] by (simp add: mask_eq_exp_minus_1)
  moreover have "unat (take_bit 5 v) < 32" using take_bit_nat_less_exp [of 5 "unat v"] by (simp add: unsigned_take_bit_eq)
  ultimately have "unat (v AND 0x1f) < 32" by simp
  then have i: "base32_index (base32_char v) = unat (v AND 0x1f)"
    using base32_index_table by (simp add: base32_char_def list_all_iff)
  have "low_bits 5 (v AND 0x1f) = low_bits 5 v"
    using bit_take_bit_iff [of 5 v] take_bit_eq_mask [of 5 v]
    by (intro low_bits_eqI) (simp add: mask_eq_exp_minus_1)
  then show ?thesis by (simp add: bits_of_text_def i)
qed

lemma bits_of_text_append [simp]: "bits_of_text (s @ t) = bits_of_text s @ bits_of_text t"
  by (simp add: bits_of_text_def)

lemma drain_bits:
  "n' < 5 \<and> bits_of_text out' @ low_bits n' v = bits_of_text out @ low_bits n v"
  if "drain v n out = (n', out')"
  using that
proof (induction v n out rule: drain.induct)
  case (1 v n out)
  show ?case
  proof (cases "n < 5")
    case False
    then have "low_bits n v = low_bits 5 (drop_bit (n - 5) v) @ low_bits (n - 5) v"
      using low_bits_split [of "n - 5" n v] by simp
    with False 1 show ?thesis by (simp add: drain.simps [of v n out] bits_of_text_char)
  qed (use 1 in \<open>simp add: drain.simps\<close>)
qed

lemma low_bits_next_byte:
  fixes v :: "32 word" and b :: byte
  assumes "n < 5"
  shows "low_bits (n + 8) (push_bit 8 v OR ucast b) = low_bits n v @ low_bits 8 b"
proof -
  have "low_bits n (drop_bit 8 (push_bit 8 v OR ucast b)) = low_bits n v"
    using assms by (intro low_bits_eqI)
      (auto simp: bit_drop_bit_eq bit_or_iff bit_push_bit_iff bit_ucast_iff dest: bit_imp_le_length)
  moreover have "low_bits 8 (push_bit 8 v OR ucast b) = low_bits 8 b"
    by (simp add: low_bits_def bit_or_iff bit_push_bit_iff bit_ucast_iff)
  ultimately show ?thesis using low_bits_split [of 8 "n + 8" "push_bit 8 v OR ucast b"] by simp
qed

lemma encode_bytes_bits:
  "case foldl encode_byte (0, 0, '''') bs of
     (v, n, out) \<Rightarrow> n < 5 \<and> bits_of_text out @ low_bits n v = concat (map (low_bits 8) bs)"
proof (induction bs rule: rev_induct)
  case Nil
  show ?case by (simp add: bits_of_text_def)
next
  case (snoc b bs)
  obtain v n out where f: "foldl encode_byte (0, 0, '''') bs = (v, n, out)" by (cases "foldl encode_byte (0, 0, '''') bs")
  define w where "w = push_bit 8 v OR ucast b"
  obtain n' out' where d: "drain w (n + 8) out = (n', out')" by (cases "drain w (n + 8) out")
  with drain_bits [OF d] snoc f show ?case
    by (simp add: encode_byte_def Let_def low_bits_next_byte flip: w_def) (simp add: w_def low_bits_next_byte)
qed

lemma byte_of_low_bits: "byte_of_bits (low_bits 8 b) = b"
  by (rule bit_eqI) (auto simp: byte_of_bits_def low_bits_def rev_map bit_horner_sum_bit_iff dest: bit_imp_le_length)

lemma octets_of_bytes: "octets (concat (map (low_bits 8) bs)) = bs"
  by (induction bs) (simp_all add: octets.simps byte_of_low_bits)

lemma length_bits_of_text: "length (bits_of_text s) = 5 * length s"
  by (induction s) (simp_all add: bits_of_text_def)

lemma no_bits_are_left:
  assumes "5 dvd length bs"
  obtains v out where "foldl encode_byte (0, 0, '''') bs = (v, 0, out)" "encode_base32 bs = out"
    "bits_of_text out = concat (map (low_bits 8) bs)"
proof -
  obtain v n out where f: "foldl encode_byte (0, 0, '''') bs = (v, n, out)" by (cases "foldl encode_byte (0, 0, '''') bs")
  have e: "n < 5" "bits_of_text out @ low_bits n v = concat (map (low_bits 8) bs)"
    using encode_bytes_bits [of bs] f by simp_all
  have "length (concat (map (low_bits 8) bs)) = 8 * length bs"
    by (induction bs) simp_all
  then have "5 * length out + n = 8 * length bs" using arg_cong [OF e(2), of length] by (simp add: length_bits_of_text)
  then have "n = 0" using assms e(1) by presburger
  with e f show thesis by (intro that [of v out]) (simp_all add: encode_base32_def)
qed

lemma masked_below: "unat ((v :: 32 word) AND 0x1f) < 32"
  using take_bit_eq_mask [of 5 v] take_bit_nat_less_exp [of 5 "unat v"]
  by (simp add: mask_eq_exp_minus_1 unsigned_take_bit_eq [symmetric])

lemma base32_char_in: "base32_char v \<in> set BASE32_ALPHABET"
proof -
  have "length BASE32_ALPHABET = 32" by (simp add: BASE32_ALPHABET_def)
  then show ?thesis unfolding base32_char_def using masked_below [of v] by (intro nth_mem) simp
qed

lemma drain_chars: "set (snd (drain v n out)) \<subseteq> set out \<union> set BASE32_ALPHABET"
proof (induction v n out rule: drain.induct)
  case (1 v n out)
  then show ?case using base32_char_in [of "drop_bit (n - 5) v"] by (subst drain.simps) (auto simp: subset_iff)
qed

lemma encode_base32_chars:
  assumes "5 dvd length bs"
  shows "set (encode_base32 bs) \<subseteq> set BASE32_ALPHABET"
proof -
  have "set (snd (snd (foldl encode_byte (0, 0, '''') bs))) \<subseteq> set BASE32_ALPHABET"
  proof (induction bs rule: rev_induct)
    case (snoc b bs)
    then show ?case
      using drain_chars by (simp add: encode_byte_def Let_def case_prod_unfold) blast
  qed simp
  with no_bits_are_left [OF assms] show ?thesis by (metis snd_conv)
qed

lemma pattern_of_alphabet:
  assumes "set s \<subseteq> set BASE32_ALPHABET" "length s = 32"
  shows "pat_body_pattern (u s)"
proof -
  have "list_all (\<lambda>c. (65 \<le> (of_char c :: nat) \<and> (of_char c :: nat) \<le> 90) \<or> (50 \<le> (of_char c :: nat) \<and> (of_char c :: nat) \<le> 55)) BASE32_ALPHABET"
    by code_simp
  with assms show ?thesis by (auto simp: pat_body_pattern_def u_def list_all_iff)
qed

text \<open>
  A minted token is the prefix and 32 characters that the authentication strategy accepts,
  and nothing of the twenty random bytes is lost in it: they can be read back from the text, so
  two tokens are equal only if their random bytes are.
\<close>

theorem minted_tokens_are_read_back:
  assumes "length random_bytes = 20"
  shows "\<exists>body. mt_token (generate_token hash random_bytes) = u (PAT_PREFIX @ body) \<and>
           pat_body_pattern (u body) \<and> decode_base32 body = random_bytes"
proof -
  have "5 dvd length random_bytes" using assms by simp
  then obtain out where out: "encode_base32 random_bytes = out" "bits_of_text out = concat (map (low_bits 8) random_bytes)"
    by (elim no_bits_are_left)
  have "length (concat (map (low_bits 8) random_bytes)) = 8 * length random_bytes"
    by (induction random_bytes) simp_all
  then have "length out = 32" using arg_cong [OF out(2), of length] assms by (simp add: length_bits_of_text)
  moreover have "set out \<subseteq> set BASE32_ALPHABET"
    using encode_base32_chars [of random_bytes] assms out(1) by simp
  ultimately show ?thesis using out
    by (auto simp: generate_token_def Let_def pattern_of_alphabet decode_base32_def octets_of_bytes)
qed

theorem minted_tokens_are_read_back_witness:
  "\<exists>body. mt_token (generate_token id (map byte_of [0..<20])) = u (PAT_PREFIX @ body) \<and>
     pat_body_pattern (u body) \<and> decode_base32 body = map byte_of [0..<20]"
  using minted_tokens_are_read_back [of "map byte_of [0..<20]" id] by simp

section \<open>Last use is written rarely\<close>

text \<open>A run of the gate over calls with their token and time, and the times it let a token through.\<close>

fun touches :: "int \<Rightarrow> (int \<times> int) list \<Rightarrow> (int, int) jsmap \<Rightarrow> int list" where
  "touches i [] cache = []"
| "touches i ((j, now) # calls) cache =
     (case should_touch_last_used j now cache of
        (go, cache') \<Rightarrow> (if go \<and> j = i then [now] else []) @ touches i calls cache')"

lemma other_token_touched:
  "j \<noteq> i \<Longrightarrow> js_get (snd (should_touch_last_used j now cache)) i = js_get cache i"
  by (simp add: should_touch_last_used_def split: option.splits)

lemma touches_from:
  "js_get cache i = Some t \<Longrightarrow> sorted_wrt (\<lambda>a b. TTL_MS \<le> b - a) (t # touches i calls cache)"
proof (induction calls arbitrary: t cache)
  case (Cons call calls)
  obtain j now where c: "call = (j, now)" by (cases call)
  show ?case
  proof (cases "j = i")
    case True
    then show ?thesis
      using Cons.IH [of "js_put i now cache" now] Cons.IH [of cache t] Cons.prems c
      by (fastforce simp: should_touch_last_used_def TTL_MS_def)
  next
    case False
    with Cons.IH [of "snd (should_touch_last_used j now cache)" t] Cons.prems c other_token_touched [OF False]
    show ?thesis by (simp add: case_prod_unfold)
  qed
qed simp

lemma touches_fresh:
  "js_get cache i = None \<Longrightarrow> sorted_wrt (\<lambda>a b. TTL_MS \<le> b - a) (touches i calls cache)"
proof (induction calls arbitrary: cache)
  case (Cons call calls)
  obtain j now where c: "call = (j, now)" by (cases call)
  show ?case
  proof (cases "j = i")
    case True
    then show ?thesis using touches_from [of "js_put i now cache" i now calls] Cons.prems c
      by (simp add: should_touch_last_used_def)
  next
    case False
    with Cons.IH [of "snd (should_touch_last_used j now cache)"] Cons.prems c other_token_touched [OF False]
    show ?thesis by (simp add: case_prod_unfold)
  qed
qed simp

text \<open>
  Whatever the calls and their clock, two writes of a token's last use that the gate lets
  through are at least ten minutes apart.
\<close>

theorem touches_are_spaced:
  "sorted_wrt (\<lambda>a b. 10 * 60 * 1000 \<le> b - a) (touches i calls [])"
  using touches_fresh [of "[]" i calls] by (simp add: TTL_MS_def)

end
