(* ===== verification/Project_Binding.thy ===== *)
theory Project_Binding
  imports Task_Store Pat_Tokens
begin

text \<open>
  Which projects a request touches (\<open>api/plugins/auth/project-binding.ts\<close>): the table of rules
  by route, and the resolution of the projects and tasks that a request names.  The owner of a
  task is looked up through a function that may fail, as the statement it stands for may.  Apart
  from the table, the places in which the routes take the id of a project or a task, and which of
  them the table covers.
\<close>

section \<open>Rules\<close>

datatype binding_source =
  Project_param string
| Project_query string
| Project_body string
| Task_param string
| Task_body string bool
| Task_body_array string bool

datatype binding_rule = Global_rule | Deny_rule | Resolve_rule "binding_source list"

definition BINDING_RULES :: "(string \<times> binding_rule) list" where
  "BINDING_RULES =
    [(''/api/v1/audit-events'', Deny_rule),
     (''/health/detailed'', Global_rule),
     (''/api/v1/me'', Global_rule),
     (''/api/v1/me/tokens'', Global_rule),
     (''/api/v1/me/tokens/active'', Global_rule),
     (''/api/v1/me/tokens/:id'', Global_rule),
     (''/api/v1/models'', Global_rule),
     (''/api/v1/settings/model-policy'', Global_rule),
     (''/api/v1/projects/:id'', Resolve_rule [Project_param ''id'']),
     (''/api/v1/projects/:id/charter-history'', Resolve_rule [Project_param ''id'']),
     (''/api/v1/projects/:id/dependency-graph'', Resolve_rule [Project_param ''id'']),
     (''/api/v1/projects/:id/rescore'', Resolve_rule [Project_param ''id'']),
     (''/api/v1/projects/:id/rescore-runs'', Resolve_rule [Project_param ''id'']),
     (''/api/v1/projects/:id/resolve-model'', Resolve_rule [Project_param ''id'']),
     (''/api/v1/projects/:id/topology'', Resolve_rule [Project_param ''id'']),
     (''/api/v1/projects/:id/wsjf-health'', Resolve_rule [Project_param ''id'']),
     (''/api/v1/projects/:id/wsjf-ranking'', Resolve_rule [Project_param ''id'']),
     (''/api/v1/events'', Resolve_rule [Project_query ''project_id'']),
     (''/api/v1/tasks/completion-report'', Resolve_rule [Project_query ''project_id'']),
     (''/api/v1/tasks/:id'', Resolve_rule [Task_param ''id'']),
     (''/api/v1/tasks/:id/claim'', Resolve_rule [Task_param ''id'']),
     (''/api/v1/tasks/:id/comments'', Resolve_rule [Task_param ''id'']),
     (''/api/v1/tasks/:id/comments/:commentId'', Resolve_rule [Task_param ''id'']),
     (''/api/v1/tasks/:id/dependencies'', Resolve_rule [Task_param ''id'']),
     (''/api/v1/tasks/:id/dependencies/:blocksTaskId'', Resolve_rule [Task_param ''id'', Task_param ''blocksTaskId'']),
     (''/api/v1/tasks/:id/score-history'', Resolve_rule [Task_param ''id'']),
     (''/api/v1/tasks/:id/subtasks'', Resolve_rule [Task_param ''id'']),
     (''/api/v1/tasks/:id/wsjf'', Resolve_rule [Task_param ''id''])]"

definition METHOD_BINDING_RULES :: "(string \<times> binding_rule) list" where
  "METHOD_BINDING_RULES =
    [(''GET /api/v1/projects'', Deny_rule),
     (''HEAD /api/v1/projects'', Deny_rule),
     (''POST /api/v1/projects'', Deny_rule),
     (''PUT /api/v1/settings/model-policy'', Deny_rule),
     (''GET /api/v1/tasks'', Resolve_rule [Project_query ''project_id'']),
     (''HEAD /api/v1/tasks'', Resolve_rule [Project_query ''project_id'']),
     (''POST /api/v1/tasks'', Resolve_rule [Project_body ''project_id'', Task_body ''parent_task_id'' True]),
     (''PUT /api/v1/tasks/:id'',
       Resolve_rule [Task_param ''id'', Task_body_array ''blocked_by'' True, Task_body ''parent_task_id'' True]),
     (''POST /api/v1/tasks/:id/dependencies'', Resolve_rule [Task_param ''id'', Task_body ''blocks_task_id'' False])]"

definition PREFIX_BINDING_RULES :: "(string \<times> binding_rule) list" where
  "PREFIX_BINDING_RULES = [(''/docs'', Global_rule)]"

definition normalizeRouteUrl :: "string \<Rightarrow> string" where
  "normalizeRouteUrl url = (if length url > 1 \<and> url ! (length url - 1) = CHR ''/'' then butlast url else url)"

text \<open>The parser of HTTP hands methods on in capitals.\<close>

datatype verb = GET | HEAD | POST | PUT | PATCH | DELETE | OPTIONS

fun verb_name :: "verb \<Rightarrow> string" where
  "verb_name GET = ''GET''"
| "verb_name HEAD = ''HEAD''"
| "verb_name POST = ''POST''"
| "verb_name PUT = ''PUT''"
| "verb_name PATCH = ''PATCH''"
| "verb_name DELETE = ''DELETE''"
| "verb_name OPTIONS = ''OPTIONS''"

definition lookup_rule :: "verb \<Rightarrow> string \<Rightarrow> binding_rule option" where
  "lookup_rule v normalized =
     (case map_of METHOD_BINDING_RULES (verb_name v @ '' '' @ normalized) of
        Some r \<Rightarrow> Some r
      | None \<Rightarrow>
          (case map_of BINDING_RULES normalized of
             Some r \<Rightarrow> Some r
           | None \<Rightarrow> map_option snd (find (\<lambda>(prefix, r). normalized = prefix \<or> starts_with (prefix @ ''/'') normalized)
                       PREFIX_BINDING_RULES)))"

definition findBindingRule :: "verb \<Rightarrow> string \<Rightarrow> binding_rule option" where
  "findBindingRule v url = lookup_rule v (normalizeRouteUrl url)"

section \<open>Resolution\<close>

text \<open>
  A request's values are JSON values, and numbers are rationals; ids are far below the integers
  that lose their last digits in a double.
\<close>

definition digit_point :: "nat \<Rightarrow> bool" where
  "digit_point c \<longleftrightarrow> 48 \<le> c \<and> c \<le> 57"

definition to_positive_int :: "json option \<Rightarrow> int option" where
  "to_positive_int v =
     (case v of
        Some (JNum q) \<Rightarrow> (case quotient_of q of (n, d) \<Rightarrow> if d = 1 \<and> n > 0 then Some n else None)
      | Some (JStr s) \<Rightarrow>
          if s \<noteq> [] \<and> list_all digit_point s then
            (let parsed = foldl (\<lambda>n c. 10 * n + int c - 48) 0 s in if parsed > 0 then Some parsed else None)
          else None
      | _ \<Rightarrow> None)"

type_synonym bag = "(utext \<times> json) list"

fun as_record :: "json option \<Rightarrow> bag" where
  "as_record (Some (JObj kvs)) = kvs"
| "as_record _ = []"

record route_request =
  rq_method :: verb
  rq_url :: string
  rq_params :: "json option"
  rq_query :: "json option"
  rq_body :: "json option"

definition field :: "bag \<Rightarrow> string \<Rightarrow> json option" where
  "field b key = map_of b (u key)"

definition absent :: "json option \<Rightarrow> bool" where
  "absent v \<longleftrightarrow> v = None \<or> v = Some JNull"

text \<open>The lookup of a task's owner: a fault, no such task, or its project.\<close>

type_synonym owner_lookup = "int \<Rightarrow> unit + int option"

definition findProjectIdForTask :: "db \<Rightarrow> owner_lookup" where
  "findProjectIdForTask db i = Inr (map_option project_id (row db i))"

definition resolveTaskProject :: "owner_lookup option \<Rightarrow> int \<Rightarrow> unit + int option" where
  "resolveTaskProject owner_of i = (case owner_of of None \<Rightarrow> Inr None | Some look \<Rightarrow> look i)"

definition task_target :: "owner_lookup option \<Rightarrow> json option \<Rightarrow> unit + int option" where
  "task_target owner_of raw = (case to_positive_int raw of None \<Rightarrow> Inr None | Some i \<Rightarrow> resolveTaskProject owner_of i)"

fun task_targets :: "owner_lookup option \<Rightarrow> json list \<Rightarrow> unit + int list option" where
  "task_targets owner_of [] = Inr (Some [])"
| "task_targets owner_of (x # xs) =
     bind_result (task_target owner_of (Some x)) (\<lambda>t. case t of
        None \<Rightarrow> Inr None
      | Some p \<Rightarrow> bind_result (task_targets owner_of xs) (\<lambda>ts. Inr (map_option (\<lambda>ps. p # ps) ts)))"

definition one_target :: "int option \<Rightarrow> int list option" where
  "one_target t = map_option (\<lambda>p. [p]) t"

fun source_targets :: "owner_lookup option \<Rightarrow> route_request \<Rightarrow> binding_source \<Rightarrow> unit + int list option" where
  "source_targets owner_of rq (Project_param k) = Inr (one_target (to_positive_int (field (as_record (rq_params rq)) k)))"
| "source_targets owner_of rq (Project_query k) = Inr (one_target (to_positive_int (field (as_record (rq_query rq)) k)))"
| "source_targets owner_of rq (Project_body k) = Inr (one_target (to_positive_int (field (as_record (rq_body rq)) k)))"
| "source_targets owner_of rq (Task_param k) =
     (let raw = field (as_record (rq_params rq)) k
      in if absent raw then Inr None else bind_result (task_target owner_of raw) (\<lambda>t. Inr (one_target t)))"
| "source_targets owner_of rq (Task_body k optional) =
     (let raw = field (as_record (rq_body rq)) k
      in if absent raw then Inr (if optional then Some [] else None)
         else bind_result (task_target owner_of raw) (\<lambda>t. Inr (one_target t)))"
| "source_targets owner_of rq (Task_body_array k optional) =
     (let raw = field (as_record (rq_body rq)) k
      in if absent raw then Inr (if optional then Some [] else None)
         else case raw of Some (JArr xs) \<Rightarrow> task_targets owner_of xs | _ \<Rightarrow> Inr None)"

fun resolve_sources :: "owner_lookup option \<Rightarrow> route_request \<Rightarrow> binding_source list \<Rightarrow> int list \<Rightarrow> unit + int list option" where
  "resolve_sources owner_of rq [] targets = Inr (if targets = [] then None else Some targets)"
| "resolve_sources owner_of rq (s # ss) targets =
     bind_result (source_targets owner_of rq s) (\<lambda>ts. case ts of
        None \<Rightarrow> Inr None
      | Some ps \<Rightarrow> resolve_sources owner_of rq ss (targets @ ps))"

definition resolveTargetProjects :: "owner_lookup option \<Rightarrow> route_request \<Rightarrow> unit + int list option" where
  "resolveTargetProjects owner_of rq =
     (case findBindingRule (rq_method rq) (rq_url rq) of
        None \<Rightarrow> Inr None
      | Some Deny_rule \<Rightarrow> Inr None
      | Some Global_rule \<Rightarrow> Inr (Some [])
      | Some (Resolve_rule sources) \<Rightarrow> resolve_sources owner_of rq sources [])"

section \<open>What a request names\<close>

text \<open>
  A place of a request that holds the id of a project or of a task: in the path, the query or the
  body, the ids in an array, or the ids in one field of an array's objects.
\<close>

datatype request_place =
  Path_project string
| Path_task string
| Query_project string
| Query_task string
| Body_project string
| Body_task string
| Body_tasks string
| Body_items string string

text \<open>
  The places that the schemas of the routes declare, read from the routes and not from the table: a
  segment \<open>:id\<close> after \<open>projects\<close> or \<open>tasks\<close>, a segment \<open>:blocksTaskId\<close>, the filter of the three
  listings, the task that a model is resolved for, the fields of the bodies that create, change
  and link tasks, the tasks of a rescore, and the project a new token is bound to.
\<close>

fun path_places :: "string list \<Rightarrow> request_place list" where
  "path_places (a # b # segs) =
     (if a = ''projects'' \<and> b = '':id'' then [Path_project ''id'']
      else if a = ''tasks'' \<and> b = '':id'' then [Path_task ''id'']
      else if b = '':blocksTaskId'' then [Path_task ''blocksTaskId''] else []) @ path_places (b # segs)"
| "path_places _ = []"

definition query_places :: "verb \<Rightarrow> string \<Rightarrow> request_place list" where
  "query_places v url =
     (if url = ''/api/v1/events'' \<or> url = ''/api/v1/tasks/completion-report'' \<or> url = ''/api/v1/tasks'' \<and> v \<in> {GET, HEAD}
      then [Query_project ''project_id'']
      else if url = ''/api/v1/projects/:id/resolve-model'' \<and> v \<in> {GET, HEAD} then [Query_task ''task_id''] else [])"

definition body_places :: "verb \<Rightarrow> string \<Rightarrow> request_place list" where
  "body_places v url =
     (if v = POST \<and> url = ''/api/v1/tasks'' then [Body_project ''project_id'', Body_task ''parent_task_id'']
      else if v = PUT \<and> url = ''/api/v1/tasks/:id'' then [Body_task ''parent_task_id'', Body_tasks ''blocked_by'']
      else if v = POST \<and> url = ''/api/v1/tasks/:id/dependencies'' then [Body_task ''blocks_task_id'']
      else if v = POST \<and> url = ''/api/v1/projects/:id/rescore'' then [Body_items ''submissions'' ''task_id'']
      else if v = POST \<and> url = ''/api/v1/me/tokens'' then [Body_project ''projectId'']
      else [])"

definition named_places :: "verb \<Rightarrow> string \<Rightarrow> request_place list" where
  "named_places v url =
     (if starts_with ''/api/v1/'' url
      then path_places (split_on (CHR ''/'') url) @ query_places v url @ body_places v url else [])"

text \<open>
  The places among them that no rule of the table looks at.  The last is of a route that only
  sessions reach.
\<close>

definition ungated_places :: "verb \<Rightarrow> string \<Rightarrow> request_place list" where
  "ungated_places v url =
     (if v \<in> {GET, HEAD} \<and> url = ''/api/v1/projects/:id/resolve-model'' then [Query_task ''task_id'']
      else if v = POST \<and> url = ''/api/v1/projects/:id/rescore'' then [Body_items ''submissions'' ''task_id'']
      else if v = POST \<and> url = ''/api/v1/me/tokens'' then [Body_project ''projectId'']
      else [])"

definition gated_places :: "verb \<Rightarrow> string \<Rightarrow> request_place list" where
  "gated_places v url = filter (\<lambda>pl. \<not> List.member (ungated_places v url) pl) (named_places v url)"

text \<open>The projects a place leads to, one for each id it holds.\<close>

fun place_projects :: "owner_lookup option \<Rightarrow> route_request \<Rightarrow> request_place \<Rightarrow> (unit + int option) list" where
  "place_projects look rq (Path_project k) = [Inr (to_positive_int (field (as_record (rq_params rq)) k))]"
| "place_projects look rq (Path_task k) = [task_target look (field (as_record (rq_params rq)) k)]"
| "place_projects look rq (Query_project k) = [Inr (to_positive_int (field (as_record (rq_query rq)) k))]"
| "place_projects look rq (Query_task k) =
     (let raw = field (as_record (rq_query rq)) k in if absent raw then [] else [task_target look raw])"
| "place_projects look rq (Body_project k) = [Inr (to_positive_int (field (as_record (rq_body rq)) k))]"
| "place_projects look rq (Body_task k) =
     (let raw = field (as_record (rq_body rq)) k in if absent raw then [] else [task_target look raw])"
| "place_projects look rq (Body_tasks k) =
     (case field (as_record (rq_body rq)) k of Some (JArr xs) \<Rightarrow> map (\<lambda>x. task_target look (Some x)) xs | _ \<Rightarrow> [])"
| "place_projects look rq (Body_items k f) =
     (case field (as_record (rq_body rq)) k of
        Some (JArr xs) \<Rightarrow> map (\<lambda>x. task_target look (field (as_record (Some x)) f)) xs | _ \<Rightarrow> [])"

definition places_within :: "int \<Rightarrow> owner_lookup option \<Rightarrow> route_request \<Rightarrow> request_place list \<Rightarrow> bool" where
  "places_within p look rq places = list_all (\<lambda>pl. list_all (\<lambda>t. t = Inr (Some p)) (place_projects look rq pl)) places"

text \<open>The place a source of the table reads.\<close>

fun place_of :: "binding_source \<Rightarrow> request_place" where
  "place_of (Project_param k) = Path_project k"
| "place_of (Project_query k) = Query_project k"
| "place_of (Project_body k) = Body_project k"
| "place_of (Task_param k) = Path_task k"
| "place_of (Task_body k optional) = Body_task k"
| "place_of (Task_body_array k optional) = Body_tasks k"

lemma absent_not_positive: "absent raw \<Longrightarrow> to_positive_int raw = None"
  by (auto simp: absent_def to_positive_int_def)

lemma task_targets_within:
  "task_targets look xs = Inr (Some ts) \<Longrightarrow> list_all (\<lambda>q. q = p) ts \<Longrightarrow>
     list_all (\<lambda>x. task_target look (Some x) = Inr (Some p)) xs"
  by (induction xs arbitrary: ts) (auto simp: bind_result_Inr_iff split: option.splits)

lemma source_within:
  assumes "source_targets look rq s = Inr (Some ts)" "list_all (\<lambda>q. q = p) ts"
  shows "list_all (\<lambda>t. t = Inr (Some p)) (place_projects look rq (place_of s))"
proof (cases s)
  case (Task_body_array k opt)
  show ?thesis
  proof (cases "absent (field (as_record (rq_body rq)) k)")
    case True
    then show ?thesis by (auto simp: Task_body_array absent_def)
  next
    case False
    with assms obtain xs where "field (as_record (rq_body rq)) k = Some (JArr xs)" "task_targets look xs = Inr (Some ts)"
      by (auto simp: Task_body_array Let_def split: option.splits json.splits)
    with task_targets_within [OF this(2) assms(2)] show ?thesis by (simp add: Task_body_array list_all_iff)
  qed
qed (use assms in \<open>auto simp: Let_def one_target_def bind_result_Inr_iff split: if_splits\<close>)

lemma resolve_sources_within:
  "resolve_sources look rq ss acc = Inr (Some ts) \<Longrightarrow> list_all (\<lambda>q. q = p) ts \<Longrightarrow>
     list_all (\<lambda>q. q = p) acc \<and> places_within p look rq (map place_of ss)"
proof (induction ss arbitrary: acc)
  case Nil
  then show ?case by (auto simp: places_within_def split: if_splits)
next
  case (Cons s ss)
  then obtain qs where s: "source_targets look rq s = Inr (Some qs)" "resolve_sources look rq ss (acc @ qs) = Inr (Some ts)"
    by (auto simp: bind_result_Inr_iff split: option.splits)
  from Cons.IH [OF s(2) Cons.prems(2)] source_within [OF s(1), of p] show ?case by (simp add: places_within_def)
qed


section \<open>The table covers what routes name\<close>

definition rule_covers :: "verb \<Rightarrow> string \<Rightarrow> bool" where
  "rule_covers v url =
     (case lookup_rule v url of
        Some Global_rule \<Rightarrow> gated_places v url = []
      | Some (Resolve_rule ss) \<Rightarrow> list_all (\<lambda>pl. List.member (map place_of ss) pl) (gated_places v url)
      | _ \<Rightarrow> True)"

definition table_urls :: "string list" where
  "table_urls = ''/api/v1/projects'' # ''/api/v1/tasks'' # map fst BINDING_RULES"

lemma table_get: "list_all (rule_covers GET) table_urls"
  by code_simp

lemma table_head: "list_all (rule_covers HEAD) table_urls"
  by code_simp

lemma table_post: "list_all (rule_covers POST) table_urls"
  by code_simp

lemma table_put: "list_all (rule_covers PUT) table_urls"
  by code_simp

lemma table_patch: "list_all (rule_covers PATCH) table_urls"
  by code_simp

lemma table_delete: "list_all (rule_covers DELETE) table_urls"
  by code_simp

lemma table_options: "list_all (rule_covers OPTIONS) table_urls"
  by code_simp

lemma table_checked: "list_all (rule_covers v) table_urls"
  by (cases v) (simp_all only: table_get table_head table_post table_put table_patch table_delete table_options)

lemma method_rule_url:
  "map_of METHOD_BINDING_RULES (verb_name v @ '' '' @ url) = Some r \<Longrightarrow> url \<in> set table_urls"
  by (cases v) (auto simp: METHOD_BINDING_RULES_def table_urls_def BINDING_RULES_def split: if_splits)

lemma docs_name_nothing:
  assumes "find (\<lambda>(prefix, r). url = prefix \<or> starts_with (prefix @ ''/'') url) PREFIX_BINDING_RULES = Some x"
  shows "gated_places v url = [] \<and> snd x = Global_rule"
  using assms by (auto simp: gated_places_def PREFIX_BINDING_RULES_def named_places_def starts_with_iff split: if_splits)

lemma rules_cover: "rule_covers v url"
proof (cases "url \<in> set table_urls")
  case True
  then show ?thesis using table_checked [of v] by (simp add: list_all_iff)
next
  case False
  then have "map_of METHOD_BINDING_RULES (verb_name v @ '' '' @ url) = None"
    using method_rule_url [of v url] by (metis option.exhaust)
  moreover have "map_of BINDING_RULES url = None" using False by (simp add: table_urls_def map_of_eq_None_iff)
  ultimately show ?thesis
    using docs_name_nothing [of url] by (auto simp: rule_covers_def lookup_rule_def split: option.splits)
qed

lemma resolved_within:
  assumes "resolveTargetProjects look rq = Inr (Some ts)" "list_all (\<lambda>q. q = p) ts"
  shows "places_within p look rq (gated_places (rq_method rq) (normalizeRouteUrl (rq_url rq)))"
proof -
  obtain r where r: "lookup_rule (rq_method rq) (normalizeRouteUrl (rq_url rq)) = Some r" "r \<noteq> Deny_rule"
    using assms(1) by (auto simp: resolveTargetProjects_def findBindingRule_def split: option.splits binding_rule.splits)
  have cover: "rule_covers (rq_method rq) (normalizeRouteUrl (rq_url rq))" by (rule rules_cover)
  show ?thesis
  proof (cases r)
    case (Resolve_rule ss)
    with assms r have "places_within p look rq (map place_of ss)"
      using resolve_sources_within [of look rq ss "[]" ts p] by (simp add: resolveTargetProjects_def findBindingRule_def)
    with cover r Resolve_rule show ?thesis by (auto simp: rule_covers_def places_within_def list_all_iff)
  qed (use cover r in \<open>simp_all add: rule_covers_def places_within_def\<close>)
qed

section \<open>What the gate does not look at\<close>

lemma to_positive_int_num [simp]: "to_positive_int (Some (JNum (of_int i))) = (if i > 0 then Some i else None)"
  by (simp add: to_positive_int_def)

text \<open>
  With the path naming its own project a request passes the gate, whichever task the query of a model
  resolution or the submissions of a rescore name: a task \<open>i\<close> of another project \<open>q\<close>, say.
\<close>

lemma foreign_tasks_pass_the_gate:
  assumes "0 < p" "0 < i" "look i = Inr (Some q)"
  defines "path \<equiv> Some (JObj [(u ''id'', JNum (of_int p))])"
    and "task \<equiv> JObj [(u ''task_id'', JNum (of_int i))]"
  shows "let rq = \<lparr>rq_method = GET, rq_url = ''/api/v1/projects/:id/resolve-model'', rq_params = path,
             rq_query = Some task, rq_body = None\<rparr> in
           resolveTargetProjects (Some look) rq = Inr (Some [p]) \<and>
           place_projects (Some look) rq (Query_task ''task_id'') = [Inr (Some q)]"
    and "let rq = \<lparr>rq_method = POST, rq_url = ''/api/v1/projects/:id/rescore'', rq_params = path,
             rq_query = None, rq_body = Some (JObj [(u ''submissions'', JArr [task])])\<rparr> in
           resolveTargetProjects (Some look) rq = Inr (Some [p]) \<and>
           place_projects (Some look) rq (Body_items ''submissions'' ''task_id'') = [Inr (Some q)]"
proof -
  have "findBindingRule GET ''/api/v1/projects/:id/resolve-model'' = Some (Resolve_rule [Project_param ''id''])"
    "findBindingRule POST ''/api/v1/projects/:id/rescore'' = Some (Resolve_rule [Project_param ''id''])"
    by code_simp+
  then show "let rq = \<lparr>rq_method = GET, rq_url = ''/api/v1/projects/:id/resolve-model'', rq_params = path,
             rq_query = Some task, rq_body = None\<rparr> in
           resolveTargetProjects (Some look) rq = Inr (Some [p]) \<and>
           place_projects (Some look) rq (Query_task ''task_id'') = [Inr (Some q)]"
    "let rq = \<lparr>rq_method = POST, rq_url = ''/api/v1/projects/:id/rescore'', rq_params = path,
             rq_query = None, rq_body = Some (JObj [(u ''submissions'', JArr [task])])\<rparr> in
           resolveTargetProjects (Some look) rq = Inr (Some [p]) \<and>
           place_projects (Some look) rq (Body_items ''submissions'' ''task_id'') = [Inr (Some q)]"
    using assms(1-3)
    by (simp_all add: path_def task_def resolveTargetProjects_def field_def one_target_def absent_def task_target_def
        resolveTaskProject_def)
qed

end
