(* ===== verification/Auth_Chain.thy ===== *)
theory Auth_Chain
  imports Project_Binding
begin

text \<open>
  Who a request acts for and whether it may: the two strategies
  (\<open>api/plugins/auth/strategies/pat.ts\<close>, \<open>session.ts\<close>), the hook that chains them and the three
  gates after it (\<open>api/plugins/auth/index.ts\<close>), and the routes over a user's tokens
  (\<open>api/routes/me/tokens.ts\<close>).  A statement that the database refuses to run is a fault of the
  request; hashing, JSON text and dates are functions of an environment.
\<close>

section \<open>State\<close>

record auth_env =
  parse_json :: "utext \<Rightarrow> json option"
  stringify_scopes :: "utext list \<Rightarrow> utext"
  hash_token :: "utext \<Rightarrow> utext"
  parse_date :: "utext \<Rightarrow> int option"
  date_to_iso :: "int \<Rightarrow> utext"
  is_datetime :: "utext \<Rightarrow> bool"
  parse_number :: "utext \<Rightarrow> rat option"

record user_row =
  usr_id :: int
  usr_display :: utext
  usr_email :: "utext option"
  usr_legacy :: int
  usr_service :: int
  usr_disabled :: "utext option"

record auth_user =
  uid :: int
  displayName :: utext
  email :: "utext option"
  isLegacy :: bool
  isServiceAccount :: bool

datatype auth_method = By_pat | By_session

record auth_principal =
  pp_user :: auth_user
  pp_method :: auth_method
  pp_token :: "int option"
  pp_scopes :: "pat_scope list option"
  pp_project :: "int option"

datatype auth_strategy = Strategy_pat | Strategy_session | Strategy_legacy

datatype fail_reason = Missing_credential | Wrong_prefix | Unknown_token | Revoked | Expired | User_disabled

datatype auth_entry =
  Auth_failure auth_strategy fail_reason
| Auth_error
| Expiry_unparseable int
| Session_dropped int
| Touch_failed int

record faults =
  tokens_down :: bool
  users_down :: bool
  tasks_down :: bool
  db_closed :: bool

record auth_state =
  au_tokens :: token_table
  au_users :: "user_row list"
  au_db :: db
  au_cache :: "(int, int) jsmap"
  au_touches :: "int list"
  au_log :: "auth_entry list"

definition find_user :: "int \<Rightarrow> auth_state \<Rightarrow> user_row option" where
  "find_user i st = find (\<lambda>r. usr_id r = i) (au_users st)"

definition log_entries :: "auth_entry list \<Rightarrow> auth_state \<Rightarrow> auth_state" where
  "log_entries es st = st\<lparr>au_log := au_log st @ es\<rparr>"

section \<open>Strategies\<close>

datatype strategy_outcome = Skip | Fail fail_reason | Match auth_principal

definition toAuthenticatedUser :: "user_row \<Rightarrow> auth_user" where
  "toAuthenticatedUser r =
     \<lparr>uid = usr_id r, displayName = usr_display r, email = usr_email r,
      isLegacy = (usr_legacy r = 1), isServiceAccount = (usr_service r = 1)\<rparr>"

definition has_prefix :: "'a list \<Rightarrow> 'a list \<Rightarrow> bool" where
  "has_prefix p s \<longleftrightarrow> take (length p) s = p"

datatype presented = No_pat | Malformed_pat | Pat utext

definition presented_pat :: "utext option \<Rightarrow> presented" where
  "presented_pat header =
     (case header of
        None \<Rightarrow> No_pat
      | Some h \<Rightarrow>
          if \<not> has_prefix (u ''Bearer '') h then No_pat
          else let token = drop 7 h in
            if \<not> has_prefix (u PAT_PREFIX) token then No_pat
            else if \<not> pat_body_pattern (drop (length PAT_PREFIX) token) then Malformed_pat else Pat token)"

definition expiry_failure :: "auth_env \<Rightarrow> int \<Rightarrow> token_row \<Rightarrow> auth_entry list option" where
  "expiry_failure E now r =
     (case tok_expires r of
        None \<Rightarrow> None
      | Some txt \<Rightarrow>
          (case parse_date E txt of
             None \<Rightarrow> Some [Expiry_unparseable (tok_id r)]
           | Some ms \<Rightarrow> if ms < now then Some [] else None))"

definition row_outcome :: "auth_env \<Rightarrow> faults \<Rightarrow> int \<Rightarrow> auth_state \<Rightarrow> token_row \<Rightarrow> (unit + strategy_outcome) \<times> auth_entry list" where
  "row_outcome E F now st r =
     (if tok_revoked r \<noteq> None then (Inr (Fail Revoked), [])
      else case expiry_failure E now r of
        Some es \<Rightarrow> (Inr (Fail Expired), es)
      | None \<Rightarrow>
          if users_down F then (Inl (), [])
          else (case find_user (tok_user r) st of
            None \<Rightarrow> (Inr (Fail User_disabled), [])
          | Some usr \<Rightarrow>
              if usr_disabled usr \<noteq> None then (Inr (Fail User_disabled), [])
              else (Inr (Match \<lparr>pp_user = toAuthenticatedUser usr, pp_method = By_pat, pp_token = Some (tok_id r),
                                pp_scopes = Some (parse_scopes (parse_json E) (tok_scopes r)), pp_project = tok_project r\<rparr>), [])))"

definition try_pat :: "auth_env \<Rightarrow> faults \<Rightarrow> int \<Rightarrow> utext option \<Rightarrow> auth_state \<Rightarrow> (unit + strategy_outcome) \<times> auth_entry list" where
  "try_pat E F now header st =
     (case presented_pat header of
        No_pat \<Rightarrow> (Inr Skip, [])
      | Malformed_pat \<Rightarrow> (Inr (Fail Wrong_prefix), [])
      | Pat token \<Rightarrow>
          if tokens_down F then (Inl (), [])
          else (case find_by_hash (hash_token E token) (au_tokens st) of
            None \<Rightarrow> (Inr (Fail Unknown_token), [])
          | Some r \<Rightarrow> row_outcome E F now st r))"

text \<open>No session plug-in, a session without a user, or the id of its user.\<close>

datatype auth_session = No_backend | No_user | Session_user int

definition try_session :: "faults \<Rightarrow> auth_session \<Rightarrow> auth_state \<Rightarrow> (unit + strategy_outcome) \<times> auth_entry list" where
  "try_session F s st =
     (case s of
        Session_user i \<Rightarrow>
          if users_down F then (Inl (), [])
          else (case find_user i st of
            None \<Rightarrow> (Inr Skip, [Session_dropped i])
          | Some usr \<Rightarrow>
              if usr_disabled usr \<noteq> None then (Inr Skip, [Session_dropped i])
              else (Inr (Match \<lparr>pp_user = toAuthenticatedUser usr, pp_method = By_session, pp_token = None,
                                pp_scopes = None, pp_project = None\<rparr>), []))
      | _ \<Rightarrow> (Inr Skip, []))"

section \<open>Gates\<close>

record route_config =
  skip_auth :: bool
  session_only :: bool
  required_scope :: "pat_scope option"

record auth_request = route_request +
  rq_authorization :: "utext option"
  rq_session :: auth_session

datatype refusal =
  Unauthorized
| Session_required
| Insufficient_scope pat_scope
| Project_scope_denied int
| Internal_error

fun refusal_code :: "refusal \<Rightarrow> nat" where
  "refusal_code Unauthorized = 401"
| "refusal_code Internal_error = 500"
| "refusal_code _ = 403"

datatype decision = Proceed "auth_principal option" | Refused refusal

definition task_owners :: "faults \<Rightarrow> auth_state \<Rightarrow> owner_lookup" where
  "task_owners F st i = (if tasks_down F then Inl () else findProjectIdForTask (au_db st) i)"

definition enforceSessionOnly :: "route_config \<Rightarrow> auth_principal \<Rightarrow> refusal option" where
  "enforceSessionOnly cfg p = (if session_only cfg \<and> pp_method p \<noteq> By_session then Some Session_required else None)"

definition enforceRequiredScope :: "route_config \<Rightarrow> auth_principal \<Rightarrow> refusal option" where
  "enforceRequiredScope cfg p =
     (case required_scope cfg of
        None \<Rightarrow> None
      | Some required \<Rightarrow> if grant_satisfies_scope (pp_scopes p) required then None else Some (Insufficient_scope required))"

definition enforceProjectBinding :: "owner_lookup option \<Rightarrow> route_request \<Rightarrow> auth_principal \<Rightarrow> unit + refusal option" where
  "enforceProjectBinding look rq p =
     (case pp_project p of
        None \<Rightarrow> Inr None
      | Some binding \<Rightarrow>
          bind_result (resolveTargetProjects look rq) (\<lambda>targets.
            Inr (if binding_satisfies_projects (Some binding) targets then None else Some (Project_scope_denied binding))))"

definition enforceAuthorization :: "owner_lookup option \<Rightarrow> route_config \<Rightarrow> route_request \<Rightarrow> auth_principal \<Rightarrow> unit + refusal option" where
  "enforceAuthorization look cfg rq p =
     (case enforceRequiredScope cfg p of
        Some r \<Rightarrow> Inr (Some r)
      | None \<Rightarrow> enforceProjectBinding look rq p)"

definition gates :: "faults \<Rightarrow> route_config \<Rightarrow> route_request \<Rightarrow> auth_principal \<Rightarrow> auth_state \<Rightarrow> unit + refusal option" where
  "gates F cfg rq p st =
     (case enforceSessionOnly cfg p of
        Some r \<Rightarrow> Inr (Some r)
      | None \<Rightarrow> enforceAuthorization (Some (task_owners F st)) cfg rq p)"

section \<open>The chain\<close>

definition scheduleLastUsedTouch :: "int \<Rightarrow> int option \<Rightarrow> auth_state \<Rightarrow> auth_state" where
  "scheduleLastUsedTouch now token st =
     (case token of
        None \<Rightarrow> st
      | Some i \<Rightarrow>
          (case should_touch_last_used i now (au_cache st) of
             (go, cache) \<Rightarrow> st\<lparr>au_cache := cache, au_touches := au_touches st @ (if go then [i] else [])\<rparr>))"

definition sendUnauthorized :: "auth_strategy \<Rightarrow> fail_reason \<Rightarrow> auth_state \<Rightarrow> decision \<times> auth_state" where
  "sendUnauthorized s r st = (Refused Unauthorized, log_entries [Auth_failure s r] st)"

definition sendInternalError :: "auth_state \<Rightarrow> decision \<times> auth_state" where
  "sendInternalError st = (Refused Internal_error, log_entries [Auth_error, Auth_failure Strategy_legacy Unknown_token] st)"

definition admit :: "faults \<Rightarrow> route_config \<Rightarrow> route_request \<Rightarrow> auth_principal \<Rightarrow> auth_state \<Rightarrow> decision \<times> auth_state" where
  "admit F cfg rq p st =
     (case gates F cfg rq p st of
        Inl _ \<Rightarrow> sendInternalError st
      | Inr (Some r) \<Rightarrow> (Refused r, st)
      | Inr None \<Rightarrow> (Proceed (Some p), st))"

definition session_step :: "faults \<Rightarrow> route_config \<Rightarrow> auth_request \<Rightarrow> auth_state \<Rightarrow> decision \<times> auth_state" where
  "session_step F cfg rq st =
     (case try_session F (rq_session rq) st of (outcome, es) \<Rightarrow>
        let st1 = log_entries es st
        in case outcome of
             Inl _ \<Rightarrow> sendInternalError st1
           | Inr (Fail r) \<Rightarrow> sendUnauthorized Strategy_session r st1
           | Inr (Match p) \<Rightarrow> admit F cfg (route_request.truncate rq) p st1
           | Inr Skip \<Rightarrow> sendUnauthorized Strategy_legacy Missing_credential st1)"

definition auth_chain :: "auth_env \<Rightarrow> faults \<Rightarrow> int \<Rightarrow> route_config \<Rightarrow> auth_request \<Rightarrow> auth_state \<Rightarrow> decision \<times> auth_state" where
  "auth_chain E F now cfg rq st =
     (if skip_auth cfg then (Proceed None, st)
      else case try_pat E F now (rq_authorization rq) st of (outcome, es) \<Rightarrow>
        let st1 = log_entries es st
        in case outcome of
             Inl _ \<Rightarrow> sendInternalError st1
           | Inr (Fail r) \<Rightarrow> sendUnauthorized Strategy_pat r st1
           | Inr (Match p) \<Rightarrow> admit F cfg (route_request.truncate rq) p (scheduleLastUsedTouch now (pp_token p) st1)
           | Inr Skip \<Rightarrow> session_step F cfg rq st1)"

text \<open>The deferred write of a token's last use.\<close>

definition run_touch :: "faults \<Rightarrow> int \<Rightarrow> auth_state \<Rightarrow> auth_state" where
  "run_touch F now st =
     (case au_touches st of
        [] \<Rightarrow> st
      | i # rest \<Rightarrow>
          let st1 = st\<lparr>au_touches := rest\<rparr>
          in if db_closed F then st1
             else if tokens_down F then log_entries [Touch_failed i] st1
             else st1\<lparr>au_tokens := touch_last_used now i (au_tokens st1)\<rparr>)"


section \<open>The routes over a user's tokens\<close>

text \<open>A string's length counts UTF-16 units.\<close>

definition js_length :: "utext \<Rightarrow> nat" where
  "js_length s = sum_list (map (\<lambda>c. if c < 0x10000 then 1 else 2) s)"

record mint_body =
  mb_name :: utext
  mb_scopes :: "utext list option"
  mb_expires :: "utext option"
  mb_project :: "rat option"

definition length_between :: "nat \<Rightarrow> nat \<Rightarrow> utext \<Rightarrow> bool" where
  "length_between lo hi s \<longleftrightarrow> lo \<le> js_length s \<and> js_length s \<le> hi"

definition positive_int :: "rat \<Rightarrow> bool" where
  "positive_int q \<longleftrightarrow> snd (quotient_of q) = 1 \<and> q > 0"

definition mint_body_ok :: "auth_env \<Rightarrow> mint_body \<Rightarrow> bool" where
  "mint_body_ok E b \<longleftrightarrow>
     length_between 1 100 (mb_name b) \<and>
     (case mb_scopes b of None \<Rightarrow> True | Some ss \<Rightarrow> length ss \<le> 32 \<and> list_all (length_between 1 64) ss) \<and>
     (case mb_expires b of None \<Rightarrow> True | Some t \<Rightarrow> is_datetime E t) \<and>
     (case mb_project b of None \<Rightarrow> True | Some q \<Rightarrow> positive_int q)"

definition project_of_body :: "mint_body \<Rightarrow> int option" where
  "project_of_body b = map_option (\<lambda>q. fst (quotient_of q)) (mb_project b)"

definition projectExists :: "faults \<Rightarrow> auth_state \<Rightarrow> int \<Rightarrow> bool" where
  "projectExists F st p \<longleftrightarrow> \<not> tasks_down F \<and> find_project (au_db st) p \<noteq> None"

record token_item =
  it_id :: int
  it_name :: utext
  it_prefix :: utext
  it_suffix :: utext
  it_scopes :: json
  it_created :: int
  it_last_used :: "int option"
  it_revoked :: "int option"
  it_expires :: "utext option"
  it_project :: "int option"

datatype token_reply =
  Minted token_item utext
| Minted_page int utext
| Bad_request
| Unknown_scopes "utext list"
| Unknown_project int
| Csrf_invalid
| Validation_failed
| Listed "token_item list"
| Token_revoked
| Token_not_found
| No_token_id
| Denied refusal
| Route_failed

definition token_item_of :: "auth_env \<Rightarrow> token_row \<Rightarrow> token_item option" where
  "token_item_of E r =
     map_option (\<lambda>scopes. \<lparr>it_id = tok_id r, it_name = tok_name r, it_prefix = tok_prefix r, it_suffix = tok_suffix r,
        it_scopes = scopes, it_created = tok_created r, it_last_used = tok_last_used r, it_revoked = tok_revoked r,
        it_expires = tok_expires r, it_project = tok_project r\<rparr>) (parse_json E (tok_scopes r))"

definition insert_minted ::
  "auth_env \<Rightarrow> faults \<Rightarrow> int \<Rightarrow> byte list \<Rightarrow> mint_body \<Rightarrow> auth_user \<Rightarrow> auth_state \<Rightarrow> (token_row \<times> utext) option \<times> auth_state" where
  "insert_minted E F now random_bytes b usr st =
     (let minted = generate_token (hash_token E) random_bytes;
          ti = \<lparr>ti_user = uid usr, ti_name = mb_name b, ti_prefix = mt_prefix minted, ti_suffix = mt_suffix minted,
                ti_hash = mt_hash minted,
                ti_scopes = Some (stringify_scopes E (case mb_scopes b of None \<Rightarrow> [] | Some ss \<Rightarrow> ss)),
                ti_expires = mb_expires b, ti_project = project_of_body b\<rparr>
      in if tokens_down F then (None, st)
         else case insert_token (parse_json E) (\<lambda>i. find_user i st \<noteq> None) (\<lambda>p. find_project (au_db st) p \<noteq> None) now ti (au_tokens st) of
           Inl _ \<Rightarrow> (None, st)
         | Inr (r, T) \<Rightarrow> (Some (r, mt_token minted), st\<lparr>au_tokens := T\<rparr>))"

definition mint_json ::
  "auth_env \<Rightarrow> faults \<Rightarrow> int \<Rightarrow> byte list \<Rightarrow> mint_body option \<Rightarrow> auth_principal \<Rightarrow> auth_state \<Rightarrow> token_reply \<times> auth_state" where
  "mint_json E F now random_bytes body p st =
     (case body of
        None \<Rightarrow> (Bad_request, st)
      | Some b \<Rightarrow>
          let unknown = find_unknown_scopes (case mb_scopes b of None \<Rightarrow> [] | Some ss \<Rightarrow> ss)
          in if \<not> mint_body_ok E b then (Bad_request, st)
             else if unknown \<noteq> [] then (Unknown_scopes unknown, st)
             else if (case project_of_body b of Some q \<Rightarrow> \<not> projectExists F st q | None \<Rightarrow> False)
               then (Unknown_project (the (project_of_body b)), st)
             else case insert_minted E F now random_bytes b (pp_user p) st of
               (None, st1) \<Rightarrow> (Route_failed, st1)
             | (Some (r, token), st1) \<Rightarrow>
                 (case token_item_of E r of None \<Rightarrow> (Route_failed, st1) | Some it \<Rightarrow> (Minted it token, st1)))"

text \<open>The form sends text fields; a time is local to the form's label, UTC, with seconds or without.\<close>

record mint_form =
  fm_name :: "utext option"
  fm_scopes :: "utext option"
  fm_expires :: "utext option"
  fm_project :: "utext option"

text \<open>White space as \<open>String.trim\<close> has it, line ends and the byte order mark included.\<close>

definition white :: "nat \<Rightarrow> bool" where
  "white c \<longleftrightarrow> c = 32 \<or> (9 \<le> c \<and> c \<le> 13) \<or> (8192 \<le> c \<and> c \<le> 8202) \<or>
     List.member [160, 5760, 8232, 8233, 8239, 8287, 12288, 65279] c"

definition trim_points :: "utext \<Rightarrow> utext" where
  "trim_points s = rev (dropWhile white (rev (dropWhile white s)))"

definition form_scopes :: "utext option \<Rightarrow> utext list option" where
  "form_scopes v =
     (case v of
        None \<Rightarrow> None
      | Some s \<Rightarrow> if s = [] then None else Some (filter (\<lambda>x. x \<noteq> []) (map trim_points (split_on 44 s))))"

definition matches_shape :: "utext \<Rightarrow> utext \<Rightarrow> bool" where
  "matches_shape shape s \<longleftrightarrow>
     length shape = length s \<and> list_all (\<lambda>(k, c). if k = 48 then digit_point c else k = c) (zip shape s)"

definition formExpiryToIso :: "auth_env \<Rightarrow> utext \<Rightarrow> utext option" where
  "formExpiryToIso E v =
     (if \<not> (matches_shape (u ''0000-00-00T00:00'') v \<or> matches_shape (u ''0000-00-00T00:00:00'') v) then None
      else let with_seconds = (if length v = 16 then v @ u '':00'' else v)
        in case parse_date E (with_seconds @ u ''Z'') of
             None \<Rightarrow> None
           | Some ms \<Rightarrow> if has_prefix with_seconds (date_to_iso E ms) then Some (date_to_iso E ms) else None)"

definition given :: "utext option \<Rightarrow> utext option" where
  "given v = (case v of Some s \<Rightarrow> if s = [] then None else Some s | None \<Rightarrow> None)"

text \<open>The body a form stands for; none when its time or its number is malformed or its name is missing.\<close>

definition form_body :: "auth_env \<Rightarrow> mint_form \<Rightarrow> mint_body option" where
  "form_body E f =
     (case (map_option (formExpiryToIso E) (given (fm_expires f)), map_option (parse_number E) (given (fm_project f)), fm_name f) of
        (Some None, _, _) \<Rightarrow> None
      | (_, Some None, _) \<Rightarrow> None
      | (_, _, None) \<Rightarrow> None
      | (expires, number, Some name) \<Rightarrow>
          Some \<lparr>mb_name = name, mb_scopes = form_scopes (fm_scopes f), mb_expires = Option.bind expires id,
                mb_project = Option.bind number id\<rparr>)"

definition mint_page ::
  "auth_env \<Rightarrow> faults \<Rightarrow> int \<Rightarrow> byte list \<Rightarrow> bool \<Rightarrow> mint_form \<Rightarrow> auth_principal \<Rightarrow> auth_state \<Rightarrow> token_reply \<times> auth_state" where
  "mint_page E F now random_bytes csrf_ok f p st =
     (if \<not> csrf_ok then (Csrf_invalid, st)
      else case form_body E f of
        None \<Rightarrow> (Validation_failed, st)
      | Some b \<Rightarrow>
          if \<not> mint_body_ok E b then (Validation_failed, st)
          else if find_unknown_scopes (case mb_scopes b of None \<Rightarrow> [] | Some ss \<Rightarrow> ss) \<noteq> [] then (Validation_failed, st)
          else if (case project_of_body b of Some q \<Rightarrow> \<not> projectExists F st q | None \<Rightarrow> False) then (Validation_failed, st)
          else case insert_minted E F now random_bytes b (pp_user p) st of
            (None, st1) \<Rightarrow> (Route_failed, st1)
          | (Some (r, token), st1) \<Rightarrow> (Minted_page (tok_id r) token, st1))"

definition list_tokens :: "auth_env \<Rightarrow> faults \<Rightarrow> auth_principal \<Rightarrow> auth_state \<Rightarrow> token_reply" where
  "list_tokens E F p st =
     (if tokens_down F then Route_failed
      else let items = map (token_item_of E) (list_by_user (uid (pp_user p)) (au_tokens st))
        in if list_all (\<lambda>i. i \<noteq> None) items then Listed (map the items) else Route_failed)"

definition revoke_by_id :: "faults \<Rightarrow> int \<Rightarrow> int \<Rightarrow> auth_principal \<Rightarrow> auth_state \<Rightarrow> token_reply \<times> auth_state" where
  "revoke_by_id F now i p st =
     (if tokens_down F then (Route_failed, st)
      else case revoke_token now i (uid (pp_user p)) (au_tokens st) of
        (ok, T) \<Rightarrow> (if ok then Token_revoked else Token_not_found, st\<lparr>au_tokens := T\<rparr>))"

definition revoke_active :: "faults \<Rightarrow> int \<Rightarrow> auth_principal \<Rightarrow> auth_state \<Rightarrow> token_reply \<times> auth_state" where
  "revoke_active F now p st =
     (case pp_token p of None \<Rightarrow> (No_token_id, st) | Some i \<Rightarrow> revoke_by_id F now i p st)"

datatype token_call =
  Mint_json "byte list" "mint_body option"
| Mint_page "byte list" bool mint_form
| List_tokens
| Revoke_active
| Revoke_id int

fun token_route :: "token_call \<Rightarrow> verb \<times> string \<times> route_config" where
  "token_route (Mint_json _ _) = (POST, ''/api/v1/me/tokens/'', \<lparr>skip_auth = False, session_only = True, required_scope = Some Admin_scope\<rparr>)"
| "token_route (Mint_page _ _ _) = (POST, ''/api/v1/me/tokens/'', \<lparr>skip_auth = False, session_only = True, required_scope = Some Admin_scope\<rparr>)"
| "token_route List_tokens = (GET, ''/api/v1/me/tokens/'', \<lparr>skip_auth = False, session_only = True, required_scope = None\<rparr>)"
| "token_route Revoke_active = (DELETE, ''/api/v1/me/tokens/active'', \<lparr>skip_auth = False, session_only = False, required_scope = Some Admin_scope\<rparr>)"
| "token_route (Revoke_id _) = (DELETE, ''/api/v1/me/tokens/:id'', \<lparr>skip_auth = False, session_only = True, required_scope = None\<rparr>)"

fun token_handler :: "auth_env \<Rightarrow> faults \<Rightarrow> int \<Rightarrow> token_call \<Rightarrow> auth_principal \<Rightarrow> auth_state \<Rightarrow> token_reply \<times> auth_state" where
  "token_handler E F now (Mint_json bytes body) p st = mint_json E F now bytes body p st"
| "token_handler E F now (Mint_page bytes csrf_ok f) p st = mint_page E F now bytes csrf_ok f p st"
| "token_handler E F now List_tokens p st = (list_tokens E F p st, st)"
| "token_handler E F now Revoke_active p st = revoke_active F now p st"
| "token_handler E F now (Revoke_id i) p st = revoke_by_id F now i p st"

definition token_request :: "auth_env \<Rightarrow> faults \<Rightarrow> int \<Rightarrow> token_call \<Rightarrow> auth_request \<Rightarrow> auth_state \<Rightarrow> token_reply \<times> auth_state" where
  "token_request E F now call rq st =
     (case token_route call of (v, url, cfg) \<Rightarrow>
        case auth_chain E F now cfg (rq\<lparr>rq_method := v, rq_url := url\<rparr>) st of
          (Refused r, st1) \<Rightarrow> (Denied r, st1)
        | (Proceed None, st1) \<Rightarrow> (Route_failed, st1)
        | (Proceed (Some p), st1) \<Rightarrow> token_handler E F now call p st1)"

end
