(* ===== verification/Auth_Laws.thy ===== *)
theory Auth_Laws
  imports Auth_Chain
begin

text \<open>
  What the authentication chain promises: which tokens are admitted, that a bound token stays
  within its project, that a revoked token is never admitted again whatever else happens to the
  tables, and that a token cannot be used to make or revoke others.
\<close>

section \<open>Which tokens are admitted\<close>

definition no_faults :: faults where
  "no_faults = \<lparr>tokens_down = False, users_down = False, tasks_down = False, db_closed = False\<rparr>"

definition pat_principal :: "auth_env \<Rightarrow> token_row \<Rightarrow> user_row \<Rightarrow> auth_principal" where
  "pat_principal E r usr =
     \<lparr>pp_user = toAuthenticatedUser usr, pp_method = By_pat, pp_token = Some (tok_id r),
      pp_scopes = Some (parse_scopes (parse_json E) (tok_scopes r)), pp_project = tok_project r\<rparr>"

definition unexpired :: "auth_env \<Rightarrow> int \<Rightarrow> token_row \<Rightarrow> bool" where
  "unexpired E now r =
     (case tok_expires r of None \<Rightarrow> True | Some t \<Rightarrow> (case parse_date E t of None \<Rightarrow> False | Some ms \<Rightarrow> now \<le> ms))"

definition live_row :: "auth_env \<Rightarrow> int \<Rightarrow> auth_state \<Rightarrow> token_row \<Rightarrow> user_row \<Rightarrow> bool" where
  "live_row E now st r usr \<longleftrightarrow>
     tok_revoked r = None \<and> unexpired E now r \<and> find_user (tok_user r) st = Some usr \<and> usr_disabled usr = None"

lemma expiry_failure_iff: "expiry_failure E now r = None \<longleftrightarrow> unexpired E now r"
  by (auto simp: expiry_failure_def unexpired_def split: option.split)

lemma row_outcome_match:
  "fst (row_outcome E F now st r) = Inr (Match p) \<longleftrightarrow>
     \<not> users_down F \<and> (\<exists>usr. live_row E now st r usr \<and> p = pat_principal E r usr)"
  by (auto simp: row_outcome_def live_row_def pat_principal_def simp flip: expiry_failure_iff split: option.splits)

lemma try_pat_match:
  "fst (try_pat E F now header st) = Inr (Match p) \<longleftrightarrow>
     (\<exists>token r usr. presented_pat header = Pat token \<and> \<not> tokens_down F \<and> \<not> users_down F \<and>
        find_by_hash (hash_token E token) (au_tokens st) = Some r \<and> live_row E now st r usr \<and> p = pat_principal E r usr)"
  by (auto simp: try_pat_def row_outcome_match split: presented.splits option.splits)

lemma try_pat_skip: "fst (try_pat E F now header st) = Inr Skip \<longleftrightarrow> presented_pat header = No_pat"
  by (auto simp: try_pat_def row_outcome_def split: presented.splits option.splits)

lemma state_frames [simp]:
  "au_tokens (log_entries es st) = au_tokens st" "au_users (log_entries es st) = au_users st"
  "au_db (log_entries es st) = au_db st"
  "au_tokens (scheduleLastUsedTouch now t st) = au_tokens st" "au_users (scheduleLastUsedTouch now t st) = au_users st"
  "au_db (scheduleLastUsedTouch now t st) = au_db st"
  by (simp_all add: log_entries_def scheduleLastUsedTouch_def split: option.split prod.split)

lemma task_owners_frame: "au_db st' = au_db st \<Longrightarrow> task_owners F st' = task_owners F st"
  by (simp add: task_owners_def fun_eq_iff)

lemma gates_frame: "au_db st' = au_db st \<Longrightarrow> gates F cfg rq p st' = gates F cfg rq p st"
  using task_owners_frame [of st' st F] by (simp add: gates_def split: option.split)

lemma gates_open_iff:
  "gates F cfg rq p st = Inr None \<longleftrightarrow>
     (session_only cfg \<longrightarrow> pp_method p = By_session) \<and>
     (case required_scope cfg of None \<Rightarrow> True | Some required \<Rightarrow> grant_satisfies_scope (pp_scopes p) required) \<and>
     (case pp_project p of None \<Rightarrow> True
      | Some b \<Rightarrow> \<exists>ts. resolveTargetProjects (Some (task_owners F st)) rq = Inr ts \<and> binding_satisfies_projects (Some b) ts)"
proof -
  have "enforceAuthorization look cfg rq p = Inr None \<longleftrightarrow>
     (case required_scope cfg of None \<Rightarrow> True | Some required \<Rightarrow> grant_satisfies_scope (pp_scopes p) required) \<and>
     enforceProjectBinding look rq p = Inr None" for look
    by (simp add: enforceAuthorization_def enforceRequiredScope_def split: option.split)
  moreover have "enforceProjectBinding look rq p = Inr None \<longleftrightarrow>
     (case pp_project p of None \<Rightarrow> True
      | Some b \<Rightarrow> \<exists>ts. resolveTargetProjects look rq = Inr ts \<and> binding_satisfies_projects (Some b) ts)" for look
    by (auto simp: enforceProjectBinding_def bind_result_Inr_iff split: option.split if_split_asm)
  ultimately show ?thesis by (auto simp: gates_def enforceSessionOnly_def)
qed

lemma admit_tokens [simp]: "au_tokens (snd (admit F cfg rq p st)) = au_tokens st"
  by (simp add: admit_def sendInternalError_def split: sum.split option.split)

lemma send_tokens [simp]:
  "au_tokens (snd (sendInternalError st)) = au_tokens st" "au_tokens (snd (sendUnauthorized s r st)) = au_tokens st"
  "fst (sendInternalError st) = Refused Internal_error" "fst (sendUnauthorized s r st) = Refused Unauthorized"
  by (simp_all add: sendInternalError_def sendUnauthorized_def)

lemma session_tokens [simp]: "au_tokens (snd (session_step F cfg rq st)) = au_tokens st"
proof -
  obtain outcome es where t: "try_session F (rq_session rq) st = (outcome, es)" by (cases "try_session F (rq_session rq) st")
  then show ?thesis by (simp add: session_step_def Let_def split: sum.split strategy_outcome.split)
qed

lemma chain_tokens [simp]: "au_tokens (snd (auth_chain E F now cfg rq st)) = au_tokens st"
proof -
  obtain outcome es where t: "try_pat E F now (rq_authorization rq) st = (outcome, es)"
    by (cases "try_pat E F now (rq_authorization rq) st")
  then show ?thesis by (simp add: auth_chain_def Let_def split: sum.split strategy_outcome.split)
qed

lemma admit_proceeds:
  "fst (admit F cfg rq p st) = Proceed (Some q) \<longleftrightarrow> q = p \<and> gates F cfg rq p st = Inr None"
  by (auto simp: admit_def sendInternalError_def split: sum.split option.split)

lemma try_session_match:
  "fst (try_session F s st) = Inr (Match p) \<Longrightarrow> pp_method p = By_session \<and> pp_token p = None \<and> pp_project p = None"
  by (auto simp: try_session_def split: auth_session.splits option.splits if_splits)

lemma session_step_proceeds:
  assumes "fst (session_step F cfg rq st) = Proceed (Some p)"
  shows "gates F cfg (route_request.truncate rq) p st = Inr None \<and> pp_method p = By_session \<and> pp_token p = None \<and> pp_project p = None"
proof -
  obtain outcome es where t: "try_session F (rq_session rq) st = (outcome, es)" by (cases "try_session F (rq_session rq) st")
  then obtain q where "outcome = Inr (Match q)" "fst (admit F cfg (route_request.truncate rq) q (log_entries es st)) = Proceed (Some p)"
    using assms by (simp add: session_step_def Let_def split: sum.splits strategy_outcome.splits)
  with t show ?thesis using try_session_match [of F "rq_session rq" st q] by (simp add: admit_proceeds gates_frame [of "log_entries es st" st])
qed

text \<open>A presented token decides alone; without one the session does.\<close>

lemma chain_proceeds:
  assumes "fst (auth_chain E F now cfg rq st) = Proceed (Some p)"
  shows "gates F cfg (route_request.truncate rq) p st = Inr None \<and>
     (fst (try_pat E F now (rq_authorization rq) st) = Inr (Match p) \<or>
      presented_pat (rq_authorization rq) = No_pat \<and> pp_method p = By_session \<and> pp_token p = None \<and> pp_project p = None)"
proof -
  obtain outcome es where t: "try_pat E F now (rq_authorization rq) st = (outcome, es)"
    by (cases "try_pat E F now (rq_authorization rq) st")
  have live: "\<not> skip_auth cfg" using assms by (auto simp: auth_chain_def)
  let ?st = "\<lambda>q. scheduleLastUsedTouch now (pp_token q) (log_entries es st)"
  consider q where "outcome = Inr (Match q)" "fst (admit F cfg (route_request.truncate rq) q (?st q)) = Proceed (Some p)"
    | "outcome = Inr Skip" "fst (session_step F cfg rq (log_entries es st)) = Proceed (Some p)"
    using assms t live by (simp add: auth_chain_def Let_def split: sum.splits strategy_outcome.splits)
  then show ?thesis
  proof cases
    case 1
    with t show ?thesis by (simp add: admit_proceeds gates_frame [of "?st q" st])
  next
    case 2
    with t try_pat_skip [of E F now "rq_authorization rq" st] session_step_proceeds [OF 2(2)]
    show ?thesis by (simp add: gates_frame [of "log_entries es st" st])
  qed
qed

text \<open>
  C18.  On a database that answers, a request that presents a well-formed token is let through
  exactly if the token's row exists, is neither revoked nor expired, belongs to a user who is not
  disabled, and the route is open to tokens, asks for no more than the token's scopes and, when
  the token is bound to a project, touches that project only; the session is never asked.
\<close>

theorem pat_is_admitted_iff:
  assumes "presented_pat (rq_authorization rq) = Pat token" "\<not> skip_auth cfg"
  shows "fst (auth_chain E no_faults now cfg rq st) = Proceed (Some p) \<longleftrightarrow>
    (\<exists>r usr. find_by_hash (hash_token E token) (au_tokens st) = Some r \<and> live_row E now st r usr \<and>
       p = pat_principal E r usr \<and> \<not> session_only cfg \<and>
       (case required_scope cfg of None \<Rightarrow> True
        | Some required \<Rightarrow> grant_satisfies_scope (Some (parse_scopes (parse_json E) (tok_scopes r))) required) \<and>
       (case tok_project r of None \<Rightarrow> True
        | Some b \<Rightarrow> \<exists>ts. resolveTargetProjects (Some (findProjectIdForTask (au_db st))) (route_request.truncate rq) = Inr ts \<and>
            binding_satisfies_projects (Some b) ts))"
proof -
  obtain outcome es where t: "try_pat E no_faults now (rq_authorization rq) st = (outcome, es)"
    by (cases "try_pat E no_faults now (rq_authorization rq) st")
  have owners: "task_owners no_faults st = findProjectIdForTask (au_db st)"
    by (simp add: task_owners_def no_faults_def fun_eq_iff)
  have gate: "gates no_faults cfg rq' (pat_principal E r usr) st = Inr None \<longleftrightarrow> \<not> session_only cfg \<and>
       (case required_scope cfg of None \<Rightarrow> True
        | Some required \<Rightarrow> grant_satisfies_scope (Some (parse_scopes (parse_json E) (tok_scopes r))) required) \<and>
       (case tok_project r of None \<Rightarrow> True
        | Some b \<Rightarrow> \<exists>ts. resolveTargetProjects (Some (findProjectIdForTask (au_db st))) rq' = Inr ts \<and>
            binding_satisfies_projects (Some b) ts)" for rq' r usr
    by (simp add: gates_open_iff pat_principal_def owners cong: option.case_cong)
  have "outcome \<noteq> Inr Skip" using t try_pat_skip [of E no_faults now "rq_authorization rq" st] assms(1) by auto
  then consider q where "outcome = Inr (Match q)" | e where "outcome = Inl e" | r where "outcome = Inr (Fail r)"
    by (metis old.sum.exhaust strategy_outcome.exhaust)
  then have "fst (auth_chain E no_faults now cfg rq st) = Proceed (Some p) \<longleftrightarrow>
      outcome = Inr (Match p) \<and> gates no_faults cfg (route_request.truncate rq) p st = Inr None"
  proof cases
    case (1 q)
    with assms(2) t gates_frame [of "scheduleLastUsedTouch now (pp_token q) (log_entries es st)" st]
    show ?thesis by (auto simp: auth_chain_def admit_proceeds)
  qed (use assms(2) t in \<open>simp_all add: auth_chain_def\<close>)
  also have "outcome = Inr (Match p) \<longleftrightarrow>
      (\<exists>r usr. find_by_hash (hash_token E token) (au_tokens st) = Some r \<and> live_row E now st r usr \<and> p = pat_principal E r usr)"
    using try_pat_match [of E no_faults now "rq_authorization rq" st p] t assms(1) by (simp add: no_faults_def)
  also have "(\<exists>r usr. find_by_hash (hash_token E token) (au_tokens st) = Some r \<and> live_row E now st r usr \<and> p = pat_principal E r usr)
      \<and> gates no_faults cfg (route_request.truncate rq) p st = Inr None \<longleftrightarrow>
     (\<exists>r usr. find_by_hash (hash_token E token) (au_tokens st) = Some r \<and> live_row E now st r usr \<and> p = pat_principal E r usr
        \<and> gates no_faults cfg (route_request.truncate rq) (pat_principal E r usr) st = Inr None)"
    by blast
  finally show ?thesis by (simp only: gate)
qed


definition sample_env_auth :: auth_env where
  "sample_env_auth = \<lparr>parse_json = (\<lambda>s. Some (JArr [])), stringify_scopes = (\<lambda>ss. u ''[]''), hash_token = id,
     parse_date = (\<lambda>s. None), date_to_iso = (\<lambda>n. []), is_datetime = (\<lambda>s. False), parse_number = (\<lambda>s. None)\<rparr>"

definition sample_secret :: utext where
  "sample_secret = u (PAT_PREFIX @ replicate 32 (CHR ''A''))"

definition sample_token :: token_row where
  "sample_token = \<lparr>tok_id = 1, tok_user = 7, tok_name = u ''ci'', tok_prefix = u PAT_PREFIX, tok_suffix = u ''AAAA'',
     tok_hash = sample_secret, tok_scopes = u ''[]'', tok_created = 0, tok_last_used = None, tok_revoked = None,
     tok_expires = None, tok_project = Some 3\<rparr>"

definition sample_user :: user_row where
  "sample_user = \<lparr>usr_id = 7, usr_display = u ''Ann'', usr_email = None, usr_legacy = 0, usr_service = 0, usr_disabled = None\<rparr>"

definition empty_db :: db where
  "empty_db = \<lparr>tasks = [], next_task_id = 1, projects = [], deps = [], next_dep_id = 1, history = []\<rparr>"

definition sample_auth_state :: auth_state where
  "sample_auth_state = \<lparr>au_tokens = \<lparr>tokens = [sample_token], next_token = 2\<rparr>, au_users = [sample_user], au_db = empty_db,
     au_cache = [], au_touches = [], au_log = []\<rparr>"

definition sample_topology_request :: "rat \<Rightarrow> auth_request" where
  "sample_topology_request i = \<lparr>rq_method = GET, rq_url = ''/api/v1/projects/:id/topology'',
     rq_params = Some (JObj [(u ''id'', JNum i)]), rq_query = None, rq_body = None,
     rq_authorization = Some (u ''Bearer '' @ sample_secret), rq_session = No_backend\<rparr>"

definition open_route :: route_config where
  "open_route = \<lparr>skip_auth = False, session_only = False, required_scope = Some Read_scope\<rparr>"

lemma sample_live: "live_row sample_env_auth 0 sample_auth_state sample_token sample_user"
  by (simp add: live_row_def unexpired_def sample_token_def sample_user_def sample_auth_state_def find_user_def)

lemma sample_presented: "presented_pat (rq_authorization (sample_topology_request i)) = Pat sample_secret"
  by (simp add: sample_topology_request_def) code_simp

lemma sample_found: "find_by_hash (hash_token sample_env_auth sample_secret) (au_tokens sample_auth_state) = Some sample_token"
  by (simp add: find_by_hash_def sample_auth_state_def sample_env_auth_def sample_token_def)

lemma sample_targets:
  "resolveTargetProjects look (route_request.truncate (sample_topology_request 3)) = Inr (Some [3])"
proof -
  have "findBindingRule GET ''/api/v1/projects/:id/topology'' = Some (Resolve_rule [Project_param ''id''])" by code_simp
  moreover have "to_positive_int (Some (JNum 3)) = Some 3" by code_simp
  ultimately show ?thesis
    by (simp add: resolveTargetProjects_def sample_topology_request_def route_request.truncate_def field_def one_target_def)
qed

theorem pat_is_admitted_iff_witness:
  "fst (auth_chain sample_env_auth no_faults 0 open_route (sample_topology_request 3) sample_auth_state) =
     Proceed (Some (pat_principal sample_env_auth sample_token sample_user))"
proof -
  have "\<exists>r usr. find_by_hash (hash_token sample_env_auth sample_secret) (au_tokens sample_auth_state) = Some r \<and>
      live_row sample_env_auth 0 sample_auth_state r usr \<and>
      pat_principal sample_env_auth sample_token sample_user = pat_principal sample_env_auth r usr \<and> \<not> session_only open_route \<and>
      (case required_scope open_route of None \<Rightarrow> True
       | Some required \<Rightarrow> grant_satisfies_scope (Some (parse_scopes (parse_json sample_env_auth) (tok_scopes r))) required) \<and>
      (case tok_project r of None \<Rightarrow> True
       | Some b \<Rightarrow> \<exists>ts. resolveTargetProjects (Some (findProjectIdForTask (au_db sample_auth_state)))
           (route_request.truncate (sample_topology_request 3)) = Inr ts \<and> binding_satisfies_projects (Some b) ts)"
    using sample_live sample_found sample_targets
    by (intro exI [of _ sample_token] exI [of _ sample_user])
      (simp add: open_route_def grant_satisfies_scope_def parse_scopes_def sample_env_auth_def sample_token_def
        binding_satisfies_projects_def)
  with pat_is_admitted_iff [OF sample_presented, of open_route sample_env_auth 0 3 sample_auth_state]
  show ?thesis by (simp add: open_route_def)
qed

section \<open>Bound tokens\<close>

text \<open>
  C5.  A principal that a token bound to a project stands for gets through only to routes that are
  open to tokens, and only if every place of the route's path, query and body that holds the id
  of a project or of a task leads to that project, but for two that no rule covers: the task a
  model is resolved for, and the tasks of a rescore (a third, the project of a new token, is on a
  route for sessions only).  What those two name is left to the services, which refuse a task of
  another project (\<open>resolve_model_checks_its_arguments\<close>, \<open>foreign_tasks_are_not_rescored\<close>).
\<close>

theorem bound_token_stays_in_its_project:
  assumes "fst (auth_chain E F now cfg rq st) = Proceed (Some p)" "pp_project p = Some b"
  shows "\<not> session_only cfg \<and> places_within b (Some (task_owners F st)) (route_request.truncate rq)
    (gated_places (rq_method rq) (normalizeRouteUrl (rq_url rq)))"
proof -
  have "pp_method p = By_pat" using chain_proceeds [OF assms(1)] assms(2) by (auto simp: try_pat_match pat_principal_def)
  have "gates F cfg (route_request.truncate rq) p st = Inr None" using chain_proceeds [OF assms(1)] by simp
  then obtain ts where "resolveTargetProjects (Some (task_owners F st)) (route_request.truncate rq) = Inr ts"
    "binding_satisfies_projects (Some b) ts"
    using assms(2) by (auto simp: gates_open_iff)
  then obtain qs where "resolveTargetProjects (Some (task_owners F st)) (route_request.truncate rq) = Inr (Some qs)"
    "list_all (\<lambda>q. q = b) qs"
    by (auto simp: binding_satisfies_projects_def split: option.splits)
  from resolved_within [OF this] show ?thesis
    using \<open>gates F cfg (route_request.truncate rq) p st = Inr None\<close> \<open>pp_method p = By_pat\<close>
    by (simp add: route_request.truncate_def gates_open_iff)
qed

theorem bound_token_stays_in_its_project_witness:
  "places_within 3 (Some (task_owners no_faults sample_auth_state)) (route_request.truncate (sample_topology_request 3))
     (gated_places GET ''/api/v1/projects/:id/topology'') \<and>
   gated_places GET ''/api/v1/projects/:id/topology'' = [Path_project ''id'']"
proof -
  let ?p = "pat_principal sample_env_auth sample_token sample_user"
  have "try_pat sample_env_auth no_faults 0 (rq_authorization (sample_topology_request 3)) sample_auth_state = (Inr (Match ?p), [])"
    using sample_presented sample_found by (simp add: try_pat_def no_faults_def row_outcome_def)
      (simp add: sample_token_def sample_user_def sample_auth_state_def find_user_def expiry_failure_def pat_principal_def)
  moreover have "gates no_faults open_route (route_request.truncate (sample_topology_request 3)) ?p st = Inr None" for st
    by (simp add: gates_open_iff open_route_def sample_targets pat_principal_def sample_token_def binding_satisfies_projects_def
        grant_satisfies_scope_def parse_scopes_def sample_env_auth_def)
  ultimately have "fst (auth_chain sample_env_auth no_faults 0 open_route (sample_topology_request 3) sample_auth_state) = Proceed (Some ?p)"
    by (simp add: auth_chain_def admit_proceeds open_route_def)
  moreover have "gated_places GET ''/api/v1/projects/:id/topology'' = [Path_project ''id'']" by code_simp
  ultimately show ?thesis using bound_token_stays_in_its_project [of sample_env_auth no_faults 0 open_route
      "sample_topology_request 3" sample_auth_state ?p 3]
    by (simp add: pat_principal_def sample_token_def sample_topology_request_def normalizeRouteUrl_def)
qed


section \<open>Histories\<close>

text \<open>
  What happens to the tables: requests to any route, requests to the routes over tokens, the
  deferred writes, tokens minted by the command line and the device flow, changes to users and
  tasks, and the cascade that deletes a token with its user or its project.
\<close>

datatype auth_op =
  Route_op faults int route_config auth_request
| Token_op faults int token_call auth_request
| Touch_op faults int
| Mint_op int token_input
| Users_op "user_row list"
| Tasks_op db
| Gone_op int

definition table_op :: "(token_table \<Rightarrow> token_table) \<Rightarrow> auth_state \<Rightarrow> auth_state" where
  "table_op f st = st\<lparr>au_tokens := f (au_tokens st)\<rparr>"

fun auth_step :: "auth_env \<Rightarrow> auth_state \<Rightarrow> auth_op \<Rightarrow> auth_state" where
  "auth_step E st (Route_op F now cfg rq) = snd (auth_chain E F now cfg rq st)"
| "auth_step E st (Token_op F now call rq) = snd (token_request E F now call rq st)"
| "auth_step E st (Touch_op F now) = run_touch F now st"
| "auth_step E st (Mint_op now ti) =
     (case insert_token (parse_json E) (\<lambda>i. find_user i st \<noteq> None) (\<lambda>p. find_project (au_db st) p \<noteq> None) now ti (au_tokens st) of
        Inl _ \<Rightarrow> st | Inr (r, T) \<Rightarrow> st\<lparr>au_tokens := T\<rparr>)"
| "auth_step E st (Users_op us) = st\<lparr>au_users := us\<rparr>"
| "auth_step E st (Tasks_op d) = st\<lparr>au_db := d\<rparr>"
| "auth_step E st (Gone_op i) = table_op (\<lambda>T. T\<lparr>tokens := filter (\<lambda>r. tok_id r \<noteq> i) (tokens T)\<rparr>) st"

definition auth_run :: "auth_env \<Rightarrow> auth_op list \<Rightarrow> auth_state \<Rightarrow> auth_state" where
  "auth_run E ops st = foldl (auth_step E) st ops"

definition auth_init :: "user_row list \<Rightarrow> db \<Rightarrow> auth_state" where
  "auth_init us d = \<lparr>au_tokens = \<lparr>tokens = [], next_token = 1\<rparr>, au_users = us, au_db = d, au_cache = [], au_touches = [], au_log = []\<rparr>"

text \<open>The principals a history lets through.\<close>

definition let_through :: "decision \<Rightarrow> auth_principal list" where
  "let_through d = (case d of Proceed (Some p) \<Rightarrow> [p] | _ \<Rightarrow> [])"

definition token_call_request :: "token_call \<Rightarrow> auth_request \<Rightarrow> auth_request" where
  "token_call_request call rq = (case token_route call of (v, url, cfg) \<Rightarrow> rq\<lparr>rq_method := v, rq_url := url\<rparr>)"

definition token_call_config :: "token_call \<Rightarrow> route_config" where
  "token_call_config call = snd (snd (token_route call))"

fun admitted_by :: "auth_env \<Rightarrow> auth_state \<Rightarrow> auth_op \<Rightarrow> auth_principal list" where
  "admitted_by E st (Route_op F now cfg rq) = let_through (fst (auth_chain E F now cfg rq st))"
| "admitted_by E st (Token_op F now call rq) =
     let_through (fst (auth_chain E F now (token_call_config call) (token_call_request call rq) st))"
| "admitted_by E st _ = []"

fun admissions :: "auth_env \<Rightarrow> auth_op list \<Rightarrow> auth_state \<Rightarrow> auth_principal list" where
  "admissions E [] st = []"
| "admissions E (op # ops) st = admitted_by E st op @ admissions E ops (auth_step E st op)"

text \<open>A dead token was given out once and has no row that is not revoked.\<close>

definition token_dead :: "int \<Rightarrow> token_table \<Rightarrow> bool" where
  "token_dead i T \<longleftrightarrow> i < next_token T \<and> list_all (\<lambda>r. tok_id r = i \<longrightarrow> tok_revoked r \<noteq> None) (tokens T)"

definition ids_ok :: "token_table \<Rightarrow> bool" where
  "ids_ok T \<longleftrightarrow> distinct (map tok_id (tokens T)) \<and> list_all (\<lambda>i. i < next_token T) (map tok_id (tokens T))"

lemma insert_token_Inr:
  "insert_token parse ue pe now ti T = Inr (r, T') \<Longrightarrow>
     tok_id r = next_token T \<and> T' = T\<lparr>tokens := tokens T @ [r], next_token := next_token T + 1\<rparr>"
  by (auto simp: insert_token_def Let_def split: if_splits)

lemma dead_inserted: "token_dead i T \<Longrightarrow> tok_id r = next_token T \<Longrightarrow>
    token_dead i (T\<lparr>tokens := tokens T @ [r], next_token := next_token T + 1\<rparr>)"
  by (auto simp: token_dead_def)

lemma dead_revoked: "token_dead i T \<Longrightarrow> token_dead i (snd (revoke_token now j usr T))"
  by (auto simp: token_dead_def revoke_token_def Let_def list_all_iff)

lemma dead_touched: "token_dead i T \<Longrightarrow> token_dead i (touch_last_used now j T)"
  by (auto simp: token_dead_def touch_last_used_def list_all_iff)

lemma ids_inserted: "ids_ok T \<Longrightarrow> tok_id r = next_token T \<Longrightarrow>
    ids_ok (T\<lparr>tokens := tokens T @ [r], next_token := next_token T + 1\<rparr>)"
  by (auto simp: ids_ok_def list_all_iff)

lemma ids_revoked: "ids_ok T \<Longrightarrow> ids_ok (snd (revoke_token now j usr T))"
proof -
  have "map tok_id (tokens (snd (revoke_token now j usr T))) = map tok_id (tokens T)"
    by (simp add: revoke_token_def Let_def)
  moreover have "next_token (snd (revoke_token now j usr T)) = next_token T" by (simp add: revoke_token_def Let_def)
  ultimately show "ids_ok T \<Longrightarrow> ids_ok (snd (revoke_token now j usr T))" by (simp only: ids_ok_def)
qed

lemma ids_touched: "ids_ok T \<Longrightarrow> ids_ok (touch_last_used now j T)"
proof -
  have "map tok_id (tokens (touch_last_used now j T)) = map tok_id (tokens T)"
    by (simp add: touch_last_used_def)
  moreover have "next_token (touch_last_used now j T) = next_token T" by (simp add: touch_last_used_def)
  ultimately show "ids_ok T \<Longrightarrow> ids_ok (touch_last_used now j T)" by (simp only: ids_ok_def)
qed

lemma mint_page_state:
  "snd (mint_page E F now bytes ok f p st) = st \<or>
     (\<exists>b. snd (mint_page E F now bytes ok f p st) = snd (insert_minted E F now bytes b (pp_user p) st))"
proof -
  have stored: "snd (case insert_minted E F now bytes b (pp_user p) st of
      (None, st1) \<Rightarrow> (Route_failed, st1) | (Some (r, token), st1) \<Rightarrow> (Minted_page (tok_id r) token, st1)) =
      snd (insert_minted E F now bytes b (pp_user p) st)" for b
    by (simp split: prod.split option.split)
  show ?thesis
    by (cases "form_body E f") (auto simp: mint_page_def stored)
qed

lemma dead_gone: "token_dead i T \<Longrightarrow> token_dead i (T\<lparr>tokens := filter (\<lambda>r. tok_id r \<noteq> j) (tokens T)\<rparr>)"
  by (auto simp: token_dead_def list_all_iff)

lemma ids_gone: "ids_ok T \<Longrightarrow> ids_ok (T\<lparr>tokens := filter (\<lambda>r. tok_id r \<noteq> j) (tokens T)\<rparr>)"
  by (auto simp: ids_ok_def list_all_iff distinct_map_filter)

text \<open>A property of the table that the four statements keep is kept by every step.\<close>

locale kept_by_statements =
  fixes Q :: "token_table \<Rightarrow> bool"
  assumes kept_insert: "Q T \<Longrightarrow> tok_id r = next_token T \<Longrightarrow> Q (T\<lparr>tokens := tokens T @ [r], next_token := next_token T + 1\<rparr>)"
    and kept_revoke: "Q T \<Longrightarrow> Q (snd (revoke_token now j usr T))"
    and kept_touch: "Q T \<Longrightarrow> Q (touch_last_used now j T)"
    and kept_gone: "Q T \<Longrightarrow> Q (T\<lparr>tokens := filter (\<lambda>r. tok_id r \<noteq> j) (tokens T)\<rparr>)"
begin

lemma kept_mint: "Q (au_tokens st) \<Longrightarrow> Q (au_tokens (snd (insert_minted E F now bytes b usr st)))"
  using kept_insert by (auto simp: insert_minted_def Let_def dest: insert_token_Inr split: sum.split prod.split)

lemma kept_json: "Q (au_tokens st) \<Longrightarrow> Q (au_tokens (snd (mint_json E F now bytes body p st)))"
  using kept_mint [of st E F now bytes "the body" "pp_user p"]
  by (auto simp: mint_json_def Let_def split: option.split prod.split)

lemma kept_page: "Q (au_tokens st) \<Longrightarrow> Q (au_tokens (snd (mint_page E F now bytes ok f p st)))"
  using kept_mint mint_page_state [of E F now bytes ok f p st] by metis

lemma kept_revoke_id: "Q (au_tokens st) \<Longrightarrow> Q (au_tokens (snd (revoke_by_id F now i p st)))"
  using kept_revoke [of "au_tokens st" now i "uid (pp_user p)"] by (simp add: revoke_by_id_def case_prod_unfold)

lemma kept_handler: "Q (au_tokens st) \<Longrightarrow> Q (au_tokens (snd (token_handler E F now call p st)))"
  using kept_json kept_page kept_revoke_id by (cases call) (auto simp: revoke_active_def split: option.split)

lemma kept_request:
  assumes "Q (au_tokens st)"
  shows "Q (au_tokens (snd (token_request E F now call rq st)))"
proof -
  obtain v url cfg where r: "token_route call = (v, url, cfg)" by (cases "token_route call")
  obtain d st1 where c: "auth_chain E F now cfg (rq\<lparr>rq_method := v, rq_url := url\<rparr>) st = (d, st1)"
    by (cases "auth_chain E F now cfg (rq\<lparr>rq_method := v, rq_url := url\<rparr>) st")
  have "au_tokens st1 = au_tokens st" using c chain_tokens by (metis snd_conv)
  with assms kept_handler r c show ?thesis
    by (auto simp: token_request_def split: decision.split option.split)
qed

lemma kept_step: "Q (au_tokens st) \<Longrightarrow> Q (au_tokens (auth_step E st op))"
  using kept_request kept_insert kept_touch kept_gone
  by (cases op) (auto simp: run_touch_def Let_def table_op_def dest: insert_token_Inr split: list.split sum.split prod.split)

lemma kept_run: "Q (au_tokens st) \<Longrightarrow> Q (au_tokens (auth_run E ops st))"
  by (induction ops arbitrary: st) (simp_all add: auth_run_def kept_step)

end

interpretation dead: kept_by_statements "token_dead i" for i
  by unfold_locales (rule dead_inserted dead_revoked dead_touched dead_gone; assumption)+

interpretation ids: kept_by_statements ids_ok
  by unfold_locales (rule ids_inserted ids_revoked ids_touched ids_gone; assumption)+


section \<open>Revoked tokens\<close>

lemma admitted_token_alive:
  assumes "fst (auth_chain E F now cfg rq st) = Proceed (Some p)" "pp_token p = Some i"
  shows "\<not> token_dead i (au_tokens st)"
proof -
  from chain_proceeds [OF assms(1)] assms(2) obtain token r usr where
    "find_by_hash (hash_token E token) (au_tokens st) = Some r" "live_row E now st r usr" "p = pat_principal E r usr"
    by (auto simp: try_pat_match)
  then have "r \<in> set (tokens (au_tokens st))" "tok_id r = i" "tok_revoked r = None"
    using assms(2) by (auto simp: find_by_hash_def find_Some_iff pat_principal_def live_row_def)
  then show ?thesis by (auto simp: token_dead_def list_all_iff)
qed

lemma dead_not_admitted: "token_dead i (au_tokens st) \<Longrightarrow> p \<in> set (admitted_by E st op) \<Longrightarrow> pp_token p \<noteq> Some i"
  by (cases op) (auto simp: let_through_def dest!: sym [of "Proceed _"] dest: admitted_token_alive split: decision.splits option.splits)

lemma dead_stay_out:
  "token_dead i (au_tokens st) \<Longrightarrow> list_all (\<lambda>p. pp_token p \<noteq> Some i) (admissions E ops st)"
proof (induction ops arbitrary: st)
  case (Cons op ops)
  from Cons.IH [OF dead.kept_step [OF Cons.prems]] dead_not_admitted [OF Cons.prems]
  show ?case by (auto simp: list_all_iff)
qed simp

lemma run_ids_ok: "ids_ok (au_tokens (auth_run E ops (auth_init us d)))"
  by (rule ids.kept_run) (simp add: auth_init_def ids_ok_def)

lemma revoked_dead:
  assumes "ids_ok T" "r \<in> set (tokens T)" "tok_revoked r \<noteq> None"
  shows "token_dead (tok_id r) T"
  using assms by (auto simp: ids_ok_def token_dead_def list_all_iff distinct_map dest: inj_onD)

text \<open>
  C6.  Once a row says revoked, no later request is let through for its token: not when the row is
  deleted, not when other tokens are minted, whatever becomes of users and tasks and whatever the
  clock shows.
\<close>

theorem revoked_tokens_stay_out:
  "let st = auth_run E earlier (auth_init us d)
   in list_all (\<lambda>r. list_all (\<lambda>p. pp_token p \<noteq> Some (tok_id r)) (admissions E later st))
        (filter (\<lambda>r. tok_revoked r \<noteq> None) (tokens (au_tokens st)))"
proof -
  let ?st = "auth_run E earlier (auth_init us d)"
  have "list_all (\<lambda>p. pp_token p \<noteq> Some (tok_id r)) (admissions E later ?st)"
    if "r \<in> set (tokens (au_tokens ?st))" "tok_revoked r \<noteq> None" for r
    using that by (intro dead_stay_out revoked_dead run_ids_ok)
  then show ?thesis by (simp add: Let_def list_all_iff)
qed

section \<open>Tokens and their siblings\<close>

lemma pat_request_admits:
  assumes "presented_pat (rq_authorization rq) \<noteq> No_pat"
    "fst (auth_chain E F now cfg rq st) = Proceed (Some p)"
  shows "\<not> session_only cfg \<and> (\<exists>token r usr. presented_pat (rq_authorization rq) = Pat token \<and>
      find_by_hash (hash_token E token) (au_tokens st) = Some r \<and> p = pat_principal E r usr)"
  using chain_proceeds [OF assms(2)] assms(1) by (auto simp: try_pat_match gates_open_iff pat_principal_def)

lemma revoke_own_row:
  assumes "ids_ok T" "r \<in> set (tokens T)"
  shows "list_all2 (\<lambda>a b. b = a \<or> a = r \<and> b = r\<lparr>tok_revoked := Some (now div 1000)\<rparr>)
     (tokens T) (tokens (snd (revoke_token now (tok_id r) usr T)))"
proof -
  have "a = r" if "a \<in> set (tokens T)" "tok_id a = tok_id r" for a
    using assms that by (auto simp: ids_ok_def distinct_map dest: inj_onD)
  then have "\<forall>a\<in>set (tokens T). tok_id a = tok_id r \<longrightarrow> a = r" by blast
  then show ?thesis by (simp add: revoke_token_def Let_def list.rel_map list_all2_same) fastforce
qed

text \<open>
  C19.  A request that presents a token cannot mint, list or revoke others through the routes over
  tokens: of all rows it can at most revoke the one it was admitted with, and only by the call
  made for that.
\<close>

theorem tokens_cannot_touch_siblings:
  assumes "ids_ok (au_tokens st)" "presented_pat (rq_authorization rq) \<noteq> No_pat"
  shows "list_all2 (\<lambda>a b. b = a \<or> call = Revoke_active \<and>
            (\<exists>token. presented_pat (rq_authorization rq) = Pat token \<and> find_by_hash (hash_token E token) (au_tokens st) = Some a) \<and>
            b = a\<lparr>tok_revoked := Some (now div 1000)\<rparr>)
          (tokens (au_tokens st)) (tokens (au_tokens (snd (token_request E F now call rq st))))"
proof -
  obtain v url cfg where route: "token_route call = (v, url, cfg)" by (cases "token_route call")
  let ?rq = "rq\<lparr>rq_method := v, rq_url := url\<rparr>"
  obtain d st1 where c: "auth_chain E F now cfg ?rq st = (d, st1)" by (cases "auth_chain E F now cfg ?rq st")
  have same: "au_tokens st1 = au_tokens st" using c chain_tokens by (metis snd_conv)
  show ?thesis
  proof (cases "\<exists>p. d = Proceed (Some p)")
    case False
    then have "snd (token_request E F now call rq st) = st1"
      using route c by (auto simp: token_request_def split: decision.split option.split)
    then show ?thesis by (simp add: same list_all2_refl)
  next
    case True
    then obtain p where p: "d = Proceed (Some p)" by blast
    with pat_request_admits [of ?rq E F now cfg st p] assms(2) c obtain token r usr where
      a: "\<not> session_only cfg" "presented_pat (rq_authorization rq) = Pat token"
      "find_by_hash (hash_token E token) (au_tokens st) = Some r" "p = pat_principal E r usr"
      by auto
    have call: "call = Revoke_active" using a(1) route by (cases call) auto
    have r: "r \<in> set (tokens (au_tokens st))" using a(3) by (auto simp: find_by_hash_def find_Some_iff)
    have end_state: "snd (token_request E F now call rq st) = snd (revoke_by_id F now (tok_id r) p st1)"
      using route c p call a(4) by (simp add: token_request_def revoke_active_def pat_principal_def)
    show ?thesis
    proof (cases "tokens_down F")
      case True
      then show ?thesis unfolding end_state by (simp add: revoke_by_id_def same list_all2_refl)
    next
      case False
      then have "tokens (au_tokens (snd (revoke_by_id F now (tok_id r) p st1))) =
          tokens (snd (revoke_token now (tok_id r) (uid (pp_user p)) (au_tokens st)))"
        by (simp add: revoke_by_id_def case_prod_unfold same)
      then show ?thesis unfolding end_state
        by (simp only:) (rule list_all2_mono [OF revoke_own_row [OF assms(1) r]], use call a in auto)
    qed
  qed
qed

theorem tokens_cannot_touch_siblings_witness:
  "list_all2 (\<lambda>a b. b = a \<or> List_tokens = Revoke_active \<and>
      (\<exists>token. presented_pat (rq_authorization (sample_topology_request 3)) = Pat token \<and>
         find_by_hash (hash_token sample_env_auth token) (au_tokens sample_auth_state) = Some a) \<and> b = a\<lparr>tok_revoked := Some 0\<rparr>)
    [sample_token] (tokens (au_tokens (snd (token_request sample_env_auth no_faults 0 List_tokens (sample_topology_request 3) sample_auth_state))))"
proof -
  have "ids_ok (au_tokens sample_auth_state)" by (simp add: ids_ok_def sample_auth_state_def sample_token_def)
  from tokens_cannot_touch_siblings [OF this, of "sample_topology_request 3" List_tokens sample_env_auth 0 no_faults]
  show ?thesis using sample_presented [of 3] by (simp add: sample_auth_state_def)
qed


text \<open>
  The repository accepts a nested array where the chain reads no scope at all, and a token
  without scopes may do everything.
\<close>

lemma nested_scope_grants_everything:
  assumes "parse txt = Some (JArr [JArr [JStr (u ''read'')]])"
  shows "assert_known_scopes parse txt \<and> grant_satisfies_scope (Some (parse_scopes parse txt)) Admin_scope"
  using assms by (simp add: assert_known_scopes_def is_pat_scope_def PAT_SCOPES_def parse_scopes_def grant_satisfies_scope_def)

end
