(* ===== verification/Device_Flow.thy ===== *)
theory Device_Flow
  imports Auth_Laws
begin

text \<open>
  Signing a command line in (\<open>services/device-flow-store.ts\<close> and the routes
  \<open>api/routes/auth/device-code.ts\<close>, \<open>device-html.ts\<close>, \<open>device-token.ts\<close>): the two maps of
  sessions, the codes, the approval in the browser and the polling of the client.  Random bytes
  are arguments; the cross-site token of the page is a flag.
\<close>

section \<open>Sessions\<close>

definition SESSION_TTL_MS :: int where
  "SESSION_TTL_MS = 600000"

definition USER_CODE_ALPHABET :: utext where
  "USER_CODE_ALPHABET = u ''ABCDEFGHJKMNPQRSTUVWXYZ23456789''"

datatype device_status = Device_pending | Device_approved | Device_denied | Device_expired

record device_session =
  ds_device :: utext
  ds_user_code :: utext
  ds_hostname :: utext
  ds_client :: utext
  ds_created :: int
  ds_expires :: int
  ds_interval :: int
  ds_last_poll :: int
  ds_status :: device_status
  ds_approver :: "int option"
  ds_token_id :: "int option"
  ds_token :: "utext option"

record device_store =
  by_device :: "(utext, device_session) jsmap"
  by_user :: "(utext, utext) jsmap"

section \<open>Codes\<close>

text \<open>
  The loop asks for sixteen bytes at a time until it has eight symbols.  The supply is the blocks
  it will be given, and none is left over when the answer is \<open>None\<close>.
\<close>

definition code_symbols :: "nat list \<Rightarrow> utext" where
  "code_symbols block = map (\<lambda>b. USER_CODE_ALPHABET ! (b mod 31)) (filter (\<lambda>b. b < 248) block)"

fun generateUserCode :: "utext \<Rightarrow> nat list list \<Rightarrow> (utext \<times> nat list list) option" where
  "generateUserCode out [] = (if length out < 8 then None else Some (out, []))"
| "generateUserCode out (block # blocks) =
     (if length out < 8 then generateUserCode (take 8 (out @ code_symbols block)) blocks else Some (out, block # blocks))"

datatype code_choice = Chosen utext | Collided

function choose_code :: "(utext \<Rightarrow> bool) \<Rightarrow> nat \<Rightarrow> utext \<Rightarrow> nat list list \<Rightarrow> code_choice option" where
  "choose_code taken tries code blocks =
     (if \<not> taken code then Some (Chosen code)
      else case generateUserCode [] blocks of
        None \<Rightarrow> None
      | Some (code', rest) \<Rightarrow> if Suc tries > 32 then Some Collided else choose_code taken (Suc tries) code' rest)"
  by auto
termination by (relation "measure (\<lambda>(taken, tries, code, blocks). 33 - tries)") auto

declare choose_code.simps [simp del]

definition name_point :: "nat \<Rightarrow> bool" where
  "name_point c \<longleftrightarrow> (97 \<le> c \<and> c \<le> 122) \<or> (48 \<le> c \<and> c \<le> 57)"

text \<open>A run of unwanted characters becomes one dash.\<close>

fun replace_runs :: "(nat \<Rightarrow> bool) \<Rightarrow> bool \<Rightarrow> utext \<Rightarrow> utext" where
  "replace_runs unwanted inside [] = []"
| "replace_runs unwanted inside (c # s) =
     (if unwanted c then (if inside then [] else [45]) @ replace_runs unwanted True s
      else c # replace_runs unwanted False s)"

definition strip_end :: "utext \<Rightarrow> utext" where
  "strip_end s = rev (dropWhile (\<lambda>c. c = 45) (rev s))"

definition sanitizeHostname :: "(utext \<Rightarrow> utext) \<Rightarrow> utext option \<Rightarrow> utext" where
  "sanitizeHostname lower raw =
     (case raw of
        None \<Rightarrow> u ''unknown''
      | Some r \<Rightarrow>
          let trimmed = trim_points r in
          if trimmed = [] then u ''unknown''
          else let out1 = replace_runs (\<lambda>c. \<not> (name_point c \<or> c = 45)) False (lower trimmed);
                   out2 = replace_runs (\<lambda>c. c = 45) False out1;
                   out3 = strip_end (dropWhile (\<lambda>c. c = 45) out2);
                   out4 = (if length out3 > 32 then strip_end (take 32 out3) else out3)
               in if out4 = [] then u ''unknown'' else out4)"

definition tokenName :: "(int \<Rightarrow> utext) \<Rightarrow> utext \<Rightarrow> int \<Rightarrow> utext" where
  "tokenName to_iso host now = u ''cli-'' @ host @ u ''-'' @ take 10 (to_iso now)"

section \<open>The store\<close>

definition findByDeviceCode :: "utext \<Rightarrow> device_store \<Rightarrow> device_session option" where
  "findByDeviceCode dc S = js_get (by_device S) dc"

definition findByUserCode :: "utext \<Rightarrow> device_store \<Rightarrow> device_session option" where
  "findByUserCode uc S = (case js_get (by_user S) uc of None \<Rightarrow> None | Some dc \<Rightarrow> js_get (by_device S) dc)"

text \<open>The sessions are shared objects: assigning a field changes the one the map of device codes holds.\<close>

definition write_session :: "device_session \<Rightarrow> device_store \<Rightarrow> device_store" where
  "write_session s S = S\<lparr>by_device := js_put (ds_device s) s (by_device S)\<rparr>"

definition createSession ::
  "(utext \<Rightarrow> utext) \<Rightarrow> int \<Rightarrow> utext \<Rightarrow> nat list list \<Rightarrow> utext \<Rightarrow> utext option \<Rightarrow> device_store \<Rightarrow> (device_session \<times> device_store) option option" where
  "createSession lower now device_code blocks client host S =
     (case generateUserCode [] blocks of
        None \<Rightarrow> None
      | Some (code, rest) \<Rightarrow>
          (case choose_code (\<lambda>c. js_has (by_user S) c) 0 code rest of
             None \<Rightarrow> None
           | Some Collided \<Rightarrow> Some None
           | Some (Chosen uc) \<Rightarrow>
               let s = \<lparr>ds_device = device_code, ds_user_code = uc, ds_hostname = sanitizeHostname lower host,
                        ds_client = client, ds_created = now, ds_expires = now + SESSION_TTL_MS, ds_interval = 5,
                        ds_last_poll = 0, ds_status = Device_pending, ds_approver = None, ds_token_id = None, ds_token = None\<rparr>
               in Some (Some (s, \<lparr>by_device = js_put device_code s (by_device S), by_user = js_put uc device_code (by_user S)\<rparr>))))"

definition approve :: "utext \<Rightarrow> int \<Rightarrow> device_store \<Rightarrow> bool \<times> device_store" where
  "approve uc usr S =
     (case findByUserCode uc S of
        None \<Rightarrow> (False, S)
      | Some s \<Rightarrow>
          if ds_status s = Device_approved \<and> ds_approver s = Some usr then (True, S)
          else if ds_status s \<noteq> Device_pending then (False, S)
          else (True, write_session (s\<lparr>ds_status := Device_approved, ds_approver := Some usr\<rparr>) S))"

definition deny :: "utext \<Rightarrow> device_store \<Rightarrow> bool \<times> device_store" where
  "deny uc S =
     (case findByUserCode uc S of
        None \<Rightarrow> (False, S)
      | Some s \<Rightarrow> if ds_status s \<noteq> Device_pending then (False, S) else (True, write_session (s\<lparr>ds_status := Device_denied\<rparr>) S))"

definition remove_session :: "utext \<Rightarrow> device_store \<Rightarrow> device_store" where
  "remove_session dc S =
     (case findByDeviceCode dc S of
        None \<Rightarrow> S
      | Some s \<Rightarrow> \<lparr>by_device = js_del dc (by_device S), by_user = js_del (ds_user_code s) (by_user S)\<rparr>)"

definition recordMintedToken :: "utext \<Rightarrow> int \<Rightarrow> utext \<Rightarrow> device_store \<Rightarrow> bool \<times> device_store" where
  "recordMintedToken uc i token S =
     (case findByUserCode uc S of
        None \<Rightarrow> (False, S)
      | Some s \<Rightarrow>
          if ds_status s \<noteq> Device_approved then (False, S)
          else (True, write_session (s\<lparr>ds_token_id := Some i, ds_token := Some token\<rparr>) S))"

text \<open>The clean-up deletes while it walks the map.\<close>

definition cleanup :: "int \<Rightarrow> device_store \<Rightarrow> device_store" where
  "cleanup now S =
     foldl (\<lambda>T (dc, s). if now > ds_expires s
              then \<lparr>by_device = js_del dc (by_device T), by_user = js_del (ds_user_code s) (by_user T)\<rparr> else T)
       S (by_device S)"

section \<open>Routes\<close>

record device_env = auth_env +
  to_lower_case :: "utext \<Rightarrow> utext"
  expected_client :: utext
  configured_origin :: utext
  trusted_hosts :: "utext list"

record device_state =
  dv_store :: device_store
  dv_auth :: auth_state

record origin_headers =
  forwarded_host :: "utext option"
  host_header :: "utext option"
  forwarded_proto :: "utext option"
  protocol :: utext

definition firstHeaderValue :: "utext option \<Rightarrow> utext option" where
  "firstHeaderValue v =
     (case v of
        None \<Rightarrow> None
      | Some raw \<Rightarrow> let first = trim_points (hd (split_on 44 raw)) in if first = [] then None else Some first)"

definition resolveVerificationOrigin :: "device_env \<Rightarrow> origin_headers \<Rightarrow> utext" where
  "resolveVerificationOrigin E h =
     (case (case firstHeaderValue (forwarded_host h) of Some x \<Rightarrow> Some x | None \<Rightarrow> firstHeaderValue (host_header h)) of
        None \<Rightarrow> configured_origin E
      | Some host \<Rightarrow>
          if trusted_hosts E \<noteq> [] \<and> \<not> List.member (trusted_hosts E) (to_lower_case E (hd (split_on 58 host)))
          then configured_origin E
          else (case firstHeaderValue (forwarded_proto h) of
                  Some scheme \<Rightarrow> scheme
                | None \<Rightarrow> if protocol h \<noteq> [] then protocol h else u ''http'') @ u ''://'' @ host)"

datatype device_reply =
  Invalid_request
| Invalid_client
| Unsupported_grant_type
| Expired_token
| Slow_down
| Authorization_pending
| Access_denied
| Code_issued utext utext utext
| Token_issued utext int auth_user
| Device_page nat
| Approved_page
| Device_refused refusal
| Device_failed

definition start_flow ::
  "device_env \<Rightarrow> int \<Rightarrow> utext \<Rightarrow> nat list list \<Rightarrow> origin_headers \<Rightarrow> (utext \<times> utext option) option \<Rightarrow> device_state \<Rightarrow>
    (device_reply \<times> device_state) option" where
  "start_flow E now device_code blocks h body st =
     (case body of
        None \<Rightarrow> Some (Invalid_request, st)
      | Some (client, host) \<Rightarrow>
          if client = [] then Some (Invalid_request, st)
          else if client \<noteq> expected_client E then Some (Invalid_client, st)
          else (case createSession (to_lower_case E) now device_code blocks client host (dv_store st) of
            None \<Rightarrow> None
          | Some None \<Rightarrow> Some (Device_failed, st)
          | Some (Some (s, S)) \<Rightarrow>
              Some (Code_issued (ds_device s) (ds_user_code s) (resolveVerificationOrigin E h @ u ''/auth/device''), st\<lparr>dv_store := S\<rparr>)))"

definition user_code_ok :: "utext \<Rightarrow> bool" where
  "user_code_ok s \<longleftrightarrow> length s = 8 \<and>
     list_all (\<lambda>c. (65 \<le> c \<and> c \<le> 72) \<or> (74 \<le> c \<and> c \<le> 75) \<or> (77 \<le> c \<and> c \<le> 78) \<or> (80 \<le> c \<and> c \<le> 90) \<or> (50 \<le> c \<and> c \<le> 57)) s"

definition closed_session :: "int \<Rightarrow> device_session option \<Rightarrow> bool" where
  "closed_session now found =
     (case found of None \<Rightarrow> True
      | Some s \<Rightarrow> ds_status s = Device_expired \<or> now > ds_expires s \<or> ds_status s = Device_denied)"

text \<open>The handler of the form: a token is minted for the approver and left in the session.\<close>

definition mint_for_device ::
  "device_env \<Rightarrow> faults \<Rightarrow> int \<Rightarrow> byte list \<Rightarrow> utext \<Rightarrow> auth_user \<Rightarrow> device_state \<Rightarrow> device_reply \<times> device_state" where
  "mint_for_device E F now random_bytes uc usr st =
     (case findByUserCode uc (dv_store st) of
        None \<Rightarrow> (Device_failed, st)
      | Some s \<Rightarrow>
          let minted = generate_token (hash_token E) random_bytes; A = dv_auth st;
              ti = \<lparr>ti_user = uid usr, ti_name = tokenName (date_to_iso E) (ds_hostname s) now, ti_prefix = mt_prefix minted,
                    ti_suffix = mt_suffix minted, ti_hash = mt_hash minted, ti_scopes = Some (stringify_scopes E []),
                    ti_expires = None, ti_project = None\<rparr>
          in if tokens_down F then (Device_page 500, st)
             else case insert_token (parse_json E) (\<lambda>i. find_user i A \<noteq> None) (\<lambda>p. find_project (au_db A) p \<noteq> None) now ti (au_tokens A) of
               Inl _ \<Rightarrow> (Device_page 500, st)
             | Inr (r, T) \<Rightarrow>
                 (case recordMintedToken uc (tok_id r) (mt_token minted) (dv_store st) of
                    (True, S) \<Rightarrow> (Approved_page, st\<lparr>dv_store := S, dv_auth := A\<lparr>au_tokens := T\<rparr>\<rparr>)
                  | (False, S) \<Rightarrow>
                      (Device_page 500, st\<lparr>dv_store := S, dv_auth := A\<lparr>au_tokens := snd (revoke_token now (tok_id r) (uid usr) T)\<rparr>\<rparr>)))"

definition verify_handler ::
  "device_env \<Rightarrow> faults \<Rightarrow> int \<Rightarrow> byte list \<Rightarrow> bool \<Rightarrow> utext option \<Rightarrow> auth_principal \<Rightarrow> device_state \<Rightarrow> device_reply \<times> device_state" where
  "verify_handler E F now random_bytes csrf_ok raw p st =
     (if \<not> csrf_ok then (Device_page 403, st)
      else case raw of
        None \<Rightarrow> (Device_page 400, st)
      | Some uc \<Rightarrow>
          if \<not> user_code_ok uc then (Device_page 400, st)
          else if closed_session now (findByUserCode uc (dv_store st)) then (Device_page 400, st)
          else mint_for_device E F now random_bytes uc (pp_user p)
                 (st\<lparr>dv_store := snd (approve uc (uid (pp_user p)) (dv_store st))\<rparr>))"

definition verify_config :: route_config where
  "verify_config = \<lparr>skip_auth = False, session_only = True, required_scope = None\<rparr>"

definition verify_request ::
  "device_env \<Rightarrow> faults \<Rightarrow> int \<Rightarrow> byte list \<Rightarrow> bool \<Rightarrow> utext option \<Rightarrow> auth_request \<Rightarrow> device_state \<Rightarrow> device_reply \<times> device_state" where
  "verify_request E F now random_bytes csrf_ok raw rq st =
     (case auth_chain (auth_env.truncate E) F now verify_config rq (dv_auth st) of (d, A) \<Rightarrow>
        let st1 = st\<lparr>dv_auth := A\<rparr>
        in case d of
             Refused r \<Rightarrow> (Device_refused r, st1)
           | Proceed None \<Rightarrow> (Device_failed, st1)
           | Proceed (Some p) \<Rightarrow> verify_handler E F now random_bytes csrf_ok raw p st1)"

text \<open>The poll of the client.\<close>

record poll_body =
  pb_grant :: utext
  pb_device :: utext
  pb_client :: utext

definition DEVICE_CODE_GRANT :: utext where
  "DEVICE_CODE_GRANT = u ''urn:ietf:params:oauth:grant-type:device_code''"

definition deliver_token :: "faults \<Rightarrow> int \<Rightarrow> device_session \<Rightarrow> device_state \<Rightarrow> device_reply \<times> device_state" where
  "deliver_token F now s st =
     (case (ds_token s, ds_token_id s, ds_approver s) of
        (Some token, Some i, Some usr) \<Rightarrow>
          if users_down F then (Device_failed, st)
          else (case find_user usr (dv_auth st) of
            None \<Rightarrow>
              (Expired_token, st\<lparr>dv_store := remove_session (ds_device s) (dv_store st),
                 dv_auth := (if tokens_down F then dv_auth st
                             else dv_auth st\<lparr>au_tokens := snd (revoke_token now i usr (au_tokens (dv_auth st)))\<rparr>)\<rparr>)
          | Some owner \<Rightarrow>
              (Token_issued token i (toAuthenticatedUser owner), st\<lparr>dv_store := remove_session (ds_device s) (dv_store st)\<rparr>))
      | _ \<Rightarrow> (Authorization_pending, st))"

definition poll_session :: "faults \<Rightarrow> int \<Rightarrow> device_session \<Rightarrow> device_state \<Rightarrow> device_reply \<times> device_state" where
  "poll_session F now s st =
     (if ds_last_poll s > 0 \<and> now - ds_last_poll s < (ds_interval s - 1) * 1000
      then (Slow_down, st\<lparr>dv_store := write_session (s\<lparr>ds_interval := min (ds_interval s + 5) 60, ds_last_poll := now\<rparr>) (dv_store st)\<rparr>)
      else let s1 = s\<lparr>ds_last_poll := now\<rparr>; st1 = st\<lparr>dv_store := write_session s1 (dv_store st)\<rparr>
        in case ds_status s of
             Device_pending \<Rightarrow> (Authorization_pending, st1)
           | Device_approved \<Rightarrow> deliver_token F now s1 st1
           | Device_denied \<Rightarrow> (Access_denied, st1)
           | Device_expired \<Rightarrow> (Expired_token, st1))"

definition poll :: "device_env \<Rightarrow> faults \<Rightarrow> int \<Rightarrow> poll_body option \<Rightarrow> device_state \<Rightarrow> device_reply \<times> device_state" where
  "poll E F now body st =
     (case body of
        None \<Rightarrow> (Invalid_request, st)
      | Some b \<Rightarrow>
          if pb_grant b = [] \<or> pb_device b = [] \<or> pb_client b = [] then (Invalid_request, st)
          else if pb_grant b \<noteq> DEVICE_CODE_GRANT then (Unsupported_grant_type, st)
          else if pb_client b \<noteq> expected_client E then (Invalid_client, st)
          else (case findByDeviceCode (pb_device b) (dv_store st) of
            None \<Rightarrow> (Expired_token, st)
          | Some s \<Rightarrow> if now > ds_expires s then (Expired_token, st) else poll_session F now s st))"

end
