(* ===== verification/Device_Laws.thy ===== *)
theory Device_Laws
  imports Device_Flow
begin

text \<open>
  What signing in a command line promises: the two maps stay inverse to each other, a device code
  is redeemed once, a token is only handed out after an approval of its code, the codes are
  unbiased and usable, names are safe; and how a second approver takes a session over.
\<close>

section \<open>The two maps\<close>

definition session_ok :: "device_session \<Rightarrow> bool" where
  "session_ok s \<longleftrightarrow> 5 \<le> ds_interval s \<and> ds_interval s \<le> 60 \<and> ds_expires s = ds_created s + SESSION_TTL_MS \<and>
     (ds_token s \<noteq> None \<longrightarrow> ds_status s = Device_approved) \<and>
     (ds_status s = Device_approved \<longleftrightarrow> ds_approver s \<noteq> None)"

definition store_ok :: "device_store \<Rightarrow> bool" where
  "store_ok S \<longleftrightarrow> js_wf (by_device S) \<and> js_wf (by_user S) \<and>
     (\<forall>dc s. js_get (by_device S) dc = Some s \<longrightarrow>
        ds_device s = dc \<and> js_get (by_user S) (ds_user_code s) = Some dc \<and> session_ok s) \<and>
     (\<forall>uc dc. js_get (by_user S) uc = Some dc \<longrightarrow> (\<exists>s. js_get (by_device S) dc = Some s \<and> ds_user_code s = uc))"

lemma store_ok_device: "store_ok S \<Longrightarrow> js_get (by_device S) dc = Some s \<Longrightarrow>
    ds_device s = dc \<and> js_get (by_user S) (ds_user_code s) = Some dc \<and> session_ok s"
  by (simp add: store_ok_def)

lemma find_by_user_ok: "store_ok S \<Longrightarrow> findByUserCode uc S = Some s \<Longrightarrow>
    js_get (by_device S) (ds_device s) = Some s \<and> ds_user_code s = uc \<and> session_ok s"
  by (fastforce simp: store_ok_def findByUserCode_def split: option.splits)

lemma write_ok:
  assumes "store_ok S" "js_get (by_device S) (ds_device s) = Some s0" "ds_user_code s = ds_user_code s0" "session_ok s"
  shows "store_ok (write_session s S)"
  using assms by (auto simp: store_ok_def write_session_def split: if_splits) (metis option.inject)+

lemma delete_ok:
  assumes "store_ok S" "js_get (by_device S) dc = Some s"
  shows "store_ok \<lparr>by_device = js_del dc (by_device S), by_user = js_del (ds_user_code s) (by_user S)\<rparr>"
  using assms by (auto simp: store_ok_def split: if_splits) (metis option.inject)+

lemma remove_ok: "store_ok S \<Longrightarrow> store_ok (remove_session dc S)"
  using delete_ok by (auto simp: remove_session_def findByDeviceCode_def split: option.split)

lemma insert_ok:
  assumes "store_ok S" "js_get (by_device S) dc = None" "js_get (by_user S) (ds_user_code s) = None" "ds_device s = dc" "session_ok s"
  shows "store_ok \<lparr>by_device = js_put dc s (by_device S), by_user = js_put (ds_user_code s) dc (by_user S)\<rparr>"
  using assms by (auto simp: store_ok_def split: if_splits) (metis option.distinct(1))+

text \<open>Assigning fields other than the codes keeps the maps inverse to each other.\<close>

lemma change_ok:
  assumes "store_ok S" "findByUserCode uc S = Some s" "ds_device s' = ds_device s" "ds_user_code s' = ds_user_code s"
    "session_ok s \<Longrightarrow> session_ok s'"
  shows "store_ok (write_session s' S)"
  using find_by_user_ok [OF assms(1,2)] assms by (intro write_ok [of S s' s]) simp_all

lemma approve_ok: "store_ok S \<Longrightarrow> store_ok (snd (approve uc usr S))"
  by (auto simp: approve_def session_ok_def intro!: change_ok split: option.split)

lemma deny_ok: "store_ok S \<Longrightarrow> store_ok (snd (deny uc S))"
  by (auto simp: deny_def session_ok_def intro!: change_ok split: option.split)

lemma record_ok: "store_ok S \<Longrightarrow> store_ok (snd (recordMintedToken uc i token S))"
  by (auto simp: recordMintedToken_def session_ok_def intro!: change_ok split: option.split)

section \<open>Codes\<close>

definition good_block :: "nat list \<Rightarrow> bool" where
  "good_block b = list_ex (\<lambda>x. x < 248) b"

lemma alphabet_passes:
  "list_all (\<lambda>c. (65 \<le> c \<and> c \<le> 72) \<or> (74 \<le> c \<and> c \<le> 75) \<or> (77 \<le> c \<and> c \<le> 78) \<or> (80 \<le> c \<and> c \<le> 90) \<or> (50 \<le> c \<and> c \<le> 57))
     USER_CODE_ALPHABET"
  by code_simp

definition symbols :: "utext \<Rightarrow> bool" where
  "symbols s = list_all (\<lambda>c. c \<in> set USER_CODE_ALPHABET) s"

lemma symbols_pass: "length s = 8 \<Longrightarrow> symbols s \<Longrightarrow> user_code_ok s"
  using alphabet_passes by (auto simp: user_code_ok_def symbols_def list_all_iff)

lemma code_symbols_in: "symbols (code_symbols b)"
proof -
  have "length USER_CODE_ALPHABET = 31" by (simp add: USER_CODE_ALPHABET_def u_def)
  then show ?thesis by (auto simp: symbols_def code_symbols_def list_all_iff intro!: nth_mem)
qed

lemma symbols_append: "symbols (s @ t) \<longleftrightarrow> symbols s \<and> symbols t"
  by (simp add: symbols_def)

lemma symbols_take: "symbols s \<Longrightarrow> symbols (take n s)"
  by (auto simp: symbols_def list_all_iff dest: in_set_takeD)

lemma generated_code:
  "generateUserCode out blocks = Some (code, rest) \<Longrightarrow> length out \<le> 8 \<Longrightarrow> symbols out \<Longrightarrow> length code = 8 \<and> symbols code"
  by (induction out blocks rule: generateUserCode.induct)
    (auto simp: symbols_append code_symbols_in symbols_take split: if_splits)

lemma chosen_code:
  "choose_code taken tries code blocks = Some (Chosen uc) \<Longrightarrow> length code = 8 \<Longrightarrow> symbols code \<Longrightarrow>
     \<not> taken uc \<and> length uc = 8 \<and> symbols uc"
proof (induction taken tries code blocks rule: choose_code.induct)
  case (1 taken tries code blocks)
  show ?case
  proof (cases "taken code")
    case True
    with 1(2) obtain code' rest where g: "generateUserCode [] blocks = Some (code', rest)" "\<not> Suc tries > 32"
      "choose_code taken (Suc tries) code' rest = Some (Chosen uc)"
      by (subst (asm) choose_code.simps) (auto split: option.splits if_splits)
    moreover have "length code' = 8 \<and> symbols code'" using generated_code [OF g(1)] by (simp add: symbols_def)
    ultimately show ?thesis using "1.IH" True by auto
  qed (use 1(2-4) in \<open>simp add: choose_code.simps\<close>)
qed

lemma created_session:
  assumes "createSession lower now dc blocks client host S = Some (Some (s, S'))"
  shows "ds_device s = dc \<and> js_get (by_user S) (ds_user_code s) = None \<and> user_code_ok (ds_user_code s) \<and> session_ok s \<and>
    ds_token s = None \<and>
    S' = \<lparr>by_device = js_put dc s (by_device S), by_user = js_put (ds_user_code s) dc (by_user S)\<rparr>"
proof -
  obtain code rest uc where g: "generateUserCode [] blocks = Some (code, rest)"
    "choose_code (\<lambda>c. js_has (by_user S) c) 0 code rest = Some (Chosen uc)" "ds_user_code s = uc"
    using assms by (auto simp: createSession_def Let_def split: option.splits code_choice.splits)
  have "length code = 8 \<and> symbols code" using generated_code [OF g(1)] by (simp add: symbols_def)
  with chosen_code [OF g(2)] have "\<not> js_has (by_user S) uc" "length uc = 8" "symbols uc" by auto
  then have fresh: "js_get (by_user S) uc = None" "user_code_ok uc" by (simp_all add: js_has_def symbols_pass)
  have "s = \<lparr>ds_device = dc, ds_user_code = uc, ds_hostname = sanitizeHostname lower host, ds_client = client, ds_created = now,
      ds_expires = now + SESSION_TTL_MS, ds_interval = 5, ds_last_poll = 0, ds_status = Device_pending, ds_approver = None,
      ds_token_id = None, ds_token = None\<rparr>"
    "S' = \<lparr>by_device = js_put dc s (by_device S), by_user = js_put uc dc (by_user S)\<rparr>"
    using g(1,2) assms by (auto simp add: createSession_def Let_def)
  with fresh show ?thesis by (simp add: session_ok_def)
qed

lemma residues_of_copies: "map (\<lambda>b. b mod n) [0..<n * k] = concat (replicate k [0..<n])" for n :: nat
proof (induction k)
  case (Suc k)
  have "[0..<n * Suc k] = [0..<n * k] @ map (\<lambda>i. i + n * k) [0..<n]"
    using upt_add_eq_append [of 0 "n * k" n] by (simp add: map_add_upt add.commute)
  moreover have "map (\<lambda>b. b mod n) (map (\<lambda>i. i + n * k) [0..<n]) = [0..<n]"
    by (intro nth_equalityI) simp_all
  moreover have "concat (replicate (Suc k) [0..<n]) = concat (replicate k [0..<n]) @ [0..<n]"
    by (simp add: replicate_append_same [symmetric])
  ultimately show ?case using Suc.IH by (simp only: map_append)
qed simp

lemma count_list_copies: "count_list (concat (replicate k xs)) x = k * count_list xs x"
  by (induction k) simp_all

lemma count_list_distinct_once: "distinct xs \<Longrightarrow> x \<in> set xs \<Longrightarrow> count_list xs x = 1"
  by (induction xs) (auto simp: count_list_0_iff)

lemma alphabet_distinct: "distinct USER_CODE_ALPHABET"
  by code_simp

lemma all_bytes_symbols: "code_symbols [0..<256] = concat (replicate 8 USER_CODE_ALPHABET)"
proof -
  have "[0..<256] = [0..<248] @ [248..<256]" using upt_add_eq_append [of 0 248 8] by simp
  then have "filter (\<lambda>b. b < 248) [0..<256] = [0..<248::nat]" by (simp add: filter_id_conv)
  then have "code_symbols [0..<256] = map ((!) USER_CODE_ALPHABET) (map (\<lambda>b. b mod 31) [0..<31 * 8])"
    by (simp add: code_symbols_def comp_def)
  also have "\<dots> = concat (replicate 8 (map ((!) USER_CODE_ALPHABET) [0..<31]))"
    by (simp only: residues_of_copies map_concat map_replicate)
  also have "map ((!) USER_CODE_ALPHABET) [0..<31] = USER_CODE_ALPHABET"
  proof -
    have "length USER_CODE_ALPHABET = 31" by (simp add: USER_CODE_ALPHABET_def u_def)
    with map_nth [of USER_CODE_ALPHABET] show ?thesis by simp
  qed
  finally show ?thesis .
qed

text \<open>
  The user codes are unbiased: of the 256 values of a random byte exactly eight give each of
  the 31 symbols, the others give none.
\<close>

theorem user_codes_are_unbiased:
  "map (count_list (code_symbols [0..<256])) USER_CODE_ALPHABET = replicate 31 8"
proof -
  have "length USER_CODE_ALPHABET = 31" by (simp add: USER_CODE_ALPHABET_def u_def)
  moreover have "count_list (code_symbols [0..<256]) c = 8" if "c \<in> set USER_CODE_ALPHABET" for c
    using that count_list_distinct_once [OF alphabet_distinct that] by (simp add: all_bytes_symbols count_list_copies)
  ultimately show ?thesis by (simp add: map_replicate_const cong: map_cong)
qed

lemma generation_returns:
  "list_all good_block blocks \<Longrightarrow> length out \<le> 8 \<Longrightarrow> 8 \<le> length out + length blocks \<Longrightarrow>
     \<exists>code rest. generateUserCode out blocks = Some (code, rest) \<and> list_all good_block rest \<and>
       length blocks + length out \<le> length rest + 8"
proof (induction out blocks rule: generateUserCode.induct)
  case (2 out block blocks)
  show ?case
  proof (cases "length out < 8")
    case True
    let ?out = "take 8 (out @ code_symbols block)"
    have "code_symbols block \<noteq> []" using "2.prems"(1)
      by (auto simp: code_symbols_def good_block_def list_ex_iff filter_empty_conv)
    then have "Suc (length out) \<le> length ?out" using True by (cases "code_symbols block") simp_all
    with "2.IH" [OF True] "2.prems" True show ?thesis by fastforce
  qed (use "2.prems" in simp)
qed simp

lemma choice_returns:
  "list_all good_block blocks \<Longrightarrow> tries \<le> 32 \<Longrightarrow> 8 * (33 - tries) \<le> length blocks \<Longrightarrow> choose_code taken tries code blocks \<noteq> None"
proof (induction taken tries code blocks rule: choose_code.induct)
  case (1 taken tries code blocks)
  obtain code' rest where g: "generateUserCode [] blocks = Some (code', rest)" "list_all good_block rest"
    "length blocks \<le> length rest + 8"
  proof -
    have "8 \<le> length blocks" using 1(3,4) by (simp add: le_trans [of 8 "8 * (33 - tries)"])
    with generation_returns [of blocks "[]"] 1(2) show ?thesis using that by auto
  qed
  show ?case
  proof (cases "taken code \<and> Suc tries \<le> 32")
    case True
    then have "8 * (33 - Suc tries) \<le> length rest" using g(3) 1(4) by simp
    with "1.IH" [of "(code', rest)" code' rest] True g show ?thesis
      by (subst choose_code.simps) simp
  qed (use g in \<open>auto simp: choose_code.simps [of taken tries code blocks]\<close>)
qed

text \<open>
  C39.  Starting a flow returns, with a session or with an error, whatever codes are in use: 272
  blocks of random bytes with a usable byte each are enough for all the draws it ever makes.
\<close>

theorem creation_returns:
  assumes "list_all good_block blocks" "272 \<le> length blocks"
  shows "createSession lower now dc blocks client host S \<noteq> None"
proof -
  obtain code rest where g: "generateUserCode [] blocks = Some (code, rest)" "list_all good_block rest"
    "length blocks \<le> length rest + 8"
    using generation_returns [of blocks "[]"] assms by auto
  then have "choose_code (\<lambda>c. js_has (by_user S) c) 0 code rest \<noteq> None"
    using assms(2) by (intro choice_returns) simp_all
  with g show ?thesis by (auto simp: createSession_def Let_def split: code_choice.split)
qed

theorem creation_returns_witness:
  "createSession id 0 (u ''dc'') (replicate 272 (replicate 16 7)) (u ''cli'') None \<lparr>by_device = [], by_user = []\<rparr> \<noteq> None"
  by (rule creation_returns) (simp_all add: list_all_iff good_block_def list_ex_iff)


section \<open>Steps of the store\<close>

text \<open>
  What any request does to the two maps is a sequence of four elementary steps.  Minting and
  opening carry the code they are about.
\<close>

datatype store_label = Silent | Opened utext | Minting utext

inductive store_step :: "store_label \<Rightarrow> device_store \<Rightarrow> device_store \<Rightarrow> bool" where
  assigns: "js_get (by_device S) (ds_device s') = Some s \<Longrightarrow> ds_user_code s' = ds_user_code s \<Longrightarrow> ds_token s' = ds_token s \<Longrightarrow>
     (session_ok s \<Longrightarrow> session_ok s') \<Longrightarrow> store_step Silent S (write_session s' S)"
| mints: "findByUserCode uc S = Some s \<Longrightarrow> js_get (by_device S) (ds_device s) = Some s \<Longrightarrow> ds_status s = Device_approved \<Longrightarrow>
     store_step (Minting uc) S (write_session (s\<lparr>ds_token_id := Some i, ds_token := Some token\<rparr>) S)"
| opens: "js_get (by_user S) (ds_user_code s) = None \<Longrightarrow> session_ok s \<Longrightarrow> ds_token s = None \<Longrightarrow>
     store_step (Opened (ds_device s)) S
       \<lparr>by_device = js_put (ds_device s) s (by_device S), by_user = js_put (ds_user_code s) (ds_device s) (by_user S)\<rparr>"
| closes: "js_get (by_device S) dc = Some s \<Longrightarrow>
     store_step Silent S \<lparr>by_device = js_del dc (by_device S), by_user = js_del (ds_user_code s) (by_user S)\<rparr>"

inductive store_steps :: "store_label list \<Rightarrow> device_store \<Rightarrow> device_store \<Rightarrow> bool" where
  rests: "store_steps [] S S"
| more: "store_step l S T \<Longrightarrow> store_steps ls T V \<Longrightarrow> store_steps (l # ls) S V"

inductive_cases store_stepE: "store_step l S T"
inductive_cases store_steps_ConsE: "store_steps (l # ls) S T"
inductive_simps store_steps_simps: "store_steps [] S T" "store_steps (l # ls) S T"

lemma store_steps_append: "store_steps ls S T \<Longrightarrow> store_steps ms T V \<Longrightarrow> store_steps (ls @ ms) S V"
  by (induction rule: store_steps.induct) (auto intro: store_steps.more)

lemma store_steps_one: "store_step l S T \<Longrightarrow> store_steps [l] S T"
  by (simp add: store_steps_simps)

definition keyed :: "device_store \<Rightarrow> bool" where
  "keyed S \<longleftrightarrow> js_wf (by_device S) \<and> list_all (\<lambda>(dc, s). ds_device s = dc) (by_device S)"

lemma keyed_get: "keyed S \<Longrightarrow> js_get (by_device S) dc = Some s \<Longrightarrow> ds_device s = dc"
  by (auto simp: keyed_def list_all_iff dest!: map_of_SomeD)

lemma set_js_put: "set (js_put k v m) \<subseteq> insert (k, v) (set m)"
  by (induction k v m rule: js_put.induct) auto

lemma keyed_put: "list_all (\<lambda>(dc, s). ds_device s = dc) m \<Longrightarrow> ds_device s' = k \<Longrightarrow>
    list_all (\<lambda>(dc, s). ds_device s = dc) (js_put k s' m)"
  using set_js_put [of k s' m] by (auto simp: list_all_iff)

lemma keyed_del: "list_all (\<lambda>(dc, s). ds_device s = dc) m \<Longrightarrow> list_all (\<lambda>(dc, s). ds_device s = dc) (js_del dc m)"
  by (auto simp: list_all_iff js_del_def)

lemma step_keyed: "store_step l S T \<Longrightarrow> keyed S \<Longrightarrow> keyed T"
  by (induction rule: store_step.induct) (simp_all add: keyed_def write_session_def keyed_put keyed_del)

lemma steps_keyed: "store_steps ls S T \<Longrightarrow> keyed S \<Longrightarrow> keyed T"
  by (induction rule: store_steps.induct) (auto dest: step_keyed)

lemma step_ok:
  "store_step l S T \<Longrightarrow> store_ok S \<Longrightarrow> (\<And>dc. l = Opened dc \<Longrightarrow> js_get (by_device S) dc = None) \<Longrightarrow> store_ok T"
proof (induction rule: store_step.induct)
  case (assigns S s' s)
  then show ?case by (intro write_ok [of S s' s]) (simp_all add: store_ok_device)
next
  case (mints uc S s i token)
  then show ?case by (intro write_ok [of S _ s]) (auto simp: session_ok_def dest: store_ok_device)
next
  case (opens S s)
  then show ?case by (intro insert_ok) simp_all
next
  case (closes S dc s)
  then show ?case by (intro delete_ok) simp_all
qed

lemma step_present:
  "store_step l S T \<Longrightarrow> js_get (by_device T) dc \<noteq> None \<Longrightarrow> js_get (by_device S) dc \<noteq> None \<or> l = Opened dc"
  by (induction rule: store_step.induct) (auto simp: write_session_def split: if_splits)

lemma steps_present:
  "store_steps ls S T \<Longrightarrow> js_get (by_device T) dc \<noteq> None \<Longrightarrow> js_get (by_device S) dc \<noteq> None \<or> Opened dc \<in> set ls"
  by (induction rule: store_steps.induct) (auto dest: step_present)

definition untokened :: "utext \<Rightarrow> device_store \<Rightarrow> bool" where
  "untokened uc S \<longleftrightarrow> (\<forall>dc s. js_get (by_device S) dc = Some s \<longrightarrow> ds_user_code s = uc \<longrightarrow> ds_token s = None)"

lemma step_untokened:
  "store_step l S T \<Longrightarrow> store_ok S \<Longrightarrow> untokened uc S \<Longrightarrow> l \<noteq> Minting uc \<Longrightarrow> untokened uc T"
proof (induction rule: store_step.induct)
  case (mints uc' S s i token)
  then have "ds_user_code s = uc'" using find_by_user_ok by blast
  with mints show ?case by (auto simp: untokened_def write_session_def)
qed (auto simp: untokened_def write_session_def)

section \<open>Requests are steps\<close>

definition changes :: "store_label set \<Rightarrow> device_store \<Rightarrow> device_store \<Rightarrow> bool" where
  "changes L S T \<longleftrightarrow> (\<exists>ls. store_steps ls S T \<and> set ls \<subseteq> L)"

lemma changes_refl [simp]: "changes L S S"
  by (auto simp: changes_def intro: rests exI [of _ "[]"])

lemma changes_one: "store_step l S T \<Longrightarrow> l \<in> L \<Longrightarrow> changes L S T"
  by (auto simp: changes_def intro!: exI [of _ "[l]"] store_steps_one)

lemma changes_trans: "changes L S T \<Longrightarrow> changes L T V \<Longrightarrow> changes L S V"
  unfolding changes_def by (metis store_steps_append le_sup_iff set_append)

lemma changes_keyed: "changes L S T \<Longrightarrow> keyed S \<Longrightarrow> keyed T"
  by (auto simp: changes_def dest: steps_keyed)

lemma keyed_user: "keyed S \<Longrightarrow> findByUserCode uc S = Some s \<Longrightarrow> js_get (by_device S) (ds_device s) = Some s"
  by (auto simp: findByUserCode_def keyed_get split: option.splits)

lemma approve_changes: "keyed S \<Longrightarrow> Silent \<in> L \<Longrightarrow> changes L S (snd (approve uc usr S))"
  by (auto simp: approve_def session_ok_def keyed_user split: option.split intro!: changes_one [OF assigns])

lemma deny_changes: "keyed S \<Longrightarrow> Silent \<in> L \<Longrightarrow> changes L S (snd (deny uc S))"
  by (auto simp: deny_def session_ok_def keyed_user split: option.split intro!: changes_one [OF assigns])

lemma record_changes: "keyed S \<Longrightarrow> Minting uc \<in> L \<Longrightarrow> changes L S (snd (recordMintedToken uc i token S))"
  by (auto simp: recordMintedToken_def keyed_user split: option.split intro!: changes_one [OF mints])

lemma remove_changes: "Silent \<in> L \<Longrightarrow> changes L S (remove_session dc S)"
  by (auto simp: remove_session_def findByDeviceCode_def split: option.split intro: changes_one [OF closes])

lemma cleanup_loop_changes:
  "Silent \<in> L \<Longrightarrow> distinct (map fst xs) \<Longrightarrow> (\<And>dc s. (dc, s) \<in> set xs \<Longrightarrow> js_get (by_device S) dc = Some s) \<Longrightarrow>
     changes L S (foldl (\<lambda>T (dc, s). if now > ds_expires s
       then \<lparr>by_device = js_del dc (by_device T), by_user = js_del (ds_user_code s) (by_user T)\<rparr> else T) S xs)"
proof (induction xs arbitrary: S)
  case (Cons x xs)
  obtain dc s where x: "x = (dc, s)" by (cases x)
  let ?S = "\<lparr>by_device = js_del dc (by_device S), by_user = js_del (ds_user_code s) (by_user S)\<rparr>"
  have "changes L S ?S" using Cons.prems x by (intro changes_one [OF closes]) simp_all
  moreover have "js_get (by_device ?S) dc' = Some s'" if "(dc', s') \<in> set xs" for dc' s'
    using Cons.prems(2,3) that x by (auto simp: rev_image_eqI)
  ultimately show ?case using Cons.IH [of ?S] Cons.IH [of S] Cons.prems x changes_trans [of L S ?S] by simp
qed simp

lemma cleanup_changes: "keyed S \<Longrightarrow> Silent \<in> L \<Longrightarrow> changes L S (cleanup now S)"
  unfolding cleanup_def by (rule cleanup_loop_changes) (auto simp: keyed_def js_wf_def)


section \<open>Histories\<close>

text \<open>
  The requests of the flow, the clean-up, and everything else that happens to users and tokens.  A
  start whose random bytes run out has not returned and has changed nothing.
\<close>

datatype device_op =
  Start_op int utext "nat list list" origin_headers "(utext \<times> utext option) option"
| Verify_op faults int "byte list" bool "utext option" auth_request
| Deny_op utext
| Poll_op faults int "poll_body option"
| Cleanup_op int
| Elsewhere_op auth_op

fun device_step :: "device_env \<Rightarrow> device_op \<Rightarrow> device_state \<Rightarrow> device_reply option \<times> device_state" where
  "device_step E (Start_op now dc blocks h body) st =
     (case start_flow E now dc blocks h body st of None \<Rightarrow> (None, st) | Some (r, st') \<Rightarrow> (Some r, st'))"
| "device_step E (Verify_op F now bytes csrf_ok raw rq) st =
     (case verify_request E F now bytes csrf_ok raw rq st of (r, st') \<Rightarrow> (Some r, st'))"
| "device_step E (Deny_op uc) st = (None, st\<lparr>dv_store := snd (deny uc (dv_store st))\<rparr>)"
| "device_step E (Poll_op F now body) st = (case poll E F now body st of (r, st') \<Rightarrow> (Some r, st'))"
| "device_step E (Cleanup_op now) st = (None, st\<lparr>dv_store := cleanup now (dv_store st)\<rparr>)"
| "device_step E (Elsewhere_op op) st = (None, st\<lparr>dv_auth := auth_step (auth_env.truncate E) (dv_auth st) op\<rparr>)"

fun device_run :: "device_env \<Rightarrow> device_op list \<Rightarrow> device_state \<Rightarrow> device_state" where
  "device_run E [] st = st"
| "device_run E (op # ops) st = device_run E ops (snd (device_step E op st))"

definition device_init :: "auth_state \<Rightarrow> device_state" where
  "device_init A = \<lparr>dv_store = \<lparr>by_device = [], by_user = []\<rparr>, dv_auth = A\<rparr>"

definition approved_code :: "device_reply \<Rightarrow> utext option \<Rightarrow> utext option" where
  "approved_code r raw = (if r = Approved_page then raw else None)"

fun op_labels :: "device_op \<Rightarrow> device_reply option \<Rightarrow> store_label set" where
  "op_labels (Start_op now dc blocks h body) r = {Opened dc}"
| "op_labels (Verify_op F now bytes csrf_ok raw rq) (Some r) = insert Silent (Minting ` set_option (approved_code r raw))"
| "op_labels _ r = {Silent}"

lemma start_changes: "changes {Opened dc} (dv_store st) (dv_store (snd (device_step E (Start_op now dc blocks h body) st)))"
proof (cases "start_flow E now dc blocks h body st")
  case (Some x)
  obtain r st' where x: "x = (r, st')" by (cases x)
  show ?thesis
  proof (cases "st' = st")
    case False
    with Some x obtain client host s S where c:
      "createSession (to_lower_case E) now dc blocks client host (dv_store st) = Some (Some (s, S))" "st' = st\<lparr>dv_store := S\<rparr>"
      by (auto simp: start_flow_def split: option.splits if_splits)
    from created_session [OF c(1)] have "store_step (Opened dc) (dv_store st) S"
      using opens [of "dv_store st" s] by auto
    with Some x c(2) show ?thesis by (simp add: changes_one)
  qed (use Some x in simp)
qed simp

lemma mint_for_device_changes:
  assumes "keyed (dv_store st)" "Minting ` set_option (approved_code (fst (mint_for_device E F now bytes uc usr st)) (Some uc)) \<subseteq> L"
  shows "changes L (dv_store st) (dv_store (snd (mint_for_device E F now bytes uc usr st)))"
proof -
  have "snd (recordMintedToken uc i token S) = S" if "\<not> fst (recordMintedToken uc i token S)" for i token S
    using that by (auto simp: recordMintedToken_def split: option.splits if_splits)
  then have refused: "recordMintedToken uc i token S = (False, T) \<Longrightarrow> T = S" for i token S T by (metis fst_conv snd_conv)
  have minted: "recordMintedToken uc i token (dv_store st) = (True, T) \<Longrightarrow> Minting uc \<in> L \<Longrightarrow> changes L (dv_store st) T" for i token T
    using record_changes [OF assms(1), of uc L i token] by simp
  show ?thesis using assms(2) minted
    by (auto simp: mint_for_device_def Let_def approved_code_def split: option.split sum.split prod.split bool.split dest!: refused)
qed

lemma verify_handler_changes:
  assumes "keyed (dv_store st)"
    "insert Silent (Minting ` set_option (approved_code (fst (verify_handler E F now bytes csrf_ok raw p st)) raw)) \<subseteq> L"
  shows "changes L (dv_store st) (dv_store (snd (verify_handler E F now bytes csrf_ok raw p st)))"
proof (cases "csrf_ok \<and> (\<exists>uc. raw = Some uc \<and> user_code_ok uc \<and> \<not> closed_session now (findByUserCode uc (dv_store st)))")
  case True
  then obtain uc where uc: "csrf_ok" "raw = Some uc" "user_code_ok uc" "\<not> closed_session now (findByUserCode uc (dv_store st))" by auto
  let ?st = "st\<lparr>dv_store := snd (approve uc (uid (pp_user p)) (dv_store st))\<rparr>"
  have a: "changes L (dv_store st) (dv_store ?st)" using assms by (simp add: approve_changes)
  have "changes L (dv_store ?st) (dv_store (snd (mint_for_device E F now bytes uc (pp_user p) ?st)))"
    using assms(2) uc changes_keyed [OF a assms(1)] by (intro mint_for_device_changes) (simp_all add: verify_handler_def)
  with a show ?thesis using uc by (simp add: verify_handler_def changes_trans)
qed (auto simp: verify_handler_def split: option.split)

lemma verify_changes:
  assumes "keyed (dv_store st)"
    "insert Silent (Minting ` set_option (approved_code (fst (verify_request E F now bytes csrf_ok raw rq st)) raw)) \<subseteq> L"
  shows "changes L (dv_store st) (dv_store (snd (verify_request E F now bytes csrf_ok raw rq st)))"
proof -
  obtain d A where c: "auth_chain (auth_env.truncate E) F now verify_config rq (dv_auth st) = (d, A)"
    by (cases "auth_chain (auth_env.truncate E) F now verify_config rq (dv_auth st)")
  let ?st = "st\<lparr>dv_auth := A\<rparr>"
  show ?thesis
  proof (cases "\<exists>p. d = Proceed (Some p)")
    case True
    then obtain p where p: "verify_request E F now bytes csrf_ok raw rq st = verify_handler E F now bytes csrf_ok raw p ?st"
      using c by (auto simp: verify_request_def Let_def)
    with assms verify_handler_changes [of ?st E F now bytes csrf_ok raw p L] show ?thesis by simp
  next
    case False
    then show ?thesis using c by (auto simp: verify_request_def Let_def split: decision.split option.split)
  qed
qed

lemma deliver_changes:
  "changes {Silent} (dv_store st) (dv_store (snd (deliver_token F now s st)))"
  using remove_changes [of "{Silent}" "dv_store st" "ds_device s"]
  by (auto simp: deliver_token_def split: option.split)

lemma poll_session_changes:
  assumes "js_get (by_device (dv_store st)) (ds_device s) = Some s"
  shows "changes {Silent} (dv_store st) (dv_store (snd (poll_session F now s st)))"
proof -
  have w: "changes {Silent} (dv_store st) (write_session s' (dv_store st))"
    if "ds_device s' = ds_device s" "ds_user_code s' = ds_user_code s" "ds_token s' = ds_token s" "session_ok s \<Longrightarrow> session_ok s'" for s'
    using assms that by (intro changes_one [OF assigns [where s = s]]) simp_all
  have d: "changes {Silent} (dv_store st) (dv_store (snd (deliver_token F now s' (st\<lparr>dv_store := write_session s' (dv_store st)\<rparr>))))"
    if "s' = s\<lparr>ds_last_poll := now\<rparr>" for s'
    using w [of s'] deliver_changes [of "st\<lparr>dv_store := write_session s' (dv_store st)\<rparr>" F now s'] that
    by (auto simp: session_ok_def intro: changes_trans)
  show ?thesis using d w by (auto simp: poll_session_def Let_def session_ok_def split: device_status.split)
qed

lemma poll_changes:
  "keyed (dv_store st) \<Longrightarrow> changes {Silent} (dv_store st) (dv_store (snd (poll E F now body st)))"
  by (auto simp: poll_def findByDeviceCode_def keyed_get split: option.split intro!: poll_session_changes)

lemma device_step_changes:
  "keyed (dv_store st) \<Longrightarrow> changes (op_labels op (fst (device_step E op st))) (dv_store st) (dv_store (snd (device_step E op st)))"
proof (cases op)
  case (Verify_op F now bytes csrf_ok raw rq)
  moreover assume "keyed (dv_store st)"
  ultimately show ?thesis by (simp add: case_prod_unfold) (rule verify_changes, simp_all)
next
  case (Start_op now dc blocks h body)
  then show ?thesis using start_changes by simp
qed (auto simp: case_prod_unfold deny_changes cleanup_changes poll_changes)


section \<open>A code is redeemed once\<close>

definition redeems :: "utext \<Rightarrow> device_op \<Rightarrow> device_reply option \<Rightarrow> bool" where
  "redeems dc op r =
     (case (op, r) of
        (Poll_op F now (Some b), Some (Token_issued token i usr)) \<Rightarrow> pb_device b = dc
      | _ \<Rightarrow> False)"

fun deliveries :: "device_env \<Rightarrow> utext \<Rightarrow> device_op list \<Rightarrow> device_state \<Rightarrow> nat" where
  "deliveries E dc [] st = 0"
| "deliveries E dc (op # ops) st =
     (case device_step E op st of (r, st') \<Rightarrow> (if redeems dc op r then 1 else 0) + deliveries E dc ops st')"

fun start_codes :: "device_op list \<Rightarrow> utext list" where
  "start_codes [] = []"
| "start_codes (Start_op now dc blocks h body # ops) = dc # start_codes ops"
| "start_codes (op # ops) = start_codes ops"

definition present :: "utext \<Rightarrow> device_store \<Rightarrow> nat" where
  "present dc S = (if js_get (by_device S) dc = None then 0 else 1)"

lemma issued_session:
  assumes "poll E F now (Some b) st = (Token_issued token i usr, st')"
  obtains s where "findByDeviceCode (pb_device b) (dv_store st) = Some s" "ds_token s = Some token"
    "dv_store st' = remove_session (ds_device s) (write_session (s\<lparr>ds_last_poll := now\<rparr>) (dv_store st))"
proof -
  obtain s where s: "findByDeviceCode (pb_device b) (dv_store st) = Some s" "poll_session F now s st = (Token_issued token i usr, st')"
    using assms by (auto simp: poll_def split: option.splits if_splits)
  let ?s = "s\<lparr>ds_last_poll := now\<rparr>" and ?st = "st\<lparr>dv_store := write_session (s\<lparr>ds_last_poll := now\<rparr>) (dv_store st)\<rparr>"
  have "deliver_token F now ?s ?st = (Token_issued token i usr, st')"
    using s(2) by (auto simp: poll_session_def Let_def split: if_splits device_status.splits)
  with s(1) show thesis
    by (intro that [of s]) (auto simp: deliver_token_def split: option.splits if_splits)
qed

lemma redeeming_removes:
  assumes "keyed (dv_store st)" "redeems dc op (fst (device_step E op st))"
  shows "present dc (dv_store st) = 1 \<and> present dc (dv_store (snd (device_step E op st))) = 0"
proof -
  obtain F now b token i usr st' where op: "op = Poll_op F now (Some b)" "pb_device b = dc"
    "poll E F now (Some b) st = (Token_issued token i usr, st')"
    using assms(2) by (auto simp: redeems_def case_prod_unfold prod_eq_iff split: device_op.splits option.splits device_reply.splits)
  from issued_session [OF op(3)] obtain s where s: "findByDeviceCode dc (dv_store st) = Some s"
    "dv_store st' = remove_session (ds_device s) (write_session (s\<lparr>ds_last_poll := now\<rparr>) (dv_store st))"
    using op(2) by metis
  then have "ds_device s = dc" using keyed_get [OF assms(1)] by (simp add: findByDeviceCode_def)
  with s op show ?thesis by (simp add: present_def findByDeviceCode_def remove_session_def write_session_def)
qed

lemma present_step:
  assumes "keyed (dv_store st)"
  shows "present dc (dv_store (snd (device_step E op st))) \<le> present dc (dv_store st) + count_list (start_codes [op]) dc"
proof -
  obtain ls where ls: "store_steps ls (dv_store st) (dv_store (snd (device_step E op st)))"
    "set ls \<subseteq> op_labels op (fst (device_step E op st))"
    using device_step_changes [OF assms, of op E] by (auto simp: changes_def)
  have "Opened dc \<in> op_labels op r \<Longrightarrow> count_list (start_codes [op]) dc = 1" for r
    by (cases op; cases r) auto
  with ls steps_present [OF ls(1), of dc] show ?thesis by (auto simp: present_def)
qed

lemma start_codes_Cons: "start_codes (op # ops) = start_codes [op] @ start_codes ops"
  by (cases op) simp_all

lemma step_keeps_keyed: "keyed (dv_store st) \<Longrightarrow> keyed (dv_store (snd (device_step E op st)))"
  using device_step_changes changes_keyed by blast

lemma deliveries_bound:
  "keyed (dv_store st) \<Longrightarrow> deliveries E dc ops st \<le> present dc (dv_store st) + count_list (start_codes ops) dc"
proof (induction ops arbitrary: st)
  case (Cons op ops)
  from Cons.IH [OF step_keeps_keyed [OF Cons.prems], of E op] redeeming_removes [OF Cons.prems, of dc op E]
    present_step [OF Cons.prems, of dc E op]
  show ?case by (subst start_codes_Cons) (auto simp: case_prod_unfold)
qed simp

text \<open>
  C7.  Whatever the order of polls, approvals and clean-ups, a device code is answered with a token
  at most as often as flows were started with it, so a replayed code gets nothing.
\<close>

theorem device_codes_are_redeemed_once:
  "deliveries E dc ops (device_init A) \<le> count_list (start_codes ops) dc"
  using deliveries_bound [of "device_init A" E dc ops] by (simp add: device_init_def keyed_def present_def)

section \<open>No token without an approval\<close>

lemma steps_ok: "store_steps ls S T \<Longrightarrow> store_ok S \<Longrightarrow> (\<And>dc. Opened dc \<notin> set ls) \<Longrightarrow> store_ok T"
proof (induction rule: store_steps.induct)
  case (more l S T ls V)
  then have "store_ok T" by (intro step_ok [of l S T]) auto
  with more show ?case by simp
qed simp

lemma store_ok_keyed: "store_ok S \<Longrightarrow> keyed S"
  by (auto simp: store_ok_def keyed_def list_all_iff js_wf_def)

lemma device_step_ok:
  assumes "store_ok (dv_store st)" "\<And>dc. dc \<in> set (start_codes [op]) \<Longrightarrow> js_get (by_device (dv_store st)) dc = None"
  shows "store_ok (dv_store (snd (device_step E op st)))"
proof (cases "start_codes [op]")
  case Nil
  then have "Opened dc \<notin> op_labels op r" for dc r by (cases op; cases r) auto
  moreover obtain ls where "store_steps ls (dv_store st) (dv_store (snd (device_step E op st)))"
    "set ls \<subseteq> op_labels op (fst (device_step E op st))"
    using device_step_changes [OF store_ok_keyed [OF assms(1)], of op E] by (auto simp: changes_def)
  ultimately show ?thesis using steps_ok [OF _ assms(1)] by blast
next
  case (Cons dc rest)
  then obtain now blocks h body where op: "op = Start_op now dc blocks h body" by (cases op) auto
  show ?thesis
  proof (cases "snd (device_step E op st) = st")
    case False
    then obtain client host s S where c:
      "createSession (to_lower_case E) now dc blocks client host (dv_store st) = Some (Some (s, S))"
      "dv_store (snd (device_step E op st)) = S"
      by (auto simp: op start_flow_def split: option.splits if_splits)
    from created_session [OF c(1)] c(2) assms op show ?thesis
      using insert_ok [of "dv_store st" dc s] by simp
  qed (use assms(1) in simp)
qed

lemma codes_stay_fresh:
  assumes "store_ok (dv_store st)" "distinct (start_codes (op # ops))"
    "\<And>dc. dc \<in> set (start_codes (op # ops)) \<Longrightarrow> js_get (by_device (dv_store st)) dc = None"
  shows "dc \<in> set (start_codes ops) \<Longrightarrow> js_get (by_device (dv_store (snd (device_step E op st)))) dc = None"
proof -
  assume dc: "dc \<in> set (start_codes ops)"
  have "start_codes (op # ops) = start_codes [op] @ start_codes ops" by (rule start_codes_Cons)
  then have "count_list (start_codes [op]) dc = 0" "present dc (dv_store st) = 0"
    using assms(2) assms(3) [of dc] dc by (auto simp: count_list_0_iff present_def)
  then have "present dc (dv_store (snd (device_step E op st))) = 0"
    using present_step [OF store_ok_keyed [OF assms(1)], of dc E op] by simp
  then show ?thesis by (simp add: present_def split: if_splits)
qed

lemma device_run_ok:
  "store_ok (dv_store st) \<Longrightarrow> distinct (start_codes ops) \<Longrightarrow>
     (\<And>dc. dc \<in> set (start_codes ops) \<Longrightarrow> js_get (by_device (dv_store st)) dc = None) \<Longrightarrow>
     store_ok (dv_store (device_run E ops st))"
proof (induction ops arbitrary: st)
  case (Cons op ops)
  have split: "start_codes (op # ops) = start_codes [op] @ start_codes ops" by (rule start_codes_Cons)
  let ?st = "snd (device_step E op st)"
  have ok: "store_ok (dv_store ?st)" using Cons.prems split by (intro device_step_ok) auto
  from Cons.IH [OF ok] codes_stay_fresh [OF Cons.prems] Cons.prems(2) split show ?case by simp
qed simp

text \<open>
  As long as the device codes drawn are different, the map of user codes and the map of
  sessions stay inverse to each other, an approved session has an approver, only an approved one
  holds a token, and the pace a client is told lies between 5 and 60 seconds.
\<close>

theorem session_maps_agree:
  assumes "distinct (start_codes ops)"
  shows "store_ok (dv_store (device_run E ops (device_init A)))"
  using assms by (intro device_run_ok) (simp_all add: device_init_def store_ok_def)

text \<open>A poll that is answered with a token although no form for the session's code was.\<close>

definition hands_out :: "utext \<Rightarrow> device_op \<Rightarrow> device_state \<Rightarrow> device_reply option \<Rightarrow> bool" where
  "hands_out uc op st r =
     (case (op, r) of
        (Poll_op F now (Some b), Some (Token_issued token i usr)) \<Rightarrow>
          (case findByDeviceCode (pb_device b) (dv_store st) of Some s \<Rightarrow> ds_user_code s = uc | None \<Rightarrow> False)
      | _ \<Rightarrow> False)"

definition approves :: "utext \<Rightarrow> device_op \<Rightarrow> device_reply option \<Rightarrow> bool" where
  "approves uc op r =
     (case (op, r) of (Verify_op F now bytes csrf_ok raw rq, Some Approved_page) \<Rightarrow> raw = Some uc | _ \<Rightarrow> False)"

fun hand_outs :: "device_env \<Rightarrow> utext \<Rightarrow> device_op list \<Rightarrow> device_state \<Rightarrow> nat" where
  "hand_outs E uc [] st = 0"
| "hand_outs E uc (op # ops) st =
     (case device_step E op st of (r, st') \<Rightarrow> (if hands_out uc op st r then 1 else 0) + hand_outs E uc ops st')"

fun approvals :: "device_env \<Rightarrow> utext \<Rightarrow> device_op list \<Rightarrow> device_state \<Rightarrow> nat" where
  "approvals E uc [] st = 0"
| "approvals E uc (op # ops) st =
     (case device_step E op st of (r, st') \<Rightarrow> (if approves uc op r then 1 else 0) + approvals E uc ops st')"


definition tokened :: "utext \<Rightarrow> device_store \<Rightarrow> nat" where
  "tokened uc S = (if untokened uc S then 0 else 1)"

lemma steps_untokened:
  "store_steps ls S T \<Longrightarrow> store_ok S \<Longrightarrow> (\<And>dc. Opened dc \<notin> set ls) \<Longrightarrow> untokened uc S \<Longrightarrow> Minting uc \<notin> set ls \<Longrightarrow> untokened uc T"
proof (induction rule: store_steps.induct)
  case (more l S T ls V)
  then have "store_ok T" "untokened uc T" by (auto intro: step_ok [of l S T] step_untokened [of l S T])
  with more show ?case by simp
qed simp

lemma opening_untokened:
  "untokened uc S \<Longrightarrow> ds_token s = None \<Longrightarrow>
     untokened uc \<lparr>by_device = js_put dc s (by_device S), by_user = js_put (ds_user_code s) dc (by_user S)\<rparr>"
  by (simp add: untokened_def)

lemma device_step_untokened:
  assumes "store_ok (dv_store st)" "untokened uc (dv_store st)" "\<not> approves uc op (fst (device_step E op st))"
  shows "untokened uc (dv_store (snd (device_step E op st)))"
proof (cases "start_codes [op]")
  case Nil
  then have no_open: "Opened dc \<notin> op_labels op r" for dc r by (cases op; cases r) auto
  have no_mint: "Minting uc \<notin> op_labels op r" if "\<not> approves uc op r" for r
    using that by (cases op; cases r) (auto simp: approves_def approved_code_def split: if_splits)
  obtain ls where "store_steps ls (dv_store st) (dv_store (snd (device_step E op st)))"
    "set ls \<subseteq> op_labels op (fst (device_step E op st))"
    using device_step_changes [OF store_ok_keyed [OF assms(1)], of op E] by (auto simp: changes_def)
  with no_open no_mint [OF assms(3)] show ?thesis using steps_untokened [OF _ assms(1) _ assms(2)] by blast
next
  case (Cons dc rest)
  then obtain now blocks h body where op: "op = Start_op now dc blocks h body" by (cases op) auto
  show ?thesis
  proof (cases "snd (device_step E op st) = st")
    case False
    then obtain client host s S where c:
      "createSession (to_lower_case E) now dc blocks client host (dv_store st) = Some (Some (s, S))"
      "dv_store (snd (device_step E op st)) = S"
      by (auto simp: op start_flow_def split: option.splits if_splits)
    from created_session [OF c(1)] c(2) opening_untokened [OF assms(2)] show ?thesis by simp
  qed (use assms(2) in simp)
qed

lemma hands_out_takes:
  assumes "store_ok (dv_store st)" "hands_out uc op st (fst (device_step E op st))"
  shows "tokened uc (dv_store st) = 1 \<and> tokened uc (dv_store (snd (device_step E op st))) = 0"
proof -
  obtain F now b token i usr st' s0 where op: "op = Poll_op F now (Some b)"
    "poll E F now (Some b) st = (Token_issued token i usr, st')"
    "findByDeviceCode (pb_device b) (dv_store st) = Some s0" "ds_user_code s0 = uc"
    using assms(2) by (auto simp: hands_out_def case_prod_unfold prod_eq_iff split: device_op.splits option.splits device_reply.splits)
  from issued_session [OF op(2)] op(3) have s: "ds_token s0 = Some token"
    "dv_store st' = remove_session (ds_device s0) (write_session (s0\<lparr>ds_last_poll := now\<rparr>) (dv_store st))"
    by auto
  let ?dc = "ds_device s0"
  have at: "js_get (by_device (dv_store st)) ?dc = Some s0" "js_get (by_user (dv_store st)) uc = Some ?dc"
    using store_ok_device [OF assms(1)] op(3,4) by (auto simp: findByDeviceCode_def)
  have "\<not> untokened uc (dv_store st)" using at(1) op(4) s(1) by (auto simp: untokened_def)
  moreover have "untokened uc (dv_store st')"
  proof -
    have "ds_user_code s' \<noteq> uc" if "dc' \<noteq> ?dc" "js_get (by_device (dv_store st)) dc' = Some s'" for dc' s'
      using store_ok_device [OF assms(1) that(2)] that(1) at(2) by auto
    then show ?thesis by (simp add: s(2) untokened_def remove_session_def findByDeviceCode_def write_session_def)
  qed
  ultimately show ?thesis using op by (simp add: tokened_def)
qed

lemma hand_outs_bound:
  "store_ok (dv_store st) \<Longrightarrow> distinct (start_codes ops) \<Longrightarrow>
     (\<And>dc. dc \<in> set (start_codes ops) \<Longrightarrow> js_get (by_device (dv_store st)) dc = None) \<Longrightarrow>
     hand_outs E uc ops st \<le> tokened uc (dv_store st) + approvals E uc ops st"
proof (induction ops arbitrary: st)
  case (Cons op ops)
  have split: "start_codes (op # ops) = start_codes [op] @ start_codes ops" by (rule start_codes_Cons)
  let ?st = "snd (device_step E op st)" and ?r = "fst (device_step E op st)"
  have ok: "store_ok (dv_store ?st)" using Cons.prems split by (intro device_step_ok) auto
  have "js_get (by_device (dv_store ?st)) dc = None" if "dc \<in> set (start_codes ops)" for dc
    using codes_stay_fresh [OF Cons.prems] that by simp
  then have later: "hand_outs E uc ops ?st \<le> tokened uc (dv_store ?st) + approvals E uc ops ?st"
    using Cons.IH [OF ok] Cons.prems(2) split by simp
  have one: "tokened uc (dv_store ?st) \<le> tokened uc (dv_store st) + (if approves uc op ?r then 1 else 0)"
    using device_step_untokened [OF Cons.prems(1), of uc op E] by (auto simp: tokened_def)
  show ?case
  proof (cases "hands_out uc op st ?r")
    case True
    with hands_out_takes [OF Cons.prems(1) this] later show ?thesis by (simp add: case_prod_unfold)
  qed (use later one in \<open>simp add: case_prod_unfold split: if_splits\<close>)
qed simp

text \<open>
  C17.  A client is handed a token for a user code at most as often as a signed-in user's form with
  that code was answered with the page of success, as long as the device codes drawn are different.
\<close>

theorem no_token_without_approval:
  assumes "distinct (start_codes ops)"
  shows "hand_outs E uc ops (device_init A) \<le> approvals E uc ops (device_init A)"
  using hand_outs_bound [of "device_init A" ops E uc] assms by (simp add: device_init_def store_ok_def tokened_def untokened_def)


section \<open>A second approver\<close>

definition sample_device_env :: device_env where
  "sample_device_env = \<lparr>parse_json = (\<lambda>s. Some (JArr [])), stringify_scopes = (\<lambda>ss. u ''[]''), hash_token = id,
     parse_date = (\<lambda>s. None), date_to_iso = (\<lambda>n. u ''1970-01-01T00:00:00.000Z''), is_datetime = (\<lambda>s. False),
     parse_number = (\<lambda>s. None), to_lower_case = id, expected_client = u ''cli'', configured_origin = u ''http://localhost'',
     trusted_hosts = []\<rparr>"

definition ann :: user_row where
  "ann = \<lparr>usr_id = 7, usr_display = u ''Ann'', usr_email = None, usr_legacy = 0, usr_service = 0, usr_disabled = None\<rparr>"

definition bob :: user_row where
  "bob = \<lparr>usr_id = 8, usr_display = u ''Bob'', usr_email = None, usr_legacy = 0, usr_service = 0, usr_disabled = None\<rparr>"

definition sample_device_state :: device_state where
  "sample_device_state = device_init (auth_init [ann, bob] empty_db)"

definition signed_in :: "int \<Rightarrow> auth_request" where
  "signed_in i = \<lparr>rq_method = POST, rq_url = ''/auth/device/verify'', rq_params = None, rq_query = None, rq_body = None,
     rq_authorization = None, rq_session = Session_user i\<rparr>"

definition no_headers :: origin_headers where
  "no_headers = \<lparr>forwarded_host = None, host_header = None, forwarded_proto = None, protocol = []\<rparr>"

definition both_approve :: "device_op list" where
  "both_approve =
     [Start_op 0 (u ''dc'') [replicate 16 0] no_headers (Some (u ''cli'', None)),
      Verify_op no_faults 1 (replicate 20 1) True (Some (u ''AAAAAAAA'')) (signed_in 7),
      Verify_op no_faults 2 (replicate 20 2) True (Some (u ''AAAAAAAA'')) (signed_in 8)]"

definition sample_poll :: device_op where
  "sample_poll = Poll_op no_faults 3 (Some \<lparr>pb_grant = DEVICE_CODE_GRANT, pb_device = u ''dc'', pb_client = u ''cli''\<rparr>)"

theorem session_maps_agree_witness:
  "store_ok (dv_store (device_run sample_device_env both_approve (device_init (auth_init [ann, bob] empty_db))))"
  by (rule session_maps_agree) (simp add: both_approve_def)

theorem no_token_without_approval_witness:
  "hand_outs sample_device_env (u ''AAAAAAAA'') (both_approve @ [sample_poll]) (device_init (auth_init [ann, bob] empty_db)) \<le>
     approvals sample_device_env (u ''AAAAAAAA'') (both_approve @ [sample_poll]) (device_init (auth_init [ann, bob] empty_db))"
  by (rule no_token_without_approval) (simp add: both_approve_def sample_poll_def)

lemma approve_again:
  assumes "store_ok S" and "findByUserCode uc S = Some s" and "ds_approver s = Some a"
  shows "snd (approve uc usr S) = S"
proof -
  have "ds_status s = Device_approved" using find_by_user_ok [OF assms(1,2)] assms(3) by (simp add: session_ok_def)
  then show ?thesis using assms(2) by (simp add: approve_def)
qed

lemma minted_for:
  assumes "mint_for_device E F now bytes uc usr st = (Approved_page, st1)" and "findByUserCode uc (dv_store st) = Some s"
  obtains r token where "dv_store st1 = write_session (s\<lparr>ds_token_id := Some (tok_id r), ds_token := Some token\<rparr>) (dv_store st)"
    and "tokens (au_tokens (dv_auth st1)) = tokens (au_tokens (dv_auth st)) @ [r]"
    and "tok_user r = uid usr" and "tok_hash r = hash_token E token" and "au_users (dv_auth st1) = au_users (dv_auth st)"
proof -
  let ?m = "generate_token (hash_token E) bytes"
  have hash: "mt_hash ?m = hash_token E (mt_token ?m)" by (simp add: generate_token_def Let_def)
  obtain r T S where r: "insert_token (parse_json E) (\<lambda>i. find_user i (dv_auth st) \<noteq> None)
        (\<lambda>p. find_project (au_db (dv_auth st)) p \<noteq> None) now
        \<lparr>ti_user = uid usr, ti_name = tokenName (date_to_iso E) (ds_hostname s) now, ti_prefix = mt_prefix ?m,
         ti_suffix = mt_suffix ?m, ti_hash = mt_hash ?m, ti_scopes = Some (stringify_scopes E []),
         ti_expires = None, ti_project = None\<rparr> (au_tokens (dv_auth st)) = Inr (r, T)"
    "recordMintedToken uc (tok_id r) (mt_token ?m) (dv_store st) = (True, S)"
    "st1 = st\<lparr>dv_store := S, dv_auth := dv_auth st\<lparr>au_tokens := T\<rparr>\<rparr>"
    using assms by (auto simp: mint_for_device_def Let_def split: if_splits sum.splits prod.splits bool.splits)
  from r(1) have "tokens T = tokens (au_tokens (dv_auth st)) @ [r]" "tok_user r = uid usr" "tok_hash r = mt_hash ?m"
    by (auto simp: insert_token_def Let_def split: if_splits)
  moreover from r(2) have "S = write_session (s\<lparr>ds_token_id := Some (tok_id r), ds_token := Some (mt_token ?m)\<rparr>) (dv_store st)"
    using assms(2) by (auto simp: recordMintedToken_def split: if_splits)
  ultimately show thesis using that [of "mt_token ?m" r] hash r(3) by simp
qed

text \<open>
  C38.  The page does not look at the answer of \<open>approve\<close>.  Once a user has approved a code, whoever
  sends it again from the page and is told that it is approved, the client is handed the token
  minted last, which is of the user who sent the code last, and is told that it belongs to
  the user who approved first; and no token is taken back, so one handed to nobody stays valid.
\<close>

theorem second_approver_takes_over:
  assumes "store_ok (dv_store st)" and "findByUserCode uc (dv_store st) = Some s" and "ds_approver s = Some a"
    and "verify_handler E F now bytes True (Some uc) p st = (Approved_page, st1)"
    and "poll E F' later (Some b) st1 = (Token_issued token i named, st2)" and "pb_device b = ds_device s"
  shows "map_option toAuthenticatedUser (find_user a (dv_auth st)) = Some named \<and>
    (\<exists>r\<in>set (tokens (au_tokens (dv_auth st1))). tok_id r = i \<and> tok_user r = uid (pp_user p) \<and> tok_hash r = hash_token E token) \<and>
    set (tokens (au_tokens (dv_auth st))) \<subseteq> set (tokens (au_tokens (dv_auth st1)))"
proof -
  have "st\<lparr>dv_store := dv_store st\<rparr> = st" by simp
  then have "mint_for_device E F now bytes uc (pp_user p) st = (Approved_page, st1)"
    using assms(4) approve_again [OF assms(1-3)] by (auto simp: verify_handler_def split: if_splits)
  from minted_for [OF this assms(2)] obtain r token' where m:
    "dv_store st1 = write_session (s\<lparr>ds_token_id := Some (tok_id r), ds_token := Some token'\<rparr>) (dv_store st)"
    "tokens (au_tokens (dv_auth st1)) = tokens (au_tokens (dv_auth st)) @ [r]"
    "tok_user r = uid (pp_user p)" "tok_hash r = hash_token E token'" "au_users (dv_auth st1) = au_users (dv_auth st)" .
  let ?s = "s\<lparr>ds_token_id := Some (tok_id r), ds_token := Some token'\<rparr>"
  have "findByDeviceCode (pb_device b) (dv_store st1) = Some ?s"
    by (simp add: findByDeviceCode_def m(1) write_session_def assms(6))
  with assms(5) have "poll_session F' later ?s st1 = (Token_issued token i named, st2)"
    by (auto simp: poll_def split: if_splits)
  then have "token = token'" "i = tok_id r" "map_option toAuthenticatedUser (find_user a (dv_auth st1)) = Some named"
    using assms(3) by (auto simp: poll_session_def deliver_token_def Let_def split: if_splits device_status.splits option.splits)
  moreover have "find_user a (dv_auth st1) = find_user a (dv_auth st)" by (simp add: find_user_def m(5))
  ultimately show ?thesis using m(2-4) by auto
qed

text \<open>Ann approves, Bob sends the same code, and the client polls.\<close>

definition approved_by_ann :: device_state where
  "approved_by_ann = device_run sample_device_env (take 2 both_approve) sample_device_state"

definition as_bob :: auth_principal where
  "as_bob = \<lparr>pp_user = toAuthenticatedUser bob, pp_method = By_session, pp_token = None, pp_scopes = None, pp_project = None\<rparr>"

definition poll_of_ann :: poll_body where
  "poll_of_ann = \<lparr>pb_grant = DEVICE_CODE_GRANT, pb_device = u ''dc'', pb_client = u ''cli''\<rparr>"

definition handed_over :: device_reply where
  "handed_over = fst (poll sample_device_env no_faults 3 (Some poll_of_ann)
     (snd (verify_handler sample_device_env no_faults 2 (replicate 20 2) True (Some (u ''AAAAAAAA'')) as_bob approved_by_ann)))"

theorem second_approver_takes_over_witness:
  "\<exists>token i. handed_over = Token_issued token i (toAuthenticatedUser ann) \<and>
     (\<exists>r\<in>set (tokens (au_tokens (dv_auth (snd (verify_handler sample_device_env no_faults 2 (replicate 20 2) True
         (Some (u ''AAAAAAAA'')) as_bob approved_by_ann))))). tok_id r = i \<and> tok_user r = usr_id bob)"
proof -
  let ?v = "verify_handler sample_device_env no_faults 2 (replicate 20 2) True (Some (u ''AAAAAAAA'')) as_bob approved_by_ann"
  let ?p = "poll sample_device_env no_faults 3 (Some poll_of_ann) (snd ?v)"
  have ok: "store_ok (dv_store approved_by_ann)"
    unfolding approved_by_ann_def sample_device_state_def by (rule session_maps_agree) (simp add: both_approve_def)
  have "case findByUserCode (u ''AAAAAAAA'') (dv_store approved_by_ann) of
      Some s \<Rightarrow> ds_approver s = Some 7 \<and> ds_device s = u ''dc'' | None \<Rightarrow> False" by code_simp
  then obtain s where s: "findByUserCode (u ''AAAAAAAA'') (dv_store approved_by_ann) = Some s" "ds_approver s = Some 7"
    "ds_device s = u ''dc''" by (auto split: option.splits)
  have "fst ?v = Approved_page" by code_simp
  then have v: "?v = (Approved_page, snd ?v)" by (metis prod.collapse)
  have "case handed_over of Token_issued token i named \<Rightarrow> True | _ \<Rightarrow> False" by code_simp
  then obtain token i named where h: "handed_over = Token_issued token i named" by (auto split: device_reply.splits)
  then have "?p = (Token_issued token i named, snd ?p)" unfolding handed_over_def by (metis prod.collapse)
  from second_approver_takes_over [OF ok s(1,2) v this] s(3)
  have t: "map_option toAuthenticatedUser (find_user 7 (dv_auth approved_by_ann)) = Some named"
    "\<exists>r\<in>set (tokens (au_tokens (dv_auth (snd ?v)))). tok_id r = i \<and> tok_user r = uid (pp_user as_bob)"
    by (auto simp: poll_of_ann_def)
  have "map_option toAuthenticatedUser (find_user 7 (dv_auth approved_by_ann)) = Some (toAuthenticatedUser ann)" by code_simp
  with t h show ?thesis by (auto simp: as_bob_def bob_def toAuthenticatedUser_def)
qed

section \<open>Names\<close>

text \<open>Letters and digits with single dashes between them.\<close>

definition safe_name :: "utext \<Rightarrow> bool" where
  "safe_name s \<longleftrightarrow> s \<noteq> [] \<and> list_all (\<lambda>c. name_point c \<or> c = 45) s \<and> hd s \<noteq> 45 \<and> last s \<noteq> 45 \<and>
     successively (\<lambda>a b. a \<noteq> 45 \<or> b \<noteq> 45) s"

lemma replace_runs_chars: "list_all (\<lambda>c. \<not> unwanted c \<or> c = 45) (replace_runs unwanted inside s)"
  by (induction unwanted inside s rule: replace_runs.induct) auto

lemma replace_runs_subset: "set (replace_runs unwanted inside s) \<subseteq> insert 45 (set s)"
  by (induction unwanted inside s rule: replace_runs.induct) auto

lemma single_dashes:
  "successively (\<lambda>a b. a \<noteq> 45 \<or> b \<noteq> 45) (replace_runs (\<lambda>c. c = 45) inside s) \<and>
     (inside \<longrightarrow> (case replace_runs (\<lambda>c. c = 45) inside s of [] \<Rightarrow> True | d # t \<Rightarrow> d \<noteq> 45))"
proof (induction s arbitrary: inside)
  case (Cons c s)
  from Cons.IH [of True] Cons.IH [of False] show ?case
    by (cases "replace_runs (\<lambda>c. c = 45) True s"; cases "replace_runs (\<lambda>c. c = 45) False s") auto
qed simp

lemma strip_end_prefix: "\<exists>t. s = strip_end s @ t"
proof -
  have "rev s = takeWhile (\<lambda>c. c = 45) (rev s) @ dropWhile (\<lambda>c. c = 45) (rev s)" by simp
  then have "s = strip_end s @ rev (takeWhile (\<lambda>c. c = 45) (rev s))"
    unfolding strip_end_def by (metis rev_append rev_rev_ident)
  then show ?thesis by blast
qed

lemma strip_end_last: "strip_end s \<noteq> [] \<Longrightarrow> last (strip_end s) \<noteq> 45"
  using hd_dropWhile [of "\<lambda>c. c = 45" "rev s"] by (auto simp: strip_end_def last_rev)

definition inner_ok :: "utext \<Rightarrow> bool" where
  "inner_ok s \<longleftrightarrow> list_all (\<lambda>c. name_point c \<or> c = 45) s \<and> (s \<noteq> [] \<longrightarrow> hd s \<noteq> 45) \<and> successively (\<lambda>a b. a \<noteq> 45 \<or> b \<noteq> 45) s"

lemma inner_prefix: "inner_ok (s @ t) \<Longrightarrow> inner_ok s"
  using successively_append_iff [of "\<lambda>a b. a \<noteq> 45 \<or> b \<noteq> 45" s t] by (auto simp: inner_ok_def)

lemma inner_strip: "inner_ok s \<Longrightarrow> inner_ok (strip_end s)"
  using strip_end_prefix inner_prefix by metis

lemma inner_take: "inner_ok s \<Longrightarrow> inner_ok (take n s)"
  using inner_prefix by (metis append_take_drop_id)

lemma safe_stripped: "inner_ok s \<Longrightarrow> strip_end s \<noteq> [] \<Longrightarrow> safe_name (strip_end s)"
  using inner_strip [of s] strip_end_last [of s] by (simp add: safe_name_def inner_ok_def)

lemma length_strip_end: "length (strip_end s) \<le> length s"
  using strip_end_prefix [of s] by (metis le_add1 length_append)

lemma safe_unknown: "safe_name (u ''unknown'') \<and> length (u ''unknown'') \<le> 32"
  by code_simp

lemma collapsed_inner:
  assumes "list_all (\<lambda>c. name_point c \<or> c = 45) s"
  shows "inner_ok (dropWhile (\<lambda>c. c = 45) (replace_runs (\<lambda>c. c = 45) False s))"
proof -
  let ?t = "replace_runs (\<lambda>c. c = 45) False s"
  have "list_all (\<lambda>c. name_point c \<or> c = 45) ?t"
    using assms replace_runs_subset [of "\<lambda>c. c = 45" False s] by (auto simp: list_all_iff)
  then have "list_all (\<lambda>c. name_point c \<or> c = 45) (dropWhile (\<lambda>c. c = 45) ?t)"
    by (auto simp: list_all_iff dest: set_dropWhileD)
  moreover have "successively (\<lambda>a b. a \<noteq> 45 \<or> b \<noteq> 45) (takeWhile (\<lambda>c. c = 45) ?t @ dropWhile (\<lambda>c. c = 45) ?t)"
    using single_dashes [of False s] by simp
  then have "successively (\<lambda>a b. a \<noteq> 45 \<or> b \<noteq> 45) (dropWhile (\<lambda>c. c = 45) ?t)"
    by (simp only: successively_append_iff)
  ultimately show ?thesis using hd_dropWhile [of "\<lambda>c. c = 45" ?t] by (simp add: inner_ok_def)
qed

text \<open>
  C40.  Whatever a client sends as its host name, and however its letters are lowered, the name kept
  is made of lower-case letters, digits and single dashes inside, at least one character and at
  most 32.
\<close>

theorem host_names_are_safe:
  "safe_name (sanitizeHostname lower raw) \<and> length (sanitizeHostname lower raw) \<le> 32"
proof (cases "case raw of None \<Rightarrow> True | Some r \<Rightarrow> trim_points r = []")
  case True
  then show ?thesis using safe_unknown by (auto simp: sanitizeHostname_def Let_def split: option.splits)
next
  case False
  then obtain r where r: "raw = Some r" "trim_points r \<noteq> []" by (auto split: option.splits)
  define out1 where "out1 = replace_runs (\<lambda>c. \<not> (name_point c \<or> c = 45)) False (lower (trim_points r))"
  define out2 where "out2 = dropWhile (\<lambda>c. c = 45) (replace_runs (\<lambda>c. c = 45) False out1)"
  define out3 where "out3 = (if length (strip_end out2) > 32 then strip_end (take 32 (strip_end out2)) else strip_end out2)"
  have "list_all (\<lambda>c. name_point c \<or> c = 45) out1"
    using replace_runs_chars [of "\<lambda>c. \<not> (name_point c \<or> c = 45)" False "lower (trim_points r)"]
    by (auto simp: out1_def list_all_iff)
  then have inner: "inner_ok out2" unfolding out2_def by (rule collapsed_inner)
  have "out3 \<noteq> [] \<Longrightarrow> safe_name out3" "length out3 \<le> 32"
    using safe_stripped [OF inner] safe_stripped [OF inner_take [OF inner_strip [OF inner]], of 32]
      length_strip_end [of "take 32 (strip_end out2)"]
    by (auto simp: out3_def)
  moreover have "sanitizeHostname lower raw = (if out3 = [] then u ''unknown'' else out3)"
    using r by (simp add: sanitizeHostname_def Let_def out1_def out2_def out3_def)
  ultimately show ?thesis using safe_unknown by simp
qed

end
