(* ===== verification/Audit_Log.thy ===== *)
theory Audit_Log
  imports Json_Text "HOL-Library.List_Lexorder"
begin

text \<open>
  The audit trail of \<open>src/repositories/audit-event.repository.ts\<close>: an append-only table whose rows
  commit to their predecessors by a digest, the walk that finds the first row that does not
  verify, and the bounded queries.  The two triggers of
  \<open>src/db/migrations/018-audit-events.ts\<close> refuse every change to a row.  SHA-256 in
  hexadecimal is the argument \<open>sha\<close>; a text is a list of code points, in which a code point in the
  range of the surrogates is an unpaired one.
\<close>

section \<open>JSON text of an array of texts and nulls\<close>

definition hex_digit :: "nat \<Rightarrow> nat" where
  "hex_digit n = (if n < 10 then 48 + n else 87 + n)"

definition escape_point :: "nat \<Rightarrow> utext" where
  "escape_point c =
     (if c = 34 then [92, 34] else if c = 92 then [92, 92]
      else if c = 8 then [92, 98] else if c = 9 then [92, 116] else if c = 10 then [92, 110]
      else if c = 12 then [92, 102] else if c = 13 then [92, 114]
      else if c < 32 \<or> (0xD800 \<le> c \<and> c < 0xE000) then
        [92, 117, hex_digit (c div 4096), hex_digit (c div 256 mod 16),
         hex_digit (c div 16 mod 16), hex_digit (c mod 16)]
      else [c])"

definition quote :: "utext \<Rightarrow> utext" where
  "quote s = 34 # concat (map escape_point s) @ [34]"

definition field_text :: "utext option \<Rightarrow> utext" where
  "field_text f = (case f of None \<Rightarrow> u ''null'' | Some s \<Rightarrow> quote s)"

fun rest_text :: "utext option list \<Rightarrow> utext" where
  "rest_text [] = [93]"
| "rest_text (f # fs) = 44 # field_text f @ rest_text fs"

fun stringify_array :: "utext option list \<Rightarrow> utext" where
  "stringify_array [] = [91, 93]"
| "stringify_array (f # fs) = 91 # field_text f @ rest_text fs"

definition unhex :: "nat \<Rightarrow> nat" where
  "unhex d = (if d < 58 then d - 48 else d - 87)"

definition unletter :: "nat \<Rightarrow> nat" where
  "unletter e = (if e = 98 then 8 else if e = 116 then 9 else if e = 110 then 10
     else if e = 102 then 12 else if e = 114 then 13 else e)"

text \<open>The first code point of an escaped text, and the rest of the text.\<close>

definition next_point :: "utext \<Rightarrow> nat \<times> utext" where
  "next_point s =
     (if hd s \<noteq> 92 then (hd s, tl s)
      else if s ! 1 \<noteq> 117 then (unletter (s ! 1), drop 2 s)
      else (unhex (s ! 2) * 4096 + unhex (s ! 3) * 256 + unhex (s ! 4) * 16 + unhex (s ! 5), drop 6 s))"

lemma unhex_digit [simp]: "n < 16 \<Longrightarrow> unhex (hex_digit n) = n"
  by (simp add: unhex_def hex_digit_def)

lemma four_digits:
  fixes n :: nat
  assumes "n < 65536"
  shows "n div 4096 * 4096 + n div 256 mod 16 * 256 + n div 16 mod 16 * 16 + n mod 16 = n"
proof -
  have "n div 16 div 16 = n div 256" "n div 256 div 16 = n div 4096"
    by (simp_all flip: div_mult2_eq)
  then show ?thesis
    using div_mult_mod_eq [of n 16] div_mult_mod_eq [of "n div 16" 16] div_mult_mod_eq [of "n div 256" 16]
    by linarith
qed

lemma next_plain: "c \<noteq> 92 \<Longrightarrow> next_point (c # x) = (c, x)"
  by (simp add: next_point_def)

lemma next_letter: "e \<noteq> 117 \<Longrightarrow> next_point (92 # e # x) = (unletter e, x)"
  by (simp add: next_point_def)

lemma next_hex: "next_point (92 # 117 # a # b # d # e # r) =
    (unhex a * 4096 + unhex b * 256 + unhex d * 16 + unhex e, r)"
  by (simp add: next_point_def)

lemma next_escaped: "next_point (escape_point c @ x) = (c, x)"
proof (cases "c = 34 \<or> c = 92 \<or> c \<in> {8, 9, 10, 12, 13}")
  case True
  then show ?thesis by (auto simp: escape_point_def next_letter unletter_def)
next
  case plain: False
  show ?thesis
  proof (cases "c < 32 \<or> (0xD800 \<le> c \<and> c < 0xE000)")
    case True
    then have small: "c < 65536" by auto
    then have "c div 4096 < 16" by simp
    moreover have "escape_point c @ x = 92 # 117 # hex_digit (c div 4096) # hex_digit (c div 256 mod 16) #
        hex_digit (c div 16 mod 16) # hex_digit (c mod 16) # x"
      using plain True by (simp add: escape_point_def)
    ultimately show ?thesis using four_digits [OF small] by (simp add: next_hex)
  next
    case False
    then have "escape_point c = [c]" using plain by (simp add: escape_point_def)
    then show ?thesis using plain by (simp add: next_plain)
  qed
qed

lemma escape_point_prefix: "escape_point c @ x = escape_point d @ y \<Longrightarrow> c = d \<and> x = y"
  by (metis next_escaped prod.inject)

lemma escape_point_head: "escape_point c @ x \<noteq> 34 # y"
  by (simp add: escape_point_def)

lemma quote_prefix: "quote s @ x = quote t @ y \<Longrightarrow> s = t \<and> x = y"
proof -
  have "concat (map escape_point s) @ 34 # x = concat (map escape_point t) @ 34 # y \<Longrightarrow> s = t \<and> x = y"
  proof (induction s arbitrary: t)
    case Nil
    then show ?case by (cases t) (simp_all add: escape_point_head [symmetric])
  next
    case (Cons c s)
    then obtain d t' where t: "t = d # t'" by (cases t) (simp_all add: escape_point_head)
    with Cons.prems have "escape_point c @ (concat (map escape_point s) @ 34 # x) =
        escape_point d @ (concat (map escape_point t') @ 34 # y)" by simp
    from escape_point_prefix [OF this] Cons.IH t show ?case by simp
  qed
  then show "quote s @ x = quote t @ y \<Longrightarrow> s = t \<and> x = y" by (simp add: quote_def)
qed

lemma field_prefix: "field_text f @ x = field_text g @ y \<Longrightarrow> f = g \<and> x = y"
  using quote_prefix [of "the f" x "the g" y]
  by (auto simp: field_text_def quote_def u_def split: option.splits)

lemma rest_text_inj: "rest_text fs = rest_text gs \<Longrightarrow> fs = gs"
proof (induction fs arbitrary: gs)
  case Nil
  then show ?case by (cases gs) auto
next
  case (Cons f fs)
  then obtain g gs' where "gs = g # gs'" by (cases gs) auto
  with Cons field_prefix [of f "rest_text fs" g "rest_text gs'"] show ?case by auto
qed

text \<open>No two arrays have the same text: no field can imitate another split into fields.\<close>

lemma stringify_array_inj: "stringify_array fs = stringify_array gs \<longleftrightarrow> fs = gs"
proof
  assume eq: "stringify_array fs = stringify_array gs"
  have "field_text f \<noteq> 93 # x" "field_text f @ y \<noteq> [93]" for f x y
    by (auto simp: field_text_def quote_def u_def split: option.splits)
  then show "fs = gs"
    using eq by (cases fs; cases gs) (auto dest!: field_prefix rest_text_inj)
qed simp

definition code_points :: "utext \<Rightarrow> bool" where
  "code_points s = list_all (\<lambda>c. c < 0x110000) s"

lemma hex_digit_less: "n < 16 \<Longrightarrow> hex_digit n < 128"
  by (simp add: hex_digit_def)

lemma valid_escape:
  assumes "c < 0x110000"
  shows "valid_text (escape_point c)"
proof (cases "c < 32 \<or> (0xD800 \<le> c \<and> c < 0xE000)")
  case True
  then have "c div 4096 < 16" by auto
  then have "list_all (\<lambda>d. d < 128) (escape_point c)"
    using True by (auto simp: escape_point_def hex_digit_less)
  then show ?thesis unfolding valid_text_def
    by (rule list.pred_mono_strong) (simp add: valid_code_point_def)
next
  case False
  then show ?thesis using assms by (auto simp: escape_point_def valid_text_def valid_code_point_def)
qed


section \<open>Rows\<close>

record chain_content =
  cc_timestamp :: utext
  cc_actor_type :: utext
  cc_actor_id :: utext
  cc_token_id :: "utext option"
  cc_action :: utext
  cc_resource_type :: utext
  cc_resource_id :: "utext option"
  cc_request_id :: "utext option"
  cc_metadata :: "utext option"

record audit_row =
  ae_id :: id
  ae_content :: chain_content
  ae_prev_hash :: "utext option"
  ae_row_hash :: "utext option"

record 'm audit_record =
  rec_actor_type :: utext
  rec_actor_id :: utext
  rec_token_id :: "utext option"
  rec_action :: utext
  rec_resource_type :: utext
  rec_resource_id :: "utext option"
  rec_request_id :: "utext option"
  rec_metadata :: "'m option"

record audit_db =
  audit_rows :: "audit_row list"
  audit_next :: id

definition AUDIT_CHAIN_GENESIS_HASH :: utext where
  "AUDIT_CHAIN_GENESIS_HASH = replicate 64 48"

definition AUDIT_CHAIN_DOMAIN :: utext where
  "AUDIT_CHAIN_DOMAIN = u ''wft.audit_events.hash-chain.v1''"

definition canonical_audit_payload :: "chain_content \<Rightarrow> utext \<Rightarrow> utext" where
  "canonical_audit_payload c prevHash = stringify_array
     [Some AUDIT_CHAIN_DOMAIN, Some prevHash, Some (cc_timestamp c), Some (cc_actor_type c),
      Some (cc_actor_id c), cc_token_id c, Some (cc_action c), Some (cc_resource_type c),
      cc_resource_id c, cc_request_id c, cc_metadata c]"

type_synonym digest = "byte list \<Rightarrow> utext"

definition compute_audit_row_hash :: "digest \<Rightarrow> chain_content \<Rightarrow> utext \<Rightarrow> utext" where
  "compute_audit_row_hash sha c prevHash = sha (utf8 (canonical_audit_payload c prevHash))"

section \<open>Appending\<close>

text \<open>
  The tail is the row with the largest id; \<open>datetime('now')\<close> is the argument \<open>now\<close>, and
  \<open>stringify\<close> the JSON text of the metadata.
\<close>

definition tail_hash :: "audit_db \<Rightarrow> utext option" where
  "tail_hash db = (case rev (sort_key ae_id (audit_rows db)) of [] \<Rightarrow> None | r # _ \<Rightarrow> ae_row_hash r)"

definition content_of :: "('m \<Rightarrow> utext) \<Rightarrow> utext \<Rightarrow> 'm audit_record \<Rightarrow> chain_content" where
  "content_of stringify now rc =
     \<lparr>cc_timestamp = now, cc_actor_type = rec_actor_type rc, cc_actor_id = rec_actor_id rc,
      cc_token_id = rec_token_id rc, cc_action = rec_action rc,
      cc_resource_type = rec_resource_type rc, cc_resource_id = rec_resource_id rc,
      cc_request_id = rec_request_id rc, cc_metadata = map_option stringify (rec_metadata rc)\<rparr>"

definition append_audit ::
    "digest \<Rightarrow> ('m \<Rightarrow> utext) \<Rightarrow> utext \<Rightarrow> 'm audit_record \<Rightarrow> audit_db \<Rightarrow> id \<times> audit_db" where
  "append_audit sha stringify now rc db =
     (let prevHash = (case tail_hash db of None \<Rightarrow> AUDIT_CHAIN_GENESIS_HASH | Some h \<Rightarrow> h);
          content = content_of stringify now rc;
          new = \<lparr>ae_id = audit_next db, ae_content = content, ae_prev_hash = Some prevHash,
                 ae_row_hash = Some (compute_audit_row_hash sha content prevHash)\<rparr>
      in (audit_next db, db\<lparr>audit_rows := audit_rows db @ [new], audit_next := audit_next db + 1\<rparr>))"

text \<open>The triggers fire once for every row a statement would touch, before it is touched.\<close>

datatype abort = Update_not_permitted | Delete_not_permitted

definition update_statement ::
    "(audit_row \<Rightarrow> bool) \<Rightarrow> (audit_row \<Rightarrow> audit_row) \<Rightarrow> audit_db \<Rightarrow> abort + audit_db" where
  "update_statement touched f db =
     (if list_ex touched (audit_rows db) then Inl Update_not_permitted
      else Inr (db\<lparr>audit_rows := map (\<lambda>r. if touched r then f r else r) (audit_rows db)\<rparr>))"

definition delete_statement :: "(audit_row \<Rightarrow> bool) \<Rightarrow> audit_db \<Rightarrow> abort + audit_db" where
  "delete_statement touched db =
     (if list_ex touched (audit_rows db) then Inl Delete_not_permitted
      else Inr (db\<lparr>audit_rows := filter (\<lambda>r. \<not> touched r) (audit_rows db)\<rparr>))"

section \<open>The walk\<close>

fun walk_chain :: "digest \<Rightarrow> utext \<Rightarrow> audit_row list \<Rightarrow> id option" where
  "walk_chain sha expected [] = None"
| "walk_chain sha expected (r # rs) =
     (if ae_prev_hash r \<noteq> Some expected then Some (ae_id r)
      else if ae_row_hash r \<noteq> Some (compute_audit_row_hash sha (ae_content r) expected) then Some (ae_id r)
      else walk_chain sha (the (ae_row_hash r)) rs)"

definition verify_chain :: "digest \<Rightarrow> audit_db \<Rightarrow> id option" where
  "verify_chain sha db = walk_chain sha AUDIT_CHAIN_GENESIS_HASH (sort_key ae_id (audit_rows db))"

section \<open>Queries\<close>

text \<open>Newest first; a negative limit is no limit in SQLite.\<close>

definition newest_first :: "audit_row list \<Rightarrow> audit_row list" where
  "newest_first rs = rev (sort_key (\<lambda>r. cc_timestamp (ae_content r)) (sort_key ae_id rs))"

definition sql_limit :: "int \<Rightarrow> 'a list \<Rightarrow> 'a list" where
  "sql_limit n xs = (if n < 0 then xs else take (nat n) xs)"

definition find_by_actor :: "utext \<Rightarrow> int \<Rightarrow> audit_db \<Rightarrow> audit_row list" where
  "find_by_actor actorId n db =
     sql_limit n (newest_first (filter (\<lambda>r. cc_actor_id (ae_content r) = actorId) (audit_rows db)))"

definition find_by_resource :: "utext \<Rightarrow> utext \<Rightarrow> int \<Rightarrow> audit_db \<Rightarrow> audit_row list" where
  "find_by_resource resourceType resourceId n db =
     sql_limit n (newest_first (filter (\<lambda>r. cc_resource_type (ae_content r) = resourceType \<and>
       cc_resource_id (ae_content r) = Some resourceId) (audit_rows db)))"

definition find_by_time_range :: "utext \<Rightarrow> utext \<Rightarrow> int \<Rightarrow> audit_db \<Rightarrow> audit_row list" where
  "find_by_time_range start stop n db =
     sql_limit n (newest_first (filter (\<lambda>r. start \<le> cc_timestamp (ae_content r) \<and>
       cc_timestamp (ae_content r) \<le> stop) (audit_rows db)))"

section \<open>Payloads\<close>

definition content_ok :: "chain_content \<Rightarrow> bool" where
  "content_ok c \<longleftrightarrow> list_all code_points
     ([cc_timestamp c, cc_actor_type c, cc_actor_id c, cc_action c, cc_resource_type c] @
      concat (map (\<lambda>f. case f of None \<Rightarrow> [] | Some s \<Rightarrow> [s])
        [cc_token_id c, cc_resource_id c, cc_request_id c, cc_metadata c]))"

definition field_ok :: "utext option \<Rightarrow> bool" where
  "field_ok f = (case f of None \<Rightarrow> True | Some s \<Rightarrow> code_points s)"

lemma valid_text_append [simp]: "valid_text (s @ t) \<longleftrightarrow> valid_text s \<and> valid_text t"
  by (simp add: valid_text_def)

lemma valid_concat: "list_all (\<lambda>c. c < 0x110000) s \<Longrightarrow> valid_text (concat (map escape_point s))"
  by (induction s) (simp_all add: valid_escape)

lemma valid_field: "field_ok f \<Longrightarrow> valid_text (field_text f)"
  by (auto simp: field_ok_def code_points_def field_text_def quote_def valid_concat u_def valid_code_point_def
      split: option.splits)

lemma valid_rest: "list_all field_ok fs \<Longrightarrow> valid_text (rest_text fs)"
  by (induction fs) (simp_all add: valid_field valid_code_point_def)

lemma valid_array: "list_all field_ok fs \<Longrightarrow> valid_text (stringify_array fs)"
  by (cases fs) (simp_all add: valid_field valid_rest valid_code_point_def)

lemma utf8_inj: "valid_text s \<Longrightarrow> valid_text t \<Longrightarrow> utf8 s = utf8 t \<longleftrightarrow> s = t"
  using utf8_round_trip by metis

lemma domain_ok: "code_points AUDIT_CHAIN_DOMAIN"
  by (simp add: code_points_def AUDIT_CHAIN_DOMAIN_def u_def)

lemma payload_valid: "content_ok c \<Longrightarrow> code_points h \<Longrightarrow> valid_text (canonical_audit_payload c h)"
  unfolding canonical_audit_payload_def
  by (rule valid_array) (auto simp: content_ok_def field_ok_def domain_ok split: option.splits)

lemma payload_inj: "canonical_audit_payload c h = canonical_audit_payload d k \<longleftrightarrow> c = d \<and> h = k"
  unfolding canonical_audit_payload_def stringify_array_inj
  by (cases c; cases d) auto


section \<open>The table as a transition system\<close>

definition empty_audit :: audit_db where
  "empty_audit = \<lparr>audit_rows = [], audit_next = 1\<rparr>"

inductive audit_step :: "digest \<Rightarrow> ('m \<Rightarrow> utext) \<Rightarrow> audit_db \<Rightarrow> audit_db \<Rightarrow> bool"
  for sha stringify where
  Append: "audit_step sha stringify db (snd (append_audit sha stringify now rc db))"
| Update: "update_statement touched f db = Inr db' \<Longrightarrow> audit_step sha stringify db db'"
| Delete: "delete_statement touched db = Inr db' \<Longrightarrow> audit_step sha stringify db db'"

abbreviation audit_steps :: "digest \<Rightarrow> ('m \<Rightarrow> utext) \<Rightarrow> audit_db \<Rightarrow> audit_db \<Rightarrow> bool" where
  "audit_steps sha stringify \<equiv> (audit_step sha stringify)\<^sup>*\<^sup>*"

lemma update_statement_idle: "update_statement touched f db = Inr db' \<Longrightarrow> db' = db"
  by (auto simp: update_statement_def list_ex_iff intro!: audit_db.equality map_idI split: if_splits)

lemma delete_statement_idle: "delete_statement touched db = Inr db' \<Longrightarrow> db' = db"
  by (auto simp: delete_statement_def list_ex_iff filter_id_conv intro!: audit_db.equality split: if_splits)

lemma audit_step_cases:
  assumes "audit_step sha stringify db db'"
  obtains "db' = db" | now rc where "db' = snd (append_audit sha stringify now rc db)"
  using assms by (cases rule: audit_step.cases) (auto dest: update_statement_idle delete_statement_idle)

definition hash_after :: "utext \<Rightarrow> audit_row list \<Rightarrow> utext" where
  "hash_after e rs = foldl (\<lambda>_ r. the (ae_row_hash r)) e rs"

lemma hash_after_simps [simp]:
  "hash_after e [] = e" "hash_after e (r # rs) = hash_after (the (ae_row_hash r)) rs"
  "hash_after e (rs @ [r]) = the (ae_row_hash r)"
  by (simp_all add: hash_after_def)

lemma walk_append:
  "walk_chain sha e (rs @ ss) =
     (case walk_chain sha e rs of Some i \<Rightarrow> Some i | None \<Rightarrow> walk_chain sha (hash_after e rs) ss)"
  by (induction rs arbitrary: e) (auto split: option.split)

lemma walk_append_None:
  "walk_chain sha e (rs @ ss) = None \<longleftrightarrow>
     walk_chain sha e rs = None \<and> walk_chain sha (hash_after e rs) ss = None"
  by (simp add: walk_append split: option.split)

lemma walk_last:
  assumes "walk_chain sha e (rs @ [r]) = None"
  shows "ae_row_hash r = Some (compute_audit_row_hash sha (ae_content r) (hash_after e rs))"
  using assms by (simp add: walk_append_None split: if_splits)

lemma sort_key_snoc:
  assumes "\<forall>x \<in> set xs. k x \<le> k a"
  shows "sort_key k (xs @ [a]) = sort_key k xs @ [a]"
proof -
  have snoc: "insort_key k x (ys @ [a]) = insort_key k x ys @ [a]" if "k x \<le> k a" for x ys
    using that by (induction ys) auto
  show ?thesis using assms by (induction xs) (simp_all add: snoc)
qed

definition audit_inv :: "digest \<Rightarrow> audit_db \<Rightarrow> bool" where
  "audit_inv sha db \<longleftrightarrow> verify_chain sha db = None \<and> list_all (\<lambda>r. ae_id r < audit_next db) (audit_rows db)"

lemma tail_is_expected:
  assumes "verify_chain sha db = None"
  shows "(case tail_hash db of None \<Rightarrow> AUDIT_CHAIN_GENESIS_HASH | Some h \<Rightarrow> h) =
    hash_after AUDIT_CHAIN_GENESIS_HASH (sort_key ae_id (audit_rows db))"
proof (cases "sort_key ae_id (audit_rows db)" rule: rev_cases)
  case (snoc rs r)
  then show ?thesis
    using assms walk_last [of sha AUDIT_CHAIN_GENESIS_HASH rs r] by (simp add: tail_hash_def verify_chain_def)
qed (simp add: tail_hash_def)

lemma append_keeps_inv:
  assumes "audit_inv sha db"
  shows "audit_inv sha (snd (append_audit sha stringify now rc db))"
proof -
  have "\<forall>r \<in> set (audit_rows db). ae_id r \<le> audit_next db"
    using assms by (auto simp: audit_inv_def list_all_iff)
  then have "sort_key ae_id (audit_rows (snd (append_audit sha stringify now rc db))) =
      sort_key ae_id (audit_rows db) @ [last (audit_rows (snd (append_audit sha stringify now rc db)))]"
    by (simp add: append_audit_def Let_def sort_key_snoc)
  then show ?thesis
    using assms tail_is_expected [of sha db]
    by (auto simp: audit_inv_def verify_chain_def walk_append append_audit_def Let_def list_all_iff)
qed

lemma empty_inv: "audit_inv sha empty_audit"
  by (simp add: audit_inv_def verify_chain_def empty_audit_def)

lemma steps_keep_inv: "audit_steps sha stringify db db' \<Longrightarrow> audit_inv sha db \<Longrightarrow> audit_inv sha db'"
  by (induction rule: rtranclp_induct) (auto elim!: audit_step_cases simp: append_keeps_inv)

text \<open>
  A trail that the repository alone has written verifies, whatever was appended and
  whatever statements were tried against it.
\<close>

theorem written_trails_verify:
  assumes "audit_steps sha stringify empty_audit db"
  shows "verify_chain sha db = None"
  using steps_keep_inv [OF assms empty_inv] by (simp add: audit_inv_def)

text \<open>
  Rows that are in the table stay in it as they are: all that follows is new rows behind them.
\<close>

theorem history_only_grows:
  assumes "audit_steps sha stringify db db'"
  shows "\<exists>new. audit_rows db' = audit_rows db @ new"
  using assms
proof (induction rule: rtranclp_induct)
  case (step d d')
  from step(2) step(3) show ?case
    by (cases rule: audit_step_cases) (auto simp: append_audit_def Let_def)
qed simp

section \<open>Tampering\<close>

text \<open>SHA-256 in hexadecimal: 64 digits.\<close>

definition hexadecimal :: "digest \<Rightarrow> bool" where
  "hexadecimal sha \<longleftrightarrow> (\<forall>b. length (sha b) = 64 \<and> set (sha b) \<subseteq> hex_digit ` {..<16})"

lemma hexadecimal_code_points: "hexadecimal sha \<Longrightarrow> code_points (sha b)"
proof -
  assume "hexadecimal sha"
  then have "set (sha b) \<subseteq> hex_digit ` {..<16}" by (simp add: hexadecimal_def)
  then show ?thesis by (fastforce simp: code_points_def list_all_iff hex_digit_def subset_iff)
qed

text \<open>The bytes that the rows of a walk are the digests of.\<close>

fun digested :: "utext \<Rightarrow> audit_row list \<Rightarrow> byte list list" where
  "digested e [] = []"
| "digested e (r # rs) = utf8 (canonical_audit_payload (ae_content r) e) # digested (the (ae_row_hash r)) rs"

definition digested_rows :: "audit_db \<Rightarrow> byte list list" where
  "digested_rows db = digested AUDIT_CHAIN_GENESIS_HASH (sort_key ae_id (audit_rows db))"

lemma digested_snoc [simp]:
  "digested e (rs @ [r]) = digested e rs @ [utf8 (canonical_audit_payload (ae_content r) (hash_after e rs))]"
  by (induction rs arbitrary: e) auto

lemma hash_after_code_points:
  assumes "hexadecimal sha" "walk_chain sha e rs = None" "code_points e"
  shows "code_points (hash_after e rs)"
  using assms
  by (cases rs rule: rev_cases)
    (auto dest!: walk_last simp: compute_audit_row_hash_def hexadecimal_code_points)

definition broken_digest :: "digest \<Rightarrow> byte list list \<Rightarrow> bool" where
  "broken_digest sha bs \<longleftrightarrow>
     (\<exists>x \<in> set bs. \<exists>y \<in> set bs. x \<noteq> y \<and> sha x = sha y) \<or> AUDIT_CHAIN_GENESIS_HASH \<in> sha ` set bs"

lemma broken_digest_mono: "broken_digest sha bs \<Longrightarrow> set bs \<subseteq> set cs \<Longrightarrow> broken_digest sha cs"
  unfolding broken_digest_def by blast

lemma genesis_code_points: "code_points AUDIT_CHAIN_GENESIS_HASH"
  by (simp add: code_points_def AUDIT_CHAIN_GENESIS_HASH_def list_all_iff)

lemma same_tail_same_contents:
  fixes sha :: digest
  defines "g \<equiv> AUDIT_CHAIN_GENESIS_HASH"
  assumes hex: "hexadecimal sha"
    and "walk_chain sha g rs = None" "walk_chain sha g ss = None" "hash_after g rs = hash_after g ss"
    and "list_all (\<lambda>r. content_ok (ae_content r)) (rs @ ss)"
  shows "map ae_content rs = map ae_content ss \<or> broken_digest sha (digested g rs @ digested g ss)"
  using assms(3-)
proof (induction rs arbitrary: ss rule: rev_induct)
  case Nil
  show ?case
  proof (cases ss rule: rev_cases)
    case (snoc ss' s)
    then have "sha (last (digested g ss)) = g" "last (digested g ss) \<in> set (digested g ss)"
      using Nil walk_last [of sha g ss' s] by (simp_all add: compute_audit_row_hash_def)
    then show ?thesis unfolding broken_digest_def g_def [symmetric] by force
  qed simp
next
  case (snoc r rs)
  have r: "ae_row_hash r = Some (sha (last (digested g (rs @ [r]))))"
    using walk_last [OF snoc.prems(1)] by (simp add: compute_audit_row_hash_def)
  show ?case
  proof (cases ss rule: rev_cases)
    case Nil
    then have "sha (last (digested g (rs @ [r]))) = g" using snoc.prems(3) r by simp
    then show ?thesis unfolding broken_digest_def g_def [symmetric] by force
  next
    case s: (snoc ss' s)
    let ?x = "last (digested g (rs @ [r]))" and ?y = "last (digested g ss)"
    have "ae_row_hash s = Some (sha ?y)"
      using walk_last [of sha g ss' s] snoc.prems(2) s by (simp add: compute_audit_row_hash_def)
    then have eq: "sha ?x = sha ?y" using snoc.prems(3) r s by simp
    show ?thesis
    proof (cases "?x = ?y")
      case False
      moreover have "?x \<in> set (digested g (rs @ [r]))" "?y \<in> set (digested g ss)" using s by simp_all
      ultimately show ?thesis unfolding broken_digest_def using eq by (metis Un_iff set_append)
    next
      case True
      have walks: "walk_chain sha g rs = None" "walk_chain sha g ss' = None"
        using snoc.prems(1,2) s by (simp_all add: walk_append_None)
      then have "code_points (hash_after g rs)" "code_points (hash_after g ss')"
        unfolding g_def using hash_after_code_points [OF hex] genesis_code_points by blast+
      moreover have "content_ok (ae_content r)" "content_ok (ae_content s)" using snoc.prems(4) s by simp_all
      ultimately have "ae_content r = ae_content s" "hash_after g rs = hash_after g ss'"
        using True s by (simp_all add: utf8_inj payload_valid payload_inj)
      moreover from this snoc.IH [OF walks] snoc.prems(4) s
      have "map ae_content rs = map ae_content ss' \<or> broken_digest sha (digested g rs @ digested g ss')" by simp
      moreover have "broken_digest sha (digested g rs @ digested g ss') \<Longrightarrow>
          broken_digest sha (digested g (rs @ [r]) @ digested g ss)"
        using s by (elim broken_digest_mono) auto
      ultimately show ?thesis using s by auto
    qed
  qed
qed

text \<open>
  C10.  The digest of the last row anchors the whole history: two trails that both verify and end in
  the same digest record the same events in the same order, unless two of the texts that
  were digested collide or one of them has the digest that marks the head of the chain.
\<close>

theorem tail_anchors_the_history:
  assumes "hexadecimal sha" and "verify_chain sha db = None" and "verify_chain sha db' = None"
    and "tail_hash db = tail_hash db'"
    and "list_all (\<lambda>r. content_ok (ae_content r)) (audit_rows db @ audit_rows db')"
  shows "map ae_content (sort_key ae_id (audit_rows db)) = map ae_content (sort_key ae_id (audit_rows db')) \<or>
    broken_digest sha (digested_rows db @ digested_rows db')"
proof -
  have "hash_after AUDIT_CHAIN_GENESIS_HASH (sort_key ae_id (audit_rows db)) =
      hash_after AUDIT_CHAIN_GENESIS_HASH (sort_key ae_id (audit_rows db'))"
    using tail_is_expected [OF assms(2)] tail_is_expected [OF assms(3)] assms(4) by simp
  moreover have "list_all (\<lambda>r. content_ok (ae_content r))
      (sort_key ae_id (audit_rows db) @ sort_key ae_id (audit_rows db'))"
    using assms(5) by (simp add: list_all_iff)
  ultimately show ?thesis
    using same_tail_same_contents [OF assms(1)] assms(2,3) by (simp add: verify_chain_def digested_rows_def)
qed

text \<open>
  C28.  A row that was rewritten behind the repository's back, its stored digests included, is
  reported by the walk, at that row or at the next one, unless the row's new text has the
  old text's digest.
\<close>

theorem rewritten_rows_are_reported:
  assumes "verify_chain sha db = None"
    and "sort_key ae_id (audit_rows db) = pre @ r # s # post"
    and "sort_key ae_id (audit_rows db') = pre @ r' # s # post"
    and "compute_audit_row_hash sha (ae_content r') (the (ae_prev_hash r)) \<noteq> the (ae_row_hash r)"
  shows "verify_chain sha db' \<in> {Some (ae_id r'), Some (ae_id s)}"
  using assms unfolding verify_chain_def
  by (auto simp: walk_append split: option.splits if_splits)

text \<open>A row that was removed is reported at the row behind it; only a missing tail is not seen.\<close>

theorem removed_rows_are_reported:
  assumes "verify_chain sha db = None"
    and "sort_key ae_id (audit_rows db) = pre @ r # s # post"
    and "sort_key ae_id (audit_rows db') = pre @ s # post"
    and "ae_row_hash r \<noteq> ae_prev_hash r"
  shows "verify_chain sha db' = Some (ae_id s)"
  using assms unfolding verify_chain_def
  by (auto simp: walk_append split: option.splits if_splits)

lemma truncation_is_not_seen:
  assumes "verify_chain sha db = None" and "sort_key ae_id (audit_rows db) = pre @ post"
    and "sort_key ae_id (audit_rows db') = pre"
  shows "verify_chain sha db' = None"
  using assms by (simp add: verify_chain_def walk_append_None)


section \<open>Samples\<close>

definition sample_sha :: digest where
  "sample_sha b = hex_digit (length b mod 16) # replicate 63 48"

definition sample_record :: "utext \<Rightarrow> utext audit_record" where
  "sample_record m = \<lparr>rec_actor_type = u ''user'', rec_actor_id = u ''7'', rec_token_id = None,
     rec_action = u ''task.update'', rec_resource_type = u ''task'', rec_resource_id = Some (u ''3''),
     rec_request_id = None, rec_metadata = Some m\<rparr>"

definition sample_trail :: audit_db where
  "sample_trail = snd (append_audit sample_sha id (u ''2026-01-02'') (sample_record (u ''b''))
     (snd (append_audit sample_sha id (u ''2026-01-01'') (sample_record (u ''a'')) empty_audit)))"

definition forged_row :: "audit_row \<Rightarrow> audit_row" where
  "forged_row r = r\<lparr>ae_content := (ae_content r)\<lparr>cc_metadata := Some (u ''zz'')\<rparr>\<rparr>"

lemma sample_sha_hex: "hexadecimal sample_sha"
proof -
  have "(48::nat) = hex_digit 0" by (simp add: hex_digit_def)
  then have "set (sample_sha b) \<subseteq> hex_digit ` {..<16}" for b
    by (auto simp: sample_sha_def)
  then show ?thesis by (simp add: hexadecimal_def) (simp add: sample_sha_def)
qed

lemma sample_trail_reached: "audit_steps sample_sha id empty_audit sample_trail"
  unfolding sample_trail_def
  by (rule rtranclp.rtrancl_into_rtrancl [OF r_into_rtranclp]) (rule audit_step.Append)+

theorem written_trails_verify_witness:
  "audit_steps sample_sha id empty_audit sample_trail \<and> length (audit_rows sample_trail) = 2 \<and>
   verify_chain sample_sha sample_trail = None"
  using written_trails_verify [OF sample_trail_reached] sample_trail_reached
  by (simp add: sample_trail_def append_audit_def Let_def empty_audit_def)

definition renumbered_trail :: audit_db where
  "renumbered_trail = \<lparr>audit_rows = map (\<lambda>r. r\<lparr>ae_id := ae_id r + 10\<rparr>) (audit_rows sample_trail), audit_next = 13\<rparr>"

lemma walk_renumbered:
  "walk_chain sha e (map (\<lambda>r. r\<lparr>ae_id := ae_id r + k\<rparr>) rs) = map_option (\<lambda>i. i + k) (walk_chain sha e rs)"
  by (induction rs arbitrary: e) auto

lemma sample_trail_sorted:
  "sort_key ae_id (audit_rows sample_trail) = audit_rows sample_trail"
  "sort_key ae_id (audit_rows renumbered_trail) = map (\<lambda>r. r\<lparr>ae_id := ae_id r + 10\<rparr>) (audit_rows sample_trail)"
  by (simp_all add: renumbered_trail_def sample_trail_def append_audit_def Let_def empty_audit_def)

lemma sample_trail_facts:
  "verify_chain sample_sha sample_trail = None"
  "verify_chain sample_sha renumbered_trail = None"
  "tail_hash sample_trail = tail_hash renumbered_trail"
  "list_all (\<lambda>r. content_ok (ae_content r)) (audit_rows sample_trail @ audit_rows renumbered_trail)"
proof -
  show v: "verify_chain sample_sha sample_trail = None"
    using steps_keep_inv [OF sample_trail_reached empty_inv] by (simp add: audit_inv_def)
  then show "verify_chain sample_sha renumbered_trail = None"
    by (simp add: verify_chain_def sample_trail_sorted walk_renumbered)
  show "tail_hash sample_trail = tail_hash renumbered_trail"
    unfolding tail_hash_def sample_trail_sorted
    by (cases "audit_rows sample_trail" rule: rev_cases) simp_all
  show "list_all (\<lambda>r. content_ok (ae_content r)) (audit_rows sample_trail @ audit_rows renumbered_trail)"
    by (simp add: renumbered_trail_def sample_trail_def append_audit_def Let_def empty_audit_def content_ok_def
        content_of_def sample_record_def code_points_def u_def)
qed

theorem tail_anchors_the_history_witness:
  "hexadecimal sample_sha \<and> tail_hash sample_trail = tail_hash renumbered_trail \<and>
   (map ae_content (sort_key ae_id (audit_rows sample_trail)) =
      map ae_content (sort_key ae_id (audit_rows renumbered_trail)) \<or>
    broken_digest sample_sha (digested_rows sample_trail @ digested_rows renumbered_trail))"
  using tail_anchors_the_history [OF sample_sha_hex sample_trail_facts] sample_sha_hex sample_trail_facts(3)
  by simp

definition forged_trail :: audit_db where
  "forged_trail = sample_trail\<lparr>audit_rows :=
     [forged_row (audit_rows sample_trail ! 0), audit_rows sample_trail ! 1]\<rparr>"

lemma length_ascii: "list_all (\<lambda>c. c < 128) s \<Longrightarrow> length (utf8 s) = length s"
  by (induction s) (simp_all add: encode_point_def)

definition plain :: "utext \<Rightarrow> bool" where
  "plain s = list_all (\<lambda>c. 32 \<le> c \<and> c < 128 \<and> c \<noteq> 34 \<and> c \<noteq> 92) s"

lemma escape_plain: "plain s \<Longrightarrow> concat (map escape_point s) = s"
  by (induction s) (auto simp: plain_def escape_point_def)

lemma plain_quote: "plain s \<Longrightarrow> quote s = 34 # s @ [34]"
  by (simp add: quote_def escape_plain)

lemma plain_texts:
  "plain AUDIT_CHAIN_GENESIS_HASH" "plain AUDIT_CHAIN_DOMAIN"
  "plain (u ''2026-01-01'')" "plain (u ''user'')" "plain (u ''7'')" "plain (u ''task.update'')"
  "plain (u ''task'')" "plain (u ''3'')" "plain (u ''a'')" "plain (u ''zz'')"
  by (simp_all add: plain_def AUDIT_CHAIN_GENESIS_HASH_def AUDIT_CHAIN_DOMAIN_def u_def list_all_iff)

lemma plain_ascii: "plain s \<Longrightarrow> list_all (\<lambda>c. c < 128) s"
  by (auto simp: plain_def list_all_iff)

lemma forged_payloads:
  "let p = canonical_audit_payload (content_of id (u ''2026-01-01'') (sample_record (u ''a''))) AUDIT_CHAIN_GENESIS_HASH;
       q = canonical_audit_payload ((content_of id (u ''2026-01-01'') (sample_record (u ''a'')))
             \<lparr>cc_metadata := Some (u ''zz'')\<rparr>) AUDIT_CHAIN_GENESIS_HASH
   in list_all (\<lambda>c. c < 128) p \<and> list_all (\<lambda>c. c < 128) q \<and> length q = Suc (length p)"
  using plain_texts [THEN plain_ascii] plain_texts
  by (simp add: Let_def canonical_audit_payload_def content_of_def sample_record_def field_text_def plain_quote)
    (simp add: u_def)

lemma forged_trail_facts:
  "sort_key ae_id (audit_rows sample_trail) = [] @ (audit_rows sample_trail ! 0) # (audit_rows sample_trail ! 1) # []"
  "sort_key ae_id (audit_rows forged_trail) =
     [] @ forged_row (audit_rows sample_trail ! 0) # (audit_rows sample_trail ! 1) # []"
  "compute_audit_row_hash sample_sha (ae_content (forged_row (audit_rows sample_trail ! 0)))
     (the (ae_prev_hash (audit_rows sample_trail ! 0))) \<noteq> the (ae_row_hash (audit_rows sample_trail ! 0))"
proof -
  have rows: "ae_content (audit_rows sample_trail ! 0) = content_of id (u ''2026-01-01'') (sample_record (u ''a''))"
    "ae_prev_hash (audit_rows sample_trail ! 0) = Some AUDIT_CHAIN_GENESIS_HASH"
    "ae_row_hash (audit_rows sample_trail ! 0) = Some (compute_audit_row_hash sample_sha
       (content_of id (u ''2026-01-01'') (sample_record (u ''a''))) AUDIT_CHAIN_GENESIS_HASH)"
    by (simp_all add: sample_trail_def append_audit_def Let_def empty_audit_def tail_hash_def)
  show "compute_audit_row_hash sample_sha (ae_content (forged_row (audit_rows sample_trail ! 0)))
     (the (ae_prev_hash (audit_rows sample_trail ! 0))) \<noteq> the (ae_row_hash (audit_rows sample_trail ! 0))"
    using forged_payloads
    by (auto simp: mod_Suc rows forged_row_def Let_def compute_audit_row_hash_def sample_sha_def length_ascii hex_digit_def)
qed (simp_all add: forged_trail_def forged_row_def sample_trail_def append_audit_def Let_def empty_audit_def)

theorem rewritten_rows_are_reported_witness:
  "verify_chain sample_sha sample_trail = None \<and>
   verify_chain sample_sha forged_trail \<in>
     {Some (ae_id (forged_row (audit_rows sample_trail ! 0))), Some (ae_id (audit_rows sample_trail ! 1))}"
  using rewritten_rows_are_reported [OF sample_trail_facts(1) forged_trail_facts] sample_trail_facts(1) by simp

end
