(* ===== verification/Wsjf_Rescore.thy ===== *)
theory Wsjf_Rescore
  imports Task_Service_Laws
begin

text \<open>
  The rescoring of a project: \<open>src/services/wsjf-rescore.service.ts\<close> with the table of
  \<open>src/repositories/wsjf-rescore.repository.ts\<close>.  The classifications that come back from an
  interview are recomputed against the project's charter, locked components keep their
  value, and one run record, the changed rows and their history are written in one transaction.
\<close>

section \<open>State\<close>

record rescore_run =
  run_id :: id
  run_project :: id
  run_triggered_at :: stamp
  run_charter_version :: "int option"
  run_actor_type :: "string option"
  run_actor_id :: "string option"
  run_evaluated :: "nat option"
  run_changed :: "nat option"
  run_skipped_locked :: "nat option"
  run_summary :: "string option"

text \<open>
  The charter of a project is a column of its row; here it is a table of its own, each
  charter with its \<open>interview_version\<close>.
\<close>

record rescore_state =
  rs_db :: db
  rs_charters :: "(id \<times> charter \<times> int) list"
  rs_runs :: "rescore_run list"
  rs_next_run :: id

record actor =
  actor_type :: "string option"
  actor_ident :: "string option"

datatype rescore_error = Rescore_no_project id | Rescore_cyclic id | Rescore_db db_error

definition open_run :: "stamp \<Rightarrow> id \<Rightarrow> int option \<Rightarrow> actor \<Rightarrow> rescore_state \<Rightarrow> id \<times> rescore_state" where
  "open_run now p cver a st =
     (rs_next_run st,
      st\<lparr>rs_runs := rs_runs st @
           [\<lparr>run_id = rs_next_run st, run_project = p, run_triggered_at = sql_now now,
             run_charter_version = cver, run_actor_type = actor_type a, run_actor_id = actor_ident a,
             run_evaluated = None, run_changed = None, run_skipped_locked = None, run_summary = None\<rparr>],
         rs_next_run := rs_next_run st + 1\<rparr>)"

definition finalize_run ::
    "id \<Rightarrow> nat \<Rightarrow> nat \<Rightarrow> nat \<Rightarrow> string option \<Rightarrow> rescore_state \<Rightarrow> rescore_state" where
  "finalize_run i evaluated changed skipped summary st =
     st\<lparr>rs_runs := map (\<lambda>r. if run_id r = i then r\<lparr>run_evaluated := Some evaluated, run_changed := Some changed,
          run_skipped_locked := Some skipped, run_summary := summary\<rparr> else r) (rs_runs st)\<rparr>"

definition find_run :: "id \<Rightarrow> rescore_state \<Rightarrow> rescore_run option" where
  "find_run i st = find (\<lambda>r. run_id r = i) (rs_runs st)"

section \<open>The candidates\<close>

text \<open>The breadth-first closure of this service: a growing set and a queue.\<close>

fun reach_visit :: "id list \<Rightarrow> id list \<Rightarrow> id list \<Rightarrow> id list \<times> id list" where
  "reach_visit [] seen queue = (seen, queue)"
| "reach_visit (n # ns) seen queue =
     (if n \<in> set seen then reach_visit ns seen queue else reach_visit ns (seen @ [n]) (queue @ [n]))"

lemma reach_visit_new:
  "reach_visit ns seen q = (seen', q') \<Longrightarrow>
     \<exists>new. q' = q @ new \<and> seen' = seen @ new \<and> distinct new \<and> set new = set ns - set seen"
proof (induction ns seen q rule: reach_visit.induct)
  case (2 n ns seen q)
  show ?case
  proof (cases "n \<in> set seen")
    case True
    then show ?thesis using 2 by auto
  next
    case False
    then obtain new where "q' = (q @ [n]) @ new" "seen' = (seen @ [n]) @ new" "distinct new"
      "set new = set ns - set (seen @ [n])"
      using "2.IH"(2) "2.prems" by auto
    then show ?thesis using False by (intro exI [of _ "n # new"]) auto
  qed
qed simp

function reach :: "(id, id list) jsmap \<Rightarrow> id list \<Rightarrow> id list \<Rightarrow> id list" where
  "reach adj seen [] = seen"
| "reach adj seen (cur # rest) =
     (case reach_visit (or_else (js_get adj cur) []) seen rest of (seen', queue') \<Rightarrow> reach adj seen' queue')"
  by pat_completeness auto
termination
proof (relation "measure (\<lambda>(adj, seen, queue). card (adjacent_values adj - set seen) + length queue)", goal_cases)
  case (2 adj seen cur rest seen' queue')
  let ?U = "adjacent_values adj"
  obtain new where new: "queue' = rest @ new" "seen' = seen @ new" "distinct new"
    "set new = set (or_else (js_get adj cur) []) - set seen"
    using reach_visit_new [OF 2(1) [symmetric]] by blast
  have sub: "set new \<subseteq> ?U - set seen" unfolding new(4) using adjacent_value_in by blast
  have "?U - set seen' = (?U - set seen) - set new" unfolding new(2) by auto
  then have "card (?U - set seen') = card (?U - set seen) - length new"
    using sub new(3) by (simp add: card_Diff_subset distinct_card)
  moreover have "length new \<le> card (?U - set seen)"
    using card_mono [OF _ sub] new(3) by (simp add: distinct_card)
  ultimately show ?case using new(1) by simp
qed simp

declare reach.simps(2) [simp del]

definition push_edge :: "edge \<Rightarrow> (id, id list) jsmap \<Rightarrow> (id, id list) jsmap" where
  "push_edge e m = js_put (fst e) (or_else (js_get m (fst e)) [] @ [snd e]) m"

definition downstream_map :: "id list \<Rightarrow> edge list \<Rightarrow> (id, id list) jsmap" where
  "downstream_map ids es = foldl (\<lambda>m e. push_edge e m) (foldl (\<lambda>m i. js_put i [] m) [] ids) es"

definition compute_transitive_dependents :: "edge list \<Rightarrow> id list \<Rightarrow> (id, nat) jsmap" where
  "compute_transitive_dependents es ids =
     (let downstream = downstream_map ids es
      in foldl (\<lambda>m start. js_put start (length (reach downstream [start] [start]) - 1) m) [] ids)"

record rescore_set =
  set_project :: id
  set_charter :: "(charter \<times> int) option"
  set_tasks :: "task list"
  set_signals :: "(id \<times> nat) list"

definition collect_rescore_set :: "id \<Rightarrow> rescore_state \<Rightarrow> rescore_error + rescore_set" where
  "collect_rescore_set p st =
     (let db = rs_db st in
      case find_project db p of
        None \<Rightarrow> Inl (Rescore_no_project p)
      | Some _ \<Rightarrow>
          let report = classify p db in
          if t_topology report = DAG_CYCLIC then Inl (Rescore_cyclic p)
          else
            let allTasks = load_project_tasks p db;
                scored = filter (\<lambda>t. components_of t \<noteq> None) allTasks;
                counts = compute_transitive_dependents (t_edges report) (map task_id allTasks)
            in Inr \<lparr>set_project = p, set_charter = map_of (rs_charters st) p, set_tasks = scored,
                    set_signals = map (\<lambda>t. (task_id t, or_else (js_get counts (task_id t)) 0)) scored\<rparr>)"

section \<open>Submissions\<close>

record submission =
  sb_task :: id
  sb_class :: classification
  sb_features :: features

datatype submission_error = Not_in_project id | Unscored_task id | Gate_failed "score_error list"

record pending =
  pd_task :: task
  pd_components :: components
  pd_skipped :: "component_key list"
  pd_submission :: submission
  pd_changed :: bool
  pd_prev :: rat
  pd_new :: rat

definition locked_key :: "wsjf_locks option \<Rightarrow> component_key \<Rightarrow> bool" where
  "locked_key locks k = (case locks of None \<Rightarrow> False | Some l \<Rightarrow> comp_get k l)"

definition merge_locked :: "wsjf_locks option \<Rightarrow> components \<Rightarrow> components \<Rightarrow> components" where
  "merge_locked locks prev fresh =
     (let pick = (\<lambda>k. if locked_key locks k then comp_get k prev else comp_get k fresh)
      in \<lparr>c_value = pick K_value, c_time = pick K_time, c_risk = pick K_risk, c_job = pick K_job\<rparr>)"

definition source_text_of :: "task \<Rightarrow> string" where
  "source_text_of t = join_with newline [title t, or_else (description t) '''']"

definition pending_of :: "task \<Rightarrow> components \<Rightarrow> components \<Rightarrow> submission \<Rightarrow> pending" where
  "pending_of t prev fresh sb =
     (let merged = merge_locked (wsjf_locked_col t) prev fresh in
      \<lparr>pd_task = t, pd_components = merged,
       pd_skipped = filter (locked_key (wsjf_locked_col t)) component_keys,
       pd_submission = sb,
       pd_changed = list_ex (\<lambda>k. comp_get k merged \<noteq> comp_get k prev) component_keys,
       pd_prev = compute_wsjf prev, pd_new = compute_wsjf merged\<rparr>)"

definition evaluate_submission ::
    "charter option \<Rightarrow> id \<Rightarrow> db \<Rightarrow> submission \<Rightarrow> submission_error + pending" where
  "evaluate_submission ch p db sb =
     (case find_by_id db (sb_task sb) of
        None \<Rightarrow> Inl (Not_in_project (sb_task sb))
      | Some t \<Rightarrow>
          if project_id t \<noteq> p then Inl (Not_in_project (sb_task sb))
          else case components_of t of
            None \<Rightarrow> Inl (Unscored_task (sb_task sb))
          | Some prev \<Rightarrow>
              (case validate_score_submission (sb_class sb) (sb_features sb)
                  \<lparr>ctx_charter = ch, ctx_source_text = Some (source_text_of t), ctx_batch = None\<rparr> of
                 Inl es \<Rightarrow> Inl (Gate_failed es)
               | Inr fresh \<Rightarrow> Inr (pending_of t prev fresh sb)))"

fun accepted :: "('e + 'a) list \<Rightarrow> 'a list" where
  "accepted [] = []"
| "accepted (r # rs) = (case r of Inl _ \<Rightarrow> accepted rs | Inr x \<Rightarrow> x # accepted rs)"

definition evaluate_all :: "charter option \<Rightarrow> id \<Rightarrow> db \<Rightarrow> submission list \<Rightarrow> pending list" where
  "evaluate_all ch p db subs = accepted (map (evaluate_submission ch p db) subs)"

definition collect_errors ::
    "charter option \<Rightarrow> id \<Rightarrow> db \<Rightarrow> submission list \<Rightarrow> (id \<times> submission_error) list" where
  "collect_errors ch p db subs =
     concat (map (\<lambda>sb. case evaluate_submission ch p db sb of Inl e \<Rightarrow> [(sb_task sb, e)] | Inr _ \<Rightarrow> []) subs)"

section \<open>Writing\<close>

definition rescore_write :: "pending \<Rightarrow> wsjf_write" where
  "rescore_write pd =
     \<lparr>w_components = pd_components pd, w_evidence = Some (cl_evidence (sb_class (pd_submission pd))),
      w_locked = wsjf_locked_col (pd_task pd), w_source = wsjf_source_col (pd_task pd),
      w_classifications = Some (sb_class (pd_submission pd)),
      w_features = Some (sb_features (pd_submission pd)), w_manual = None, w_trigger = None\<rparr>"

definition rescore_update :: "pending \<Rightarrow> update_dto" where
  "rescore_update pd = empty_update\<lparr>u_wsjf := Put (rescore_write pd)\<rparr>"

definition rescore_history :: "id \<Rightarrow> actor \<Rightarrow> int option \<Rightarrow> id \<Rightarrow> pending \<Rightarrow> history_row" where
  "rescore_history p a cver run pd =
     (let c = pd_components pd in
      \<lparr>h_task_id = task_id (pd_task pd), h_project_id = p, h_trigger = Tr_rescore,
       h_components = \<lparr>c_value = Some (c_value c), c_time = Some (c_time c),
                       c_risk = Some (c_risk c), c_job = Some (c_job c)\<rparr>,
       h_score = Some (pd_new pd), h_prev_score = Some (pd_prev pd),
       h_classifications = Some (sb_class (pd_submission pd)),
       h_features = Some (sb_features (pd_submission pd)),
       h_evidence = Some (cl_evidence (sb_class (pd_submission pd))),
       h_source = wsjf_source_col (pd_task pd), h_locked = wsjf_locked_col (pd_task pd),
       h_actor_type = actor_type a, h_actor_id = actor_ident a,
       h_charter_version = cver, h_rescore_run_id = Some run\<rparr>)"

fun write_pending :: "stamp \<Rightarrow> (pending \<Rightarrow> history_row) \<Rightarrow> pending list \<Rightarrow> db \<Rightarrow> db_error + db" where
  "write_pending now hist [] db = Inr db"
| "write_pending now hist (pd # pds) db =
     (case repo_update now (task_id (pd_task pd)) (rescore_update pd) db of
        Inl e \<Rightarrow> Inl e
      | Inr (_, db') \<Rightarrow> write_pending now hist pds (append_row (hist pd) db'))"

fun show_nat :: "nat \<Rightarrow> string" where
  "show_nat n = (if n < 10 then [char_of (48 + n)] else show_nat (n div 10) @ [char_of (48 + n mod 10)])"

declare show_nat.simps [simp del]

definition show_id :: "id \<Rightarrow> string" where
  "show_id i = (if i < 0 then CHR ''-'' # show_nat (nat (- i)) else show_nat (nat i))"

definition summary_text :: "id \<Rightarrow> nat \<Rightarrow> nat \<Rightarrow> nat \<Rightarrow> string" where
  "summary_text p evaluated changed skipped =
     ''rescored project '' @ show_id p @ '': '' @ show_nat evaluated @ '' evaluated, '' @
     show_nat changed @ '' changed, '' @ show_nat skipped @ '' with locked components preserved''"

record rescore_summary =
  sum_run :: id
  sum_project :: id
  sum_evaluated :: nat
  sum_changed :: nat
  sum_skipped_locked :: nat
  sum_results :: "pending list"
  sum_errors :: "(id \<times> submission_error) list"

text \<open>
  \<open>rescore\<close>: an error inside the transaction undoes the run record and every write.  The
  results of the summary are the fields of the pending entries.
\<close>

definition rescore ::
    "stamp \<Rightarrow> id \<Rightarrow> submission list \<Rightarrow> actor \<Rightarrow> rescore_state \<Rightarrow> (rescore_error + rescore_summary) \<times> rescore_state" where
  "rescore now p subs a st =
     (case find_project (rs_db st) p of
        None \<Rightarrow> (Inl (Rescore_no_project p), st)
      | Some _ \<Rightarrow>
          let project_charter = map_of (rs_charters st) p;
              ch = map_option fst project_charter; cver = map_option snd project_charter;
              pds = evaluate_all ch p (rs_db st) subs;
              errors = collect_errors ch p (rs_db st) subs;
              changed = filter pd_changed pds;
              skipped = length (filter (\<lambda>pd. pd_skipped pd \<noteq> []) pds);
              (run, st1) = open_run now p cver a st
          in case write_pending now (rescore_history p a cver run) changed (rs_db st1) of
               Inl e \<Rightarrow> (Inl (Rescore_db e), st)
             | Inr db' \<Rightarrow>
                 (Inr \<lparr>sum_run = run, sum_project = p, sum_evaluated = length pds,
                       sum_changed = length changed, sum_skipped_locked = skipped,
                       sum_results = pds, sum_errors = errors\<rparr>,
                  finalize_run run (length pds) (length changed) skipped
                    (Some (summary_text p (length pds) (length changed) skipped)) (st1\<lparr>rs_db := db'\<rparr>)))"


section \<open>What a submission becomes\<close>

fun comp_column :: "component_key \<Rightarrow> task \<Rightarrow> fib option" where
  "comp_column K_value t = wsjf_value t"
| "comp_column K_time t = wsjf_time_criticality t"
| "comp_column K_risk t = wsjf_risk_opportunity t"
| "comp_column K_job t = wsjf_job_size t"

lemma comp_column_of: "components_of t = Some c \<Longrightarrow> comp_column k t = Some (comp_get k c)"
  by (cases k) (auto simp: components_of_def split: option.splits)

lemma components_eqI: "(\<And>k. comp_get k a = comp_get k b) \<Longrightarrow> a = (b :: components)"
  using comp_get.simps by (metis per_component.equality unit.exhaust)

lemma comp_get_merge:
  "comp_get k (merge_locked locks prev fresh) = (if locked_key locks k then comp_get k prev else comp_get k fresh)"
  by (cases k) (simp_all add: merge_locked_def Let_def)

lemma merge_locked_again [simp]:
  "merge_locked locks (merge_locked locks prev fresh) fresh = merge_locked locks prev fresh"
  by (rule components_eqI) (simp add: comp_get_merge)

lemma pending_of_fields [simp]:
  "pd_task (pending_of t prev fresh sb) = t" "pd_submission (pending_of t prev fresh sb) = sb"
  "pd_components (pending_of t prev fresh sb) = merge_locked (wsjf_locked_col t) prev fresh"
  by (simp_all add: pending_of_def Let_def)

lemma component_keys_all: "list_ex P component_keys \<longleftrightarrow> (\<exists>k. P k)"
proof -
  have "set component_keys = UNIV" by (auto simp: component_keys_def intro: component_key.exhaust)
  then show ?thesis by (simp add: list_ex_iff)
qed

lemma pending_changed: "pd_changed (pending_of t prev fresh sb) \<longleftrightarrow> merge_locked (wsjf_locked_col t) prev fresh \<noteq> prev"
  by (auto simp: pending_of_def Let_def component_keys_all intro: components_eqI)

text \<open>The classification gate on a task's row.\<close>

definition row_verdict :: "charter option \<Rightarrow> submission \<Rightarrow> task \<Rightarrow> score_error list + components" where
  "row_verdict ch sb t = validate_score_submission (sb_class sb) (sb_features sb)
     \<lparr>ctx_charter = ch, ctx_source_text = Some (source_text_of t), ctx_batch = None\<rparr>"

lemma read_row_more [simp]:
  "task_id (read_row t) = task_id t" "wsjf_locked_col (read_row t) = wsjf_locked_col t"
  "title (read_row t) = title t" "description (read_row t) = description t"
  "source_text_of (read_row t) = source_text_of t"
  by (simp_all add: read_row_def source_text_of_def)

lemma evaluate_Inr:
  "evaluate_submission ch p db sb = Inr pd \<longleftrightarrow>
     (\<exists>t prev fresh. row db (sb_task sb) = Some t \<and> project_id t = p \<and> components_of t = Some prev \<and>
        row_verdict ch sb t = Inr fresh \<and> pd = pending_of (read_row t) prev fresh sb)"
  by (auto simp: evaluate_submission_def find_by_id_Some row_verdict_def find_by_id_def
      split: option.splits sum.splits if_splits)

lemma accepted_iff: "x \<in> set (accepted rs) \<longleftrightarrow> Inr x \<in> set rs"
  by (induction rs) (auto split: sum.splits)

lemma evaluate_all_iff:
  "pd \<in> set (evaluate_all ch p db subs) \<longleftrightarrow> (\<exists>sb \<in> set subs. evaluate_submission ch p db sb = Inr pd)"
  by (simp add: evaluate_all_def accepted_iff image_iff eq_commute [of "Inr pd"])

lemma evaluate_counts:
  "length (evaluate_all ch p db subs) + length (collect_errors ch p db subs) = length subs"
  by (induction subs) (auto simp: evaluate_all_def collect_errors_def split: sum.splits)

section \<open>What the writes do\<close>

lemma rescore_update_wsjf:
  "u_wsjf (rescore_update pd) = Put (rescore_write pd)" "u_title (rescore_update pd) = None"
  "u_description (rescore_update pd) = Absent" "u_parent_task_id (rescore_update pd) = Absent"
  "u_tags (rescore_update pd) = None"
  by (simp_all add: rescore_update_def empty_update_def)

lemma rescore_update_fields [simp]:
  "comp_column k (update_row now (rescore_update pd) t) = Some (comp_get k (pd_components pd))"
  "wsjf_locked_col (update_row now (rescore_update pd) t) = wsjf_locked_col (pd_task pd)"
  "task_id (update_row now (rescore_update pd) t) = task_id t"
  "project_id (update_row now (rescore_update pd) t) = project_id t"
  "title (update_row now (rescore_update pd) t) = title t"
  "description (update_row now (rescore_update pd) t) = description t"
  "components_of (update_row now (rescore_update pd) t) = Some (pd_components pd)"
proof -
  show "comp_column k (update_row now (rescore_update pd) t) = Some (comp_get k (pd_components pd))"
    unfolding update_row_def rescore_update_wsjf
    by (cases k) (simp_all add: update_wsjf_def set_wsjf_def rescore_write_def)
  show "components_of (update_row now (rescore_update pd) t) = Some (pd_components pd)"
    unfolding update_row_def rescore_update_wsjf
    by (simp add: update_wsjf_def set_wsjf_def rescore_write_def components_of_def)
qed (simp_all add: update_row_def rescore_update_wsjf update_wsjf_def set_wsjf_def rescore_write_def or_else_def)

definition rescored :: "stamp \<Rightarrow> id \<Rightarrow> pending list \<Rightarrow> task \<Rightarrow> task" where
  "rescored now i pds t =
     foldl (\<lambda>t pd. if task_id (pd_task pd) = i then update_row now (rescore_update pd) t else t) t pds"

lemma repo_update_rescore:
  "repo_update now i (rescore_update pd) db =
     (case row db i of None \<Rightarrow> Inl (Row_missing i)
      | Some t \<Rightarrow> Inr (read_row (update_row now (rescore_update pd) t),
                      modify_row i (update_row now (rescore_update pd)) db))"
  by (simp add: repo_update_def rescore_update_wsjf split: option.split)

lemma write_pending_Cons:
  "write_pending now hist (pd # pds) db = Inr db' \<Longrightarrow>
     write_pending now hist pds (append_row (hist pd)
       (modify_row (task_id (pd_task pd)) (update_row now (rescore_update pd)) db)) = Inr db'"
  by (simp add: repo_update_rescore split: option.splits)

lemma write_pending_ok:
  assumes "\<forall>pd \<in> set pds. row db (task_id (pd_task pd)) \<noteq> None"
  shows "\<exists>db'. write_pending now hist pds db = Inr db'"
  using assms
proof (induction pds arbitrary: db)
  case (Cons pd pds)
  then show ?case
    by (auto simp: repo_update_rescore rows.lookup_modify split: option.splits)
qed simp

lemma write_pending_rows:
  assumes "write_pending now hist pds db = Inr db'"
  shows "row db' i = map_option (rescored now i pds) (row db i)"
    and "history db' = history db @ map hist pds" and "find_project db' = find_project db"
  using assms
proof (induction pds arbitrary: db)
  case Nil
  { case 1 then show ?case by (cases "row db i") (simp_all add: rescored_def) }
  { case 2 then show ?case by simp }
  { case 3 then show ?case by simp }
next
  case (Cons pd pds)
  { case 1
    show ?case using Cons.IH(1) [OF write_pending_Cons [OF 1]]
      by (auto simp: rows.lookup_modify rescored_def option.map_comp comp_def) }
  { case 2 show ?case using Cons.IH(2) [OF write_pending_Cons [OF 2]] by simp }
  { case 3 show ?case using Cons.IH(3) [OF write_pending_Cons [OF 3]] by (simp add: find_project_def append_row_def) }
qed


lemma rescored_inv:
  assumes "P t" and "\<And>t pd. P t \<Longrightarrow> pd \<in> set pds \<Longrightarrow> task_id (pd_task pd) = i \<Longrightarrow> P (update_row now (rescore_update pd) t)"
  shows "P (rescored now i pds t)"
  using assms unfolding rescored_def by (induction pds arbitrary: t) auto

lemma rescored_untouched: "\<forall>pd \<in> set pds. task_id (pd_task pd) \<noteq> i \<Longrightarrow> rescored now i pds t = t"
  unfolding rescored_def by (induction pds arbitrary: t) auto

lemma rescored_components:
  assumes "\<forall>pd \<in> set pds. task_id (pd_task pd) = i \<longrightarrow> pd = pd0" and "pd0 \<in> set pds" and "task_id (pd_task pd0) = i"
  shows "components_of (rescored now i pds t) = Some (pd_components pd0)"
  using assms
proof (induction pds rule: rev_induct)
  case (snoc pd pds)
  show ?case
  proof (cases "task_id (pd_task pd) = i")
    case True
    then have "pd = pd0" using snoc.prems(1) by simp
    with True show ?thesis by (simp add: rescored_def)
  next
    case False
    then have "components_of (rescored now i pds t) = Some (pd_components pd0)"
      using snoc.prems by (intro snoc.IH) auto
    with False show ?thesis by (simp add: rescored_def)
  qed
qed simp

section \<open>A whole rescore\<close>

abbreviation charter_at :: "rescore_state \<Rightarrow> id \<Rightarrow> charter option" where
  "charter_at st p \<equiv> map_option fst (map_of (rs_charters st) p)"

definition pending_for :: "rescore_state \<Rightarrow> id \<Rightarrow> submission list \<Rightarrow> pending list" where
  "pending_for st p subs = evaluate_all (charter_at st p) p (rs_db st) subs"

definition history_for :: "rescore_state \<Rightarrow> id \<Rightarrow> actor \<Rightarrow> pending \<Rightarrow> history_row" where
  "history_for st p a = rescore_history p a (map_option snd (map_of (rs_charters st) p)) (rs_next_run st)"

lemma pending_for_iff:
  "pd \<in> set (pending_for st p subs) \<longleftrightarrow> (\<exists>sb t prev fresh. sb \<in> set subs \<and>
     row (rs_db st) (sb_task sb) = Some t \<and> project_id t = p \<and> components_of t = Some prev \<and>
     row_verdict (charter_at st p) sb t = Inr fresh \<and> pd = pending_of (read_row t) prev fresh sb)"
  unfolding pending_for_def evaluate_all_iff evaluate_Inr by blast

lemma pending_for_task:
  assumes "pd \<in> set (pending_for st p subs)" and "task_id (pd_task pd) = i"
  obtains sb t prev fresh where "sb \<in> set subs" "sb_task sb = i" "row (rs_db st) i = Some t" "project_id t = p"
    "components_of t = Some prev" "row_verdict (charter_at st p) sb t = Inr fresh"
    "pd = pending_of (read_row t) prev fresh sb"
proof -
  obtain sb t prev fresh where pd: "sb \<in> set subs" "row (rs_db st) (sb_task sb) = Some t" "project_id t = p"
    "components_of t = Some prev" "row_verdict (charter_at st p) sb t = Inr fresh"
    "pd = pending_of (read_row t) prev fresh sb"
    using assms(1) unfolding pending_for_iff by blast
  moreover have "sb_task sb = i" using find_task_id [OF pd(2)] pd(6) assms(2) by simp
  ultimately show thesis using that by blast
qed

lemma rescore_writes:
  assumes "find_project (rs_db st) p \<noteq> None"
  obtains db' where
    "write_pending now (history_for st p a) (filter pd_changed (pending_for st p subs)) (rs_db st) = Inr db'"
proof -
  have "row (rs_db st) (task_id (pd_task pd)) \<noteq> None" if "pd \<in> set (filter pd_changed (pending_for st p subs))" for pd
  proof -
    have "pd \<in> set (pending_for st p subs)" using that by simp
    then show ?thesis by (rule pending_for_task [OF _ refl]) simp
  qed
  then show thesis using write_pending_ok that by metis
qed

lemma rescore_Inr:
  assumes "find_project (rs_db st) p \<noteq> None"
    and "write_pending now (history_for st p a) (filter pd_changed (pending_for st p subs)) (rs_db st) = Inr db'"
  shows "rescore now p subs a st =
    (Inr \<lparr>sum_run = rs_next_run st, sum_project = p, sum_evaluated = length (pending_for st p subs),
          sum_changed = length (filter pd_changed (pending_for st p subs)),
          sum_skipped_locked = length (filter (\<lambda>pd. pd_skipped pd \<noteq> []) (pending_for st p subs)),
          sum_results = pending_for st p subs,
          sum_errors = collect_errors (charter_at st p) p (rs_db st) subs\<rparr>,
     finalize_run (rs_next_run st) (length (pending_for st p subs))
       (length (filter pd_changed (pending_for st p subs)))
       (length (filter (\<lambda>pd. pd_skipped pd \<noteq> []) (pending_for st p subs)))
       (Some (summary_text p (length (pending_for st p subs))
         (length (filter pd_changed (pending_for st p subs)))
         (length (filter (\<lambda>pd. pd_skipped pd \<noteq> []) (pending_for st p subs)))))
       (snd (open_run now p (map_option snd (map_of (rs_charters st) p)) a st)\<lparr>rs_db := db'\<rparr>))"
  using assms by (auto simp: rescore_def open_run_def pending_for_def history_for_def Let_def split: option.splits)

lemma rescore_success:
  assumes "rescore now p subs a st = (Inr s, st')"
  shows "find_project (rs_db st) p \<noteq> None"
    and "write_pending now (history_for st p a) (filter pd_changed (pending_for st p subs)) (rs_db st) = Inr (rs_db st')"
    and "rs_charters st' = rs_charters st" and "sum_run s = rs_next_run st"
    and "sum_changed s = length (filter pd_changed (pending_for st p subs))"
proof -
  show pr: "find_project (rs_db st) p \<noteq> None"
    using assms by (auto simp: rescore_def split: option.splits)
  obtain db' where w: "write_pending now (history_for st p a) (filter pd_changed (pending_for st p subs)) (rs_db st) = Inr db'"
    using rescore_writes [OF pr] .
  note run = assms [unfolded rescore_Inr [OF pr w]]
  show "write_pending now (history_for st p a) (filter pd_changed (pending_for st p subs)) (rs_db st) = Inr (rs_db st')"
    using run w by (auto simp: finalize_run_def)
  show "rs_charters st' = rs_charters st" "sum_run s = rs_next_run st"
    "sum_changed s = length (filter pd_changed (pending_for st p subs))"
    using run by (auto simp: finalize_run_def open_run_def)
qed

lemma rescored_row:
  assumes "rescore now p subs a st = (Inr s, st')"
  shows "row (rs_db st') i = map_option (rescored now i (filter pd_changed (pending_for st p subs))) (row (rs_db st) i)"
  using write_pending_rows(1) [OF rescore_success(2) [OF assms]] .

lemma rescored_keeps:
  assumes "row (rs_db st) i = Some t"
  shows "project_id (rescored now i (filter pd_changed (pending_for st p subs)) t) = project_id t \<and>
    source_text_of (rescored now i (filter pd_changed (pending_for st p subs)) t) = source_text_of t \<and>
    wsjf_locked_col (rescored now i (filter pd_changed (pending_for st p subs)) t) = wsjf_locked_col t"
  by (rule rescored_inv) (use assms in \<open>auto simp: source_text_of_def elim!: pending_for_task\<close>)

text \<open>
  C13.  A rescore never touches a locked component, and leaves the locks as they are.
\<close>

theorem locked_components_survive:
  assumes "rescore now p subs a st = (Inr s, st')"
    and "row (rs_db st) i = Some t" and "locked_key (wsjf_locked_col t) k"
  shows "\<exists>t'. row (rs_db st') i = Some t' \<and> comp_column k t' = comp_column k t \<and>
    wsjf_locked_col t' = wsjf_locked_col t"
proof -
  let ?t' = "rescored now i (filter pd_changed (pending_for st p subs)) t"
  have "comp_column k ?t' = comp_column k t"
  proof (rule rescored_inv)
    fix t0 pd
    assume pd: "pd \<in> set (filter pd_changed (pending_for st p subs))" "task_id (pd_task pd) = i"
    then obtain sb prev fresh where "components_of t = Some prev" "pd = pending_of (read_row t) prev fresh sb"
      using assms(2) by (auto elim!: pending_for_task)
    then show "comp_column k (update_row now (rescore_update pd) t0) = comp_column k t"
      using assms(3) by (simp add: comp_get_merge comp_column_of)
  qed simp
  then show ?thesis using rescored_row [OF assms(1), of i] assms(2) rescored_keeps [OF assms(2)] by simp
qed

text \<open>
  C11.  Rescoring again with the same submissions, one for each task, changes nothing.
\<close>

theorem rescore_is_idempotent:
  assumes "rescore now p subs a st = (Inr s, st')" and "distinct (map sb_task subs)"
  shows "\<exists>s' st''. rescore later p subs a' st' = (Inr s', st'') \<and> sum_changed s' = 0 \<and> rs_db st'' = rs_db st'"
proof -
  let ?ch = "charter_at st p" and ?pds = "filter pd_changed (pending_for st p subs)"
  have ch: "charter_at st' p = ?ch" using rescore_success(3) [OF assms(1)] by simp
  have unchanged: "\<not> pd_changed pd" if pd_in: "pd \<in> set (pending_for st' p subs)" for pd
  proof -
    obtain i where i: "task_id (pd_task pd) = i" by blast
    obtain sb t' prev' fresh where sb: "sb \<in> set subs" "sb_task sb = i" "row (rs_db st') i = Some t'"
      "project_id t' = p" "components_of t' = Some prev'" "row_verdict ?ch sb t' = Inr fresh"
      and pd: "pd = pending_of (read_row t') prev' fresh sb"
      using pending_for_task [OF pd_in i] unfolding ch .
    obtain t where t: "row (rs_db st) i = Some t" "t' = rescored now i ?pds t"
      using sb(3) rescored_row [OF assms(1), of i] by (cases "row (rs_db st) i") auto
    note same = rescored_keeps [OF t(1), of now p subs, folded t(2)]
    have verdict: "row_verdict ?ch sb t = Inr fresh" using sb(6) same by (simp add: row_verdict_def)
    have unique: "sb' = sb" if "sb' \<in> set subs" "sb_task sb' = i" for sb'
      using assms(2) that sb(1,2) by (auto simp: distinct_map dest: inj_onD)
    have prev': "\<exists>prev. prev' = merge_locked (wsjf_locked_col t) prev fresh"
    proof (cases "components_of t")
      case None
      then have "\<forall>pd \<in> set ?pds. task_id (pd_task pd) \<noteq> i" using t(1) by (auto elim!: pending_for_task)
      then show ?thesis using rescored_untouched [of ?pds i now t] t(2) sb(5) None by simp
    next
      case (Some prev)
      define pd0 where "pd0 = pending_of (read_row t) prev fresh sb"
      have pd0: "pd0 \<in> set (pending_for st p subs)" "task_id (pd_task pd0) = i"
        using sb(1,2,4) t(1) same Some verdict find_task_id [OF t(1)]
        by (auto simp: pending_for_iff pd0_def)
      have only: "pd = pd0" if "pd \<in> set (pending_for st p subs)" "task_id (pd_task pd) = i" for pd
        using that
      proof (rule pending_for_task)
        fix sb' t2 prev2 fresh2
        assume h: "sb' \<in> set subs" "sb_task sb' = i" "row (rs_db st) i = Some t2" "components_of t2 = Some prev2"
          "row_verdict (charter_at st p) sb' t2 = Inr fresh2" "pd = pending_of (read_row t2) prev2 fresh2 sb'"
        have "sb' = sb" "t2 = t" using unique [OF h(1,2)] h(3) t(1) by simp_all
        then show ?thesis using h Some verdict by (simp add: pd0_def)
      qed
      have alone: "\<forall>pd \<in> set ?pds. task_id (pd_task pd) = i \<longrightarrow> pd = pd0"
      proof (intro ballI impI)
        fix pd
        assume "pd \<in> set ?pds" "task_id (pd_task pd) = i"
        from this(1) have "pd \<in> set (pending_for st p subs)" by simp
        then show "pd = pd0" using \<open>task_id (pd_task pd) = i\<close> by (rule only)
      qed
      show ?thesis
      proof (cases "pd_changed pd0")
        case True
        have "components_of t' = Some (pd_components pd0)"
          unfolding t(2) by (rule rescored_components [OF alone]) (use True pd0 in simp_all)
        with sb(5) show ?thesis by (auto simp: pd0_def)
      next
        case False
        then have "\<forall>pd \<in> set ?pds. task_id (pd_task pd) \<noteq> i" using alone by fastforce
        then have "prev' = prev" using rescored_untouched [of ?pds i now t] t(2) sb(5) Some by simp
        moreover have "merge_locked (wsjf_locked_col t) prev fresh = prev"
          using False by (simp add: pd0_def pending_changed)
        ultimately show ?thesis by metis
      qed
    qed
    then show ?thesis using same by (auto simp: pd pending_changed)
  qed
  then have none: "filter pd_changed (pending_for st' p subs) = []" by (simp add: filter_empty_conv)
  have "find_project (rs_db st') p \<noteq> None"
    using rescore_success(1) [OF assms(1)] write_pending_rows(3) [OF rescore_success(2) [OF assms(1)]] by simp
  then show ?thesis
    using rescore_Inr [of st' p later a' subs "rs_db st'"] none by (simp add: finalize_run_def)
qed


text \<open>
  A rescore fails exactly when the project does not exist, and then nothing has changed.
\<close>

theorem rescore_fails_without_a_project:
  "rescore now p subs a st = (Inl e, st') \<longleftrightarrow>
     find_project (rs_db st) p = None \<and> e = Rescore_no_project p \<and> st' = st"
proof (cases "find_project (rs_db st) p")
  case None
  then show ?thesis by (auto simp: rescore_def)
next
  case (Some pr)
  then have "find_project (rs_db st) p \<noteq> None" by simp
  from rescore_writes [OF this] obtain db' where
    "write_pending now (history_for st p a) (filter pd_changed (pending_for st p subs)) (rs_db st) = Inr db'" .
  then show ?thesis using Some by (simp add: rescore_Inr)
qed

text \<open>
  A submission for a task of another project is reported and changes nothing: neither the row of that
  task nor its history.
\<close>

theorem foreign_tasks_are_not_rescored:
  assumes "rescore now p subs a st = (Inr s, st')"
    and "row (rs_db st) i = Some t" and "project_id t \<noteq> p"
  shows "row (rs_db st') i = Some t \<and>
    filter (\<lambda>h. h_task_id h = i) (history (rs_db st')) = filter (\<lambda>h. h_task_id h = i) (history (rs_db st)) \<and>
    (\<forall>sb \<in> set subs. sb_task sb = i \<longrightarrow> (i, Not_in_project i) \<in> set (sum_errors s))"
proof -
  let ?pds = "filter pd_changed (pending_for st p subs)"
  have other: "task_id (pd_task pd) \<noteq> i" if "pd \<in> set ?pds" for pd
  proof
    assume i: "task_id (pd_task pd) = i"
    have "pd \<in> set (pending_for st p subs)" using that by simp
    from pending_for_task [OF this i] show False using assms(2,3) by (metis option.inject)
  qed
  note w = write_pending_rows [OF rescore_success(2) [OF assms(1)]]
  have "rescored now i ?pds t = t" using other by (intro rescored_untouched) blast
  then have "row (rs_db st') i = Some t" using rescored_row [OF assms(1)] assms(2) by simp
  moreover have "filter (\<lambda>h. h_task_id h = i) (history (rs_db st')) = filter (\<lambda>h. h_task_id h = i) (history (rs_db st))"
  proof -
    have "filter (\<lambda>h. h_task_id h = i) (map (history_for st p a) ?pds) = []"
      using other by (auto simp: filter_empty_conv history_for_def rescore_history_def Let_def)
    then show ?thesis using w(2) by simp
  qed
  moreover have "(i, Not_in_project i) \<in> set (sum_errors s)" if sb: "sb \<in> set subs" "sb_task sb = i" for sb
  proof -
    have "evaluate_submission (charter_at st p) p (rs_db st) sb = Inl (Not_in_project i)"
      using assms(2,3) sb(2) by (simp add: evaluate_submission_def find_by_id_def read_row_def)
    moreover have "sum_errors s = collect_errors (charter_at st p) p (rs_db st) subs"
      using assms(1) rescore_Inr [OF rescore_success(1,2) [OF assms(1)]] by auto
    ultimately show ?thesis using sb by (force simp: collect_errors_def)
  qed
  ultimately show ?thesis by blast
qed

definition runs_wf :: "rescore_state \<Rightarrow> bool" where
  "runs_wf st \<longleftrightarrow> list_all (\<lambda>r. run_id r < rs_next_run st) (rs_runs st)"

lemma rescore_keeps_runs_wf: "runs_wf st \<Longrightarrow> runs_wf (snd (rescore now p subs a st))"
  by (auto simp: rescore_def runs_wf_def open_run_def finalize_run_def Let_def list_all_iff
      split: option.split sum.split)

lemma find_run_finalized:
  assumes "runs_wf st"
  shows "\<exists>r. find_run (rs_next_run st) (finalize_run (rs_next_run st) e c k tx
      ((snd (open_run now p v a st))\<lparr>rs_db := d\<rparr>)) = Some r \<and>
    run_project r = p \<and> run_changed r = Some c \<and> run_evaluated r = Some e"
proof -
  have find_snoc: "find P (xs @ [x]) = Some x" if "list_all (\<lambda>r. \<not> P r) xs" "P x"
    for P and xs :: "rescore_run list" and x :: rescore_run
    using that by (induction xs) auto
  have old: "list_all (\<lambda>r. run_id r \<noteq> rs_next_run st) (map f (rs_runs st))" if "\<And>r. run_id (f r) = run_id r" for f
    using assms that by (auto simp: runs_wf_def list_all_iff)
  show ?thesis
    unfolding find_run_def finalize_run_def open_run_def
    by (simp add: find_snoc old)
qed

text \<open>
  Every rescore is on record: one history row for each changed task, all linked to
  the one run, whose record counts them; and every submission was either evaluated or
  reported as an error.
\<close>

theorem rescores_are_accounted_for:
  assumes "rescore now p subs a st = (Inr s, st')" and "runs_wf st"
  shows "\<exists>new r. history (rs_db st') = history (rs_db st) @ new \<and>
    list_all (\<lambda>h. h_trigger h = Tr_rescore \<and> h_project_id h = p \<and> h_rescore_run_id h = Some (sum_run s)) new \<and>
    find_run (sum_run s) st' = Some r \<and> run_project r = p \<and> run_changed r = Some (length new) \<and>
    run_evaluated r = Some (length subs - length (sum_errors s)) \<and> length (sum_errors s) \<le> length subs"
proof -
  let ?pds = "filter pd_changed (pending_for st p subs)"
  note w = rescore_success(2) [OF assms(1)]
  have ok: "find_project (rs_db st) p \<noteq> None" using rescore_success(1) [OF assms(1)] .
  note run = assms(1) [unfolded rescore_Inr [OF ok w]]
  have count: "length (pending_for st p subs) + length (sum_errors s) = length subs"
    using evaluate_counts run by (auto simp: pending_for_def)
  have "\<exists>r. find_run (sum_run s) st' = Some r \<and> run_project r = p \<and> run_changed r = Some (length ?pds) \<and>
      run_evaluated r = Some (length (pending_for st p subs))"
  proof -
    obtain tx d where fin: "st' = finalize_run (rs_next_run st) (length (pending_for st p subs)) (length ?pds)
        (length (filter (\<lambda>pd. pd_skipped pd \<noteq> []) (pending_for st p subs))) tx
        ((snd (open_run now p (map_option snd (map_of (rs_charters st) p)) a st))\<lparr>rs_db := d\<rparr>)"
      using run by (metis prod.inject)
    show ?thesis unfolding rescore_success(4) [OF assms(1)] fin by (rule find_run_finalized [OF assms(2)])
  qed
  moreover have "history (rs_db st') = history (rs_db st) @ map (history_for st p a) ?pds"
    by (rule write_pending_rows(2) [OF w])
  moreover have "list_all (\<lambda>h. h_trigger h = Tr_rescore \<and> h_project_id h = p \<and> h_rescore_run_id h = Some (sum_run s))
      (map (history_for st p a) ?pds)"
    using rescore_success(4) [OF assms(1)]
    by (simp add: list_all_iff history_for_def rescore_history_def Let_def)
  moreover have "length (pending_for st p subs) = length subs - length (sum_errors s)"
    "length (sum_errors s) \<le> length subs" using count by linarith+
  ultimately show ?thesis
    by (intro exI [of _ "map (history_for st p a) ?pds"]) simp
qed

section \<open>Fan-out\<close>

definition reach_inv :: "(id \<times> id) set \<Rightarrow> id \<Rightarrow> id list \<Rightarrow> id list \<Rightarrow> bool" where
  "reach_inv E s seen queue \<longleftrightarrow> distinct seen \<and> s \<in> set seen \<and> set seen \<subseteq> E\<^sup>* `` {s} \<and> set queue \<subseteq> set seen \<and>
     (\<forall>v \<in> set seen - set queue. E `` {v} \<subseteq> set seen)"

lemma reach_result:
  "reach_inv (succ_rel adj) s seen queue \<Longrightarrow> reach_inv (succ_rel adj) s (reach adj seen queue) []"
proof (induction adj seen queue rule: reach.induct)
  case (2 adj seen cur rest)
  let ?E = "succ_rel adj" and ?ns = "or_else (js_get adj cur) []"
  obtain seen' queue' where run: "reach_visit ?ns seen rest = (seen', queue')" by fastforce
  obtain new where new: "queue' = rest @ new" "seen' = seen @ new" "distinct new" "set new = set ?ns - set seen"
    using reach_visit_new [OF run] by blast
  have succ: "?E `` {cur} = set ?ns" by (auto simp: succ_rel_def)
  have cur: "cur \<in> ?E\<^sup>* `` {s}" "cur \<in> set seen" using "2.prems" by (auto simp: reach_inv_def)
  have "set new \<subseteq> ?E\<^sup>* `` {s}"
    using new(4) succ cur(1) by (auto intro: rtrancl_into_rtrancl)
  moreover have "?E `` {v} \<subseteq> set seen'" if v: "v \<in> set seen' - set queue'" for v
  proof (cases "v = cur")
    case True
    then show ?thesis using succ new(2,4) by auto
  next
    case False
    then have "v \<in> set seen - set (cur # rest)" using v new(1,2) by auto
    then have "?E `` {v} \<subseteq> set seen" using "2.prems" unfolding reach_inv_def by blast
    then show ?thesis using new(2) by auto
  qed
  ultimately have "reach_inv ?E s seen' queue'"
    using "2.prems" new(1-4) unfolding reach_inv_def by auto
  from "2.IH" [OF run [symmetric] this] run show ?case by (simp add: reach.simps(2))
qed simp

lemma reach_closure: "length (reach adj [s] [s]) = card ((succ_rel adj)\<^sup>* `` {s})"
proof -
  have "reach_inv (succ_rel adj) s [s] [s]" by (simp add: reach_inv_def)
  define R where "R = reach adj [s] [s]"
  from reach_result [OF \<open>reach_inv (succ_rel adj) s [s] [s]\<close>]
  have inv: "reach_inv (succ_rel adj) s R []" by (simp only: R_def)
  have "v \<in> set R" if "(s, v) \<in> (succ_rel adj)\<^sup>*" for v
    using that by induction (use inv in \<open>auto simp: reach_inv_def\<close>)
  then have "set R = (succ_rel adj)\<^sup>* `` {s}" using inv by (auto simp: reach_inv_def)
  then show ?thesis using inv unfolding R_def by (metis distinct_card reach_inv_def)
qed

lemma downstream_map_succs: "(v, w) \<in> succ_rel (downstream_map ids es) \<longleftrightarrow> (v, w) \<in> set es"
proof -
  have init: "or_else (js_get (foldl (\<lambda>m i. js_put i [] m) m ids) v) [] = []"
    if "or_else (js_get m v) [] = []" for m :: "(id, id list) jsmap"
    using that by (induction ids arbitrary: m) (auto simp: or_else_def)
  have pushed: "w \<in> set (or_else (js_get (foldl (\<lambda>m e. push_edge e m) m es) v) []) \<longleftrightarrow>
      w \<in> set (or_else (js_get m v) []) \<or> (v, w) \<in> set es" for m
    by (induction es arbitrary: m) (auto simp: push_edge_def or_else_def)
  have "or_else (js_get (foldl (\<lambda>m i. js_put i [] m) ([] :: (id, id list) jsmap) ids) v) [] = []"
    by (rule init) (simp add: or_else_def)
  then show ?thesis by (simp add: succ_rel_def downstream_map_def pushed)
qed

lemma transitive_dependents_get:
  assumes "i \<in> set ids"
  shows "js_get (compute_transitive_dependents es ids) i = Some (card ((set es)\<^sup>* `` {i}) - 1)"
proof -
  have get: "js_get (foldl (\<lambda>m k. js_put k (f k) m) m ks) i = (if i \<in> set ks then Some (f i) else js_get m i)"
    for f :: "id \<Rightarrow> nat" and m ks by (induction ks arbitrary: m) auto
  have "succ_rel (downstream_map ids es) = set es" using downstream_map_succs by (intro set_eqI) auto
  then show ?thesis
    using assms by (simp add: compute_transitive_dependents_def Let_def get reach_closure)
qed

text \<open>
  The signal that goes with a candidate is the number of other tasks that depend on it,
  directly or through others, inside the project.
\<close>

theorem rescore_signals_count_dependents:
  assumes "collect_rescore_set p st = Inr r" and "(i, n) \<in> set (set_signals r)"
  shows "n = card {v. v \<noteq> i \<and> (i, v) \<in> (set (edges (rs_db st)) \<inter>
    set (project_id_set p (rs_db st)) \<times> set (project_id_set p (rs_db st)))\<^sup>*}"
proof -
  let ?E = "set (t_edges (classify p (rs_db st)))"
  have signals: "set_signals r = map (\<lambda>t. (task_id t, or_else (js_get (compute_transitive_dependents
      (t_edges (classify p (rs_db st))) (map task_id (load_project_tasks p (rs_db st)))) (task_id t)) 0))
      (filter (\<lambda>t. components_of t \<noteq> None) (load_project_tasks p (rs_db st)))"
    using assms(1) by (auto simp: collect_rescore_set_def Let_def split: option.splits if_splits)
  from assms(2) have "n = card (?E\<^sup>* `` {i}) - 1"
    unfolding signals by (auto simp: transitive_dependents_get or_else_def)
  moreover have "?E\<^sup>* `` {i} = insert i {v. v \<noteq> i \<and> (i, v) \<in> ?E\<^sup>*}" by auto
  moreover have "finite {v. v \<noteq> i \<and> (i, v) \<in> ?E\<^sup>*}"
  proof (rule finite_subset)
    show "{v. v \<noteq> i \<and> (i, v) \<in> ?E\<^sup>*} \<subseteq> snd ` ?E"
    proof
      fix v
      assume "v \<in> {v. v \<noteq> i \<and> (i, v) \<in> ?E\<^sup>*}"
      then obtain w where "(w, v) \<in> ?E" by (auto elim: rtranclE)
      then show "v \<in> snd ` ?E" by force
    qed
  qed simp
  ultimately show ?thesis by (simp add: classify_edges set_in_project_edges)
qed


section \<open>Samples\<close>

definition sample_charter :: charter where
  "sample_charter = \<lparr>mission = ''m'', time_context = '''', risk_posture = '''',
     value_themes = [\<lparr>th_name = ''speed'', th_description = ''d'', th_weight = F8\<rparr>]\<rparr>"

definition sample_locks :: wsjf_locks where
  "sample_locks = \<lparr>c_value = False, c_time = True, c_risk = False, c_job = False\<rparr>"

definition sample_scored_row :: task where
  "sample_scored_row = (new_row 1500 1 sample_create)
     \<lparr>title := ''a fast fix now'', wsjf_value := Some F1, wsjf_time_criticality := Some F1,
      wsjf_risk_opportunity := Some F1, wsjf_job_size := Some F2, wsjf_locked_col := Some sample_locks\<rparr>"

definition sample_rescore_state :: rescore_state where
  "sample_rescore_state = \<lparr>rs_db = sample_pair\<lparr>tasks := [sample_scored_row, new_row 2500 2 sample_create]\<rparr>,
     rs_charters = [(1, sample_charter, 4)], rs_runs = [], rs_next_run = 1\<rparr>"

definition sample_sub :: submission where
  "sample_sub = \<lparr>sb_task = 1, sb_class = sample_submission, sb_features = sample_features\<rparr>"

definition no_actor :: actor where
  "no_actor = \<lparr>actor_type = None, actor_ident = None\<rparr>"

definition ok_rescore :: "rescore_error + rescore_summary \<Rightarrow> bool" where
  "ok_rescore r = (case r of Inl _ \<Rightarrow> False | Inr s \<Rightarrow> sum_changed s = 1 \<and> sum_errors s = [(2, Unscored_task 2)])"

definition sample_subs :: "submission list" where
  "sample_subs = [sample_sub, sample_sub\<lparr>sb_task := 2\<rparr>]"

lemma sample_rescore:
  "\<exists>s st'. rescore 9000 1 sample_subs no_actor sample_rescore_state = (Inr s, st') \<and> sum_changed s = 1"
proof -
  have "ok_rescore (fst (rescore 9000 1 sample_subs no_actor sample_rescore_state))" by code_simp
  then show ?thesis
    by (cases "rescore 9000 1 sample_subs no_actor sample_rescore_state")
      (auto simp: ok_rescore_def split: sum.splits)
qed

lemma sample_scored_found:
  "row (rs_db sample_rescore_state) 1 = Some sample_scored_row"
  "locked_key (wsjf_locked_col sample_scored_row) K_time" "distinct (map sb_task sample_subs)"
  "runs_wf sample_rescore_state"
  by (simp_all add: sample_rescore_state_def row_def sample_scored_row_def new_row_def set_wsjf_def
      locked_key_def sample_locks_def sample_subs_def sample_sub_def runs_wf_def)

theorem locked_components_survive_witness:
  "\<exists>s st'. rescore 9000 1 sample_subs no_actor sample_rescore_state = (Inr s, st') \<and> sum_changed s = 1 \<and>
     (\<exists>t'. row (rs_db st') 1 = Some t' \<and> comp_column K_time t' = comp_column K_time sample_scored_row)"
proof -
  obtain s st' where run: "rescore 9000 1 sample_subs no_actor sample_rescore_state = (Inr s, st')" "sum_changed s = 1"
    using sample_rescore by blast
  show ?thesis using locked_components_survive [OF run(1) sample_scored_found(1,2)] run by blast
qed

theorem rescore_is_idempotent_witness:
  "\<exists>s st' s' st''. rescore 9000 1 sample_subs no_actor sample_rescore_state = (Inr s, st') \<and> sum_changed s = 1 \<and>
     rescore 9900 1 sample_subs no_actor st' = (Inr s', st'') \<and> sum_changed s' = 0 \<and> rs_db st'' = rs_db st'"
proof -
  obtain s st' where run: "rescore 9000 1 sample_subs no_actor sample_rescore_state = (Inr s, st')" "sum_changed s = 1"
    using sample_rescore by blast
  show ?thesis using rescore_is_idempotent [OF run(1) sample_scored_found(3), of 9900 no_actor] run by blast
qed

theorem rescores_are_accounted_for_witness:
  "\<exists>s st' new. rescore 9000 1 sample_subs no_actor sample_rescore_state = (Inr s, st') \<and> sum_changed s = 1 \<and>
     history (rs_db st') = history (rs_db sample_rescore_state) @ new"
proof -
  obtain s st' where run: "rescore 9000 1 sample_subs no_actor sample_rescore_state = (Inr s, st')" "sum_changed s = 1"
    using sample_rescore by blast
  show ?thesis using rescores_are_accounted_for [OF run(1) sample_scored_found(4)] run by blast
qed

definition signals_of :: "rescore_error + rescore_set \<Rightarrow> (id \<times> nat) list" where
  "signals_of r = (case r of Inl _ \<Rightarrow> [] | Inr s \<Rightarrow> set_signals s)"

definition linked_rescore_state :: rescore_state where
  "linked_rescore_state = sample_rescore_state\<lparr>rs_db := (rs_db sample_rescore_state)\<lparr>deps := deps sample_linked\<rparr>\<rparr>"

theorem rescore_signals_count_dependents_witness:
  "\<exists>r. collect_rescore_set 1 linked_rescore_state = Inr r \<and> (1, 1) \<in> set (set_signals r) \<and>
     1 = card {v. v \<noteq> 1 \<and> (1, v) \<in> (set (edges (rs_db linked_rescore_state)) \<inter>
       set (project_id_set 1 (rs_db linked_rescore_state)) \<times> set (project_id_set 1 (rs_db linked_rescore_state)))\<^sup>*}"
proof -
  have "signals_of (collect_rescore_set 1 linked_rescore_state) = [(1, 1)]" by code_simp
  then obtain r where r: "collect_rescore_set 1 linked_rescore_state = Inr r" "(1, 1) \<in> set (set_signals r)"
    by (auto simp: signals_of_def split: sum.splits)
  show ?thesis using rescore_signals_count_dependents [OF r] r by auto
qed

text \<open>
  Two submissions for one task in one batch: both are compared with the row as it was before
  the run, so the second history row records a previous score that was not the
  previous one.
\<close>

lemma duplicate_submissions_record_a_stale_score:
  "let rows = history (rs_db (snd (rescore 9000 1 [sample_sub, sample_sub] no_actor sample_rescore_state)))
   in map h_prev_score rows = [Some (3 / 2), Some (3 / 2)] \<and> map h_score rows = [Some (17 / 2), Some (17 / 2)]"
  by code_simp

text \<open>A batch in which nothing is valid still opens a run.\<close>

lemma invalid_batches_open_a_run:
  "map run_evaluated (rs_runs (snd (rescore 9000 1 [sample_sub\<lparr>sb_task := 2\<rparr>] no_actor sample_rescore_state))) = [Some 0]"
  by code_simp

end
