(* ===== verification/Model_Policy.thy ===== *)
theory Model_Policy
  imports Store_Invariant
begin

text \<open>
  The choice of models: the catalog with its cache (\<open>src/services/model-catalog.service.ts\<close>), the
  policies and their resolution (\<open>src/schemas/model-policy.schema.ts\<close>,
  \<open>src/services/model-policy.service.ts\<close>) and the database-wide default with its memo
  (\<open>src/services/settings.service.ts\<close>, \<open>src/repositories/settings.repository.ts\<close>).  The answer of
  the models API, the clock and the JSON text of a policy are arguments.
\<close>

section \<open>Families\<close>

datatype family = Fable | Opus | Sonnet | Haiku

definition FAMILY_LADDER :: "family list" where
  "FAMILY_LADDER = [Fable, Opus, Sonnet, Haiku]"

fun family_name :: "family \<Rightarrow> string" where
  "family_name Fable = ''fable''"
| "family_name Opus = ''opus''"
| "family_name Sonnet = ''sonnet''"
| "family_name Haiku = ''haiku''"

record catalog_entry =
  ce_id :: string
  ce_display_name :: string
  ce_family :: string
  ce_created_at :: string

record catalog =
  models :: "catalog_entry list"
  stale :: bool

definition STATIC_FALLBACK_MODELS :: "catalog_entry list" where
  "STATIC_FALLBACK_MODELS =
     [\<lparr>ce_id = ''claude-fable-5'', ce_display_name = ''Claude Fable 5'', ce_family = ''fable'',
       ce_created_at = ''2026-05-01T00:00:00Z''\<rparr>,
      \<lparr>ce_id = ''claude-opus-4-8'', ce_display_name = ''Claude Opus 4.8'', ce_family = ''opus'',
       ce_created_at = ''2026-01-01T00:00:00Z''\<rparr>,
      \<lparr>ce_id = ''claude-sonnet-4-6'', ce_display_name = ''Claude Sonnet 4.6'', ce_family = ''sonnet'',
       ce_created_at = ''2025-09-01T00:00:00Z''\<rparr>,
      \<lparr>ce_id = ''claude-haiku-4-5'', ce_display_name = ''Claude Haiku 4.5'', ce_family = ''haiku'',
       ce_created_at = ''2025-10-01T00:00:00Z''\<rparr>]"

definition family_of :: "string \<Rightarrow> string" where
  "family_of i =
     (case find (\<lambda>f. str_includes i (family_name f)) FAMILY_LADDER of
        Some f \<Rightarrow> family_name f
      | None \<Rightarrow> (case split_on (CHR ''-'') i of _ # w # _ \<Rightarrow> w | _ \<Rightarrow> ''unknown''))"

section \<open>The catalog\<close>

text \<open>
  One call of the API: it rejects or its body is no JSON, it answers with a status that is not
  in the two hundreds, or it answers with a body whose \<open>data\<close> may be missing.
\<close>

record api_model =
  am_id :: string
  am_display_name :: "string option"
  am_created_at :: "string option"

datatype api_answer = Api_threw | Api_not_ok | Api_body "api_model list option"

definition fallback :: catalog where
  "fallback = \<lparr>models = STATIC_FALLBACK_MODELS, stale = True\<rparr>"

definition entry_of :: "api_model \<Rightarrow> catalog_entry" where
  "entry_of m =
     \<lparr>ce_id = am_id m, ce_display_name = (case am_display_name m of None \<Rightarrow> am_id m | Some s \<Rightarrow> s),
      ce_family = family_of (am_id m), ce_created_at = (case am_created_at m of None \<Rightarrow> '''' | Some s \<Rightarrow> s)\<rparr>"

definition fetch_live :: "string option \<Rightarrow> api_answer \<Rightarrow> catalog" where
  "fetch_live apiKey answer =
     (if (case apiKey of None \<Rightarrow> True | Some k \<Rightarrow> k = '''') then fallback
      else case answer of
        Api_threw \<Rightarrow> fallback
      | Api_not_ok \<Rightarrow> fallback
      | Api_body ms \<Rightarrow> \<lparr>models = map entry_of (case ms of None \<Rightarrow> [] | Some xs \<Rightarrow> xs), stale = False\<rparr>)"

definition DEFAULT_TTL_MS :: int where
  "DEFAULT_TTL_MS = 10 * 60 * 1000"

type_synonym catalog_cache = "(int \<times> catalog) option"

text \<open>
  \<open>list\<close> up to its \<open>await\<close> either answers from the cache or leaves a fetch in flight;
  when the fetch is back it fills the cache.  \<open>refresh\<close> drops the cache first.
\<close>

definition list_start :: "int \<Rightarrow> int \<Rightarrow> catalog_cache \<Rightarrow> catalog option" where
  "list_start ttlMs now cache =
     (case cache of None \<Rightarrow> None | Some (since, v) \<Rightarrow> if now - since < ttlMs then Some v else None)"

definition list_finish :: "int \<Rightarrow> catalog \<Rightarrow> catalog_cache" where
  "list_finish now v = Some (now, v)"

definition refresh_start :: "catalog_cache \<Rightarrow> catalog_cache" where
  "refresh_start cache = None"

section \<open>Policies\<close>

datatype power_category = Minimal | Light | Moderate | Strong | Heavy | Maximum

datatype pipeline_role = Execution | Validation | Planning

text \<open>A model reference is a catalog id or the text \<open>auto\<close>.\<close>

record role_policy =
  by_category :: "(power_category \<Rightarrow> string option) option"
  rp_constant :: "string option"
  rp_default :: "string option"

record model_policy =
  mp_execution :: "role_policy option"
  mp_validation :: "role_policy option"
  mp_planning :: "role_policy option"

definition FIB_TO_CATEGORY :: "(int \<times> power_category) list" where
  "FIB_TO_CATEGORY = [(1, Minimal), (2, Light), (3, Moderate), (5, Strong), (8, Heavy), (13, Maximum)]"

definition category_for_job_size :: "int option \<Rightarrow> power_category option" where
  "category_for_job_size jobSize = (case jobSize of None \<Rightarrow> None | Some n \<Rightarrow> map_of FIB_TO_CATEGORY n)"

fun category_family :: "power_category \<Rightarrow> family \<times> family" where
  "category_family Minimal = (Sonnet, Haiku)"
| "category_family Light = (Sonnet, Haiku)"
| "category_family Moderate = (Sonnet, Sonnet)"
| "category_family Strong = (Sonnet, Sonnet)"
| "category_family Heavy = (Opus, Opus)"
| "category_family Maximum = (Fable, Opus)"

text \<open>\<open>DEFAULT_MODEL_MAP\<close>, an unscored task taking the row of \<open>moderate\<close>.\<close>

definition default_family :: "power_category option \<Rightarrow> pipeline_role \<Rightarrow> family" where
  "default_family category role =
     (let cat = (case category of None \<Rightarrow> Moderate | Some c \<Rightarrow> c)
      in case role of Planning \<Rightarrow> Opus | Execution \<Rightarrow> fst (category_family cat) | Validation \<Rightarrow> snd (category_family cat))"

fun first_of_families :: "catalog_entry list \<Rightarrow> family list \<Rightarrow> string option" where
  "first_of_families cat [] = None"
| "first_of_families cat (f # fs) =
     (case find (\<lambda>m. ce_family m = family_name f) cat of
        Some m \<Rightarrow> Some (ce_id m) | None \<Rightarrow> first_of_families cat fs)"

definition resolve_auto :: "catalog_entry list \<Rightarrow> power_category option \<Rightarrow> pipeline_role \<Rightarrow> string option" where
  "resolve_auto cat category role =
     (case first_of_families cat (dropWhile (\<lambda>f. f \<noteq> default_family category role) FAMILY_LADDER) of
        Some i \<Rightarrow> Some i
      | None \<Rightarrow> (case cat of [] \<Rightarrow> None | m # _ \<Rightarrow> Some (ce_id m)))"

datatype resolved = Use_model string | Use_auto

definition to_resolved :: "string option \<Rightarrow> resolved option" where
  "to_resolved r = (case r of None \<Rightarrow> None | Some s \<Rightarrow> Some (if s = ''auto'' then Use_auto else Use_model s))"

fun role_of :: "pipeline_role \<Rightarrow> model_policy \<Rightarrow> role_policy option" where
  "role_of Execution p = mp_execution p"
| "role_of Validation p = mp_validation p"
| "role_of Planning p = mp_planning p"

text \<open>\<open>a ?? b\<close>.\<close>

definition coalesce :: "'a option \<Rightarrow> 'a option \<Rightarrow> 'a option" where
  "coalesce a b = (case a of None \<Rightarrow> b | Some x \<Rightarrow> Some x)"

record policy_env =
  pe_project :: "id \<Rightarrow> model_policy option option"
  pe_global :: "model_policy option"
  pe_task :: "id \<Rightarrow> (id \<times> int option) option"

datatype resolve_error = Rm_no_project id | Rm_no_task id | Rm_foreign_task id id

definition category_slot :: "power_category \<Rightarrow> role_policy option \<Rightarrow> string option" where
  "category_slot c r = Option.bind (Option.bind r by_category) (\<lambda>m. m c)"

definition resolve_role ::
    "role_policy option \<Rightarrow> role_policy option \<Rightarrow> power_category option \<Rightarrow> resolved option" where
  "resolve_role projectRole globalRole category =
     (let byCat = (case category of None \<Rightarrow> None
            | Some c \<Rightarrow> coalesce (category_slot c projectRole) (category_slot c globalRole));
          const = coalesce (Option.bind projectRole rp_constant) (Option.bind globalRole rp_constant);
          dflt = coalesce (Option.bind projectRole rp_default) (Option.bind globalRole rp_default)
      in to_resolved (coalesce (coalesce byCat const) dflt))"

definition resolve_model ::
    "policy_env \<Rightarrow> id \<Rightarrow> pipeline_role \<Rightarrow> id option \<Rightarrow> resolve_error + resolved option" where
  "resolve_model E projectId role taskId =
     (case pe_project E projectId of
        None \<Rightarrow> Inl (Rm_no_project projectId)
      | Some policy \<Rightarrow>
          let answer = (\<lambda>category. Inr (resolve_role (Option.bind policy (role_of role))
                (Option.bind (pe_global E) (role_of role)) category))
          in case taskId of
            None \<Rightarrow> answer None
          | Some tid \<Rightarrow>
              (case pe_task E tid of
                 None \<Rightarrow> Inl (Rm_no_task tid)
               | Some (owner, jobSize) \<Rightarrow>
                   if owner \<noteq> projectId then Inl (Rm_foreign_task tid owner)
                   else answer (category_for_job_size jobSize)))"

text \<open>The service as the server wires it: \<open>findResolverFacts\<close> reads the task's two columns.\<close>

definition db_task_facts :: "db \<Rightarrow> id \<Rightarrow> (id \<times> int option) option" where
  "db_task_facts db i = map_option (\<lambda>(p, sz). (p, map_option fib_val sz)) (find_resolver_facts db i)"

section \<open>The database-wide default\<close>

definition valid_ref :: "string \<Rightarrow> bool" where
  "valid_ref s \<longleftrightarrow> 1 \<le> length s \<and> length s \<le> 200"

definition all_opt :: "('a \<Rightarrow> bool) \<Rightarrow> 'a option \<Rightarrow> bool" where
  "all_opt P v = (case v of None \<Rightarrow> True | Some x \<Rightarrow> P x)"

definition valid_role :: "role_policy \<Rightarrow> bool" where
  "valid_role r \<longleftrightarrow>
     all_opt (\<lambda>m. list_all (\<lambda>c. all_opt valid_ref (m c)) (map snd FIB_TO_CATEGORY)) (by_category r) \<and>
     all_opt valid_ref (rp_constant r) \<and> all_opt valid_ref (rp_default r)"

definition valid_policy :: "model_policy \<Rightarrow> bool" where
  "valid_policy p \<longleftrightarrow>
     all_opt valid_role (mp_execution p) \<and> all_opt valid_role (mp_validation p) \<and> all_opt valid_role (mp_planning p)"

text \<open>
  \<open>decode\<close> is \<open>JSON.parse\<close> followed by the structural part of the schema, \<open>None\<close> where either
  refuses; \<open>encode\<close> is \<open>JSON.stringify\<close>.
\<close>

record settings =
  model_policy_default :: "string option"
  memo :: "model_policy option option"

definition read_raw :: "(string \<Rightarrow> model_policy option) \<Rightarrow> string option \<Rightarrow> model_policy option" where
  "read_raw decode raw =
     (case raw of None \<Rightarrow> None
      | Some text \<Rightarrow> (case decode text of None \<Rightarrow> None | Some p \<Rightarrow> if valid_policy p then Some p else None))"

definition get_model_policy_default ::
    "(string \<Rightarrow> model_policy option) \<Rightarrow> settings \<Rightarrow> model_policy option \<times> settings" where
  "get_model_policy_default decode st =
     (case memo st of
        Some v \<Rightarrow> (v, st)
      | None \<Rightarrow> let v = read_raw decode (model_policy_default st) in (v, st\<lparr>memo := Some v\<rparr>))"

definition set_model_policy_default ::
    "(model_policy \<Rightarrow> string) \<Rightarrow> model_policy option \<Rightarrow> settings \<Rightarrow> bool \<times> settings" where
  "set_model_policy_default encode policy st =
     (case policy of
        None \<Rightarrow> (True, st\<lparr>model_policy_default := None, memo := None\<rparr>)
      | Some p \<Rightarrow> if \<not> valid_policy p then (False, st)
                  else (True, st\<lparr>model_policy_default := Some (encode p), memo := None\<rparr>))"

section \<open>Resolution\<close>

text \<open>The categories in ascending power, as the tiers of the job size.\<close>

theorem categories_relabel_the_sizes:
  "category_for_job_size (Some n) = Some c \<longleftrightarrow>
     (n, c) \<in> set (zip (map fib_val FIB) [Minimal, Light, Moderate, Strong, Heavy, Maximum])"
  by (auto simp: category_for_job_size_def FIB_TO_CATEGORY_def FIB_def)

text \<open>The merged policy of a role: each slot is the project's, or else the database's.\<close>

definition merge_slot :: "('a \<Rightarrow> 'b option) \<Rightarrow> 'a option \<Rightarrow> 'a option \<Rightarrow> 'b option" where
  "merge_slot slot a b =
     (if \<exists>r v. a = Some r \<and> slot r = Some v then Option.bind a slot else Option.bind b slot)"

definition merged_role :: "role_policy option \<Rightarrow> role_policy option \<Rightarrow> role_policy" where
  "merged_role a b =
     \<lparr>by_category = Some (\<lambda>c. merge_slot (\<lambda>r. Option.bind (by_category r) (\<lambda>m. m c)) a b),
      rp_constant = merge_slot rp_constant a b, rp_default = merge_slot rp_default a b\<rparr>"

text \<open>The reference: the first slot that is set in the merged policy.\<close>

definition reference_slots :: "role_policy \<Rightarrow> power_category option \<Rightarrow> string list" where
  "reference_slots r category =
     map the (filter (\<lambda>s. s \<noteq> None)
       [Option.bind category (\<lambda>c. Option.bind (by_category r) (\<lambda>m. m c)), rp_constant r, rp_default r])"

lemma coalesce_merge: "coalesce (Option.bind a slot) (Option.bind b slot) = merge_slot slot a b"
  by (cases a) (auto simp: coalesce_def merge_slot_def split: option.split)

text \<open>
  A role resolves to the first set slot of the policy that is merged slot by slot: the
  category's, the constant, the default; to nothing when none is set.
\<close>

theorem resolution_is_the_merged_lookup:
  "resolve_role a b category =
     (case reference_slots (merged_role a b) category of
        [] \<Rightarrow> None | s # _ \<Rightarrow> Some (if s = ''auto'' then Use_auto else Use_model s))"
proof -
  have cat: "category_slot c r = Option.bind r (\<lambda>r. Option.bind (by_category r) (\<lambda>m. m c))" for c r
    by (cases r) (simp_all add: category_slot_def)
  show ?thesis
    unfolding resolve_role_def cat coalesce_merge
    by (cases category)
      (auto simp: Let_def merged_role_def reference_slots_def coalesce_def to_resolved_def split: option.split)
qed

text \<open>
  Resolving a model reports exactly the three mistakes, in this order: a project that is
  not there, a task that is not there, a task of another project.  With the tables behind
  it, an answer for a task is the answer for its job size.
\<close>

theorem resolve_model_checks_its_arguments:
  "resolve_model (E\<lparr>pe_task := db_task_facts db\<rparr>) p role (Some i) =
    (case (pe_project E p, row db i) of
       (None, _) \<Rightarrow> Inl (Rm_no_project p)
     | (Some _, None) \<Rightarrow> Inl (Rm_no_task i)
     | (Some policy, Some t) \<Rightarrow>
         if project_id t \<noteq> p then Inl (Rm_foreign_task i (project_id t))
         else Inr (resolve_role (Option.bind policy (role_of role)) (Option.bind (pe_global E) (role_of role))
           (category_for_job_size (map_option fib_val (wsjf_job_size t)))))"
  by (simp add: resolve_model_def db_task_facts_def find_resolver_facts_def Let_def split: option.split)

text \<open>The families at or below a family, from strong to weak.\<close>

definition first_in_family :: "catalog_entry list \<Rightarrow> family \<Rightarrow> string \<Rightarrow> bool" where
  "first_in_family cat f i \<longleftrightarrow>
     (\<exists>n < length cat. ce_id (cat ! n) = i \<and> ce_family (cat ! n) = family_name f \<and>
        (\<forall>j < n. ce_family (cat ! j) \<noteq> family_name f))"

definition present :: "catalog_entry list \<Rightarrow> family \<Rightarrow> bool" where
  "present cat f \<longleftrightarrow> family_name f \<in> ce_family ` set cat"

definition rung :: "family \<Rightarrow> nat" where
  "rung f = length (takeWhile (\<lambda>g. g \<noteq> f) FAMILY_LADDER)"

lemma find_first_in_family:
  "find (\<lambda>m. ce_family m = family_name f) cat = Some m \<Longrightarrow> first_in_family cat f (ce_id m)"
  by (auto simp: find_Some_iff first_in_family_def)

lemma find_present: "find (\<lambda>m. ce_family m = family_name f) cat = None \<longleftrightarrow> \<not> present cat f"
  unfolding find_None_iff present_def by force

lemma first_of_families_cases:
  "case first_of_families cat fs of
     Some i \<Rightarrow> \<exists>n < length fs. first_in_family cat (fs ! n) i \<and> (\<forall>j < n. \<not> present cat (fs ! j))
   | None \<Rightarrow> \<forall>f \<in> set fs. \<not> present cat f"
proof (induction fs)
  case (Cons f fs)
  show ?case
  proof (cases "find (\<lambda>m. ce_family m = family_name f) cat")
    case None
    then have absent: "\<not> present cat f" by (simp add: find_present)
    show ?thesis
    proof (cases "first_of_families cat fs")
      case (Some i)
      then obtain n where "n < length fs" "first_in_family cat (fs ! n) i" "\<forall>j < n. \<not> present cat (fs ! j)"
        using Cons by auto
      then show ?thesis using None Some absent
        by (auto simp: nth_Cons split: nat.split intro!: exI [of _ "Suc n"])
    qed (use None Cons absent in simp)
  next
    case (Some m)
    then show ?thesis using find_first_in_family [OF Some]
      by (auto intro!: exI [of _ 0])
  qed
qed simp

lemma rungs: "FAMILY_LADDER ! rung f = f" "rung f < 4"
  "dropWhile (\<lambda>g. g \<noteq> f) FAMILY_LADDER = drop (rung f) FAMILY_LADDER"
  by (cases f; simp add: rung_def FAMILY_LADDER_def)+

text \<open>
  The automatic choice is the newest model of the strongest family present that is not
  above the family the table names; without one it is the first model there is, and
  nothing from an empty catalog.
\<close>

theorem auto_steps_down_the_ladder:
  "case resolve_auto cat category role of
     None \<Rightarrow> cat = []
   | Some i \<Rightarrow>
       (\<exists>f. rung (default_family category role) \<le> rung f \<and> first_in_family cat f i \<and>
          (\<forall>g. rung (default_family category role) \<le> rung g \<and> rung g < rung f \<longrightarrow> \<not> present cat g)) \<or>
       (\<forall>f. rung (default_family category role) \<le> rung f \<longrightarrow> \<not> present cat f) \<and> cat \<noteq> [] \<and> i = ce_id (hd cat)"
proof -
  let ?d = "default_family category role"
  let ?fs = "drop (rung ?d) FAMILY_LADDER"
  have nth: "n < length ?fs \<Longrightarrow> rung (?fs ! n) = rung ?d + n" for n
  proof -
    assume "n < length ?fs"
    moreover have "rung (FAMILY_LADDER ! k) = k" if "k < 4" for k
    proof -
      have "k \<in> {0, 1, 2, 3}" using that by auto
      then show ?thesis by (auto simp: rung_def FAMILY_LADDER_def)
    qed
    ultimately show ?thesis using rungs(2) [of ?d] by (simp add: FAMILY_LADDER_def)
  qed
  have member: "g = ?fs ! (rung g - rung ?d) \<and> rung g - rung ?d < length ?fs" if "rung ?d \<le> rung g" for g
    using that rungs(1,2) [of g] by (simp add: FAMILY_LADDER_def)
  show ?thesis
  proof (cases "first_of_families cat ?fs")
    case None
    then have none: "\<forall>f \<in> set ?fs. \<not> present cat f" using first_of_families_cases [where cat = cat and fs = ?fs] by (simp add: None)
    have "\<not> present cat f" if "rung ?d \<le> rung f" for f
      using none member [OF that] by (metis nth_mem)
    then show ?thesis using None by (auto simp: resolve_auto_def rungs(3) split: list.split)
  next
    case (Some i)
    then obtain n where n: "n < length ?fs" "first_in_family cat (?fs ! n) i" "\<forall>j < n. \<not> present cat (?fs ! j)"
      using first_of_families_cases [where cat = cat and fs = ?fs] by auto
    have "\<not> present cat g" if "rung ?d \<le> rung g" "rung g < rung (?fs ! n)" for g
    proof -
      have "rung g - rung ?d < n" using that nth [OF n(1)] by simp
      then show ?thesis using n(3) member [OF that(1)] by metis
    qed
    moreover have "rung ?d \<le> rung (?fs ! n)" using nth [OF n(1)] by simp
    ultimately show ?thesis using Some n(2) by (auto simp: resolve_auto_def rungs(3))
  qed
qed

section \<open>The memo and the cache\<close>

datatype settings_op = Get_default | Set_default "model_policy option"

datatype settings_answer = Got "model_policy option" | Was_set bool

text \<open>The service, and the reference that reads the column every time.\<close>

fun run_settings ::
    "(string \<Rightarrow> model_policy option) \<Rightarrow> (model_policy \<Rightarrow> string) \<Rightarrow> settings_op list \<Rightarrow> settings \<Rightarrow> settings_answer list" where
  "run_settings decode encode [] st = []"
| "run_settings decode encode (Get_default # ops) st =
     (case get_model_policy_default decode st of (v, st') \<Rightarrow> Got v # run_settings decode encode ops st')"
| "run_settings decode encode (Set_default p # ops) st =
     (case set_model_policy_default encode p st of (ok, st') \<Rightarrow> Was_set ok # run_settings decode encode ops st')"

fun run_column ::
    "(string \<Rightarrow> model_policy option) \<Rightarrow> (model_policy \<Rightarrow> string) \<Rightarrow> settings_op list \<Rightarrow> string option \<Rightarrow> settings_answer list" where
  "run_column decode encode [] raw = []"
| "run_column decode encode (Get_default # ops) raw = Got (read_raw decode raw) # run_column decode encode ops raw"
| "run_column decode encode (Set_default p # ops) raw =
     (case p of
        None \<Rightarrow> Was_set True # run_column decode encode ops None
      | Some q \<Rightarrow> if valid_policy q then Was_set True # run_column decode encode ops (Some (encode q))
                  else Was_set False # run_column decode encode ops raw)"

definition memo_fresh :: "(string \<Rightarrow> model_policy option) \<Rightarrow> settings \<Rightarrow> bool" where
  "memo_fresh decode st \<longleftrightarrow> (case memo st of None \<Rightarrow> True | Some v \<Rightarrow> v = read_raw decode (model_policy_default st))"

lemma run_settings_fresh:
  "memo_fresh decode st \<Longrightarrow> run_settings decode encode ops st = run_column decode encode ops (model_policy_default st)"
proof (induction decode encode ops st rule: run_settings.induct)
  case (2 decode encode ops st)
  obtain v st' where get: "get_model_policy_default decode st = (v, st')" by fastforce
  then have "v = read_raw decode (model_policy_default st)" "memo_fresh decode st'"
    "model_policy_default st' = model_policy_default st"
    using "2.prems" by (auto simp: get_model_policy_default_def memo_fresh_def Let_def split: option.splits)
  then show ?case using "2.IH" [OF get [symmetric]] get by simp
next
  case (3 decode encode p ops st)
  obtain ok st' where set: "set_model_policy_default encode p st = (ok, st')" by fastforce
  then have "memo_fresh decode st'"
    using "3.prems" by (auto simp: set_model_policy_default_def memo_fresh_def split: option.splits if_splits)
  then show ?case using "3.IH" [OF set [symmetric]] set
    by (auto simp: set_model_policy_default_def split: option.splits if_splits)
qed simp

text \<open>
  The memo cannot be seen: from a start without one, every sequence of reads and writes is
  answered as if each read went to the column.
\<close>

theorem memo_is_transparent:
  "run_settings decode encode ops \<lparr>model_policy_default = raw, memo = None\<rparr> = run_column decode encode ops raw"
  by (subst run_settings_fresh) (simp_all add: memo_fresh_def)

text \<open>
  A policy that was accepted is read back as it was written, if its JSON text is decoded to
  it; a policy that was refused leaves the next read as it was.
\<close>

theorem settings_round_trip:
  assumes "decode (encode p) = Some p" and "set_model_policy_default encode (Some p) st = (ok, st')"
  shows "fst (get_model_policy_default decode st') =
    (if ok then Some p else fst (get_model_policy_default decode st))"
  using assms by (auto simp: set_model_policy_default_def get_model_policy_default_def read_raw_def Let_def
      split: if_splits)

text \<open>Calls of the catalog as steps: each starts, and one that finds no fresh answer finishes later.\<close>

record catalog_state =
  cache :: catalog_cache
  clock :: int
  fetched :: "(int \<times> catalog) list"
  answered :: "(int \<times> catalog) list"

inductive catalog_step :: "int \<Rightarrow> catalog_state \<Rightarrow> catalog_state \<Rightarrow> bool" for ttlMs where
  Tick: "clock st \<le> t \<Longrightarrow> catalog_step ttlMs st (st\<lparr>clock := t\<rparr>)"
| Hit: "list_start ttlMs (clock st) (cache st) = Some v \<Longrightarrow>
     catalog_step ttlMs st (st\<lparr>answered := (clock st, v) # answered st\<rparr>)"
| Fetched: "v = fetch_live key answer \<Longrightarrow> catalog_step ttlMs st
     (st\<lparr>cache := list_finish (clock st) v, fetched := (clock st, v) # fetched st,
         answered := (clock st, v) # answered st\<rparr>)"
| Refresh: "catalog_step ttlMs st (st\<lparr>cache := refresh_start (cache st)\<rparr>)"

definition catalog_inv :: "int \<Rightarrow> catalog_state \<Rightarrow> bool" where
  "catalog_inv ttlMs st \<longleftrightarrow>
     (\<forall>c. cache st = Some c \<longrightarrow> c \<in> set (fetched st)) \<and>
     (\<forall>(t, v) \<in> set (answered st). \<exists>s. (s, v) \<in> set (fetched st) \<and> t - s < ttlMs \<and> s \<le> t) \<and>
     (\<forall>(s, v) \<in> set (fetched st). s \<le> clock st)"

lemma catalog_step_inv: "catalog_step ttlMs st st' \<Longrightarrow> 0 < ttlMs \<Longrightarrow> catalog_inv ttlMs st \<Longrightarrow> catalog_inv ttlMs st'"
  by (induction rule: catalog_step.induct)
    (fastforce simp: catalog_inv_def list_start_def list_finish_def refresh_start_def
       split: option.splits if_splits)+

definition new_catalog :: catalog_state where
  "new_catalog = \<lparr>cache = None, clock = 0, fetched = [], answered = []\<rparr>"

text \<open>
  Every answer of the catalog came back from a fetch, live or fallback, within the
  time to live before it.
\<close>

theorem catalog_answers_are_fresh:
  assumes "(catalog_step ttlMs)\<^sup>*\<^sup>* new_catalog st" and "0 < ttlMs" and "(t, v) \<in> set (answered st)"
  shows "\<exists>s. (s, v) \<in> set (fetched st) \<and> s \<le> t \<and> t - s < ttlMs"
proof -
  have "catalog_inv ttlMs st"
    using assms(1)
    by (induction rule: rtranclp_induct)
      (auto simp: catalog_step_inv [OF _ assms(2)], simp add: catalog_inv_def new_catalog_def)
  then show ?thesis using assms(3) by (fastforce simp: catalog_inv_def)
qed


section \<open>Samples\<close>

definition sample_role :: role_policy where
  "sample_role = \<lparr>by_category = None, rp_constant = None, rp_default = Some ''auto''\<rparr>"

definition sample_policy :: model_policy where
  "sample_policy = \<lparr>mp_execution = Some sample_role, mp_validation = None, mp_planning = None\<rparr>"

theorem settings_round_trip_witness:
  "set_model_policy_default (\<lambda>_. ''x'') (Some sample_policy) \<lparr>model_policy_default = None, memo = Some None\<rparr> =
     (True, \<lparr>model_policy_default = Some ''x'', memo = None\<rparr>) \<and>
   fst (get_model_policy_default (\<lambda>_. Some sample_policy) \<lparr>model_policy_default = Some ''x'', memo = None\<rparr>) =
     Some sample_policy"
proof -
  have set: "set_model_policy_default (\<lambda>_. ''x'') (Some sample_policy) \<lparr>model_policy_default = None, memo = Some None\<rparr> =
     (True, \<lparr>model_policy_default = Some ''x'', memo = None\<rparr>)"
    by (simp add: set_model_policy_default_def valid_policy_def valid_role_def valid_ref_def all_opt_def
        sample_policy_def sample_role_def)
  then show ?thesis
    using settings_round_trip [of "\<lambda>_. Some sample_policy" "\<lambda>_. ''x''" sample_policy, OF refl set] by simp
qed

definition sample_catalog_run :: catalog_state where
  "sample_catalog_run = new_catalog\<lparr>cache := Some (0, fallback), clock := 5, fetched := [(0, fallback)],
     answered := [(5, fallback), (0, fallback)]\<rparr>"

lemma sample_catalog_run_reached: "(catalog_step 10)\<^sup>*\<^sup>* new_catalog sample_catalog_run"
proof -
  let ?a = "new_catalog\<lparr>cache := Some (0, fallback), fetched := [(0, fallback)], answered := [(0, fallback)]\<rparr>"
  have "catalog_step 10 new_catalog ?a"
    using catalog_step.Fetched [of fallback None Api_threw 10 new_catalog]
    by (simp add: fetch_live_def list_finish_def new_catalog_def)
  moreover have "catalog_step 10 ?a (?a\<lparr>clock := 5\<rparr>)"
    by (rule catalog_step.Tick) (simp add: new_catalog_def)
  moreover have "catalog_step 10 (?a\<lparr>clock := 5\<rparr>) sample_catalog_run"
    using catalog_step.Hit [of 10 "?a\<lparr>clock := 5\<rparr>" fallback]
    by (simp add: list_start_def new_catalog_def sample_catalog_run_def)
  ultimately show ?thesis by (meson converse_rtranclp_into_rtranclp rtranclp.rtrancl_refl)
qed

theorem catalog_answers_are_fresh_witness:
  "(catalog_step 10)\<^sup>*\<^sup>* new_catalog sample_catalog_run \<and> (5, fallback) \<in> set (answered sample_catalog_run) \<and>
   (\<exists>s. (s, fallback) \<in> set (fetched sample_catalog_run) \<and> s \<le> 5 \<and> 5 - s < 10)"
  using catalog_answers_are_fresh [OF sample_catalog_run_reached, of 5 fallback] sample_catalog_run_reached
  by (simp add: sample_catalog_run_def)

text \<open>The family of an id with an empty second segment is the empty text.\<close>

lemma empty_families_exist: "family_of ''a--b'' = ''''"
  by code_simp

lemma fallback_families: "list_all (\<lambda>m. ce_family m = family_of (ce_id m)) STATIC_FALLBACK_MODELS"
  by code_simp

end
