(* ===== verification/Project_Service.thy ===== *)
theory Project_Service
  imports Model_Policy Wsjf_Score
begin

text \<open>
  Projects: \<open>src/repositories/project.repository.ts\<close>, the append-only table of
  \<open>src/repositories/project-charter-history.repository.ts\<close>, the schemas
  \<open>src/schemas/project.schema.ts\<close> and \<open>src/schemas/scm-charter.schema.ts\<close>, and the service
  \<open>src/services/project.service.ts\<close>.  The three JSON columns hold texts of the type \<open>'j\<close>; a codec
  says how values are written to and read from them.  A project's tasks are the tables of
  Task_Store, from which deleting a project removes them.
\<close>

section \<open>Charters\<close>

record full_charter = charter +
  out_of_scope :: "string list"
  interview_version :: int
  charter_updated_at :: string

datatype scm_backend = Scm_git | Scm_perforce | Scm_none | Scm_auto

datatype scm_behavior = Commit | Isolate | Publish | Open_review | Branch_per_run

record scm_charter =
  sc_backend :: "scm_backend option"
  sc_behaviors :: "(scm_behavior \<Rightarrow> bool option) option"

definition valid_scm :: "scm_charter \<Rightarrow> bool" where
  "valid_scm s \<longleftrightarrow> all_opt (\<lambda>b. b Branch_per_run \<noteq> Some True) (sc_behaviors s)"

definition str_within :: "nat \<Rightarrow> nat \<Rightarrow> string \<Rightarrow> bool" where
  "str_within low high s \<longleftrightarrow> low \<le> length s \<and> length s \<le> high"

definition valid_theme :: "theme \<Rightarrow> bool" where
  "valid_theme t \<longleftrightarrow> str_within 1 200 (th_name t) \<and> str_within 0 2000 (th_description t)"

definition valid_charter :: "full_charter \<Rightarrow> bool" where
  "valid_charter c \<longleftrightarrow>
     str_within 1 5000 (mission c) \<and> length (value_themes c) \<le> 20 \<and> list_all valid_theme (value_themes c) \<and>
     str_within 0 5000 (time_context c) \<and> str_within 0 5000 (risk_posture c) \<and>
     length (out_of_scope c) \<le> 50 \<and> list_all (str_within 0 500) (out_of_scope c) \<and>
     0 \<le> interview_version c \<and> charter_updated_at c \<noteq> ''''"

section \<open>Rows\<close>

record 'j project =
  p_id :: id
  p_name :: string
  p_description :: "string option"
  p_value_charter :: "'j option"
  p_model_policy :: "'j option"
  p_scm :: "'j option"
  p_created_at :: stamp
  p_updated_at :: stamp

record 'j codec =
  charter_text_of :: "full_charter \<Rightarrow> 'j"
  read_charter :: "'j \<Rightarrow> full_charter option"
  policy_text_of :: "model_policy \<Rightarrow> 'j"
  read_policy :: "'j \<Rightarrow> model_policy option"
  scm_text_of :: "scm_charter \<Rightarrow> 'j"
  read_scm :: "'j \<Rightarrow> scm_charter option"

record project_view =
  v_id :: id
  v_name :: string
  v_description :: "string option"
  v_charter :: "full_charter option"
  v_policy :: "model_policy option"
  v_scm :: "scm_charter option"
  v_created_at :: stamp
  v_updated_at :: stamp

record 'j charter_row =
  ch_id :: id
  ch_project :: id
  ch_version :: int
  ch_charter :: 'j
  ch_change_kind :: "string option"
  ch_actor_type :: "string option"
  ch_actor_id :: "string option"
  ch_changed_at :: stamp

record 'j project_db =
  pj_rows :: "'j project list"
  pj_next :: id
  pj_history :: "'j charter_row list"
  pj_next_history :: id
  pj_base :: db

text \<open>The charter column is trusted, the two others are validated on reading too.\<close>

definition inflate_value_charter :: "'j codec \<Rightarrow> 'j project \<Rightarrow> project_view" where
  "inflate_value_charter C r =
     \<lparr>v_id = p_id r, v_name = p_name r, v_description = p_description r,
      v_charter = Option.bind (p_value_charter r) (read_charter C),
      v_policy = Option.bind (p_model_policy r) (\<lambda>j. Option.bind (read_policy C j)
        (\<lambda>p. if valid_policy p then Some p else None)),
      v_scm = Option.bind (p_scm r) (\<lambda>j. Option.bind (read_scm C j) (\<lambda>s. if valid_scm s then Some s else None)),
      v_created_at = p_created_at r, v_updated_at = p_updated_at r\<rparr>"

definition base_rows :: "'j project list \<Rightarrow> project_row list" where
  "base_rows rs = map (\<lambda>r. \<lparr>pr_id = p_id r, pr_name = p_name r\<rparr>) rs"

definition put_rows :: "'j project list \<Rightarrow> 'j project_db \<Rightarrow> 'j project_db" where
  "put_rows rs st = st\<lparr>pj_rows := rs, pj_base := (pj_base st)\<lparr>projects := base_rows rs\<rparr>\<rparr>"

definition project_row_at :: "id \<Rightarrow> 'j project_db \<Rightarrow> 'j project option" where
  "project_row_at i st = find (\<lambda>r. p_id r = i) (pj_rows st)"

definition find_project_by_id :: "'j codec \<Rightarrow> id \<Rightarrow> 'j project_db \<Rightarrow> project_view option" where
  "find_project_by_id C i st = map_option (inflate_value_charter C) (project_row_at i st)"

definition find_project_by_name :: "'j codec \<Rightarrow> string \<Rightarrow> 'j project_db \<Rightarrow> project_view option" where
  "find_project_by_name C n st = map_option (inflate_value_charter C) (find (\<lambda>r. p_name r = n) (pj_rows st))"

definition find_all_projects :: "'j codec \<Rightarrow> int option \<Rightarrow> int option \<Rightarrow> 'j project_db \<Rightarrow> project_view list" where
  "find_all_projects C rawLimit rawOffset st =
     map (inflate_value_charter C) (page (resolve_pagination rawLimit rawOffset) (sort_key p_name (pj_rows st)))"

definition count_projects :: "'j project_db \<Rightarrow> int" where
  "count_projects st = int (length (pj_rows st))"

record project_dto =
  pd_name :: string
  pd_description :: "string patch"
  pd_charter :: "full_charter patch"
  pd_policy :: "model_policy patch"
  pd_scm :: "scm_charter patch"

record project_patch =
  pu_name :: "string option"
  pu_description :: "string patch"
  pu_charter :: "full_charter patch"
  pu_policy :: "model_policy patch"
  pu_scm :: "scm_charter patch"

fun patch_all :: "('a \<Rightarrow> bool) \<Rightarrow> 'a patch \<Rightarrow> bool" where
  "patch_all P (Put x) = P x"
| "patch_all P Absent = True"
| "patch_all P Clear = True"

definition create_project_schema :: "project_dto \<Rightarrow> bool" where
  "create_project_schema d \<longleftrightarrow>
     str_within 1 100 (pd_name d) \<and> patch_all (str_within 0 1000) (pd_description d) \<and>
     patch_all valid_charter (pd_charter d) \<and> patch_all valid_policy (pd_policy d) \<and> patch_all valid_scm (pd_scm d)"

definition update_project_schema :: "project_patch \<Rightarrow> bool" where
  "update_project_schema u \<longleftrightarrow>
     all_opt (str_within 1 100) (pu_name u) \<and> patch_all (str_within 0 1000) (pu_description u) \<and>
     patch_all valid_charter (pu_charter u) \<and> patch_all valid_policy (pu_policy u) \<and> patch_all valid_scm (pu_scm u)"

fun column :: "('a \<Rightarrow> 'j) \<Rightarrow> 'a patch \<Rightarrow> 'j option \<Rightarrow> 'j option" where
  "column enc Absent old = old"
| "column enc Clear old = None"
| "column enc (Put x) old = Some (enc x)"

definition new_project :: "'j codec \<Rightarrow> stamp \<Rightarrow> id \<Rightarrow> project_dto \<Rightarrow> 'j project" where
  "new_project C now i d =
     \<lparr>p_id = i, p_name = pd_name d, p_description = column id (pd_description d) None,
      p_value_charter = column (charter_text_of C) (pd_charter d) None,
      p_model_policy = column (policy_text_of C) (pd_policy d) None,
      p_scm = column (scm_text_of C) (pd_scm d) None,
      p_created_at = sql_now now, p_updated_at = sql_now now\<rparr>"

definition repo_create_project ::
    "'j codec \<Rightarrow> stamp \<Rightarrow> project_dto \<Rightarrow> 'j project_db \<Rightarrow> db_error + project_view \<times> 'j project_db" where
  "repo_create_project C now d st =
     (if list_ex (\<lambda>r. p_name r = pd_name d) (pj_rows st) then Inl Unique_violation
      else
        let r = new_project C now (pj_next st) d
        in Inr (inflate_value_charter C r, (put_rows (pj_rows st @ [r]) st)\<lparr>pj_next := pj_next st + 1\<rparr>))"

definition patched_row :: "'j codec \<Rightarrow> stamp \<Rightarrow> project_patch \<Rightarrow> 'j project \<Rightarrow> 'j project" where
  "patched_row C now u r =
     r\<lparr>p_name := or_else (pu_name u) (p_name r),
       p_description := column id (pu_description u) (p_description r),
       p_value_charter := column (charter_text_of C) (pu_charter u) (p_value_charter r),
       p_model_policy := column (policy_text_of C) (pu_policy u) (p_model_policy r),
       p_scm := column (scm_text_of C) (pu_scm u) (p_scm r),
       p_updated_at := sql_now now\<rparr>"

definition repo_update_project ::
    "'j codec \<Rightarrow> stamp \<Rightarrow> id \<Rightarrow> project_patch \<Rightarrow> 'j project_db \<Rightarrow> db_error + project_view \<times> 'j project_db" where
  "repo_update_project C now i u st =
     (case project_row_at i st of
        None \<Rightarrow> Inl (Row_missing i)
      | Some r \<Rightarrow>
          if list_ex (\<lambda>r'. p_id r' \<noteq> i \<and> pu_name u = Some (p_name r')) (pj_rows st) then Inl Unique_violation
          else Inr (inflate_value_charter C (patched_row C now u r),
            put_rows (map (\<lambda>r. if p_id r = i then patched_row C now u r else r) (pj_rows st)) st))"

text \<open>ON DELETE CASCADE to the tasks, to what hangs on them, and to the charter history.\<close>

definition repo_delete_project :: "id \<Rightarrow> 'j project_db \<Rightarrow> 'j project_db" where
  "repo_delete_project i st =
     (let db = pj_base st;
          gone = cascade_ids (length (tasks db)) (tasks db)
            (map task_id (filter (\<lambda>t. project_id t = i) (tasks db)));
          db' = db\<lparr>tasks := filter (\<lambda>t. task_id t \<notin> set gone) (tasks db),
                   deps := filter (\<lambda>d. dep_task d \<notin> set gone \<and> dep_blocks d \<notin> set gone) (deps db),
                   history := filter (\<lambda>h. h_task_id h \<notin> set gone) (history db)\<rparr>
      in put_rows (filter (\<lambda>r. p_id r \<noteq> i) (pj_rows st))
           (st\<lparr>pj_base := db', pj_history := filter (\<lambda>h. ch_project h \<noteq> i) (pj_history st)\<rparr>))"

section \<open>The charter history\<close>

record project_actor =
  pa_type :: "string option"
  pa_id :: "string option"

definition append_charter ::
    "'j codec \<Rightarrow> stamp \<Rightarrow> id \<Rightarrow> int \<Rightarrow> full_charter \<Rightarrow> project_actor \<Rightarrow> 'j project_db \<Rightarrow> 'j project_db" where
  "append_charter C now i ver prior a st =
     st\<lparr>pj_history := pj_history st @
          [\<lparr>ch_id = pj_next_history st, ch_project = i, ch_version = ver, ch_charter = charter_text_of C prior,
            ch_change_kind = Some ''overwrite'', ch_actor_type = pa_type a, ch_actor_id = pa_id a,
            ch_changed_at = sql_now now\<rparr>],
        pj_next_history := pj_next_history st + 1\<rparr>"

definition find_charters :: "id \<Rightarrow> 'j project_db \<Rightarrow> 'j charter_row list" where
  "find_charters i st = sort_key ch_changed_at (sort_key ch_id (filter (\<lambda>h. ch_project h = i) (pj_history st)))"

section \<open>The service\<close>

datatype project_error = Project_invalid | Name_taken | Project_missing id | Project_db_failed db_error

datatype project_event = Project_created project_view | Project_updated project_view | Project_deleted project_view

record project_deps =
  has_charter_history :: bool
  has_db_handle :: bool

type_synonym ('j, 'a) project_call = "'j project_db \<Rightarrow> (project_error + 'a) \<times> 'j project_db \<times> project_event list"

definition create_project :: "'j codec \<Rightarrow> stamp \<Rightarrow> project_dto \<Rightarrow> ('j, project_view) project_call" where
  "create_project C now d st =
     (if \<not> create_project_schema d then (Inl Project_invalid, st, [])
      else if find_project_by_name C (pd_name d) st \<noteq> None then (Inl Name_taken, st, [])
      else case repo_create_project C now d st of
        Inl e \<Rightarrow> (Inl (Project_db_failed e), st, [])
      | Inr (v, st') \<Rightarrow> (Inr v, st', [Project_created v]))"

definition get_project :: "'j codec \<Rightarrow> id \<Rightarrow> ('j, project_view) project_call" where
  "get_project C i st =
     (case find_project_by_id C i st of None \<Rightarrow> (Inl (Project_missing i), st, []) | Some v \<Rightarrow> (Inr v, st, []))"

definition list_projects_paginated ::
    "'j codec \<Rightarrow> int option \<Rightarrow> int option \<Rightarrow> 'j project_db \<Rightarrow> project_view list \<times> int \<times> int \<times> int" where
  "list_projects_paginated C rawLimit rawOffset st =
     (let l = or_else rawLimit DEFAULT_PAGE_LIMIT; off = or_else rawOffset DEFAULT_PAGE_OFFSET
      in (find_all_projects C (Some l) (Some off) st, count_projects st, l, off))"

text \<open>The charter that an update replaces, if it replaces one.\<close>

definition overwritten :: "project_deps \<Rightarrow> project_patch \<Rightarrow> project_view \<Rightarrow> (full_charter \<times> full_charter) option" where
  "overwritten D u existing =
     (if \<not> has_charter_history D then None
      else case (pu_charter u, v_charter existing) of (Put new, Some prior) \<Rightarrow> Some (new, prior) | _ \<Rightarrow> None)"

definition do_update ::
    "'j codec \<Rightarrow> stamp \<Rightarrow> id \<Rightarrow> project_patch \<Rightarrow> project_actor \<Rightarrow> (full_charter \<times> full_charter) option
      \<Rightarrow> 'j project_db \<Rightarrow> (project_error + project_view) \<times> 'j project_db" where
  "do_update C now i u a replaced st =
     (let st1 = (case replaced of None \<Rightarrow> st
            | Some (new, prior) \<Rightarrow> append_charter C now i (interview_version new) prior a st)
      in case repo_update_project C now i u st1 of
           Inl e \<Rightarrow> (Inl (Project_db_failed e), st1)
         | Inr (v, st2) \<Rightarrow> (Inr v, st2))"

definition update_project ::
    "'j codec \<Rightarrow> project_deps \<Rightarrow> stamp \<Rightarrow> id \<Rightarrow> project_patch \<Rightarrow> project_actor \<Rightarrow> ('j, project_view) project_call" where
  "update_project C D now i u a st =
     (if \<not> update_project_schema u then (Inl Project_invalid, st, [])
      else case find_project_by_id C i st of
        None \<Rightarrow> (Inl (Project_missing i), st, [])
      | Some existing \<Rightarrow>
          if (case pu_name u of None \<Rightarrow> False
              | Some n \<Rightarrow> n \<noteq> '''' \<and> n \<noteq> v_name existing \<and> find_project_by_name C n st \<noteq> None)
          then (Inl Name_taken, st, [])
          else
            let replaced = overwritten D u existing;
                transact = replaced \<noteq> None \<and> has_db_handle D
            in case do_update C now i u a replaced st of
                 (Inl e, st') \<Rightarrow> (Inl e, if transact then st else st', [])
               | (Inr v, st') \<Rightarrow> (Inr v, st', [Project_updated v]))"

definition delete_project :: "'j codec \<Rightarrow> id \<Rightarrow> ('j, unit) project_call" where
  "delete_project C i st =
     (case find_project_by_id C i st of
        None \<Rightarrow> (Inl (Project_missing i), st, [])
      | Some existing \<Rightarrow> (Inr (), repo_delete_project i st, [Project_deleted existing]))"


section \<open>Failing calls\<close>

definition wired :: "project_deps \<Rightarrow> bool" where
  "wired D \<longleftrightarrow> has_charter_history D \<and> has_db_handle D"

lemma find_by_id_iff: "find_project_by_id C i st = None \<longleftrightarrow> project_row_at i st = None"
  by (simp add: find_project_by_id_def)

lemma row_at_append_charter [simp]: "project_row_at j (append_charter C now i ver prior a st) = project_row_at j st"
  by (simp add: append_charter_def project_row_at_def)

lemma do_update_cases:
  assumes "do_update C now i u a replaced st = (r, st')" and "project_row_at i st = Some row0"
  shows "case r of
     Inl e \<Rightarrow> e = Project_db_failed Unique_violation \<and> list_ex (\<lambda>r. p_id r \<noteq> i \<and> pu_name u = Some (p_name r)) (pj_rows st)
   | Inr v \<Rightarrow> v = inflate_value_charter C (patched_row C now u row0) \<and>
       st' = put_rows (map (\<lambda>r. if p_id r = i then patched_row C now u r else r) (pj_rows st))
         (case replaced of None \<Rightarrow> st | Some (new, prior) \<Rightarrow> append_charter C now i (interview_version new) prior a st)"
proof -
  have rows: "pj_rows (append_charter C now i ver prior a st) = pj_rows st" for ver prior
    by (simp add: append_charter_def)
  show ?thesis
    using assms by (cases replaced)
      (auto simp: do_update_def Let_def repo_update_project_def rows split: if_splits)
qed

text \<open>
  With the collaborators wired, an update that fails leaves the tables as they were and emits
  nothing: the two halves of a charter overwrite land together or not at all.
\<close>

lemma failed_update_changes_nothing:
  assumes "wired D" and "update_project C D now i u a st = (Inl e, st', evs)"
  shows "st' = st \<and> evs = []"
proof (cases "find_project_by_id C i st")
  case (Some existing)
  have plain: "do_update C now i u a None st = (Inl e', st1) \<Longrightarrow> st1 = st" for e' st1
    by (auto simp: do_update_def Let_def split: sum.splits)
  obtain r st1 where run: "do_update C now i u a (overwritten D u existing) st = (r, st1)" by fastforce
  show ?thesis
  proof (cases "overwritten D u existing")
    case None
    then show ?thesis using assms Some run plain
      by (cases r) (auto simp: update_project_def Let_def wired_def split: if_splits)
  next
    case overwrite: (Some pr)
    then show ?thesis using assms Some run
      by (cases r) (auto simp: update_project_def Let_def wired_def split: if_splits)
  qed
qed (use assms in \<open>auto simp: update_project_def split: if_splits\<close>)

section \<open>The history of a charter\<close>

definition charters_kept :: "'j codec \<Rightarrow> bool" where
  "charters_kept C \<longleftrightarrow> (\<forall>c. read_charter C (charter_text_of C c) = Some c)"

definition charter_line :: "'j codec \<Rightarrow> id \<Rightarrow> 'j project_db \<Rightarrow> full_charter option list" where
  "charter_line C i st =
     map (\<lambda>h. read_charter C (ch_charter h)) (filter (\<lambda>h. ch_project h = i) (pj_history st)) @
     (case Option.bind (find_project_by_id C i st) v_charter of None \<Rightarrow> [] | Some c \<Rightarrow> [Some c])"

type_synonym update_request = "stamp \<times> project_patch \<times> project_actor"

fun run_updates :: "'j codec \<Rightarrow> project_deps \<Rightarrow> id \<Rightarrow> update_request list \<Rightarrow> 'j project_db \<Rightarrow> full_charter list \<times> 'j project_db" where
  "run_updates C D i [] st = ([], st)"
| "run_updates C D i ((now, u, a) # us) st =
     (case update_project C D now i u a st of
        (r, st1, _) \<Rightarrow>
          (case run_updates C D i us st1 of
             (cs, st2) \<Rightarrow> ((case (r, pu_charter u) of (Inr _, Put c) \<Rightarrow> [c] | _ \<Rightarrow> []) @ cs, st2)))"

lemma row_at_put_rows:
  "project_row_at i st = Some r \<Longrightarrow> (\<And>r. p_id (f r) = p_id r) \<Longrightarrow>
     project_row_at i (put_rows (map (\<lambda>r. if p_id r = i then f r else r) (pj_rows st)) st') = Some (f r)"
proof -
  have "find (\<lambda>r. p_id r = i) rs = Some r \<Longrightarrow> (\<And>r. p_id (f r) = p_id r) \<Longrightarrow>
      find (\<lambda>r. p_id r = i) (map (\<lambda>r. if p_id r = i then f r else r) rs) = Some (f r)" for rs
    by (induction rs) auto
  then show "project_row_at i st = Some r \<Longrightarrow> (\<And>r. p_id (f r) = p_id r) \<Longrightarrow>
     project_row_at i (put_rows (map (\<lambda>r. if p_id r = i then f r else r) (pj_rows st)) st') = Some (f r)"
    by (simp add: project_row_at_def put_rows_def)
qed

lemma patched_row_id [simp]: "p_id (patched_row C now u r) = p_id r"
  by (simp add: patched_row_def)

lemma update_project_Inr:
  assumes "update_project C D now i u a st = (Inr v, st', evs)"
  obtains r where "project_row_at i st = Some r" "v = inflate_value_charter C (patched_row C now u r)"
    "st' = put_rows (map (\<lambda>r. if p_id r = i then patched_row C now u r else r) (pj_rows st))
       (case overwritten D u (inflate_value_charter C r) of None \<Rightarrow> st
        | Some (new, prior) \<Rightarrow> append_charter C now i (interview_version new) prior a st)"
    "update_project_schema u" "evs = [Project_updated v]"
proof -
  obtain r where r: "project_row_at i st = Some r"
    using assms by (auto simp: update_project_def find_project_by_id_def split: if_splits option.splits)
  then have run: "do_update C now i u a (overwritten D u (inflate_value_charter C r)) st = (Inr v, st')"
    "update_project_schema u" "evs = [Project_updated v]"
    using assms by (auto simp: update_project_def find_project_by_id_def Let_def split: if_splits prod.splits sum.splits)
  show thesis using that [OF r] do_update_cases [OF run(1) r] run(2,3) by simp
qed

lemma charter_line_update:
  assumes kept: "charters_kept C" and D: "wired D" and u: "pu_charter u \<noteq> Clear"
    and run: "update_project C D now i u a st = (r, st', evs)"
  shows "charter_line C i st' = charter_line C i st @
    (case (r, pu_charter u) of (Inr _, Put c) \<Rightarrow> [Some c] | _ \<Rightarrow> [])"
proof (cases r)
  case (Inl e)
  then have "st' = st" using failed_update_changes_nothing [OF D run [unfolded Inl]] by simp
  then show ?thesis using Inl by simp
next
  case (Inr v)
  obtain row0 where row: "project_row_at i st = Some row0"
    and st': "st' = put_rows (map (\<lambda>r. if p_id r = i then patched_row C now u r else r) (pj_rows st))
       (case overwritten D u (inflate_value_charter C row0) of None \<Rightarrow> st
        | Some (new, prior) \<Rightarrow> append_charter C now i (interview_version new) prior a st)"
    using update_project_Inr [OF run [unfolded Inr]] that by blast
  have now_row: "find_project_by_id C i st' = Some (inflate_value_charter C (patched_row C now u row0))"
    by (simp add: find_project_by_id_def st' row_at_put_rows [OF row])
  have before: "find_project_by_id C i st = Some (inflate_value_charter C row0)"
    by (simp add: find_project_by_id_def row)
  define prior where "prior = v_charter (inflate_value_charter C row0)"
  have after: "v_charter (inflate_value_charter C (patched_row C now u row0)) =
      (case pu_charter u of Put c \<Rightarrow> Some c | _ \<Rightarrow> prior)"
    using u kept by (cases "pu_charter u")
      (simp_all add: prior_def inflate_value_charter_def patched_row_def charters_kept_def)
  have kept_rows: "map (\<lambda>h. read_charter C (ch_charter h)) (filter (\<lambda>h. ch_project h = i) (pj_history st')) =
      map (\<lambda>h. read_charter C (ch_charter h)) (filter (\<lambda>h. ch_project h = i) (pj_history st)) @
      (case (pu_charter u, prior) of (Put c, Some p) \<Rightarrow> [Some p] | _ \<Rightarrow> [])"
    using D kept unfolding st' put_rows_def overwritten_def prior_def [symmetric]
    by (cases "pu_charter u"; cases prior) (simp_all add: wired_def append_charter_def charters_kept_def)
  show ?thesis
    unfolding charter_line_def now_row before kept_rows
    using u by (cases "pu_charter u"; cases prior) (simp_all add: after prior_def [symmetric] Inr)
qed

text \<open>
  C12.  No charter is lost: as long as none is cleared, the snapshots of a project followed by
  its present charter are the ones there were, followed by every charter that was accepted
  since, in order.
\<close>

theorem no_charter_is_lost:
  assumes "charters_kept C" and "wired D" and "list_all (\<lambda>(_, u, _). pu_charter u \<noteq> Clear) us"
    and "run_updates C D i us st = (cs, st')"
  shows "charter_line C i st' = charter_line C i st @ map Some cs"
  using assms(3,4)
proof (induction us arbitrary: st cs)
  case (Cons req us)
  obtain now u a where req: "req = (now, u, a)" by (cases req)
  obtain r st1 evs where run: "update_project C D now i u a st = (r, st1, evs)" by (cases "update_project C D now i u a st")
  obtain cs2 where rest: "run_updates C D i us st1 = (cs2, st')"
    and cs: "cs = (case (r, pu_charter u) of (Inr _, Put c) \<Rightarrow> [c] | _ \<Rightarrow> []) @ cs2"
    using Cons.prems(2) run by (auto simp: req split: prod.splits)
  have "charter_line C i st' = charter_line C i st1 @ map Some cs2"
    using Cons.IH [OF _ rest] Cons.prems(1) by simp
  moreover have "charter_line C i st1 = charter_line C i st @
      (case (r, pu_charter u) of (Inr _, Put c) \<Rightarrow> [Some c] | _ \<Rightarrow> [])"
    using Cons.prems(1) req by (intro charter_line_update [OF assms(1,2) _ run]) simp
  ultimately show ?case by (simp add: cs split: sum.splits patch.splits)
qed simp


section \<open>Integrity\<close>

definition project_wf :: "'j project_db \<Rightarrow> bool" where
  "project_wf st \<longleftrightarrow>
     distinct (map p_id (pj_rows st)) \<and> distinct (map p_name (pj_rows st)) \<and>
     list_all (\<lambda>r. p_id r < pj_next st) (pj_rows st) \<and>
     projects (pj_base st) = base_rows (pj_rows st) \<and> db_wf (pj_base st) \<and>
     list_all (\<lambda>h. ch_project h \<in> p_id ` set (pj_rows st)) (pj_history st)"

lemma find_project_base: "projects db = base_rows rs \<Longrightarrow> find_project db i \<noteq> None \<longleftrightarrow> i \<in> p_id ` set rs"
  by (auto simp: find_project_def base_rows_def find_None_iff)

lemma db_wf_projects:
  "db_wf db \<Longrightarrow> (\<And>i. find_project db i \<noteq> None \<Longrightarrow> find_project (db\<lparr>projects := ps\<rparr>) i \<noteq> None) \<Longrightarrow>
     db_wf (db\<lparr>projects := ps\<rparr>)"
  by (auto simp: db_wf_def parent_known_def row_def edges_def)

lemma put_rows_wf:
  assumes "project_wf st" "distinct (map p_id rs)" "distinct (map p_name rs)"
    "p_id ` set (pj_rows st) \<subseteq> p_id ` set rs" "list_all (\<lambda>r. p_id r < n) rs"
    "pj_base st' = pj_base st" "list_all (\<lambda>h. ch_project h \<in> p_id ` set rs) (pj_history st')"
  shows "project_wf ((put_rows rs st')\<lparr>pj_next := n\<rparr>)"
proof -
  have "db_wf ((pj_base st)\<lparr>projects := base_rows rs\<rparr>)"
  proof (rule db_wf_projects)
    fix i
    assume "find_project (pj_base st) i \<noteq> None"
    then have "i \<in> p_id ` set rs"
      using assms(1,4) find_project_base [of "pj_base st" "pj_rows st" i] by (auto simp: project_wf_def)
    then show "find_project ((pj_base st)\<lparr>projects := base_rows rs\<rparr>) i \<noteq> None"
      using find_project_base [of "(pj_base st)\<lparr>projects := base_rows rs\<rparr>" rs i] by simp
  qed (use assms(1) in \<open>simp add: project_wf_def\<close>)
  then show ?thesis using assms by (simp add: project_wf_def put_rows_def)
qed

lemma create_wf:
  assumes "project_wf st" and "repo_create_project C now d st = Inr (v, st')"
  shows "project_wf st'"
proof -
  have fresh: "\<not> list_ex (\<lambda>r. p_name r = pd_name d) (pj_rows st)"
    using assms(2) by (auto simp: repo_create_project_def split: if_splits)
  define r where "r = new_project C now (pj_next st) d"
  have r: "p_id r = pj_next st" "p_name r = pd_name d"
    "st' = (put_rows (pj_rows st @ [r]) st)\<lparr>pj_next := pj_next st + 1\<rparr>"
    using assms(2) fresh by (simp_all add: r_def repo_create_project_def Let_def new_project_def)
  show ?thesis unfolding r(3)
    by (rule put_rows_wf [OF assms(1)])
      (use assms(1) fresh r(1,2) in \<open>auto simp: project_wf_def list_all_iff list_ex_iff\<close>)
qed

lemma patched_names:
  assumes "distinct (map p_id rs)" "distinct (map p_name rs)"
    and "\<not> list_ex (\<lambda>r. p_id r \<noteq> i \<and> pu_name u = Some (p_name r)) rs"
  shows "distinct (map p_name (map (\<lambda>r. if p_id r = i then patched_row C now u r else r) rs))"
proof -
  have name: "p_name (patched_row C now u r) = or_else (pu_name u) (p_name r)" for r
    by (simp add: patched_row_def)
  define g where "g r = (if p_id r = i then patched_row C now u r else r)" for r
  have "distinct (map p_name (map g rs))"
    using assms
  proof (induction rs)
    case (Cons r rs)
    have apart: "p_name (g r) \<noteq> p_name (g x)" if x: "x \<in> set rs" for x
    proof -
      have "p_id x \<noteq> p_id r" "p_name x \<noteq> p_name r" using Cons.prems x by (auto simp: image_iff)
      moreover have "p_id y \<noteq> i \<longrightarrow> pu_name u \<noteq> Some (p_name y)" if "y \<in> {x, r}" for y
        using Cons.prems(3) x that by (auto simp: list_ex_iff)
      ultimately show ?thesis by (cases "pu_name u") (auto simp: g_def name or_else_def)
    qed
    have "distinct (map p_name (map g rs))" using Cons by simp
    moreover have "p_name (g r) \<notin> set (map p_name (map g rs))" using apart by auto
    ultimately show ?case by simp
  qed simp
  then show ?thesis by (simp only: g_def [abs_def])
qed

lemma update_wf:
  assumes wf: "project_wf st" and run: "update_project C D now i u a st = (Inr v, st', evs)"
  shows "project_wf st'"
proof -
  obtain row0 where row: "project_row_at i st = Some row0"
    and st': "st' = put_rows (map (\<lambda>r. if p_id r = i then patched_row C now u r else r) (pj_rows st))
       (case overwritten D u (inflate_value_charter C row0) of None \<Rightarrow> st
        | Some (new, prior) \<Rightarrow> append_charter C now i (interview_version new) prior a st)"
    using update_project_Inr [OF run] that by blast
  let ?rs = "map (\<lambda>r. if p_id r = i then patched_row C now u r else r) (pj_rows st)"
  let ?st1 = "case overwritten D u (inflate_value_charter C row0) of None \<Rightarrow> st
        | Some (new, prior) \<Rightarrow> append_charter C now i (interview_version new) prior a st"
  have ids: "map p_id ?rs = map p_id (pj_rows st)" by simp
  then have id_set: "p_id ` set ?rs = p_id ` set (pj_rows st)" by (metis set_map)
  obtain r st1 where "do_update C now i u a (overwritten D u (inflate_value_charter C row0)) st = (r, st1)" by fastforce
  moreover from this run row have "r = Inr v"
    by (auto simp: update_project_def find_project_by_id_def Let_def split: if_splits sum.splits)
  ultimately have "repo_update_project C now i u ?st1 = Inr (v, st1)"
    by (auto simp: do_update_def Let_def split: sum.splits option.splits)
  moreover have rows1: "pj_rows ?st1 = pj_rows st" "pj_base ?st1 = pj_base st" "pj_next ?st1 = pj_next st"
    by (simp_all add: append_charter_def split: option.split)
  ultimately have free: "\<not> list_ex (\<lambda>r. p_id r \<noteq> i \<and> pu_name u = Some (p_name r)) (pj_rows st)"
    by (auto simp: repo_update_project_def split: option.splits if_splits)
  have "i \<in> p_id ` set (pj_rows st)"
    using row by (auto simp: project_row_at_def find_Some_iff image_iff)
  then have hist: "list_all (\<lambda>h. ch_project h \<in> p_id ` set (pj_rows st)) (pj_history ?st1)"
    using wf by (auto simp: project_wf_def append_charter_def split: option.split)
  have "project_wf ((put_rows ?rs ?st1)\<lparr>pj_next := pj_next st\<rparr>)"
  proof (rule put_rows_wf [OF wf])
    show "distinct (map p_id ?rs)" unfolding ids using wf by (simp add: project_wf_def)
    show "distinct (map p_name ?rs)" using wf by (intro patched_names free) (simp_all add: project_wf_def)
    show "list_all (\<lambda>r. p_id r < pj_next st) ?rs"
      using wf by (auto simp: project_wf_def list_all_iff)
    show "list_all (\<lambda>h. ch_project h \<in> p_id ` set ?rs) (pj_history ?st1)" unfolding id_set by (rule hist)
  qed (simp_all only: id_set rows1 order_refl)
  moreover have "(put_rows ?rs ?st1)\<lparr>pj_next := pj_next st\<rparr> = st'"
    unfolding st' by (rule project_db.equality) (simp_all add: put_rows_def rows1)
  ultimately show ?thesis by simp
qed

lemma delete_wf:
  assumes wf: "project_wf st"
  shows "project_wf (repo_delete_project i st)"
proof -
  let ?db = "pj_base st"
  let ?gone = "cascade_ids (length (tasks ?db)) (tasks ?db) (map task_id (filter (\<lambda>t. project_id t = i) (tasks ?db)))"
  let ?db' = "?db\<lparr>tasks := filter (\<lambda>t. task_id t \<notin> set ?gone) (tasks ?db),
      deps := filter (\<lambda>d. dep_task d \<notin> set ?gone \<and> dep_blocks d \<notin> set ?gone) (deps ?db),
      history := filter (\<lambda>h. h_task_id h \<notin> set ?gone) (history ?db)\<rparr>"
  let ?rs = "filter (\<lambda>r. p_id r \<noteq> i) (pj_rows st)"
  have "card (task_id ` set (tasks ?db) - set (map task_id (filter (\<lambda>t. project_id t = i) (tasks ?db)))) \<le> length (tasks ?db)"
    by (meson card_image_le card_length card_mono Diff_subset finite_imageI finite_set order_trans)
  then have closed: "child_closed (tasks ?db) ?gone" by (rule cascade_ids_closed)
  have start: "set (map task_id (filter (\<lambda>t. project_id t = i) (tasks ?db))) \<subseteq> set ?gone" by (rule cascade_ids_start)
  have base: "db_wf ?db" "projects ?db = base_rows (pj_rows st)" using wf by (simp_all add: project_wf_def)
  have kept: "project_id t \<in> p_id ` set ?rs" if "t \<in> set (tasks ?db)" "task_id t \<notin> set ?gone" for t
  proof -
    have "find_project ?db (project_id t) \<noteq> None" using base(1) that(1) by (simp add: db_wf_def)
    then have "project_id t \<in> p_id ` set (pj_rows st)" using find_project_base [OF base(2)] by simp
    moreover have "project_id t \<noteq> i" using start that by auto
    ultimately show ?thesis by auto
  qed
  have "parent_known ?db' t" if "t \<in> set (tasks ?db)" "task_id t \<notin> set ?gone" for t
    using base(1) that closed unfolding parent_known_def row_delete
    by (auto simp: db_wf_def parent_known_def child_closed_def)
  then have "db_wf ?db'"
    using base(1) unfolding db_wf_def row_delete
    by (auto simp: edges_def find_project_def intro: distinct_map_filter)
  moreover have "find_project (?db'\<lparr>projects := base_rows ?rs\<rparr>) (project_id t) \<noteq> None"
    if "t \<in> set (tasks ?db')" for t
    using that kept [of t] find_project_base [of "?db'\<lparr>projects := base_rows ?rs\<rparr>" ?rs "project_id t"] by simp
  ultimately have "db_wf (?db'\<lparr>projects := base_rows ?rs\<rparr>)"
    unfolding db_wf_def by (auto simp: parent_known_def row_def edges_def)
  then show ?thesis
    using wf unfolding repo_delete_project_def Let_def
    by (auto simp: project_wf_def put_rows_def list_all_iff intro: distinct_map_filter)
qed

inductive project_step :: "'j codec \<Rightarrow> project_deps \<Rightarrow> 'j project_db \<Rightarrow> 'j project_db \<Rightarrow> bool" for C D where
  Create: "create_project C now d st = (r, st', evs) \<Longrightarrow> project_step C D st st'"
| Update: "update_project C D now i u a st = (r, st', evs) \<Longrightarrow> project_step C D st st'"
| Delete: "delete_project C i st = (r, st', evs) \<Longrightarrow> project_step C D st st'"

lemma project_step_wf: "project_step C D st st' \<Longrightarrow> wired D \<Longrightarrow> project_wf st \<Longrightarrow> project_wf st'"
proof (induction rule: project_step.induct)
  case (Create now d st r st' evs)
  then show ?case
    by (auto simp: create_project_def split: if_splits sum.splits prod.splits dest: create_wf)
next
  case (Update now i u a st r st' evs)
  then show ?case
    by (cases r) (auto dest: update_wf failed_update_changes_nothing)
next
  case (Delete i st r st' evs)
  then show ?case by (auto simp: delete_project_def delete_wf split: option.splits)
qed

definition no_projects :: "'j project_db" where
  "no_projects = \<lparr>pj_rows = [], pj_next = 1, pj_history = [], pj_next_history = 1,
     pj_base = \<lparr>tasks = [], next_task_id = 1, projects = [], deps = [], next_dep_id = 1, history = []\<rparr>\<rparr>"

text \<open>
  Whatever projects are created, updated and deleted, names and ids stay unique and no
  task, dependency or charter snapshot is left behind by a project that is gone.
\<close>

theorem projects_keep_integrity:
  assumes "wired D" and "(project_step C D)\<^sup>*\<^sup>* st st'" and "project_wf st"
  shows "project_wf st'"
  using assms(2,3) by (induction rule: rtranclp_induct) (auto intro: project_step_wf [OF _ assms(1)])

section \<open>Samples\<close>

datatype sample_json = J_charter full_charter | J_policy model_policy | J_scm scm_charter

definition sample_codec :: "sample_json codec" where
  "sample_codec = \<lparr>charter_text_of = J_charter, read_charter = (\<lambda>j. case j of J_charter c \<Rightarrow> Some c | _ \<Rightarrow> None),
     policy_text_of = J_policy, read_policy = (\<lambda>j. case j of J_policy p \<Rightarrow> Some p | _ \<Rightarrow> None),
     scm_text_of = J_scm, read_scm = (\<lambda>j. case j of J_scm s \<Rightarrow> Some s | _ \<Rightarrow> None)\<rparr>"

definition sample_full_charter :: "int \<Rightarrow> full_charter" where
  "sample_full_charter n = \<lparr>mission = ''m'', time_context = '''', risk_posture = '''', value_themes = [],
     out_of_scope = [], interview_version = n, charter_updated_at = ''t''\<rparr>"

definition sample_dto :: project_dto where
  "sample_dto = \<lparr>pd_name = ''p'', pd_description = Absent, pd_charter = Put (sample_full_charter 1),
     pd_policy = Absent, pd_scm = Absent\<rparr>"

definition sample_patch :: "int \<Rightarrow> project_patch" where
  "sample_patch n = \<lparr>pu_name = None, pu_description = Absent, pu_charter = Put (sample_full_charter n),
     pu_policy = Absent, pu_scm = Absent\<rparr>"

definition both_deps :: project_deps where
  "both_deps = \<lparr>has_charter_history = True, has_db_handle = True\<rparr>"

definition nobody :: project_actor where
  "nobody = \<lparr>pa_type = None, pa_id = None\<rparr>"

definition one_project :: "sample_json project_db" where
  "one_project = fst (snd (create_project sample_codec 1000 sample_dto no_projects))"

definition sample_updates :: "update_request list" where
  "sample_updates = [(2000, sample_patch 2, nobody), (3000, sample_patch 3, nobody)]"

theorem no_charter_is_lost_witness:
  "charters_kept sample_codec \<and> wired both_deps \<and>
   list_all (\<lambda>(_, u, _). pu_charter u \<noteq> Clear) sample_updates \<and>
   fst (run_updates sample_codec both_deps 1 sample_updates one_project) = [sample_full_charter 2, sample_full_charter 3] \<and>
   charter_line sample_codec 1 (snd (run_updates sample_codec both_deps 1 sample_updates one_project)) =
     [Some (sample_full_charter 1), Some (sample_full_charter 2), Some (sample_full_charter 3)]"
proof -
  have ok: "charters_kept sample_codec" "wired both_deps" "list_all (\<lambda>(_, u, _). pu_charter u \<noteq> Clear) sample_updates"
    by (simp_all add: charters_kept_def sample_codec_def wired_def both_deps_def sample_updates_def sample_patch_def)
  have run: "fst (run_updates sample_codec both_deps 1 sample_updates one_project) = [sample_full_charter 2, sample_full_charter 3]"
    "charter_line sample_codec 1 one_project = [Some (sample_full_charter 1)]"
    by code_simp+
  show ?thesis
    using no_charter_is_lost [OF ok prod.collapse [symmetric], of 1 one_project] ok run by simp
qed

theorem projects_keep_integrity_witness:
  "wired both_deps \<and> (project_step sample_codec both_deps)\<^sup>*\<^sup>* no_projects one_project \<and>
   length (pj_rows one_project) = 1 \<and> project_wf one_project"
proof -
  have start: "project_wf (no_projects :: sample_json project_db)"
    by (simp add: project_wf_def no_projects_def base_rows_def db_wf_def edges_def)
  obtain r evs where "create_project sample_codec 1000 sample_dto no_projects = (r, one_project, evs)"
    by (metis one_project_def prod.collapse)
  then have step: "(project_step sample_codec both_deps)\<^sup>*\<^sup>* no_projects one_project"
    by (intro r_into_rtranclp project_step.Create)
  have "wired both_deps" by (simp add: wired_def both_deps_def)
  moreover have "length (pj_rows one_project) = 1" by code_simp
  ultimately show ?thesis using projects_keep_integrity [OF _ step start] step by blast
qed

end
