(* ===== verification/Scm_None.thy ===== *)
theory Scm_None
  imports Project_Service "HOL-Library.List_Lexorder" "HOL-Library.Char_ord"
begin

text \<open>
  Source control without a version control system: the central list of paths that are never
  staged (\<open>src/scm/exclusions.ts\<close>), the choice of a backend (\<open>src/scm/detect.ts\<close>) and the backend
  \<open>src/scm/none.ts\<close>, which compares the tree with a manifest of digests and skips hashing a
  file whose size and time of modification are those on record.  SHA-256, the JSON text of a
  manifest and the markers found on disk are arguments; a tree is what \<open>readdir\<close>, \<open>lstat\<close> and
  \<open>readlink\<close> say of it.
\<close>

section \<open>Paths that are never staged\<close>

definition slash :: char where "slash = CHR ''/''"

definition is_js_space :: "char \<Rightarrow> bool" where
  "is_js_space c \<longleftrightarrow> (of_char c :: nat) \<in> {9, 10, 11, 12, 13, 32, 160}"

definition js_trim :: "string \<Rightarrow> string" where
  "js_trim s = rev (dropWhile is_js_space (rev (dropWhile is_js_space s)))"

text \<open>\<open>posix.normalize\<close> of a relative path, segment by segment; the stack holds the last segment first.\<close>

fun normal_segments :: "string list \<Rightarrow> string list \<Rightarrow> string list" where
  "normal_segments acc [] = rev acc"
| "normal_segments acc (s # ss) =
     (if s = '''' \<or> s = ''.'' then normal_segments acc ss
      else if s = ''..'' then
        (if acc = [] \<or> hd acc = ''..'' then normal_segments (''..'' # acc) ss else normal_segments (tl acc) ss)
      else normal_segments (s # acc) ss)"

definition normalize_repo_relative :: "string \<Rightarrow> string" where
  "normalize_repo_relative p =
     (let forward = js_trim (map (\<lambda>c. if c = CHR 0x5C then slash else c) p);
          anchored = dropWhile (\<lambda>c. c = slash) forward
      in Prelude.join_with slash (normal_segments [] (split_on slash anchored)))"

definition path_basename :: "string \<Rightarrow> string" where
  "path_basename p = last (split_on slash p)"

datatype exclusion_rule = Adapter_state | Planning_artifacts | Gitignore | Dotenv | Data_db | Bin_dir

definition PLANNING_ARTIFACT_NAMES :: "string list" where
  "PLANNING_ARTIFACT_NAMES = [''LOOP-RUN.md'', ''AUDIT.md'', ''DECOMPOSITION.md'']"

fun exclusion_matches :: "exclusion_rule \<Rightarrow> string \<Rightarrow> bool" where
  "exclusion_matches Adapter_state p \<longleftrightarrow> p = ''.tasks/.scm'' \<or> starts_with ''.tasks/.scm/'' p"
| "exclusion_matches Planning_artifacts p \<longleftrightarrow> path_basename p \<in> set PLANNING_ARTIFACT_NAMES"
| "exclusion_matches Gitignore p \<longleftrightarrow> path_basename p = ''.gitignore''"
| "exclusion_matches Dotenv p \<longleftrightarrow> path_basename p = ''.env'' \<or> starts_with ''.env.'' (path_basename p)"
| "exclusion_matches Data_db p \<longleftrightarrow>
     (case split_on slash p of
        [d, f] \<Rightarrow> d = ''data'' \<and> length f > 3 \<and> drop (length f - 3) f = ''.db'' | _ \<Rightarrow> False)"
| "exclusion_matches Bin_dir p \<longleftrightarrow> p = ''bin'' \<or> starts_with ''bin/'' p"

definition EXCLUSION_RULES :: "exclusion_rule list" where
  "EXCLUSION_RULES = [Adapter_state, Planning_artifacts, Gitignore, Dotenv, Data_db, Bin_dir]"

definition is_excluded :: "string \<Rightarrow> bool" where
  "is_excluded p =
     (let normalized = normalize_repo_relative p
      in normalized \<noteq> '''' \<and> list_ex (\<lambda>r. exclusion_matches r normalized) EXCLUSION_RULES)"

definition matching_exclusion_rule :: "string \<Rightarrow> exclusion_rule option" where
  "matching_exclusion_rule p =
     (let normalized = normalize_repo_relative p
      in if normalized = '''' then None else find (\<lambda>r. exclusion_matches r normalized) EXCLUSION_RULES)"

definition filter_excluded :: "string list \<Rightarrow> string list \<times> string list" where
  "filter_excluded ps = (filter (\<lambda>p. \<not> is_excluded p) ps, filter is_excluded ps)"

datatype scm_error = Stage_excluded "string list" | Ambiguous_markers | Config_invalid | No_baseline | Unsupported_verb

definition enforce_stage_exclusions :: "string list \<Rightarrow> scm_error + string list" where
  "enforce_stage_exclusions ps =
     (case filter_excluded ps of (_, excluded) \<Rightarrow> if excluded \<noteq> [] then Inl (Stage_excluded excluded) else Inr ps)"

section \<open>The choice of a backend\<close>

datatype backend = Git | Perforce | No_vcs

fun concrete :: "scm_backend \<Rightarrow> backend option" where
  "concrete Scm_git = Some Git"
| "concrete Scm_perforce = Some Perforce"
| "concrete Scm_none = Some No_vcs"
| "concrete Scm_auto = None"

record markers =
  has_git :: bool
  has_p4config :: bool
  has_p4 :: bool
  p4config_env :: "string option"
  p4config_env_file :: bool

definition has_perforce_marker :: "markers \<Rightarrow> bool" where
  "has_perforce_marker m \<longleftrightarrow> has_p4config m \<or> has_p4 m \<or>
     (case p4config_env m of None \<Rightarrow> False | Some f \<Rightarrow> f \<noteq> '''' \<and> p4config_env_file m)"

definition detect_backend :: "markers \<Rightarrow> scm_error + backend" where
  "detect_backend m =
     (if has_git m \<and> has_perforce_marker m then Inl Ambiguous_markers
      else if has_git m then Inr Git
      else if has_perforce_marker m then Inr Perforce
      else Inr No_vcs)"

datatype backend_source = From_file | From_auto | From_charter

record resolved_backend =
  rb_backend :: backend
  rb_source :: backend_source
  rb_warned :: bool

record scm_config =
  cf_backend :: scm_backend
  cf_ignore :: "string list option"

text \<open>\<open>config\<close> is what reading \<open>.tasks/scm.json\<close> gives: an error, no file, or a file.\<close>

definition resolve_backend ::
    "scm_error + scm_config option \<Rightarrow> markers \<Rightarrow> scm_charter option \<Rightarrow> scm_error + resolved_backend" where
  "resolve_backend config m ch =
     (case config of
        Inl e \<Rightarrow> Inl e
      | Inr file \<Rightarrow>
          (case Option.bind file (\<lambda>f. concrete (cf_backend f)) of
             Some b \<Rightarrow> Inr \<lparr>rb_backend = b, rb_source = From_file, rb_warned = False\<rparr>
           | None \<Rightarrow>
               (case detect_backend m of
                  Inl e \<Rightarrow> Inl e
                | Inr detected \<Rightarrow>
                    let hint = Option.bind (Option.bind ch sc_backend) concrete in
                    if detected \<noteq> No_vcs then
                      Inr \<lparr>rb_backend = detected, rb_source = From_auto,
                           rb_warned = (case hint of None \<Rightarrow> False | Some b \<Rightarrow> b \<noteq> detected)\<rparr>
                    else case hint of
                      Some b \<Rightarrow> Inr \<lparr>rb_backend = b, rb_source = From_charter, rb_warned = False\<rparr>
                    | None \<Rightarrow> Inr \<lparr>rb_backend = No_vcs, rb_source = From_auto, rb_warned = False\<rparr>)))"

section \<open>Ignored paths\<close>

text \<open>A pattern's regular expression: \<open>*\<close> and \<open>?\<close> stand for characters other than a slash.\<close>

fun glob :: "string \<Rightarrow> string \<Rightarrow> bool" where
  "glob [] s \<longleftrightarrow> s = []"
| "glob (p # ps) [] \<longleftrightarrow> p = CHR ''*'' \<and> glob ps []"
| "glob (p # ps) (c # s) \<longleftrightarrow>
     (if p = CHR ''*'' then glob ps (c # s) \<or> (c \<noteq> slash \<and> glob (p # ps) s)
      else if p = CHR ''?'' then c \<noteq> slash \<and> glob ps s
      else p = c \<and> glob ps s)"

definition is_line_terminator :: "char \<Rightarrow> bool" where
  "is_line_terminator c \<longleftrightarrow> c = CHR 0x0A \<or> c = CHR 0x0D"

definition glob_or_below :: "string \<Rightarrow> string \<Rightarrow> bool" where
  "glob_or_below p s \<longleftrightarrow> list_ex (\<lambda>n. glob p (take n s) \<and>
     (case drop n s of [] \<Rightarrow> True | c # r \<Rightarrow> c = slash \<and> \<not> list_ex is_line_terminator r)) [0..<length s + 1]"

definition matches_ignore_glob :: "string \<Rightarrow> string \<Rightarrow> bool" where
  "matches_ignore_glob rel pattern =
     (let pat = js_trim pattern in
      if pat = '''' then False
      else
        let dirOnly = last pat = slash;
            pat = (if dirOnly then butlast pat else pat);
            anchored = slash \<in> set pat;
            pat = (if pat \<noteq> [] \<and> hd pat = slash then tl pat else pat)
        in if anchored then glob_or_below pat rel
           else let parts = split_on slash rel
                in list_ex (glob pat) (if dirOnly then butlast parts else parts))"

definition DEFAULT_IGNORE :: "string list" where
  "DEFAULT_IGNORE = [''node_modules/'', ''dist/'', ''.git/'', ''*.log'']"

definition is_ignored :: "string list \<Rightarrow> string \<Rightarrow> bool" where
  "is_ignored ign rel \<longleftrightarrow> rel = ''.git'' \<or> starts_with ''.git/'' rel \<or> list_ex (matches_ignore_glob rel) ign"

definition resolve_ignore :: "scm_config option \<Rightarrow> string list" where
  "resolve_ignore config = or_else (Option.bind config cf_ignore) DEFAULT_IGNORE"

section \<open>The manifest\<close>

text \<open>What a directory holds: files with time and bytes, links with time and target, directories, others.\<close>

datatype node = File int string | Link int string | Dir "(string \<times> node) list" | Special

record manifest_entry =
  me_path :: string
  me_size :: nat
  me_mtime :: int
  me_sha :: string

definition sub_path :: "string \<Rightarrow> string \<Rightarrow> string" where
  "sub_path dir name = (if dir = '''' then name else dir @ slash # name)"

definition skipped :: "string list \<Rightarrow> string \<Rightarrow> bool" where
  "skipped ign rel \<longleftrightarrow> rel = '''' \<or> is_excluded rel \<or> is_ignored ign rel"

text \<open>
  The entry of a file: the digest on record is used again when size and time agree and the
  time is before the cutoff.  The cutoff of a first walk is infinity, here \<open>None\<close>.
\<close>

definition file_entry ::
    "(string \<Rightarrow> string) \<Rightarrow> (string, manifest_entry) jsmap \<Rightarrow> int option \<Rightarrow> string \<Rightarrow> int \<Rightarrow> string \<Rightarrow> manifest_entry" where
  "file_entry sha prev cutoff rel mtime bytes =
     (let fresh = \<lparr>me_path = rel, me_size = length bytes, me_mtime = mtime, me_sha = sha bytes\<rparr>
      in case js_get prev rel of
           None \<Rightarrow> fresh
         | Some e \<Rightarrow>
             if me_size e = length bytes \<and> me_mtime e = mtime \<and> (case cutoff of None \<Rightarrow> True | Some c \<Rightarrow> mtime < c)
             then e else fresh)"

fun walk_dir ::
    "(string \<Rightarrow> string) \<Rightarrow> string list \<Rightarrow> (string, manifest_entry) jsmap \<Rightarrow> int option \<Rightarrow> string
      \<Rightarrow> (string \<times> node) list \<Rightarrow> manifest_entry list" where
  "walk_dir sha ign prev cutoff dir [] = []"
| "walk_dir sha ign prev cutoff dir ((name, nd) # rest) =
     (let rel = sub_path dir name in
      (if skipped ign rel then []
       else case nd of
         Link mtime target \<Rightarrow> [\<lparr>me_path = rel, me_size = length target, me_mtime = mtime, me_sha = sha target\<rparr>]
       | Dir inner \<Rightarrow> walk_dir sha ign prev cutoff rel inner
       | Special \<Rightarrow> []
       | File mtime bytes \<Rightarrow> [file_entry sha prev cutoff rel mtime bytes])
      @ walk_dir sha ign prev cutoff dir rest)"

definition build_entries ::
    "(string \<Rightarrow> string) \<Rightarrow> string list \<Rightarrow> (string, manifest_entry) jsmap \<Rightarrow> int option
      \<Rightarrow> (string \<times> node) list \<Rightarrow> manifest_entry list" where
  "build_entries sha ign prev cutoff tree = sort_key me_path (walk_dir sha ign prev cutoff '''' tree)"

datatype file_change = Added | Modified | Deleted

definition diff_entries :: "manifest_entry list \<Rightarrow> manifest_entry list \<Rightarrow> (string \<times> file_change) list" where
  "diff_entries previous current =
     (let prevByPath = foldl (\<lambda>m e. js_put (me_path e) e m) [] previous;
          currByPath = foldl (\<lambda>m e. js_put (me_path e) e m) [] current
      in concat (map (\<lambda>e. case js_get prevByPath (me_path e) of
              None \<Rightarrow> [(me_path e, Added)]
            | Some b \<Rightarrow> if me_sha b \<noteq> me_sha e then [(me_path e, Modified)] else []) current) @
         concat (map (\<lambda>e. if js_has currByPath (me_path e) then [] else [(me_path e, Deleted)]) previous))"

record manifest =
  mf_id :: string
  mf_captured_at :: int
  mf_entries :: "manifest_entry list"

definition manifest_id :: "(string \<Rightarrow> string) \<Rightarrow> ((string \<times> nat \<times> string) list \<Rightarrow> string) \<Rightarrow> manifest_entry list \<Rightarrow> string" where
  "manifest_id sha json es = ''none:'' @ sha (json (map (\<lambda>e. (me_path e, me_size e, me_sha e)) es))"

text \<open>
  \<open>baseline\<close>: the walk, and then the writing of the manifest, which is given the file system's
  time at that moment.  The manifests are kept by context.
\<close>

definition baseline_walk :: "(string \<Rightarrow> string) \<Rightarrow> string list \<Rightarrow> (string \<times> node) list \<Rightarrow> manifest_entry list" where
  "baseline_walk sha ign tree = build_entries sha ign [] None tree"

definition baseline_write ::
    "(string \<Rightarrow> string) \<Rightarrow> ((string \<times> nat \<times> string) list \<Rightarrow> string) \<Rightarrow> string \<Rightarrow> int \<Rightarrow> manifest_entry list
      \<Rightarrow> (string, manifest) jsmap \<Rightarrow> (string, manifest) jsmap" where
  "baseline_write sha json ctx now es ms =
     js_put ctx \<lparr>mf_id = manifest_id sha json es, mf_captured_at = now, mf_entries = es\<rparr> ms"

definition changes_since ::
    "(string \<Rightarrow> string) \<Rightarrow> string list \<Rightarrow> manifest \<Rightarrow> (string \<times> node) list \<Rightarrow> (string \<times> file_change) list" where
  "changes_since sha ign mf tree =
     diff_entries (mf_entries mf)
       (build_entries sha ign (foldl (\<lambda>m e. js_put (me_path e) e m) [] (mf_entries mf)) (Some (mf_captured_at mf)) tree)"

definition none_status ::
    "(string \<Rightarrow> string) \<Rightarrow> string list \<Rightarrow> string \<Rightarrow> (string, manifest) jsmap \<Rightarrow> (string \<times> node) list
      \<Rightarrow> scm_error + bool \<times> (string \<times> file_change) list" where
  "none_status sha ign ctx ms tree =
     (case js_get ms ctx of
        None \<Rightarrow> Inl No_baseline
      | Some mf \<Rightarrow>
          let entries = filter (\<lambda>c. \<not> is_excluded (fst c)) (changes_since sha ign mf tree)
          in Inr (entries \<noteq> [], entries))"

definition none_changed_files ::
    "(string \<Rightarrow> string) \<Rightarrow> string list \<Rightarrow> string \<Rightarrow> string \<Rightarrow> (string, manifest) jsmap \<Rightarrow> (string \<times> node) list
      \<Rightarrow> scm_error + string \<times> (string \<times> file_change) list" where
  "none_changed_files sha ign ctx base ms tree =
     (case js_get ms ctx of
        None \<Rightarrow> Inl No_baseline
      | Some mf \<Rightarrow>
          let changes = changes_since sha ign mf tree;
              kept = fst (filter_excluded (map fst changes))
          in Inr (base, filter (\<lambda>c. fst c \<in> set kept) changes))"

definition none_stage :: "string list \<Rightarrow> scm_error + string list" where
  "none_stage files = (case enforce_stage_exclusions files of Inl e \<Rightarrow> Inl e | Inr _ \<Rightarrow> Inr [])"

definition none_reset_hard :: "scm_error + unit" where
  "none_reset_hard = Inl Unsupported_verb"


section \<open>What a comparison should find\<close>

text \<open>The files and links of a tree that a manifest covers, with their paths.\<close>

fun visible :: "string list \<Rightarrow> string \<Rightarrow> (string \<times> node) list \<Rightarrow> (string \<times> node) list" where
  "visible ign dir [] = []"
| "visible ign dir ((name, nd) # rest) =
     (let rel = sub_path dir name in
      (if skipped ign rel then []
       else case nd of
         Link mtime target \<Rightarrow> [(rel, Link mtime target)]
       | Dir inner \<Rightarrow> visible ign rel inner
       | Special \<Rightarrow> []
       | File mtime bytes \<Rightarrow> [(rel, File mtime bytes)])
      @ visible ign dir rest)"

fun held :: "node \<Rightarrow> string" where
  "held (File t b) = b"
| "held (Link t s) = s"
| "held (Dir ns) = ''''"
| "held Special = ''''"

fun stamped :: "node \<Rightarrow> int" where
  "stamped (File t b) = t"
| "stamped (Link t s) = t"
| "stamped (Dir ns) = 0"
| "stamped Special = 0"

text \<open>What \<open>readdir\<close> says of a directory: a name is there once and holds no slash.\<close>

fun tidy :: "(string \<times> node) list \<Rightarrow> bool" where
  "tidy [] \<longleftrightarrow> True"
| "tidy ((name, nd) # rest) \<longleftrightarrow>
     name \<noteq> '''' \<and> slash \<notin> set name \<and> name \<notin> fst ` set rest \<and>
     (case nd of Dir inner \<Rightarrow> tidy inner | _ \<Rightarrow> True) \<and> tidy rest"

text \<open>
  No file with a time before \<open>now\<close> was rewritten with its size and its time kept.  A clock
  that ticks between the last write of a file and the walk gives this.
\<close>

definition settled :: "int \<Rightarrow> (string \<times> node) list \<Rightarrow> (string \<times> node) list \<Rightarrow> bool" where
  "settled now before after \<longleftrightarrow>
     list_all (\<lambda>(p, n). list_all (\<lambda>(q, m).
       p = q \<and> stamped n = stamped m \<and> length (held n) = length (held m) \<and> stamped m < now \<longrightarrow> held n = held m) after) before"

definition differences :: "(string \<times> node) list \<Rightarrow> (string \<times> node) list \<Rightarrow> (string \<times> file_change) set" where
  "differences before after = {(p, c).
     case (map_of before p, map_of after p) of
       (None, Some m) \<Rightarrow> c = Added
     | (Some n, Some m) \<Rightarrow> c = Modified \<and> held n \<noteq> held m
     | (Some n, None) \<Rightarrow> c = Deleted
     | (None, None) \<Rightarrow> False}"


section \<open>Paths of a tree\<close>

fun is_leaf :: "node \<Rightarrow> bool" where
  "is_leaf (File t b) \<longleftrightarrow> True"
| "is_leaf (Link t s) \<longleftrightarrow> True"
| "is_leaf (Dir ns) \<longleftrightarrow> False"
| "is_leaf Special \<longleftrightarrow> False"

definition path_prefix :: "string \<Rightarrow> string" where
  "path_prefix dir = (if dir = '''' then '''' else dir @ [slash])"

lemma sub_path_prefix: "sub_path dir name = path_prefix dir @ name"
  by (simp add: sub_path_def path_prefix_def)

definition below :: "string \<Rightarrow> string \<Rightarrow> bool" where
  "below dir p \<longleftrightarrow> p = dir \<or> (\<exists>r. p = dir @ slash # r)"

lemma visible_leaves: "x \<in> set (visible ign dir ns) \<Longrightarrow> is_leaf (snd x)"
  by (induction ign dir ns rule: visible.induct) (auto simp: Let_def split: node.splits if_splits)

lemma visible_not_skipped: "x \<in> set (visible ign dir ns) \<Longrightarrow> \<not> skipped ign (fst x)"
  by (induction ign dir ns rule: visible.induct) (auto simp: Let_def split: node.splits if_splits)

lemma below_sub: "name \<noteq> '''' \<Longrightarrow> below (sub_path (sub_path dir name) n) p \<Longrightarrow> below (sub_path dir name) p"
  by (auto simp: below_def sub_path_def split: if_splits)

lemma visible_below:
  "tidy ns \<Longrightarrow> x \<in> set (visible ign dir ns) \<Longrightarrow> \<exists>name \<in> fst ` set ns. below (sub_path dir name) (fst x)"
proof (induction ign dir ns rule: visible.induct)
  case (2 ign dir name nd rest)
  show ?case
  proof (cases "x \<in> set (visible ign dir rest)")
    case True
    with 2(2) 2(3) show ?thesis by auto
  next
    case False
    have "below (sub_path dir name) (fst x)"
    proof (cases nd)
      case (Dir inner)
      with 2(1) [OF refl _ Dir] 2(3,4) False below_sub show ?thesis
        by (fastforce simp: Let_def split: if_splits)
    qed (use 2(4) False in \<open>auto simp: Let_def below_def split: if_splits\<close>)
    then show ?thesis by simp
  qed
qed simp

lemma below_head: "slash \<notin> set name \<Longrightarrow> below (path_prefix dir @ name) p \<Longrightarrow>
    takeWhile (\<lambda>c. c \<noteq> slash) (drop (length (path_prefix dir)) p) = name"
proof -
  assume free: "slash \<notin> set name" and "below (path_prefix dir @ name) p"
  then consider "p = path_prefix dir @ name" | r where "p = path_prefix dir @ name @ slash # r"
    by (auto simp: below_def)
  moreover have "\<forall>c \<in> set name. c \<noteq> slash" using free by auto
  ultimately show ?thesis
    by cases (simp_all add: takeWhile_append2)
qed

lemma tidy_names: "tidy ns \<Longrightarrow> n \<in> fst ` set ns \<Longrightarrow> slash \<notin> set n"
  by (induction ns rule: tidy.induct) auto

lemma distinct_visible: "tidy ns \<Longrightarrow> distinct (map fst (visible ign dir ns))"
proof (induction ign dir ns rule: visible.induct)
  case (2 ign dir name nd rest)
  let ?rel = "sub_path dir name"
  let ?here = "if skipped ign ?rel then []
       else case nd of Link mtime target \<Rightarrow> [(?rel, Link mtime target)] | Dir inner \<Rightarrow> visible ign ?rel inner
         | Special \<Rightarrow> [] | File mtime bytes \<Rightarrow> [(?rel, File mtime bytes)]"
  have here: "distinct (map fst ?here)"
    using 2(1) [OF refl] 2(3) by (auto split: node.splits)
  have under: "below ?rel p" if "p \<in> fst ` set ?here" for p
  proof (cases nd)
    case (Dir inner)
    with that 2(3) visible_below [of inner _ ign ?rel] below_sub [of name dir] show ?thesis
      by (fastforce split: if_splits)
  qed (use that in \<open>auto simp: below_def split: if_splits\<close>)
  have "p \<notin> fst ` set ?here" if other: "p \<in> fst ` set (visible ign dir rest)" for p
  proof
    assume "p \<in> fst ` set ?here"
    then have "below (path_prefix dir @ name) p" using under by (simp only: sub_path_prefix)
    then have "takeWhile (\<lambda>c. c \<noteq> slash) (drop (length (path_prefix dir)) p) = name"
      using below_head 2(3) by simp
    moreover obtain n where n: "n \<in> fst ` set rest" "below (sub_path dir n) p"
    proof -
      obtain x where x: "x \<in> set (visible ign dir rest)" "p = fst x" using other by blast
      have "tidy rest" using 2(3) by simp
      from visible_below [OF this x(1)] that show ?thesis unfolding x(2) by blast
    qed
    moreover have "slash \<notin> set n" using tidy_names [OF _ n(1)] 2(3) by simp
    ultimately have "n = name" using below_head [of n dir p] by (simp add: sub_path_prefix)
    with n(1) 2(3) show False by simp
  qed
  moreover have "distinct (map fst (visible ign dir rest))" using 2(2) 2(3) by simp
  ultimately have "distinct (map fst (?here @ visible ign dir rest))"
    using here unfolding map_append distinct_append set_map by blast
  then show ?case by (simp only: visible.simps Let_def)
qed simp


section \<open>Entries and their maps\<close>

fun leaf_entry :: "(string \<Rightarrow> string) \<Rightarrow> (string, manifest_entry) jsmap \<Rightarrow> int option \<Rightarrow> string \<times> node \<Rightarrow> manifest_entry" where
  "leaf_entry sha prev cutoff (p, File t b) = file_entry sha prev cutoff p t b"
| "leaf_entry sha prev cutoff (p, nd) = \<lparr>me_path = p, me_size = length (held nd), me_mtime = stamped nd, me_sha = sha (held nd)\<rparr>"

definition fresh_entry :: "(string \<Rightarrow> string) \<Rightarrow> string \<times> node \<Rightarrow> manifest_entry" where
  "fresh_entry sha x =
     \<lparr>me_path = fst x, me_size = length (held (snd x)), me_mtime = stamped (snd x), me_sha = sha (held (snd x))\<rparr>"

lemma walk_dir_visible:
  "walk_dir sha ign prev cutoff dir ns = map (leaf_entry sha prev cutoff) (visible ign dir ns)"
  by (induction sha ign prev cutoff dir ns rule: walk_dir.induct) (auto simp: Let_def split: node.splits)

lemma first_walk_is_fresh: "leaf_entry sha [] cutoff x = fresh_entry sha x"
  by (cases "(sha, [] :: (string, manifest_entry) jsmap, cutoff, x)" rule: leaf_entry.cases)
    (auto simp: fresh_entry_def file_entry_def)

lemma js_get_foldl_put:
  "js_get (foldl (\<lambda>m e. js_put (f e) e m) m es) k =
     (case find (\<lambda>e. f e = k) (rev es) of Some e \<Rightarrow> Some e | None \<Rightarrow> js_get m k)"
proof (induction es rule: rev_induct)
  case (snoc e es)
  then show ?case by (auto split: option.splits)
qed simp

lemma find_unique:
  assumes "distinct (map f es)"
  shows "find (\<lambda>e. f e = k) (rev es) = Some e \<longleftrightarrow> e \<in> set es \<and> f e = k"
proof -
  have "find (\<lambda>e. f e = k) es' = Some e \<longleftrightarrow> e \<in> set es' \<and> f e = k" if "distinct (map f es')" for es'
    using that by (induction es') (auto simp: image_iff)
  from this [of "rev es"] assms show ?thesis by (simp add: rev_map [symmetric])
qed

lemma entry_map:
  assumes "distinct (map me_path es)"
  shows "js_get (foldl (\<lambda>m e. js_put (me_path e) e m) [] es) p = Some e \<longleftrightarrow> e \<in> set es \<and> me_path e = p"
  using find_unique [OF assms, of p e] by (auto simp: js_get_foldl_put split: option.splits)

lemma entry_map_none:
  assumes "distinct (map me_path es)"
  shows "js_get (foldl (\<lambda>m e. js_put (me_path e) e m) [] es) p = None \<longleftrightarrow> p \<notin> me_path ` set es"
proof -
  have "js_get (foldl (\<lambda>m e. js_put (me_path e) e m) [] es) p \<noteq> None \<longleftrightarrow> p \<in> me_path ` set es"
    using entry_map [OF assms, of p] by (metis (no_types, lifting) imageE image_eqI not_None_eq)
  then show ?thesis by blast
qed

text \<open>The entries of the walk before and of the walk after, without their order.\<close>

lemma before_entries:
  "set (baseline_walk sha ign tree) = fresh_entry sha ` set (visible ign '''' tree)"
  by (simp add: baseline_walk_def build_entries_def walk_dir_visible first_walk_is_fresh image_image)

lemma map_sort_distinct: "distinct (map f (sort_key g xs)) \<longleftrightarrow> distinct (map f xs)"
  by (simp add: distinct_map)

lemma distinct_before: "tidy tree \<Longrightarrow> distinct (map me_path (baseline_walk sha ign tree))"
  using distinct_visible [of tree ign "''''"]
  by (simp add: baseline_walk_def build_entries_def walk_dir_visible first_walk_is_fresh map_sort_distinct
      comp_def fresh_entry_def)

definition after_entries :: "(string \<Rightarrow> string) \<Rightarrow> string list \<Rightarrow> manifest_entry list \<Rightarrow> int \<Rightarrow> (string \<times> node) list \<Rightarrow> manifest_entry list" where
  "after_entries sha ign es now tree =
     build_entries sha ign (foldl (\<lambda>m e. js_put (me_path e) e m) [] es) (Some now) tree"

lemma settled_entry:
  assumes S: "settled now (visible ign '''' before) (visible ign '''' after)" and T: "tidy before"
    and x: "x \<in> set (visible ign '''' after)"
  shows "me_path (leaf_entry sha (foldl (\<lambda>m e. js_put (me_path e) e m) [] (baseline_walk sha ign before)) (Some now) x) = fst x \<and>
    me_sha (leaf_entry sha (foldl (\<lambda>m e. js_put (me_path e) e m) [] (baseline_walk sha ign before)) (Some now) x) = sha (held (snd x))"
proof (cases x)
  case (Pair p m)
  let ?prev = "foldl (\<lambda>m e. js_put (me_path e) e m) [] (baseline_walk sha ign before)"
  show ?thesis
  proof (cases m)
    case (File t b)
    show ?thesis
    proof (cases "js_get ?prev p")
      case None
      then show ?thesis by (simp add: Pair File file_entry_def)
    next
      case (Some e)
      then have e: "e \<in> set (baseline_walk sha ign before)" "me_path e = p"
        using entry_map [OF distinct_before [OF T]] by blast+
      then obtain n where n: "(p, n) \<in> set (visible ign '''' before)" "e = fresh_entry sha (p, n)"
        unfolding before_entries by (force simp: fresh_entry_def)
      have "held n = b" if "length (held n) = length b" "stamped n = t" "t < now"
        using S n(1) x that unfolding settled_def list_all_iff Pair File by fastforce
      with Some e(2) n(2) show ?thesis by (auto simp: Pair File file_entry_def fresh_entry_def)
    qed
  qed (auto simp: Pair)
qed


section \<open>The comparison is exact\<close>

lemma set_diff_entries:
  assumes P: "distinct (map me_path previous)" and C: "distinct (map me_path current)"
  shows "set (diff_entries previous current) =
    {(p, Added) | p. p \<in> me_path ` set current \<and> p \<notin> me_path ` set previous} \<union>
    {(p, Modified) | p. \<exists>b \<in> set previous. \<exists>e \<in> set current. me_path b = p \<and> me_path e = p \<and> me_sha b \<noteq> me_sha e} \<union>
    {(p, Deleted) | p. p \<in> me_path ` set previous \<and> p \<notin> me_path ` set current}" (is "_ = ?A \<union> ?M \<union> ?D")
proof -
  let ?prev = "foldl (\<lambda>m e. js_put (me_path e) e m) [] previous"
  let ?f = "\<lambda>e. case js_get ?prev (me_path e) of None \<Rightarrow> [(me_path e, Added)]
            | Some b \<Rightarrow> if me_sha b \<noteq> me_sha e then [(me_path e, Modified)] else []"
  have f: "x \<in> set (?f e) \<longleftrightarrow> x = (me_path e, Added) \<and> me_path e \<notin> me_path ` set previous \<or>
      x = (me_path e, Modified) \<and> (\<exists>b \<in> set previous. me_path b = me_path e \<and> me_sha b \<noteq> me_sha e)" for x e
  proof (cases "js_get ?prev (me_path e)")
    case None
    then have "me_path e \<notin> me_path ` set previous" using entry_map_none [OF P] by blast
    then show ?thesis using None by force
  next
    case (Some b)
    then have b: "b \<in> set previous" "me_path b = me_path e" using entry_map [OF P] by blast+
    have uniq: "b' = b" if "b' \<in> set previous" "me_path b' = me_path e" for b'
      using inj_onD [of me_path "set previous" b' b] that b P by (simp add: distinct_map)
    have "(\<exists>b' \<in> set previous. me_path b' = me_path e \<and> me_sha b' \<noteq> me_sha e) \<longleftrightarrow> me_sha b \<noteq> me_sha e"
    proof
      assume "\<exists>b' \<in> set previous. me_path b' = me_path e \<and> me_sha b' \<noteq> me_sha e"
      then obtain b' where "b' \<in> set previous" "me_path b' = me_path e" "me_sha b' \<noteq> me_sha e" by blast
      then show "me_sha b \<noteq> me_sha e" using uniq [of b'] by simp
    qed (use b in blast)
    moreover have "me_path e \<in> me_path ` set previous" unfolding b(2) [symmetric] using b(1) by (rule imageI)
    ultimately show ?thesis by (simp add: Some)
  qed
  have "set (concat (map ?f current)) = ?A \<union> ?M" (is "?L = ?R")
  proof (rule set_eqI)
    fix x
    have "x \<in> ?L \<longleftrightarrow> (\<exists>e \<in> set current. x \<in> set (?f e))" by simp
    also have "\<dots> \<longleftrightarrow> x \<in> ?R"
    proof (cases x)
      case (Pair p c)
      have "(\<exists>e \<in> set current. p = me_path e \<and> me_path e \<notin> me_path ` set previous) \<longleftrightarrow>
          p \<in> me_path ` set current \<and> p \<notin> me_path ` set previous" unfolding image_iff by metis
      moreover have "(\<exists>e \<in> set current. p = me_path e \<and> (\<exists>b \<in> set previous. me_path b = me_path e \<and> me_sha b \<noteq> me_sha e)) \<longleftrightarrow>
          (\<exists>b \<in> set previous. \<exists>e \<in> set current. me_path b = p \<and> me_path e = p \<and> me_sha b \<noteq> me_sha e)" by metis
      ultimately show ?thesis unfolding f Pair by (cases c) simp_all
    qed
    finally show "x \<in> ?L \<longleftrightarrow> x \<in> ?R" .
  qed
  moreover have "set (concat (map (\<lambda>e. if js_has (foldl (\<lambda>m e. js_put (me_path e) e m) [] current) (me_path e)
      then [] else [(me_path e, Deleted)]) previous)) = ?D"
    by (auto simp: js_has_def entry_map_none [OF C])
  ultimately show ?thesis by (simp add: diff_entries_def Let_def)
qed

lemma distinct_per_entry:
  assumes "distinct (map me_path es)" and h: "\<And>e. fst ` set (h e) \<subseteq> {me_path e} \<and> distinct (map fst (h e))"
  shows "fst ` set (concat (map h es)) \<subseteq> me_path ` set es \<and> distinct (map fst (concat (map h es)))"
  using assms(1)
proof (induction es)
  case (Cons e es)
  have rest: "fst ` set (concat (map h es)) \<subseteq> me_path ` set es" "distinct (map fst (concat (map h es)))"
    using Cons by simp_all
  have new: "me_path e \<notin> me_path ` set es" using Cons.prems by simp
  have head: "fst ` set (h e) \<subseteq> {me_path e}" "distinct (map fst (h e))" using h [of e] by simp_all
  have "x \<notin> fst ` set (concat (map h es))" if "x \<in> fst ` set (h e)" for x
    using subsetD [OF head(1) that] subsetD [OF rest(1), of x] new by (metis singletonD)
  then have "fst ` set (h e) \<inter> fst ` set (concat (map h es)) = {}" unfolding disjoint_iff by blast
  with rest(2) head(2) have "distinct (map fst (h e @ concat (map h es)))" by (simp del: set_concat)
  moreover have "fst ` set (h e @ concat (map h es)) \<subseteq> insert (me_path e) (me_path ` set es)"
    unfolding set_append image_Un using rest(1) head(1) by blast
  ultimately show ?case by simp
qed simp

lemma diff_entries_paths:
  assumes P: "distinct (map me_path previous)" and C: "distinct (map me_path current)"
  shows "distinct (map fst (diff_entries previous current))"
proof -
  let ?prev = "foldl (\<lambda>m e. js_put (me_path e) e m) [] previous"
  let ?curr = "foldl (\<lambda>m e. js_put (me_path e) e m) [] current"
  let ?f = "\<lambda>e. case js_get ?prev (me_path e) of None \<Rightarrow> [(me_path e, Added)]
            | Some b \<Rightarrow> if me_sha b \<noteq> me_sha e then [(me_path e, Modified)] else []"
  let ?g = "\<lambda>e. if js_has ?curr (me_path e) then [] else [(me_path e, Deleted)]"
  have f: "fst ` set (?f e) \<subseteq> {me_path e} \<and> distinct (map fst (?f e))" for e
    by (auto split: option.splits)
  have g: "fst ` set (concat (map ?g previous)) \<inter> me_path ` set current = {}"
    by (auto simp: js_has_def entry_map_none [OF C])
  have "distinct (map fst (concat (map ?f current) @ concat (map ?g previous)))"
  proof -
    have "fst ` set (concat (map ?f current)) \<subseteq> me_path ` set current \<and> distinct (map fst (concat (map ?f current)))"
      by (rule distinct_per_entry [OF C f])
    moreover have "distinct (map fst (concat (map ?g previous)))"
      using distinct_per_entry [OF P, of ?g] by simp
    ultimately show ?thesis using g unfolding map_append distinct_append set_map by blast
  qed
  then show ?thesis by (simp add: diff_entries_def Let_def)
qed

lemma mem_visible: "tidy tree \<Longrightarrow> (p, n) \<in> set (visible ign dir tree) \<longleftrightarrow> map_of (visible ign dir tree) p = Some n"
  using distinct_visible [of tree ign dir] by (metis map_of_SomeD map_of_is_SomeI)

text \<open>
  C27.  A status without version control is exact: if SHA-256 tells the contents in question
  apart and no file with a time before the manifest's was rewritten under the same size and time,
  it reports every file or link that was added, changed or removed since the baseline, once, and
  nothing else.
\<close>

theorem status_is_exact:
  assumes "tidy before" "tidy after"
    and "inj_on sha (held ` snd ` (set (visible ign '''' before) \<union> set (visible ign '''' after)))"
    and "settled now (visible ign '''' before) (visible ign '''' after)"
  shows "\<exists>found. none_status sha ign ctx (baseline_write sha json ctx now (baseline_walk sha ign before) ms) after =
             Inr (found \<noteq> [], found) \<and> distinct (map fst found) \<and>
           set found = differences (visible ign '''' before) (visible ign '''' after)"
proof -
  let ?B = "visible ign '''' before" and ?A = "visible ign '''' after"
  let ?es = "baseline_walk sha ign before"
  let ?cs = "after_entries sha ign ?es now after"
  let ?entry = "leaf_entry sha (foldl (\<lambda>m e. js_put (me_path e) e m) [] ?es) (Some now)"
  have entry: "me_path (?entry x) = fst x" "me_sha (?entry x) = sha (held (snd x))" if "x \<in> set ?A" for x
    using settled_entry [OF assms(4,1) that] by simp_all
  have cs: "set ?cs = ?entry ` set ?A" by (simp add: after_entries_def build_entries_def walk_dir_visible)
  have paths: "me_path ` set ?es = fst ` set ?B" "me_path ` set ?cs = fst ` set ?A"
    by (force simp: before_entries fresh_entry_def cs entry)+
  have "map me_path (map ?entry ?A) = map fst ?A" using entry(1) by simp
  then have C: "distinct (map me_path ?cs)"
    using distinct_visible [OF assms(2), of ign "''''"]
    by (simp add: after_entries_def build_entries_def walk_dir_visible map_sort_distinct del: map_map)
  note P = distinct_before [OF assms(1), of sha ign]
  let ?found = "diff_entries ?es ?cs"
  have "(p, c) \<in> set ?found \<longleftrightarrow> (p, c) \<in> differences ?B ?A" for p c
  proof -
    have inB: "p \<in> fst ` set ?B \<longleftrightarrow> map_of ?B p \<noteq> None" and inA: "p \<in> fst ` set ?A \<longleftrightarrow> map_of ?A p \<noteq> None"
      by (simp_all add: map_of_eq_None_iff)
    have modified: "(\<exists>b \<in> set ?es. \<exists>e \<in> set ?cs. me_path b = p \<and> me_path e = p \<and> me_sha b \<noteq> me_sha e) \<longleftrightarrow>
        (\<exists>n m. map_of ?B p = Some n \<and> map_of ?A p = Some m \<and> held n \<noteq> held m)" (is "?L \<longleftrightarrow> ?R")
    proof
      assume ?L
      then obtain x y where xy: "x \<in> set ?B" "y \<in> set ?A" "fst x = p" "me_path (?entry y) = p"
          "sha (held (snd x)) \<noteq> me_sha (?entry y)"
        unfolding before_entries cs by (auto simp: fresh_entry_def)
      have "fst y = p" using entry(1) [OF xy(2)] xy(4) by (rule trans [OF sym])
      then have "(p, snd x) \<in> set ?B" "(p, snd y) \<in> set ?A" using xy(1,2,3) by (cases x, simp, cases y, simp)
      moreover have "held (snd x) \<noteq> held (snd y)" using xy(5) entry(2) [OF xy(2)] by auto
      ultimately show ?R using mem_visible [OF assms(1)] mem_visible [OF assms(2)] by blast
    next
      assume ?R
      then obtain n m where nm: "(p, n) \<in> set ?B" "(p, m) \<in> set ?A" "held n \<noteq> held m"
        using mem_visible [OF assms(1)] mem_visible [OF assms(2)] by blast
      then have "sha (held n) \<noteq> sha (held m)" using inj_onD [OF assms(3), of "held n" "held m"] by force
      note differ = this
      have es_in: "fresh_entry sha (p, n) \<in> set ?es" unfolding before_entries using nm(1) by (rule imageI)
      have cs_in: "?entry (p, m) \<in> set ?cs" unfolding cs using nm(2) by (rule imageI)
      have "me_path (?entry (p, m)) = p" "me_sha (?entry (p, m)) = sha (held m)"
        using entry [OF nm(2)] by simp_all
      moreover have "me_path (fresh_entry sha (p, n)) = p" "me_sha (fresh_entry sha (p, n)) = sha (held n)"
        by (simp_all add: fresh_entry_def)
      ultimately have "me_path (fresh_entry sha (p, n)) = p \<and> me_path (?entry (p, m)) = p \<and>
          me_sha (fresh_entry sha (p, n)) \<noteq> me_sha (?entry (p, m))" using differ by simp
      with es_in cs_in show ?L by (intro bexI [OF _ es_in] bexI [OF _ cs_in])
    qed
    show ?thesis unfolding set_diff_entries [OF P C] paths using modified
      by (auto simp: differences_def inA inB split: option.splits)
  qed
  then have found: "set ?found = differences ?B ?A" by auto
  have kept: "\<not> is_excluded (fst x)" if "x \<in> set ?found" for x
  proof -
    have "fst x \<in> fst ` set ?B \<union> fst ` set ?A"
      using that unfolding found differences_def by (auto simp: map_of_eq_None_iff split: option.splits) force+
    then show ?thesis using visible_not_skipped [of _ ign] by (force simp: skipped_def)
  qed
  have "filter (\<lambda>c. \<not> is_excluded (fst c)) ?found = ?found" using kept by (simp add: filter_id_conv)
  then have "none_status sha ign ctx (baseline_write sha json ctx now ?es ms) after = Inr (?found \<noteq> [], ?found)"
    by (simp add: none_status_def baseline_write_def changes_since_def after_entries_def Let_def)
  with found diff_entries_paths [OF P C] show ?thesis by blast
qed


lemma status_is_exact_witness:
  "\<exists>found. none_status (\<lambda>s. s) DEFAULT_IGNORE ''run''
       (baseline_write (\<lambda>s. s) (\<lambda>es. ''json'') ''run'' 5
         (baseline_walk (\<lambda>s. s) DEFAULT_IGNORE [(''a'', File 3 ''x''), (''d'', Dir [(''b'', File 3 ''y'')])]) [])
       [(''a'', File 7 ''z''), (''c'', Link 7 ''a'')] = Inr (found \<noteq> [], found) \<and> distinct (map fst found) \<and>
     set found = differences [(''a'', File 3 ''x''), (''d/b'', File 3 ''y'')] [(''a'', File 7 ''z''), (''c'', Link 7 ''a'')]"
proof -
  have b: "visible DEFAULT_IGNORE '''' [(''a'', File 3 ''x''), (''d'', Dir [(''b'', File 3 ''y'')])] =
      [(''a'', File 3 ''x''), (''d/b'', File 3 ''y'')]" by code_simp
  have a: "visible DEFAULT_IGNORE '''' [(''a'', File 7 ''z''), (''c'', Link 7 ''a'')] =
      [(''a'', File 7 ''z''), (''c'', Link 7 ''a'')]" by code_simp
  show ?thesis
    by (rule status_is_exact [of "[(''a'', File 3 ''x''), (''d'', Dir [(''b'', File 3 ''y'')])]"
          "[(''a'', File 7 ''z''), (''c'', Link 7 ''a'')]" "\<lambda>s. s" DEFAULT_IGNORE 5, unfolded a b])
      (simp_all add: slash_def settled_def inj_on_def)
qed

text \<open>
  A file that is rewritten after the walk read it, in the same tick and at the same size, keeps its
  time.  When the manifest is written in a later tick, the time is before the cutoff and
  the digest on record is trusted: the rewrite is never seen.
\<close>

lemma a_rewrite_during_the_walk_is_missed:
  assumes "t < now" "length x = length y"
  shows "none_status sha DEFAULT_IGNORE ctx
     (baseline_write sha json ctx now (baseline_walk sha DEFAULT_IGNORE [(''a'', File t x)]) ms) [(''a'', File t y)] =
       Inr (False, [])"
proof -
  have "\<not> skipped DEFAULT_IGNORE ''a''" by code_simp
  with assms show ?thesis
    by (simp add: none_status_def baseline_write_def changes_since_def baseline_walk_def build_entries_def
        sub_path_def Let_def file_entry_def diff_entries_def js_has_def)
qed

section \<open>Staging and the choice of a backend\<close>

text \<open>A path is staged only if no rule of the central list matches its normal form, whatever its spelling.\<close>

theorem excluded_paths_are_refused:
  "enforce_stage_exclusions ps = (if \<exists>p \<in> set ps. \<exists>r. matching_exclusion_rule p = Some r
      then Inl (Stage_excluded (filter (\<lambda>p. matching_exclusion_rule p \<noteq> None) ps)) else Inr ps)"
proof -
  have iff: "is_excluded p \<longleftrightarrow> matching_exclusion_rule p \<noteq> None" for p
    by (simp add: is_excluded_def matching_exclusion_rule_def Let_def find_None_iff list_ex_iff Bex_def del: not_None_eq)
  have "is_excluded = (\<lambda>p. matching_exclusion_rule p \<noteq> None)" by (rule ext) (rule iff)
  then show ?thesis
    unfolding enforce_stage_exclusions_def filter_excluded_def by (simp add: filter_empty_conv iff)
qed

text \<open>
  The backend is the configuration's if it names one, else the marker's that is on disk,
  else the charter's, else none; two kinds of markers are an error only if the
  configuration is silent.
\<close>

theorem backend_precedence:
  "resolve_backend (Inr file) m ch =
     (case (Option.bind file (\<lambda>f. concrete (cf_backend f)), has_git m, has_perforce_marker m, Option.bind (Option.bind ch sc_backend) concrete) of
        (Some b, _) \<Rightarrow> Inr \<lparr>rb_backend = b, rb_source = From_file, rb_warned = False\<rparr>
      | (None, True, True, _) \<Rightarrow> Inl Ambiguous_markers
      | (None, True, False, hint) \<Rightarrow> Inr \<lparr>rb_backend = Git, rb_source = From_auto, rb_warned = hint \<notin> {None, Some Git}\<rparr>
      | (None, False, True, hint) \<Rightarrow> Inr \<lparr>rb_backend = Perforce, rb_source = From_auto, rb_warned = hint \<notin> {None, Some Perforce}\<rparr>
      | (None, False, False, Some b) \<Rightarrow> Inr \<lparr>rb_backend = b, rb_source = From_charter, rb_warned = False\<rparr>
      | (None, False, False, None) \<Rightarrow> Inr \<lparr>rb_backend = No_vcs, rb_source = From_auto, rb_warned = False\<rparr>)"
  by (auto simp: resolve_backend_def detect_backend_def Let_def split: option.splits)

end
