(* ===== verification/Wait_For_Unblock.thy ===== *)
theory Wait_For_Unblock
  imports Task_Service_Laws
begin

text \<open>
  Waiting for a task to be unblocked: \<open>src/events/subscribe-once.ts\<close>, a promise over one event of
  the bus with a deadline and an abort signal, and the tool of
  \<open>src/mcp/tools/wait-for-unblock-tools.ts\<close> that is built on it.  A promise is a settlement; what
  the runtime may do to it is deliver an event, run the timer or raise the signal, in any order.
  The process that serves the tool ends when a promise is rejected that nobody awaits
  (\<open>src/mcp/index.ts\<close>).
\<close>

section \<open>One event of the bus\<close>

datatype 'e settlement = Pending | Resolved 'e | Timed_out | Aborted | Predicate_threw

record 'e one_shot =
  settled_once :: bool
  outcome :: "'e settlement"
  listening :: bool
  deadline :: "int option"
  on_signal :: bool

text \<open>The signal is absent, attached, or raised already.\<close>

datatype abort_signal = No_signal | Signal | Raised_signal

definition subscribe_once :: "int \<Rightarrow> int \<Rightarrow> abort_signal \<Rightarrow> 'e one_shot" where
  "subscribe_once now timeoutMs sig =
     (if sig = Raised_signal then
        \<lparr>settled_once = True, outcome = Aborted, listening = False, deadline = None, on_signal = False\<rparr>
      else \<lparr>settled_once = False, outcome = Pending, listening = True, deadline = Some (now + timeoutMs),
             on_signal = (sig = Signal)\<rparr>)"

definition tear_down :: "'e one_shot \<Rightarrow> 'e one_shot" where
  "tear_down w =
     (if settled_once w then w else w\<lparr>settled_once := True, deadline := None, on_signal := False, listening := False\<rparr>)"

definition settle :: "'e settlement \<Rightarrow> 'e one_shot \<Rightarrow> 'e one_shot" where
  "settle s w = (if settled_once w then w else (tear_down w)\<lparr>outcome := s\<rparr>)"

definition on_abort :: "'e one_shot \<Rightarrow> 'e one_shot" where
  "on_abort w = settle Aborted w"

definition on_timer :: "'e one_shot \<Rightarrow> 'e one_shot" where
  "on_timer w = settle Timed_out w"

text \<open>The predicate answers or throws.\<close>

definition on_bus_event :: "('e \<Rightarrow> unit + bool) \<Rightarrow> 'e \<Rightarrow> 'e one_shot \<Rightarrow> 'e one_shot" where
  "on_bus_event matches e w =
     (if settled_once w then w
      else case matches e of
        Inl _ \<Rightarrow> settle Predicate_threw w
      | Inr False \<Rightarrow> w
      | Inr True \<Rightarrow> settle (Resolved e) w)"

text \<open>What the runtime may do: it only calls a listener, a timer or a signal that is there.\<close>

datatype 'e stimulus = Delivered 'e | Clock int | Abort_raised

fun react_once :: "('e \<Rightarrow> unit + bool) \<Rightarrow> 'e one_shot \<Rightarrow> 'e stimulus \<Rightarrow> 'e one_shot" where
  "react_once matches w (Delivered e) = (if listening w then on_bus_event matches e w else w)"
| "react_once matches w (Clock t) = (case deadline w of None \<Rightarrow> w | Some d \<Rightarrow> if d \<le> t then on_timer w else w)"
| "react_once matches w Abort_raised = (if on_signal w then on_abort w else w)"

text \<open>What settles a promise that waits: the first stimulus that matters.\<close>

fun settles :: "('e \<Rightarrow> unit + bool) \<Rightarrow> int \<Rightarrow> bool \<Rightarrow> 'e stimulus \<Rightarrow> 'e settlement option" where
  "settles matches d signalled (Delivered e) =
     (case matches e of Inl _ \<Rightarrow> Some Predicate_threw | Inr True \<Rightarrow> Some (Resolved e) | Inr False \<Rightarrow> None)"
| "settles matches d signalled (Clock t) = (if d \<le> t then Some Timed_out else None)"
| "settles matches d signalled Abort_raised = (if signalled then Some Aborted else None)"

definition first_settling :: "('e \<Rightarrow> unit + bool) \<Rightarrow> int \<Rightarrow> bool \<Rightarrow> 'e stimulus list \<Rightarrow> 'e settlement option" where
  "first_settling matches d signalled ss =
     (case List.map_filter (settles matches d signalled) ss of [] \<Rightarrow> None | s # _ \<Rightarrow> Some s)"

lemma react_settled: "settled_once w \<Longrightarrow> react_once matches w s = w"
  by (cases s) (simp_all add: on_bus_event_def on_timer_def on_abort_def settle_def split: option.split)

lemma run_settled: "settled_once w \<Longrightarrow> foldl (react_once matches) w ss = w"
  by (induction ss) (simp_all add: react_settled)

definition at_rest :: "'e settlement \<Rightarrow> 'e one_shot" where
  "at_rest s = \<lparr>settled_once = True, outcome = s, listening = False, deadline = None, on_signal = False\<rparr>"

definition waiting_for :: "int \<Rightarrow> bool \<Rightarrow> 'e one_shot" where
  "waiting_for d signalled =
     \<lparr>settled_once = False, outcome = Pending, listening = True, deadline = Some d, on_signal = signalled\<rparr>"

lemma settled_at_rest [simp]: "settled_once (at_rest s)" "\<not> settled_once (waiting_for d g)"
  by (simp_all add: at_rest_def waiting_for_def)

lemma settle_waiting [simp]: "settle s (waiting_for d g) = at_rest s"
  by (simp add: settle_def tear_down_def at_rest_def waiting_for_def)

lemma react_waiting:
  "react_once matches (waiting_for d g) s = (case settles matches d g s of None \<Rightarrow> waiting_for d g | Some o' \<Rightarrow> at_rest o')"
proof -
  have w: "listening (waiting_for d g)" "deadline (waiting_for d g) = Some d" "on_signal (waiting_for d g) = g"
    by (simp_all add: waiting_for_def)
  show ?thesis
    by (cases s) (simp_all add: w on_bus_event_def on_timer_def on_abort_def split: sum.split bool.split)
qed

lemma run_waiting:
  "foldl (react_once matches) (waiting_for d g) ss =
     (case first_settling matches d g ss of None \<Rightarrow> waiting_for d g | Some o' \<Rightarrow> at_rest o')"
proof (induction ss)
  case (Cons s ss)
  then show ?case
    by (cases "settles matches d g s")
      (simp_all add: react_waiting run_settled first_settling_def map_filter_simps)
qed (simp add: first_settling_def map_filter_simps)

text \<open>
  A promise over one event is settled by the first stimulus that matters, once: the first
  event that matches (or makes the predicate throw), the deadline, or the signal.  Settled, it has
  left nothing behind: no listener, no timer, no listener on the signal.
\<close>

theorem subscribe_once_settles_once:
  fixes ss :: "'e stimulus list"
  assumes "sig \<noteq> Raised_signal"
  shows "foldl (react_once matches) (subscribe_once now timeoutMs sig) ss =
     (case first_settling matches (now + timeoutMs) (sig = Signal) ss of
        None \<Rightarrow> subscribe_once now timeoutMs sig
      | Some s \<Rightarrow> \<lparr>settled_once = True, outcome = s, listening = False, deadline = None, on_signal = False\<rparr>)"
proof -
  have "(subscribe_once now timeoutMs sig :: 'e one_shot) = waiting_for (now + timeoutMs) (sig = Signal)"
    using assms by (simp add: subscribe_once_def waiting_for_def)
  then show ?thesis by (cases "first_settling matches (now + timeoutMs) (sig = Signal) ss") (simp_all add: run_waiting at_rest_def)
qed

lemma subscribe_once_settles_once_witness:
  "foldl (react_once (\<lambda>e. Inr (e = 3))) (subscribe_once 0 100 Signal) [Delivered 2, Clock 50, Delivered (3 :: nat), Clock 100, Abort_raised] =
     \<lparr>settled_once = True, outcome = Resolved 3, listening = False, deadline = None, on_signal = False\<rparr>"
  by (subst subscribe_once_settles_once) (simp_all add: first_settling_def map_filter_simps)

section \<open>The tool\<close>

definition DEFAULT_TIMEOUT_SECONDS :: int where "DEFAULT_TIMEOUT_SECONDS = 300"
definition MAX_TIMEOUT_SECONDS :: int where "MAX_TIMEOUT_SECONDS = 1800"

datatype wait_reply =
  Unblocked task_view int
| Already_unblocked task_view int
| Wait_timeout id int
| Wait_failed service_error
| Wait_rejected "event settlement"

text \<open>\<open>awaited\<close> says that a handler is attached to the promise, by \<open>await\<close> or by \<open>catch\<close>.\<close>

record wait_call =
  wc_task :: id
  wc_seconds :: int
  wc_once :: "event one_shot"
  wc_awaited :: bool
  wc_reply :: "wait_reply option"

text \<open>The listener is one for \<open>task.status_changed\<close>: it is not called for the other events.\<close>

definition becomes_open :: "id \<Rightarrow> event \<Rightarrow> unit + bool" where
  "becomes_open i e =
     Inr (case e of Status_changed t _ s s' \<Rightarrow> task_id t = i \<and> s = Blocked \<and> s' = Open | _ \<Rightarrow> False)"

definition applied_seconds :: "int option \<Rightarrow> int" where
  "applied_seconds requested = min (max 1 (case requested of None \<Rightarrow> DEFAULT_TIMEOUT_SECONDS | Some r \<Rightarrow> r)) MAX_TIMEOUT_SECONDS"

definition start_wait :: "stamp \<Rightarrow> db \<Rightarrow> id \<Rightarrow> int option \<Rightarrow> wait_call" where
  "start_wait now db i requested =
     (let applied = applied_seconds requested;
          w = subscribe_once now (applied * 1000) Signal
      in case get_task now i db of
           Inl e \<Rightarrow> \<lparr>wc_task = i, wc_seconds = applied, wc_once = w, wc_awaited = False, wc_reply = Some (Wait_failed e)\<rparr>
         | Inr current \<Rightarrow>
             if status (v_task current) \<noteq> Blocked then
               \<lparr>wc_task = i, wc_seconds = applied, wc_once = on_abort w, wc_awaited = True,
                wc_reply = Some (Already_unblocked current applied)\<rparr>
             else \<lparr>wc_task = i, wc_seconds = applied, wc_once = w, wc_awaited = True, wc_reply = None\<rparr>)"

text \<open>The continuation after \<open>await\<close>, with the clock and the database it finds when it runs.\<close>

definition resume_wait :: "stamp \<Rightarrow> db \<Rightarrow> wait_call \<Rightarrow> wait_call" where
  "resume_wait now db c =
     (if wc_reply c \<noteq> None \<or> \<not> wc_awaited c then c
      else case outcome (wc_once c) of
        Pending \<Rightarrow> c
      | Resolved _ \<Rightarrow>
          (case get_task now (wc_task c) db of
             Inl e \<Rightarrow> c\<lparr>wc_reply := Some (Wait_failed e)\<rparr>
           | Inr fresh \<Rightarrow> c\<lparr>wc_reply := Some (Unblocked fresh (wc_seconds c))\<rparr>)
      | Timed_out \<Rightarrow> c\<lparr>wc_reply := Some (Wait_timeout (wc_task c) (wc_seconds c))\<rparr>
      | other \<Rightarrow> c\<lparr>wc_reply := Some (Wait_rejected other)\<rparr>)"

datatype wait_input = Stimulus "event stimulus" | Continue stamp db

fun wait_step :: "wait_call \<Rightarrow> wait_input \<Rightarrow> wait_call" where
  "wait_step c (Stimulus s) = c\<lparr>wc_once := react_once (becomes_open (wc_task c)) (wc_once c) s\<rparr>"
| "wait_step c (Continue now db) = resume_wait now db c"

text \<open>\<open>process.on('unhandledRejection')\<close> of the server: it exits.\<close>

definition process_exits :: "wait_call \<Rightarrow> bool" where
  "process_exits c \<longleftrightarrow> \<not> wc_awaited c \<and> (case outcome (wc_once c) of Pending \<Rightarrow> False | Resolved _ \<Rightarrow> False | _ \<Rightarrow> True)"


section \<open>No transition is missed\<close>

definition wait_over :: "id \<Rightarrow> int \<Rightarrow> 'e one_shot \<Rightarrow> bool" where
  "wait_over i d w \<longleftrightarrow> w = waiting_for d True \<or> (\<exists>s. w = at_rest s)"

text \<open>A call on a blocked task waits with its promise open; every other call has its answer.\<close>

lemma start_blocked:
  assumes "get_task t0 i db0 = Inr v" "status (v_task v) = Blocked"
  shows "start_wait t0 db0 i req =
    \<lparr>wc_task = i, wc_seconds = applied_seconds req, wc_once = waiting_for (t0 + applied_seconds req * 1000) True,
     wc_awaited = True, wc_reply = None\<rparr>"
  using assms by (simp add: start_wait_def Let_def subscribe_once_def waiting_for_def)

definition harmless :: "id \<Rightarrow> int \<Rightarrow> wait_input \<Rightarrow> bool" where
  "harmless i d x \<longleftrightarrow> (case x of Stimulus s \<Rightarrow> settles (becomes_open i) d True s = None | Continue _ _ \<Rightarrow> True)"

fun is_stimulus :: "wait_input \<Rightarrow> bool" where
  "is_stimulus (Stimulus s) \<longleftrightarrow> True"
| "is_stimulus (Continue now db) \<longleftrightarrow> False"

lemma harmless_steps:
  "list_all (harmless i d) xs \<Longrightarrow> wc_task c = i \<Longrightarrow> wc_once c = waiting_for d True \<Longrightarrow> wc_reply c = None \<Longrightarrow>
     foldl wait_step c xs = c"
proof (induction xs)
  case (Cons x xs)
  have "outcome (waiting_for d True :: event one_shot) = Pending" by (simp add: waiting_for_def)
  then have "wait_step c x = c"
    using Cons.prems by (cases x) (simp_all add: harmless_def resume_wait_def react_waiting)
  with Cons show ?case by simp
qed simp

lemma stimuli_after_rest:
  "list_all is_stimulus xs \<Longrightarrow> settled_once (wc_once c) \<Longrightarrow> foldl wait_step c xs = c"
proof (induction xs)
  case (Cons x xs)
  then show ?case by (cases x) (simp_all add: react_settled)
qed simp

lemma reply_is_final: "wc_reply c = Some r \<Longrightarrow> wc_reply (foldl wait_step c xs) = Some r"
proof (induction xs arbitrary: c)
  case (Cons x xs)
  then show ?case by (cases x) (simp_all add: resume_wait_def)
qed simp

lemma settled_then_answered:
  assumes "get_task t0 i db0 = Inr v" "status (v_task v) = Blocked"
    and "list_all (harmless i (t0 + applied_seconds req * 1000)) pre"
    and "settles (becomes_open i) (t0 + applied_seconds req * 1000) True s = Some r"
    and "list_all is_stimulus mid"
  shows "wc_reply (foldl wait_step (start_wait t0 db0 i req) (pre @ Stimulus s # mid @ Continue now db # post)) =
    wc_reply (foldl wait_step (resume_wait now db
      \<lparr>wc_task = i, wc_seconds = applied_seconds req, wc_once = at_rest r, wc_awaited = True, wc_reply = None\<rparr>) post)"
proof -
  let ?d = "t0 + applied_seconds req * 1000"
  let ?c = "\<lambda>w. \<lparr>wc_task = i, wc_seconds = applied_seconds req, wc_once = w, wc_awaited = True, wc_reply = None\<rparr>"
  have "foldl wait_step (start_wait t0 db0 i req) pre = ?c (waiting_for ?d True)"
    unfolding start_blocked [OF assms(1,2)] by (rule harmless_steps [OF assms(3)]) simp_all
  then have "foldl wait_step (start_wait t0 db0 i req) (pre @ [Stimulus s]) = ?c (at_rest r)"
    by (simp add: react_waiting assms(4))
  then have "foldl wait_step (start_wait t0 db0 i req) (pre @ [Stimulus s] @ mid) = ?c (at_rest r)"
    using stimuli_after_rest [OF assms(5), of "?c (at_rest r)"] by simp
  then show ?thesis by simp
qed

text \<open>
  C34.  A call that waits for a blocked task is answered by the first transition from blocked to
  open that the bus delivers before the deadline: with the task as it is when the call continues, or
  with the error of reading it, whatever happens afterwards.
\<close>

theorem unblocking_is_not_missed:
  assumes "get_task t0 i db0 = Inr v" "status (v_task v) = Blocked"
    and "list_all (harmless i (t0 + applied_seconds req * 1000)) pre" "task_id t = i" "list_all is_stimulus mid"
  shows "wc_reply (foldl wait_step (start_wait t0 db0 i req)
      (pre @ Stimulus (Delivered (Status_changed t src Blocked Open)) # mid @ Continue now db # post)) =
    Some (case get_task now i db of Inl e \<Rightarrow> Wait_failed e | Inr fresh \<Rightarrow> Unblocked fresh (applied_seconds req))"
proof -
  have "settles (becomes_open i) (t0 + applied_seconds req * 1000) True (Delivered (Status_changed t src Blocked Open)) =
      Some (Resolved (Status_changed t src Blocked Open))" by (simp add: becomes_open_def assms(4))
  from settled_then_answered [OF assms(1,2,3) this assms(5)] show ?thesis
    by (cases "get_task now i db") (simp_all add: reply_is_final resume_wait_def at_rest_def)
qed

text \<open>Without such a transition the deadline answers: it is a reply, not an error.\<close>

theorem deadline_is_an_answer:
  assumes "get_task t0 i db0 = Inr v" "status (v_task v) = Blocked"
    and "list_all (harmless i (t0 + applied_seconds req * 1000)) pre" "t0 + applied_seconds req * 1000 \<le> t" "list_all is_stimulus mid"
  shows "wc_reply (foldl wait_step (start_wait t0 db0 i req)
      (pre @ Stimulus (Clock t) # mid @ Continue now db # post)) = Some (Wait_timeout i (applied_seconds req))"
proof -
  have "settles (becomes_open i) (t0 + applied_seconds req * 1000) True (Clock t) = Some Timed_out" using assms(4) by simp
  from settled_then_answered [OF assms(1,2,3) this assms(5)] show ?thesis
    by (simp add: reply_is_final resume_wait_def at_rest_def)
qed

section \<open>What is left behind\<close>

definition sound_wait :: "wait_call \<Rightarrow> bool" where
  "sound_wait c \<longleftrightarrow> wc_awaited c \<and> ((\<exists>s. wc_once c = at_rest s) \<or>
     (\<exists>d. wc_once c = waiting_for d True \<and> wc_reply c = None))"

lemma sound_step: "sound_wait c \<Longrightarrow> sound_wait (wait_step c x)"
proof (cases x)
  case (Stimulus s)
  assume "sound_wait c"
  then consider s' where "wc_awaited c" "wc_once c = at_rest s'"
    | d where "wc_awaited c" "wc_once c = waiting_for d True" "wc_reply c = None" by (auto simp: sound_wait_def)
  then show ?thesis
  proof cases
    case 1
    then have "react_once (becomes_open (wc_task c)) (wc_once c) s = wc_once c" by (simp add: react_settled)
    then show ?thesis using 1 by (auto simp: sound_wait_def Stimulus)
  next
    case 2
    then show ?thesis using 2
      by (cases "settles (becomes_open (wc_task c)) d True s") (auto simp: sound_wait_def Stimulus react_waiting)
  qed
next
  case (Continue now db)
  assume *: "sound_wait c"
  have "outcome (waiting_for d True :: event one_shot) = Pending" for d by (simp add: waiting_for_def)
  with * show ?thesis
    by (auto simp: sound_wait_def Continue resume_wait_def split: settlement.splits sum.splits)
qed

lemma sound_steps: "sound_wait c \<Longrightarrow> sound_wait (foldl wait_step c xs)"
  by (induction xs arbitrary: c) (simp_all add: sound_step)

text \<open>
  A call for a task that exists leaves nothing behind once it has answered, neither listener
  nor timer, and never brings the process down, whatever events, clocks and signals follow.
\<close>

theorem waits_leave_nothing_behind:
  assumes "get_task t0 i db0 = Inr v" and "c = foldl wait_step (start_wait t0 db0 i req) xs"
  shows "\<not> process_exits c \<and> (wc_reply c \<noteq> None \<longrightarrow> \<not> listening (wc_once c) \<and> deadline (wc_once c) = None)"
proof -
  have "sound_wait (start_wait t0 db0 i req)"
  proof (cases "status (v_task v) = Blocked")
    case True
    then show ?thesis using start_blocked [OF assms(1)] by (auto simp: sound_wait_def)
  next
    case False
    then show ?thesis using assms(1)
      by (simp add: start_wait_def Let_def sound_wait_def subscribe_once_def on_abort_def settle_def tear_down_def at_rest_def)
  qed
  from sound_steps [OF this, of xs] have "sound_wait c" using assms(2) by simp
  then show ?thesis by (auto simp: sound_wait_def process_exits_def) (simp_all add: at_rest_def)
qed

text \<open>
  For an id without a task the error is thrown between the subscription and the first handler
  of the promise: the listener stays, and the deadline rejects a promise that nobody awaits, on
  which the server exits.
\<close>

lemma unknown_ids_end_the_process:
  assumes "get_task t0 i db0 = Inl e" "t0 + applied_seconds req * 1000 \<le> t"
  shows "wc_reply (start_wait t0 db0 i req) = Some (Wait_failed e) \<and> listening (wc_once (start_wait t0 db0 i req)) \<and>
    process_exits (foldl wait_step (start_wait t0 db0 i req) [Stimulus (Clock t)])"
  using assms
  by (simp add: start_wait_def Let_def subscribe_once_def process_exits_def on_timer_def settle_def tear_down_def)

lemma applied_seconds_bounds: "1 \<le> applied_seconds req \<and> applied_seconds req \<le> 1800"
  by (simp add: applied_seconds_def MAX_TIMEOUT_SECONDS_def)


section \<open>Witnesses\<close>

definition sample_blocked :: task where
  "sample_blocked = (new_row 1500 1 sample_create)\<lparr>status := Blocked, tags := []\<rparr>"

definition blocked_db :: "status \<Rightarrow> db" where
  "blocked_db s = sample_empty\<lparr>tasks := [sample_blocked\<lparr>status := s\<rparr>], next_task_id := 2\<rparr>"

lemma sample_blocked_fields [simp]: "task_id sample_blocked = 1" "tags sample_blocked = []"
  by (simp_all add: sample_blocked_def new_row_def set_wsjf_def sample_create_def)

lemma sample_blocked_tags: "sample_blocked\<lparr>status := s, tags := []\<rparr> = sample_blocked\<lparr>status := s\<rparr>"
  by (simp add: sample_blocked_def)

lemma sample_blocked_found: "get_task now 1 (blocked_db s) = Inr (with_claim_ttl now (sample_blocked\<lparr>status := s\<rparr>))"
  by (simp add: get_task_def find_by_id_def row_def blocked_db_def read_row_def sample_blocked_tags)

lemma sample_view: "v_task (with_claim_ttl now t) = t"
  by (simp add: with_claim_ttl_def Let_def split: option.split)

lemma unblocking_is_not_missed_witness:
  "wc_reply (foldl wait_step (start_wait 0 (blocked_db Blocked) 1 None)
      ([Stimulus (Clock 1000), Stimulus (Delivered (Task_updated sample_blocked From_user))] @
       Stimulus (Delivered (Status_changed (sample_blocked\<lparr>status := Open\<rparr>) From_workflow Blocked Open)) # [Stimulus (Clock 400000)] @
       Continue 2000 (blocked_db Open) # [])) =
     Some (case get_task 2000 1 (blocked_db Open) of Inl e \<Rightarrow> Wait_failed e | Inr fresh \<Rightarrow> Unblocked fresh (applied_seconds None))"
proof (rule unblocking_is_not_missed [OF sample_blocked_found [of 0 Blocked]])
  show "status (v_task (with_claim_ttl 0 (sample_blocked\<lparr>status := Blocked\<rparr>))) = Blocked" by (simp add: sample_view)
  show "list_all (harmless 1 (0 + applied_seconds None * 1000))
      [Stimulus (Clock 1000), Stimulus (Delivered (Task_updated sample_blocked From_user))]"
    by (simp add: harmless_def becomes_open_def applied_seconds_def DEFAULT_TIMEOUT_SECONDS_def MAX_TIMEOUT_SECONDS_def)
  show "task_id (sample_blocked\<lparr>status := Open\<rparr>) = 1" by simp
qed simp

lemma deadline_is_an_answer_witness:
  "wc_reply (foldl wait_step (start_wait 0 (blocked_db Blocked) 1 (Some 5))
      ([Stimulus (Clock 4999)] @ Stimulus (Clock 5000) # [] @ Continue 5001 (blocked_db Blocked) # [])) =
     Some (Wait_timeout 1 (applied_seconds (Some 5)))"
proof (rule deadline_is_an_answer [OF sample_blocked_found [of 0 Blocked]])
  show "status (v_task (with_claim_ttl 0 (sample_blocked\<lparr>status := Blocked\<rparr>))) = Blocked" by (simp add: sample_view)
  show "list_all (harmless 1 (0 + applied_seconds (Some 5) * 1000)) [Stimulus (Clock 4999)]"
    by (simp add: harmless_def applied_seconds_def MAX_TIMEOUT_SECONDS_def)
qed (simp_all add: applied_seconds_def MAX_TIMEOUT_SECONDS_def)

lemma waits_leave_nothing_behind_witness:
  "let c = foldl wait_step (start_wait 0 (blocked_db Blocked) 1 (Some 5)) [Stimulus (Clock 5000), Continue 5001 (blocked_db Blocked)]
   in \<not> process_exits c \<and> (wc_reply c \<noteq> None \<longrightarrow> \<not> listening (wc_once c) \<and> deadline (wc_once c) = None)"
  unfolding Let_def by (rule waits_leave_nothing_behind [OF sample_blocked_found [of 0 Blocked] refl])

end
