(* ===== verification/Mcp_Identity.thy ===== *)
theory Mcp_Identity
  imports Auth_Laws
begin

text \<open>
  Accounts and the server for agents: the table of users (\<open>repositories/user.repository.ts\<close>), signing
  in with an external identity (\<open>services/user-upsert.ts\<close>), the accounts seeded at every start
  (\<open>services/identity-seeder.ts\<close>), for whom the stdio server acts
  (\<open>mcp/identity-resolution.ts\<close>) and which of its tools a token may call (\<open>mcp/scope-gate.ts\<close>).
  Other processes write to the table too: what they commit between two statements is an argument.
\<close>

section \<open>The table of users\<close>

record account = user_row +
  acc_provider :: "utext option"
  acc_sub :: "utext option"
  acc_created :: int

record user_table =
  accounts :: "account list"
  next_account :: int

record upsert_input =
  in_provider :: utext
  in_sub :: utext
  in_email :: "utext option"
  in_display :: utext

datatype user_error = Type_error | Unique_users | Disappeared int

definition find_account :: "int \<Rightarrow> user_table \<Rightarrow> account option" where
  "find_account i T = find (\<lambda>a. usr_id a = i) (accounts T)"

definition find_by_oidc_sub :: "utext \<Rightarrow> utext \<Rightarrow> user_table \<Rightarrow> user_error + account option" where
  "find_by_oidc_sub p s T =
     (if p = [] \<or> s = [] then Inl Type_error
      else Inr (find (\<lambda>a. acc_provider a = Some p \<and> acc_sub a = Some s) (accounts T)))"

definition find_legacy_by_display_name :: "utext \<Rightarrow> user_table \<Rightarrow> account option" where
  "find_legacy_by_display_name d T = find (\<lambda>a. usr_legacy a = 1 \<and> usr_display a = d) (accounts T)"

definition find_service_account_by_name :: "utext \<Rightarrow> user_table \<Rightarrow> account option" where
  "find_service_account_by_name d T =
     (if d = [] then None else find (\<lambda>a. usr_service a = 1 \<and> usr_display a = d) (accounts T))"

text \<open>The partial unique indexes on users.\<close>

definition clash :: "account \<Rightarrow> account \<Rightarrow> bool" where
  "clash a b \<longleftrightarrow>
     acc_provider a \<noteq> None \<and> acc_sub a \<noteq> None \<and> acc_provider a = acc_provider b \<and> acc_sub a = acc_sub b \<or>
     usr_legacy a = 1 \<and> usr_legacy b = 1 \<and> usr_display a = usr_display b \<or>
     usr_service a = 1 \<and> usr_service b = 1 \<and> usr_display a = usr_display b"

definition insert_account :: "int \<Rightarrow> upsert_input \<Rightarrow> user_table \<Rightarrow> user_error + account \<times> user_table" where
  "insert_account now x T =
     (if in_provider x = [] \<or> in_sub x = [] \<or> in_display x = [] then Inl Type_error
      else
        let a = \<lparr>usr_id = next_account T, usr_display = in_display x, usr_email = in_email x, usr_legacy = 0,
                 usr_service = 0, usr_disabled = None, acc_provider = Some (in_provider x), acc_sub = Some (in_sub x),
                 acc_created = now\<rparr>
        in if list_ex (clash a) (accounts T) then Inl Unique_users
           else Inr (a, \<lparr>accounts = accounts T @ [a], next_account = next_account T + 1\<rparr>))"

record profile_patch =
  pt_email :: "utext option option"
  pt_display :: "utext option"

definition patched :: "profile_patch \<Rightarrow> account \<Rightarrow> account" where
  "patched p a = a\<lparr>usr_email := (case pt_email p of None \<Rightarrow> usr_email a | Some e \<Rightarrow> e),
                  usr_display := (case pt_display p of None \<Rightarrow> usr_display a | Some d \<Rightarrow> d)\<rparr>"

definition update_profile :: "int \<Rightarrow> profile_patch \<Rightarrow> user_table \<Rightarrow> user_error + account option \<times> user_table" where
  "update_profile i p T =
     (if i \<le> 0 \<or> pt_display p = Some [] then Inl Type_error
      else if pt_email p = None \<and> pt_display p = None then Inr (find_account i T, T)
      else case find_account i T of
        None \<Rightarrow> Inr (None, T)
      | Some a \<Rightarrow>
          if list_ex (\<lambda>b. usr_id b \<noteq> i \<and> clash (patched p a) b) (accounts T) then Inl Unique_users
          else Inr (Some (patched p a), T\<lparr>accounts := map (\<lambda>b. if usr_id b = i then patched p b else b) (accounts T)\<rparr>))"

section \<open>Signing in\<close>

definition drift :: "upsert_input \<Rightarrow> account \<Rightarrow> profile_patch" where
  "drift x a = \<lparr>pt_email = (if usr_email a \<noteq> in_email x then Some (in_email x) else None),
                pt_display = (if usr_display a \<noteq> in_display x then Some (in_display x) else None)\<rparr>"

text \<open>\<open>others\<close> is what other processes commit after the first look-up.\<close>

definition upsert_from_oidc ::
    "(user_table \<Rightarrow> user_table) \<Rightarrow> int \<Rightarrow> upsert_input \<Rightarrow> user_table \<Rightarrow> (user_error + account) \<times> user_table" where
  "upsert_from_oidc others now x T =
     (case find_by_oidc_sub (in_provider x) (in_sub x) T of
        Inl e \<Rightarrow> (Inl e, T)
      | Inr (Some existing) \<Rightarrow>
          if usr_email existing = in_email x \<and> usr_display existing = in_display x then (Inr existing, T)
          else let T' = others T in
            (case update_profile (usr_id existing) (drift x existing) T' of
               Inl e \<Rightarrow> (Inl e, T')
             | Inr (Some a, T'') \<Rightarrow> (Inr a, T'')
             | Inr (None, T'') \<Rightarrow> (Inl (Disappeared (usr_id existing)), T''))
      | Inr None \<Rightarrow>
          let T' = others T in
            (case insert_account now x T' of
               Inr (a, T'') \<Rightarrow> (Inr a, T'')
             | Inl e \<Rightarrow>
                 (case find_by_oidc_sub (in_provider x) (in_sub x) T' of
                    Inr (Some racer) \<Rightarrow> (Inr racer, T')
                  | _ \<Rightarrow> (Inl e, T'))))"

section \<open>Accounts seeded at start\<close>

definition SERVICE_ACCOUNT_NAMES :: "utext list" where
  "SERVICE_ACCOUNT_NAMES = [u ''slack-bot'', u ''mcp-bot'']"

definition insert_service :: "int \<Rightarrow> utext \<Rightarrow> user_table \<Rightarrow> bool \<times> user_table" where
  "insert_service now d T =
     (if list_ex (\<lambda>b. usr_service b = 1 \<and> usr_display b = d) (accounts T) then (False, T)
      else (True, \<lparr>accounts = accounts T @ [\<lparr>usr_id = next_account T, usr_display = d, usr_email = None, usr_legacy = 0,
                 usr_service = 1, usr_disabled = None, acc_provider = None, acc_sub = None, acc_created = now\<rparr>],
               next_account = next_account T + 1\<rparr>))"

fun seed_names :: "int \<Rightarrow> utext list \<Rightarrow> nat \<times> nat \<Rightarrow> user_table \<Rightarrow> (nat \<times> nat) \<times> user_table" where
  "seed_names now [] counts T = (counts, T)"
| "seed_names now (d # ds) (seeded, present) T =
     (case insert_service now d T of
        (True, T') \<Rightarrow> seed_names now ds (Suc seeded, present) T'
      | (False, T') \<Rightarrow> seed_names now ds (seeded, Suc present) T')"

definition seed_identities :: "int \<Rightarrow> user_table \<Rightarrow> (nat \<times> nat) \<times> user_table" where
  "seed_identities now T = seed_names now SERVICE_ACCOUNT_NAMES (0, 0) T"

section \<open>For whom the server acts\<close>

datatype pat_reject = Reject_unknown | Reject_revoked | Reject_expired | Reject_disabled

datatype resolution_path = Path_pat | Path_rejected pat_reject | Path_legacy | Path_legacy_unmatched | Path_service_account

record mcp_actor =
  actor_user :: int
  actor_path :: resolution_path
  actor_scopes :: "pat_scope list option"
  actor_token :: "int option"

datatype boot_error = Pat_refused pat_reject | Bot_missing

definition parse_granted_scopes :: "auth_env \<Rightarrow> utext \<Rightarrow> pat_scope list" where
  "parse_granted_scopes E txt =
     (case parse_json E txt of Some (JArr xs) \<Rightarrow> List.map_filter known_scope xs | _ \<Rightarrow> [])"

definition reject_reason :: "auth_env \<Rightarrow> int \<Rightarrow> token_row option \<Rightarrow> user_table \<Rightarrow> pat_reject option" where
  "reject_reason E now found T =
     (case found of
        None \<Rightarrow> Some Reject_unknown
      | Some r \<Rightarrow>
          let reject =
            (if tok_revoked r \<noteq> None then Some Reject_revoked
             else case tok_expires r of
               None \<Rightarrow> None
             | Some txt \<Rightarrow> (case parse_date E txt of
                 None \<Rightarrow> Some Reject_expired
               | Some ms \<Rightarrow> if ms < now then Some Reject_expired else None))
          in if reject \<noteq> None then reject
             else case find_account (tok_user r) T of
               None \<Rightarrow> Some Reject_disabled
             | Some usr \<Rightarrow> if usr_disabled usr \<noteq> None then Some Reject_disabled else None)"

definition resolve_mcp_bot :: "resolution_path \<Rightarrow> user_table \<Rightarrow> boot_error + mcp_actor" where
  "resolve_mcp_bot path T =
     (case find_service_account_by_name (u ''mcp-bot'') T of
        None \<Rightarrow> Inl Bot_missing
      | Some b \<Rightarrow> Inr \<lparr>actor_user = usr_id b, actor_path = path, actor_scopes = None, actor_token = None\<rparr>)"

text \<open>The loop over the configured keys does not break, so the last one that matches counts.\<close>

definition matched_label :: "(utext \<Rightarrow> utext) \<Rightarrow> (utext \<times> utext) list \<Rightarrow> utext \<Rightarrow> utext option" where
  "matched_label hash_key hashedEntries key =
     foldl (\<lambda>m (h, label). if h = hash_key key then Some label else m) None hashedEntries"

definition resolve_actor ::
    "auth_env \<Rightarrow> (utext \<Rightarrow> utext) \<Rightarrow> (utext \<times> utext) list \<Rightarrow> bool \<Rightarrow> int \<Rightarrow> utext option \<Rightarrow> token_table \<Rightarrow> user_table
      \<Rightarrow> boot_error + mcp_actor" where
  "resolve_actor E hash_key hashedEntries allowBadPat now apiKey toks T =
     (case apiKey of
        None \<Rightarrow> resolve_mcp_bot Path_service_account T
      | Some key \<Rightarrow>
          if has_prefix (u PAT_PREFIX) key then
            let found = find_by_hash (hash_token E key) toks in
            (case (reject_reason E now found T, found) of
               (None, Some r) \<Rightarrow>
                 Inr \<lparr>actor_user = tok_user r, actor_path = Path_pat,
                      actor_scopes = Some (parse_granted_scopes E (tok_scopes r)), actor_token = Some (tok_id r)\<rparr>
             | (Some reject, _) \<Rightarrow>
                 if \<not> allowBadPat then Inl (Pat_refused reject) else resolve_mcp_bot (Path_rejected reject) T
             | (None, None) \<Rightarrow> Inl (Pat_refused Reject_disabled))
          else if key \<noteq> [] then
            (case Option.bind (matched_label hash_key hashedEntries key) (\<lambda>l. find_legacy_by_display_name l T) of
               Some usr \<Rightarrow>
                 if usr_disabled usr = None then
                   Inr \<lparr>actor_user = usr_id usr, actor_path = Path_legacy, actor_scopes = None, actor_token = None\<rparr>
                 else resolve_mcp_bot Path_legacy_unmatched T
             | None \<Rightarrow> resolve_mcp_bot Path_legacy_unmatched T)
          else resolve_mcp_bot Path_service_account T)"

section \<open>Which tools it may call\<close>

datatype mutating_tool =
  Create_task | Update_task | Delete_task | Claim_task | Create_project | Update_project | Delete_project
| Add_dependency | Remove_dependency | Add_comment | Delete_comment | Rescore_project | Set_model_defaults

fun tool_scope :: "mutating_tool \<Rightarrow> pat_scope" where
  "tool_scope Delete_task = Admin_scope"
| "tool_scope Delete_project = Admin_scope"
| "tool_scope Delete_comment = Admin_scope"
| "tool_scope Set_model_defaults = Admin_scope"
| "tool_scope _ = Write_scope"

record insufficient_scope =
  is_tool :: mutating_tool
  is_required :: pat_scope
  is_granted :: "pat_scope list option"

definition enforce_tool_scope :: "pat_scope list option \<Rightarrow> mutating_tool \<Rightarrow> insufficient_scope + unit" where
  "enforce_tool_scope scopes tool =
     (if grant_satisfies_scope scopes (tool_scope tool) then Inr ()
      else Inl \<lparr>is_tool = tool, is_required = tool_scope tool, is_granted = scopes\<rparr>)"


section \<open>Identities do not change hands\<close>

definition users_ok :: "user_table \<Rightarrow> bool" where
  "users_ok T \<longleftrightarrow>
     distinct (map usr_id (accounts T)) \<and> (\<forall>a \<in> set (accounts T). 0 < usr_id a \<and> usr_id a < next_account T) \<and> 0 < next_account T \<and>
     (\<forall>a \<in> set (accounts T). \<forall>b \<in> set (accounts T). clash a b \<longrightarrow> usr_id a = usr_id b) \<and>
     (\<forall>a \<in> set (accounts T). acc_provider a \<noteq> None \<longrightarrow> usr_legacy a \<noteq> 1 \<and> usr_service a \<noteq> 1)"

text \<open>What a row keeps for ever.\<close>

definition same_identity :: "account \<Rightarrow> account \<Rightarrow> bool" where
  "same_identity a b \<longleftrightarrow>
     usr_id b = usr_id a \<and> acc_provider b = acc_provider a \<and> acc_sub b = acc_sub a \<and>
     usr_legacy b = usr_legacy a \<and> usr_service b = usr_service a \<and> usr_disabled b = usr_disabled a"

inductive user_step :: "user_table \<Rightarrow> user_table \<Rightarrow> bool" where
  insert: "insert_account now x T = Inr (a, T') \<Longrightarrow> user_step T T'"
| update: "update_profile i p T = Inr (r, T') \<Longrightarrow> user_step T T'"
| seed: "insert_service now d T = (b, T') \<Longrightarrow> user_step T T'"

definition history_of_users :: "user_table \<Rightarrow> user_table \<Rightarrow> bool" where
  "history_of_users = user_step\<^sup>*\<^sup>*"

definition kept :: "user_table \<Rightarrow> user_table \<Rightarrow> bool" where
  "kept T T' \<longleftrightarrow> (\<forall>a \<in> set (accounts T). \<exists>b \<in> set (accounts T'). same_identity a b)"

lemma clash_sym: "clash a b \<Longrightarrow> clash b a"
  by (auto simp: clash_def)

lemma same_identity_patched [simp]: "same_identity a (patched p a)"
  by (simp add: same_identity_def patched_def)

lemma same_identity_refl [simp]: "same_identity a a"
  by (simp add: same_identity_def)

lemma users_ok_append:
  assumes "users_ok T" "usr_id a = next_account T" "\<not> list_ex (clash a) (accounts T)"
    and "acc_provider a \<noteq> None \<longrightarrow> usr_legacy a \<noteq> 1 \<and> usr_service a \<noteq> 1"
  shows "users_ok \<lparr>accounts = accounts T @ [a], next_account = next_account T + 1\<rparr>"
proof -
  have no: "\<not> clash a b" "\<not> clash b a" if "b \<in> set (accounts T)" for b
    using assms(3) that clash_sym by (auto simp: list_ex_iff)
  have "next_account T \<notin> usr_id ` set (accounts T)" using assms(1) by (fastforce simp: users_ok_def)
  with assms(1,2,4) no show ?thesis by (force simp: users_ok_def)
qed

lemma insert_account_keeps: "insert_account now x T = Inr (a, T') \<Longrightarrow> users_ok T \<Longrightarrow> users_ok T' \<and> kept T T'"
  using users_ok_append [of T a]
  by (auto simp: insert_account_def Let_def kept_def split: if_splits intro: same_identity_refl)

lemma insert_service_keeps: "insert_service now d T = (b, T') \<Longrightarrow> users_ok T \<Longrightarrow> users_ok T' \<and> kept T T'"
proof -
  let ?a = "\<lparr>usr_id = next_account T, usr_display = d, usr_email = None, usr_legacy = 0,
                 usr_service = 1, usr_disabled = None, acc_provider = None, acc_sub = None, acc_created = now\<rparr>"
  assume i: "insert_service now d T = (b, T')" and ok: "users_ok T"
  show ?thesis
  proof (cases "list_ex (\<lambda>b. usr_service b = 1 \<and> usr_display b = d) (accounts T)")
    case True
    with i ok show ?thesis by (auto simp: insert_service_def kept_def intro: same_identity_refl)
  next
    case False
    then have "\<not> list_ex (clash ?a) (accounts T)" by (auto simp: list_ex_iff clash_def)
    with ok have "users_ok \<lparr>accounts = accounts T @ [?a], next_account = next_account T + 1\<rparr>"
      by (intro users_ok_append) simp_all
    moreover have "T' = \<lparr>accounts = accounts T @ [?a], next_account = next_account T + 1\<rparr>"
      using i False by (simp add: insert_service_def)
    ultimately show ?thesis by (auto simp: kept_def intro: same_identity_refl)
  qed
qed

lemma find_account_in: "find_account i T = Some a \<Longrightarrow> a \<in> set (accounts T) \<and> usr_id a = i"
  by (auto simp: find_account_def find_Some_iff)

lemma users_ok_map:
  assumes "users_ok T" and f: "\<And>b. same_identity b (f b)"
    and "\<And>b c. b \<in> set (accounts T) \<Longrightarrow> c \<in> set (accounts T) \<Longrightarrow> clash (f b) (f c) \<longrightarrow> usr_id b = usr_id c"
  shows "users_ok (T\<lparr>accounts := map f (accounts T)\<rparr>)"
proof -
  have eqs: "usr_id (f b) = usr_id b" "acc_provider (f b) = acc_provider b" "usr_legacy (f b) = usr_legacy b"
      "usr_service (f b) = usr_service b" for b using f [of b] by (simp_all add: same_identity_def)
  then have "map usr_id (map f (accounts T)) = map usr_id (accounts T)" by simp
  then have "distinct (map usr_id (map f (accounts T)))" using assms(1) by (simp add: users_ok_def del: map_map)
  with assms(1,3) eqs show ?thesis by (simp add: users_ok_def)
qed

lemma kept_map: "(\<And>b. same_identity b (f b)) \<Longrightarrow> kept T (T\<lparr>accounts := map f (accounts T)\<rparr>)"
  by (auto simp: kept_def)

lemma update_profile_keeps: "update_profile i p T = Inr (r, T') \<Longrightarrow> users_ok T \<Longrightarrow> users_ok T' \<and> kept T T'"
proof -
  assume upd: "update_profile i p T = Inr (r, T')" and ok: "users_ok T"
  let ?f = "\<lambda>b. if usr_id b = i then patched p b else b"
  show ?thesis
  proof (cases "T' = T")
    case True
    with ok show ?thesis by (auto simp: kept_def intro: same_identity_refl)
  next
    case False
    then obtain a where a: "find_account i T = Some a"
        and no: "\<not> list_ex (\<lambda>b. usr_id b \<noteq> i \<and> clash (patched p a) b) (accounts T)"
        and T': "T' = T\<lparr>accounts := map ?f (accounts T)\<rparr>"
      using upd by (auto simp: update_profile_def split: if_splits option.splits)
    have one: "b = a" if "b \<in> set (accounts T)" "usr_id b = i" for b
      using ok that find_account_in [OF a] by (auto simp: users_ok_def distinct_map dest: inj_onD)
    have "clash (?f b) (?f c) \<longrightarrow> usr_id b = usr_id c" if "b \<in> set (accounts T)" "c \<in> set (accounts T)" for b c
    proof (intro impI, rule ccontr)
      assume cl: "clash (?f b) (?f c)" and ne: "usr_id b \<noteq> usr_id c"
      show False
      proof (cases "usr_id b = i \<or> usr_id c = i")
        case True
        then show False using no one that cl ne clash_sym [OF cl] by (auto simp: list_ex_iff)
      next
        case False
        with cl have "clash b c" by simp
        with ok that ne show False by (auto simp: users_ok_def)
      qed
    qed
    then have "users_ok T'" unfolding T' by (intro users_ok_map [OF ok]) simp_all
    moreover have "kept T T'" unfolding T' by (rule kept_map) simp
    ultimately show ?thesis by simp
  qed
qed

lemma user_step_keeps: "user_step T T' \<Longrightarrow> users_ok T \<Longrightarrow> users_ok T' \<and> kept T T'"
  by (induction rule: user_step.induct) (blast dest: insert_account_keeps update_profile_keeps insert_service_keeps)+

lemma kept_trans: "kept A B \<Longrightarrow> kept B C \<Longrightarrow> kept A C"
  unfolding kept_def same_identity_def by metis

lemma history_keeps: "history_of_users T T' \<Longrightarrow> users_ok T \<Longrightarrow> users_ok T' \<and> kept T T'"
  unfolding history_of_users_def
proof (induction rule: rtranclp_induct)
  case base
  then show ?case by (auto simp: kept_def intro: same_identity_refl)
next
  case (step B C)
  then show ?case using user_step_keeps kept_trans by blast
qed

lemma find_by_oidc_in:
  assumes "find_by_oidc_sub p s T = Inr (Some a)"
  shows "a \<in> set (accounts T) \<and> acc_provider a = Some p \<and> acc_sub a = Some s"
  using assms by (auto simp: find_by_oidc_sub_def find_Some_iff split: if_splits)

lemma find_by_oidc_unique:
  assumes "users_ok T" "a \<in> set (accounts T)" "acc_provider a = Some p" "acc_sub a = Some s" "p \<noteq> []" "s \<noteq> []"
  shows "find_by_oidc_sub p s T = Inr (Some a)"
proof -
  have "find (\<lambda>a. acc_provider a = Some p \<and> acc_sub a = Some s) (accounts T) \<noteq> None"
    using assms by (auto simp: find_None_iff)
  then obtain b where b: "find (\<lambda>a. acc_provider a = Some p \<and> acc_sub a = Some s) (accounts T) = Some b" by blast
  then have "b \<in> set (accounts T)" "clash b a" using assms by (auto simp: find_Some_iff clash_def)
  then have "usr_id b = usr_id a" using assms by (auto simp: users_ok_def)
  then have "b = a" using assms(1,2) \<open>b \<in> set (accounts T)\<close> by (auto simp: users_ok_def distinct_map dest: inj_onD)
  with b assms show ?thesis by (simp add: find_by_oidc_sub_def)
qed

text \<open>
  C20.  Through every history of the table an external identity leads to the same account, which
  never changes its id, its standing as a service or legacy account, or its identity.
\<close>

theorem identities_never_change_hands:
  assumes "users_ok T" "history_of_users T T'" "find_by_oidc_sub p s T = Inr (Some a)"
  shows "\<exists>b. find_by_oidc_sub p s T' = Inr (Some b) \<and> same_identity a b"
proof -
  have ps: "p \<noteq> []" "s \<noteq> []" using assms(3) by (auto simp: find_by_oidc_sub_def split: if_splits)
  note a = find_by_oidc_in [OF assms(3)]
  have "users_ok T'" "kept T T'" using history_keeps assms by blast+
  then obtain b where b: "b \<in> set (accounts T')" "same_identity a b" using a by (auto simp: kept_def)
  then have "find_by_oidc_sub p s T' = Inr (Some b)"
    using find_by_oidc_unique [OF \<open>users_ok T'\<close>] a ps by (simp add: same_identity_def)
  with b show ?thesis by blast
qed


section \<open>Signing in\<close>

lemma find_by_oidc_ok: "p \<noteq> [] \<Longrightarrow> s \<noteq> [] \<Longrightarrow> \<exists>r. find_by_oidc_sub p s T = Inr r"
  by (simp add: find_by_oidc_sub_def)

text \<open>An insertion fails on a table of this kind only if the identity is there already.\<close>

lemma insert_conflict_is_a_racer:
  assumes "users_ok T" "in_provider x \<noteq> []" "in_sub x \<noteq> []" "in_display x \<noteq> []" "insert_account now x T = Inl e"
  shows "\<exists>r. find_by_oidc_sub (in_provider x) (in_sub x) T = Inr (Some r)"
proof -
  obtain b where "b \<in> set (accounts T)" "acc_provider b = Some (in_provider x)" "acc_sub b = Some (in_sub x)"
    using assms(2-) by (auto simp: insert_account_def Let_def clash_def list_ex_iff split: if_splits)
  then show ?thesis using find_by_oidc_unique [OF assms(1)] assms(2,3) by blast
qed

text \<open>The row of an external identity can always be brought up to date.\<close>

lemma profile_is_updated:
  assumes "users_ok T" "a \<in> set (accounts T)" "acc_provider a \<noteq> None" "pt_display p \<noteq> Some []"
    and "pt_email p \<noteq> None \<or> pt_display p \<noteq> None"
  shows "\<exists>T'. update_profile (usr_id a) p T = Inr (Some (patched p a), T')"
proof -
  have one: "b = a" if "b \<in> set (accounts T)" "usr_id b = usr_id a" for b
    using assms(1,2) that by (auto simp: users_ok_def distinct_map dest: inj_onD)
  have "find_account (usr_id a) T \<noteq> None" using assms(2) by (auto simp: find_account_def find_None_iff)
  then obtain b where "find_account (usr_id a) T = Some b" by blast
  then have fa: "find_account (usr_id a) T = Some a" using find_account_in one by blast
  have "usr_id b = usr_id a" if "b \<in> set (accounts T)" "clash (patched p a) b" for b
  proof -
    have "usr_legacy a \<noteq> 1" "usr_service a \<noteq> 1" using assms(1-3) by (auto simp: users_ok_def)
    then have "clash a b" using that(2) by (auto simp: clash_def patched_def)
    with assms(1,2) that(1) show ?thesis by (auto simp: users_ok_def)
  qed
  then have "\<not> list_ex (\<lambda>b. usr_id b \<noteq> usr_id a \<and> clash (patched p a) b) (accounts T)" by (auto simp: list_ex_iff)
  moreover have "0 < usr_id a" using assms(1,2) by (auto simp: users_ok_def)
  moreover have "\<not> (pt_email p = None \<and> pt_display p = None)" using assms(5) by blast
  ultimately show ?thesis using assms(4) fa by (auto simp: update_profile_def)
qed

text \<open>
  C21.  Signing in always succeeds, whatever other processes commit in the middle of it, with an
  account of exactly this identity: the account it led to before, if there was one.
\<close>

theorem signing_in_finds_the_account:
  assumes "users_ok T" and others: "\<And>U. users_ok U \<Longrightarrow> history_of_users U (others U)"
    and x: "in_provider x \<noteq> []" "in_sub x \<noteq> []" "in_display x \<noteq> []"
  shows "\<exists>a T'. upsert_from_oidc others now x T = (Inr a, T') \<and>
    acc_provider a = Some (in_provider x) \<and> acc_sub a = Some (in_sub x) \<and>
    (\<forall>b. find_by_oidc_sub (in_provider x) (in_sub x) T = Inr (Some b) \<longrightarrow> same_identity b a)"
proof (cases "find_by_oidc_sub (in_provider x) (in_sub x) T = Inr None")
  case True
  have ok: "users_ok (others T)" using history_keeps others assms(1) by blast
  show ?thesis
  proof (cases "insert_account now x (others T)")
    case (Inr r)
    then have "acc_provider (fst r) = Some (in_provider x) \<and> acc_sub (fst r) = Some (in_sub x)"
      by (auto simp: insert_account_def Let_def split: if_splits)
    with Inr True show ?thesis by (cases r) (simp add: upsert_from_oidc_def)
  next
    case (Inl e)
    then obtain r where r: "find_by_oidc_sub (in_provider x) (in_sub x) (others T) = Inr (Some r)"
      using insert_conflict_is_a_racer [OF ok x] by blast
    with find_by_oidc_in [OF r] Inl True show ?thesis by (simp add: upsert_from_oidc_def)
  qed
next
  case False
  then obtain a where a: "find_by_oidc_sub (in_provider x) (in_sub x) T = Inr (Some a)"
    using find_by_oidc_ok [OF x(1,2), of T] by (metis not_None_eq)
  note ins = find_by_oidc_in [OF a]
  show ?thesis
  proof (cases "usr_email a = in_email x \<and> usr_display a = in_display x")
    case True
    with a ins show ?thesis by (simp add: upsert_from_oidc_def)
  next
    case drifted: False
    have "users_ok (others T)" "kept T (others T)" using history_keeps others assms(1) by blast+
    then obtain b where b: "b \<in> set (accounts (others T))" "same_identity a b" using ins by (auto simp: kept_def)
    have "\<exists>T'. update_profile (usr_id b) (drift x a) (others T) = Inr (Some (patched (drift x a) b), T')"
      using b ins x(3) drifted \<open>users_ok (others T)\<close>
      by (intro profile_is_updated) (auto simp: same_identity_def drift_def)
    then obtain T' where "update_profile (usr_id a) (drift x a) (others T) = Inr (Some (patched (drift x a) b), T')"
      using b by (auto simp: same_identity_def)
    then have "upsert_from_oidc others now x T = (Inr (patched (drift x a) b), T')"
      using a drifted by (auto simp: upsert_from_oidc_def Let_def)
    moreover have "same_identity a (patched (drift x a) b)" using b by (simp add: same_identity_def patched_def)
    ultimately show ?thesis using a ins by (auto simp: same_identity_def)
  qed
qed

section \<open>The server for agents and the REST interface\<close>

definition rest_state :: "token_table \<Rightarrow> user_table \<Rightarrow> auth_state \<Rightarrow> auth_state" where
  "rest_state toks T st = st\<lparr>au_tokens := toks, au_users := map user_row.truncate (accounts T)\<rparr>"

lemma find_truncate:
  "find (\<lambda>r. usr_id r = i) (map user_row.truncate as) = map_option user_row.truncate (find (\<lambda>a. usr_id a = i) as)"
  by (induction as) (auto simp: user_row.defs)

lemma find_user_truncate: "find_user i (rest_state toks T st) = map_option user_row.truncate (find_account i T)"
  by (simp add: find_user_def rest_state_def find_account_def find_truncate)

lemma reject_reason_live:
  "reject_reason E now found T = None \<longleftrightarrow>
     (\<exists>r usr. found = Some r \<and> live_row E now (rest_state toks T st) r usr)"
  by (auto simp: reject_reason_def live_row_def unexpired_def find_user_truncate user_row.defs Let_def
      split: option.splits if_splits)

lemma parse_granted_scopes_eq: "parse_granted_scopes E txt = parse_scopes (parse_json E) txt"
  by (simp add: parse_granted_scopes_def parse_scopes_def)

text \<open>
  C29.  The stdio server and the REST interface admit the same tokens for the same things: with a
  well-formed token in its environment the server starts and lets a tool pass exactly if the
  authentication chain accepts the token in a header and its scope gate opens for a route of the
  tool's tier.
\<close>

theorem stdio_and_rest_agree:
  assumes "pat_body_pattern body" and key: "key = u PAT_PREFIX @ body"
    and "required_scope cfg = Some (tool_scope tool)"
  shows "(\<exists>a. resolve_actor E hash_key entries False now (Some key) toks T = Inr a \<and>
            enforce_tool_scope (actor_scopes a) tool = Inr ()) \<longleftrightarrow>
    (\<exists>p. fst (try_pat E no_faults now (Some (u ''Bearer '' @ key)) (rest_state toks T st)) = Inr (Match p) \<and>
            enforceRequiredScope cfg p = None)"
proof -
  let ?st = "rest_state toks T st"
  have pre: "has_prefix (u PAT_PREFIX) key" "drop (length (u PAT_PREFIX)) key = body"
    by (simp_all add: has_prefix_def key)
  have len: "length (u PAT_PREFIX) = length PAT_PREFIX" "length (u ''Bearer '') = 7" by (simp_all add: u_def)
  have shown: "presented_pat (Some (u ''Bearer '' @ key)) = Pat key"
    using assms(1) pre len by (simp add: presented_pat_def has_prefix_def)
  have live: "reject_reason E now (Some r) T = None \<longleftrightarrow> (\<exists>usr. live_row E now ?st r usr)" for r
    using reject_reason_live [of E now "Some r" T toks st] by simp
  show ?thesis
  proof (cases "find_by_hash (hash_token E key) toks")
    case None
    then show ?thesis
      by (auto simp: resolve_actor_def pre try_pat_match shown rest_state_def reject_reason_def)
  next
    case found: (Some r)
    have "au_tokens ?st = toks" by (simp add: rest_state_def)
    then have match: "fst (try_pat E no_faults now (Some (u ''Bearer '' @ key)) ?st) = Inr (Match p) \<longleftrightarrow>
        (\<exists>usr. live_row E now ?st r usr \<and> p = pat_principal E r usr)" for p
      by (simp add: try_pat_match shown found no_faults_def)
    show ?thesis
    proof (cases "reject_reason E now (Some r) T")
      case None
      then obtain usr where usr: "live_row E now ?st r usr" using live by blast
      then have only: "live_row E now ?st r usr' \<longleftrightarrow> usr' = usr" for usr' by (auto simp: live_row_def)
      have "fst (try_pat E no_faults now (Some (u ''Bearer '' @ key)) ?st) = Inr (Match p) \<longleftrightarrow> p = pat_principal E r usr" for p
        unfolding match only by simp
      with None found show ?thesis
        by (simp add: resolve_actor_def pre Let_def enforce_tool_scope_def enforceRequiredScope_def assms(3)
            pat_principal_def parse_granted_scopes_eq)
    next
      case (Some e)
      then have "\<not> live_row E now ?st r usr" for usr using live [of r] by auto
      with match Some found show ?thesis by (simp add: resolve_actor_def pre Let_def)
    qed
  qed
qed


lemma stdio_and_rest_agree_witness:
  "(\<exists>a. resolve_actor sample_env_auth (\<lambda>s. s) [] False 0 (Some (u PAT_PREFIX @ replicate 32 65)) (au_tokens sample_auth_state)
          \<lparr>accounts = [], next_account = 1\<rparr> = Inr a \<and> enforce_tool_scope (actor_scopes a) Delete_task = Inr ()) \<longleftrightarrow>
    (\<exists>p. fst (try_pat sample_env_auth no_faults 0 (Some (u ''Bearer '' @ u PAT_PREFIX @ replicate 32 65))
          (rest_state (au_tokens sample_auth_state) \<lparr>accounts = [], next_account = 1\<rparr> sample_auth_state)) = Inr (Match p) \<and>
        enforceRequiredScope \<lparr>skip_auth = False, session_only = False, required_scope = Some Admin_scope\<rparr> p = None)"
  by (rule stdio_and_rest_agree [OF _ refl]) (simp_all add: pat_body_pattern_def list_all_iff)

section \<open>Seeding\<close>

definition no_users :: user_table where
  "no_users = \<lparr>accounts = [], next_account = 1\<rparr>"

lemma users_ok_none: "users_ok no_users"
  by (simp add: users_ok_def no_users_def)

definition has_service :: "utext \<Rightarrow> user_table \<Rightarrow> bool" where
  "has_service d T \<longleftrightarrow> (\<exists>b \<in> set (accounts T). usr_service b = 1 \<and> usr_display b = d)"

lemma insert_service_has:
  "has_service d (snd (insert_service now d T))" "has_service e T \<Longrightarrow> has_service e (snd (insert_service now d T))"
  "has_service d T \<Longrightarrow> insert_service now d T = (False, T)"
  by (auto simp: insert_service_def has_service_def list_ex_iff)

text \<open>Seeding a second time changes nothing and says so, whatever the table held before.\<close>

theorem seeding_is_idempotent:
  "seed_identities now' (snd (seed_identities now T)) = ((0, 2), snd (seed_identities now T))"
proof -
  let ?A = "snd (insert_service now (u ''slack-bot'') T)"
  let ?B = "snd (insert_service now (u ''mcp-bot'') ?A)"
  have B: "snd (seed_identities now T) = ?B"
    by (simp add: seed_identities_def SERVICE_ACCOUNT_NAMES_def split: prod.split bool.split)
  have "has_service (u ''slack-bot'') ?B" "has_service (u ''mcp-bot'') ?B" using insert_service_has by blast+
  then show ?thesis unfolding B
    by (simp add: seed_identities_def SERVICE_ACCOUNT_NAMES_def insert_service_has(3))
qed

text \<open>
  A token that is refused ends, where the operator allows bad tokens, with an actor without any
  limit of scope: a read-only token that is revoked may then delete.
\<close>

lemma refused_tokens_lose_their_limits:
  assumes "has_prefix (u PAT_PREFIX) key" "find_by_hash (hash_token E key) toks = Some r" "tok_revoked r \<noteq> None"
    and "find_service_account_by_name (u ''mcp-bot'') T = Some b"
  shows "\<exists>a. resolve_actor E hash_key entries True now (Some key) toks T = Inr a \<and>
    enforce_tool_scope (actor_scopes a) Delete_task = Inr ()"
  using assms
  by (simp add: resolve_actor_def reject_reason_def Let_def resolve_mcp_bot_def enforce_tool_scope_def
      grant_satisfies_scope_def)

text \<open>The binding of a token to a project plays no part on this surface.\<close>

lemma bindings_are_not_seen:
  "resolve_actor E hash_key entries allowBad now key (toks\<lparr>tokens := map (\<lambda>r. r\<lparr>tok_project := f r\<rparr>) (tokens toks)\<rparr>) T =
   resolve_actor E hash_key entries allowBad now key toks T"
proof -
  have "find (\<lambda>r. tok_hash r = h) (map (\<lambda>r. r\<lparr>tok_project := f r\<rparr>) rs) =
      map_option (\<lambda>r. r\<lparr>tok_project := f r\<rparr>) (find (\<lambda>r. tok_hash r = h) rs)" for h rs
    by (induction rs) auto
  then have "find_by_hash h (toks\<lparr>tokens := map (\<lambda>r. r\<lparr>tok_project := f r\<rparr>) (tokens toks)\<rparr>) =
      map_option (\<lambda>r. r\<lparr>tok_project := f r\<rparr>) (find_by_hash h toks)" for h
    by (simp add: find_by_hash_def)
  moreover have "reject_reason E now (map_option (\<lambda>r. r\<lparr>tok_project := f r\<rparr>) found) T = reject_reason E now found T" for found
    by (cases found) (simp_all add: reject_reason_def Let_def split: option.split)
  ultimately show ?thesis
    by (auto simp: resolve_actor_def Let_def split: option.splits)
qed

section \<open>Witnesses\<close>

definition sample_identity :: upsert_input where
  "sample_identity = \<lparr>in_provider = [1], in_sub = [2], in_email = None, in_display = [3]\<rparr>"

definition sample_users :: user_table where
  "sample_users = \<lparr>accounts = [\<lparr>usr_id = 1, usr_display = [3], usr_email = None, usr_legacy = 0, usr_service = 0,
     usr_disabled = None, acc_provider = Some [1], acc_sub = Some [2], acc_created = 0\<rparr>], next_account = 2\<rparr>"

lemma users_ok_sample: "users_ok sample_users"
  by (simp add: users_ok_def sample_users_def)

lemma seeding_is_a_history: "history_of_users T (snd (insert_service now d T))"
  unfolding history_of_users_def by (intro r_into_rtranclp user_step.seed [OF surjective_pairing])

lemma identities_never_change_hands_witness:
  "\<exists>a. find_by_oidc_sub [1] [2] sample_users = Inr (Some a) \<and>
    (\<exists>b. find_by_oidc_sub [1] [2] (snd (insert_service 7 (u ''mcp-bot'') sample_users)) = Inr (Some b) \<and> same_identity a b)"
proof -
  obtain a where a: "find_by_oidc_sub [1] [2] sample_users = Inr (Some a)"
    by (simp add: find_by_oidc_sub_def sample_users_def)
  with identities_never_change_hands [OF users_ok_sample seeding_is_a_history a] show ?thesis by blast
qed

lemma signing_in_finds_the_account_witness:
  "\<exists>a T'. upsert_from_oidc (\<lambda>U. snd (insert_service 7 (u ''mcp-bot'') U)) 8 (sample_identity\<lparr>in_display := [4]\<rparr>) sample_users = (Inr a, T') \<and>
    acc_provider a = Some [1] \<and> acc_sub a = Some [2] \<and>
    list_all (\<lambda>b. find_by_oidc_sub [1] [2] sample_users = Inr (Some b) \<longrightarrow> same_identity b a) (accounts sample_users)"
  using signing_in_finds_the_account [of sample_users "\<lambda>U. snd (insert_service 7 (u ''mcp-bot'') U)" "sample_identity\<lparr>in_display := [4]\<rparr>" 8]
    users_ok_sample seeding_is_a_history
  by (auto simp: sample_identity_def list_all_iff)

end
