(* ===== verification/Spec2Isabelle.thy ===== *)
theory Spec2Isabelle
  imports Dependency_Graph Wsjf_Rank Claim_Protocol Workflow_Laws Workflow_Rollback Event_Bus
    Graceful_Shutdown Router_Daemon_Laws Sse_Manager Device_Laws Audit_Log Wsjf_Rescore Scm_None
    Wait_For_Unblock Mcp_Identity
begin

text \<open>
  A verification library for Wood Fired Tasks, a task tracker that fleets of agents share: a
  server over one SQLite database (\<open>src/\<close>) and a daemon that turns its event stream into actions
  (\<open>packages/wft-router/src/\<close>).

  THE PROGRAM.  Every surface (REST, tools for agents, command line) ends in a call of a service.
  A service validates its input, reads and writes through repositories, and emits an event.  The
  task service is the hub: it asks the project repository whether a project exists, the evidence
  validator whether a task may be closed, the WSJF functions for scores and sizes, the cycle
  detector (through the dependency service) whether an edge is admissible, and it emits on the
  event bus.  The workflow engine listens on the bus in front of all others and answers a
  completed task by updating its parent and its dependents through the same task service, which
  re-enters the bus while it is called; the whole cascade is one transaction of the database and one
  buffer of the bus.  The SSE manager is an ordinary listener that passes committed events to
  connected clients, one of which is the router; it receives the events of a cascade before the
  event that set it off.  The router filters events by its rules, debounces and rate limits
  them, and hands them to one of four handlers, each of which claims the dispatch in a log of its
  own before it acts.  In front of the services a chain of hooks decides for whom a request
  acts, by a personal access token or a session, and which projects it may touch; the device flow
  is how a command line comes by a token.  Security-relevant actions are recorded in a chained,
  append-only audit table.

  HOW THE CODE IS READ.  An insertion-ordered \<open>Map\<close> is an association list with distinct keys and
  a \<open>Set\<close> a list without repetitions (Prelude); an object of an interface is a record, a union of
  literals a datatype, an optional field an option, and a field that may be absent or null an
  option of an option.  A table is the list of its rows with the next AUTOINCREMENT id; the
  constraints, cascades and triggers of the schema are part of the operations on it.  A call that
  may throw returns a sum with the error on the left, and a database after it: a throw keeps what
  was written before it unless a transaction was opened (Service_Monad).  Methods that suspend
  are cut at the point of suspension, and every order in which the pieces of several calls may run
  is a history: a list of labelled steps or an inductive relation.  Time is an argument, or a
  component of the step.  Loops are recursive functions; those that are not structural have a
  termination proof.  Identifiers and timestamps are unbounded integers, where the code has
  doubles holding integers below 2^53; UTF-8 bytes are 8-bit words; the WSJF ratios and the bucket
  of the rate limiter are exact rationals where the code has doubles, so claims about
  them are up to rounding.

  THE THEORIES, in the order of their dependence.

  Shared.  Prelude (maps, sets, \<open>Array.sort\<close> as a stable insertion sort with the locale
  \<open>js_comparator\<close>, text helpers), Json_Text (JSON values, text as code points, UTF-8 with a
  decoder whose fuel is the number of bytes, which is enough because every round consumes one),
  Task_Types (\<open>types/task.ts\<close>, \<open>types/wsjf.ts\<close>; the Fibonacci tiers are a \<open>linorder\<close>).

  The database.  Task_Store holds the tasks with their tags, the projects, the dependencies and
  the score history in the record \<open>db\<close> with the statements of \<open>task.repository.ts\<close>, \<open>dependency.repository.ts\<close> and the inserting part of
  \<open>wsjf-history.repository.ts\<close>; Task_Query the filters, the pages (default 50, at most 500) and the
  loops that read a project page by page; Store_Invariant the locale \<open>keyed_store\<close>, interpreted on
  the task rows, the invariant \<open>db_wf\<close> and its preservation by every statement.  The repository
  stores the status a creation names and no completion time with it; the service forces the status
  to open, and only for such histories every done row has its completion time.

  Graphs.  Cycle_Detector (\<open>utils/cycle-detector.ts\<close>), Graph_Contracts (the locales \<open>cycle_oracle\<close>,
  \<open>topology_classifier\<close> and \<open>two_classifiers\<close>), Dependency_Service (\<open>services/dependency.service.ts\<close>),
  Topology (\<open>services/topology.service.ts\<close>), Kahn and Dependency_Graph
  (\<open>services/dependency-graph.service.ts\<close>; a tree has at most 1000 nodes).  The depth-first search and
  Kahn's drain are both shown to decide acyclicity in the sense of \<open>acyclic\<close>, so they agree.

  Scoring.  Wsjf_Score and Wsjf_Rank (\<open>services/wsjf.service.ts\<close>: the tables, the gate every
  submission passes, redundant scoring, the closure, the propagation and the frontier),
  Wsjf_Rescore (\<open>services/wsjf-rescore.service.ts\<close> and its table of runs), Evidence_Validation
  (\<open>services/evidence-validation.ts\<close>).

  The task service.  Service_Errors and Service_Monad (\<open>services/errors.ts\<close>, the events of
  \<open>events/types.ts\<close>), Task_Service (\<open>services/task.service.ts\<close> and the schemas of
  \<open>schemas/task.schema.ts\<close>), with its lemmas in Task_Service_Laws (what each method does, step by
  step) and Task_Service_Facts (what it promises).  Claim_Protocol cuts \<open>claimTask\<close> between its
  checks and its compare-and-swap and adds the sweep of \<open>services/claim-release.service.ts\<close>.

  Projects and models.  Project_Service (project repository, charter history, schemas, service),
  Model_Policy (catalog with its cache, policies, settings with their memo).

  Events.  Workflow_Engine (\<open>services/workflow-engine.ts\<close>; a cascade is at most 5 completions
  deep, which is \<open>MAX_CASCADE_DEPTH\<close>, and the recursion of the model is over what is left of it),
  Workflow_Laws (the locale \<open>cascade_relation\<close>: a relation kept by one update is kept by a
  cascade), Workflow_Rollback (the engine over any updater, failing ones included), Event_Bus
  (\<open>events/event-bus.ts\<close>: the calls under way are an agenda, each emission carries what the
  handlers called with it do in turn, and the agenda empties by a weight), Sse_Manager
  (\<open>events/sse-manager.ts\<close> and \<open>api/routes/events.ts\<close>, with the check of the caps and the
  registration of a stream as two turns between which other requests run),
  Wait_For_Unblock (\<open>events/subscribe-once.ts\<close> and the tool \<open>wait_for_unblock\<close>).

  Source control.  Scm_None (\<open>scm/exclusions.ts\<close>, \<open>scm/detect.ts\<close> and the backend \<open>scm/none.ts\<close>,
  whose comparison with a manifest of digests is shown exact under the assumption its fast path
  needs).

  Access.  Pat_Tokens (making, hashing, scopes and the table of tokens), Project_Binding
  (\<open>api/plugins/auth/project-binding.ts\<close>, and apart from it the places in which the routes' schemas
  take the id of a project or task, of which the table leaves two out), Auth_Chain (the strategies, the gates, the token
  routes) with its lemmas in Auth_Laws (the locale \<open>kept_by_statements\<close>: what every statement of
  the token table keeps holds after every history), Device_Flow and Device_Laws (the store of
  sign-in sessions and the posting routes; a user code is drawn at most 33 times from blocks of 16
  bytes, and 272 blocks that hold usable bytes are enough for all of them), Mcp_Identity (the table of
  users, signing in, for whom the stdio server acts and the scopes of its tools), Audit_Log (the chained
  table).

  The router.  Sse_Parser and Sse_Client (\<open>sse/\<close>), Triggers_Config (\<open>config/\<close>), Router_Predicate
  (\<open>predicate.ts\<close>, \<open>startup-sweep.ts\<close>: at most 10 pages of 500), Template, Debouncer, Rate_Limiter,
  Idempotency_Store, Graceful_Shutdown (\<open>dispatch/\<close>), Router_Handlers (\<open>handlers/\<close>; a webhook
  follows at most 5 redirects) with Handler_Laws (the locale \<open>handler_contract\<close>, interpreted on the
  registry), Router_Metrics, Router_Daemon (\<open>daemon.ts\<close>) and Router_Daemon_Laws (the locale
  \<open>daemon_invariant\<close>: what every step of the event loop keeps holds in every run; interpreted
  three times).

  WHAT IS SHOWN.  Safety of the fleet: one claim wins however checks and commits interleave
  (\<open>one_claim_wins\<close>), statuses move along the transition table only, failed calls leave no trace,
  a cascade is justified step by step and leaves nothing undone, and the router starts an effect at
  most once per rule and event over all orders of its event loop and over restarts
  (\<open>no_dispatch_twice\<close>; at most once and not, as its documents say, at least once: a dispatch that a
  crash left pending is not performed again).  Safety of access: what a bound token, a revoked token or a device code can
  at most do, over histories of arbitrary requests.  Correctness of algorithms against a
  mathematical definition: cycle detection, Kahn's drain, breadth-first distances, the frontier,
  stable sorting, pagination.  Equivalence and refinement: chunking of a stream, the memo of the
  settings, the buffer of the bus, and the debouncer against a waiting room without timers.
  Integrity of the tables: reachable databases, projects and their charters, the audit chain up to
  a collision of the digest.  Bounds: rate limits, stream caps up to the requests in flight at once, tree sizes, text cuts.  Where the
  code does not do what its comments say, a lemma with a concrete run shows it
  (\<open>parent_completes_with_an_open_child\<close>, \<open>duplicate_submissions_record_a_stale_score\<close>,
  \<open>overlapping_requests_pass_the_cap\<close>, \<open>answers_overtake_events\<close>, \<open>foreign_tasks_pass_the_gate\<close> and
  others), and \<open>second_approver_takes_over\<close> says whose token a client is handed when two users send
  one code.

  PARAMETERS.  What lies outside the repository is an argument: SHA-256 (hypotheses say only that
  two named texts do not collide), the text of JSON documents and of dates, the parsing of URLs and
  YAML, the matching of FTS5, the answers of HTTP servers, the network of a stream, the file system
  and the process environment of a handler, random bytes, the clock, and the events that the
  runtime schedules.  A hypothesis on one of them is named in the statement, and a witness gives a
  function that meets it.

  NOT MODELLED.  The routes, tools, commands and messages that parse a request and call one method
  of a modelled service (REST routes other than those above, the MCP servers, the command line
  client, the Slack adapter): their content is the schema of the request and the name of the
  method.  Start-up, configuration, migrations and prepared statements: their content is SQL text
  and the composition of the modules, and what the tables guarantee is written into the statements
  of the models.  The OpenID client and the pages of the browser: they follow an external provider
  and produce HTML.  The adapters for git and Perforce: they run the programs git and p4.
  Comments, the health report over scores and the response cache.  Loggers, timers that
  only start a modelled sweep, and the scripts of the
  repository.
\<close>

end
